(* ===== verification/Prelude.thy ===== *)
theory Prelude
  imports Main "HOL-Library.Word" "HOL-Library.RBT" "HOL-Library.Multiset" "HOL-Library.Code_Target_Nat"
begin

text \<open>
  Shared vocabulary of the development: Rust's machine integers and their saturating
  operations, Rust strings as lists of Unicode scalar values, the list searches behind
  \<^verbatim>\<open>Iterator::position\<close>, \<^verbatim>\<open>Vec::remove\<close> and \<^verbatim>\<open>iter_mut().find\<close>, ordered maps
  (\<^verbatim>\<open>BTreeMap\<close>, and \<^verbatim>\<open>HashMap\<close> where only lookups matter) as red-black trees of
  \<^verbatim>\<open>HOL-Library.RBT\<close>, and the opaque identifiers of \<^verbatim>\<open>uniterm-core\<close>.
\<close>

section \<open>Machine integers\<close>

type_synonym u8 = "8 word"
type_synonym u16 = "16 word"
type_synonym u32 = "32 word"
type_synonym u64 = "64 word"
type_synonym i32 = "32 word"

text \<open>
  Plain \<open>+\<close> on words wraps, which is what the release profile of the repository does;
  the two saturating operations follow the standard library.
\<close>

definition saturating_add :: "'a::len word \<Rightarrow> 'a word \<Rightarrow> 'a word" where
  "saturating_add x y = (if x + y < x then - 1 else x + y)"

definition saturating_sub :: "'a::len word \<Rightarrow> 'a word \<Rightarrow> 'a word" where
  "saturating_sub x y = (if y \<le> x then x - y else 0)"

lemma word_less_succ: "x \<noteq> - 1 \<Longrightarrow> x < x + 1" for x :: "'a::len word"
proof -
  assume "x \<noteq> - 1"
  then have "1 + x \<noteq> 0" by (simp add: add.commute eq_neg_iff_add_eq_0)
  then have "unat (x + 1) = Suc (unat x)" by (metis add.commute unatSuc)
  then show "x < x + 1" by (simp add: word_less_nat_alt)
qed

lemma saturating_add_one: "saturating_add x 1 = (if x = - 1 then - 1 else x + 1)"
  for x :: "'a::len word"
proof (cases "x = - 1")
  case True
  have "(0::'a word) < - 1" by (simp add: word_gt_0)
  with True show ?thesis by (simp add: saturating_add_def)
next
  case False
  with word_less_succ [OF False] show ?thesis by (auto simp: saturating_add_def)
qed

lemma unat_saturating_add:
  "unat (saturating_add x y) = min (unat x + unat y) (2 ^ LENGTH('a) - 1)"
  for x y :: "'a::len word"
proof (cases "unat x + unat y < 2 ^ LENGTH('a)")
  case True
  then have "x \<le> x + y" by (simp add: no_olen_add_nat)
  with True show ?thesis
    by (auto simp: saturating_add_def unat_word_ariths not_le [symmetric])
next
  case False
  then have "x + y < x" by (simp add: no_olen_add_nat not_le [symmetric])
  with False show ?thesis
    by (simp add: saturating_add_def unsigned_minus_1_eq_mask mask_eq_exp_minus_1)
qed

lemma unat_saturating_sub: "unat (saturating_sub x y) = unat x - unat y"
  by (auto simp: saturating_sub_def unat_sub word_le_nat_alt)

text \<open>Screen coordinates are natural numbers; \<open>wrap16\<close> is what a 16-bit addition leaves of a sum.\<close>

definition wrap16 :: "nat \<Rightarrow> nat" where
  "wrap16 n = n mod 65536"

lemma wrap16_id [simp]: "n < 65536 \<Longrightarrow> wrap16 n = n"
  by (simp add: wrap16_def)

section \<open>Strings\<close>

text \<open>
  A Rust \<^verbatim>\<open>String\<close> is a list of Unicode scalar values; \<^verbatim>\<open>len()\<close> counts UTF-8 bytes and
  \<^verbatim>\<open>chars().take(n)\<close> takes scalar values. \<open>lit\<close> embeds an ASCII literal.
\<close>

type_synonym rchar = nat
type_synonym str = "rchar list"

definition lit :: "string \<Rightarrow> str" where
  "lit s = map of_char s"

definition utf8_len :: "rchar \<Rightarrow> nat" where
  "utf8_len c = (if c < 0x80 then 1 else if c < 0x800 then 2 else if c < 0x10000 then 3 else 4)"

definition str_len :: "str \<Rightarrow> nat" where
  "str_len s = sum_list (map utf8_len s)"

definition is_control :: "rchar \<Rightarrow> bool" where
  "is_control c \<longleftrightarrow> c < 0x20 \<or> (0x7F \<le> c \<and> c < 0xA0)"

definition is_whitespace :: "rchar \<Rightarrow> bool" where
  "is_whitespace c \<longleftrightarrow> (9 \<le> c \<and> c \<le> 13) \<or> c = 32 \<or> c = 0x85 \<or> c = 0xA0 \<or> c = 0x1680
     \<or> (0x2000 \<le> c \<and> c \<le> 0x200A) \<or> c = 0x2028 \<or> c = 0x2029 \<or> c = 0x202F \<or> c = 0x205F
     \<or> c = 0x3000"

lemma str_len_ge_length: "length s \<le> str_len s"
  by (induction s) (auto simp: str_len_def utf8_len_def)

lemma str_len_zero [simp]: "str_len s = 0 \<longleftrightarrow> s = []"
  by (cases s) (auto simp: str_len_def utf8_len_def)

text \<open>\<^verbatim>\<open>str::split\<close> on one character: always at least one component.\<close>

fun str_split :: "rchar \<Rightarrow> str \<Rightarrow> str list" where
  "str_split c [] = [[]]"
| "str_split c (x # xs) =
     (case str_split c xs of
        [] \<Rightarrow> [[x]]
      | w # ws \<Rightarrow> if x = c then [] # w # ws else (x # w) # ws)"

text \<open>Decimal digits that fit 16 bits, as \<^verbatim>\<open>str::parse\<close> reads them.\<close>

definition parse_u16 :: "str \<Rightarrow> nat option" where
  "parse_u16 s =
     (let ds = (case s of c # r \<Rightarrow> if c = 43 \<and> r \<noteq> [] then r else s | [] \<Rightarrow> [])
      in if ds = [] \<or> \<not> list_all (\<lambda>c. 48 \<le> c \<and> c \<le> 57) ds then None
         else (let n = fold (\<lambda>c n. n * 10 + (c - 48)) ds 0 in if n < 2 ^ 16 then Some n else None))"

section \<open>Searching and editing vectors\<close>

fun position :: "('a \<Rightarrow> bool) \<Rightarrow> 'a list \<Rightarrow> nat option" where
  "position P [] = None"
| "position P (x # xs) = (if P x then Some 0 else map_option Suc (position P xs))"

definition rposition :: "('a \<Rightarrow> bool) \<Rightarrow> 'a list \<Rightarrow> nat option" where
  "rposition P xs = map_option (\<lambda>i. length xs - Suc i) (position P (rev xs))"

definition remove_at :: "nat \<Rightarrow> 'a list \<Rightarrow> 'a list" where
  "remove_at i xs = take i xs @ drop (Suc i) xs"

fun update_first :: "('a \<Rightarrow> bool) \<Rightarrow> ('a \<Rightarrow> 'a) \<Rightarrow> 'a list \<Rightarrow> 'a list" where
  "update_first P f [] = []"
| "update_first P f (x # xs) = (if P x then f x # xs else x # update_first P f xs)"

lemma position_None_iff: "position P xs = None \<longleftrightarrow> (\<forall>x\<in>set xs. \<not> P x)"
  by (induction xs) auto

lemma position_SomeD:
  "position P xs = Some i \<Longrightarrow> i < length xs \<and> P (xs ! i) \<and> (\<forall>j<i. \<not> P (xs ! j))"
proof (induction xs arbitrary: i)
  case Nil
  then show ?case by simp
next
  case (Cons x xs)
  show ?case
  proof (cases "P x")
    case True
    with Cons.prems show ?thesis by auto
  next
    case False
    with Cons.prems obtain k where k: "position P xs = Some k" "i = Suc k"
      by auto
    with Cons.IH [OF k(1)] False show ?thesis
      by (auto simp: less_Suc_eq_0_disj)
  qed
qed

lemma position_in_set: "position P xs = Some i \<Longrightarrow> xs ! i \<in> set xs \<and> P (xs ! i)"
  by (auto dest: position_SomeD)

lemma position_find: "find P xs = map_option ((!) xs) (position P xs)"
  by (induction xs) (auto simp: option.map_comp comp_def)

lemma split_at: "i < length xs \<Longrightarrow> xs = take i xs @ xs ! i # drop (Suc i) xs"
  by (rule id_take_nth_drop)

lemma mset_remove_at: "i < length xs \<Longrightarrow> mset (remove_at i xs) = mset xs - {#xs ! i#}"
  by (subst (2) split_at) (auto simp: remove_at_def)

lemma set_remove_at_subset: "set (remove_at i xs) \<subseteq> set xs"
  by (auto simp: remove_at_def dest: in_set_takeD in_set_dropD)

lemma length_remove_at: "i < length xs \<Longrightarrow> length (remove_at i xs) = length xs - 1"
  by (simp add: remove_at_def)

text \<open>With pairwise distinct keys, removing by position is filtering by key.\<close>

lemma remove_at_filter:
  "i < length xs \<Longrightarrow> distinct (map f xs) \<Longrightarrow>
     remove_at i xs = filter (\<lambda>x. f x \<noteq> f (xs ! i)) xs"
proof (induction xs arbitrary: i)
  case Nil
  then show ?case by simp
next
  case (Cons x xs)
  show ?case
  proof (cases i)
    case 0
    have "filter (\<lambda>y. f y \<noteq> f x) xs = xs"
      using Cons.prems(2) by (intro filter_True) (auto simp: image_iff)
    with 0 show ?thesis by (simp add: remove_at_def)
  next
    case (Suc k)
    with Cons.prems have "f x \<noteq> f (xs ! k)" by force
    with Suc Cons show ?thesis by (simp add: remove_at_def)
  qed
qed

lemma distinct_map_filter_key: "distinct (map f xs) \<Longrightarrow> distinct (map f (filter P xs))"
  by (induction xs) auto

lemma map_update_first_key:
  "(\<And>x. P x \<Longrightarrow> k (f x) = k x) \<Longrightarrow> map k (update_first P f xs) = map k xs"
  by (induction xs) auto

lemma length_update_first [simp]: "length (update_first P f xs) = length xs"
  by (induction xs) auto

lemma set_update_first_subset: "set (update_first P f xs) \<subseteq> set xs \<union> f ` {x \<in> set xs. P x}"
  by (induction xs) auto

section \<open>Ordered maps and sets\<close>

type_synonym 'a bset = "('a, unit) rbt"

abbreviation mlookup :: "('k::linorder, 'v) rbt \<Rightarrow> 'k \<rightharpoonup> 'v" where
  "mlookup \<equiv> RBT.lookup"

definition mlen :: "('k::linorder, 'v) rbt \<Rightarrow> nat" where
  "mlen m = length (RBT.entries m)"

definition mvalues :: "('k::linorder, 'v) rbt \<Rightarrow> 'v list" where
  "mvalues m = map snd (RBT.entries m)"

text \<open>\<^verbatim>\<open>entry(k).or_default().push(x)\<close> and \<^verbatim>\<open>get(k).map_or(&[], ..)\<close> of a vector index.\<close>

definition multi_get :: "('k::linorder, 'v list) rbt \<Rightarrow> 'k \<Rightarrow> 'v list" where
  "multi_get m k = (case mlookup m k of None \<Rightarrow> [] | Some xs \<Rightarrow> xs)"

definition multi_push :: "'k \<Rightarrow> 'v \<Rightarrow> ('k::linorder, 'v list) rbt \<Rightarrow> ('k, 'v list) rbt" where
  "multi_push k x m = RBT.insert k (multi_get m k @ [x]) m"

definition bset_mem :: "'a::linorder \<Rightarrow> 'a bset \<Rightarrow> bool" where
  "bset_mem x s \<longleftrightarrow> mlookup s x \<noteq> None"

definition bset_insert :: "'a::linorder \<Rightarrow> 'a bset \<Rightarrow> 'a bset" where
  "bset_insert x s = RBT.insert x () s"

definition bset_elems :: "'a::linorder bset \<Rightarrow> 'a list" where
  "bset_elems s = map fst (RBT.entries s)"

lemma mlen_card: "mlen m = card (dom (mlookup m))"
proof -
  have "card (set (map fst (RBT.entries m))) = length (map fst (RBT.entries m))"
    by (rule distinct_card) (rule RBT.distinct_entries)
  then show ?thesis
    by (simp add: mlen_def RBT.lookup_keys RBT.keys_def_alt)
qed

lemma mlen_empty [simp]: "mlen RBT.empty = 0"
  by (simp add: mlen_card)

lemma mlen_insert: "mlen (RBT.insert k v m) = (if mlookup m k = None then Suc (mlen m) else mlen m)"
  by (auto simp: mlen_card domIff card_insert_if insert_absorb)

lemma mlen_delete: "mlen (RBT.delete k m) = (if mlookup m k = None then mlen m else mlen m - 1)"
  by (auto simp: mlen_card domIff card_Diff_singleton dom_fun_upd)

lemma entries_iff: "(k, v) \<in> set (RBT.entries m) \<longleftrightarrow> mlookup m k = Some v"
  by (simp add: RBT.lookup_in_tree)

lemma mvalues_iff: "v \<in> set (mvalues m) \<longleftrightarrow> (\<exists>k. mlookup m k = Some v)"
  by (force simp: mvalues_def entries_iff [symmetric])

lemma multi_get_empty [simp]: "multi_get RBT.empty k = []"
  by (simp add: multi_get_def)

lemma multi_get_push: "multi_get (multi_push k x m) k' = (if k' = k then multi_get m k @ [x] else multi_get m k')"
  by (simp add: multi_push_def multi_get_def)

lemma multi_get_insert: "multi_get (RBT.insert k xs m) k' = (if k' = k then xs else multi_get m k')"
  by (simp add: multi_get_def)

lemma multi_get_delete: "multi_get (RBT.delete k m) k' = (if k' = k then [] else multi_get m k')"
  by (simp add: multi_get_def)

lemma bset_mem_empty [simp]: "\<not> bset_mem x RBT.empty"
  by (simp add: bset_mem_def)

lemma bset_mem_insert [simp]: "bset_mem x (bset_insert y s) \<longleftrightarrow> x = y \<or> bset_mem x s"
  by (auto simp: bset_mem_def bset_insert_def)

lemma bset_mem_delete [simp]: "bset_mem x (RBT.delete y s) \<longleftrightarrow> x \<noteq> y \<and> bset_mem x s"
  by (auto simp: bset_mem_def)

lemma set_bset_elems: "x \<in> set (bset_elems s) \<longleftrightarrow> bset_mem x s"
  by (force simp: bset_elems_def bset_mem_def entries_iff [symmetric])

lemma distinct_bset_elems: "distinct (bset_elems s)"
  by (simp add: bset_elems_def RBT.distinct_entries)

section \<open>Opaque identifiers\<close>

text \<open>The newtypes of \<^verbatim>\<open>uniterm-core/src/lib.rs\<close>, ordered by the number they wrap.\<close>

datatype pane_id = PaneId (pane_raw: u64)

instantiation pane_id :: linorder
begin

definition less_eq_pane_id :: "pane_id \<Rightarrow> pane_id \<Rightarrow> bool" where
  "less_eq_pane_id a b \<longleftrightarrow> pane_raw a \<le> pane_raw b"

definition less_pane_id :: "pane_id \<Rightarrow> pane_id \<Rightarrow> bool" where
  "less_pane_id a b \<longleftrightarrow> pane_raw a < pane_raw b"

instance
  by standard (auto simp: less_eq_pane_id_def less_pane_id_def pane_id.expand)

end

datatype project_id = ProjectId (project_raw: u64)

instantiation project_id :: linorder
begin

definition less_eq_project_id :: "project_id \<Rightarrow> project_id \<Rightarrow> bool" where
  "less_eq_project_id a b \<longleftrightarrow> project_raw a \<le> project_raw b"

definition less_project_id :: "project_id \<Rightarrow> project_id \<Rightarrow> bool" where
  "less_project_id a b \<longleftrightarrow> project_raw a < project_raw b"

instance
  by standard (auto simp: less_eq_project_id_def less_project_id_def project_id.expand)

end

text \<open>The orientation of a split (\<^verbatim>\<open>layout.rs\<close>): side by side, or stacked.\<close>

datatype split_dir = Horizontal | Vertical

end
