(* ===== verification/Interfaces.thy ===== *)
theory Interfaces
  imports Prelude
begin

text \<open>
  The contracts several components share, stated once as locales. \<open>id_projection\<close> is the
  contract of an event-backed collection whose items carry 64-bit ids handed out by a
  monotonic allocator (the instruction queue, the waiting queue, the task list).
  \<open>reducer\<close> is the contract of a state rebuilt from a stream of events, and
  \<open>atomic_reducer\<close> adds that a rejected event leaves the state alone (the run graph and the
  artifact ledger). \<open>codec\<close> is the contract of an encoder and its decoder. Every locale is
  interpreted on the components that provide it.
\<close>

section \<open>Collections with allocated ids\<close>

datatype 'i id_op = Insert_item 'i | Delete_id u64

locale id_projection =
  fixes ids :: "'s \<Rightarrow> u64 list"
    and next_id :: "'s \<Rightarrow> u64"
    and ins :: "'i \<Rightarrow> 's \<Rightarrow> 's"
    and key :: "'i \<Rightarrow> u64"
    and del :: "u64 \<Rightarrow> 's \<Rightarrow> 's"
  assumes ins_ids: "set (ids (ins i s)) \<subseteq> insert (key i) (set (ids s))"
    and ins_present: "key i \<in> set (ids (ins i s))"
    and ins_distinct: "distinct (ids s) \<Longrightarrow> distinct (ids (ins i s))"
    and ins_next: "key i \<noteq> - 1 \<Longrightarrow> next_id (ins i s) = max (next_id s) (key i + 1)"
    and del_ids: "distinct (ids s) \<Longrightarrow> set (ids (del k s)) = set (ids s) - {k}"
    and del_distinct: "distinct (ids s) \<Longrightarrow> distinct (ids (del k s))"
    and del_next: "next_id (del k s) = next_id s"
begin

definition alloc_ok :: "'s \<Rightarrow> bool" where
  "alloc_ok s \<longleftrightarrow> distinct (ids s) \<and> (\<forall>k\<in>set (ids s). k < next_id s)"

fun run :: "'i id_op list \<Rightarrow> 's \<Rightarrow> 's" where
  "run [] s = s"
| "run (Insert_item i # ops) s = run ops (ins i s)"
| "run (Delete_id k # ops) s = run ops (del k s)"

lemma ins_alloc_ok:
  assumes "alloc_ok s" and "key i \<noteq> - 1"
  shows "alloc_ok (ins i s)" and "key i < next_id (ins i s)" and "next_id s \<le> next_id (ins i s)"
proof -
  have n: "next_id (ins i s) = max (next_id s) (key i + 1)"
    using assms(2) by (rule ins_next)
  show k: "key i < next_id (ins i s)"
    using word_less_succ [OF assms(2)] n by (simp add: less_max_iff_disj)
  show "next_id s \<le> next_id (ins i s)"
    using n by simp
  have "\<forall>k\<in>set (ids (ins i s)). k < next_id (ins i s)"
    using ins_ids [of i s] k n assms(1) unfolding alloc_ok_def by (fastforce simp: less_max_iff_disj)
  then show "alloc_ok (ins i s)"
    using assms(1) ins_distinct by (simp add: alloc_ok_def)
qed

lemma del_alloc_ok: "alloc_ok s \<Longrightarrow> alloc_ok (del k s)"
  using del_ids del_distinct del_next by (auto simp: alloc_ok_def)

lemma run_alloc_ok:
  "alloc_ok s \<Longrightarrow> (\<And>i. Insert_item i \<in> set ops \<Longrightarrow> key i \<noteq> - 1) \<Longrightarrow>
     alloc_ok (run ops s) \<and> next_id s \<le> next_id (run ops s)"
proof (induction ops s rule: run.induct)
  case (2 i ops s)
  then have "alloc_ok (ins i s)" and "next_id s \<le> next_id (ins i s)"
    using ins_alloc_ok by auto
  with 2 show ?case by fastforce
next
  case (3 k ops s)
  then show ?case using del_alloc_ok [of s k] del_next [of k s] by auto
qed simp

text \<open>
  Freshness: after any interleaving of insertions and deletions the allocator's next id is
  carried by no live item and lies above every id ever inserted, so it is never reissued.
\<close>

lemma run_fresh:
  assumes "alloc_ok s" and "\<And>i. Insert_item i \<in> set ops \<Longrightarrow> key i \<noteq> - 1"
  shows "next_id (run ops s) \<notin> set (ids (run ops s))"
    and "Insert_item i \<in> set ops \<Longrightarrow> key i < next_id (run ops s)"
proof -
  show "next_id (run ops s) \<notin> set (ids (run ops s))"
    using run_alloc_ok [OF assms] by (auto simp: alloc_ok_def)
  show "Insert_item i \<in> set ops \<Longrightarrow> key i < next_id (run ops s)"
    using assms
  proof (induction ops s rule: run.induct)
    case (2 j ops s)
    have a: "alloc_ok (ins j s)" and j: "key j < next_id (ins j s)"
      using ins_alloc_ok [of s j] 2 by auto
    have m: "next_id (ins j s) \<le> next_id (run ops (ins j s))"
      using run_alloc_ok [OF a] 2 by auto
    show ?case
    proof (cases "Insert_item i \<in> set ops")
      case True
      with 2 a show ?thesis by auto
    next
      case False
      with 2 j m show ?thesis by auto
    qed
  next
    case (3 k ops s)
    then show ?case using del_alloc_ok by auto
  qed simp
qed

end

section \<open>States rebuilt from events\<close>

locale reducer =
  fixes init :: "'s"
    and step :: "'e \<Rightarrow> 's \<Rightarrow> 's \<times> ('err + 'r)"
    and inv :: "'s \<Rightarrow> bool"
  assumes init_inv: "inv init"
    and step_inv: "inv s \<Longrightarrow> inv (fst (step e s))"
begin

primrec replay :: "'e list \<Rightarrow> 's \<Rightarrow> 's" where
  "replay [] s = s"
| "replay (e # es) s = replay es (fst (step e s))"

lemma replay_inv: "inv s \<Longrightarrow> inv (replay es s)"
  by (induction es arbitrary: s) (auto intro: step_inv)

lemma replay_init_inv: "inv (replay es init)"
  by (rule replay_inv [OF init_inv])

lemma replay_append: "replay (es @ fs) s = replay fs (replay es s)"
  by (induction es arbitrary: s) auto

end

locale atomic_reducer = reducer init step inv
  for init :: "'s" and step :: "'e \<Rightarrow> 's \<Rightarrow> 's \<times> ('err + 'r)" and inv :: "'s \<Rightarrow> bool" +
  assumes step_atomic: "snd (step e s) = Inl err \<Longrightarrow> fst (step e s) = s"
begin

fun accepted :: "'e list \<Rightarrow> 's \<Rightarrow> 'e list" where
  "accepted [] s = []"
| "accepted (e # es) s =
     (case step e s of
        (s', Inl err) \<Rightarrow> accepted es s'
      | (s', Inr r) \<Rightarrow> e # accepted es s')"

text \<open>
  Recovery from a log that holds the accepted events only: it rebuilds the same state, and
  no event of it is rejected on the way.
\<close>

lemma replay_accepted: "replay (accepted es s) s = replay es s"
proof (induction es arbitrary: s)
  case (Cons e es)
  show ?case
  proof (cases "step e s")
    case (Pair s' r)
    show ?thesis
    proof (cases r)
      case (Inl err)
      with Pair have "s' = s" using step_atomic [of e s err] by simp
      with Pair Inl Cons show ?thesis by simp
    next
      case (Inr x)
      with Pair Cons show ?thesis by simp
    qed
  qed
qed simp

lemma accepted_accepted: "accepted (accepted es s) s = accepted es s"
proof (induction es arbitrary: s)
  case (Cons e es)
  show ?case
  proof (cases "step e s")
    case (Pair s' r)
    show ?thesis
    proof (cases r)
      case (Inl err)
      with Pair have "s' = s" using step_atomic [of e s err] by simp
      with Pair Inl Cons show ?thesis by simp
    next
      case (Inr x)
      with Pair Cons show ?thesis by simp
    qed
  qed
qed simp

end

section \<open>Projections of a log that suppresses repeated records\<close>

text \<open>
  \<^verbatim>\<open>EventLog::record\<close> drops a record equal to the one before it. That is sound for a
  projection in which playing a record twice is playing it once.
\<close>

locale suppressible =
  fixes play :: "'e \<Rightarrow> 's \<Rightarrow> 's"
    and good :: "'s \<Rightarrow> bool"
  assumes play_good: "good s \<Longrightarrow> good (play e s)"
    and play_twice: "good s \<Longrightarrow> play e (play e s) = play e s"
begin

lemma fold_remdups_adj: "good s \<Longrightarrow> fold play (remdups_adj es) s = fold play es s"
proof (induction es arbitrary: s rule: remdups_adj.induct)
  case (3 x y es)
  then show ?case
  proof (cases "x = y")
    case True
    with 3(3) have "fold play (remdups_adj (x # y # es)) s = fold play (remdups_adj (x # es)) s" by simp
    also have "\<dots> = fold play (x # es) s" using 3(1) [OF True 3(3)] True by simp
    also have "\<dots> = fold play (x # y # es) s" using True play_twice [OF 3(3)] by simp
    finally show ?thesis .
  next
    case False
    with 3(2) [OF False play_good [OF 3(3)]] show ?thesis by simp
  qed
qed auto

end

section \<open>Codecs\<close>

text \<open>
  Decoding inverts encoding on the values that are \<open>ok\<close>. Provided by the UTF-8 codec, the
  catalog keys of Workspace names and, as a hypothesis, by the payload format of the wire;
  used by the frame codec.
\<close>

locale codec =
  fixes enc :: "'a \<Rightarrow> 'b"
    and dec :: "'b \<Rightarrow> 'a option"
    and ok :: "'a \<Rightarrow> bool"
  assumes dec_enc: "ok x \<Longrightarrow> dec (enc x) = Some x"
begin

lemma enc_inj: "ok x \<Longrightarrow> ok y \<Longrightarrow> enc x = enc y \<longleftrightarrow> x = y"
  using dec_enc by (metis option.inject)

lemma enc_inj_on: "inj_on enc {x. ok x}"
  by (auto simp: inj_on_def enc_inj)

end

end
