(* ===== verification/Orchestrate.thy ===== *)
theory Orchestrate
  imports Interfaces
begin

text \<open>
  The decision brain shared by workflows and relays,
  \<^verbatim>\<open>crates/uniterm-core/src/orchestrate.rs\<close>: roles and provider selections, the
  orchestration \<open>orch_state\<close>, its private transitions (\<open>open_turn\<close>,
  \<open>advance_after_done\<close>, \<open>pause\<close>, \<open>abort_run\<close>, \<open>route_fix\<close>, \<open>route_replan\<close>) and the
  reducer \<open>step\<close>. Indexing \<open>roles[cur]\<close> out of range panics in the source; \<open>step\<close> then
  returns \<open>None\<close>. Iterations are 32-bit and tokens 64-bit words, so that both counters wrap
  as the compiled code does.
\<close>

section \<open>Data\<close>

record provider_requirement =
  capabilities :: "str list"

definition provider_requirement_any :: provider_requirement where
  "provider_requirement_any = \<lparr>capabilities = []\<rparr>"

definition provider_requirement_all :: "str list \<Rightarrow> provider_requirement" where
  "provider_requirement_all caps = \<lparr>capabilities = caps\<rparr>"

record role =
  role_name :: str
  verifier :: bool
  provider_requirement :: provider_requirement

definition role_new :: "str \<Rightarrow> bool \<Rightarrow> role" where
  "role_new nm v = \<lparr>role_name = nm, verifier = v, provider_requirement = provider_requirement_any\<rparr>"

definition role_requiring :: "str \<Rightarrow> bool \<Rightarrow> str list \<Rightarrow> role" where
  "role_requiring nm v caps =
     \<lparr>role_name = nm, verifier = v, provider_requirement = provider_requirement_all caps\<rparr>"

record role_provider_selection =
  sel_role :: str
  sel_provider :: str

datatype selection_error =
    EmptyRole
  | EmptyProvider str
  | RoleTooLong
  | ProviderTooLong str
  | UnknownRole str
  | DuplicateRole str

datatype verdict = Approved | Fix str | Replan str

datatype submit_status = Done | NeedsInput | Failed

record submit =
  sub_token :: u64
  sub_role :: nat
  sub_status :: submit_status
  sub_verdict :: "verdict option"

datatype event =
    EStart
  | ESubmit submit
  | EIdle nat
  | EStall
  | EGuardrail str
  | EResume
  | EStop

datatype action =
    Inject nat u64
  | AwaitSubmit
  | Complete
  | Escalate str
  | Abort str
  | Hold

datatype phase = PhIdle | Awaiting | Paused | PhDone | Aborted

record orch_state =
  roles :: "role list"
  cur :: nat
  iteration :: u32
  max_iterations :: u32
  token :: u64
  token_seq :: u64
  last_fix :: "str option"
  fix_target :: nat
  replan_target :: nat
  phase :: phase

section \<open>Provider selections\<close>

fun align_loop :: "role list \<Rightarrow> role_provider_selection list \<Rightarrow> str option list
    \<Rightarrow> selection_error + str option list" where
  "align_loop rs [] aligned = Inr aligned"
| "align_loop rs (sel # sels) aligned =
     (if sel_role sel = [] then Inl EmptyRole
      else if str_len (sel_role sel) > 256 then Inl RoleTooLong
      else if sel_provider sel = [] then Inl (EmptyProvider (sel_role sel))
      else if str_len (sel_provider sel) > 256 then Inl (ProviderTooLong (sel_role sel))
      else (case position (\<lambda>r. role_name r = sel_role sel) rs of
              None \<Rightarrow> Inl (UnknownRole (sel_role sel))
            | Some index \<Rightarrow>
                (if aligned ! index \<noteq> None then Inl (DuplicateRole (sel_role sel))
                 else align_loop rs sels (aligned[index := Some (sel_provider sel)]))))"

definition align_role_provider_selections ::
    "role list \<Rightarrow> role_provider_selection list \<Rightarrow> selection_error + str option list" where
  "align_role_provider_selections rs sels = align_loop rs sels (replicate (length rs) None)"

section \<open>The state machine\<close>

definition state_new :: "role list \<Rightarrow> u32 \<Rightarrow> orch_state" where
  "state_new rs max_it =
     (let verifier_idx = (case position verifier rs of None \<Rightarrow> 0 | Some i \<Rightarrow> i)
      in \<lparr>roles = rs, cur = 0, iteration = 0, max_iterations = max_it, token = 0, token_seq = 0,
          last_fix = None, fix_target = verifier_idx - 1, replan_target = 0, phase = PhIdle\<rparr>)"

definition open_turn :: "orch_state \<Rightarrow> action \<times> orch_state" where
  "open_turn s =
     (let seq = token_seq s + 1
      in (Inject (cur s) seq, s\<lparr>token_seq := seq, token := seq, phase := Awaiting\<rparr>))"

definition advance_after_done :: "orch_state \<Rightarrow> action \<times> orch_state" where
  "advance_after_done s =
     (if cur s + 1 \<ge> length (roles s) then (Complete, s\<lparr>phase := PhDone\<rparr>)
      else open_turn (s\<lparr>cur := cur s + 1\<rparr>))"

definition pause :: "str \<Rightarrow> orch_state \<Rightarrow> action \<times> orch_state" where
  "pause reason s = (Escalate reason, s\<lparr>phase := Paused\<rparr>)"

definition abort_run :: "str \<Rightarrow> orch_state \<Rightarrow> action \<times> orch_state" where
  "abort_run reason s = (Abort reason, s\<lparr>phase := Aborted\<rparr>)"

definition route_fix :: "str \<Rightarrow> orch_state \<Rightarrow> action \<times> orch_state" where
  "route_fix findings s =
     (if last_fix s = Some findings
      then pause (lit ''verdict stalled (two identical fix verdicts)'') s
      else
        (let s1 = s\<lparr>last_fix := Some findings, iteration := iteration s + 1\<rparr>
         in if iteration s1 > max_iterations s1 then pause (lit ''max iterations exceeded'') s1
            else open_turn (s1\<lparr>cur := fix_target s1\<rparr>)))"

definition route_replan :: "orch_state \<Rightarrow> action \<times> orch_state" where
  "route_replan s =
     (let s1 = s\<lparr>iteration := iteration s + 1\<rparr>
      in if iteration s1 > max_iterations s1 then pause (lit ''max iterations exceeded'') s1
         else open_turn (s1\<lparr>last_fix := None, cur := replan_target s1\<rparr>))"

definition step_submit :: "orch_state \<Rightarrow> submit \<Rightarrow> (action \<times> orch_state) option" where
  "step_submit s sub =
     (if phase s \<noteq> Awaiting then Some (Hold, s)
      else if sub_token sub \<noteq> token s \<or> sub_role sub \<noteq> cur s then Some (Hold, s)
      else if cur s \<ge> length (roles s) then None
      else
        (let is_verifier = verifier (roles s ! cur s)
         in if sub_verdict sub \<noteq> None \<and> \<not> is_verifier then Some (Hold, s)
            else (case sub_status sub of
                Failed \<Rightarrow> Some (pause (lit ''role reported failure'') s)
              | NeedsInput \<Rightarrow> Some (AwaitSubmit, s)
              | Done \<Rightarrow>
                  (if is_verifier then
                     (case sub_verdict sub of
                        Some Approved \<Rightarrow> Some (Complete, s\<lparr>phase := PhDone\<rparr>)
                      | Some (Fix f) \<Rightarrow> Some (route_fix f s)
                      | Some (Replan _) \<Rightarrow> Some (route_replan s)
                      | None \<Rightarrow> Some (AwaitSubmit, s))
                   else Some (advance_after_done s)))))"

definition step_idle :: "orch_state \<Rightarrow> nat \<Rightarrow> (action \<times> orch_state) option" where
  "step_idle s r =
     (if phase s \<noteq> Awaiting \<or> r \<noteq> cur s then Some (Hold, s)
      else if cur s \<ge> length (roles s) then None
      else if verifier (roles s ! cur s) then Some (Hold, s)
      else Some (advance_after_done s))"

definition step :: "orch_state \<Rightarrow> event \<Rightarrow> (action \<times> orch_state) option" where
  "step s e =
     (if phase s = PhDone \<or> phase s = Aborted then Some (Hold, s)
      else if phase s = Paused then
        (case e of
           EResume \<Rightarrow> Some (open_turn s)
         | EStop \<Rightarrow> Some (abort_run (lit ''stopped by human'') s)
         | _ \<Rightarrow> Some (Hold, s))
      else
        (case e of
           EStart \<Rightarrow>
             (if phase s \<noteq> PhIdle then Some (Hold, s) else Some (open_turn (s\<lparr>cur := 0\<rparr>)))
         | EStop \<Rightarrow> Some (abort_run (lit ''stopped by human'') s)
         | EStall \<Rightarrow> Some (pause (lit ''turn stalled'') s)
         | EGuardrail reason \<Rightarrow> Some (pause reason s)
         | EResume \<Rightarrow> Some (Hold, s)
         | EIdle r \<Rightarrow> step_idle s r
         | ESubmit sub \<Rightarrow> step_submit s sub))"

definition decide_relay_next :: "orch_state \<Rightarrow> event \<Rightarrow> (action \<times> orch_state) option" where
  "decide_relay_next s e = step s e"

definition decide_workflow_next :: "orch_state \<Rightarrow> event \<Rightarrow> (action \<times> orch_state) option" where
  "decide_workflow_next s e = step s e"

text \<open>A run feeds events in order and collects the actions the server interprets.\<close>

fun run_events :: "orch_state \<Rightarrow> event list \<Rightarrow> (action list \<times> orch_state) option" where
  "run_events s [] = Some ([], s)"
| "run_events s (e # es) =
     (case step s e of
        None \<Rightarrow> None
      | Some (a, s') \<Rightarrow> map_option (\<lambda>(acts, t). (a # acts, t)) (run_events s' es))"

inductive reachable :: "role list \<Rightarrow> u32 \<Rightarrow> orch_state \<Rightarrow> bool" for rs max_it where
  reach_new: "reachable rs max_it (state_new rs max_it)"
| reach_step: "reachable rs max_it s \<Longrightarrow> step s e = Some (a, t) \<Longrightarrow> reachable rs max_it t"

definition orch_wf :: "orch_state \<Rightarrow> bool" where
  "orch_wf s \<longleftrightarrow> cur s < length (roles s) \<and> fix_target s < length (roles s)
     \<and> replan_target s < length (roles s) \<and> token s = token_seq s
     \<and> (phase s = PhIdle \<longrightarrow> cur s = 0)"

section \<open>Every step is defined and keeps the state well formed\<close>

lemmas orch_transition_defs =
  open_turn_def advance_after_done_def pause_def abort_run_def route_fix_def route_replan_def
  Let_def

lemmas orch_step_defs = step_def step_idle_def step_submit_def orch_transition_defs

lemma orch_wf_new: "rs \<noteq> [] \<Longrightarrow> orch_wf (state_new rs max_it)"
  by (auto simp: orch_wf_def state_new_def Let_def split: option.split
      dest!: position_SomeD)

lemma open_turn_wf:
  "cur s < length (roles s) \<Longrightarrow> fix_target s < length (roles s) \<Longrightarrow>
     replan_target s < length (roles s) \<Longrightarrow> orch_wf (snd (open_turn s))"
  by (simp add: orch_wf_def open_turn_def Let_def)

lemma advance_wf: "orch_wf s \<Longrightarrow> phase s \<noteq> PhIdle \<Longrightarrow> orch_wf (snd (advance_after_done s))"
  by (auto simp: orch_wf_def advance_after_done_def open_turn_def Let_def)

lemma pause_wf: "orch_wf s \<Longrightarrow> orch_wf (snd (pause r s))"
  by (auto simp: orch_wf_def pause_def)

lemma abort_wf: "orch_wf s \<Longrightarrow> orch_wf (snd (abort_run r s))"
  by (auto simp: orch_wf_def abort_run_def)

lemma route_fix_wf: "orch_wf s \<Longrightarrow> phase s \<noteq> PhIdle \<Longrightarrow> orch_wf (snd (route_fix f s))"
  by (auto simp: orch_wf_def route_fix_def open_turn_def pause_def Let_def)

lemma route_replan_wf: "orch_wf s \<Longrightarrow> phase s \<noteq> PhIdle \<Longrightarrow> orch_wf (snd (route_replan s))"
  by (auto simp: orch_wf_def route_replan_def open_turn_def pause_def Let_def)

lemma step_submit_wf:
  assumes "orch_wf s"
  shows "\<exists>a t. step_submit s sub = Some (a, t) \<and> orch_wf t"
proof (cases "phase s = Awaiting")
  case True
  note wf = assms advance_wf [OF assms] pause_wf [OF assms] route_fix_wf [OF assms]
    route_replan_wf [OF assms]
  have "orch_wf (s\<lparr>phase := PhDone\<rparr>)"
    using assms by (simp add: orch_wf_def)
  with wf True show ?thesis
    by (auto simp: step_submit_def Let_def orch_wf_def [of s] prod_eq_iff
        split: submit_status.split verdict.split option.split)
next
  case False
  with assms show ?thesis by (simp add: step_submit_def)
qed

lemma step_idle_wf:
  assumes "orch_wf s"
  shows "\<exists>a t. step_idle s r = Some (a, t) \<and> orch_wf t"
  using assms advance_wf [OF assms]
  by (auto simp: step_idle_def orch_wf_def [of s] prod_eq_iff)

lemma step_wf:
  assumes "orch_wf s"
  shows "\<exists>a t. step s e = Some (a, t) \<and> orch_wf t"
proof -
  have "orch_wf (snd (open_turn s))" and "orch_wf (snd (open_turn (s\<lparr>cur := 0\<rparr>)))"
    using assms by (auto simp: orch_wf_def open_turn_def Let_def)
  with assms step_submit_wf [OF assms] step_idle_wf [OF assms] pause_wf [OF assms]
    abort_wf [OF assms]
  show ?thesis
    by (cases e) (auto simp: step_def prod_eq_iff)
qed

text \<open>
  C3. C3 (no panic, invariant). Every state reachable from a fresh orchestration over at least one
  role is well formed (role indices in range, live token equal to the token counter), and in
  such a state every event is answered: \<open>step\<close> never hits the out-of-range index.
\<close>

theorem orch_reachable_safe:
  assumes "reachable rs max_it s" and "rs \<noteq> []"
  shows "orch_wf s \<and> (\<exists>a t. step s e = Some (a, t))"
proof -
  have "orch_wf s"
    using assms(1)
  proof (induction rule: reachable.induct)
    case reach_new
    then show ?case using assms(2) by (rule orch_wf_new)
  next
    case (reach_step s e a t)
    then show ?case using step_wf [of s e] by auto
  qed
  then show ?thesis using step_wf by blast
qed

theorem orch_reachable_safe_witness:
  "orch_wf (state_new [role_new (lit ''builder'') False] 3)
     \<and> (\<exists>a t. step (state_new [role_new (lit ''builder'') False] 3) EStart = Some (a, t))"
  by (rule orch_reachable_safe [OF reach_new]) simp

section \<open>The completion contract\<close>

text \<open>
  C2 (forgery). While a turn is open, a submission that carries a token other than the live
  one, claims a role other than the current one, or brings a verdict from a role that is not
  the verifier is answered with \<open>Hold\<close> and changes nothing.
\<close>

theorem forged_submit_ignored:
  assumes "orch_wf s"
    and "sub_token sub \<noteq> token s \<or> sub_role sub \<noteq> cur s
           \<or> (sub_verdict sub \<noteq> None \<and> \<not> verifier (roles s ! cur s))"
  shows "step s (ESubmit sub) = Some (Hold, s)"
  using assms by (auto simp: step_def step_submit_def orch_wf_def Let_def)

theorem forged_submit_ignored_witness:
  "step (snd (open_turn (state_new [role_new (lit ''b'') False, role_new (lit ''v'') True] 3)))
     (ESubmit \<lparr>sub_token = 7, sub_role = 0, sub_status = Done, sub_verdict = None\<rparr>)
   = Some (Hold, snd (open_turn (state_new [role_new (lit ''b'') False, role_new (lit ''v'') True] 3)))"
  by (rule forged_submit_ignored)
    (simp_all add: orch_wf_def open_turn_def state_new_def role_new_def)

lemma route_not_complete: "fst (route_fix f s) \<noteq> Complete" "fst (route_replan s) \<noteq> Complete"
  by (simp_all add: orch_transition_defs)

lemma transition_not_complete:
  "fst (open_turn s) \<noteq> Complete" "fst (pause r s) \<noteq> Complete" "fst (abort_run r s) \<noteq> Complete"
  by (simp_all add: orch_transition_defs)

lemma advance_complete: "fst (advance_after_done s) = Complete \<longleftrightarrow> length (roles s) \<le> cur s + 1"
  by (simp add: advance_after_done_def open_turn_def Let_def)



text \<open>
  C7 (terminal phases absorb). Once a run is completed or aborted every further event is
  held and the state never changes again.
\<close>

theorem terminal_absorbs:
  assumes "phase s = PhDone \<or> phase s = Aborted"
  shows "run_events s es = Some (replicate (length es) Hold, s)"
  using assms by (induction es) (auto simp: step_def)

theorem terminal_absorbs_witness:
  "run_events ((state_new [] 0)\<lparr>phase := Aborted\<rparr>) [EStart, EResume]
     = Some (replicate (length [EStart, EResume]) Hold, (state_new [] 0)\<lparr>phase := Aborted\<rparr>)"
  by (rule terminal_absorbs) simp

section \<open>Tokens are never reused\<close>

fun inject_tokens :: "action list \<Rightarrow> u64 list" where
  "inject_tokens [] = []"
| "inject_tokens (Inject r k # acts) = k # inject_tokens acts"
| "inject_tokens (_ # acts) = inject_tokens acts"

definition mints :: "orch_state \<Rightarrow> action \<Rightarrow> orch_state \<Rightarrow> bool" where
  "mints s a t \<longleftrightarrow> (if \<exists>r k. a = Inject r k
     then token_seq t = token_seq s + 1 \<and> (\<exists>r. a = Inject r (token_seq t))
     else token_seq t = token_seq s)"

lemma transition_mints:
  "mints s (fst (open_turn s)) (snd (open_turn s))"
  "mints s (fst (open_turn (s\<lparr>cur := 0\<rparr>))) (snd (open_turn (s\<lparr>cur := 0\<rparr>)))"
  "mints s (fst (advance_after_done s)) (snd (advance_after_done s))"
  "mints s (fst (pause r s)) (snd (pause r s))"
  "mints s (fst (abort_run r s)) (snd (abort_run r s))"
  "mints s (fst (route_fix f s)) (snd (route_fix f s))"
  "mints s (fst (route_replan s)) (snd (route_replan s))"
  "mints s Hold s" "mints s AwaitSubmit s" "mints s Complete (s\<lparr>phase := PhDone\<rparr>)"
  by (simp_all add: mints_def orch_transition_defs)

lemma step_mints: "step s e = Some (a, t) \<Longrightarrow> mints s a t"
  using transition_mints [of s]
  by (cases e)
    (auto simp: step_def step_idle_def step_submit_def Let_def prod_eq_iff
      split: if_splits submit_status.splits verdict.splits option.splits)

text \<open>
  C6 (fresh tokens). Over any run of fewer than \<open>2\<^sup>6\<^sup>4\<close> events beyond the tokens already
  minted, the tokens of the injected prompts are strictly increasing and all above the
  starting counter: a token of an earlier turn is never live again.
\<close>

theorem tokens_strictly_increase:
  assumes "run_events s es = Some (acts, t)" and "unat (token_seq s) + length es < 2 ^ 64"
  shows "sorted_wrt (<) (token_seq s # inject_tokens acts)"
  using assms
proof (induction es arbitrary: s acts)
  case Nil
  then show ?case by simp
next
  case (Cons e es)
  then obtain a s' acts' where st: "step s e = Some (a, s')"
    and r: "run_events s' es = Some (acts', t)" and acts: "acts = a # acts'"
    by (auto split: option.splits)
  have m: "mints s a s'" using st by (rule step_mints)
  show ?case
  proof (cases "\<exists>r k. a = Inject r k")
    case True
    with m obtain q where q: "a = Inject q (token_seq s')" "token_seq s' = token_seq s + 1"
      by (auto simp: mints_def)
    have "unat (token_seq s) < 2 ^ 64 - 1" using Cons.prems(2) by simp
    then have "token_seq s \<noteq> - 1"
      by (auto simp: unsigned_minus_1_eq_mask mask_eq_exp_minus_1)
    then have lt: "token_seq s < token_seq s'"
      using q(2) word_less_succ by simp
    have "unat (token_seq s') \<le> unat (token_seq s) + 1"
      using q(2) by (simp add: unat_word_ariths)
    then have "unat (token_seq s') + length es < 2 ^ 64"
      using Cons.prems(2) by simp
    then have "sorted_wrt (<) (token_seq s' # inject_tokens acts')"
      using Cons.IH [OF r] by simp
    then show ?thesis using q(1) acts lt by auto
  next
    case False
    with m have "token_seq s' = token_seq s" by (simp add: mints_def)
    with Cons.IH [OF r] Cons.prems(2)
    have "sorted_wrt (<) (token_seq s # inject_tokens acts')" by simp
    with False acts show ?thesis by (cases a) auto
  qed
qed

theorem tokens_strictly_increase_witness:
  "sorted_wrt (<) (token_seq (state_new [role_new (lit ''a'') False, role_new (lit ''b'') False] 3)
     # inject_tokens [Inject 0 1, Inject 1 2])"
  by (rule tokens_strictly_increase [of _ "[EStart, EIdle 0]"])
    (simp_all add: step_def step_idle_def state_new_def role_new_def orch_transition_defs)

section \<open>The run is bounded\<close>

fun count_injects :: "action list \<Rightarrow> nat" where
  "count_injects [] = 0"
| "count_injects (Inject _ _ # acts) = Suc (count_injects acts)"
| "count_injects (_ # acts) = count_injects acts"

definition is_inject :: "action \<Rightarrow> bool" where
  "is_inject a \<longleftrightarrow> (case a of Inject _ _ \<Rightarrow> True | _ \<Rightarrow> False)"

lemma count_injects_Cons: "count_injects (a # acts) = (if is_inject a then 1 else 0) + count_injects acts"
  by (cases a) (simp_all add: is_inject_def)

text \<open>
  The turns a run may still open without human help: one to start, a full pass over the
  roles for every remaining iteration, and the roles after the current one.
\<close>

definition turn_budget :: "orch_state \<Rightarrow> nat" where
  "turn_budget s = (if phase s = PhIdle then 1 else 0)
     + (unat (max_iterations s) - unat (iteration s)) * length (roles s)
     + (length (roles s) - 1 - cur s)"

definition spends :: "orch_state \<Rightarrow> action \<Rightarrow> orch_state \<Rightarrow> bool" where
  "spends s a t \<longleftrightarrow> (if is_inject a then 1 else 0) + turn_budget t \<le> turn_budget s
     \<and> roles t = roles s \<and> max_iterations t = max_iterations s
     \<and> unat (iteration t) \<le> unat (iteration s) + 1"

lemma iteration_succ: "unat (i + 1) = unat i + 1" if "unat i + 1 < 2 ^ 32" for i :: u32
  using that by (simp add: unat_word_ariths)

lemma loop_back_spends:
  assumes "cur s < length (roles s)" and "k < length (roles s)" and "phase s = Awaiting"
    and "unat (iteration s) + 1 < 2 ^ 32" and "\<not> iteration s + 1 > max_iterations s"
  shows "spends s (fst (open_turn (s\<lparr>last_fix := lf, iteration := iteration s + 1, cur := k\<rparr>)))
    (snd (open_turn (s\<lparr>last_fix := lf, iteration := iteration s + 1, cur := k\<rparr>)))"
proof -
  let ?m = "unat (max_iterations s)" and ?i = "unat (iteration s)" and ?n = "length (roles s)"
  have i: "unat (iteration s + 1) = ?i + 1" using assms(4) by (rule iteration_succ)
  with assms(5) have le: "?i + 1 \<le> ?m" by (simp add: not_less word_le_nat_alt)
  then have "?m - ?i = Suc (?m - (?i + 1))" by simp
  then have "(?m - ?i) * ?n = ?n + (?m - (?i + 1)) * ?n" by simp
  moreover have "Suc (?n - 1 - k) \<le> ?n" using assms(2) by simp
  ultimately show ?thesis
    using assms(3) i by (simp add: spends_def turn_budget_def open_turn_def Let_def is_inject_def)
qed

lemma pause_iter_spends:
  assumes "phase s = Awaiting" and "unat (iteration s) + 1 < 2 ^ 32"
  shows "spends s (Escalate r) (s\<lparr>last_fix := lf, iteration := iteration s + 1, phase := Paused\<rparr>)"
proof -
  let ?m = "unat (max_iterations s)" and ?i = "unat (iteration s)" and ?n = "length (roles s)"
  have i: "unat (iteration s + 1) = ?i + 1" using assms(2) by (rule iteration_succ)
  have "(?m - (?i + 1)) * ?n \<le> (?m - ?i) * ?n" by (intro mult_right_mono) auto
  with assms i show ?thesis by (simp add: spends_def turn_budget_def is_inject_def)
qed

lemma route_spends:
  assumes "orch_wf s" and "phase s = Awaiting" and "unat (iteration s) + 1 < 2 ^ 32"
  shows "spends s (fst (route_fix f s)) (snd (route_fix f s))"
    and "spends s (fst (route_replan s)) (snd (route_replan s))"
proof -
  have r: "cur s < length (roles s)" "fix_target s < length (roles s)"
    "replan_target s < length (roles s)"
    using assms(1) by (auto simp: orch_wf_def)
  have stall: "spends s (Escalate x) (s\<lparr>phase := Paused\<rparr>)" for x
    using assms(2) by (simp add: spends_def turn_budget_def is_inject_def)
  show "spends s (fst (route_fix f s)) (snd (route_fix f s))"
    using stall loop_back_spends [OF r(1,2) assms(2,3), of "Some f"]
      pause_iter_spends [OF assms(2,3), of _ "Some f"]
    by (auto simp: route_fix_def pause_def Let_def)
  have swap: "s\<lparr>iteration := i, last_fix := l, cur := k\<rparr> = s\<lparr>last_fix := l, iteration := i, cur := k\<rparr>"
    for i l k by simp
  show "spends s (fst (route_replan s)) (snd (route_replan s))"
    using loop_back_spends [OF r(1,3) assms(2,3), of None]
      pause_iter_spends [OF assms(2,3), of _ "last_fix s"]
    by (auto simp: route_replan_def pause_def Let_def swap)
qed

lemma simple_spends:
  assumes "orch_wf s"
  shows "spends s Hold s" "spends s AwaitSubmit s" "spends s Complete (s\<lparr>phase := PhDone\<rparr>)"
    "spends s (fst (pause r s)) (snd (pause r s))"
    "spends s (fst (abort_run r s)) (snd (abort_run r s))"
    "phase s = PhIdle \<Longrightarrow>
       spends s (fst (open_turn (s\<lparr>cur := 0\<rparr>))) (snd (open_turn (s\<lparr>cur := 0\<rparr>)))"
    "phase s = Awaiting \<Longrightarrow> spends s (fst (advance_after_done s)) (snd (advance_after_done s))"
  using assms
  by (auto simp: spends_def turn_budget_def is_inject_def orch_transition_defs orch_wf_def)

lemma step_spends:
  assumes "orch_wf s" and "unat (iteration s) + 1 < 2 ^ 32" and "step s e = Some (a, t)"
  shows "spends s a t \<or> (e = EResume \<and> is_inject a \<and> turn_budget t \<le> turn_budget s
     \<and> roles t = roles s \<and> max_iterations t = max_iterations s \<and> iteration t = iteration s)"
proof (cases "phase s = Paused \<and> e = EResume")
  case True
  with assms(3) show ?thesis
    by (auto simp: step_def open_turn_def Let_def turn_budget_def is_inject_def)
next
  case False
  with assms(3) simple_spends [OF assms(1)] route_spends [OF assms(1) _ assms(2)]
  have "spends s a t"
    by (cases e)
      (auto simp: step_def step_idle_def step_submit_def Let_def prod_eq_iff
        split: if_splits submit_status.splits verdict.splits option.splits)
  then show ?thesis ..
qed

lemma run_spends:
  assumes "orch_wf s" and "unat (iteration s) + length es < 2 ^ 32"
  shows "\<exists>acts t. run_events s es = Some (acts, t)
    \<and> count_injects acts \<le> turn_budget s + count_list es EResume"
  using assms
proof (induction es arbitrary: s)
  case Nil
  then show ?case by simp
next
  case (Cons e es)
  obtain a s' where st: "step s e = Some (a, s')" and wf: "orch_wf s'"
    using step_wf [OF Cons.prems(1), of e] by blast
  have sp: "spends s a s' \<or> (e = EResume \<and> is_inject a \<and> turn_budget s' \<le> turn_budget s
     \<and> roles s' = roles s \<and> max_iterations s' = max_iterations s \<and> iteration s' = iteration s)"
    by (rule step_spends [OF Cons.prems(1) _ st]) (use Cons.prems(2) in simp)
  then have "unat (iteration s') + length es < 2 ^ 32"
    using Cons.prems(2) by (auto simp: spends_def)
  then obtain acts t where r: "run_events s' es = Some (acts, t)"
    and c: "count_injects acts \<le> turn_budget s' + count_list es EResume"
    using Cons.IH [OF wf] by blast
  have "count_injects (a # acts) \<le> turn_budget s + count_list (e # es) EResume"
    using c sp by (auto simp: count_injects_Cons spends_def split: if_splits)
  with st r show ?case by simp
qed

lemma run_turn_bound:
  assumes "rs \<noteq> []" and "length es < 2 ^ 32"
  shows "\<exists>acts t. run_events (state_new rs max_it) es = Some (acts, t)
    \<and> count_injects acts \<le> length rs * (unat max_it + 1) + count_list es EResume"
proof -
  have "turn_budget (state_new rs max_it) = length rs * (unat max_it + 1)"
    using assms(1) by (cases rs) (simp_all add: turn_budget_def state_new_def Let_def)
  with run_spends [OF orch_wf_new [OF assms(1)], of max_it es] assms(2) show ?thesis
    by (simp add: state_new_def Let_def)
qed

text \<open>
  C17 (bounded runs). Whatever happens, a run over \<open>n > 0\<close> roles answers every event and
  opens at most \<open>n * (max_iterations + 1)\<close> turns, plus one for every time a human resumed
  it (for fewer than \<open>2\<^sup>3\<^sup>2\<close> events, the width of the iteration counter): fix and replan
  verdicts cannot make it loop forever.
\<close>

theorem run_is_bounded:
  assumes "rs \<noteq> []" and "length es < 2 ^ 32"
  shows "\<exists>acts t. run_events (state_new rs max_it) es = Some (acts, t)
    \<and> count_injects acts \<le> length rs * (unat max_it + 1) + count_list es EResume"
  by (rule run_turn_bound [OF assms])

theorem run_is_bounded_witness:
  "\<exists>acts t. run_events (state_new [role_new (lit ''b'') False] 2) [EStart, EStall, EResume] = Some (acts, t)
    \<and> count_injects acts \<le> length [role_new (lit ''b'') False] * (unat (2::u32) + 1)
        + count_list [EStart, EStall, EResume] EResume"
  by (rule run_is_bounded) simp_all

section \<open>Aligning provider selections\<close>

definition role_index :: "role list \<Rightarrow> role_provider_selection \<Rightarrow> nat option" where
  "role_index rs sel = position (\<lambda>r. role_name r = sel_role sel) rs"

definition selection_ok :: "role list \<Rightarrow> role_provider_selection \<Rightarrow> bool" where
  "selection_ok rs sel \<longleftrightarrow> sel_role sel \<noteq> [] \<and> str_len (sel_role sel) \<le> 256
     \<and> sel_provider sel \<noteq> [] \<and> str_len (sel_provider sel) \<le> 256 \<and> role_index rs sel \<noteq> None"

lemma role_indexD: "role_index rs sel = Some i \<Longrightarrow> i < length rs \<and> role_name (rs ! i) = sel_role sel"
  by (auto simp: role_index_def dest: position_SomeD)

lemma role_index_inj:
  "role_index rs a = Some i \<Longrightarrow> role_index rs b = Some i \<Longrightarrow> sel_role a = sel_role b"
  by (metis role_indexD)

lemma role_index_cong: "sel_role a = sel_role b \<Longrightarrow> role_index rs a = role_index rs b"
  by (simp add: role_index_def)

lemma align_loop_Cons:
  "align_loop rs (sel # sels) al0 = Inr al \<longleftrightarrow>
     selection_ok rs sel \<and> (\<exists>i. role_index rs sel = Some i \<and> al0 ! i = None
       \<and> align_loop rs sels (al0[i := Some (sel_provider sel)]) = Inr al)"
  by (auto simp: selection_ok_def role_index_def split: option.splits)

declare align_loop.simps(2) [simp del]

lemma align_loop_sound:
  assumes "align_loop rs sels al0 = Inr al" and "length al0 = length rs"
  shows "length al = length rs
    \<and> (\<forall>i<length rs. al0 ! i \<noteq> None \<longrightarrow> al ! i = al0 ! i)
    \<and> distinct (map sel_role sels)
    \<and> (\<forall>sel\<in>set sels. selection_ok rs sel
         \<and> (\<exists>i. role_index rs sel = Some i \<and> al0 ! i = None \<and> al ! i = Some (sel_provider sel)))
    \<and> (\<forall>i<length rs. al ! i = al0 ! i \<or>
         (\<exists>sel\<in>set sels. role_index rs sel = Some i \<and> al ! i = Some (sel_provider sel)))"
  using assms
proof (induction sels arbitrary: al0)
  case Nil
  then show ?case by simp
next
  case (Cons sel sels)
  then obtain i where ok: "selection_ok rs sel" and i: "role_index rs sel = Some i" "al0 ! i = None"
    and r: "align_loop rs sels (al0[i := Some (sel_provider sel)]) = Inr al"
    by (auto simp: align_loop_Cons)
  let ?al1 = "al0[i := Some (sel_provider sel)]"
  have il: "i < length rs" using role_indexD [OF i(1)] by simp
  then have at_i: "?al1 ! i = Some (sel_provider sel)" using Cons.prems(2) by simp
  have other: "?al1 ! k = al0 ! k" if "k \<noteq> i" for k using that by simp
  note IH = Cons.IH [OF r]
  have len: "length ?al1 = length rs" using Cons.prems(2) by simp
  have used: "role_index rs s \<noteq> Some i" if "s \<in> set sels" for s
  proof -
    have "\<forall>s\<in>set sels. \<exists>k. role_index rs s = Some k \<and> ?al1 ! k = None" using IH [OF len] by blast
    with that at_i show ?thesis by force
  qed
  then have fresh: "sel_role sel \<notin> set (map sel_role sels)"
  proof -
    have False if "s \<in> set sels" "sel_role s = sel_role sel" for s
      using used [OF that(1)] role_index_cong [OF that(2)] i(1) by simp
    then show ?thesis by force
  qed
  have al_i: "al ! i = Some (sel_provider sel)" using IH [OF len] il at_i by simp
  have other_None: "al0 ! k = None" if "s \<in> set sels" "role_index rs s = Some k" "?al1 ! k = None" for s k
    using that used other by metis
  show ?case
  proof (intro conjI ballI allI impI)
    fix k assume "k < length rs" "al0 ! k \<noteq> None"
    then show "al ! k = al0 ! k" using IH [OF len] i(2) other by metis
  next
    fix s assume s: "s \<in> set (sel # sels)"
    show "selection_ok rs s" using s ok IH [OF len] by auto
    show "\<exists>k. role_index rs s = Some k \<and> al0 ! k = None \<and> al ! k = Some (sel_provider s)"
      using s i al_i IH [OF len] other_None by (metis set_ConsD)
  next
    fix k assume "k < length rs"
    then show "al ! k = al0 ! k \<or> (\<exists>s\<in>set (sel # sels). role_index rs s = Some k \<and> al ! k = Some (sel_provider s))"
      using IH [OF len] i al_i other by (metis list.set_intros)
  qed (use IH [OF len] fresh in auto)
qed

lemma align_loop_complete:
  assumes "\<forall>sel\<in>set sels. selection_ok rs sel" and "distinct (map sel_role sels)"
    and "\<forall>sel\<in>set sels. \<forall>i. role_index rs sel = Some i \<longrightarrow> al0 ! i = None"
  shows "\<exists>al. align_loop rs sels al0 = Inr al"
  using assms
proof (induction sels arbitrary: al0)
  case Nil
  then show ?case by simp
next
  case (Cons sel sels)
  then obtain i where i: "role_index rs sel = Some i" "al0 ! i = None"
    by (auto simp: selection_ok_def)
  let ?al1 = "al0[i := Some (sel_provider sel)]"
  have "\<forall>s\<in>set sels. \<forall>k. role_index rs s = Some k \<longrightarrow> ?al1 ! k = None"
  proof (intro ballI allI impI)
    fix s k assume s: "s \<in> set sels" "role_index rs s = Some k"
    then have "k \<noteq> i" using Cons.prems(2) i(1) role_index_inj by (metis distinct.simps(2) image_eqI list.simps(9) set_map)
    then show "?al1 ! k = None" using s Cons.prems(3) by simp
  qed
  then have "\<exists>al. align_loop rs sels ?al1 = Inr al"
    using Cons.IH [of ?al1] Cons.prems by simp
  then obtain al where "align_loop rs sels ?al1 = Inr al" ..
  with i Cons.prems(1) have "align_loop rs (sel # sels) al0 = Inr al"
    by (auto simp: align_loop_Cons)
  then show ?case ..
qed

text \<open>
  C6 (provider alignment). Selections are accepted exactly when each names a known role and a
  non-empty provider, both within 256 bytes, and no role twice; the result then has one slot
  per role, every selection sits in the slot of its role, and every filled slot comes from a
  selection of that role.
\<close>

theorem align_role_provider_selections_correct:
  "((\<exists>al. align_role_provider_selections rs sels = Inr al) \<longleftrightarrow>
      (\<forall>sel\<in>set sels. selection_ok rs sel) \<and> distinct (map sel_role sels))
   \<and> (\<forall>al. align_role_provider_selections rs sels = Inr al \<longrightarrow>
        length al = length rs
        \<and> (\<forall>sel\<in>set sels. \<exists>i. role_index rs sel = Some i \<and> al ! i = Some (sel_provider sel))
        \<and> (\<forall>i<length rs. \<forall>p. al ! i = Some p \<longrightarrow>
             (\<exists>sel\<in>set sels. role_index rs sel = Some i \<and> sel_provider sel = p)))"
proof -
  let ?al0 = "replicate (length rs) (None :: str option)"
  have none: "?al0 ! i = None" if "i < length rs" for i using that by simp
  note sound = align_loop_sound [of rs sels ?al0]
  have "\<forall>sel\<in>set sels. \<forall>i. role_index rs sel = Some i \<longrightarrow> ?al0 ! i = None"
    using none role_indexD by blast
  then have "(\<exists>al. align_role_provider_selections rs sels = Inr al) \<longleftrightarrow>
     (\<forall>sel\<in>set sels. selection_ok rs sel) \<and> distinct (map sel_role sels)"
    using sound align_loop_complete [of sels rs ?al0]
    unfolding align_role_provider_selections_def by fastforce
  moreover have "length al = length rs
     \<and> (\<forall>sel\<in>set sels. \<exists>i. role_index rs sel = Some i \<and> al ! i = Some (sel_provider sel))
     \<and> (\<forall>i<length rs. \<forall>p. al ! i = Some p \<longrightarrow>
          (\<exists>sel\<in>set sels. role_index rs sel = Some i \<and> sel_provider sel = p))"
    if "align_role_provider_selections rs sels = Inr al" for al
    using sound [of al] that none unfolding align_role_provider_selections_def
    by (simp, metis option.distinct(1) option.inject)
  ultimately show ?thesis by blast
qed

theorem align_role_provider_selections_correct_witness:
  "\<exists>i. role_index [role_new (lit ''a'') False, role_new (lit ''b'') True]
          \<lparr>sel_role = lit ''b'', sel_provider = lit ''codex''\<rparr> = Some i
        \<and> [None, Some (lit ''codex'')] ! i = Some (lit ''codex'')"
  using align_role_provider_selections_correct
    [of "[role_new (lit ''a'') False, role_new (lit ''b'') True]"
        "[\<lparr>sel_role = lit ''b'', sel_provider = lit ''codex''\<rparr>]"]
  by (simp add: align_loop.simps(2) align_role_provider_selections_def role_new_def lit_def str_len_def utf8_len_def)

end
