(* ===== verification/Instruction.thy ===== *)
theory Instruction
  imports Interfaces "HOL-Library.Product_Lexorder"
begin

text \<open>
  The instruction queue: the pure projection of
  \<^verbatim>\<open>crates/uniterm-core/src/instruction.rs\<close>, the semantic commands the server runs on it
  (\<^verbatim>\<open>server/instruction.rs\<close>) and the replay of its events (\<^verbatim>\<open>eventlog.rs\<close>,
  \<open>replay_instructions_reader\<close>). The server state kept here is what those commands read and
  write: the panes' foreground process groups, the queue, the appended events and the log's
  sequence. Whether a pane accepts the pasted text is I/O, so delivery takes it as the
  argument \<open>accept\<close>.
\<close>

section \<open>The queue\<close>

definition MAX_INSTRUCTION_CHARS :: nat where "MAX_INSTRUCTION_CHARS = 16384"
definition MAX_WORKSPACE_INSTRUCTIONS :: nat where "MAX_WORKSPACE_INSTRUCTIONS = 1024"
definition MAX_INVOCATION_INSTRUCTIONS :: nat where "MAX_INVOCATION_INSTRUCTIONS = 64"

datatype instruction_author = Cli | Client | ControlApi
datatype instruction_policy = NextReady
datatype instruction_state = Queued
datatype instruction_cancellation = Canceled | Replaced | InvocationEnded | PaneClosed
datatype instruction_boundary = CooperativeReady | SendNow

record instruction_item =
  ii_id :: u64
  ii_pane :: pane_id
  ii_invocation :: i32
  ii_author :: instruction_author
  ii_created_sequence :: u64
  ii_policy :: instruction_policy
  ii_state :: instruction_state
  ii_text :: str

record instruction_queue =
  iq_items :: "instruction_item list"
  iq_next_id :: u64
  iq_next_delivery_id :: u64

definition iq_new :: instruction_queue where
  "iq_new = \<lparr>iq_items = [], iq_next_id = 1, iq_next_delivery_id = 1\<rparr>"

definition bounded_text :: "str \<Rightarrow> str" where
  "bounded_text t = take MAX_INSTRUCTION_CHARS t"

definition iq_allocate :: "pane_id \<Rightarrow> i32 \<Rightarrow> instruction_author \<Rightarrow> u64 \<Rightarrow> str \<Rightarrow> instruction_queue
    \<Rightarrow> instruction_item \<times> instruction_queue" where
  "iq_allocate pane invo author seq t q =
     (\<lparr>ii_id = iq_next_id q, ii_pane = pane, ii_invocation = invo, ii_author = author,
       ii_created_sequence = seq, ii_policy = NextReady, ii_state = Queued,
       ii_text = bounded_text t\<rparr>,
      q\<lparr>iq_next_id := saturating_add (iq_next_id q) 1\<rparr>)"

definition queue_order :: "instruction_item \<Rightarrow> u64 \<times> u64" where
  "queue_order i = (ii_created_sequence i, ii_id i)"

definition iq_insert :: "instruction_item \<Rightarrow> instruction_queue \<Rightarrow> instruction_queue" where
  "iq_insert i q =
     q\<lparr>iq_next_id := max (iq_next_id q) (saturating_add (ii_id i) 1),
       iq_items := sort_key queue_order (filter (\<lambda>c. ii_id c \<noteq> ii_id i) (iq_items q) @ [i])\<rparr>"

definition iq_replace :: "u64 \<Rightarrow> instruction_item \<Rightarrow> instruction_queue \<Rightarrow> bool \<times> instruction_queue" where
  "iq_replace old i q =
     (case position (\<lambda>c. ii_id c = old) (iq_items q) of
        None \<Rightarrow> (False, q)
      | Some index \<Rightarrow>
          (True, q\<lparr>iq_next_id := max (iq_next_id q) (saturating_add (ii_id i) 1),
                   iq_items := (iq_items q)[index := i]\<rparr>))"

definition iq_remove :: "u64 \<Rightarrow> instruction_queue \<Rightarrow> instruction_item option \<times> instruction_queue" where
  "iq_remove k q =
     (case position (\<lambda>c. ii_id c = k) (iq_items q) of
        None \<Rightarrow> (None, q)
      | Some index \<Rightarrow>
          (Some (iq_items q ! index), q\<lparr>iq_items := remove_at index (iq_items q)\<rparr>))"

definition iq_remove_pane :: "pane_id \<Rightarrow> instruction_queue \<Rightarrow> instruction_item list \<times> instruction_queue" where
  "iq_remove_pane pane q =
     (filter (\<lambda>i. ii_pane i = pane) (iq_items q),
      q\<lparr>iq_items := filter (\<lambda>i. ii_pane i \<noteq> pane) (iq_items q)\<rparr>)"

definition iq_remove_other_invocations ::
    "pane_id \<Rightarrow> i32 option \<Rightarrow> instruction_queue \<Rightarrow> instruction_item list \<times> instruction_queue" where
  "iq_remove_other_invocations pane invo q =
     (filter (\<lambda>i. ii_pane i = pane \<and> Some (ii_invocation i) \<noteq> invo) (iq_items q),
      q\<lparr>iq_items := filter (\<lambda>i. \<not> (ii_pane i = pane \<and> Some (ii_invocation i) \<noteq> invo)) (iq_items q)\<rparr>)"

definition iq_next_for :: "pane_id \<Rightarrow> i32 \<Rightarrow> instruction_queue \<Rightarrow> instruction_item option" where
  "iq_next_for pane invo q = find (\<lambda>i. ii_pane i = pane \<and> ii_invocation i = invo) (iq_items q)"

definition iq_get :: "u64 \<Rightarrow> instruction_queue \<Rightarrow> instruction_item option" where
  "iq_get k q = find (\<lambda>i. ii_id i = k) (iq_items q)"

definition iq_can_enqueue :: "pane_id \<Rightarrow> i32 \<Rightarrow> instruction_queue \<Rightarrow> bool" where
  "iq_can_enqueue pane invo q \<longleftrightarrow> length (iq_items q) < MAX_WORKSPACE_INSTRUCTIONS
     \<and> length (filter (\<lambda>i. ii_pane i = pane \<and> ii_invocation i = invo) (iq_items q))
         < MAX_INVOCATION_INSTRUCTIONS"

definition iq_mint_delivery_id :: "instruction_queue \<Rightarrow> u64 \<times> instruction_queue" where
  "iq_mint_delivery_id q =
     (iq_next_delivery_id q, q\<lparr>iq_next_delivery_id := saturating_add (iq_next_delivery_id q) 1\<rparr>)"

definition iq_observe_delivery_id :: "u64 \<Rightarrow> instruction_queue \<Rightarrow> instruction_queue" where
  "iq_observe_delivery_id k q =
     q\<lparr>iq_next_delivery_id := max (iq_next_delivery_id q) (saturating_add k 1)\<rparr>"

section \<open>Server commands and the event log\<close>

datatype instr_event =
    InstructionQueued instruction_item
  | InstructionReplaced u64 instruction_item
  | InstructionCanceled u64 instruction_cancellation
  | InstructionDelivery u64 u64 instruction_boundary bool

text \<open>
  A pane as the commands see it: the foreground process group its bound agent was seen with
  (outer \<open>None\<close>: no agent), and the pane's own foreground process group.
\<close>

record pane_view =
  pv_agent_pid :: "i32 option option"
  pv_foreground :: "i32 option"

record instr_server =
  is_panes :: "(pane_id, pane_view) rbt"
  is_queue :: instruction_queue
  is_log :: "instr_event list"
  is_last :: "instr_event option"
  is_sequence :: u64
  is_writes_enabled :: bool
  is_durability_error :: bool

datatype instruction_cmd =
    Add pane_id instruction_author str
  | Replace u64 instruction_author str
  | Cancel u64
  | Send_now u64

record command_result =
  cr_id :: u64
  cr_found :: bool
  cr_accepted :: bool

text \<open>
  An event goes to the log unless writes are off or it equals the last record, which the
  log suppresses.
\<close>

definition append_event :: "instr_event \<Rightarrow> instr_server \<Rightarrow> instr_server" where
  "append_event e sv =
     (if \<not> is_writes_enabled sv \<or> is_last sv = Some e then sv
      else sv\<lparr>is_log := is_log sv @ [e], is_last := Some e,
             is_sequence := saturating_add (is_sequence sv) 1\<rparr>)"

lemma append_event_simps [simp]:
  "is_queue (append_event e sv) = is_queue sv"
  "is_panes (append_event e sv) = is_panes sv"
  "is_writes_enabled (append_event e sv) = is_writes_enabled sv"
  "is_durability_error (append_event e sv) = is_durability_error sv"
  by (simp_all add: append_event_def)

definition instruction_invocation :: "pane_id \<Rightarrow> instr_server \<Rightarrow> i32 option" where
  "instruction_invocation pane sv =
     (case mlookup (is_panes sv) pane of
        None \<Rightarrow> None
      | Some p \<Rightarrow>
          (case pv_agent_pid p of
             None \<Rightarrow> None
           | Some (Some agent) \<Rightarrow>
               (case pv_foreground p of
                  Some foreground \<Rightarrow> if agent \<noteq> foreground then None else Some agent
                | None \<Rightarrow> Some agent)
           | Some None \<Rightarrow> pv_foreground p))"

definition drop_instruction :: "u64 \<Rightarrow> instruction_cancellation \<Rightarrow> instr_server \<Rightarrow> instr_server" where
  "drop_instruction k reason sv =
     (let sv1 = append_event (InstructionCanceled k reason) sv
      in sv1\<lparr>is_queue := snd (iq_remove k (is_queue sv1))\<rparr>)"

definition deliver_instruction :: "(pane_id \<Rightarrow> str \<Rightarrow> bool) \<Rightarrow> u64 \<Rightarrow> instruction_boundary
    \<Rightarrow> instr_server \<Rightarrow> command_result \<times> instr_server" where
  "deliver_instruction accept k boundary sv =
     (case iq_get k (is_queue sv) of
        None \<Rightarrow> (\<lparr>cr_id = k, cr_found = False, cr_accepted = False\<rparr>, sv)
      | Some i \<Rightarrow>
          (if instruction_invocation (ii_pane i) sv \<noteq> Some (ii_invocation i) then
             (\<lparr>cr_id = k, cr_found = True, cr_accepted = False\<rparr>, drop_instruction k InvocationEnded sv)
           else
             (let (delivery, q1) = iq_mint_delivery_id (is_queue sv);
                  ok = mlookup (is_panes sv) (ii_pane i) \<noteq> None \<and> accept (ii_pane i) (ii_text i);
                  sv1 = append_event (InstructionDelivery k delivery boundary ok) (sv\<lparr>is_queue := q1\<rparr>);
                  sv2 = (if ok then sv1\<lparr>is_queue := snd (iq_remove k (is_queue sv1))\<rparr> else sv1)
              in (\<lparr>cr_id = k, cr_found = True, cr_accepted = ok\<rparr>, sv2))))"

definition text_refused :: "str \<Rightarrow> bool" where
  "text_refused t \<longleftrightarrow> list_all is_whitespace t \<or> length t > MAX_INSTRUCTION_CHARS"

definition add_instruction :: "pane_id \<Rightarrow> instruction_author \<Rightarrow> str \<Rightarrow> instr_server
    \<Rightarrow> command_result \<times> instr_server" where
  "add_instruction pane author t sv =
     (case instruction_invocation pane sv of
        None \<Rightarrow> (\<lparr>cr_id = 0, cr_found = mlookup (is_panes sv) pane \<noteq> None, cr_accepted = False\<rparr>, sv)
      | Some invo \<Rightarrow>
          (if text_refused t \<or> \<not> iq_can_enqueue pane invo (is_queue sv)
           then (\<lparr>cr_id = 0, cr_found = True, cr_accepted = False\<rparr>, sv)
           else
             (let (i, q1) = iq_allocate pane invo author (saturating_add (is_sequence sv) 1) t (is_queue sv);
                  sv1 = append_event (InstructionQueued i) (sv\<lparr>is_queue := q1\<rparr>);
                  sv2 = sv1\<lparr>is_queue := iq_insert i (is_queue sv1)\<rparr>
              in (\<lparr>cr_id = ii_id i, cr_found = True, cr_accepted = True\<rparr>, sv2))))"

definition replace_instruction :: "u64 \<Rightarrow> instruction_author \<Rightarrow> str \<Rightarrow> instr_server
    \<Rightarrow> command_result \<times> instr_server" where
  "replace_instruction k author t sv =
     (case iq_get k (is_queue sv) of
        None \<Rightarrow> (\<lparr>cr_id = k, cr_found = False, cr_accepted = False\<rparr>, sv)
      | Some c \<Rightarrow>
          (if text_refused t \<or> instruction_invocation (ii_pane c) sv \<noteq> Some (ii_invocation c)
           then (\<lparr>cr_id = k, cr_found = True, cr_accepted = False\<rparr>, sv)
           else
             (let (i, q1) = iq_allocate (ii_pane c) (ii_invocation c) author
                              (saturating_add (is_sequence sv) 1) t (is_queue sv);
                  sv1 = append_event (InstructionReplaced k i) (sv\<lparr>is_queue := q1\<rparr>);
                  sv2 = sv1\<lparr>is_queue := snd (iq_replace k i (is_queue sv1))\<rparr>
              in (\<lparr>cr_id = ii_id i, cr_found = True, cr_accepted = True\<rparr>, sv2))))"

definition cancel_instruction :: "u64 \<Rightarrow> instr_server \<Rightarrow> command_result \<times> instr_server" where
  "cancel_instruction k sv =
     (let found = iq_get k (is_queue sv) \<noteq> None
      in (\<lparr>cr_id = k, cr_found = found, cr_accepted = found\<rparr>,
          if found then drop_instruction k Canceled sv else sv))"

definition instruction_command :: "(pane_id \<Rightarrow> str \<Rightarrow> bool) \<Rightarrow> instruction_cmd \<Rightarrow> instr_server
    \<Rightarrow> command_result \<times> instr_server" where
  "instruction_command accept c sv =
     (if is_durability_error sv then
        (case c of
           Add pane _ _ \<Rightarrow> (\<lparr>cr_id = 0, cr_found = mlookup (is_panes sv) pane \<noteq> None, cr_accepted = False\<rparr>, sv)
         | Replace k _ _ \<Rightarrow> (\<lparr>cr_id = k, cr_found = iq_get k (is_queue sv) \<noteq> None, cr_accepted = False\<rparr>, sv)
         | Cancel k \<Rightarrow> (\<lparr>cr_id = k, cr_found = iq_get k (is_queue sv) \<noteq> None, cr_accepted = False\<rparr>, sv)
         | Send_now k \<Rightarrow> (\<lparr>cr_id = k, cr_found = iq_get k (is_queue sv) \<noteq> None, cr_accepted = False\<rparr>, sv))
      else
        (case c of
           Add pane author t \<Rightarrow> add_instruction pane author t sv
         | Replace k author t \<Rightarrow> replace_instruction k author t sv
         | Cancel k \<Rightarrow> cancel_instruction k sv
         | Send_now k \<Rightarrow> deliver_instruction accept k SendNow sv))"

definition cancel_stale_instructions :: "pane_id \<Rightarrow> i32 option \<Rightarrow> instr_server \<Rightarrow> instr_server" where
  "cancel_stale_instructions pane invo sv =
     fold (\<lambda>k. drop_instruction k InvocationEnded)
       (map ii_id (filter (\<lambda>i. ii_pane i = pane \<and> Some (ii_invocation i) \<noteq> invo) (iq_items (is_queue sv)))) sv"

definition cancel_pane_instructions :: "pane_id \<Rightarrow> instr_server \<Rightarrow> instr_server" where
  "cancel_pane_instructions pane sv =
     fold (\<lambda>k. drop_instruction k PaneClosed)
       (map ii_id (filter (\<lambda>i. ii_pane i = pane) (iq_items (is_queue sv)))) sv"

definition deliver_cooperative_instruction :: "(pane_id \<Rightarrow> str \<Rightarrow> bool) \<Rightarrow> pane_id \<Rightarrow> instr_server \<Rightarrow> instr_server" where
  "deliver_cooperative_instruction accept pane sv =
     (if is_durability_error sv then sv
      else
        (let invo = instruction_invocation pane sv;
             sv1 = cancel_stale_instructions pane invo sv
         in case invo of
              None \<Rightarrow> sv1
            | Some v \<Rightarrow>
                (case iq_next_for pane v (is_queue sv1) of
                   None \<Rightarrow> sv1
                 | Some i \<Rightarrow> snd (deliver_instruction accept (ii_id i) CooperativeReady sv1))))"

definition replay_instr_event :: "instr_event \<Rightarrow> instruction_queue \<Rightarrow> instruction_queue" where
  "replay_instr_event e q =
     (case e of
        InstructionQueued i \<Rightarrow> iq_insert i q
      | InstructionReplaced old i \<Rightarrow>
          (let (found, q') = iq_replace old i q in if found then q' else iq_insert i q')
      | InstructionCanceled k _ \<Rightarrow> snd (iq_remove k q)
      | InstructionDelivery k delivery _ accepted \<Rightarrow>
          (let q' = iq_observe_delivery_id delivery q
           in if accepted then snd (iq_remove k q') else q'))"

definition replay_instructions :: "instr_event list \<Rightarrow> instruction_queue \<Rightarrow> instruction_queue" where
  "replay_instructions es q = fold replay_instr_event es q"

section \<open>Lemmas on the queue\<close>

lemma iq_insert_items_mset:
  "mset (iq_items (iq_insert i q)) = add_mset i (filter_mset (\<lambda>c. ii_id c \<noteq> ii_id i) (mset (iq_items q)))"
  by (simp add: iq_insert_def)

lemma iq_insert_items_set:
  "set (iq_items (iq_insert i q)) = insert i {c \<in> set (iq_items q). ii_id c \<noteq> ii_id i}"
  by (auto simp: iq_insert_def)

lemma distinct_map_sort_key: "distinct (map f (sort_key g xs)) \<longleftrightarrow> distinct (map f xs)"
  by (rule mset_eq_imp_distinct_iff) simp

lemma iq_insert_distinct:
  "distinct (map ii_id (iq_items q)) \<Longrightarrow> distinct (map ii_id (iq_items (iq_insert i q)))"
  by (auto simp: iq_insert_def distinct_map_sort_key intro: distinct_map_filter_key)

lemma iq_remove_items:
  assumes "distinct (map ii_id (iq_items q))"
  shows "iq_items (snd (iq_remove k q)) = filter (\<lambda>i. ii_id i \<noteq> k) (iq_items q)"
proof (cases "position (\<lambda>c. ii_id c = k) (iq_items q)")
  case None
  moreover from None have "filter (\<lambda>i. ii_id i \<noteq> k) (iq_items q) = iq_items q"
    by (simp add: filter_id_conv position_None_iff)
  ultimately show ?thesis by (simp add: iq_remove_def)
next
  case (Some index)
  then have "index < length (iq_items q)" and "ii_id (iq_items q ! index) = k"
    using position_SomeD [OF Some] by auto
  then show ?thesis
    using Some remove_at_filter [OF _ assms] by (simp add: iq_remove_def)
qed

lemma iq_remove_next [simp]:
  "iq_next_id (snd (iq_remove k q)) = iq_next_id q"
  "iq_next_delivery_id (snd (iq_remove k q)) = iq_next_delivery_id q"
  by (simp_all add: iq_remove_def split: option.split)

interpretation iq: id_projection "\<lambda>q. map ii_id (iq_items q)" iq_next_id iq_insert ii_id
  "\<lambda>k q. snd (iq_remove k q)"
proof
  fix i s k
  show "set (map ii_id (iq_items (iq_insert i s))) \<subseteq> insert (ii_id i) (set (map ii_id (iq_items s)))"
    and "ii_id i \<in> set (map ii_id (iq_items (iq_insert i s)))"
    by (auto simp: iq_insert_items_set)
  show "distinct (map ii_id (iq_items s)) \<Longrightarrow> distinct (map ii_id (iq_items (iq_insert i s)))"
    by (rule iq_insert_distinct)
  show "ii_id i \<noteq> - 1 \<Longrightarrow> iq_next_id (iq_insert i s) = max (iq_next_id s) (ii_id i + 1)"
    by (simp add: iq_insert_def saturating_add_one)
  assume d: "distinct (map ii_id (iq_items s))"
  show "set (map ii_id (iq_items (snd (iq_remove k s)))) = set (map ii_id (iq_items s)) - {k}"
    and "distinct (map ii_id (iq_items (snd (iq_remove k s))))"
    using d by (auto simp: iq_remove_items intro: distinct_map_filter_key)
qed simp_all

text \<open>
  C20 (identities are never reissued). Whatever instructions are inserted and removed, live or
  on replay, the id the queue hands out next is carried by no queued instruction and is above
  every id ever inserted (ids below \<open>2\<^sup>6\<^sup>4 - 1\<close>).
\<close>

theorem instruction_ids_fresh:
  assumes "\<And>i. Insert_item i \<in> set ops \<Longrightarrow> ii_id i \<noteq> - 1"
  shows "ii_id (fst (iq_allocate pane invo author seq t (iq.run ops iq_new)))
           \<notin> set (map ii_id (iq_items (iq.run ops iq_new)))
     \<and> (\<forall>i. Insert_item i \<in> set ops \<longrightarrow>
          ii_id i < ii_id (fst (iq_allocate pane invo author seq t (iq.run ops iq_new))))"
proof -
  have "iq.alloc_ok iq_new" by (simp add: iq.alloc_ok_def iq_new_def)
  from iq.run_fresh [OF this assms] show ?thesis
    by (auto simp: iq_allocate_def)
qed

theorem instruction_ids_fresh_witness:
  "ii_id (fst (iq_allocate (PaneId 7) 44 Cli 10 (lit ''x'') (iq.run [Delete_id 3] iq_new)))
     \<notin> set (map ii_id (iq_items (iq.run [Delete_id 3] iq_new)))"
  using instruction_ids_fresh [of "[Delete_id 3]"] by simp

section \<open>The live queue is the replay of its log\<close>

datatype instr_input =
    Command instruction_cmd
  | Ready pane_id
  | Close pane_id
  | Stale pane_id "i32 option"
  | Observe_panes "(pane_id, pane_view) rbt"
  | Other_record

definition serve :: "(pane_id \<Rightarrow> str \<Rightarrow> bool) \<Rightarrow> instr_input \<Rightarrow> instr_server \<Rightarrow> instr_server" where
  "serve accept x sv =
     (case x of
        Command c \<Rightarrow> snd (instruction_command accept c sv)
      | Ready pane \<Rightarrow> deliver_cooperative_instruction accept pane sv
      | Close pane \<Rightarrow> cancel_pane_instructions pane sv
      | Stale pane invo \<Rightarrow> cancel_stale_instructions pane invo sv
      | Observe_panes ps \<Rightarrow> sv\<lparr>is_panes := ps\<rparr>
      | Other_record \<Rightarrow> sv\<lparr>is_last := None, is_sequence := saturating_add (is_sequence sv) 1\<rparr>)"

definition serve_all :: "(pane_id \<Rightarrow> str \<Rightarrow> bool) \<Rightarrow> instr_input list \<Rightarrow> instr_server \<Rightarrow> instr_server" where
  "serve_all accept xs sv = fold (serve accept) xs sv"

definition server_start :: instr_server where
  "server_start = \<lparr>is_panes = RBT.empty, is_queue = iq_new, is_log = [], is_last = None,
     is_sequence = 0, is_writes_enabled = True, is_durability_error = False\<rparr>"

text \<open>
  The invariant of the live server: the ids in the queue are distinct and already handed out,
  the log replays to the queue, and the last record cannot be appended again, because every
  record carries an id that the queue has just given out or just given up.
\<close>

definition ids_ok :: "instruction_queue \<Rightarrow> bool" where
  "ids_ok q \<longleftrightarrow> distinct (map ii_id (iq_items q)) \<and> (\<forall>i\<in>set (iq_items q). ii_id i < iq_next_id q)"

fun past_event :: "instruction_queue \<Rightarrow> instr_event \<Rightarrow> bool" where
  "past_event q (InstructionQueued i) \<longleftrightarrow> ii_id i < iq_next_id q"
| "past_event q (InstructionReplaced _ i) \<longleftrightarrow> ii_id i < iq_next_id q"
| "past_event q (InstructionCanceled k _) \<longleftrightarrow> k \<notin> set (map ii_id (iq_items q))"
| "past_event q (InstructionDelivery _ d _ _) \<longleftrightarrow> d < iq_next_delivery_id q"

definition synced :: "instr_server \<Rightarrow> bool" where
  "synced sv \<longleftrightarrow> is_writes_enabled sv \<and> ids_ok (is_queue sv)
     \<and> (\<forall>e. is_last sv = Some e \<longrightarrow> past_event (is_queue sv) e)
     \<and> replay_instructions (is_log sv) iq_new = is_queue sv"

lemma le_saturating_succ: "x \<le> saturating_add x 1" for x :: u64
  by (simp add: saturating_add_one) (use word_less_succ [of x] in auto)

lemma iq_insert_allocated: "ii_id i = iq_next_id q \<Longrightarrow>
    iq_insert i (q\<lparr>iq_next_id := saturating_add (iq_next_id q) 1\<rparr>) = iq_insert i q"
  by (simp add: iq_insert_def le_saturating_succ max.absorb2)

lemma iq_replace_allocated: "ii_id i = iq_next_id q \<Longrightarrow> iq_get k q \<noteq> None \<Longrightarrow>
    iq_replace k i (q\<lparr>iq_next_id := saturating_add (iq_next_id q) 1\<rparr>) = iq_replace k i q
    \<and> fst (iq_replace k i q)"
  by (auto simp: iq_replace_def iq_get_def position_find le_saturating_succ max.absorb2
      split: option.splits)

lemma iq_replace_found: "iq_get k q = Some c \<Longrightarrow> iq_replace k i q = (b, q') \<Longrightarrow> b"
  by (auto simp: iq_replace_def iq_get_def position_find split: option.splits)

lemma mint_is_observe: "snd (iq_mint_delivery_id q) = iq_observe_delivery_id (fst (iq_mint_delivery_id q)) q"
  by (simp add: iq_mint_delivery_id_def iq_observe_delivery_id_def le_saturating_succ max.absorb2)

lemma synced_append:
  assumes "synced sv" and "\<not> past_event (is_queue sv) e" and "replay_instr_event e (is_queue sv) = q"
    and "ids_ok q" and "past_event q e"
  shows "synced ((append_event e (sv\<lparr>is_queue := q'\<rparr>))\<lparr>is_queue := q\<rparr>)"
proof -
  have "is_last sv \<noteq> Some e" using assms(1,2) by (auto simp: synced_def)
  with assms show ?thesis
    by (simp add: append_event_def synced_def replay_instructions_def)
qed

lemma ids_ok_remove: "ids_ok q \<Longrightarrow> ids_ok (snd (iq_remove k q))"
  by (auto simp: ids_ok_def iq_remove_items intro: distinct_map_filter_key)

lemma iq_remove_absent:
  "k \<notin> set (map ii_id (iq_items q)) \<Longrightarrow> snd (iq_remove k q) = q"
  by (cases "position (\<lambda>c. ii_id c = k) (iq_items q)") (auto simp: iq_remove_def dest: position_in_set)

lemma synced_drop: "synced sv \<Longrightarrow> synced (drop_instruction k r sv)"
proof (cases "k \<in> set (map ii_id (iq_items (is_queue sv)))")
  case True
  assume s: "synced sv"
  then have d: "distinct (map ii_id (iq_items (is_queue sv)))" by (simp add: synced_def ids_ok_def)
  have "synced ((append_event (InstructionCanceled k r) (sv\<lparr>is_queue := is_queue sv\<rparr>))
      \<lparr>is_queue := snd (iq_remove k (is_queue sv))\<rparr>)"
    using s True d by (intro synced_append)
      (auto simp: replay_instr_event_def ids_ok_remove synced_def iq_remove_items)
  then show ?thesis by (simp add: drop_instruction_def)
next
  case False
  assume s: "synced sv"
  with False have "synced ((append_event (InstructionCanceled k r) sv)\<lparr>is_queue := is_queue sv\<rparr>)"
    by (auto simp: append_event_def synced_def replay_instructions_def replay_instr_event_def iq_remove_absent)
  with False show ?thesis by (simp add: drop_instruction_def iq_remove_absent)
qed

lemma synced_fold_drop: "synced sv \<Longrightarrow> synced (fold (\<lambda>k. drop_instruction k r) ks sv)"
  by (induction ks arbitrary: sv) (auto intro: synced_drop)

lemma ids_ok_items: "iq_items q' = iq_items q \<Longrightarrow> iq_next_id q' = iq_next_id q \<Longrightarrow> ids_ok q' \<longleftrightarrow> ids_ok q"
  by (simp add: ids_ok_def)

lemma synced_deliver:
  assumes "synced sv" and "iq_next_delivery_id (is_queue sv) \<noteq> - 1"
  shows "synced (snd (deliver_instruction accept k b sv))"
proof (cases "\<exists>i. iq_get k (is_queue sv) = Some i \<and> instruction_invocation (ii_pane i) sv = Some (ii_invocation i)")
  case False
  with assms show ?thesis
    by (auto simp: deliver_instruction_def synced_drop split: option.split)
next
  case True
  then obtain i where i: "iq_get k (is_queue sv) = Some i"
    "instruction_invocation (ii_pane i) sv = Some (ii_invocation i)" by blast
  let ?d = "iq_next_delivery_id (is_queue sv)"
  let ?q1 = "snd (iq_mint_delivery_id (is_queue sv))"
  have q1: "?q1 = iq_observe_delivery_id ?d (is_queue sv)"
    using mint_is_observe [of "is_queue sv"] by (simp add: iq_mint_delivery_id_def)
  have lt: "?d < iq_next_delivery_id ?q1"
    using assms(2) word_less_succ by (simp add: iq_mint_delivery_id_def saturating_add_one)
  have ids: "ids_ok ?q1" using assms(1) ids_ok_items [of ?q1 "is_queue sv"]
    by (simp add: synced_def iq_mint_delivery_id_def)
  have *: "synced ((append_event (InstructionDelivery k ?d b ok) (sv\<lparr>is_queue := ?q1\<rparr>))
      \<lparr>is_queue := (if ok then snd (iq_remove k ?q1) else ?q1)\<rparr>)" for ok
    using assms(1) lt q1 ids by (intro synced_append) (auto simp: replay_instr_event_def Let_def ids_ok_remove)
  have "synced (append_event (InstructionDelivery k ?d b False) (sv\<lparr>is_queue := ?q1\<rparr>))"
    using * [of False] by (auto simp: append_event_def synced_def)
  with * [of True] show ?thesis
    using i by (simp add: deliver_instruction_def iq_mint_delivery_id_def Let_def)
qed

lemma ids_ok_insert:
  "ids_ok q \<Longrightarrow> ii_id i = iq_next_id q \<Longrightarrow> iq_next_id q \<noteq> - 1 \<Longrightarrow> ids_ok (iq_insert i q)"
  using word_less_succ [of "iq_next_id q"] iq_insert_distinct [of q i]
  by (auto simp: ids_ok_def iq_insert_items_set iq.ins_next less_max_iff_disj)

lemma iq_replace_Some:
  assumes "iq_get k q \<noteq> None"
  obtains n where "position (\<lambda>c. ii_id c = k) (iq_items q) = Some n"
    "snd (iq_replace k i q) = q\<lparr>iq_next_id := max (iq_next_id q) (saturating_add (ii_id i) 1), iq_items := (iq_items q)[n := i]\<rparr>"
  using assms by (cases "position (\<lambda>c. ii_id c = k) (iq_items q)")
    (auto simp: iq_replace_def iq_get_def position_find)

lemma ids_ok_replace:
  assumes "ids_ok q" and "ii_id i = iq_next_id q" and "iq_next_id q \<noteq> - 1" and "iq_get k q \<noteq> None"
  shows "ids_ok (snd (iq_replace k i q))" and "iq_next_id (snd (iq_replace k i q)) = iq_next_id q + 1"
proof -
  obtain n where n: "position (\<lambda>c. ii_id c = k) (iq_items q) = Some n"
    and r: "snd (iq_replace k i q) = q\<lparr>iq_next_id := max (iq_next_id q) (saturating_add (ii_id i) 1), iq_items := (iq_items q)[n := i]\<rparr>"
    using iq_replace_Some [OF assms(4)] by blast
  have lt: "iq_next_id q < iq_next_id q + 1" using assms(3) by (rule word_less_succ)
  then have nx: "max (iq_next_id q) (saturating_add (ii_id i) 1) = iq_next_id q + 1"
    using assms(2,3) by (simp add: saturating_add_one max_absorb2)
  then show "iq_next_id (snd (iq_replace k i q)) = iq_next_id q + 1" using r by simp
  have "ii_id i \<notin> set (map ii_id (iq_items q))" using assms(1,2) by (auto simp: ids_ok_def)
  then have "distinct (map ii_id ((iq_items q)[n := i]))"
    using assms(1) by (auto simp: ids_ok_def map_update distinct_list_update dest: in_set_takeD)
  moreover have "\<forall>c\<in>set ((iq_items q)[n := i]). ii_id c < iq_next_id q + 1"
    using assms(1,2) lt set_update_subset_insert [of "iq_items q" n i] by (fastforce simp: ids_ok_def)
  ultimately show "ids_ok (snd (iq_replace k i q))" using r nx by (simp add: ids_ok_def)
qed

lemma synced_add:
  assumes "synced sv" and "iq_next_id (is_queue sv) \<noteq> - 1"
  shows "synced (snd (add_instruction pane author t sv))"
proof -
  let ?q = "is_queue sv"
  have *: "synced ((append_event (InstructionQueued i) (sv\<lparr>is_queue := q'\<rparr>))\<lparr>is_queue := iq_insert i ?q\<rparr>)"
    if "ii_id i = iq_next_id ?q" for i q'
    using assms that word_less_succ [of "iq_next_id ?q"] ids_ok_insert [of ?q i]
    by (intro synced_append) (auto simp: replay_instr_event_def synced_def iq.ins_next less_max_iff_disj)
  show ?thesis
    using assms(1) * by (auto simp: add_instruction_def iq_allocate_def Let_def iq_insert_allocated split: option.split)
qed

lemma synced_replace:
  assumes "synced sv" and "iq_next_id (is_queue sv) \<noteq> - 1"
  shows "synced (snd (replace_instruction k author t sv))"
proof -
  let ?q = "is_queue sv"
  have *: "synced ((append_event (InstructionReplaced k i) (sv\<lparr>is_queue := q'\<rparr>))\<lparr>is_queue := snd (iq_replace k i ?q)\<rparr>)"
    if "ii_id i = iq_next_id ?q" "iq_get k ?q \<noteq> None" for i q'
    using assms that word_less_succ [of "iq_next_id ?q"] ids_ok_replace [of ?q i k] iq_replace_allocated [OF that]
    by (intro synced_append) (auto simp: replay_instr_event_def synced_def split: prod.split)
  show ?thesis
    using assms(1) * by (auto simp: replace_instruction_def iq_allocate_def Let_def iq_replace_allocated split: option.split)
qed

lemma allocators_drop [simp]:
  "iq_next_id (is_queue (drop_instruction k r sv)) = iq_next_id (is_queue sv)"
  "iq_next_delivery_id (is_queue (drop_instruction k r sv)) = iq_next_delivery_id (is_queue sv)"
  by (simp_all add: drop_instruction_def)

lemma allocators_fold_drop [simp]:
  "iq_next_id (is_queue (fold (\<lambda>k. drop_instruction k r) ks sv)) = iq_next_id (is_queue sv)"
  "iq_next_delivery_id (is_queue (fold (\<lambda>k. drop_instruction k r) ks sv)) = iq_next_delivery_id (is_queue sv)"
  by (induction ks arbitrary: sv) auto

lemma synced_serve:
  assumes "synced sv" and "iq_next_id (is_queue sv) \<noteq> - 1" and "iq_next_delivery_id (is_queue sv) \<noteq> - 1"
  shows "synced (serve accept x sv)"
proof (cases x)
  case (Command c)
  with assms show ?thesis
    by (cases c) (auto simp: serve_def instruction_command_def cancel_instruction_def Let_def
        intro: synced_add synced_replace synced_deliver synced_drop)
next
  case (Ready pane)
  with assms show ?thesis
    by (auto simp: serve_def deliver_cooperative_instruction_def cancel_stale_instructions_def Let_def
        intro!: synced_deliver synced_fold_drop split: option.split)
qed (use assms in \<open>auto simp: serve_def cancel_pane_instructions_def cancel_stale_instructions_def
    intro!: synced_fold_drop\<close>, simp_all add: synced_def)

lemma allocators_deliver:
  "unat (iq_next_id (is_queue (snd (deliver_instruction accept k b sv)))) = unat (iq_next_id (is_queue sv))
   \<and> unat (iq_next_delivery_id (is_queue (snd (deliver_instruction accept k b sv))))
       \<le> Suc (unat (iq_next_delivery_id (is_queue sv)))"
  by (auto simp: deliver_instruction_def iq_mint_delivery_id_def Let_def unat_saturating_add split: option.split)

lemma allocators_add:
  "unat (iq_next_id (is_queue (snd (add_instruction pane author t sv)))) \<le> Suc (unat (iq_next_id (is_queue sv)))
   \<and> iq_next_delivery_id (is_queue (snd (add_instruction pane author t sv))) = iq_next_delivery_id (is_queue sv)"
  by (auto simp: add_instruction_def iq_allocate_def iq_insert_def Let_def unat_saturating_add max_def split: option.split)

lemma allocators_replace:
  "unat (iq_next_id (is_queue (snd (replace_instruction k author t sv)))) \<le> Suc (unat (iq_next_id (is_queue sv)))
   \<and> iq_next_delivery_id (is_queue (snd (replace_instruction k author t sv))) = iq_next_delivery_id (is_queue sv)"
  by (auto simp: replace_instruction_def iq_allocate_def iq_replace_def Let_def unat_saturating_add max_def split: option.split)

lemma allocators_serve:
  "unat (iq_next_id (is_queue (serve accept x sv))) \<le> Suc (unat (iq_next_id (is_queue sv)))
   \<and> unat (iq_next_delivery_id (is_queue (serve accept x sv))) \<le> Suc (unat (iq_next_delivery_id (is_queue sv)))"
proof (cases x)
  case (Command c)
  show ?thesis
    using allocators_deliver [of accept _ SendNow sv] allocators_add [of _ _ _ sv] allocators_replace [of _ _ _ sv]
    unfolding Command serve_def by (cases c) (simp_all add: instruction_command_def cancel_instruction_def Let_def le_SucI)
next
  case (Ready pane)
  show ?thesis
    using allocators_deliver [of accept _ CooperativeReady "cancel_stale_instructions pane (instruction_invocation pane sv) sv"]
    unfolding Ready serve_def
    by (auto simp: deliver_cooperative_instruction_def cancel_stale_instructions_def Let_def le_SucI split: option.split)
qed (simp_all add: serve_def cancel_pane_instructions_def cancel_stale_instructions_def)

lemma synced_serve_all:
  assumes "synced sv" and "unat (iq_next_id (is_queue sv)) + length xs < 2 ^ 64"
    and "unat (iq_next_delivery_id (is_queue sv)) + length xs < 2 ^ 64"
  shows "synced (serve_all accept xs sv)"
  using assms
proof (induction xs arbitrary: sv)
  case (Cons x xs)
  have "iq_next_id (is_queue sv) \<noteq> - 1" "iq_next_delivery_id (is_queue sv) \<noteq> - 1"
    using Cons.prems(2,3) by (auto simp: unsigned_minus_1_eq_mask mask_eq_exp_minus_1)
  then have "synced (serve accept x sv)" using Cons.prems(1) synced_serve by blast
  moreover note allocators_serve [of accept x sv]
  ultimately show ?case using Cons.prems(2,3) Cons.IH [of "serve accept x sv"] by (simp add: serve_all_def)
qed (simp add: serve_all_def)

lemma synced_start: "length xs < 2 ^ 64 - 1 \<Longrightarrow> synced (serve_all accept xs server_start)"
  by (rule synced_serve_all)
    (simp_all add: synced_def server_start_def replay_instructions_def ids_ok_def iq_new_def)

text \<open>
  C10. C10 (recovery refines the live projection). After any interleaving of commands, ready events,
  pane closures, changes of the foreground processes and records of other components,
  replaying the instruction events that reached the log, which suppresses a record equal to
  the last one, rebuilds exactly the live queue: items, order and both allocators.
\<close>

theorem instruction_replay_refines_live:
  assumes "length xs < 2 ^ 64 - 1"
  shows "replay_instructions (is_log (serve_all accept xs server_start)) iq_new
     = is_queue (serve_all accept xs server_start)"
  using synced_start [OF assms] by (simp add: synced_def)

text \<open>Witness of C9: two instructions are queued for a bound agent, the ready event delivers one.\<close>

definition demo_inputs :: "instr_input list" where
  "demo_inputs =
     [Observe_panes (RBT.insert (PaneId 1) \<lparr>pv_agent_pid = Some (Some 10), pv_foreground = Some 10\<rparr> RBT.empty),
      Command (Add (PaneId 1) Cli (lit ''one'')), Command (Add (PaneId 1) Cli (lit ''two'')), Ready (PaneId 1)]"

theorem instruction_replay_refines_live_witness:
  "length demo_inputs < 2 ^ 64 - 1
   \<and> map ii_id (iq_items (replay_instructions
        (is_log (serve_all (\<lambda>_ _. True) demo_inputs server_start)) iq_new)) = [2]"
proof -
  have l: "length demo_inputs < 2 ^ 64 - 1" by (simp add: demo_inputs_def)
  have "map ii_id (iq_items (is_queue (serve_all (\<lambda>_ _. True) demo_inputs server_start))) = [2]"
    by code_simp
  with instruction_replay_refines_live [OF l, of "\<lambda>_ _. True"] l show ?thesis by simp
qed

section \<open>Bounds\<close>

definition held_for :: "pane_id \<Rightarrow> i32 \<Rightarrow> instruction_queue \<Rightarrow> nat" where
  "held_for pane invo q = length (filter (\<lambda>i. ii_pane i = pane \<and> ii_invocation i = invo) (iq_items q))"

definition queue_bounded :: "instruction_queue \<Rightarrow> bool" where
  "queue_bounded q \<longleftrightarrow> length (iq_items q) \<le> MAX_WORKSPACE_INSTRUCTIONS
     \<and> (\<forall>pane invo. held_for pane invo q \<le> MAX_INVOCATION_INSTRUCTIONS)
     \<and> (\<forall>i\<in>set (iq_items q). length (ii_text i) \<le> MAX_INSTRUCTION_CHARS)"

lemma filter_remove_at_le: "length (filter P (remove_at k xs)) \<le> length (filter P xs)"
proof -
  have "filter P xs = filter P (take k xs) @ filter P (drop k xs)"
    by (metis append_take_drop_id filter_append)
  moreover have "length (filter P (drop (Suc k) xs)) \<le> length (filter P (drop k xs))"
    by (cases "drop k xs") (auto simp: drop_Suc tl_drop [symmetric])
  ultimately show ?thesis by (simp add: remove_at_def)
qed

lemma length_remove_at_le: "length (remove_at k xs) \<le> length xs"
  using filter_remove_at_le [of "\<lambda>_. True"] by simp

lemma bounded_remove:
  assumes "queue_bounded q"
  shows "queue_bounded (snd (iq_remove k q))"
proof (cases "position (\<lambda>c. ii_id c = k) (iq_items q)")
  case None
  with assms show ?thesis by (simp add: iq_remove_def)
next
  case (Some n)
  have "length (remove_at n (iq_items q)) \<le> MAX_WORKSPACE_INSTRUCTIONS"
    using assms by (intro order_trans [OF length_remove_at_le]) (simp add: queue_bounded_def)
  moreover have "length (filter P (remove_at n (iq_items q))) \<le> MAX_INVOCATION_INSTRUCTIONS"
    if "length (filter P (iq_items q)) \<le> MAX_INVOCATION_INSTRUCTIONS" for P
    by (rule order_trans [OF filter_remove_at_le that])
  moreover have "\<forall>i\<in>set (remove_at n (iq_items q)). length (ii_text i) \<le> MAX_INSTRUCTION_CHARS"
    using assms by (auto simp: queue_bounded_def dest: set_remove_at_subset [THEN subsetD])
  ultimately show ?thesis
    using Some assms by (simp add: queue_bounded_def iq_remove_def held_for_def)
qed

lemma bounded_cong: "iq_items q = iq_items q' \<Longrightarrow> queue_bounded q \<longleftrightarrow> queue_bounded q'"
  by (simp add: queue_bounded_def held_for_def)

lemma length_filter_filter_le: "length (filter P (filter Q xs)) \<le> length (filter P xs)"
  by (induction xs) auto

lemma bounded_insert:
  assumes "queue_bounded q" and "iq_can_enqueue (ii_pane i) (ii_invocation i) q"
    and "length (ii_text i) \<le> MAX_INSTRUCTION_CHARS"
  shows "queue_bounded (iq_insert i q)"
proof -
  let ?keep = "filter (\<lambda>c. ii_id c \<noteq> ii_id i) (iq_items q)"
  have "length (iq_items (iq_insert i q)) = Suc (length ?keep)"
    by (simp add: iq_insert_def)
  also have "\<dots> \<le> MAX_WORKSPACE_INSTRUCTIONS"
    using assms(2) length_filter_le [of _ "iq_items q"] le_less_trans
    unfolding iq_can_enqueue_def by (metis Suc_leI)
  finally have len: "length (iq_items (iq_insert i q)) \<le> MAX_WORKSPACE_INSTRUCTIONS" .
  have held: "held_for pane invo (iq_insert i q) \<le> MAX_INVOCATION_INSTRUCTIONS" for pane invo
  proof -
    let ?P = "\<lambda>c. ii_pane c = pane \<and> ii_invocation c = invo"
    have "held_for pane invo (iq_insert i q) = length (filter ?P (?keep @ [i]))"
      unfolding held_for_def iq_insert_def
      by (metis (no_types, lifting) instruction_queue.select_convs(1) instruction_queue.surjective
          instruction_queue.update_convs(1) mset_filter mset_sort size_mset)
    also have "\<dots> \<le> (if ?P i then Suc (held_for pane invo q) else held_for pane invo q)"
      using length_filter_filter_le [of ?P _ "iq_items q"] by (simp add: held_for_def)
    also have "\<dots> \<le> MAX_INVOCATION_INSTRUCTIONS"
      using assms(1,2) by (auto simp: queue_bounded_def iq_can_enqueue_def held_for_def)
    finally show ?thesis .
  qed
  have "\<forall>c\<in>set (iq_items (iq_insert i q)). length (ii_text c) \<le> MAX_INSTRUCTION_CHARS"
    using assms(1,3) by (auto simp: queue_bounded_def iq_insert_items_set)
  with len held show ?thesis by (simp add: queue_bounded_def)
qed

lemma filter_update_same:
  "k < length xs \<Longrightarrow> P y \<longleftrightarrow> P (xs ! k) \<Longrightarrow> length (filter P (xs[k := y])) = length (filter P xs)"
proof (induction xs arbitrary: k)
  case (Cons x xs)
  then show ?case by (cases k) auto
qed simp

lemma bounded_replace:
  assumes "queue_bounded q" and "iq_get k q = Some c" and "ii_pane i = ii_pane c"
    and "ii_invocation i = ii_invocation c" and "length (ii_text i) \<le> MAX_INSTRUCTION_CHARS"
  shows "queue_bounded (snd (iq_replace k i q))"
proof -
  obtain n where n: "position (\<lambda>x. ii_id x = k) (iq_items q) = Some n" and c: "c = iq_items q ! n"
    using assms(2) by (auto simp: iq_get_def position_find)
  have nl: "n < length (iq_items q)" using position_SomeD [OF n] by simp
  have "held_for p v (snd (iq_replace k i q)) = held_for p v q" for p v
    unfolding held_for_def iq_replace_def using n nl c assms(3,4)
    by (simp add: filter_update_same)
  moreover have "\<forall>x\<in>set (iq_items (snd (iq_replace k i q))). length (ii_text x) \<le> MAX_INSTRUCTION_CHARS"
    using assms(1,5) n by (auto simp: iq_replace_def queue_bounded_def dest!: set_update_subset_insert [THEN subsetD])
  ultimately show ?thesis
    using assms(1) n by (simp add: queue_bounded_def iq_replace_def)
qed

lemma bounded_text_length: "length (bounded_text t) \<le> MAX_INSTRUCTION_CHARS"
  by (simp add: bounded_text_def)

lemma bounded_drop: "queue_bounded (is_queue sv) \<Longrightarrow> queue_bounded (is_queue (drop_instruction k r sv))"
  by (simp add: drop_instruction_def append_event_def bounded_remove)

lemma bounded_fold_drop:
  "queue_bounded (is_queue sv) \<Longrightarrow> queue_bounded (is_queue (fold (\<lambda>k. drop_instruction k r) ks sv))"
  by (induction ks arbitrary: sv) (auto intro: bounded_drop)

lemma bounded_deliver:
  "queue_bounded (is_queue sv) \<Longrightarrow> queue_bounded (is_queue (snd (deliver_instruction accept k b sv)))"
proof -
  assume b: "queue_bounded (is_queue sv)"
  then have m: "queue_bounded (snd (iq_mint_delivery_id (is_queue sv)))"
    using bounded_cong [of "snd (iq_mint_delivery_id (is_queue sv))" "is_queue sv"]
    by (simp add: iq_mint_delivery_id_def)
  then show ?thesis
    using b bounded_remove [OF m, of k]
    by (auto simp: deliver_instruction_def Let_def append_event_def bounded_drop
        split: option.split prod.split)
qed

lemma bounded_add:
  "queue_bounded (is_queue sv) \<Longrightarrow> queue_bounded (is_queue (snd (add_instruction pane author t sv)))"
  by (auto simp: add_instruction_def iq_allocate_def Let_def append_event_def iq_insert_allocated
      bounded_text_length intro!: bounded_insert split: option.split)

lemma bounded_replace_cmd:
  "queue_bounded (is_queue sv) \<Longrightarrow> queue_bounded (is_queue (snd (replace_instruction k author t sv)))"
  by (auto simp: replace_instruction_def iq_allocate_def Let_def append_event_def
      iq_replace_allocated bounded_text_length intro!: bounded_replace split: option.split)

lemma bounded_serve: "queue_bounded (is_queue sv) \<Longrightarrow> queue_bounded (is_queue (serve accept x sv))"
proof (cases x)
  case (Command c)
  assume "queue_bounded (is_queue sv)"
  with Command show ?thesis
    by (cases c) (auto simp: serve_def instruction_command_def cancel_instruction_def Let_def
        intro: bounded_add bounded_replace_cmd bounded_deliver bounded_drop)
next
  case (Ready pane)
  assume "queue_bounded (is_queue sv)"
  with Ready show ?thesis
    by (auto simp: serve_def deliver_cooperative_instruction_def cancel_stale_instructions_def Let_def
        intro!: bounded_deliver bounded_fold_drop split: option.split)
qed (auto simp: serve_def cancel_pane_instructions_def cancel_stale_instructions_def
    intro!: bounded_fold_drop)

text \<open>
  C16 (hard bounds). However the server is driven, the queue never holds more than 1024
  instructions, never more than 64 for one pane and invocation, and no instruction longer
  than 16384 characters.
\<close>

theorem instruction_queue_bounded:
  "queue_bounded (is_queue (serve_all accept xs server_start))"
proof -
  have "queue_bounded (is_queue sv) \<Longrightarrow> queue_bounded (is_queue (serve_all accept xs sv))" for sv
    unfolding serve_all_def by (induction xs arbitrary: sv) (auto intro: bounded_serve)
  moreover have "queue_bounded (is_queue server_start)"
    by (simp add: queue_bounded_def server_start_def iq_new_def held_for_def)
  ultimately show ?thesis by blast
qed

section \<open>Delivery at a ready boundary\<close>

lemma fold_drop_effect:
  assumes "synced sv" and "distinct ks" and "set ks \<subseteq> set (map ii_id (iq_items (is_queue sv)))"
  shows "iq_items (is_queue (fold (\<lambda>k. drop_instruction k r) ks sv))
           = filter (\<lambda>i. ii_id i \<notin> set ks) (iq_items (is_queue sv))
    \<and> is_log (fold (\<lambda>k. drop_instruction k r) ks sv) = is_log sv @ map (\<lambda>k. InstructionCanceled k r) ks
    \<and> is_panes (fold (\<lambda>k. drop_instruction k r) ks sv) = is_panes sv"
  using assms
proof (induction ks arbitrary: sv)
  case (Cons k ks)
  let ?sv = "drop_instruction k r sv"
  have d: "distinct (map ii_id (iq_items (is_queue sv)))"
    using Cons.prems(1) by (simp add: synced_def ids_ok_def)
  then have items: "iq_items (is_queue ?sv) = filter (\<lambda>i. ii_id i \<noteq> k) (iq_items (is_queue sv))"
    by (simp add: drop_instruction_def iq_remove_items)
  have "is_writes_enabled sv" "is_last sv \<noteq> Some (InstructionCanceled k r)"
    using Cons.prems by (auto simp: synced_def)
  then have log: "is_log ?sv = is_log sv @ [InstructionCanceled k r]" "is_panes ?sv = is_panes sv"
    by (simp_all add: drop_instruction_def append_event_def)
  have "set (map ii_id (iq_items (is_queue ?sv))) = set (map ii_id (iq_items (is_queue sv))) - {k}"
    using items by auto
  then have "set ks \<subseteq> set (map ii_id (iq_items (is_queue ?sv)))"
    using Cons.prems(2,3) by auto
  from Cons.IH [OF synced_drop [OF Cons.prems(1)] _ this] Cons.prems(2) items log show ?case
    by (auto intro: filter_cong)
qed simp

lemma find_in_set: "find P xs = Some x \<Longrightarrow> x \<in> set xs \<and> P x"
  by (auto simp: find_Some_iff)

definition stale_ids :: "pane_id \<Rightarrow> i32 option \<Rightarrow> instruction_queue \<Rightarrow> u64 list" where
  "stale_ids pane invo q =
     map ii_id (filter (\<lambda>i. ii_pane i = pane \<and> Some (ii_invocation i) \<noteq> invo) (iq_items q))"

lemma cancel_stale_effect:
  assumes s: "synced sv"
  shows "iq_items (is_queue (cancel_stale_instructions pane invo sv))
          = filter (\<lambda>i. \<not> (ii_pane i = pane \<and> Some (ii_invocation i) \<noteq> invo)) (iq_items (is_queue sv))"
    and "is_log (cancel_stale_instructions pane invo sv)
          = is_log sv @ map (\<lambda>k. InstructionCanceled k InvocationEnded) (stale_ids pane invo (is_queue sv))"
    and "is_panes (cancel_stale_instructions pane invo sv) = is_panes sv"
proof -
  have d: "distinct (map ii_id (iq_items (is_queue sv)))"
    using s by (simp add: synced_def ids_ok_def)
  then have inj: "inj_on ii_id (set (iq_items (is_queue sv)))"
    by (simp add: distinct_map)
  have sv1: "cancel_stale_instructions pane invo sv
      = fold (\<lambda>k. drop_instruction k InvocationEnded) (stale_ids pane invo (is_queue sv)) sv"
    by (simp add: cancel_stale_instructions_def stale_ids_def)
  have "distinct (stale_ids pane invo (is_queue sv))"
    using d by (simp add: stale_ids_def distinct_map_filter_key)
  moreover have "set (stale_ids pane invo (is_queue sv)) \<subseteq> set (map ii_id (iq_items (is_queue sv)))"
    by (auto simp: stale_ids_def)
  ultimately have eff: "iq_items (is_queue (fold (\<lambda>k. drop_instruction k InvocationEnded) (stale_ids pane invo (is_queue sv)) sv))
        = filter (\<lambda>i. ii_id i \<notin> set (stale_ids pane invo (is_queue sv))) (iq_items (is_queue sv))
    \<and> is_log (fold (\<lambda>k. drop_instruction k InvocationEnded) (stale_ids pane invo (is_queue sv)) sv)
        = is_log sv @ map (\<lambda>k. InstructionCanceled k InvocationEnded) (stale_ids pane invo (is_queue sv))
    \<and> is_panes (fold (\<lambda>k. drop_instruction k InvocationEnded) (stale_ids pane invo (is_queue sv)) sv) = is_panes sv"
    using fold_drop_effect [OF s] by blast
  then show "is_log (cancel_stale_instructions pane invo sv)
          = is_log sv @ map (\<lambda>k. InstructionCanceled k InvocationEnded) (stale_ids pane invo (is_queue sv))"
    and "is_panes (cancel_stale_instructions pane invo sv) = is_panes sv"
    by (simp_all add: sv1)
  have "ii_id i \<notin> set (stale_ids pane invo (is_queue sv))
      \<longleftrightarrow> \<not> (ii_pane i = pane \<and> Some (ii_invocation i) \<noteq> invo)"
    if "i \<in> set (iq_items (is_queue sv))" for i
    using that inj by (auto simp: stale_ids_def dest: inj_onD)
  with eff show "iq_items (is_queue (cancel_stale_instructions pane invo sv))
          = filter (\<lambda>i. \<not> (ii_pane i = pane \<and> Some (ii_invocation i) \<noteq> invo)) (iq_items (is_queue sv))"
    by (auto simp: sv1 intro!: filter_cong)
qed

lemma find_filter_imp: "(\<And>x. P x \<Longrightarrow> Q x) \<Longrightarrow> find P (filter Q xs) = find P xs"
  by (induction xs) auto

lemma iq_remove_subset: "set (iq_items (snd (iq_remove k q))) \<subseteq> set (iq_items q)"
  by (auto simp: iq_remove_def split: option.split dest: set_remove_at_subset [THEN subsetD])

lemma deliver_bound_instruction:
  assumes "iq_get k (is_queue sv) = Some i"
    and "instruction_invocation (ii_pane i) sv = Some (ii_invocation i)" and "synced sv"
  shows "\<exists>d ok. is_log (snd (deliver_instruction accept k b sv)) = is_log sv @ [InstructionDelivery k d b ok]"
    and "set (iq_items (is_queue (snd (deliver_instruction accept k b sv)))) \<subseteq> set (iq_items (is_queue sv))"
proof -
  let ?q1 = "snd (iq_mint_delivery_id (is_queue sv))"
  have "iq_items ?q1 = iq_items (is_queue sv)"
    by (simp add: iq_mint_delivery_id_def)
  with iq_remove_subset [of k ?q1]
  show "set (iq_items (is_queue (snd (deliver_instruction accept k b sv)))) \<subseteq> set (iq_items (is_queue sv))"
    using assms by (cases "iq_mint_delivery_id (is_queue sv)")
      (simp add: deliver_instruction_def Let_def)
  have "is_writes_enabled sv"
    and "is_last sv \<noteq> Some (InstructionDelivery k (iq_next_delivery_id (is_queue sv)) b ok)" for ok
    using assms(3) by (auto simp: synced_def)
  then show "\<exists>d ok. is_log (snd (deliver_instruction accept k b sv)) = is_log sv @ [InstructionDelivery k d b ok]"
    using assms by (auto simp: deliver_instruction_def iq_mint_delivery_id_def append_event_def Let_def)
qed

lemma find_key_self:
  "distinct (map f xs) \<Longrightarrow> x \<in> set xs \<Longrightarrow> find (\<lambda>y. f y = f x) xs = Some x"
  by (induction xs) (auto simp: image_iff)

lemma iq_get_self:
  "distinct (map ii_id (iq_items q)) \<Longrightarrow> i \<in> set (iq_items q) \<Longrightarrow> iq_get (ii_id i) q = Some i"
  unfolding iq_get_def by (rule find_key_self)

text \<open>
  C11 (ready boundary). A cooperative ready event of a pane first cancels every instruction of
  that pane that was queued for another invocation, and then makes at most one delivery
  attempt: for the first instruction in queue order bound to that pane and to its current
  invocation. Afterwards no instruction of a dead invocation is left for that pane.
\<close>

theorem ready_boundary_delivers_one:
  assumes "synced sv" and "\<not> is_durability_error sv"
    and "invo = instruction_invocation pane sv"
    and "sv' = deliver_cooperative_instruction accept pane sv"
  shows "(\<forall>i\<in>set (iq_items (is_queue sv')). ii_pane i = pane \<longrightarrow> Some (ii_invocation i) = invo)
    \<and> (\<exists>tries. is_log sv' = is_log sv
          @ map (\<lambda>k. InstructionCanceled k InvocationEnded) (stale_ids pane invo (is_queue sv)) @ tries
        \<and> (tries = [] \<or> (\<exists>v i d ok. invo = Some v \<and> iq_next_for pane v (is_queue sv) = Some i
             \<and> tries = [InstructionDelivery (ii_id i) d CooperativeReady ok])))"
proof -
  let ?sv1 = "cancel_stale_instructions pane invo sv"
  have s1: "synced ?sv1" using assms(1) by (simp add: cancel_stale_instructions_def synced_fold_drop)
  note eff = cancel_stale_effect [OF assms(1), of pane invo]
  have clean: "\<forall>i\<in>set (iq_items (is_queue ?sv1)). ii_pane i = pane \<longrightarrow> Some (ii_invocation i) = invo"
    using eff(1) by auto
  show ?thesis
  proof (cases "\<exists>v i. invo = Some v \<and> iq_next_for pane v (is_queue ?sv1) = Some i")
    case False
    then have "sv' = ?sv1"
      using assms(2,3,4) unfolding deliver_cooperative_instruction_def Let_def
      by (auto split: option.split)
    with eff clean show ?thesis by auto
  next
    case True
    then obtain v i where v: "invo = Some v" and i: "iq_next_for pane v (is_queue ?sv1) = Some i" by blast
    have sv': "sv' = snd (deliver_instruction accept (ii_id i) CooperativeReady ?sv1)"
      using assms(2,4) i v by (simp add: deliver_cooperative_instruction_def Let_def assms(3) [symmetric])
    have mem: "i \<in> set (iq_items (is_queue ?sv1))" "ii_pane i = pane" "ii_invocation i = v"
      using find_in_set [OF i [unfolded iq_next_for_def]] by auto
    have next_i: "iq_next_for pane v (is_queue sv) = Some i"
      using i v eff(1) find_filter_imp
        [of "\<lambda>i. ii_pane i = pane \<and> ii_invocation i = v"
            "\<lambda>i. \<not> (ii_pane i = pane \<and> Some (ii_invocation i) \<noteq> invo)" "iq_items (is_queue sv)"]
      by (simp add: iq_next_for_def)
    have get: "iq_get (ii_id i) (is_queue ?sv1) = Some i"
      using s1 mem(1) by (intro iq_get_self) (simp_all add: synced_def ids_ok_def)
    have live: "instruction_invocation (ii_pane i) ?sv1 = Some (ii_invocation i)"
      using assms(3) v mem eff(3) by (simp add: instruction_invocation_def)
    note deliv = deliver_bound_instruction [OF get live s1, of accept CooperativeReady]
    obtain d ok where log: "is_log sv' = is_log ?sv1 @ [InstructionDelivery (ii_id i) d CooperativeReady ok]"
      using deliv(1) sv' by auto
    have "set (iq_items (is_queue sv')) \<subseteq> set (iq_items (is_queue ?sv1))"
      using deliv(2) sv' by simp
    with clean have "\<forall>i\<in>set (iq_items (is_queue sv')). ii_pane i = pane \<longrightarrow> Some (ii_invocation i) = invo"
      by blast
    with log eff(2) v next_i show ?thesis by auto
  qed
qed

theorem ready_boundary_delivers_one_witness:
  "let sv = serve_all (\<lambda>_ _. True) (butlast demo_inputs) server_start;
       sv' = deliver_cooperative_instruction (\<lambda>_ _. True) (PaneId 1) sv
   in instruction_invocation (PaneId 1) sv = Some 10
    \<and> list_all (\<lambda>i. ii_pane i = PaneId 1 \<longrightarrow> ii_invocation i = 10) (iq_items (is_queue sv'))
    \<and> map ii_id (iq_items (is_queue sv')) = [2]"
proof -
  let ?sv = "serve_all (\<lambda>_ _. True) (butlast demo_inputs) server_start"
  let ?sv' = "deliver_cooperative_instruction (\<lambda>_ _. True) (PaneId 1) ?sv"
  have s: "synced ?sv" by (rule synced_start) (simp add: demo_inputs_def)
  have d: "\<not> is_durability_error ?sv" by code_simp
  have i: "instruction_invocation (PaneId 1) ?sv = Some 10" by code_simp
  have "\<forall>i\<in>set (iq_items (is_queue ?sv')). ii_pane i = PaneId 1 \<longrightarrow> Some (ii_invocation i) = Some 10"
    using ready_boundary_delivers_one [OF s d i [symmetric] refl, of "\<lambda>_ _. True"] by blast
  moreover have "map ii_id (iq_items (is_queue ?sv')) = [2]" by code_simp
  ultimately show ?thesis using i by (simp add: Let_def list_all_iff)
qed

section \<open>Replacement and queue order\<close>

text \<open>
  C21 (first in, first out on insertion). Right after an insertion the instruction delivered
  next for a pane and invocation is the one with the least creation sequence (then id) among
  those queued for it.
\<close>

theorem insert_keeps_fifo:
  assumes "iq_next_for pane v (iq_insert i q) = Some first"
    and "c \<in> set (iq_items (iq_insert i q))" and "ii_pane c = pane" and "ii_invocation c = v"
  shows "queue_order first \<le> queue_order c"
proof -
  let ?P = "\<lambda>i. ii_pane i = pane \<and> ii_invocation i = v"
  let ?xs = "iq_items (iq_insert i q)"
  have sorted: "sorted (map queue_order ?xs)"
    by (simp add: iq_insert_def)
  obtain n where n: "position ?P ?xs = Some n" and first: "first = ?xs ! n"
    using assms(1) by (auto simp: iq_next_for_def position_find)
  obtain m where m: "m < length ?xs" "c = ?xs ! m"
    using assms(2) by (auto simp: in_set_conv_nth)
  have "\<not> m < n"
    using position_SomeD [OF n] m assms(3,4) by auto
  then have "n \<le> m" by simp
  then have "map queue_order ?xs ! n \<le> map queue_order ?xs ! m"
    using sorted m(1) by (intro sorted_nth_mono) auto
  with first m \<open>n \<le> m\<close> show ?thesis by simp
qed

definition item_of :: "u64 \<Rightarrow> u64 \<Rightarrow> instruction_item" where
  "item_of k seq = fst (iq_allocate (PaneId 1) 10 Cli seq (lit ''go'') (iq_new\<lparr>iq_next_id := k\<rparr>))"

theorem insert_keeps_fifo_witness:
  "queue_order (item_of 1 5) \<le> queue_order (item_of 2 6)"
  by (rule insert_keeps_fifo [of "PaneId 1" 10 "item_of 1 5" "iq_insert (item_of 2 6) iq_new"])
    (simp_all add: iq_next_for_def iq_insert_def item_of_def iq_allocate_def iq_new_def queue_order_def
      insort_key.simps sort_key_def)

text \<open>
  C11 (replacement is undone by the next insertion). With instructions 1 and 2 queued, the
  replacement of 1 stands first, in place of 1; but the insertion of one more instruction
  sorts the queue again by creation sequence, and the replacement, which carries a new
  sequence, drops behind instruction 2, which is now delivered before it.
\<close>

theorem replaced_instruction_loses_its_place:
  "let q0 = iq_insert (item_of 2 2) (iq_insert (item_of 1 1) iq_new);
       q1 = snd (iq_replace 1 (item_of 3 3) q0);
       q2 = iq_insert (item_of 4 4) q1
   in map ii_id (iq_items q0) = [1, 2] \<and> map ii_id (iq_items q1) = [3, 2]
    \<and> map_option ii_id (iq_next_for (PaneId 1) 10 q1) = Some 3
    \<and> map ii_id (iq_items q2) = [2, 3, 4]
    \<and> map_option ii_id (iq_next_for (PaneId 1) 10 q2) = Some 2"
  by code_simp

end
