(* ===== verification/Agent.thy ===== *)
theory Agent
  imports Prelude
begin

text \<open>
  The agent status of \<^verbatim>\<open>crates/uniterm-core/src/agent.rs\<close>, the invocation-scoped details of
  \<^verbatim>\<open>agent_detail.rs\<close> and the session-scoped permission automation of \<^verbatim>\<open>approval.rs\<close>.
\<close>

section \<open>Status\<close>

datatype agent_status =
  Unknown | Starting | Working | Tool | Permission | Question | Idle | Error | Exited

definition needs_human :: "agent_status \<Rightarrow> bool" where
  "needs_human s \<longleftrightarrow> s = Permission \<or> s = Question"

fun fleet_priority :: "agent_status \<Rightarrow> nat" where
  "fleet_priority Permission = 0"
| "fleet_priority Question = 1"
| "fleet_priority Error = 2"
| "fleet_priority Tool = 3"
| "fleet_priority Working = 4"
| "fleet_priority Starting = 5"
| "fleet_priority Idle = 6"
| "fleet_priority Exited = 7"
| "fleet_priority Unknown = 8"

definition status_from_event :: "str \<Rightarrow> agent_status option" where
  "status_from_event e =
     (if e = lit ''session_start'' then Some Starting
      else if e = lit ''prompt_submit'' \<or> e = lit ''tool_end'' then Some Working
      else if e = lit ''tool_start'' then Some Tool
      else if e = lit ''permission_request'' then Some Permission
      else if e = lit ''question'' then Some Question
      else if e = lit ''idle'' then Some Idle
      else if e = lit ''error'' then Some Error
      else if e = lit ''session_end'' \<or> e = lit ''exiting'' then Some Exited
      else None)"

definition fleet_sort :: "('a \<Rightarrow> agent_status) \<Rightarrow> 'a list \<Rightarrow> 'a list" where
  "fleet_sort status xs = sort_key (\<lambda>x. fleet_priority (status x)) xs"

definition waiting_queue :: "('a \<Rightarrow> agent_status) \<Rightarrow> 'a list \<Rightarrow> 'a list" where
  "waiting_queue status xs = filter (\<lambda>x. needs_human (status x)) xs"

section \<open>Details of one invocation\<close>

definition DETAIL_TEXT_LIMIT :: nat where "DETAIL_TEXT_LIMIT = 512"
definition DETAIL_ID_LIMIT :: nat where "DETAIL_ID_LIMIT = 1024"

datatype loop_state = Scheduled | Stopped

datatype agent_detail =
    Notification str str
  | PermissionAsked str str
  | Loop loop_state "u32 option"

record agent_notification =
  an_kind :: str
  an_message :: str
  an_at_ms :: u64

record agent_permission =
  ap_tool :: str
  ap_preview :: str
  ap_at_ms :: u64

record agent_loop =
  al_state :: loop_state
  al_delay_seconds :: "u32 option"
  al_at_ms :: u64

record agent_details =
  ad_invocation :: "i32 option"
  ad_session_id :: "str option"
  ad_transcript_path :: "str option"
  ad_last_notification :: "agent_notification option"
  ad_pending_permission :: "agent_permission option"
  ad_loop_state :: "agent_loop option"

definition details_new :: "i32 option \<Rightarrow> agent_details" where
  "details_new invo = \<lparr>ad_invocation = invo, ad_session_id = None, ad_transcript_path = None,
     ad_last_notification = None, ad_pending_permission = None, ad_loop_state = None\<rparr>"

definition detail_bounded_text :: "str \<Rightarrow> nat \<Rightarrow> str" where
  "detail_bounded_text value limit =
     take limit (filter (\<lambda>c. \<not> is_control c) (map (\<lambda>c. if c = 10 \<or> c = 9 then 32 else c) value))"

definition observe_session :: "str option \<Rightarrow> str option \<Rightarrow> agent_details \<Rightarrow> bool \<times> agent_details" where
  "observe_session session_id transcript_path d =
     (let sid = map_option (\<lambda>v. detail_bounded_text v DETAIL_ID_LIMIT) session_id;
          path = map_option (\<lambda>v. detail_bounded_text v DETAIL_ID_LIMIT) transcript_path;
          replaced = (case (ad_session_id d, sid) of (Some old, Some new) \<Rightarrow> old \<noteq> new | _ \<Rightarrow> False)
      in if replaced then
           (True, (details_new (ad_invocation d))\<lparr>ad_session_id := sid, ad_transcript_path := path\<rparr>)
         else
           (let d1 = (if sid \<noteq> None then d\<lparr>ad_session_id := sid\<rparr> else d);
                d2 = (if path \<noteq> None then d1\<lparr>ad_transcript_path := path\<rparr> else d1)
            in (False, d2)))"

fun apply_detail :: "agent_detail \<Rightarrow> u64 \<Rightarrow> agent_details \<Rightarrow> agent_details" where
  "apply_detail (Notification kind message) at d =
     d\<lparr>ad_last_notification := Some \<lparr>an_kind = detail_bounded_text kind DETAIL_TEXT_LIMIT,
        an_message = detail_bounded_text message DETAIL_TEXT_LIMIT, an_at_ms = at\<rparr>\<rparr>"
| "apply_detail (PermissionAsked tool preview) at d =
     d\<lparr>ad_pending_permission := Some \<lparr>ap_tool = detail_bounded_text tool DETAIL_TEXT_LIMIT,
        ap_preview = detail_bounded_text preview DETAIL_TEXT_LIMIT, ap_at_ms = at\<rparr>\<rparr>"
| "apply_detail (Loop st delay) at d =
     d\<lparr>ad_loop_state := Some \<lparr>al_state = st, al_delay_seconds = delay, al_at_ms = at\<rparr>\<rparr>"

definition observe_status :: "agent_status \<Rightarrow> agent_details \<Rightarrow> agent_details" where
  "observe_status s d = (if s \<noteq> Permission then d\<lparr>ad_pending_permission := None\<rparr> else d)"

section \<open>Permission automation\<close>

record delivery =
  dl_invocation :: u64
  dl_prompt :: u64
  dl_navigation :: "u64 option"
  dl_automatic :: bool

record auto_approval =
  aa_enabled :: bool
  aa_delivered :: "(pane_id, delivery) rbt"

definition aa_set_enabled :: "bool \<Rightarrow> auto_approval \<Rightarrow> auto_approval" where
  "aa_set_enabled b a = a\<lparr>aa_enabled := b\<rparr>"

definition aa_observe :: "pane_id \<Rightarrow> agent_status \<Rightarrow> auto_approval \<Rightarrow> auto_approval" where
  "aa_observe pane s a =
     (if s \<noteq> Permission then a\<lparr>aa_delivered := RBT.delete pane (aa_delivered a)\<rparr> else a)"

definition aa_has_delivery :: "pane_id \<Rightarrow> auto_approval \<Rightarrow> bool" where
  "aa_has_delivery pane a \<longleftrightarrow> mlookup (aa_delivered a) pane \<noteq> None"

definition aa_pending_manual :: "pane_id \<Rightarrow> auto_approval \<Rightarrow> bool" where
  "aa_pending_manual pane a =
     (case mlookup (aa_delivered a) pane of
        None \<Rightarrow> False
      | Some d \<Rightarrow> \<not> dl_automatic d \<and> dl_navigation d \<noteq> None)"

definition aa_can_continue_manual :: "pane_id \<Rightarrow> u64 \<Rightarrow> u64 \<Rightarrow> auto_approval \<Rightarrow> bool" where
  "aa_can_continue_manual pane invo prompt a =
     (case mlookup (aa_delivered a) pane of
        None \<Rightarrow> False
      | Some d \<Rightarrow> \<not> dl_automatic d \<and> dl_navigation d \<noteq> None
          \<and> dl_invocation d = invo \<and> dl_prompt d = prompt)"

definition aa_is_new :: "pane_id \<Rightarrow> u64 \<Rightarrow> u64 \<Rightarrow> u64 option \<Rightarrow> auto_approval \<Rightarrow> bool" where
  "aa_is_new pane invo prompt navigation a =
     (case mlookup (aa_delivered a) pane of
        Some d \<Rightarrow>
          (if dl_invocation d = invo \<and> dl_prompt d = prompt
           then dl_navigation d \<noteq> None \<and> dl_navigation d \<noteq> navigation
           else True)
      | None \<Rightarrow> True)"

definition aa_deliver :: "pane_id \<Rightarrow> u64 \<Rightarrow> u64 \<Rightarrow> u64 option \<Rightarrow> bool \<Rightarrow> auto_approval \<Rightarrow> auto_approval" where
  "aa_deliver pane invo prompt navigation automatic a =
     a\<lparr>aa_delivered := RBT.insert pane
        \<lparr>dl_invocation = invo, dl_prompt = prompt, dl_navigation = navigation,
         dl_automatic = automatic\<rparr> (aa_delivered a)\<rparr>"

section \<open>Properties\<close>

text \<open>
  What free text a detail record can carry: bounded and free of control characters.
\<close>

definition clean_text :: "nat \<Rightarrow> str \<Rightarrow> bool" where
  "clean_text limit t \<longleftrightarrow> length t \<le> limit \<and> (\<forall>c\<in>set t. \<not> is_control c)"

definition details_clean :: "agent_details \<Rightarrow> bool" where
  "details_clean d \<longleftrightarrow>
     (\<forall>t. ad_session_id d = Some t \<longrightarrow> clean_text DETAIL_ID_LIMIT t)
     \<and> (\<forall>t. ad_transcript_path d = Some t \<longrightarrow> clean_text DETAIL_ID_LIMIT t)
     \<and> (\<forall>n. ad_last_notification d = Some n \<longrightarrow>
          clean_text DETAIL_TEXT_LIMIT (an_kind n) \<and> clean_text DETAIL_TEXT_LIMIT (an_message n))
     \<and> (\<forall>p. ad_pending_permission d = Some p \<longrightarrow>
          clean_text DETAIL_TEXT_LIMIT (ap_tool p) \<and> clean_text DETAIL_TEXT_LIMIT (ap_preview p))"

lemma detail_bounded_text_clean: "clean_text limit (detail_bounded_text v limit)"
  unfolding clean_text_def detail_bounded_text_def
  by (auto dest!: in_set_takeD simp: filter_map)

datatype detail_input =
    Session "str option" "str option" | Detail agent_detail u64 | Status agent_status

fun detail_step :: "detail_input \<Rightarrow> agent_details \<Rightarrow> agent_details" where
  "detail_step (Session sid path) d = snd (observe_session sid path d)"
| "detail_step (Detail x at) d = apply_detail x at d"
| "detail_step (Status s) d = observe_status s d"

lemma detail_step_clean: "details_clean d \<Longrightarrow> details_clean (detail_step x d)"
proof (cases x)
  case (Detail y at)
  assume "details_clean d"
  with Detail show ?thesis by (cases y) (auto simp: details_clean_def detail_bounded_text_clean)
qed (auto simp: details_clean_def observe_session_def observe_status_def details_new_def Let_def
    detail_bounded_text_clean split: option.splits)

text \<open>
  C15 (details never carry an escape). Whatever sessions, notifications, permission prompts,
  loop transitions and statuses are observed, every text of an invocation's detail record is
  free of control characters and within its limit; and no permission payload survives a
  status other than \<open>Permission\<close>, nor anything of an earlier session a change of session.
\<close>

theorem agent_details_clean:
  "details_clean (fold detail_step xs (details_new invo))
   \<and> (s \<noteq> Permission \<longrightarrow>
        ad_pending_permission (detail_step (Status s) (fold detail_step xs (details_new invo))) = None)
   \<and> (fst (observe_session sid path d) \<longrightarrow>
        ad_last_notification (snd (observe_session sid path d)) = None
        \<and> ad_pending_permission (snd (observe_session sid path d)) = None
        \<and> ad_loop_state (snd (observe_session sid path d)) = None
        \<and> ad_invocation (snd (observe_session sid path d)) = ad_invocation d)"
proof -
  have "details_clean (details_new invo)"
    by (simp add: details_clean_def details_new_def)
  moreover have "details_clean d \<Longrightarrow> details_clean (fold detail_step xs d)" for d
    by (induction xs arbitrary: d) (auto intro: detail_step_clean)
  ultimately show ?thesis
    by (auto simp: observe_status_def observe_session_def details_new_def Let_def)
qed

theorem agent_details_clean_witness:
  "ad_pending_permission (detail_step (Status Working)
     (fold detail_step [Detail (PermissionAsked (lit ''Bash'') (lit ''ls'')) 7] (details_new None))) = None"
  using agent_details_clean [of "[Detail (PermissionAsked (lit ''Bash'') (lit ''ls'')) 7]" None Working]
  by simp

datatype approval_input = Toggle bool | Saw pane_id agent_status

fun approval_step :: "approval_input \<Rightarrow> auto_approval \<Rightarrow> auto_approval" where
  "approval_step (Toggle b) a = aa_set_enabled b a"
| "approval_step (Saw pane s) a = aa_observe pane s a"

text \<open>
  C13 (no repeated approval). Once a choice has been delivered for a prompt as a submission
  (no navigation pending), that prompt of that invocation is not new again, whatever the
  selection shown and however the mode is toggled, as long as the agent stays at its
  permission prompt.
\<close>

theorem submitted_prompt_stays_consumed:
  assumes "\<And>s. Saw pane s \<in> set xs \<Longrightarrow> s = Permission"
  shows "\<not> aa_is_new pane invo prompt nav
           (fold approval_step xs (aa_deliver pane invo prompt None automatic a))"
proof -
  have keep: "mlookup (aa_delivered (fold approval_step xs b)) pane = mlookup (aa_delivered b) pane"
    if "\<And>s. Saw pane s \<in> set xs \<Longrightarrow> s = Permission" for b
    using that
  proof (induction xs arbitrary: b)
    case (Cons x xs)
    then have "mlookup (aa_delivered (approval_step x b)) pane = mlookup (aa_delivered b) pane"
      by (cases x) (auto simp: aa_set_enabled_def aa_observe_def)
    with Cons show ?case by simp
  qed simp
  show ?thesis
    using keep [OF assms] by (simp add: aa_is_new_def aa_deliver_def)
qed

theorem submitted_prompt_stays_consumed_witness:
  "\<not> aa_is_new (PaneId 1) 4 9 (Some 2) (fold approval_step [Toggle True, Saw (PaneId 2) Idle]
     (aa_deliver (PaneId 1) 4 9 None True \<lparr>aa_enabled = False, aa_delivered = RBT.empty\<rparr>))"
  by (rule submitted_prompt_stays_consumed) simp

lemma fleet_sort_spec: "mset (fleet_sort st xs) = mset xs
    \<and> sorted (map (\<lambda>x. fleet_priority (st x)) (fleet_sort st xs))"
  by (simp add: fleet_sort_def)

lemma needs_human_first: "needs_human s \<Longrightarrow> \<not> needs_human t \<Longrightarrow> fleet_priority s < fleet_priority t"
  by (cases s; cases t) (auto simp: needs_human_def)

end
