(* ===== verification/Guardrail.thy ===== *)
theory Guardrail
  imports Prelude
begin

text \<open>
  The Workspace policy of \<^verbatim>\<open>crates/uniterm-core/src/guardrail.rs\<close>: limits and their
  validation, and the three pure evaluations. Human-readable reasons are the constructors of
  \<open>guard_reason\<close>, one per message of the source, with the values the message interpolates.
\<close>

definition GUARDRAIL_MAX_ACTIVE_RUNS :: u16 where "GUARDRAIL_MAX_ACTIVE_RUNS = 64"
definition GUARDRAIL_MAX_ROLE_PANES :: u16 where "GUARDRAIL_MAX_ROLE_PANES = 256"
definition GUARDRAIL_MAX_ITERATIONS :: u32 where "GUARDRAIL_MAX_ITERATIONS = 100"
definition GUARDRAIL_MAX_ELAPSED_SECONDS :: u64 where "GUARDRAIL_MAX_ELAPSED_SECONDS = 7 * 24 * 60 * 60"

datatype run_kind = Workflow | Relay

record guard_limits =
  max_active_runs :: u16
  max_role_panes :: u16
  gl_max_iterations :: u32
  max_elapsed_seconds :: u64

definition guard_limits_default :: guard_limits where
  "guard_limits_default = \<lparr>max_active_runs = 8, max_role_panes = 16, gl_max_iterations = 3,
     max_elapsed_seconds = 2 * 60 * 60\<rparr>"

datatype guarded_command =
    PaneCreate | CheckpointCreate | CheckpointRollback | BulkWaitingAction | AgentsStopAll
  | ProjectRemove | WorkspaceStop

datatype guard_reason =
    ActiveRunsOutOfRange | RolePanesOutOfRange | IterationsOutOfRange | ElapsedOutOfRange
  | NoProjectOrRole | ProjectNotAllowed project_id | ActiveRunCap u16 | RolePaneCap u16
  | ElapsedCap u64 | NeedsConfirmation guarded_command

datatype guard_decision = Allow | Ask guard_reason | Deny guard_reason

record guard_policy =
  limits :: guard_limits
  projects_restricted :: bool
  allowed_projects :: "project_id list"

record launch_facts =
  lf_project :: project_id
  lf_kind :: run_kind
  requested_roles :: u16
  active_runs :: u16
  reserved_role_panes :: u16

definition limits_validate :: "guard_limits \<Rightarrow> guard_reason + guard_limits" where
  "limits_validate l =
     (if \<not> (1 \<le> max_active_runs l \<and> max_active_runs l \<le> GUARDRAIL_MAX_ACTIVE_RUNS)
      then Inl ActiveRunsOutOfRange
      else if \<not> (1 \<le> max_role_panes l \<and> max_role_panes l \<le> GUARDRAIL_MAX_ROLE_PANES)
      then Inl RolePanesOutOfRange
      else if \<not> (1 \<le> gl_max_iterations l \<and> gl_max_iterations l \<le> GUARDRAIL_MAX_ITERATIONS)
      then Inl IterationsOutOfRange
      else if \<not> (1 \<le> max_elapsed_seconds l \<and> max_elapsed_seconds l \<le> GUARDRAIL_MAX_ELAPSED_SECONDS)
      then Inl ElapsedOutOfRange
      else Inr l)"

definition evaluate_launch :: "guard_policy \<Rightarrow> launch_facts \<Rightarrow> guard_decision" where
  "evaluate_launch policy facts =
     (case limits_validate (limits policy) of
        Inl reason \<Rightarrow> Deny reason
      | Inr _ \<Rightarrow>
          (if project_raw (lf_project facts) = 0 \<or> requested_roles facts = 0 then Deny NoProjectOrRole
           else if projects_restricted policy \<and> lf_project facts \<notin> set (allowed_projects policy)
           then Deny (ProjectNotAllowed (lf_project facts))
           else if active_runs facts \<ge> max_active_runs (limits policy)
           then Deny (ActiveRunCap (max_active_runs (limits policy)))
           else if saturating_add (reserved_role_panes facts) (requested_roles facts)
                     > max_role_panes (limits policy)
           then Deny (RolePaneCap (max_role_panes (limits policy)))
           else Allow))"

definition evaluate_elapsed :: "u64 \<Rightarrow> u64 \<Rightarrow> guard_decision" where
  "evaluate_elapsed elapsed limit =
     (if elapsed < limit then Allow else Ask (ElapsedCap limit))"

definition evaluate_semantic :: "guarded_command \<Rightarrow> bool \<Rightarrow> guard_decision" where
  "evaluate_semantic command confirmed =
     (let confirmation_required = command \<in> {CheckpointRollback, BulkWaitingAction, AgentsStopAll,
            ProjectRemove, WorkspaceStop}
      in if confirmation_required \<and> \<not> confirmed then Ask (NeedsConfirmation command) else Allow)"

section \<open>Properties\<close>

lemma limits_validate_ok:
  "limits_validate l = Inr l' \<longleftrightarrow> l' = l
     \<and> 1 \<le> unat (max_active_runs l) \<and> unat (max_active_runs l) \<le> 64
     \<and> 1 \<le> unat (max_role_panes l) \<and> unat (max_role_panes l) \<le> 256
     \<and> 1 \<le> unat (gl_max_iterations l) \<and> unat (gl_max_iterations l) \<le> 100
     \<and> 1 \<le> unat (max_elapsed_seconds l) \<and> unat (max_elapsed_seconds l) \<le> 604800"
  by (auto simp: limits_validate_def word_le_nat_alt GUARDRAIL_MAX_ACTIVE_RUNS_def
      GUARDRAIL_MAX_ROLE_PANES_def GUARDRAIL_MAX_ITERATIONS_def GUARDRAIL_MAX_ELAPSED_SECONDS_def)

text \<open>
  C16 (launch admission). A launch is allowed exactly when the limits are valid, it names a
  Project the policy accepts and at least one role, the active-run cap is not reached and the
  complete role set fits the role-pane cap, with no 16-bit overflow in the sum; so admitting
  it keeps the Workspace within both caps.
\<close>

theorem launch_allowed_iff:
  "evaluate_launch policy facts = Allow \<longleftrightarrow>
     limits_validate (limits policy) = Inr (limits policy)
     \<and> project_raw (lf_project facts) \<noteq> 0 \<and> requested_roles facts \<noteq> 0
     \<and> (projects_restricted policy \<longrightarrow> lf_project facts \<in> set (allowed_projects policy))
     \<and> unat (active_runs facts) + 1 \<le> unat (max_active_runs (limits policy))
     \<and> unat (reserved_role_panes facts) + unat (requested_roles facts)
         \<le> unat (max_role_panes (limits policy))"
proof (cases "limits_validate (limits policy)")
  case (Inl r)
  then show ?thesis by (simp add: evaluate_launch_def)
next
  case (Inr l)
  have sum: "saturating_add (reserved_role_panes facts) (requested_roles facts) > max_role_panes (limits policy)
     \<longleftrightarrow> unat (max_role_panes (limits policy)) < unat (reserved_role_panes facts) + unat (requested_roles facts)"
  proof -
    have "unat (max_role_panes (limits policy)) \<le> 256"
      using Inr by (simp add: limits_validate_ok)
    then show ?thesis by (auto simp: word_less_nat_alt unat_saturating_add)
  qed
  have "l = limits policy" using Inr by (simp add: limits_validate_ok)
  with Inr sum show ?thesis
    by (auto simp: evaluate_launch_def word_le_nat_alt not_le Suc_le_eq)
qed

theorem launch_allowed_iff_witness:
  "evaluate_launch
     \<lparr>limits = guard_limits_default, projects_restricted = True, allowed_projects = [ProjectId 3]\<rparr>
     \<lparr>lf_project = ProjectId 3, lf_kind = Workflow, requested_roles = 3, active_runs = 1,
       reserved_role_panes = 13\<rparr> = Allow"
  using launch_allowed_iff [of
     "\<lparr>limits = guard_limits_default, projects_restricted = True, allowed_projects = [ProjectId 3]\<rparr>"
     "\<lparr>lf_project = ProjectId 3, lf_kind = Workflow, requested_roles = 3, active_runs = 1,
       reserved_role_panes = 13\<rparr>"]
  by (simp add: limits_validate_ok guard_limits_default_def)

text \<open>Only the destructive or bulk commands ask, and only until they are confirmed.\<close>

lemma semantic_asks_iff:
  "evaluate_semantic c confirmed \<noteq> Allow \<longleftrightarrow>
     \<not> confirmed \<and> c \<noteq> PaneCreate \<and> c \<noteq> CheckpointCreate"
  by (cases c) (auto simp: evaluate_semantic_def)

end
