(* ===== verification/Waiting.thy ===== *)
theory Waiting
  imports Interfaces Agent
begin

text \<open>
  The Workspace waiting queue of \<^verbatim>\<open>crates/uniterm-core/src/waiting.rs\<close>, the recording of its
  changes in the event log (\<^verbatim>\<open>server/waiting.rs\<close>, \<open>record_waiting_change\<close> and
  \<open>resolve_waiting_for_pane\<close>) and the replay of those records (\<^verbatim>\<open>eventlog.rs\<close>).
\<close>

section \<open>The queue\<close>

datatype waiting_kind = WkPermission | WkQuestion | WkWorkflow | WkRelay

definition kind_from_agent_status :: "agent_status \<Rightarrow> waiting_kind option" where
  "kind_from_agent_status s =
     (case s of Permission \<Rightarrow> Some WkPermission | Question \<Rightarrow> Some WkQuestion | _ \<Rightarrow> None)"

record waiting_item =
  wi_id :: u64
  wi_pane :: pane_id
  wi_invocation :: "i32 option"
  wi_kind :: waiting_kind
  wi_summary :: str

datatype waiting_resolution =
  Answered | Dismissed | WrStopped | AgentAdvanced | WrPaneClosed | Resumed

datatype waiting_change =
    NoChange
  | Created waiting_item
  | Updated u64 str
  | WcReplaced u64 waiting_item
  | Resolved u64 waiting_resolution

record waiting_queue_t =
  wq_items :: "waiting_item list"
  wq_next_id :: u64

definition wq_new :: waiting_queue_t where
  "wq_new = \<lparr>wq_items = [], wq_next_id = 1\<rparr>"

definition bounded_summary :: "str \<Rightarrow> str" where
  "bounded_summary t = take 2048 t"

definition wq_create :: "pane_id \<Rightarrow> i32 option \<Rightarrow> waiting_kind \<Rightarrow> str \<Rightarrow> waiting_queue_t
    \<Rightarrow> waiting_item \<times> waiting_queue_t" where
  "wq_create pane invo kind summary q =
     (\<lparr>wi_id = wq_next_id q, wi_pane = pane, wi_invocation = invo, wi_kind = kind,
       wi_summary = bounded_summary summary\<rparr>,
      q\<lparr>wq_next_id := saturating_add (wq_next_id q) 1\<rparr>)"

definition wq_observe_agent :: "pane_id \<Rightarrow> i32 option \<Rightarrow> agent_status \<Rightarrow> str \<Rightarrow> waiting_queue_t
    \<Rightarrow> waiting_change \<times> waiting_queue_t" where
  "wq_observe_agent pane invo status summary q =
     (case (position (\<lambda>i. wi_pane i = pane) (wq_items q), kind_from_agent_status status) of
        (Some index, Some kind) \<Rightarrow>
          (let it = wq_items q ! index
           in if wi_invocation it = invo \<and> wi_kind it = kind then
                (let s = bounded_summary summary
                 in if wi_summary it = s then (NoChange, q)
                    else (Updated (wi_id it) s,
                          q\<lparr>wq_items := (wq_items q)[index := it\<lparr>wi_summary := s\<rparr>]\<rparr>))
              else
                (let q1 = q\<lparr>wq_items := remove_at index (wq_items q)\<rparr>;
                     (new, q2) = wq_create pane invo kind summary q1
                 in (WcReplaced (wi_id it) new, q2\<lparr>wq_items := wq_items q2 @ [new]\<rparr>)))
      | (None, Some kind) \<Rightarrow>
          (let (new, q2) = wq_create pane invo kind summary q
           in (Created new, q2\<lparr>wq_items := wq_items q2 @ [new]\<rparr>))
      | (Some index, None) \<Rightarrow>
          (Resolved (wi_id (wq_items q ! index)) AgentAdvanced,
           q\<lparr>wq_items := remove_at index (wq_items q)\<rparr>)
      | (None, None) \<Rightarrow> (NoChange, q))"

definition wq_request :: "pane_id \<Rightarrow> i32 option \<Rightarrow> waiting_kind \<Rightarrow> str \<Rightarrow> waiting_queue_t
    \<Rightarrow> waiting_change \<times> waiting_queue_t" where
  "wq_request pane invo kind summary q =
     (let existing = position (\<lambda>i. wi_pane i = pane) (wq_items q);
          (new, q1) = wq_create pane invo kind summary q
      in case existing of
           Some index \<Rightarrow>
             (WcReplaced (wi_id (wq_items q1 ! index)) new,
              q1\<lparr>wq_items := remove_at index (wq_items q1) @ [new]\<rparr>)
         | None \<Rightarrow> (Created new, q1\<lparr>wq_items := wq_items q1 @ [new]\<rparr>))"

definition wq_insert :: "waiting_item \<Rightarrow> waiting_queue_t \<Rightarrow> waiting_queue_t" where
  "wq_insert i q =
     q\<lparr>wq_next_id := max (wq_next_id q) (saturating_add (wi_id i) 1),
       wq_items := filter (\<lambda>c. wi_id c \<noteq> wi_id i \<and> wi_pane c \<noteq> wi_pane i) (wq_items q) @ [i]\<rparr>"

definition wq_update_summary :: "u64 \<Rightarrow> str \<Rightarrow> waiting_queue_t \<Rightarrow> bool \<times> waiting_queue_t" where
  "wq_update_summary k summary q =
     (list_ex (\<lambda>i. wi_id i = k) (wq_items q),
      q\<lparr>wq_items := update_first (\<lambda>i. wi_id i = k) (\<lambda>i. i\<lparr>wi_summary := bounded_summary summary\<rparr>)
          (wq_items q)\<rparr>)"

definition wq_take :: "(waiting_item \<Rightarrow> bool) \<Rightarrow> waiting_queue_t \<Rightarrow> waiting_item option \<times> waiting_queue_t" where
  "wq_take P q =
     (case position P (wq_items q) of
        None \<Rightarrow> (None, q)
      | Some index \<Rightarrow> (Some (wq_items q ! index), q\<lparr>wq_items := remove_at index (wq_items q)\<rparr>))"

definition wq_resolve :: "u64 \<Rightarrow> waiting_queue_t \<Rightarrow> waiting_item option \<times> waiting_queue_t" where
  "wq_resolve k q = wq_take (\<lambda>i. wi_id i = k) q"

definition wq_resolve_pane :: "pane_id \<Rightarrow> waiting_queue_t \<Rightarrow> waiting_item option \<times> waiting_queue_t" where
  "wq_resolve_pane pane q = wq_take (\<lambda>i. wi_pane i = pane) q"

definition wq_resolve_pane_kind ::
    "pane_id \<Rightarrow> waiting_kind \<Rightarrow> waiting_queue_t \<Rightarrow> waiting_item option \<times> waiting_queue_t" where
  "wq_resolve_pane_kind pane kind q = wq_take (\<lambda>i. wi_pane i = pane \<and> wi_kind i = kind) q"

definition wq_get :: "u64 \<Rightarrow> waiting_queue_t \<Rightarrow> waiting_item option" where
  "wq_get k q = find (\<lambda>i. wi_id i = k) (wq_items q)"

section \<open>Recording and replay\<close>

datatype waiting_event =
    WaitingCreated waiting_item
  | WaitingResolved u64 waiting_resolution
  | WaitingUpdated u64 str

fun record_waiting_change :: "waiting_change \<Rightarrow> waiting_event list" where
  "record_waiting_change NoChange = []"
| "record_waiting_change (Updated k summary) = [WaitingUpdated k summary]"
| "record_waiting_change (Created i) = [WaitingCreated i]"
| "record_waiting_change (WcReplaced resolved created) =
     [WaitingResolved resolved AgentAdvanced, WaitingCreated created]"
| "record_waiting_change (Resolved k r) = [WaitingResolved k r]"

definition resolve_waiting_for_pane :: "pane_id \<Rightarrow> waiting_resolution \<Rightarrow> waiting_queue_t
    \<Rightarrow> waiting_event list \<times> waiting_queue_t" where
  "resolve_waiting_for_pane pane r q =
     (case wq_resolve_pane pane q of
        (Some i, q') \<Rightarrow> ([WaitingResolved (wi_id i) r], q')
      | (None, q') \<Rightarrow> ([], q'))"

fun replay_waiting_event :: "waiting_event \<Rightarrow> waiting_queue_t \<Rightarrow> waiting_queue_t" where
  "replay_waiting_event (WaitingCreated i) q = wq_insert i q"
| "replay_waiting_event (WaitingResolved k _) q = snd (wq_resolve k q)"
| "replay_waiting_event (WaitingUpdated k summary) q = snd (wq_update_summary k summary q)"

section \<open>One item per pane\<close>

definition wq_wf :: "waiting_queue_t \<Rightarrow> bool" where
  "wq_wf q \<longleftrightarrow> distinct (map wi_id (wq_items q)) \<and> distinct (map wi_pane (wq_items q))
     \<and> (\<forall>i\<in>set (wq_items q). wi_id i < wq_next_id q \<and> length (wi_summary i) \<le> 2048)"

lemma bounded_summary_idem [simp]: "bounded_summary (bounded_summary t) = bounded_summary t"
  by (simp add: bounded_summary_def)

lemma bounded_summary_length: "length (bounded_summary t) \<le> 2048"
  by (simp add: bounded_summary_def)

lemma wq_take_items:
  assumes "distinct (map f (wq_items q))" and "\<And>i j. P i \<Longrightarrow> f j = f i \<Longrightarrow> P j"
    and "\<And>i j. P i \<Longrightarrow> P j \<Longrightarrow> f i = f j"
  shows "wq_items (snd (wq_take P q)) = filter (\<lambda>i. \<not> P i) (wq_items q)"
proof (cases "position P (wq_items q)")
  case None
  moreover from None have "filter (\<lambda>i. \<not> P i) (wq_items q) = wq_items q"
    by (simp add: filter_id_conv position_None_iff)
  ultimately show ?thesis by (simp add: wq_take_def)
next
  case (Some n)
  then have n: "n < length (wq_items q)" "P (wq_items q ! n)"
    using position_SomeD [OF Some] by auto
  have "f i \<noteq> f (wq_items q ! n) \<longleftrightarrow> \<not> P i" for i
    using assms(2,3) n(2) by blast
  with remove_at_filter [OF n(1) assms(1)] Some show ?thesis
    by (simp add: wq_take_def)
qed

lemma wq_resolve_items:
  "distinct (map wi_id (wq_items q)) \<Longrightarrow>
     wq_items (snd (wq_resolve k q)) = filter (\<lambda>i. wi_id i \<noteq> k) (wq_items q)"
  unfolding wq_resolve_def by (rule wq_take_items [where f = wi_id]) auto

lemma wq_resolve_pane_items:
  "distinct (map wi_pane (wq_items q)) \<Longrightarrow>
     wq_items (snd (wq_resolve_pane p q)) = filter (\<lambda>i. wi_pane i \<noteq> p) (wq_items q)"
  unfolding wq_resolve_pane_def by (rule wq_take_items [where f = wi_pane]) auto

lemma wq_take_next [simp]: "wq_next_id (snd (wq_take P q)) = wq_next_id q"
  by (simp add: wq_take_def split: option.split)

interpretation wq: id_projection "\<lambda>q. map wi_id (wq_items q)" wq_next_id wq_insert wi_id
  "\<lambda>k q. snd (wq_resolve k q)"
proof
  fix i s k
  show "set (map wi_id (wq_items (wq_insert i s))) \<subseteq> insert (wi_id i) (set (map wi_id (wq_items s)))"
    and "wi_id i \<in> set (map wi_id (wq_items (wq_insert i s)))"
    by (auto simp: wq_insert_def)
  show "distinct (map wi_id (wq_items s)) \<Longrightarrow> distinct (map wi_id (wq_items (wq_insert i s)))"
    by (auto simp: wq_insert_def intro: distinct_map_filter_key)
  show "wi_id i \<noteq> - 1 \<Longrightarrow> wq_next_id (wq_insert i s) = max (wq_next_id s) (wi_id i + 1)"
    by (simp add: wq_insert_def saturating_add_one)
  assume d: "distinct (map wi_id (wq_items s))"
  show "set (map wi_id (wq_items (snd (wq_resolve k s)))) = set (map wi_id (wq_items s)) - {k}"
    and "distinct (map wi_id (wq_items (snd (wq_resolve k s))))"
    using d by (auto simp: wq_resolve_items intro: distinct_map_filter_key)
qed (simp add: wq_resolve_def)

lemma wq_wf_filter: "wq_wf q \<Longrightarrow> wq_wf (q\<lparr>wq_items := filter P (wq_items q)\<rparr>)"
  by (auto simp: wq_wf_def intro: distinct_map_filter_key)

lemma wq_wf_push:
  assumes "wq_wf q" and "wq_next_id q \<noteq> - 1" and "\<forall>i\<in>set (wq_items q). wi_pane i \<noteq> pane"
  shows "wq_wf (q\<lparr>wq_next_id := saturating_add (wq_next_id q) 1,
     wq_items := wq_items q @ [fst (wq_create pane invo kind t q)]\<rparr>)"
proof -
  have lt: "wq_next_id q < wq_next_id q + 1" using assms(2) by (rule word_less_succ)
  then have "\<forall>i\<in>set (wq_items q). wi_id i < wq_next_id q + 1"
    using assms(1) by (auto simp: wq_wf_def)
  with assms lt show ?thesis
    by (auto simp: wq_wf_def wq_create_def saturating_add_one bounded_summary_length)
qed

section \<open>The server's side\<close>

text \<open>
  The calls the server makes on the queue, each with the events it appends: the
  semantic status observation of \<open>sync_waiting_agent\<close>, an explicit human gate, and the
  removal of a pane's item.
\<close>

datatype waiting_cmd =
    ObserveAgent pane_id "i32 option" agent_status str
  | RequestGate pane_id "i32 option" waiting_kind str
  | ResolvePane pane_id waiting_resolution

fun waiting_serve :: "waiting_cmd \<Rightarrow> waiting_queue_t \<Rightarrow> waiting_event list \<times> waiting_queue_t" where
  "waiting_serve (ObserveAgent pane invo status summary) q =
     (let (c, q') = wq_observe_agent pane invo status summary q in (record_waiting_change c, q'))"
| "waiting_serve (RequestGate pane invo kind summary) q =
     (let (c, q') = wq_request pane invo kind summary q in (record_waiting_change c, q'))"
| "waiting_serve (ResolvePane pane r) q = resolve_waiting_for_pane pane r q"

fun waiting_cmd_pane :: "waiting_cmd \<Rightarrow> pane_id" where
  "waiting_cmd_pane (ObserveAgent p _ _ _) = p"
| "waiting_cmd_pane (RequestGate p _ _ _) = p"
| "waiting_cmd_pane (ResolvePane p _) = p"

fun waiting_serve_all :: "waiting_cmd list \<Rightarrow> waiting_queue_t \<Rightarrow> waiting_event list \<times> waiting_queue_t" where
  "waiting_serve_all [] q = ([], q)"
| "waiting_serve_all (c # cs) q =
     (let (es, q1) = waiting_serve c q; (fs, q2) = waiting_serve_all cs q1 in (es @ fs, q2))"

lemma bounded_summary_id: "length t \<le> 2048 \<Longrightarrow> bounded_summary t = t"
  by (simp add: bounded_summary_def)

lemma update_first_at:
  "position P xs = Some n \<Longrightarrow> update_first P f xs = xs[n := f (xs ! n)]"
  by (induction xs arbitrary: n) (auto split: if_splits)

lemma position_unique_key:
  "n < length xs \<Longrightarrow> distinct (map f xs) \<Longrightarrow> position (\<lambda>x. f x = f (xs ! n)) xs = Some n"
proof (induction xs arbitrary: n)
  case (Cons x xs)
  show ?case
  proof (cases n)
    case (Suc k)
    with Cons.prems have "f x \<noteq> f (xs ! k)" by force
    with Suc Cons show ?thesis by simp
  qed simp
qed simp

lemma remove_at_other_panes:
  assumes "wq_wf q" and "position (\<lambda>i. wi_pane i = p) (wq_items q) = Some n"
  shows "remove_at n (wq_items q) = filter (\<lambda>i. wi_pane i \<noteq> p) (wq_items q)"
    and "remove_at n (wq_items q) = filter (\<lambda>i. wi_id i \<noteq> wi_id (wq_items q ! n)) (wq_items q)"
  using assms position_SomeD [OF assms(2)] remove_at_filter [of n "wq_items q" wi_pane]
    remove_at_filter [of n "wq_items q" wi_id]
  by (auto simp: wq_wf_def)

text \<open>
  The three effects a server call can have on a well-formed queue: drop the pane's item,
  rewrite its summary in place, or append a fresh item for it. The replayed events have
  the same effect.
\<close>

lemma waiting_serve_cases:
  assumes "wq_wf q"
  obtains
    (same) "waiting_serve c q = ([], q)"
  | (drop) n r where
      "position (\<lambda>i. wi_pane i = waiting_cmd_pane c) (wq_items q) = Some n"
      "waiting_serve c q = ([WaitingResolved (wi_id (wq_items q ! n)) r],
         q\<lparr>wq_items := filter (\<lambda>i. wi_pane i \<noteq> waiting_cmd_pane c) (wq_items q)\<rparr>)"
  | (summary) n t where
      "position (\<lambda>i. wi_pane i = waiting_cmd_pane c) (wq_items q) = Some n" "length t \<le> 2048"
      "waiting_serve c q = ([WaitingUpdated (wi_id (wq_items q ! n)) t],
         q\<lparr>wq_items := (wq_items q)[n := (wq_items q ! n)\<lparr>wi_summary := t\<rparr>]\<rparr>)"
  | (fresh) new where "position (\<lambda>i. wi_pane i = waiting_cmd_pane c) (wq_items q) = None"
      "new = fst (wq_create (waiting_cmd_pane c) (wi_invocation new) (wi_kind new) (wi_summary new) q)"
      "waiting_serve c q = ([WaitingCreated new],
         q\<lparr>wq_next_id := saturating_add (wq_next_id q) 1, wq_items := wq_items q @ [new]\<rparr>)"
  | (swap) n new where
      "position (\<lambda>i. wi_pane i = waiting_cmd_pane c) (wq_items q) = Some n"
      "new = fst (wq_create (waiting_cmd_pane c) (wi_invocation new) (wi_kind new) (wi_summary new) q)"
      "waiting_serve c q =
         ([WaitingResolved (wi_id (wq_items q ! n)) AgentAdvanced, WaitingCreated new],
          q\<lparr>wq_next_id := saturating_add (wq_next_id q) 1,
            wq_items := filter (\<lambda>i. wi_pane i \<noteq> waiting_cmd_pane c) (wq_items q) @ [new]\<rparr>)"
proof (cases c)
  case (ObserveAgent p invo st t)
  show ?thesis
  proof (cases "position (\<lambda>i. wi_pane i = p) (wq_items q)")
    case None
    show ?thesis
    proof (cases "kind_from_agent_status st")
      case None
      with ObserveAgent \<open>position _ _ = None\<close> show ?thesis
        by (intro same) (simp add: wq_observe_agent_def)
    next
      case (Some k)
      with ObserveAgent \<open>position _ _ = None\<close> show ?thesis
        by (intro fresh [of "fst (wq_create p invo k t q)"])
          (auto simp: wq_observe_agent_def wq_create_def)
    qed
  next
    case (Some n)
    note rm = remove_at_other_panes [OF assms Some]
    let ?it = "wq_items q ! n"
    consider (advance) "kind_from_agent_status st = None"
      | (keep) k where "kind_from_agent_status st = Some k" "wi_invocation ?it = invo" "wi_kind ?it = k"
      | (new) k where "kind_from_agent_status st = Some k" "\<not> (wi_invocation ?it = invo \<and> wi_kind ?it = k)"
      by (cases "kind_from_agent_status st") auto
    then show ?thesis
    proof cases
      case advance
      with ObserveAgent Some rm(1) show ?thesis
        by (intro drop [of n AgentAdvanced]) (auto simp: wq_observe_agent_def)
    next
      case keep
      show ?thesis
      proof (cases "wi_summary ?it = bounded_summary t")
        case True
        with ObserveAgent Some keep show ?thesis by (intro same) (simp add: wq_observe_agent_def Let_def)
      next
        case False
        with ObserveAgent Some keep show ?thesis
          by (intro summary [of n "bounded_summary t"])
            (simp_all add: wq_observe_agent_def Let_def bounded_summary_length)
      qed
    next
      case (new k)
      with ObserveAgent Some rm(1) show ?thesis
        by (intro swap [of n "fst (wq_create p invo k t q)"])
          (auto simp: wq_observe_agent_def wq_create_def Let_def)
    qed
  qed
next
  case (RequestGate p invo k t)
  show ?thesis
  proof (cases "position (\<lambda>i. wi_pane i = p) (wq_items q)")
    case None
    with RequestGate show ?thesis
      by (intro fresh [of "fst (wq_create p invo k t q)"]) (auto simp: wq_request_def wq_create_def)
  next
    case (Some n)
    with RequestGate remove_at_other_panes [OF assms Some] show ?thesis
      by (intro swap [of n "fst (wq_create p invo k t q)"]) (auto simp: wq_request_def wq_create_def)
  qed
next
  case (ResolvePane p r)
  show ?thesis
  proof (cases "position (\<lambda>i. wi_pane i = p) (wq_items q)")
    case None
    with ResolvePane show ?thesis
      by (intro same) (simp add: resolve_waiting_for_pane_def wq_resolve_pane_def wq_take_def)
  next
    case (Some n)
    with ResolvePane remove_at_other_panes [OF assms Some] show ?thesis
      by (intro drop [of n r])
        (auto simp: resolve_waiting_for_pane_def wq_resolve_pane_def wq_take_def)
  qed
qed

lemma wq_wf_set_summary:
  assumes "wq_wf q" and "n < length (wq_items q)" and "length t \<le> 2048"
  shows "wq_wf (q\<lparr>wq_items := (wq_items q)[n := (wq_items q ! n)\<lparr>wi_summary := t\<rparr>]\<rparr>)"
proof -
  have m: "map g ((wq_items q)[n := (wq_items q ! n)\<lparr>wi_summary := t\<rparr>]) = map g (wq_items q)"
    if "g ((wq_items q ! n)\<lparr>wi_summary := t\<rparr>) = g (wq_items q ! n)" for g :: "waiting_item \<Rightarrow> 'a"
    using that assms(2) by (simp add: map_update list_update_same_conv)
  have "\<forall>i\<in>set ((wq_items q)[n := (wq_items q ! n)\<lparr>wi_summary := t\<rparr>]).
          wi_id i < wq_next_id q \<and> length (wi_summary i) \<le> 2048"
    using assms nth_mem [OF assms(2)]
    by (auto simp: wq_wf_def dest!: set_update_subset_insert [THEN subsetD])
  with assms(1) show ?thesis by (simp add: wq_wf_def m)
qed

lemma waiting_serve_keeps_wf:
  assumes "wq_wf q" and "wq_next_id q \<noteq> - 1"
  shows "wq_wf (snd (waiting_serve c q))"
  using assms(1)
proof (cases rule: waiting_serve_cases [where c = c, consumes 1])
  case same
  with assms show ?thesis by simp
next
  case (drop n r)
  with assms wq_wf_filter show ?thesis by simp
next
  case (summary n t)
  with assms(1) wq_wf_set_summary [of q n t] position_SomeD [OF summary(1)] show ?thesis by simp
next
  case (fresh new)
  then have "\<forall>i\<in>set (wq_items q). wi_pane i \<noteq> waiting_cmd_pane c"
    by (simp add: position_None_iff)
  from wq_wf_push [OF assms this] fresh(2,3) show ?thesis by (metis snd_conv)
next
  case (swap n new)
  let ?q = "q\<lparr>wq_items := filter (\<lambda>i. wi_pane i \<noteq> waiting_cmd_pane c) (wq_items q)\<rparr>"
  have new: "new = fst (wq_create (waiting_cmd_pane c) (wi_invocation new) (wi_kind new) (wi_summary new) ?q)"
    using swap(2) by (simp add: wq_create_def)
  have "wq_wf ?q" by (rule wq_wf_filter [OF assms(1)])
  then have "wq_wf (?q\<lparr>wq_next_id := saturating_add (wq_next_id ?q) 1, wq_items := wq_items ?q @ [new]\<rparr>)"
    by (subst new) (rule wq_wf_push, auto simp: assms(2))
  with swap(3) show ?thesis by simp
qed

lemma wq_insert_fresh:
  assumes "\<forall>i\<in>set (wq_items q). wi_id i \<noteq> wi_id new \<and> wi_pane i \<noteq> wi_pane new"
    and "wi_id new = wq_next_id q"
  shows "wq_insert new q = q\<lparr>wq_next_id := saturating_add (wq_next_id q) 1, wq_items := wq_items q @ [new]\<rparr>"
proof -
  have "wq_next_id q \<le> saturating_add (wq_next_id q) 1"
    using word_less_succ [of "wq_next_id q"] by (auto simp: saturating_add_one)
  with assms show ?thesis
    by (simp add: wq_insert_def filter_id_conv max_absorb2)
qed

lemma wq_create_fields:
  "new = fst (wq_create p invo k t q) \<Longrightarrow> wi_id new = wq_next_id q \<and> wi_pane new = p"
  by (simp add: wq_create_def)

lemma waiting_serve_replays:
  assumes "wq_wf q"
  shows "fold replay_waiting_event (fst (waiting_serve c q)) q = snd (waiting_serve c q)"
  using assms
proof (cases rule: waiting_serve_cases [where c = c, consumes 1])
  case (drop n r)
  have "wq_items (snd (wq_resolve (wi_id (wq_items q ! n)) q))
      = filter (\<lambda>i. wi_pane i \<noteq> waiting_cmd_pane c) (wq_items q)"
    using remove_at_other_panes [OF assms drop(1)] assms by (simp add: wq_resolve_items wq_wf_def)
  with drop show ?thesis by (simp add: wq_resolve_def)
next
  case (summary n t)
  have "position (\<lambda>i. wi_id i = wi_id (wq_items q ! n)) (wq_items q) = Some n"
    using assms position_SomeD [OF summary(1)] by (simp add: wq_wf_def position_unique_key)
  with summary show ?thesis
    by (simp add: wq_update_summary_def update_first_at bounded_summary_id)
next
  case (fresh new)
  have "\<forall>i\<in>set (wq_items q). wi_id i \<noteq> wi_id new \<and> wi_pane i \<noteq> wi_pane new"
    using assms fresh(1) wq_create_fields [OF fresh(2)] by (auto simp: wq_wf_def position_None_iff)
  with fresh wq_create_fields [OF fresh(2)] show ?thesis by (simp add: wq_insert_fresh)
next
  case (swap n new)
  let ?q = "q\<lparr>wq_items := filter (\<lambda>i. wi_pane i \<noteq> waiting_cmd_pane c) (wq_items q)\<rparr>"
  have "wq_items (snd (wq_resolve (wi_id (wq_items q ! n)) q)) = wq_items ?q"
    using remove_at_other_panes [OF assms swap(1)] assms by (simp add: wq_resolve_items wq_wf_def)
  then have r: "snd (wq_resolve (wi_id (wq_items q ! n)) q) = ?q"
    by (simp add: wq_resolve_def)
  have "\<forall>i\<in>set (wq_items ?q). wi_id i \<noteq> wi_id new \<and> wi_pane i \<noteq> wi_pane new"
    using assms wq_create_fields [OF swap(2)] by (auto simp: wq_wf_def)
  with swap wq_create_fields [OF swap(2)] r show ?thesis by (simp add: wq_insert_fresh)
qed simp

lemma waiting_serve_next:
  assumes "wq_wf q"
  shows "unat (wq_next_id (snd (waiting_serve c q))) \<le> Suc (unat (wq_next_id q))"
  using assms
  by (cases rule: waiting_serve_cases [where c = c, consumes 1]) (auto simp: unat_saturating_add)

lemma waiting_trace:
  assumes "wq_wf q" and "unat (wq_next_id q) + length cs < 2 ^ 64"
  shows "wq_wf (snd (waiting_serve_all cs q))
     \<and> fold replay_waiting_event (fst (waiting_serve_all cs q)) q = snd (waiting_serve_all cs q)"
  using assms
proof (induction cs arbitrary: q)
  case (Cons c cs)
  let ?q = "snd (waiting_serve c q)"
  have "wq_next_id q \<noteq> - 1"
    using Cons.prems(2) by (auto simp: unsigned_minus_1_eq_mask mask_eq_exp_minus_1)
  then have "wq_wf ?q" using Cons.prems(1) waiting_serve_keeps_wf by blast
  moreover have "unat (wq_next_id ?q) + length cs < 2 ^ 64"
    using waiting_serve_next [OF Cons.prems(1), of c] Cons.prems(2) by simp
  ultimately show ?case
    using Cons.IH [of ?q] waiting_serve_replays [OF Cons.prems(1), of c] by (simp add: case_prod_beta)
qed simp

lemma wq_new_wf: "wq_wf wq_new"
  by (simp add: wq_wf_def wq_new_def)

text \<open>
  One item per pane. Whatever status observations, explicit gates and resolutions the
  server processes, the waiting queue never holds two items of one pane or of one id, every
  id was handed out by the allocator and every summary is at most 2048 characters (short of
  the 2^64 calls that would exhaust the ids).
\<close>

theorem waiting_one_item_per_pane:
  assumes "length cs < 2 ^ 64 - 1"
  shows "wq_wf (snd (waiting_serve_all cs wq_new))"
  using waiting_trace [OF wq_new_wf, of cs] assms by (simp add: wq_new_def)

text \<open>Witness of C14: a permission, a later question of the same pane, and a workflow gate.\<close>

theorem waiting_one_item_per_pane_witness:
  "wq_wf (snd (waiting_serve_all
     [ObserveAgent (PaneId 1) (Some 7) Permission (lit ''run?''),
      RequestGate (PaneId 2) None WkWorkflow (lit ''review''),
      ObserveAgent (PaneId 1) (Some 7) Question (lit ''which?'')] wq_new))"
  by (rule waiting_one_item_per_pane) simp

lemma wq_resolve_twice:
  assumes "distinct (map wi_id (wq_items q))"
  shows "snd (wq_resolve k (snd (wq_resolve k q))) = snd (wq_resolve k q)"
proof -
  have "distinct (map wi_id (wq_items (snd (wq_resolve k q))))" using assms by (rule wq.del_distinct)
  with assms have "wq_items (snd (wq_resolve k (snd (wq_resolve k q)))) = wq_items (snd (wq_resolve k q))"
    by (simp add: wq_resolve_items filter_filter)
  then show ?thesis by (simp add: wq_resolve_def)
qed

lemma update_first_twice:
  "(\<And>x. P x \<Longrightarrow> P (f x) \<and> f (f x) = f x) \<Longrightarrow>
     update_first P f (update_first P f xs) = update_first P f xs"
  by (induction xs) auto

interpretation wlog: suppressible replay_waiting_event "\<lambda>q. distinct (map wi_id (wq_items q))"
proof
  fix e and s :: waiting_queue_t
  assume d: "distinct (map wi_id (wq_items s))"
  show "distinct (map wi_id (wq_items (replay_waiting_event e s)))"
    using d wq.ins_distinct wq.del_distinct
    by (cases e) (auto simp: wq_update_summary_def map_update_first_key)
  show "replay_waiting_event e (replay_waiting_event e s) = replay_waiting_event e s"
    using d wq_resolve_twice [OF d]
    by (cases e) (auto simp: wq_insert_def wq_update_summary_def update_first_twice)
qed

text \<open>
  C9. The log is enough. Replaying the events the server recorded while it served any
  sequence of calls, of which the log drops every repetition of the last record, rebuilds
  the live waiting queue exactly: items, their order, summaries and the next id.
\<close>

theorem waiting_replay_refines_live:
  assumes "length cs < 2 ^ 64 - 1"
  shows "fold replay_waiting_event (remdups_adj (fst (waiting_serve_all cs wq_new))) wq_new
     = snd (waiting_serve_all cs wq_new)"
  using waiting_trace [OF wq_new_wf, of cs] assms wlog.fold_remdups_adj [of wq_new]
  by (simp add: wq_new_def)

text \<open>Witness of C9: the summary update and the replacement are both replayed.\<close>

theorem waiting_replay_refines_live_witness:
  "fold replay_waiting_event (remdups_adj (fst (waiting_serve_all
     [ObserveAgent (PaneId 1) (Some 7) Permission (lit ''a''),
      ObserveAgent (PaneId 1) (Some 7) Permission (lit ''b''),
      ObserveAgent (PaneId 1) (Some 9) Permission (lit ''c'')] wq_new))) wq_new
   = \<lparr>wq_items = [\<lparr>wi_id = 2, wi_pane = PaneId 1, wi_invocation = Some 9, wi_kind = WkPermission,
       wi_summary = lit ''c''\<rparr>], wq_next_id = 3\<rparr>"
proof -
  let ?cs = "[ObserveAgent (PaneId 1) (Some 7) Permission (lit ''a''),
      ObserveAgent (PaneId 1) (Some 7) Permission (lit ''b''),
      ObserveAgent (PaneId 1) (Some 9) Permission (lit ''c'')]"
  have "length ?cs < 2 ^ 64 - 1" by simp
  from waiting_replay_refines_live [OF this] show ?thesis by (simp only:) code_simp
qed

lemma filter_update_out:
  "n < length xs \<Longrightarrow> \<not> P (xs ! n) \<Longrightarrow> \<not> P x \<Longrightarrow> filter P (xs[n := x]) = filter P xs"
  by (induction xs arbitrary: n) (auto split: nat.splits)

lemma waiting_serve_other_panes:
  assumes "wq_wf q"
  shows "filter (\<lambda>i. wi_pane i \<noteq> waiting_cmd_pane c) (wq_items (snd (waiting_serve c q)))
     = filter (\<lambda>i. wi_pane i \<noteq> waiting_cmd_pane c) (wq_items q)"
  using assms
proof (cases rule: waiting_serve_cases [where c = c, consumes 1])
  case (summary n t)
  then have "n < length (wq_items q)" "wi_pane (wq_items q ! n) = waiting_cmd_pane c"
    using position_SomeD by fastforce+
  then show ?thesis using summary by (simp add: filter_update_out)
next
  case (fresh new)
  then show ?thesis using wq_create_fields [OF fresh(2)] by simp
next
  case (swap n new)
  then show ?thesis using wq_create_fields [OF swap(2)] by simp
qed simp_all

text \<open>
  Isolation. A call about one pane leaves the items of every other pane alone, in the
  same order.
\<close>

theorem waiting_call_is_local:
  assumes "length cs < 2 ^ 64 - 1"
  shows "filter (\<lambda>i. wi_pane i \<noteq> waiting_cmd_pane c)
        (wq_items (snd (waiting_serve c (snd (waiting_serve_all cs wq_new)))))
     = filter (\<lambda>i. wi_pane i \<noteq> waiting_cmd_pane c) (wq_items (snd (waiting_serve_all cs wq_new)))"
  using waiting_serve_other_panes waiting_trace [OF wq_new_wf, of cs] assms by (simp add: wq_new_def)

text \<open>Witness of C16.\<close>

theorem waiting_call_is_local_witness:
  "filter (\<lambda>i. wi_pane i \<noteq> PaneId 2)
        (wq_items (snd (waiting_serve (ResolvePane (PaneId 2) Answered)
          (snd (waiting_serve_all [RequestGate (PaneId 1) None WkRelay (lit ''x'')] wq_new)))))
     = [\<lparr>wi_id = 1, wi_pane = PaneId 1, wi_invocation = None, wi_kind = WkRelay, wi_summary = lit ''x''\<rparr>]"
proof -
  have "length [RequestGate (PaneId 1) None WkRelay (lit ''x'')] < 2 ^ 64 - 1" by simp
  from waiting_call_is_local [OF this, of "ResolvePane (PaneId 2) Answered"]
  show ?thesis by (simp only: waiting_cmd_pane.simps) code_simp
qed

end
