(* ===== verification/Tasks.thy ===== *)
theory Tasks
  imports Interfaces Orchestrate "HOL-Library.Product_Lexorder"
begin

text \<open>
  The durable task list of \<^verbatim>\<open>crates/uniterm-core/src/tasks.rs\<close>, the server calls that record
  and apply its changes (\<open>create_task\<close>, \<open>set_task_details\<close>, the task messages, the end of an
  orchestration run) and the replay of the recorded events (\<^verbatim>\<open>eventlog.rs\<close>,
  \<open>replay_tasks_reader_scoped\<close>). Every record carries its log sequence, which is what orders
  tasks by recency.
\<close>

section \<open>The list\<close>

datatype task_status = Todo | Doing | Blocked | TaskDone

fun task_order :: "task_status \<Rightarrow> nat" where
  "task_order Doing = 0"
| "task_order Blocked = 1"
| "task_order Todo = 2"
| "task_order TaskDone = 3"

fun task_label :: "task_status \<Rightarrow> str" where
  "task_label Todo = lit ''todo''"
| "task_label Doing = lit ''doing''"
| "task_label Blocked = lit ''blocked''"
| "task_label TaskDone = lit ''done''"

fun task_display :: "task_status \<Rightarrow> str" where
  "task_display Todo = lit ''planned''"
| "task_display Doing = lit ''running''"
| "task_display Blocked = lit ''blocked''"
| "task_display TaskDone = lit ''finished''"

fun task_next :: "task_status \<Rightarrow> task_status" where
  "task_next Todo = Doing"
| "task_next Doing = Blocked"
| "task_next Blocked = TaskDone"
| "task_next TaskDone = Todo"

record task_context =
  tc_project :: "project_id option"
  tc_pane :: "pane_id option"
  tc_invocation :: "u64 option"
  tc_source_task :: "u64 option"
  tc_provider :: "str option"
  tc_prompt :: "str option"
  tc_model :: "str option"
  tc_profile :: "str option"
  tc_workflow :: "str option"
  tc_relay :: bool
  tc_role_providers :: "role_provider_selection list"

definition task_context_default :: task_context where
  "task_context_default =
     \<lparr>tc_project = None, tc_pane = None, tc_invocation = None, tc_source_task = None,
      tc_provider = None, tc_prompt = None, tc_model = None, tc_profile = None,
      tc_workflow = None, tc_relay = False, tc_role_providers = []\<rparr>"

record task =
  tk_id :: u64
  tk_title :: str
  tk_status :: task_status
  tk_notes :: str
  tk_context :: task_context
  tk_updated :: u64

record task_list =
  tl_tasks :: "task list"
  tl_next_id :: u64

definition tl_new :: task_list where
  "tl_new = \<lparr>tl_tasks = [], tl_next_id = 1\<rparr>"

definition task_fresh :: "u64 \<Rightarrow> str \<Rightarrow> task_status \<Rightarrow> task" where
  "task_fresh k title status =
     \<lparr>tk_id = k, tk_title = title, tk_status = status, tk_notes = [],
      tk_context = task_context_default, tk_updated = k\<rparr>"

definition rebinds :: "pane_id \<Rightarrow> u64 \<Rightarrow> task \<Rightarrow> bool" where
  "rebinds pane previous t \<longleftrightarrow>
     tc_pane (tk_context t) = Some pane \<and> tc_invocation (tk_context t) = Some previous"

definition rebind_invocation :: "pane_id \<Rightarrow> u64 \<Rightarrow> u64 \<Rightarrow> task_list \<Rightarrow> nat \<times> task_list" where
  "rebind_invocation pane previous current l =
     (length (filter (rebinds pane previous) (tl_tasks l)),
      l\<lparr>tl_tasks := map (\<lambda>t. if rebinds pane previous t
          then t\<lparr>tk_context := (tk_context t)\<lparr>tc_invocation := Some current\<rparr>, tk_updated := current\<rparr>
          else t) (tl_tasks l)\<rparr>)"

definition tl_add :: "str \<Rightarrow> task_status \<Rightarrow> task_list \<Rightarrow> u64 \<times> task_list" where
  "tl_add title status l =
     (tl_next_id l,
      l\<lparr>tl_next_id := tl_next_id l + 1,
        tl_tasks := tl_tasks l @ [task_fresh (tl_next_id l) title status]\<rparr>)"

definition has_id :: "u64 \<Rightarrow> task \<Rightarrow> bool" where
  "has_id k t \<longleftrightarrow> tk_id t = k"

definition tl_insert :: "u64 \<Rightarrow> str \<Rightarrow> task_status \<Rightarrow> task_list \<Rightarrow> task_list" where
  "tl_insert k title status l =
     (let l1 = l\<lparr>tl_next_id := max (tl_next_id l) (k + 1)\<rparr>
      in if list_ex (has_id k) (tl_tasks l1)
         then l1\<lparr>tl_tasks := update_first (has_id k) (\<lambda>t. t\<lparr>tk_title := title, tk_status := status\<rparr>) (tl_tasks l1)\<rparr>
         else l1\<lparr>tl_tasks := tl_tasks l1 @ [task_fresh k title status]\<rparr>)"

text \<open>\<^verbatim>\<open>iter_mut().find(|t| t.id == id)\<close>, with the boolean the setters return.\<close>

definition tl_set :: "(task \<Rightarrow> task) \<Rightarrow> u64 \<Rightarrow> task_list \<Rightarrow> bool \<times> task_list" where
  "tl_set f k l =
     (list_ex (has_id k) (tl_tasks l), l\<lparr>tl_tasks := update_first (has_id k) f (tl_tasks l)\<rparr>)"

definition tl_set_status :: "u64 \<Rightarrow> task_status \<Rightarrow> task_list \<Rightarrow> bool \<times> task_list" where
  "tl_set_status k status l = tl_set (\<lambda>t. t\<lparr>tk_status := status\<rparr>) k l"

definition tl_set_title :: "u64 \<Rightarrow> str \<Rightarrow> task_list \<Rightarrow> bool \<times> task_list" where
  "tl_set_title k title l = tl_set (\<lambda>t. t\<lparr>tk_title := title\<rparr>) k l"

definition tl_set_details :: "u64 \<Rightarrow> str \<Rightarrow> task_context \<Rightarrow> task_list \<Rightarrow> bool \<times> task_list" where
  "tl_set_details k notes ctx l = tl_set (\<lambda>t. t\<lparr>tk_notes := notes, tk_context := ctx\<rparr>) k l"

definition tl_touch :: "u64 \<Rightarrow> u64 \<Rightarrow> task_list \<Rightarrow> task_list" where
  "tl_touch k sequence l = snd (tl_set (\<lambda>t. t\<lparr>tk_updated := sequence\<rparr>) k l)"

definition tl_remove :: "u64 \<Rightarrow> task_list \<Rightarrow> bool \<times> task_list" where
  "tl_remove k l =
     (let kept = filter (\<lambda>t. tk_id t \<noteq> k) (tl_tasks l)
      in (length kept \<noteq> length (tl_tasks l), l\<lparr>tl_tasks := kept\<rparr>))"

definition tl_get :: "u64 \<Rightarrow> task_list \<Rightarrow> task option" where
  "tl_get k l = find (has_id k) (tl_tasks l)"

definition task_sort_key :: "task \<Rightarrow> nat \<times> u64" where
  "task_sort_key t = (task_order (tk_status t), tk_id t)"

definition tl_ordered :: "task_list \<Rightarrow> task list" where
  "tl_ordered l = sort_key task_sort_key (tl_tasks l)"

section \<open>Recording and replay\<close>

text \<open>
  \<open>AgentResumed\<close> keeps, besides the two fields the task list reads, a number for the fields
  it does not read, because the log compares whole events when it drops a repetition.
  \<open>OtherEvent\<close> stands for any record that does not concern tasks.
\<close>

datatype task_event =
    TaskCreated u64 str task_status
  | TaskStatusChanged u64 task_status
  | TaskRetitled u64 str
  | TaskDetailsUpdated u64 str task_context
  | TaskDeleted u64
  | AgentResumed pane_id "u64 option" nat
  | OtherEvent nat

fun event_task_id :: "task_event \<Rightarrow> u64 option" where
  "event_task_id (TaskCreated k _ _) = Some k"
| "event_task_id (TaskStatusChanged k _) = Some k"
| "event_task_id (TaskRetitled k _) = Some k"
| "event_task_id (TaskDetailsUpdated k _ _) = Some k"
| "event_task_id _ = None"

definition touch_opt :: "u64 option \<Rightarrow> u64 \<Rightarrow> task_list \<Rightarrow> task_list" where
  "touch_opt k n l = (case k of None \<Rightarrow> l | Some i \<Rightarrow> tl_touch i n l)"

fun apply_task_event :: "u64 \<Rightarrow> task_event \<Rightarrow> task_list \<Rightarrow> task_list" where
  "apply_task_event n (TaskCreated k title status) l = tl_insert k title status l"
| "apply_task_event n (TaskStatusChanged k status) l = snd (tl_set_status k status l)"
| "apply_task_event n (TaskRetitled k title) l = snd (tl_set_title k title l)"
| "apply_task_event n (TaskDetailsUpdated k notes ctx) l = snd (tl_set_details k notes ctx l)"
| "apply_task_event n (TaskDeleted k) l = snd (tl_remove k l)"
| "apply_task_event n (AgentResumed pane (Some previous) _) l = snd (rebind_invocation pane previous n l)"
| "apply_task_event n (AgentResumed pane None _) l = l"
| "apply_task_event n (OtherEvent _) l = l"

definition replay_task_record :: "u64 \<times> task_event \<Rightarrow> task_list \<Rightarrow> task_list" where
  "replay_task_record r l =
     touch_opt (event_task_id (snd r)) (fst r) (apply_task_event (fst r) (snd r) l)"

definition replay_tasks :: "(u64 \<times> task_event) list \<Rightarrow> task_list \<Rightarrow> task_list" where
  "replay_tasks rs l = fold replay_task_record rs l"

record task_server =
  ts_tasks :: task_list
  ts_records :: "(u64 \<times> task_event) list"
  ts_last :: "task_event option"
  ts_next_sequence :: u64
  ts_writes_enabled :: bool

definition current_sequence :: "task_server \<Rightarrow> u64" where
  "current_sequence sv = saturating_sub (ts_next_sequence sv) 1"

definition log_record :: "task_event \<Rightarrow> task_server \<Rightarrow> bool \<times> task_server" where
  "log_record e sv =
     (if ts_last sv = Some e then (False, sv)
      else (True, sv\<lparr>ts_records := ts_records sv @ [(ts_next_sequence sv, e)], ts_last := Some e,
             ts_next_sequence := saturating_add (ts_next_sequence sv) 1\<rparr>))"

definition append_task_event :: "task_event \<Rightarrow> task_server \<Rightarrow> task_server" where
  "append_task_event e sv =
     (if \<not> ts_writes_enabled sv then sv
      else
        (let (written, sv1) = log_record e sv
         in if \<not> written then sv1
            else
              (let n = current_sequence sv1;
                   l1 = (case e of AgentResumed pane (Some previous) _ \<Rightarrow>
                           snd (rebind_invocation pane previous n (ts_tasks sv1)) | _ \<Rightarrow> ts_tasks sv1)
               in sv1\<lparr>ts_tasks := touch_opt (event_task_id e) n l1\<rparr>)))"

section \<open>Server calls\<close>

definition str_trim :: "str \<Rightarrow> str" where
  "str_trim s = rev (dropWhile is_whitespace (rev (dropWhile is_whitespace s)))"

definition create_task :: "str \<Rightarrow> task_status \<Rightarrow> task_server \<Rightarrow> u64 \<times> task_server" where
  "create_task title status sv =
     (let k = tl_next_id (ts_tasks sv);
          sv1 = append_task_event (TaskCreated k title status) sv;
          l1 = tl_insert k title status (ts_tasks sv1)
      in (k, sv1\<lparr>ts_tasks := tl_touch k (current_sequence sv1) l1\<rparr>))"

definition set_task_details :: "u64 \<Rightarrow> str \<Rightarrow> task_context \<Rightarrow> task_server \<Rightarrow> task_server" where
  "set_task_details k notes ctx sv =
     (case tl_get k (ts_tasks sv) of
        None \<Rightarrow> sv
      | Some t \<Rightarrow>
          (if tk_notes t = notes \<and> tk_context t = ctx then sv
           else
             (let sv1 = append_task_event (TaskDetailsUpdated k notes ctx) sv;
                  l1 = snd (tl_set_details k notes ctx (ts_tasks sv1))
              in sv1\<lparr>ts_tasks := tl_touch k (current_sequence sv1) l1\<rparr>)))"

definition task_set_status_msg :: "u64 \<Rightarrow> task_status \<Rightarrow> task_server \<Rightarrow> task_server" where
  "task_set_status_msg k status sv =
     (case tl_get k (ts_tasks sv) of
        None \<Rightarrow> sv
      | Some t \<Rightarrow>
          (if tk_status t \<noteq> status then
             (let sv1 = append_task_event (TaskStatusChanged k status) sv
              in sv1\<lparr>ts_tasks := snd (tl_set_status k status (ts_tasks sv1))\<rparr>)
           else sv))"

definition task_retitle_msg :: "u64 \<Rightarrow> str \<Rightarrow> task_server \<Rightarrow> task_server" where
  "task_retitle_msg k title0 sv =
     (let title = str_trim title0
      in case tl_get k (ts_tasks sv) of
           None \<Rightarrow> sv
         | Some t \<Rightarrow>
             (if title \<noteq> [] \<and> tk_title t \<noteq> title then
                (let sv1 = append_task_event (TaskRetitled k title) sv
                 in sv1\<lparr>ts_tasks := snd (tl_set_title k title (ts_tasks sv1))\<rparr>)
              else sv))"

definition task_delete_msg :: "u64 \<Rightarrow> task_server \<Rightarrow> task_server" where
  "task_delete_msg k sv =
     (if tl_get k (ts_tasks sv) \<noteq> None then
        (let sv1 = append_task_event (TaskDeleted k) sv
         in sv1\<lparr>ts_tasks := snd (tl_remove k (ts_tasks sv1))\<rparr>)
      else sv)"

text \<open>The end of a run: its own record comes first, then the status of its task.\<close>

definition finish_run_task :: "nat \<Rightarrow> u64 \<Rightarrow> task_status \<Rightarrow> task_server \<Rightarrow> task_server" where
  "finish_run_task finished k status sv =
     (let sv1 = append_task_event (OtherEvent finished) sv;
          (existed, l1) = tl_set_status k status (ts_tasks sv1);
          sv2 = sv1\<lparr>ts_tasks := l1\<rparr>
      in if existed then append_task_event (TaskStatusChanged k status) sv2 else sv2)"

section \<open>Lemmas\<close>

lemma update_first_comp:
  "(\<And>x. P x \<Longrightarrow> P (f x)) \<Longrightarrow>
     update_first P g (update_first P f xs) = update_first P (\<lambda>x. g (f x)) xs"
  by (induction xs) auto

lemma update_first_absent: "\<not> list_ex P xs \<Longrightarrow> update_first P f xs = xs"
  by (induction xs) auto

lemma tl_set_tasks [simp]: "tl_tasks (snd (tl_set f k l)) = update_first (has_id k) f (tl_tasks l)"
  and tl_set_next [simp]: "tl_next_id (snd (tl_set f k l)) = tl_next_id l"
  by (simp_all add: tl_set_def)

lemma tl_set_comp:
  "(\<And>t. tk_id (f t) = tk_id t) \<Longrightarrow> snd (tl_set g k (snd (tl_set f k l))) = snd (tl_set (\<lambda>t. g (f t)) k l)"
proof -
  assume "\<And>t. tk_id (f t) = tk_id t"
  then have "update_first (has_id k) g (update_first (has_id k) f xs) = update_first (has_id k) (\<lambda>t. g (f t)) xs" for xs
    by (intro update_first_comp) (simp add: has_id_def)
  then show ?thesis by (simp add: tl_set_def)
qed

definition tl_ids :: "task_list \<Rightarrow> u64 list" where
  "tl_ids l = map tk_id (tl_tasks l)"

lemma tl_ids_set [simp]: "(\<And>t. tk_id (f t) = tk_id t) \<Longrightarrow> tl_ids (snd (tl_set f k l)) = tl_ids l"
  by (simp add: tl_ids_def map_update_first_key)

lemma list_ex_has_id: "list_ex (has_id k) (tl_tasks l) \<longleftrightarrow> k \<in> set (tl_ids l)"
  by (auto simp: list_ex_iff has_id_def tl_ids_def)

lemma tl_ids_insert:
  "tl_ids (tl_insert k title st l) = (if k \<in> set (tl_ids l) then tl_ids l else tl_ids l @ [k])"
proof -
  have "map tk_id (update_first (has_id k) (\<lambda>t. t\<lparr>tk_title := title, tk_status := st\<rparr>) (tl_tasks l))
      = map tk_id (tl_tasks l)"
    by (rule map_update_first_key) simp
  then show ?thesis
    by (simp add: tl_insert_def Let_def list_ex_has_id tl_ids_def [symmetric])
      (simp add: tl_ids_def task_fresh_def)
qed

lemma tl_next_insert: "tl_next_id (tl_insert k title st l) = max (tl_next_id l) (k + 1)"
  by (simp add: tl_insert_def Let_def)

interpretation tl: id_projection tl_ids tl_next_id
  "\<lambda>(k, title, status). tl_insert k title status" fst "\<lambda>k l. snd (tl_remove k l)"
proof
  fix i :: "u64 \<times> str \<times> task_status" and s k
  obtain a b c where i: "i = (a, b, c)" by (cases i)
  show "set (tl_ids ((\<lambda>(k, title, status). tl_insert k title status) i s)) \<subseteq> insert (fst i) (set (tl_ids s))"
    and "fst i \<in> set (tl_ids ((\<lambda>(k, title, status). tl_insert k title status) i s))"
    by (auto simp: i tl_ids_insert)
  show "distinct (tl_ids s) \<Longrightarrow> distinct (tl_ids ((\<lambda>(k, title, status). tl_insert k title status) i s))"
    by (simp add: i tl_ids_insert)
  show "tl_next_id ((\<lambda>(k, title, status). tl_insert k title status) i s) = max (tl_next_id s) (fst i + 1)"
    by (simp add: i tl_next_insert)
  show "set (tl_ids (snd (tl_remove k s))) = set (tl_ids s) - {k}"
    by (auto simp: tl_remove_def tl_ids_def Let_def)
  show "distinct (tl_ids s) \<Longrightarrow> distinct (tl_ids (snd (tl_remove k s)))"
    by (simp add: tl_remove_def tl_ids_def Let_def distinct_map_filter_key)
  show "tl_next_id (snd (tl_remove k s)) = tl_next_id s"
    by (simp add: tl_remove_def Let_def)
qed

abbreviation tl_ok :: "task_list \<Rightarrow> bool" where
  "tl_ok \<equiv> tl.alloc_ok"

lemma tl_touch_ids [simp]: "tl_ids (tl_touch k n l) = tl_ids l" "tl_next_id (tl_touch k n l) = tl_next_id l"
  by (simp_all add: tl_touch_def)

lemma touch_opt_ids [simp]: "tl_ids (touch_opt k n l) = tl_ids l" "tl_next_id (touch_opt k n l) = tl_next_id l"
  by (simp_all add: touch_opt_def split: option.split)

lemma rebind_ids [simp]:
  "tl_ids (snd (rebind_invocation p a b l)) = tl_ids l"
  "tl_next_id (snd (rebind_invocation p a b l)) = tl_next_id l"
  by (simp_all add: rebind_invocation_def tl_ids_def)

fun mints_last_id :: "task_event \<Rightarrow> bool" where
  "mints_last_id (TaskCreated k _ _) \<longleftrightarrow> k = - 1"
| "mints_last_id _ \<longleftrightarrow> False"

lemma replay_task_record_ok:
  assumes "tl_ok l" and "\<not> mints_last_id e"
  shows "tl_ok (replay_task_record (n, e) l)"
proof -
  have "tl_ok (apply_task_event n e l)"
  proof (cases e)
    case (TaskCreated k title st)
    with assms tl.ins_alloc_ok(1) [of l "(k, title, st)"] show ?thesis by simp
  next
    case (TaskDeleted k)
    with assms(1) tl.del_alloc_ok show ?thesis by simp
  next
    case (AgentResumed p prev x)
    with assms(1) show ?thesis by (cases prev) (auto simp: tl.alloc_ok_def)
  qed (use assms(1) in \<open>auto simp: tl_set_status_def tl_set_title_def tl_set_details_def tl.alloc_ok_def\<close>)
  then show ?thesis
    by (simp add: replay_task_record_def tl.alloc_ok_def)
qed

text \<open>What the list shows once an event has been applied to it.\<close>

fun applied :: "task_list \<Rightarrow> task_event \<Rightarrow> bool" where
  "applied l (TaskCreated k _ _) \<longleftrightarrow> k < tl_next_id l"
| "applied l (TaskStatusChanged k st) \<longleftrightarrow> (\<forall>t\<in>set (tl_tasks l). tk_id t = k \<longrightarrow> tk_status t = st)"
| "applied l (TaskRetitled k title) \<longleftrightarrow> (\<forall>t\<in>set (tl_tasks l). tk_id t = k \<longrightarrow> tk_title t = title)"
| "applied l (TaskDetailsUpdated k notes ctx) \<longleftrightarrow>
     (\<forall>t\<in>set (tl_tasks l). tk_id t = k \<longrightarrow> tk_notes t = notes \<and> tk_context t = ctx)"
| "applied l (TaskDeleted k) \<longleftrightarrow> k \<notin> set (tl_ids l)"
| "applied l _ \<longleftrightarrow> True"

lemma update_first_all:
  assumes "distinct (map tk_id xs)" and "\<And>t. tk_id (f t) = tk_id t" and "\<And>t. Q (f t)"
  shows "\<forall>t\<in>set (update_first (has_id k) f xs). tk_id t = k \<longrightarrow> Q t"
  using assms(1)
proof (induction xs)
  case (Cons x xs)
  then show ?case
  proof (cases "has_id k x")
    case True
    with Cons.prems have "\<forall>t\<in>set xs. tk_id t \<noteq> k" by (auto simp: has_id_def image_iff)
    with True assms(3) show ?thesis by simp
  next
    case False
    with Cons show ?thesis by (simp add: has_id_def)
  qed
qed simp

lemma tl_set_all:
  assumes "tl_ok l" and "\<And>t. tk_id (f t) = tk_id t" and "\<And>t. Q (f t)"
  shows "\<forall>t\<in>set (tl_tasks (snd (tl_set f k l))). tk_id t = k \<longrightarrow> Q t"
  using assms update_first_all [of "tl_tasks l" f Q k] by (simp add: tl.alloc_ok_def tl_ids_def)

lemma touch_after_set:
  "(\<And>t. tk_id (f t) = tk_id t) \<Longrightarrow>
     tl_touch k n (snd (tl_set f k l)) = snd (tl_set (\<lambda>t. (f t)\<lparr>tk_updated := n\<rparr>) k l)"
  by (simp add: tl_touch_def tl_set_comp)

lemma replay_applied:
  assumes "tl_ok l" and "\<not> mints_last_id e"
  shows "applied (replay_task_record (n, e) l) e"
proof (cases e)
  case (TaskCreated k title st)
  with assms tl.ins_alloc_ok(2) [of l "(k, title, st)"] show ?thesis
    by (simp add: replay_task_record_def)
next
  case (TaskStatusChanged k st)
  then show ?thesis
    by (simp add: replay_task_record_def touch_opt_def tl_set_status_def touch_after_set del: tl_set_tasks)
      (intro tl_set_all [OF assms(1)]; simp)
next
  case (TaskRetitled k title)
  then show ?thesis
    by (simp add: replay_task_record_def touch_opt_def tl_set_title_def touch_after_set del: tl_set_tasks)
      (intro tl_set_all [OF assms(1)]; simp)
next
  case (TaskDetailsUpdated k nts ctx)
  then show ?thesis
    by (simp add: replay_task_record_def touch_opt_def tl_set_details_def touch_after_set del: tl_set_tasks)
      (intro tl_set_all [OF assms(1)]; simp)
next
  case (TaskDeleted k)
  with tl.del_ids [of l k] assms(1) show ?thesis
    by (simp add: replay_task_record_def tl.alloc_ok_def touch_opt_def)
qed simp_all

section \<open>Every call is one record\<close>

definition logged :: "task_event \<Rightarrow> task_server \<Rightarrow> task_server" where
  "logged e sv =
     sv\<lparr>ts_records := ts_records sv @ [(ts_next_sequence sv, e)], ts_last := Some e,
       ts_next_sequence := ts_next_sequence sv + 1,
       ts_tasks := replay_task_record (ts_next_sequence sv, e) (ts_tasks sv)\<rparr>"

definition task_synced :: "task_server \<Rightarrow> bool" where
  "task_synced sv \<longleftrightarrow> ts_writes_enabled sv \<and> tl_ok (ts_tasks sv)
     \<and> (\<forall>e. ts_last sv = Some e \<longrightarrow> applied (ts_tasks sv) e)
     \<and> replay_tasks (ts_records sv) tl_new = ts_tasks sv"

lemma task_synced_logged:
  "task_synced sv \<Longrightarrow> \<not> mints_last_id e \<Longrightarrow> task_synced (logged e sv)"
  by (simp add: task_synced_def logged_def replay_tasks_def replay_task_record_ok replay_applied)

lemma sub_one: "x \<noteq> - 1 \<Longrightarrow> saturating_sub (x + 1) 1 = x" for x :: u64
proof -
  assume "x \<noteq> - 1"
  then have "1 \<le> x + 1" by (metis add.commute add_eq_0_iff2 word_less_1 linorder_not_le)
  then show ?thesis by (simp add: saturating_sub_def)
qed

lemma append_task_event_live:
  assumes "ts_writes_enabled sv" and "ts_last sv \<noteq> Some e" and "ts_next_sequence sv \<noteq> - 1"
  shows "append_task_event e sv =
      (logged e sv)\<lparr>ts_tasks := touch_opt (event_task_id e) (ts_next_sequence sv)
         (case e of AgentResumed pane (Some previous) _ \<Rightarrow>
            snd (rebind_invocation pane previous (ts_next_sequence sv) (ts_tasks sv)) | _ \<Rightarrow> ts_tasks sv)\<rparr>"
    and "current_sequence (append_task_event e sv) = ts_next_sequence sv"
proof -
  have s: "saturating_add (ts_next_sequence sv) 1 = ts_next_sequence sv + 1"
    using assms(3) by (simp add: saturating_add_one)
  show "append_task_event e sv =
      (logged e sv)\<lparr>ts_tasks := touch_opt (event_task_id e) (ts_next_sequence sv)
         (case e of AgentResumed pane (Some previous) _ \<Rightarrow>
            snd (rebind_invocation pane previous (ts_next_sequence sv) (ts_tasks sv)) | _ \<Rightarrow> ts_tasks sv)\<rparr>"
    using assms s by (simp add: append_task_event_def log_record_def logged_def current_sequence_def sub_one Let_def
        split: task_event.split option.split)
  then show "current_sequence (append_task_event e sv) = ts_next_sequence sv"
    using assms(3) by (simp add: current_sequence_def logged_def sub_one)
qed

lemma tl_get_iff: "tl_get k l = None \<longleftrightarrow> k \<notin> set (tl_ids l)"
  by (auto simp: tl_get_def find_None_iff tl_ids_def has_id_def)

lemma tl_get_SomeD: "tl_get k l = Some t \<Longrightarrow> t \<in> set (tl_tasks l) \<and> tk_id t = k"
  by (auto simp: tl_get_def find_Some_iff has_id_def)

lemma touch_before_set:
  "(\<And>t. tk_id (f t) = tk_id t) \<Longrightarrow> (\<And>t. f (t\<lparr>tk_updated := n\<rparr>) = (f t)\<lparr>tk_updated := n\<rparr>) \<Longrightarrow>
     snd (tl_set f k (tl_touch k n l)) = tl_touch k n (snd (tl_set f k l))"
  by (simp add: tl_touch_def tl_set_comp)

lemma touch_touch [simp]: "tl_touch k n (tl_touch k n l) = tl_touch k n l"
  by (simp add: tl_touch_def tl_set_comp)

lemma touch_absent: "k \<notin> set (tl_ids l) \<Longrightarrow> tl_touch k n l = l"
  by (simp add: tl_touch_def tl_set_def list_ex_has_id [symmetric] update_first_absent)

lemma create_task_logged:
  assumes "task_synced sv" and "ts_next_sequence sv \<noteq> - 1"
  shows "snd (create_task title st sv) = logged (TaskCreated (tl_next_id (ts_tasks sv)) title st) sv"
proof -
  let ?k = "tl_next_id (ts_tasks sv)"
  have k: "?k \<notin> set (tl_ids (ts_tasks sv))" using assms(1) by (auto simp: task_synced_def tl.alloc_ok_def)
  have "ts_last sv \<noteq> Some (TaskCreated ?k title st)" "ts_writes_enabled sv"
    using assms(1) by (auto simp: task_synced_def)
  note a = append_task_event_live [OF this(2,1) assms(2)]
  show ?thesis
    unfolding create_task_def Let_def snd_conv a(2)
    by (simp add: a(1)) (simp add: logged_def replay_task_record_def touch_opt_def touch_absent [OF k])
qed

lemma set_logged:
  assumes "task_synced sv" and "ts_next_sequence sv \<noteq> - 1" and "\<not> applied (ts_tasks sv) e"
    and "event_task_id e = Some k" and "\<And>n l. apply_task_event n e l = snd (tl_set f k l)"
    and "\<And>t. tk_id (f t) = tk_id t" and "\<And>t n. f (t\<lparr>tk_updated := n\<rparr>) = (f t)\<lparr>tk_updated := n\<rparr>"
  shows "(append_task_event e sv)\<lparr>ts_tasks := snd (tl_set f k (ts_tasks (append_task_event e sv)))\<rparr> = logged e sv"
    and "current_sequence (append_task_event e sv) = ts_next_sequence sv"
    and "tl_touch k (ts_next_sequence sv) (snd (tl_set f k (ts_tasks (append_task_event e sv))))
        = snd (tl_set f k (ts_tasks (append_task_event e sv)))"
proof -
  have "ts_last sv \<noteq> Some e" "ts_writes_enabled sv" using assms(1,3) by (auto simp: task_synced_def)
  note a = append_task_event_live [OF this(2,1) assms(2)]
  have "(case e of AgentResumed pane (Some previous) _ \<Rightarrow>
            snd (rebind_invocation pane previous (ts_next_sequence sv) (ts_tasks sv)) | _ \<Rightarrow> ts_tasks sv) = ts_tasks sv"
    using assms(4) by (cases e) auto
  then have t: "ts_tasks (append_task_event e sv) = tl_touch k (ts_next_sequence sv) (ts_tasks sv)"
    by (simp add: a(1) assms(4) touch_opt_def)
  note b = touch_before_set [of f "ts_next_sequence sv" k "ts_tasks sv", OF assms(6,7)]
  show "(append_task_event e sv)\<lparr>ts_tasks := snd (tl_set f k (ts_tasks (append_task_event e sv)))\<rparr> = logged e sv"
    unfolding t b by (simp add: a(1)) (simp add: logged_def replay_task_record_def assms(4,5) touch_opt_def)
  show "tl_touch k (ts_next_sequence sv) (snd (tl_set f k (ts_tasks (append_task_event e sv))))
        = snd (tl_set f k (ts_tasks (append_task_event e sv)))"
    unfolding t b by simp
  show "current_sequence (append_task_event e sv) = ts_next_sequence sv" by (rule a(2))
qed

lemma set_status_logged:
  assumes "task_synced sv" and "ts_next_sequence sv \<noteq> - 1"
  shows "task_set_status_msg k st sv \<in> {sv, logged (TaskStatusChanged k st) sv}"
proof (cases "\<exists>t. tl_get k (ts_tasks sv) = Some t \<and> tk_status t \<noteq> st")
  case True
  then have n: "\<not> applied (ts_tasks sv) (TaskStatusChanged k st)" by (auto dest!: tl_get_SomeD)
  note * = set_logged [OF assms n, of k "\<lambda>t. t\<lparr>tk_status := st\<rparr>"]
  from True show ?thesis
    by (auto simp: task_set_status_msg_def tl_set_status_def Let_def *(1))
next
  case False
  then show ?thesis by (auto simp: task_set_status_msg_def split: option.split)
qed

lemma retitle_logged:
  assumes "task_synced sv" and "ts_next_sequence sv \<noteq> - 1"
  shows "task_retitle_msg k title sv \<in> {sv, logged (TaskRetitled k (str_trim title)) sv}"
proof (cases "\<exists>t. tl_get k (ts_tasks sv) = Some t \<and> tk_title t \<noteq> str_trim title")
  case True
  then have n: "\<not> applied (ts_tasks sv) (TaskRetitled k (str_trim title))" by (auto dest!: tl_get_SomeD)
  note * = set_logged [OF assms n, of k "\<lambda>t. t\<lparr>tk_title := str_trim title\<rparr>"]
  from True show ?thesis
    by (auto simp: task_retitle_msg_def tl_set_title_def Let_def *(1))
next
  case False
  then show ?thesis by (auto simp: task_retitle_msg_def Let_def split: option.split)
qed

lemma set_details_logged:
  assumes "task_synced sv" and "ts_next_sequence sv \<noteq> - 1"
  shows "set_task_details k nts ctx sv \<in> {sv, logged (TaskDetailsUpdated k nts ctx) sv}"
proof (cases "\<exists>t. tl_get k (ts_tasks sv) = Some t \<and> \<not> (tk_notes t = nts \<and> tk_context t = ctx)")
  case True
  then obtain t where t: "tl_get k (ts_tasks sv) = Some t" "\<not> (tk_notes t = nts \<and> tk_context t = ctx)" by blast
  then have n: "\<not> applied (ts_tasks sv) (TaskDetailsUpdated k nts ctx)" by (auto dest!: tl_get_SomeD)
  note * = set_logged [OF assms n, of k "\<lambda>t. t\<lparr>tk_notes := nts, tk_context := ctx\<rparr>"]
  from t show ?thesis
    by (auto simp: set_task_details_def tl_set_details_def Let_def *)
next
  case False
  then show ?thesis by (auto simp: set_task_details_def split: option.split)
qed

lemma delete_logged:
  assumes "task_synced sv" and "ts_next_sequence sv \<noteq> - 1"
  shows "task_delete_msg k sv \<in> {sv, logged (TaskDeleted k) sv}"
proof (cases "tl_get k (ts_tasks sv) = None")
  case False
  then have "ts_last sv \<noteq> Some (TaskDeleted k)" "ts_writes_enabled sv"
    using assms(1) by (auto simp: task_synced_def tl_get_iff)
  note a = append_task_event_live [OF this(2,1) assms(2)]
  from False have "task_delete_msg k sv = logged (TaskDeleted k) sv"
    by (simp add: task_delete_msg_def Let_def a(1))
      (simp add: logged_def replay_task_record_def touch_opt_def)
  then show ?thesis by simp
qed (simp add: task_delete_msg_def)

lemma append_plain_logged:
  assumes "task_synced sv" and "ts_next_sequence sv \<noteq> - 1" and "event_task_id e = None" and "\<forall>k. e \<noteq> TaskDeleted k"
  shows "append_task_event e sv \<in> {sv, logged e sv}"
proof (cases "ts_last sv = Some e")
  case False
  have "ts_writes_enabled sv" using assms(1) by (simp add: task_synced_def)
  from append_task_event_live(1) [OF this False assms(2)] show ?thesis
    using assms(3,4) by (cases e) (auto simp: logged_def replay_task_record_def touch_opt_def split: option.split)
qed (use assms(1) in \<open>simp add: append_task_event_def log_record_def task_synced_def\<close>)

section \<open>The live list is the replay of the log\<close>

datatype task_cmd =
    TcCreate str task_status
  | TcDetails u64 str task_context
  | TcStatus u64 task_status
  | TcRetitle u64 str
  | TcDelete u64
  | TcFinish nat u64 task_status
  | TcResumed pane_id "u64 option" nat

fun task_serve :: "task_cmd \<Rightarrow> task_server \<Rightarrow> task_server" where
  "task_serve (TcCreate title st) sv = snd (create_task title st sv)"
| "task_serve (TcDetails k nts ctx) sv = set_task_details k nts ctx sv"
| "task_serve (TcStatus k st) sv = task_set_status_msg k st sv"
| "task_serve (TcRetitle k title) sv = task_retitle_msg k title sv"
| "task_serve (TcDelete k) sv = task_delete_msg k sv"
| "task_serve (TcFinish o_event k st) sv = finish_run_task o_event k st sv"
| "task_serve (TcResumed pane prev x) sv = append_task_event (AgentResumed pane prev x) sv"

definition task_server_start :: task_server where
  "task_server_start =
     \<lparr>ts_tasks = tl_new, ts_records = [], ts_last = None, ts_next_sequence = 1, ts_writes_enabled = True\<rparr>"

definition room :: "task_server \<Rightarrow> nat \<Rightarrow> bool" where
  "room sv n \<longleftrightarrow> unat (tl_next_id (ts_tasks sv)) + n < 2 ^ 64 \<and> unat (ts_next_sequence sv) + n < 2 ^ 64"

lemma room_not_max: "room sv (Suc n) \<Longrightarrow> tl_next_id (ts_tasks sv) \<noteq> - 1 \<and> ts_next_sequence sv \<noteq> - 1"
  by (auto simp: room_def unsigned_minus_1_eq_mask mask_eq_exp_minus_1)

lemma unat_succ_le: "unat (x + 1) \<le> Suc (unat x)" for x :: u64
  by (metis add.commute le_0_eq le_SucI linear unatSuc unsigned_0)

lemma next_id_replay_le:
  "(\<And>k title st. e = TaskCreated k title st \<Longrightarrow> k = tl_next_id l) \<Longrightarrow>
     unat (tl_next_id (replay_task_record (n, e) l)) \<le> Suc (unat (tl_next_id l))"
proof (cases e)
  case (AgentResumed p prev x)
  then show ?thesis by (cases prev) (simp_all add: replay_task_record_def)
qed (simp_all add: replay_task_record_def tl_next_insert tl_set_status_def tl_set_title_def
    tl_set_details_def tl.del_next max_def unat_succ_le)

lemma logged_step:
  assumes "task_synced sv" and "room sv (Suc n)" and "sv' \<in> {sv, logged e sv}"
    and "\<And>k title st. e = TaskCreated k title st \<Longrightarrow> k = tl_next_id (ts_tasks sv)"
  shows "task_synced sv' \<and> room sv' n"
proof (cases "sv' = sv")
  case True
  with assms(1,2) show ?thesis by (auto simp: room_def)
next
  case False
  then have sv': "sv' = logged e sv" using assms(3) by simp
  have "\<not> mints_last_id e"
    using assms(4) room_not_max [OF assms(2)] by (cases e) auto
  moreover have "unat (tl_next_id (ts_tasks sv')) \<le> Suc (unat (tl_next_id (ts_tasks sv)))"
    using next_id_replay_le [of e "ts_tasks sv" "ts_next_sequence sv"] assms(4) by (simp add: sv' logged_def)
  moreover have "unat (ts_next_sequence sv') \<le> Suc (unat (ts_next_sequence sv))"
    by (simp add: sv' logged_def unat_succ_le)
  ultimately show ?thesis
    using assms(1,2) task_synced_logged by (auto simp: room_def sv')
qed

lemma finish_run_two_steps:
  assumes "task_synced sv" and "room sv (Suc (Suc n))"
  shows "task_synced (finish_run_task x k st sv) \<and> room (finish_run_task x k st sv) n"
proof -
  let ?sv1 = "append_task_event (OtherEvent x) sv"
  have m: "?sv1 \<in> {sv, logged (OtherEvent x) sv}"
    using append_plain_logged [OF assms(1), of "OtherEvent x"] room_not_max [OF assms(2)] by simp
  from logged_step [OF assms m] have s1: "task_synced ?sv1" "room ?sv1 (Suc n)" by auto
  have last: "ts_last ?sv1 = Some (OtherEvent x)"
    using assms(1) by (simp add: append_task_event_def log_record_def task_synced_def Let_def)
  have writes: "ts_writes_enabled ?sv1" using s1(1) by (simp add: task_synced_def)
  have seq: "ts_next_sequence ?sv1 \<noteq> - 1" using room_not_max [OF s1(2)] by simp
  have "finish_run_task x k st sv \<in> {?sv1, logged (TaskStatusChanged k st) ?sv1}"
  proof (cases "list_ex (has_id k) (tl_tasks (ts_tasks ?sv1))")
    case True
    let ?sv2 = "?sv1\<lparr>ts_tasks := snd (tl_set_status k st (ts_tasks ?sv1))\<rparr>"
    have "append_task_event (TaskStatusChanged k st) ?sv2 = logged (TaskStatusChanged k st) ?sv1"
      using append_task_event_live(1) [of ?sv2 "TaskStatusChanged k st"] writes seq last
      by (simp add: logged_def replay_task_record_def touch_opt_def)
    with True show ?thesis by (simp add: finish_run_task_def tl_set_status_def tl_set_def Let_def)
  next
    case False
    then show ?thesis
      by (simp add: finish_run_task_def tl_set_status_def tl_set_def Let_def update_first_absent)
  qed
  from logged_step [OF s1 this] show ?thesis by simp
qed

lemma task_serve_step:
  assumes "task_synced sv" and "room sv (Suc (Suc n))"
  shows "task_synced (task_serve c sv) \<and> room (task_serve c sv) n"
proof -
  have seq: "ts_next_sequence sv \<noteq> - 1" using room_not_max [OF assms(2)] by simp
  have weak: "room s (Suc n) \<Longrightarrow> room s n" for s by (simp add: room_def)
  note one = logged_step [OF assms]
  show ?thesis
  proof (cases c)
    case (TcCreate title st)
    with one [of _ "TaskCreated (tl_next_id (ts_tasks sv)) title st"] create_task_logged [OF assms(1) seq]
    show ?thesis by (auto intro: weak)
  next
    case (TcDetails k nts ctx)
    with one [OF set_details_logged [OF assms(1) seq]] show ?thesis by (auto intro: weak)
  next
    case (TcStatus k st)
    with one [OF set_status_logged [OF assms(1) seq]] show ?thesis by (auto intro: weak)
  next
    case (TcRetitle k title)
    with one [OF retitle_logged [OF assms(1) seq]] show ?thesis by (auto intro: weak)
  next
    case (TcDelete k)
    with one [OF delete_logged [OF assms(1) seq]] show ?thesis by (auto intro: weak)
  next
    case (TcFinish x k st)
    with finish_run_two_steps [OF assms] show ?thesis by simp
  next
    case (TcResumed p prev x)
    with one [OF append_plain_logged [OF assms(1) seq, of "AgentResumed p prev x"]] show ?thesis
      by (auto intro: weak)
  qed
qed

lemma task_trace:
  "task_synced sv \<Longrightarrow> room sv (2 * length cs) \<Longrightarrow> task_synced (fold task_serve cs sv)"
proof (induction cs arbitrary: sv)
  case (Cons c cs)
  from task_serve_step [OF Cons.prems(1), of "2 * length cs" c] Cons.prems(2) Cons.IH show ?case by simp
qed simp

text \<open>
  C8. Tasks survive a restart. After any sequence of server calls (creation, details, status,
  titles, deletion, the end of a run, the rebinding of a resumed agent), replaying the records
  that reached the log, each with its sequence, from the empty list gives exactly the live
  task list, recency marks and next id included; and no id is ever shared or reissued.
\<close>

theorem task_replay_refines_live:
  assumes "length cs < 2 ^ 63 - 1"
  shows "replay_tasks (ts_records (fold task_serve cs task_server_start)) tl_new
           = ts_tasks (fold task_serve cs task_server_start)
     \<and> distinct (map tk_id (tl_tasks (ts_tasks (fold task_serve cs task_server_start))))
     \<and> (\<forall>t\<in>set (tl_tasks (ts_tasks (fold task_serve cs task_server_start))).
          tk_id t < tl_next_id (ts_tasks (fold task_serve cs task_server_start)))"
proof -
  have "task_synced task_server_start"
    by (simp add: task_synced_def task_server_start_def replay_tasks_def tl.alloc_ok_def tl_new_def tl_ids_def)
  moreover have "room task_server_start (2 * length cs)"
    using assms by (simp add: room_def task_server_start_def tl_new_def)
  ultimately have "task_synced (fold task_serve cs task_server_start)" by (rule task_trace)
  then show ?thesis by (auto simp: task_synced_def tl.alloc_ok_def tl_ids_def)
qed

text \<open>Witness of C8: two tasks, one deleted, one finished by its run.\<close>

theorem task_replay_refines_live_witness:
  "let cs = [TcCreate (lit ''a'') Todo, TcCreate (lit ''b'') Doing, TcDelete 1, TcFinish 0 2 TaskDone] in
   map (\<lambda>t. (tk_id t, tk_status t, tk_updated t))
     (tl_tasks (replay_tasks (ts_records (fold task_serve cs task_server_start)) tl_new)) = [(2, TaskDone, 5)]"
proof -
  let ?cs = "[TcCreate (lit ''a'') Todo, TcCreate (lit ''b'') Doing, TcDelete 1, TcFinish 0 2 TaskDone]"
  have "length ?cs < 2 ^ 63 - 1" by simp
  from task_replay_refines_live [OF this]
  have "replay_tasks (ts_records (fold task_serve ?cs task_server_start)) tl_new
      = ts_tasks (fold task_serve ?cs task_server_start)" by (rule conjunct1)
  moreover have "map (\<lambda>t. (tk_id t, tk_status t, tk_updated t))
      (tl_tasks (ts_tasks (fold task_serve ?cs task_server_start))) = [(2, TaskDone, 5)]"
    by code_simp
  ultimately show ?thesis by (simp only: Let_def)
qed

text \<open>
  The task board shows every task once, running work first, then blocked, planned and
  finished work, and equal statuses by id.
\<close>

theorem task_board_order:
  "mset (tl_ordered l) = mset (tl_tasks l) \<and> sorted_wrt (\<lambda>a b. task_sort_key a \<le> task_sort_key b) (tl_ordered l)"
proof -
  have "sorted (map task_sort_key (tl_ordered l))" by (simp add: tl_ordered_def)
  then show ?thesis by (simp add: tl_ordered_def sorted_wrt_map)
qed

end
