(* ===== verification/Run_Graph.thy ===== *)
theory Run_Graph
  imports Interfaces Guardrail
begin

text \<open>
  The indexed ownership graph of agent runs, \<^verbatim>\<open>crates/uniterm-core/src/run_graph.rs\<close>: runs,
  roles and their activations, with the six relationship indexes the server reads instead
  of scanning, the reducer \<open>apply\<close> over the durable run events, and the pruning of closed
  leaf runs. The invariant states every index as a function of the run and role tables.
\<close>

section \<open>Identities and records\<close>

definition RUN_GRAPH_HISTORY_CAP :: nat where "RUN_GRAPH_HISTORY_CAP = 4096"

datatype run_id = RunId (run_raw: u64)

instantiation run_id :: linorder
begin

definition less_eq_run_id :: "run_id \<Rightarrow> run_id \<Rightarrow> bool" where
  "less_eq_run_id a b \<longleftrightarrow> run_raw a \<le> run_raw b"

definition less_run_id :: "run_id \<Rightarrow> run_id \<Rightarrow> bool" where
  "less_run_id a b \<longleftrightarrow> run_raw a < run_raw b"

instance
  by standard (auto simp: less_eq_run_id_def less_run_id_def run_id.expand)

end

datatype role_id = RoleId (role_raw: u64)

instantiation role_id :: linorder
begin

definition less_eq_role_id :: "role_id \<Rightarrow> role_id \<Rightarrow> bool" where
  "less_eq_role_id a b \<longleftrightarrow> role_raw a \<le> role_raw b"

definition less_role_id :: "role_id \<Rightarrow> role_id \<Rightarrow> bool" where
  "less_role_id a b \<longleftrightarrow> role_raw a < role_raw b"

instance
  by standard (auto simp: less_eq_role_id_def less_role_id_def role_id.expand)

end

datatype run_status = RsCreated | RsActive | RsCompleted | RsFailed | RsCanceled

fun run_status_label :: "run_status \<Rightarrow> str" where
  "run_status_label RsCreated = lit ''created''"
| "run_status_label RsActive = lit ''active''"
| "run_status_label RsCompleted = lit ''completed''"
| "run_status_label RsFailed = lit ''failed''"
| "run_status_label RsCanceled = lit ''canceled''"

definition status_terminal :: "run_status \<Rightarrow> bool" where
  "status_terminal s \<longleftrightarrow> s = RsCompleted \<or> s = RsFailed \<or> s = RsCanceled"

record run_activation =
  ra_id :: u64
  ra_pane :: pane_id
  ra_provider :: str
  ra_active :: bool

record run_record =
  rr_id :: run_id
  rr_parent :: "run_id option"
  rr_project :: project_id
  rr_kind :: run_kind
  rr_task_id :: u64
  rr_title :: str
  rr_status :: run_status
  rr_outcome :: "str option"
  rr_roles :: "role_id list"

record role_record =
  ro_id :: role_id
  ro_run :: run_id
  ro_name :: str
  ro_pane :: pane_id
  ro_provider :: str
  ro_activation :: "run_activation option"

datatype run_graph_event =
    RgCreated run_id "run_id option" project_id run_kind u64 str
  | RgRoleDeclared run_id role_id str pane_id str
  | RgActivated run_id role_id u64
  | RgHandoff run_id role_id role_id u64
  | RgCompleted run_id str
  | RgFailed run_id str
  | RgCanceled run_id str

datatype run_graph_error =
    InvalidRun u64
  | NoParent
  | TaskOwned u64
  | NoRoleRun
  | InvalidRole
  | ZeroActivation
  | ActivationNotMonotonic
  | NoActivationRun
  | TerminalRun
  | ForeignRole
  | HandoffToSelf
  | PaneBusy
  | HandoffSource
  | NoTerminalRun
  | AlreadyTerminal

record run_graph =
  rg_runs :: "(run_id, run_record) rbt"
  rg_roles :: "(role_id, role_record) rbt"
  rg_children :: "(run_id, run_id list) rbt"
  rg_run_panes :: "(run_id, pane_id list) rbt"
  rg_pane_active :: "(pane_id, run_id \<times> role_id) rbt"
  rg_project_runs :: "(project_id, run_id list) rbt"
  rg_task_runs :: "(u64, run_id) rbt"
  rg_next_run_id :: u64
  rg_next_role_id :: u64
  rg_next_activation_id :: u64

definition rg_new :: run_graph where
  "rg_new = \<lparr>rg_runs = RBT.empty, rg_roles = RBT.empty, rg_children = RBT.empty,
     rg_run_panes = RBT.empty, rg_pane_active = RBT.empty, rg_project_runs = RBT.empty,
     rg_task_runs = RBT.empty, rg_next_run_id = 1, rg_next_role_id = 1, rg_next_activation_id = 1\<rparr>"

section \<open>Queries\<close>

definition next_run_id :: "run_graph \<Rightarrow> run_id" where
  "next_run_id g = RunId (max (rg_next_run_id g) 1)"

definition next_role_id :: "run_graph \<Rightarrow> role_id" where
  "next_role_id g = RoleId (max (rg_next_role_id g) 1)"

definition next_activation_id :: "run_graph \<Rightarrow> u64" where
  "next_activation_id g = max (rg_next_activation_id g) 1"

definition run_for_task :: "u64 \<Rightarrow> run_graph \<Rightarrow> run_id option" where
  "run_for_task t g = mlookup (rg_task_runs g) t"

definition role_at :: "run_id \<Rightarrow> nat \<Rightarrow> run_graph \<Rightarrow> role_id option" where
  "role_at r i g = (case mlookup (rg_runs g) r of None \<Rightarrow> None
     | Some node \<Rightarrow> if i < length (rr_roles node) then Some (rr_roles node ! i) else None)"

definition rg_parent :: "run_id \<Rightarrow> run_graph \<Rightarrow> run_id option" where
  "rg_parent r g = (case mlookup (rg_runs g) r of None \<Rightarrow> None | Some node \<Rightarrow> rr_parent node)"

definition children_of :: "run_id \<Rightarrow> run_graph \<Rightarrow> run_id list" where
  "children_of r g = multi_get (rg_children g) r"

definition panes_of :: "run_id \<Rightarrow> run_graph \<Rightarrow> pane_id list" where
  "panes_of r g = multi_get (rg_run_panes g) r"

definition active_for_pane :: "pane_id \<Rightarrow> run_graph \<Rightarrow> (run_id \<times> role_id) option" where
  "active_for_pane p g = mlookup (rg_pane_active g) p"

definition role_is_active :: "run_graph \<Rightarrow> role_id \<Rightarrow> bool" where
  "role_is_active g role =
     (case mlookup (rg_roles g) role of
        None \<Rightarrow> False
      | Some ro \<Rightarrow> (case ro_activation ro of None \<Rightarrow> False | Some a \<Rightarrow> ra_active a))"

definition active_role :: "run_id \<Rightarrow> run_graph \<Rightarrow> role_id option" where
  "active_role r g = (case mlookup (rg_runs g) r of None \<Rightarrow> None
     | Some node \<Rightarrow> find (role_is_active g) (rr_roles node))"

definition activation_for_role :: "role_id \<Rightarrow> run_graph \<Rightarrow> run_activation option" where
  "activation_for_role role g =
     (case mlookup (rg_roles g) role of None \<Rightarrow> None | Some ro \<Rightarrow> ro_activation ro)"

definition runs_for_project :: "project_id \<Rightarrow> run_graph \<Rightarrow> run_id list" where
  "runs_for_project p g = multi_get (rg_project_runs g) p"

section \<open>The reducer\<close>

definition apply_created :: "run_id \<Rightarrow> run_id option \<Rightarrow> project_id \<Rightarrow> run_kind \<Rightarrow> u64 \<Rightarrow> str
    \<Rightarrow> run_graph \<Rightarrow> run_graph \<times> (run_graph_error + unit)" where
  "apply_created r parent project kind task title g =
     (if run_raw r \<noteq> run_raw (next_run_id g) \<or> mlookup (rg_runs g) r \<noteq> None then (g, Inl (InvalidRun (run_raw r)))
      else if (case parent of None \<Rightarrow> False | Some p \<Rightarrow> mlookup (rg_runs g) p = None) then (g, Inl NoParent)
      else if mlookup (rg_task_runs g) task \<noteq> None then (g, Inl (TaskOwned task))
      else
        (let node = \<lparr>rr_id = r, rr_parent = parent, rr_project = project, rr_kind = kind,
                     rr_task_id = task, rr_title = title, rr_status = RsCreated, rr_outcome = None,
                     rr_roles = []\<rparr>
         in (g\<lparr>rg_runs := RBT.insert r node (rg_runs g),
               rg_task_runs := RBT.insert task r (rg_task_runs g),
               rg_project_runs := multi_push project r (rg_project_runs g),
               rg_children := (case parent of None \<Rightarrow> rg_children g
                  | Some p \<Rightarrow> multi_push p r (rg_children g)),
               rg_next_run_id := max (rg_next_run_id g) (saturating_add (run_raw r) 1)\<rparr>, Inr ())))"

definition apply_role_declared :: "run_id \<Rightarrow> role_id \<Rightarrow> str \<Rightarrow> pane_id \<Rightarrow> str
    \<Rightarrow> run_graph \<Rightarrow> run_graph \<times> (run_graph_error + unit)" where
  "apply_role_declared r role name pane provider g =
     (case mlookup (rg_runs g) r of
        None \<Rightarrow> (g, Inl NoRoleRun)
      | Some node \<Rightarrow>
          (if status_terminal (rr_status node) \<or> role \<noteq> next_role_id g \<or> mlookup (rg_roles g) role \<noteq> None
           then (g, Inl InvalidRole)
           else
             (g\<lparr>rg_runs := RBT.insert r (node\<lparr>rr_roles := rr_roles node @ [role]\<rparr>) (rg_runs g),
                rg_roles := RBT.insert role
                  \<lparr>ro_id = role, ro_run = r, ro_name = name, ro_pane = pane, ro_provider = provider,
                   ro_activation = None\<rparr> (rg_roles g),
                rg_run_panes := RBT.insert r
                  (if pane \<in> set (panes_of r g) then panes_of r g else panes_of r g @ [pane]) (rg_run_panes g),
                rg_next_role_id := max (rg_next_role_id g) (saturating_add (role_raw role) 1)\<rparr>, Inr ())))"

text \<open>The block shared by \<open>activate\<close> and \<open>finish\<close>: close the live activation of one run.\<close>

definition deactivate :: "role_id \<Rightarrow> run_graph \<Rightarrow> run_graph" where
  "deactivate role g =
     (case mlookup (rg_roles g) role of
        None \<Rightarrow> g
      | Some ro \<Rightarrow>
          (case ro_activation ro of
             None \<Rightarrow> g
           | Some a \<Rightarrow>
               g\<lparr>rg_roles := RBT.insert role (ro\<lparr>ro_activation := Some (a\<lparr>ra_active := False\<rparr>)\<rparr>) (rg_roles g),
                 rg_pane_active := RBT.delete (ra_pane a) (rg_pane_active g)\<rparr>))"

definition deactivate_run :: "run_id \<Rightarrow> run_graph \<Rightarrow> run_graph" where
  "deactivate_run r g = (case active_role r g of None \<Rightarrow> g | Some role \<Rightarrow> deactivate role g)"

definition activate_target :: "run_id \<Rightarrow> role_id \<Rightarrow> u64 \<Rightarrow> run_graph \<Rightarrow> run_graph" where
  "activate_target r role act g =
     (case (mlookup (rg_roles g) role, mlookup (rg_runs g) r) of
        (Some ro, Some node) \<Rightarrow>
          g\<lparr>rg_roles := RBT.insert role (ro\<lparr>ro_activation :=
               Some \<lparr>ra_id = act, ra_pane = ro_pane ro, ra_provider = ro_provider ro, ra_active = True\<rparr>\<rparr>) (rg_roles g),
            rg_pane_active := RBT.insert (ro_pane ro) (r, role) (rg_pane_active g),
            rg_runs := RBT.insert r (node\<lparr>rr_status := RsActive\<rparr>) (rg_runs g),
            rg_next_activation_id := max (rg_next_activation_id g) (saturating_add act 1)\<rparr>
      | _ \<Rightarrow> g)"

definition activate :: "run_id \<Rightarrow> role_id \<Rightarrow> u64 \<Rightarrow> role_id option
    \<Rightarrow> run_graph \<Rightarrow> run_graph \<times> (run_graph_error + unit)" where
  "activate r role act expected_from g =
     (if act = 0 then (g, Inl ZeroActivation)
      else if act \<noteq> next_activation_id g then (g, Inl ActivationNotMonotonic)
      else
        (case mlookup (rg_runs g) r of
           None \<Rightarrow> (g, Inl NoActivationRun)
         | Some node \<Rightarrow>
             (if status_terminal (rr_status node) then (g, Inl TerminalRun)
              else
                (case mlookup (rg_roles g) role of
                   None \<Rightarrow> (g, Inl ForeignRole)
                 | Some ro \<Rightarrow>
                     (if ro_run ro \<noteq> r then (g, Inl ForeignRole)
                      else if expected_from = Some role then (g, Inl HandoffToSelf)
                      else if (case active_for_pane (ro_pane ro) g of None \<Rightarrow> False | Some own \<Rightarrow> fst own \<noteq> r)
                      then (g, Inl PaneBusy)
                      else if (case expected_from of None \<Rightarrow> False | Some from \<Rightarrow> active_role r g \<noteq> Some from)
                      then (g, Inl HandoffSource)
                      else (activate_target r role act (deactivate_run r g), Inr ()))))))"

definition prunable :: "run_graph \<Rightarrow> run_id \<times> run_record \<Rightarrow> bool" where
  "prunable g e \<longleftrightarrow> status_terminal (rr_status (snd e)) \<and> children_of (fst e) g = []"

text \<open>\<^verbatim>\<open>get_mut(k)\<close>, \<^verbatim>\<open>retain(..)\<close>, and \<^verbatim>\<open>remove(k)\<close> when the vector became empty.\<close>

definition multi_remove :: "'k::linorder \<Rightarrow> 'v \<Rightarrow> ('k, 'v list) rbt \<Rightarrow> ('k, 'v list) rbt" where
  "multi_remove k x m =
     (case mlookup m k of
        None \<Rightarrow> m
      | Some xs \<Rightarrow> (let kept = filter (\<lambda>y. y \<noteq> x) xs
                    in if kept = [] then RBT.delete k m else RBT.insert k kept m))"

definition prune_run :: "run_id \<Rightarrow> run_record \<Rightarrow> run_graph \<Rightarrow> run_graph" where
  "prune_run r node g =
     (let children1 = RBT.delete r (rg_children g)
      in g\<lparr>rg_runs := RBT.delete r (rg_runs g),
           rg_roles := fold RBT.delete (rr_roles node) (rg_roles g),
           rg_run_panes := RBT.delete r (rg_run_panes g),
           rg_task_runs := RBT.delete (rr_task_id node) (rg_task_runs g),
           rg_project_runs := multi_remove (rr_project node) r (rg_project_runs g),
           rg_children := (case rr_parent node of None \<Rightarrow> children1 | Some p \<Rightarrow> multi_remove p r children1)\<rparr>)"

lemma find_entry:
  "find P (RBT.entries m) = Some e \<Longrightarrow> mlookup m (fst e) = Some (snd e) \<and> P e"
  by (cases e) (auto simp: find_Some_iff entries_iff [symmetric])

function prune_to :: "nat \<Rightarrow> run_graph \<Rightarrow> run_graph" where
  "prune_to cap g =
     (if mlen (rg_runs g) > cap then
        (case find (prunable g) (RBT.entries (rg_runs g)) of
           None \<Rightarrow> g
         | Some e \<Rightarrow> prune_to cap (prune_run (fst e) (snd e) g))
      else g)"
  by pat_completeness auto

termination
proof (relation "measure (\<lambda>(cap, g). mlen (rg_runs g))")
  fix cap g e
  assume "cap < mlen (rg_runs g)" and "find (prunable g) (RBT.entries (rg_runs g)) = Some e"
  with find_entry [OF this(2)]
  show "((cap, prune_run (fst e) (snd e) g), cap, g) \<in> measure (\<lambda>(cap, g). mlen (rg_runs g))"
    by (simp add: prune_run_def Let_def mlen_delete)
qed simp

declare prune_to.simps [simp del]

definition finish :: "run_id \<Rightarrow> run_status \<Rightarrow> str \<Rightarrow> run_graph \<Rightarrow> run_graph \<times> (run_graph_error + unit)" where
  "finish r status outcome g =
     (case mlookup (rg_runs g) r of
        None \<Rightarrow> (g, Inl NoTerminalRun)
      | Some node \<Rightarrow>
          (if status_terminal (rr_status node) then (g, Inl AlreadyTerminal)
           else
             (let g1 = deactivate_run r g;
                  g2 = g1\<lparr>rg_runs := RBT.insert r (node\<lparr>rr_status := status, rr_outcome := Some outcome\<rparr>) (rg_runs g1)\<rparr>
              in (prune_to RUN_GRAPH_HISTORY_CAP g2, Inr ()))))"

fun rg_apply :: "run_graph_event \<Rightarrow> run_graph \<Rightarrow> run_graph \<times> (run_graph_error + unit)" where
  "rg_apply (RgCreated r parent project kind task title) g = apply_created r parent project kind task title g"
| "rg_apply (RgRoleDeclared r role name pane provider) g = apply_role_declared r role name pane provider g"
| "rg_apply (RgActivated r role act) g = activate r role act None g"
| "rg_apply (RgHandoff r from to act) g = activate r to act (Some from) g"
| "rg_apply (RgCompleted r outcome) g = finish r RsCompleted outcome g"
| "rg_apply (RgFailed r outcome) g = finish r RsFailed outcome g"
| "rg_apply (RgCanceled r outcome) g = finish r RsCanceled outcome g"

section \<open>The invariant\<close>

text \<open>The role tables: every role belongs to one retained run that lists it, once.\<close>

definition inv_tables :: "run_graph \<Rightarrow> bool" where
  "inv_tables g \<longleftrightarrow>
     (\<forall>r node. mlookup (rg_runs g) r = Some node \<longrightarrow> rr_id node = r \<and> distinct (rr_roles node)
        \<and> (\<forall>role\<in>set (rr_roles node). \<exists>ro. mlookup (rg_roles g) role = Some ro \<and> ro_run ro = r))
   \<and> (\<forall>role ro. mlookup (rg_roles g) role = Some ro \<longrightarrow> ro_id ro = role
        \<and> (\<exists>node. mlookup (rg_runs g) (ro_run ro) = Some node \<and> role \<in> set (rr_roles node))
        \<and> (\<forall>a. ro_activation ro = Some a \<longrightarrow> ra_pane a = ro_pane ro))"

definition inv_tasks :: "run_graph \<Rightarrow> bool" where
  "inv_tasks g \<longleftrightarrow> (\<forall>t r. mlookup (rg_task_runs g) t = Some r
     \<longleftrightarrow> (\<exists>node. mlookup (rg_runs g) r = Some node \<and> rr_task_id node = t))"

definition inv_projects :: "run_graph \<Rightarrow> bool" where
  "inv_projects g \<longleftrightarrow> (\<forall>p. distinct (runs_for_project p g)
     \<and> (\<forall>r. r \<in> set (runs_for_project p g)
          \<longleftrightarrow> (\<exists>node. mlookup (rg_runs g) r = Some node \<and> rr_project node = p)))"

definition inv_children :: "run_graph \<Rightarrow> bool" where
  "inv_children g \<longleftrightarrow> (\<forall>p. distinct (children_of p g)
     \<and> (\<forall>r. r \<in> set (children_of p g)
          \<longleftrightarrow> (\<exists>node. mlookup (rg_runs g) r = Some node \<and> rr_parent node = Some p)))"

text \<open>Parents are retained and older, so the parent relation has no cycle.\<close>

definition inv_parents :: "run_graph \<Rightarrow> bool" where
  "inv_parents g \<longleftrightarrow> (\<forall>r node. mlookup (rg_runs g) r = Some node \<longrightarrow>
       (run_raw r < rg_next_run_id g \<or> rg_next_run_id g = - 1)
     \<and> (\<forall>p. rr_parent node = Some p \<longrightarrow> mlookup (rg_runs g) p \<noteq> None \<and> p < r))"

definition inv_panes :: "run_graph \<Rightarrow> bool" where
  "inv_panes g \<longleftrightarrow> (\<forall>r. distinct (panes_of r g)
     \<and> (\<forall>p. p \<in> set (panes_of r g)
          \<longleftrightarrow> (\<exists>role ro. mlookup (rg_roles g) role = Some ro \<and> ro_run ro = r \<and> ro_pane ro = p)))"

definition live :: "run_graph \<Rightarrow> run_id \<Rightarrow> role_id \<Rightarrow> pane_id \<Rightarrow> bool" where
  "live g r role p \<longleftrightarrow> (\<exists>ro a. mlookup (rg_roles g) role = Some ro \<and> ro_run ro = r
     \<and> ro_activation ro = Some a \<and> ra_active a \<and> ra_pane a = p)"

lemma live_runs_update [simp]: "live (g\<lparr>rg_runs := x\<rparr>) = live g"
  by (intro ext) (simp add: live_def)

text \<open>The pane index holds exactly the live activations, and a run has at most one.\<close>

definition inv_live :: "run_graph \<Rightarrow> bool" where
  "inv_live g \<longleftrightarrow> (\<forall>p r role. active_for_pane p g = Some (r, role) \<longleftrightarrow> live g r role p)
     \<and> (\<forall>r a b p q. live g r a p \<longrightarrow> live g r b q \<longrightarrow> a = b)"

definition inv_status :: "run_graph \<Rightarrow> bool" where
  "inv_status g \<longleftrightarrow> (\<forall>r node. mlookup (rg_runs g) r = Some node \<longrightarrow>
       (rr_status node = RsActive \<longleftrightarrow> (\<exists>role p. live g r role p))
     \<and> (rr_outcome node = None \<longleftrightarrow> \<not> status_terminal (rr_status node)))"

definition rg_core :: "run_graph \<Rightarrow> bool" where
  "rg_core g \<longleftrightarrow> inv_tables g \<and> inv_tasks g \<and> inv_projects g \<and> inv_children g \<and> inv_parents g
     \<and> inv_panes g \<and> inv_live g"

definition rg_inv :: "run_graph \<Rightarrow> bool" where
  "rg_inv g \<longleftrightarrow> rg_core g \<and> inv_status g"

lemmas rg_core_defs = inv_tables_def inv_tasks_def inv_projects_def inv_children_def inv_parents_def
  inv_panes_def inv_live_def
lemmas rg_query_defs = runs_for_project_def children_of_def panes_of_def active_for_pane_def

lemma rg_new_inv: "rg_inv rg_new"
  by (simp add: rg_inv_def rg_core_def rg_core_defs inv_status_def rg_query_defs rg_new_def live_def)

lemma inv_tablesD:
  assumes "inv_tables g" and "mlookup (rg_roles g) role = Some ro"
  shows "ro_id ro = role" and "\<And>a. ro_activation ro = Some a \<Longrightarrow> ra_pane a = ro_pane ro"
    and "\<And>node. mlookup (rg_runs g) (ro_run ro) = Some node \<Longrightarrow> role \<in> set (rr_roles node)"
    and "\<exists>node. mlookup (rg_runs g) (ro_run ro) = Some node"
proof -
  have "ro_id ro = role \<and> (\<exists>node. mlookup (rg_runs g) (ro_run ro) = Some node \<and> role \<in> set (rr_roles node))
      \<and> (\<forall>a. ro_activation ro = Some a \<longrightarrow> ra_pane a = ro_pane ro)"
    using assms unfolding inv_tables_def by blast
  then show "ro_id ro = role" and "\<And>a. ro_activation ro = Some a \<Longrightarrow> ra_pane a = ro_pane ro"
    and "\<And>node. mlookup (rg_runs g) (ro_run ro) = Some node \<Longrightarrow> role \<in> set (rr_roles node)"
    and "\<exists>node. mlookup (rg_runs g) (ro_run ro) = Some node" by auto
qed

lemma inv_tablesI:
  assumes "\<And>r node. mlookup (rg_runs g) r = Some node \<Longrightarrow> rr_id node = r \<and> distinct (rr_roles node)"
    and "\<And>r node role. mlookup (rg_runs g) r = Some node \<Longrightarrow> role \<in> set (rr_roles node) \<Longrightarrow>
           \<exists>ro. mlookup (rg_roles g) role = Some ro \<and> ro_run ro = r"
    and "\<And>role ro. mlookup (rg_roles g) role = Some ro \<Longrightarrow> ro_id ro = role
           \<and> (\<exists>node. mlookup (rg_runs g) (ro_run ro) = Some node \<and> role \<in> set (rr_roles node))
           \<and> (\<forall>a. ro_activation ro = Some a \<longrightarrow> ra_pane a = ro_pane ro)"
  shows "inv_tables g"
  using assms unfolding inv_tables_def by blast

lemma inv_tables_runD:
  assumes "inv_tables g" and "mlookup (rg_runs g) r = Some node"
  shows "rr_id node = r" and "distinct (rr_roles node)"
    and "\<And>role. role \<in> set (rr_roles node) \<Longrightarrow> \<exists>ro. mlookup (rg_roles g) role = Some ro \<and> ro_run ro = r"
  using assms unfolding inv_tables_def by blast+

lemma live_run:
  assumes "inv_tables g" and "live g r role p"
  obtains node where "mlookup (rg_runs g) r = Some node" "role \<in> set (rr_roles node)"
  using assms by (auto simp: live_def dest: inv_tablesD(3,4))

subsection \<open>Creation\<close>

lemma created_fresh:
  assumes "inv_parents g" and "mlookup (rg_runs g) r = None" and "run_raw r = run_raw (next_run_id g)"
    and "mlookup (rg_runs g) p \<noteq> None"
  shows "p < r"
proof -
  obtain node where "mlookup (rg_runs g) p = Some node" using assms(4) by auto
  then have "run_raw p < rg_next_run_id g \<or> rg_next_run_id g = - 1" and "p \<noteq> r"
    using assms(1,2) by (auto simp: inv_parents_def)
  moreover have "rg_next_run_id g \<le> run_raw r" using assms(3) by (simp add: next_run_id_def)
  moreover from \<open>p \<noteq> r\<close> have "run_raw p \<noteq> run_raw r" by (auto intro: run_id.expand)
  ultimately show ?thesis
    by (auto simp: less_run_id_def word_order.not_eq_extremum word_order.extremum_unique)
qed

lemma saturating_next:
  fixes a n k :: u64
  assumes "a < n \<or> n = - 1 \<or> a = k" and "n \<le> k"
  shows "a < max n (saturating_add k 1) \<or> max n (saturating_add k 1) = - 1"
  using assms word_less_succ [of k]
  by (auto simp: saturating_add_one less_max_iff_disj word_order.extremum_unique split: if_splits)

lemma apply_created_tables:
  assumes "rg_inv g" and "apply_created r parent project kind task title g = (g', Inr ())"
  shows "inv_tables g'" and "inv_live g'" and "inv_panes g'" and "inv_status g'" and "inv_tasks g'"
proof -
  from assms(2) have new: "mlookup (rg_runs g) r = None"
    and g': "rg_roles g' = rg_roles g" "rg_pane_active g' = rg_pane_active g" "rg_run_panes g' = rg_run_panes g"
      "\<exists>node. mlookup (rg_runs g') = (mlookup (rg_runs g))(r \<mapsto> node) \<and> rr_id node = r \<and> rr_roles node = []
         \<and> rr_status node = RsCreated \<and> rr_outcome node = None \<and> rr_task_id node = task"
      "mlookup (rg_task_runs g) task = None" "mlookup (rg_task_runs g') = (mlookup (rg_task_runs g))(task \<mapsto> r)"
    by (auto simp: apply_created_def Let_def split: if_splits)
  then obtain node where node: "mlookup (rg_runs g') = (mlookup (rg_runs g))(r \<mapsto> node)" "rr_id node = r"
    "rr_roles node = []" "rr_status node = RsCreated" "rr_outcome node = None" "rr_task_id node = task" by blast
  have live: "live g' = live g" by (intro ext) (simp add: live_def g')
  have notlive: "\<not> live g r role p" for role p
    using assms(1) new by (auto simp: rg_inv_def rg_core_def elim!: live_run [rotated])
  have it: "inv_tables g" using assms(1) by (simp add: rg_inv_def rg_core_def)
  show "inv_tables g'"
  proof (rule inv_tablesI)
    fix role ro assume "mlookup (rg_roles g') role = Some ro"
    with g' have "mlookup (rg_roles g) role = Some ro" by simp
    from inv_tablesD [OF it this] new
    show "ro_id ro = role \<and> (\<exists>node. mlookup (rg_runs g') (ro_run ro) = Some node \<and> role \<in> set (rr_roles node))
           \<and> (\<forall>a. ro_activation ro = Some a \<longrightarrow> ra_pane a = ro_pane ro)"
      by (auto simp: node)
  qed (use inv_tables_runD [OF it] in \<open>auto simp: node g' split: if_splits\<close>)
  show "inv_live g'" "inv_panes g'"
    using assms(1) by (simp_all add: rg_inv_def rg_core_def inv_live_def inv_panes_def live g' rg_query_defs)
  show "inv_status g'"
    using assms(1) notlive by (auto simp: rg_inv_def inv_status_def live node status_terminal_def)
  show "inv_tasks g'"
    unfolding inv_tasks_def
  proof (intro allI)
    fix t q
    have iff: "mlookup (rg_task_runs g) t' = Some q'
        \<longleftrightarrow> (\<exists>node. mlookup (rg_runs g) q' = Some node \<and> rr_task_id node = t')" for t' q'
      using assms(1) by (simp add: rg_inv_def rg_core_def inv_tasks_def)
    show "mlookup (rg_task_runs g') t = Some q
        \<longleftrightarrow> (\<exists>node. mlookup (rg_runs g') q = Some node \<and> rr_task_id node = t)"
      using iff [of t q] iff [of task q] new g'(5) by (cases "q = r"; cases "t = task") (auto simp: g'(6) node)
  qed
qed

lemma apply_created_indexes:
  assumes "rg_inv g" and "apply_created r parent project kind task title g = (g', Inr ())"
  shows "inv_projects g'" and "inv_children g'" and "inv_parents g'"
proof -
  from assms(2) have new: "mlookup (rg_runs g) r = None" and rid: "run_raw r = run_raw (next_run_id g)"
    and g': "\<exists>node. mlookup (rg_runs g') = (mlookup (rg_runs g))(r \<mapsto> node) \<and> rr_project node = project
         \<and> rr_parent node = parent"
      "rg_project_runs g' = multi_push project r (rg_project_runs g)"
      "rg_children g' = (case parent of None \<Rightarrow> rg_children g | Some p \<Rightarrow> multi_push p r (rg_children g))"
      "rg_next_run_id g' = max (rg_next_run_id g) (saturating_add (run_raw r) 1)"
    and par: "\<And>p. parent = Some p \<Longrightarrow> mlookup (rg_runs g) p \<noteq> None"
    by (auto simp: apply_created_def Let_def split: if_splits option.splits)
  then obtain node where node: "mlookup (rg_runs g') = (mlookup (rg_runs g))(r \<mapsto> node)"
    "rr_project node = project" "rr_parent node = parent" by blast
  have inv: "inv_projects g" "inv_children g" "inv_parents g"
    using assms(1) by (simp_all add: rg_inv_def rg_core_def)
  have "r \<notin> set (runs_for_project p g)" for p using inv(1) new by (simp add: inv_projects_def)
  then show "inv_projects g'"
    using inv(1) new by (auto simp: inv_projects_def runs_for_project_def g'(2) multi_get_push node)
  have nc: "r \<notin> set (children_of p g)" for p using inv(2) new by (simp add: inv_children_def)
  have ch: "children_of p g' = (if parent = Some p then children_of p g @ [r] else children_of p g)" for p
    by (simp add: children_of_def g'(3) multi_get_push split: option.split)
  have iff: "x \<in> set (children_of p g) \<longleftrightarrow> (\<exists>node. mlookup (rg_runs g) x = Some node \<and> rr_parent node = Some p)"
    and dist: "distinct (children_of p g)" for x p
    using inv(2) by (simp_all add: inv_children_def)
  show "inv_children g'"
    unfolding inv_children_def ch node(1) using nc new by (simp add: iff dist node(3))
  have le: "rg_next_run_id g \<le> run_raw r" using rid by (simp add: next_run_id_def)
  show "inv_parents g'"
    unfolding inv_parents_def
  proof (intro allI impI conjI)
    fix q n p assume q: "mlookup (rg_runs g') q = Some n"
    show "run_raw q < rg_next_run_id g' \<or> rg_next_run_id g' = - 1"
    proof (cases "q = r")
      case True
      then show ?thesis using saturating_next [OF _ le, of "run_raw q"] g'(4) by simp
    next
      case False
      with q node(1) have "run_raw q < rg_next_run_id g \<or> rg_next_run_id g = - 1"
        using inv(3) by (auto simp: inv_parents_def)
      then show ?thesis using saturating_next [OF _ le, of "run_raw q"] g'(4) by metis
    qed
    assume p: "rr_parent n = Some p"
    show "mlookup (rg_runs g') p \<noteq> None" using q p par node inv(3)
      by (auto simp: inv_parents_def split: if_splits)
    show "p < q"
      using q p par node inv(3) created_fresh [OF inv(3) new rid] by (auto simp: inv_parents_def split: if_splits)
  qed
qed

lemma apply_created_inv:
  "rg_inv g \<Longrightarrow> rg_inv (fst (apply_created r parent project kind task title g))"
proof (cases "snd (apply_created r parent project kind task title g)")
  case (Inl e)
  assume "rg_inv g"
  moreover from Inl have "fst (apply_created r parent project kind task title g) = g"
    by (auto simp: apply_created_def Let_def split: if_splits)
  ultimately show ?thesis by simp
next
  case (Inr u)
  assume i: "rg_inv g"
  from Inr have "apply_created r parent project kind task title g
      = (fst (apply_created r parent project kind task title g), Inr ())"
    by (metis old.unit.exhaust prod.collapse)
  from apply_created_tables [OF i this] apply_created_indexes [OF i this] show ?thesis
    by (simp add: rg_inv_def rg_core_def)
qed

subsection \<open>Declaration of a role\<close>

lemma apply_role_declared_inv:
  assumes "rg_inv g"
  shows "rg_inv (fst (apply_role_declared r role name pane provider g))"
proof (cases "\<exists>node. mlookup (rg_runs g) r = Some node \<and> \<not> status_terminal (rr_status node)
    \<and> role = next_role_id g \<and> mlookup (rg_roles g) role = None")
  case False
  then have "fst (apply_role_declared r role name pane provider g) = g"
    by (auto simp: apply_role_declared_def split: option.split)
  with assms show ?thesis by simp
next
  case True
  then obtain node where node: "mlookup (rg_runs g) r = Some node" and new: "mlookup (rg_roles g) role = None"
    and ok: "\<not> status_terminal (rr_status node)" "role = next_role_id g" by blast
  define g' where "g' = fst (apply_role_declared r role name pane provider g)"
  define ro where "ro = \<lparr>ro_id = role, ro_run = r, ro_name = name, ro_pane = pane, ro_provider = provider,
     ro_activation = None\<rparr>"
  have g': "mlookup (rg_runs g') = (mlookup (rg_runs g))(r \<mapsto> node\<lparr>rr_roles := rr_roles node @ [role]\<rparr>)"
    "mlookup (rg_roles g') = (mlookup (rg_roles g))(role \<mapsto> ro)"
    "\<And>p. children_of p g' = children_of p g" "\<And>p. runs_for_project p g' = runs_for_project p g"
    "rg_task_runs g' = rg_task_runs g" "rg_next_run_id g' = rg_next_run_id g" "rg_pane_active g' = rg_pane_active g"
    "\<And>q. panes_of q g' = (if q = r then (if pane \<in> set (panes_of r g) then panes_of r g else panes_of r g @ [pane]) else panes_of q g)"
    using node new ok
    by (simp_all add: g'_def ro_def apply_role_declared_def rg_query_defs multi_get_insert)
  have inv: "inv_tables g" "inv_tasks g" "inv_projects g" "inv_children g" "inv_parents g" "inv_panes g"
    "inv_live g" "inv_status g"
    using assms by (simp_all add: rg_inv_def rg_core_def)
  have live: "live g' = live g"
    using new by (intro ext) (auto simp: live_def g' ro_def)
  have nr: "role \<notin> set (rr_roles n)" if "mlookup (rg_runs g) q = Some n" for q n
    using inv_tables_runD(3) [OF inv(1) that] new by fastforce
  have "inv_tables g'"
  proof (rule inv_tablesI)
    fix role' ro' assume ro': "mlookup (rg_roles g') role' = Some ro'"
    show "ro_id ro' = role' \<and> (\<exists>node. mlookup (rg_runs g') (ro_run ro') = Some node \<and> role' \<in> set (rr_roles node))
           \<and> (\<forall>a. ro_activation ro' = Some a \<longrightarrow> ra_pane a = ro_pane ro')"
    proof (cases "role' = role")
      case True
      with ro' have "ro' = ro" by (simp add: g'(2))
      with True show ?thesis by (simp add: g'(1) ro_def)
    next
      case False
      with ro' have "mlookup (rg_roles g) role' = Some ro'" by (simp add: g'(2))
      note d = inv_tablesD [OF inv(1) this]
      obtain n where n: "mlookup (rg_runs g) (ro_run ro') = Some n" using d(4) by blast
      with d(1,2) d(3) [OF n] node show ?thesis by (cases "ro_run ro' = r") (auto simp: g'(1))
    qed
  next
    fix q n role' assume "mlookup (rg_runs g') q = Some n" "role' \<in> set (rr_roles n)"
    then show "\<exists>ro. mlookup (rg_roles g') role' = Some ro \<and> ro_run ro = q"
      using inv_tables_runD(3) [OF inv(1)] node nr by (auto simp: g'(1,2) ro_def split: if_splits)
  qed (use inv_tables_runD [OF inv(1)] node nr in \<open>auto simp: g'(1) split: if_splits\<close>)
  moreover have "inv_tasks g'" using inv(2) node unfolding inv_tasks_def g' by (auto split: if_splits)
  moreover have "inv_projects g'" using inv(3) node unfolding inv_projects_def g' by auto
  moreover have "inv_children g'" using inv(4) node unfolding inv_children_def g' by auto
  moreover have "inv_parents g'" using inv(5) node unfolding inv_parents_def g' by (auto split: if_splits)
  moreover have "inv_live g'" using inv(7) unfolding inv_live_def live by (simp add: active_for_pane_def g')
  moreover have "inv_status g'" using inv(8) node unfolding inv_status_def live g' by auto
  moreover have owns: "(\<exists>role' ro'. mlookup (rg_roles g') role' = Some ro' \<and> ro_run ro' = q \<and> ro_pane ro' = p)
      \<longleftrightarrow> (q = r \<and> p = pane) \<or> p \<in> set (panes_of q g)" for q p
  proof -
    have "p \<in> set (panes_of q g)
        \<longleftrightarrow> (\<exists>role' ro'. mlookup (rg_roles g) role' = Some ro' \<and> ro_run ro' = q \<and> ro_pane ro' = p)"
      using inv(6) by (simp add: inv_panes_def)
    moreover have "(\<exists>role' ro'. ((mlookup (rg_roles g))(role \<mapsto> ro)) role' = Some ro' \<and> P ro')
        \<longleftrightarrow> P ro \<or> (\<exists>role' ro'. mlookup (rg_roles g) role' = Some ro' \<and> P ro')" for P
      using new by (metis fun_upd_apply option.distinct(1) option.inject)
    ultimately show ?thesis by (auto simp: g'(2) ro_def)
  qed
  moreover have "inv_panes g'"
    unfolding inv_panes_def owns using inv(6) by (auto simp: g'(8) inv_panes_def)
  ultimately show ?thesis by (simp add: g'_def rg_inv_def rg_core_def)
qed

subsection \<open>Steps that keep the shape of the graph\<close>

text \<open>Activations and statuses may change; identities, ownership and the indexes do not.\<close>

definition run_shape :: "run_record \<Rightarrow> run_id \<times> role_id list \<times> u64 \<times> project_id \<times> run_id option" where
  "run_shape n = (rr_id n, rr_roles n, rr_task_id n, rr_project n, rr_parent n)"

definition role_shape :: "role_record \<Rightarrow> role_id \<times> run_id \<times> pane_id" where
  "role_shape ro = (ro_id ro, ro_run ro, ro_pane ro)"

definition same_shape :: "run_graph \<Rightarrow> run_graph \<Rightarrow> bool" where
  "same_shape g g' \<longleftrightarrow>
     (\<forall>r. map_option run_shape (mlookup (rg_runs g') r) = map_option run_shape (mlookup (rg_runs g) r))
   \<and> (\<forall>role. map_option role_shape (mlookup (rg_roles g') role) = map_option role_shape (mlookup (rg_roles g) role))
   \<and> rg_children g' = rg_children g \<and> rg_run_panes g' = rg_run_panes g
   \<and> rg_project_runs g' = rg_project_runs g \<and> rg_task_runs g' = rg_task_runs g
   \<and> rg_next_run_id g' = rg_next_run_id g
   \<and> (\<forall>role ro a. mlookup (rg_roles g') role = Some ro \<longrightarrow> ro_activation ro = Some a \<longrightarrow> ra_pane a = ro_pane ro)"

lemma shape_ex:
  assumes "map_option h x = map_option h y" and "\<And>a b. h a = h b \<Longrightarrow> P a \<longleftrightarrow> P b"
  shows "(\<exists>a. x = Some a \<and> P a) \<longleftrightarrow> (\<exists>b. y = Some b \<and> P b)"
proof (cases x)
  case None
  with assms(1) show ?thesis by simp
next
  case (Some a)
  with assms(1) obtain b where b: "y = Some b" "h a = h b" by (metis map_option_eq_Some)
  from assms(2) [OF b(2)] Some b(1) show ?thesis by simp
qed

lemma same_shapeD:
  assumes "same_shape g g'"
  shows "map_option run_shape (mlookup (rg_runs g') r) = map_option run_shape (mlookup (rg_runs g) r)"
    and "map_option role_shape (mlookup (rg_roles g') role) = map_option role_shape (mlookup (rg_roles g) role)"
  using assms by (simp_all add: same_shape_def)

lemmas same_shape_run_ex = shape_ex [OF same_shapeD(1)]
lemmas same_shape_role_ex = shape_ex [OF same_shapeD(2)]

lemma same_shape_runE:
  assumes "same_shape g g'" and "mlookup (rg_runs g') r = Some n'"
  obtains n where "mlookup (rg_runs g) r = Some n" "run_shape n' = run_shape n"
  using same_shapeD(1) [OF assms(1), of r] assms(2) by (cases "mlookup (rg_runs g) r") auto

lemma same_shape_roleE:
  assumes "same_shape g g'" and "mlookup (rg_roles g') r = Some n'"
  obtains n where "mlookup (rg_roles g) r = Some n" "role_shape n' = role_shape n"
  using same_shapeD(2) [OF assms(1), of r] assms(2) by (cases "mlookup (rg_roles g) r") auto

lemma same_shape_tables:
  assumes s: "same_shape g g'" and i: "inv_tables g"
  shows "inv_tables g'"
proof (rule inv_tablesI)
  fix r n' assume "mlookup (rg_runs g') r = Some n'"
  then obtain n where "mlookup (rg_runs g) r = Some n" "run_shape n' = run_shape n"
    by (rule same_shape_runE [OF s])
  with inv_tables_runD [OF i] show "rr_id n' = r \<and> distinct (rr_roles n')" by (simp add: run_shape_def)
next
  fix r n' role assume n': "mlookup (rg_runs g') r = Some n'" "role \<in> set (rr_roles n')"
  from n'(1) obtain n where "mlookup (rg_runs g) r = Some n" "run_shape n' = run_shape n"
    by (rule same_shape_runE [OF s])
  with n' inv_tables_runD(3) [OF i] have "\<exists>ro. mlookup (rg_roles g) role = Some ro \<and> ro_run ro = r"
    by (simp add: run_shape_def)
  then show "\<exists>ro. mlookup (rg_roles g') role = Some ro \<and> ro_run ro = r"
    using same_shape_role_ex [OF s, where P = "\<lambda>ro. ro_run ro = r" and role = role] by (simp add: role_shape_def)
next
  fix role ro' assume ro': "mlookup (rg_roles g') role = Some ro'"
  then obtain ro where ro: "mlookup (rg_roles g) role = Some ro" and sh: "role_shape ro' = role_shape ro"
    by (rule same_shape_roleE [OF s])
  have "\<exists>n. mlookup (rg_runs g) (ro_run ro) = Some n \<and> role \<in> set (rr_roles n)"
    using inv_tablesD(3,4) [OF i ro] by blast
  then have "\<exists>n. mlookup (rg_runs g') (ro_run ro) = Some n \<and> role \<in> set (rr_roles n)"
    using same_shape_run_ex [OF s, where P = "\<lambda>n. role \<in> set (rr_roles n)"] by (simp add: run_shape_def)
  then show "ro_id ro' = role
       \<and> (\<exists>node. mlookup (rg_runs g') (ro_run ro') = Some node \<and> role \<in> set (rr_roles node))
       \<and> (\<forall>a. ro_activation ro' = Some a \<longrightarrow> ra_pane a = ro_pane ro')"
    using s ro' sh inv_tablesD(1) [OF i ro] by (auto simp: same_shape_def role_shape_def)
qed

lemma same_shape_indexes:
  assumes s: "same_shape g g'"
  shows "inv_tasks g \<Longrightarrow> inv_tasks g'" and "inv_projects g \<Longrightarrow> inv_projects g'"
    and "inv_children g \<Longrightarrow> inv_children g'" and "inv_panes g \<Longrightarrow> inv_panes g'"
    and "inv_parents g \<Longrightarrow> inv_parents g'"
proof -
  have eqs: "rg_children g' = rg_children g" "rg_run_panes g' = rg_run_panes g"
    "rg_project_runs g' = rg_project_runs g" "rg_task_runs g' = rg_task_runs g" "rg_next_run_id g' = rg_next_run_id g"
    using s by (simp_all add: same_shape_def)
  note run_ex = same_shape_run_ex [OF s]
  note role_ex = same_shape_role_ex [OF s]
  show "inv_tasks g \<Longrightarrow> inv_tasks g'"
    using run_ex [where P = "\<lambda>n. rr_task_id n = _"] by (simp add: inv_tasks_def eqs run_shape_def)
  show "inv_projects g \<Longrightarrow> inv_projects g'"
    using run_ex [where P = "\<lambda>n. rr_project n = _"] by (simp add: inv_projects_def runs_for_project_def eqs run_shape_def)
  show "inv_children g \<Longrightarrow> inv_children g'"
    using run_ex [where P = "\<lambda>n. rr_parent n = Some _"] by (simp add: inv_children_def children_of_def eqs run_shape_def)
  show "inv_panes g \<Longrightarrow> inv_panes g'"
    using role_ex [where P = "\<lambda>ro. ro_run ro = _ \<and> ro_pane ro = _"]
    by (simp add: inv_panes_def panes_of_def eqs role_shape_def)
  show "inv_parents g \<Longrightarrow> inv_parents g'"
    unfolding inv_parents_def eqs
  proof (intro allI impI)
    fix r n'
    assume i: "\<forall>r node. mlookup (rg_runs g) r = Some node \<longrightarrow>
       (run_raw r < rg_next_run_id g \<or> rg_next_run_id g = - 1)
       \<and> (\<forall>p. rr_parent node = Some p \<longrightarrow> mlookup (rg_runs g) p \<noteq> None \<and> p < r)"
      and "mlookup (rg_runs g') r = Some n'"
    then obtain n where "mlookup (rg_runs g) r = Some n" "run_shape n' = run_shape n"
      using same_shape_runE [OF s] by blast
    moreover have "mlookup (rg_runs g') p \<noteq> None \<longleftrightarrow> mlookup (rg_runs g) p \<noteq> None" for p
      using run_ex [where P = "\<lambda>_. True" and r = p] by auto
    ultimately show "(run_raw r < rg_next_run_id g \<or> rg_next_run_id g = - 1)
       \<and> (\<forall>p. rr_parent n' = Some p \<longrightarrow> mlookup (rg_runs g') p \<noteq> None \<and> p < r)"
      using i by (simp add: run_shape_def)
  qed
qed

lemma same_shape_core: "same_shape g g' \<Longrightarrow> rg_core g \<Longrightarrow> inv_live g' \<Longrightarrow> rg_core g'"
  by (simp add: rg_core_def same_shape_tables same_shape_indexes)

subsection \<open>Activation\<close>

lemma role_is_active_live: "role_is_active g role \<longleftrightarrow> (\<exists>r p. live g r role p)"
  by (auto simp: role_is_active_def live_def split: option.splits)

lemma active_role_SomeD:
  assumes "inv_tables g" and "active_role r g = Some role"
  obtains ro a where "mlookup (rg_roles g) role = Some ro" "ro_run ro = r" "ro_activation ro = Some a"
    "ra_active a" "ra_pane a = ro_pane ro"
proof -
  from assms(2) obtain node where node: "mlookup (rg_runs g) r = Some node" "role \<in> set (rr_roles node)"
    "role_is_active g role"
    by (auto simp: active_role_def find_Some_iff split: option.splits)
  from inv_tables_runD(3) [OF assms(1) node(1,2)] obtain ro where
    ro: "mlookup (rg_roles g) role = Some ro" "ro_run ro = r" by blast
  with node(3) obtain a where "ro_activation ro = Some a" "ra_active a"
    by (auto simp: role_is_active_def split: option.splits)
  with ro inv_tablesD(2) [OF assms(1) ro(1)] that show ?thesis by blast
qed

lemma active_role_None:
  assumes "inv_tables g" and "active_role r g = None"
  shows "\<not> live g r role p"
proof
  assume l: "live g r role p"
  with assms(1) obtain node where "mlookup (rg_runs g) r = Some node" "role \<in> set (rr_roles node)"
    by (rule live_run)
  with assms(2) l show False
    by (auto simp: active_role_def find_None_iff role_is_active_live)
qed

lemma deactivate_run_effect:
  assumes c: "rg_core g"
  shows "same_shape g (deactivate_run r g)" and "inv_live (deactivate_run r g)"
    and "rg_runs (deactivate_run r g) = rg_runs g"
    and "live (deactivate_run r g) q role p \<longleftrightarrow> live g q role p \<and> q \<noteq> r"
proof -
  have it: "inv_tables g" and il: "inv_live g" using c by (simp_all add: rg_core_def)
  let ?g = "deactivate_run r g"
  have "same_shape g ?g \<and> inv_live ?g \<and> rg_runs ?g = rg_runs g
     \<and> (\<forall>q role p. live ?g q role p \<longleftrightarrow> live g q role p \<and> q \<noteq> r)"
  proof (cases "active_role r g")
    case None
    then have "?g = g" by (simp add: deactivate_run_def)
    with active_role_None [OF it None] il inv_tablesD(2) [OF it] show ?thesis
      by (auto simp: same_shape_def)
  next
    case (Some role)
    from active_role_SomeD [OF it Some] obtain ro a where ro: "mlookup (rg_roles g) role = Some ro" "ro_run ro = r"
      "ro_activation ro = Some a" "ra_active a" "ra_pane a = ro_pane ro" by blast
    let ?ro = "ro\<lparr>ro_activation := Some (a\<lparr>ra_active := False\<rparr>)\<rparr>"
    have g': "?g = g\<lparr>rg_roles := RBT.insert role ?ro (rg_roles g),
        rg_pane_active := RBT.delete (ra_pane a) (rg_pane_active g)\<rparr>"
      using Some ro by (simp add: deactivate_run_def deactivate_def)
    have lr: "live g r role (ra_pane a)" using ro by (auto simp: live_def)
    have ex: "live g q role' p \<Longrightarrow> q = r \<Longrightarrow> role' = role" for q role' p
      using il lr unfolding inv_live_def by blast
    have lr2: "live g q role p \<Longrightarrow> q = r \<and> p = ra_pane a" for q p
      using ro by (auto simp: live_def)
    have l: "live ?g q role' p \<longleftrightarrow> live g q role' p \<and> q \<noteq> r" for q role' p
    proof (cases "role' = role")
      case True
      then have "\<not> live ?g q role' p" by (auto simp: live_def g')
      with True lr2 show ?thesis by blast
    next
      case False
      then have "live ?g q role' p \<longleftrightarrow> live g q role' p" by (auto simp: live_def g')
      with False ex show ?thesis by blast
    qed
    have ap: "active_for_pane p ?g = (if p = ra_pane a then None else active_for_pane p g)" for p
      by (simp add: active_for_pane_def g')
    have i: "active_for_pane p g = Some (q, role') \<longleftrightarrow> live g q role' p" for p q role'
      using il by (simp add: inv_live_def)
    have "live g q role' (ra_pane a) \<Longrightarrow> q = r" for q role'
      using lr i [of "ra_pane a" r role] i [of "ra_pane a" q role'] by simp
    then have only: "live g q role' (ra_pane a) \<Longrightarrow> q = r" for q role' by blast
    have "active_for_pane p ?g = Some (q, role') \<longleftrightarrow> live ?g q role' p" for p q role'
    proof (cases "p = ra_pane a")
      case True
      with only show ?thesis by (auto simp: ap l)
    next
      case False
      then have "live g q role' p \<Longrightarrow> q \<noteq> r" using ex lr2 by metis
      with False show ?thesis by (auto simp: ap l i)
    qed
    moreover have "live ?g q b x \<Longrightarrow> live ?g q c y \<Longrightarrow> b = c" for q b c x y
      using il unfolding inv_live_def l by blast
    ultimately have "inv_live ?g" unfolding inv_live_def by blast
    moreover have "same_shape g ?g"
      using ro inv_tablesD(2) [OF it] by (auto simp: same_shape_def g' role_shape_def)
    ultimately show ?thesis using l g' by simp
  qed
  then show "same_shape g ?g" and "inv_live ?g" and "rg_runs ?g = rg_runs g"
    and "live ?g q role p \<longleftrightarrow> live g q role p \<and> q \<noteq> r" by auto
qed

lemma activate_target_effect:
  assumes c: "rg_core g" and nl: "\<And>role p. \<not> live g r role p"
    and ro: "mlookup (rg_roles g) role = Some ro" "ro_run ro = r"
    and node: "mlookup (rg_runs g) r = Some node" and free: "active_for_pane (ro_pane ro) g = None"
    and g'_def: "g' = activate_target r role act g"
  shows "rg_core g'"
    and "mlookup (rg_runs g') = (mlookup (rg_runs g))(r \<mapsto> node\<lparr>rr_status := RsActive\<rparr>)"
    and "live g' q role' p \<longleftrightarrow> live g q role' p \<or> (q = r \<and> role' = role \<and> p = ro_pane ro)"
proof -
  have it: "inv_tables g" and il: "inv_live g" using c by (simp_all add: rg_core_def)
  let ?a = "\<lparr>ra_id = act, ra_pane = ro_pane ro, ra_provider = ro_provider ro, ra_active = True\<rparr>"
  have g': "g' = g\<lparr>rg_roles := RBT.insert role (ro\<lparr>ro_activation := Some ?a\<rparr>) (rg_roles g),
            rg_pane_active := RBT.insert (ro_pane ro) (r, role) (rg_pane_active g),
            rg_runs := RBT.insert r (node\<lparr>rr_status := RsActive\<rparr>) (rg_runs g),
            rg_next_activation_id := max (rg_next_activation_id g) (saturating_add act 1)\<rparr>"
    using ro node by (simp add: g'_def activate_target_def)
  show runs: "mlookup (rg_runs g') = (mlookup (rg_runs g))(r \<mapsto> node\<lparr>rr_status := RsActive\<rparr>)"
    by (simp add: g')
  have l: "live g' q role' p \<longleftrightarrow> live g q role' p \<or> (q = r \<and> role' = role \<and> p = ro_pane ro)" for q role' p
  proof (cases "role' = role")
    case True
    have "\<not> live g q role p" using nl ro by (auto simp: live_def)
    with True ro show ?thesis by (auto simp: live_def g')
  next
    case False
    then show ?thesis by (auto simp: live_def g')
  qed
  then show "live g' q role' p \<longleftrightarrow> live g q role' p \<or> (q = r \<and> role' = role \<and> p = ro_pane ro)" .
  have i: "active_for_pane p g = Some (q, role') \<longleftrightarrow> live g q role' p" for p q role'
    using il by (simp add: inv_live_def)
  have nf: "\<not> live g q role' (ro_pane ro)" for q role'
    using i [of "ro_pane ro" q role'] free by simp
  have ap: "active_for_pane p g' = (if p = ro_pane ro then Some (r, role) else active_for_pane p g)" for p
    by (simp add: active_for_pane_def g')
  have "active_for_pane p g' = Some (q, role') \<longleftrightarrow> live g' q role' p" for p q role'
    using nf by (cases "p = ro_pane ro") (auto simp: ap l i)
  moreover have "live g' q b x \<Longrightarrow> live g' q c y \<Longrightarrow> b = c" for q b c x y
    using il nl unfolding inv_live_def l by blast
  ultimately have "inv_live g'" unfolding inv_live_def by blast
  moreover have "same_shape g g'"
    using ro node inv_tablesD(2) [OF it] by (auto simp: same_shape_def g' role_shape_def run_shape_def)
  ultimately show "rg_core g'" using c same_shape_core by blast
qed

lemma status_after:
  assumes "inv_status g" and "mlookup (rg_runs g) r = Some node"
    and "mlookup (rg_runs g') = (mlookup (rg_runs g))(r \<mapsto> node')"
    and "\<And>q role p. q \<noteq> r \<Longrightarrow> live g' q role p \<longleftrightarrow> live g q role p"
    and "rr_status node' = RsActive \<longleftrightarrow> (\<exists>role p. live g' r role p)"
    and "rr_outcome node' = None \<longleftrightarrow> \<not> status_terminal (rr_status node')"
  shows "inv_status g'"
  unfolding inv_status_def
proof (intro allI impI)
  fix q n assume n: "mlookup (rg_runs g') q = Some n"
  show "(rr_status n = RsActive \<longleftrightarrow> (\<exists>role p. live g' q role p))
     \<and> (rr_outcome n = None \<longleftrightarrow> \<not> status_terminal (rr_status n))"
  proof (cases "q = r")
    case True
    with n assms(3,5,6) show ?thesis by simp
  next
    case False
    with n assms(3) have "mlookup (rg_runs g) q = Some n" by simp
    with assms(1) assms(4) [OF False] show ?thesis by (simp add: inv_status_def)
  qed
qed

lemma activate_InrD:
  "snd (activate r role act from g) = Inr u \<Longrightarrow>
     \<exists>node ro. mlookup (rg_runs g) r = Some node \<and> \<not> status_terminal (rr_status node)
       \<and> mlookup (rg_roles g) role = Some ro \<and> ro_run ro = r
       \<and> (\<forall>own. active_for_pane (ro_pane ro) g = Some own \<longrightarrow> fst own = r)
       \<and> (\<forall>f. from = Some f \<longrightarrow> f \<noteq> role \<and> active_role r g = Some f) \<and> act = next_activation_id g
       \<and> fst (activate r role act from g) = activate_target r role act (deactivate_run r g)"
  by (auto simp: activate_def split: if_splits option.splits)

lemma activate_inv:
  assumes "rg_inv g"
  shows "rg_inv (fst (activate r role act from g))"
proof (cases "snd (activate r role act from g)")
  case (Inl e)
  then have "fst (activate r role act from g) = g"
    by (auto simp: activate_def split: if_splits option.splits)
  with assms show ?thesis by simp
next
  case (Inr u)
  let ?g1 = "deactivate_run r g"
  from activate_InrD [OF Inr] obtain node ro where n: "mlookup (rg_runs g) r = Some node" "\<not> status_terminal (rr_status node)"
    and ro: "mlookup (rg_roles g) role = Some ro" "ro_run ro = r"
    and own: "\<forall>own. active_for_pane (ro_pane ro) g = Some own \<longrightarrow> fst own = r"
    and g': "fst (activate r role act from g) = activate_target r role act ?g1"
    by blast
  have core: "rg_core g" and st: "inv_status g" using assms by (simp_all add: rg_inv_def)
  note d = deactivate_run_effect [OF core, of r]
  have core1: "rg_core ?g1" using same_shape_core [OF d(1) core d(2)] .
  have n1: "mlookup (rg_runs ?g1) r = Some node" using n d(3) by simp
  have nl: "\<not> live ?g1 r b p" for b p using d(4) by simp
  obtain ro1 where ro1: "mlookup (rg_roles ?g1) role = Some ro1" "ro_run ro1 = r" "ro_pane ro1 = ro_pane ro"
  proof -
    have "(\<exists>x. mlookup (rg_roles ?g1) role = Some x \<and> role_shape x = role_shape ro)
        \<longleftrightarrow> (\<exists>x. mlookup (rg_roles g) role = Some x \<and> role_shape x = role_shape ro)"
      by (rule same_shape_role_ex [OF d(1)]) simp
    with ro that show ?thesis by (auto simp: role_shape_def)
  qed
  have free: "active_for_pane (ro_pane ro1) ?g1 = None"
  proof (rule ccontr)
    assume "active_for_pane (ro_pane ro1) ?g1 \<noteq> None"
    then obtain q b where "active_for_pane (ro_pane ro1) ?g1 = Some (q, b)" by auto
    then have "live ?g1 q b (ro_pane ro)" using d(2) ro1(3) by (simp add: inv_live_def)
    then have q: "live g q b (ro_pane ro)" "q \<noteq> r" using d(4) by auto
    then have "active_for_pane (ro_pane ro) g = Some (q, b)"
      using core by (simp add: rg_core_def inv_live_def)
    with own q(2) show False by fastforce
  qed
  note t = activate_target_effect [OF core1 nl ro1(1,2) n1 free refl, where act = act]
  have "inv_status (activate_target r role act ?g1)"
  proof (rule status_after [OF st n(1)])
    show "mlookup (rg_runs (activate_target r role act ?g1))
        = (mlookup (rg_runs g))(r \<mapsto> node\<lparr>rr_status := RsActive\<rparr>)" using t(2) d(3) by simp
    show "q \<noteq> r \<Longrightarrow> live (activate_target r role act ?g1) q b p \<longleftrightarrow> live g q b p" for q b p
      using t(3) d(4) by simp
    show "rr_outcome (node\<lparr>rr_status := RsActive\<rparr>) = None
        \<longleftrightarrow> \<not> status_terminal (rr_status (node\<lparr>rr_status := RsActive\<rparr>))"
      using st n by (simp add: inv_status_def status_terminal_def)
  qed (use t(3) in auto)
  with t(1) g' show ?thesis by (simp add: rg_inv_def)
qed

subsection \<open>Pruning and the end of a run\<close>

lemma multi_get_remove:
  "multi_get (multi_remove k x m) k' = (if k' = k then filter (\<lambda>y. y \<noteq> x) (multi_get m k) else multi_get m k')"
  by (auto simp: multi_remove_def multi_get_def Let_def split: option.split)

lemma lookup_fold_delete:
  "mlookup (fold RBT.delete ks m) k = (if k \<in> set ks then None else mlookup m k)"
  by (induction ks arbitrary: m) auto

lemma prune_run_tables:
  assumes i: "inv_tables g" and n: "mlookup (rg_runs g) r = Some node"
  shows "inv_tables (prune_run r node g)"
proof -
  let ?g = "prune_run r node g"
  have runs: "mlookup (rg_runs ?g) q = (if q = r then None else mlookup (rg_runs g) q)" for q
    by (simp add: prune_run_def Let_def)
  have roles: "mlookup (rg_roles ?g) b = (if b \<in> set (rr_roles node) then None else mlookup (rg_roles g) b)" for b
    by (simp add: prune_run_def Let_def lookup_fold_delete)
  show ?thesis
  proof (rule inv_tablesI)
    fix q m b assume "mlookup (rg_runs ?g) q = Some m" and b: "b \<in> set (rr_roles m)"
    then have q: "q \<noteq> r" "mlookup (rg_runs g) q = Some m" by (auto simp: runs split: if_splits)
    from inv_tables_runD(3) [OF i q(2) b] obtain ro where ro: "mlookup (rg_roles g) b = Some ro" "ro_run ro = q" by blast
    have "b \<notin> set (rr_roles node)" using inv_tables_runD(3) [OF i n] ro q(1) by fastforce
    with ro show "\<exists>ro. mlookup (rg_roles ?g) b = Some ro \<and> ro_run ro = q" by (simp add: roles)
  next
    fix b ro assume "mlookup (rg_roles ?g) b = Some ro"
    then have b: "b \<notin> set (rr_roles node)" "mlookup (rg_roles g) b = Some ro" by (auto simp: roles split: if_splits)
    note d = inv_tablesD [OF i b(2)]
    have "ro_run ro \<noteq> r" using d(3) n b(1) by blast
    with d show "ro_id ro = b \<and> (\<exists>node. mlookup (rg_runs ?g) (ro_run ro) = Some node \<and> b \<in> set (rr_roles node))
           \<and> (\<forall>a. ro_activation ro = Some a \<longrightarrow> ra_pane a = ro_pane ro)"
      by (auto simp: runs)
  qed (use inv_tables_runD [OF i] in \<open>auto simp: runs split: if_splits\<close>)
qed

lemma prune_run_inv:
  assumes inv: "rg_inv g" and n: "mlookup (rg_runs g) r = Some node" and p: "prunable g (r, node)"
  shows "rg_inv (prune_run r node g)"
proof -
  let ?g = "prune_run r node g"
  have i: "inv_tables g" "inv_tasks g" "inv_projects g" "inv_children g" "inv_parents g" "inv_panes g"
    "inv_live g" "inv_status g" using inv by (simp_all add: rg_inv_def rg_core_def)
  have runs: "mlookup (rg_runs ?g) q = (if q = r then None else mlookup (rg_runs g) q)" for q
    by (simp add: prune_run_def Let_def)
  have roles: "mlookup (rg_roles ?g) b = (if b \<in> set (rr_roles node) then None else mlookup (rg_roles g) b)" for b
    by (simp add: prune_run_def Let_def lookup_fold_delete)
  have own: "mlookup (rg_roles g) b = Some ro \<Longrightarrow> b \<in> set (rr_roles node) \<longleftrightarrow> ro_run ro = r" for b ro
    using inv_tables_runD(3) [OF i(1) n] inv_tablesD(3) [OF i(1)] n by fastforce
  have kept: "mlookup (rg_roles ?g) b = Some ro \<longleftrightarrow> mlookup (rg_roles g) b = Some ro \<and> ro_run ro \<noteq> r" for b ro
    using own [of b ro] by (cases "b \<in> set (rr_roles node)") (auto simp: roles)
  have "rr_status node \<noteq> RsActive" using p by (auto simp: prunable_def status_terminal_def)
  then have nl: "\<not> live g r b q" for b q using i(8) n unfolding inv_status_def by blast
  have l: "live ?g = live g"
  proof (intro ext)
    fix q b x
    show "live ?g q b x = live g q b x"
    proof (cases "b \<in> set (rr_roles node)")
      case True
      have "live g q b x \<Longrightarrow> q = r" using own True by (auto simp: live_def)
      moreover have "\<not> live ?g q b x" using True by (simp add: live_def roles)
      ultimately show ?thesis using nl by blast
    next
      case False
      then show ?thesis by (simp add: live_def roles)
    qed
  qed
  have "inv_tasks ?g"
    unfolding inv_tasks_def
  proof (intro allI)
    fix t q
    have t: "mlookup (rg_task_runs ?g) t = (if t = rr_task_id node then None else mlookup (rg_task_runs g) t)"
      by (simp add: prune_run_def Let_def)
    have iff: "mlookup (rg_task_runs g) t = Some q' \<longleftrightarrow> (\<exists>n. mlookup (rg_runs g) q' = Some n \<and> rr_task_id n = t)" for q'
      using i(2) by (simp add: inv_tasks_def)
    show "mlookup (rg_task_runs ?g) t = Some q \<longleftrightarrow> (\<exists>n. mlookup (rg_runs ?g) q = Some n \<and> rr_task_id n = t)"
      using iff [of q] iff [of r] n unfolding t runs by (cases "t = rr_task_id node"; cases "q = r") auto
  qed
  moreover have "inv_projects ?g"
    using i(3) n unfolding inv_projects_def runs
    by (auto simp: runs_for_project_def prune_run_def Let_def multi_get_remove)
  moreover have ch: "children_of q ?g = filter (\<lambda>x. x \<noteq> r) (children_of q g)" for q
  proof -
    have "r \<notin> set (children_of q g)" if "rr_parent node \<noteq> Some q" using i(4) n that by (auto simp: inv_children_def)
    then have "filter (\<lambda>x. x \<noteq> r) (children_of q g) = children_of q g" if "rr_parent node \<noteq> Some q"
      using that by (auto intro!: filter_True)
    with p show ?thesis
      by (auto simp: children_of_def prune_run_def Let_def multi_get_remove multi_get_delete prunable_def split: option.split)
  qed
  moreover have "inv_children ?g"
    using i(4) unfolding inv_children_def ch runs by auto
  moreover have "inv_parents ?g"
  proof -
    have "rr_parent m \<noteq> Some r" if "mlookup (rg_runs g) q = Some m" for q m
    proof
      assume "rr_parent m = Some r"
      then have "q \<in> set (children_of r g)" using i(4) that by (auto simp: inv_children_def)
      with p show False by (simp add: prunable_def)
    qed
    moreover have "rg_next_run_id ?g = rg_next_run_id g" by (simp add: prune_run_def Let_def)
    ultimately show ?thesis using i(5) unfolding inv_parents_def runs by (auto split: if_splits)
  qed
  moreover have "active_for_pane q ?g = active_for_pane q g" for q
    by (simp add: active_for_pane_def prune_run_def Let_def)
  then have "inv_live ?g" using i(7) by (simp add: inv_live_def l)
  moreover have "inv_status ?g" using i(8) unfolding inv_status_def l runs by (auto split: if_splits)
  moreover have "inv_panes ?g"
    unfolding inv_panes_def
  proof (intro allI conjI)
    fix q x
    have pq: "panes_of q ?g = (if q = r then [] else panes_of q g)"
      by (simp add: panes_of_def prune_run_def Let_def multi_get_delete)
    then show "distinct (panes_of q ?g)" using i(6) by (simp add: inv_panes_def)
    have "x \<in> set (panes_of q g) \<longleftrightarrow> (\<exists>b ro. mlookup (rg_roles g) b = Some ro \<and> ro_run ro = q \<and> ro_pane ro = x)"
      using i(6) by (simp add: inv_panes_def)
    then show "x \<in> set (panes_of q ?g)
        \<longleftrightarrow> (\<exists>b ro. mlookup (rg_roles ?g) b = Some ro \<and> ro_run ro = q \<and> ro_pane ro = x)"
      unfolding pq kept by auto
  qed
  ultimately show ?thesis using prune_run_tables [OF i(1) n] by (simp add: rg_inv_def rg_core_def)
qed

lemma prune_to_inv: "rg_inv g \<Longrightarrow> rg_inv (prune_to cap g)"
proof (induction cap g rule: prune_to.induct)
  case (1 cap g)
  show ?case
  proof (cases "mlen (rg_runs g) > cap")
    case True
    show ?thesis
    proof (cases "find (prunable g) (RBT.entries (rg_runs g))")
      case None
      with 1(2) show ?thesis by (simp add: prune_to.simps [of cap g])
    next
      case (Some e)
      from find_entry [OF this] have "rg_inv (prune_run (fst e) (snd e) g)"
        using prune_run_inv [OF 1(2)] by simp
      from 1(1) [OF True Some this] True Some show ?thesis by (simp add: prune_to.simps [of cap g])
    qed
  qed (use 1(2) in \<open>simp add: prune_to.simps [of cap g]\<close>)
qed

lemma finish_inv:
  assumes inv: "rg_inv g" and t: "status_terminal st"
  shows "rg_inv (fst (finish r st outcome g))"
proof (cases "\<exists>node. mlookup (rg_runs g) r = Some node \<and> \<not> status_terminal (rr_status node)")
  case False
  then have "fst (finish r st outcome g) = g" by (auto simp: finish_def split: option.split)
  with inv show ?thesis by simp
next
  case True
  then obtain node where n: "mlookup (rg_runs g) r = Some node" "\<not> status_terminal (rr_status node)" by blast
  let ?n = "node\<lparr>rr_status := st, rr_outcome := Some outcome\<rparr>"
  let ?g1 = "deactivate_run r g"
  let ?g2 = "?g1\<lparr>rg_runs := RBT.insert r ?n (rg_runs ?g1)\<rparr>"
  have core: "rg_core g" and st: "inv_status g" using inv by (simp_all add: rg_inv_def)
  note d = deactivate_run_effect [OF core, of r]
  have "same_shape g ?g2"
    using d(1,3) n(1) by (auto simp: same_shape_def run_shape_def)
  moreover have "inv_live ?g2" using d(2) by (simp add: inv_live_def active_for_pane_def)
  ultimately have "rg_core ?g2" using core same_shape_core by blast
  moreover have "inv_status ?g2"
  proof (rule status_after [OF st n(1)])
    show "rr_outcome ?n = None \<longleftrightarrow> \<not> status_terminal (rr_status ?n)" using t by simp
  qed (use t d(3,4) in \<open>auto simp: status_terminal_def\<close>)
  ultimately have "rg_inv ?g2" by (simp add: rg_inv_def)
  with n show ?thesis by (simp add: finish_def Let_def prune_to_inv)
qed

section \<open>Properties\<close>

lemma rg_apply_inv: "rg_inv g \<Longrightarrow> rg_inv (fst (rg_apply e g))"
  by (cases e) (simp_all add: apply_created_inv apply_role_declared_inv activate_inv finish_inv status_terminal_def)

lemma rg_apply_atomic: "snd (rg_apply e g) = Inl err \<Longrightarrow> fst (rg_apply e g) = g"
  by (cases e) (auto simp: apply_created_def apply_role_declared_def activate_def finish_def Let_def
      split: if_splits option.splits)

interpretation rg: atomic_reducer rg_new rg_apply rg_inv
  by unfold_locales (auto intro: rg_new_inv rg_apply_inv rg_apply_atomic)

definition rg_replay :: "run_graph_event list \<Rightarrow> run_graph \<Rightarrow> run_graph" where
  "rg_replay es g = fold (\<lambda>e g. fst (rg_apply e g)) es g"

definition rg_accepted :: "run_graph_event list \<Rightarrow> run_graph \<Rightarrow> run_graph_event list" where
  "rg_accepted es g = rg.accepted es g"

lemma rg_replay_eq: "rg_replay es g = rg.replay es g"
  by (induction es arbitrary: g) (simp_all add: rg_replay_def)

text \<open>
  C7. Every index of the run graph is exact. Whatever sequence of durable events is applied,
  valid or not, the task, project, child, pane and live-activation indexes hold exactly what
  a scan of the run and role tables would find, parents are retained and strictly older, a
  pane and a run have at most one live activation, and a run is active exactly while one of
  its roles is live.
\<close>

theorem run_graph_indexes_exact: "rg_inv (rg_replay es rg_new)"
  unfolding rg_replay_eq by (rule rg.replay_init_inv)

text \<open>
  Recovery. A rejected event leaves the graph untouched, so the log of the accepted
  events alone rebuilds the same graph, and none of its events is rejected during recovery.
\<close>

theorem run_graph_recovery:
  "rg_replay (rg_accepted es rg_new) rg_new = rg_replay es rg_new
   \<and> rg_accepted (rg_accepted es rg_new) rg_new = rg_accepted es rg_new"
  by (simp add: rg_replay_eq rg_accepted_def rg.replay_accepted rg.accepted_accepted)

lemma live_iff_active_role:
  assumes "rg_core g"
  shows "active_role r g = Some role \<longleftrightarrow> (\<exists>p. live g r role p)"
proof
  have it: "inv_tables g" and il: "inv_live g" using assms by (simp_all add: rg_core_def)
  show "active_role r g = Some role \<Longrightarrow> \<exists>p. live g r role p"
    by (erule active_role_SomeD [OF it]) (auto simp: live_def)
  assume "\<exists>p. live g r role p"
  then obtain p where p: "live g r role p" by blast
  then obtain b where b: "active_role r g = Some b" using active_role_None [OF it] by fastforce
  then obtain q where "live g r b q" by (metis active_role_SomeD [OF it] live_def)
  with il p have "b = role" unfolding inv_live_def by blast
  with b show "active_role r g = Some role" by simp
qed

lemma activate_accepted:
  assumes inv: "rg_inv g" and ok: "activate r role act from g = (g', Inr ())"
  shows "active_role r g' = Some role"
    and "q \<noteq> r \<Longrightarrow> active_role q g' = active_role q g"
    and "\<And>f. from = Some f \<Longrightarrow> active_role r g = Some f"
    and "act = next_activation_id g"
proof -
  let ?g1 = "deactivate_run r g"
  have "snd (activate r role act from g) = Inr ()" using ok by simp
  from activate_InrD [OF this] obtain node ro where n: "mlookup (rg_runs g) r = Some node"
    and ro: "mlookup (rg_roles g) role = Some ro" "ro_run ro = r"
    and g1: "fst (activate r role act from g) = activate_target r role act ?g1"
    and act: "act = next_activation_id g"
    and src: "\<forall>f. from = Some f \<longrightarrow> f \<noteq> role \<and> active_role r g = Some f"
    by blast
  have g': "g' = activate_target r role act ?g1" using g1 ok by simp
  have core: "rg_core g" using inv by (simp add: rg_inv_def)
  have core': "rg_core g'" using activate_inv [OF inv, of r role act "from"] ok by (simp add: rg_inv_def)
  note d = deactivate_run_effect [OF core, of r]
  have n1: "mlookup (rg_runs ?g1) r = Some node" using n d(3) by simp
  have "(\<exists>x. mlookup (rg_roles ?g1) role = Some x \<and> role_shape x = role_shape ro)
      \<longleftrightarrow> (\<exists>x. mlookup (rg_roles g) role = Some x \<and> role_shape x = role_shape ro)"
    by (rule same_shape_role_ex [OF d(1)]) simp
  with ro obtain ro1 where ro1: "mlookup (rg_roles ?g1) role = Some ro1" "ro_run ro1 = r"
    by (auto simp: role_shape_def)
  have l: "live g' q b p \<longleftrightarrow> (live ?g1 q b p \<and> b \<noteq> role) \<or> (q = r \<and> b = role \<and> p = ro_pane ro1)" for q b p
    using ro1 n1 by (cases "b = role") (auto simp: live_def g' activate_target_def)
  have r1: "\<not> live ?g1 q role p" for q p
    using d(4) [of r role p] d(4) [of q role p] ro1 by (auto simp: live_def)
  show "act = next_activation_id g" and "\<And>f. from = Some f \<Longrightarrow> active_role r g = Some f"
    using act src by auto
  show "active_role r g' = Some role" using l live_iff_active_role [OF core'] by blast
  show "active_role q g' = active_role q g" if "q \<noteq> r"
  proof -
    have "live g' q b p \<longleftrightarrow> live g q b p" for b p using that l d(4) r1 by metis
    then have "active_role q g' = Some b \<longleftrightarrow> active_role q g = Some b" for b
      using live_iff_active_role [OF core'] live_iff_active_role [OF core] by simp
    then show ?thesis by (metis not_Some_eq)
  qed
qed

text \<open>
  A handoff moves the live turn of one run from its active role to the other role, under
  the next activation id, and touches the live role of no other run.
\<close>

theorem handoff_moves_the_turn:
  assumes "g = rg_replay es rg_new" and "rg_apply (RgHandoff r from to act) g = (g', Inr ())"
  shows "active_role r g = Some from \<and> active_role r g' = Some to \<and> from \<noteq> to
     \<and> act = next_activation_id g \<and> (\<forall>q. q \<noteq> r \<longrightarrow> active_role q g' = active_role q g)"
proof -
  have "rg_inv g" using assms(1) rg.replay_init_inv by (simp add: rg_replay_eq)
  moreover have "activate r to act (Some from) g = (g', Inr ())" using assms(2) by simp
  moreover have "from \<noteq> to" using activate_InrD [of r to act "Some from" g "()"] assms(2) by auto
  ultimately show ?thesis using activate_accepted [of g r to act "Some from" g'] by blast
qed

definition two_roles :: "run_graph_event list" where
  "two_roles = [RgCreated (RunId 1) None (ProjectId 1) Workflow 7 (lit ''t''),
     RgRoleDeclared (RunId 1) (RoleId 1) (lit ''plan'') (PaneId 1) (lit ''a''),
     RgRoleDeclared (RunId 1) (RoleId 2) (lit ''code'') (PaneId 2) (lit ''b''),
     RgActivated (RunId 1) (RoleId 1) 1]"

theorem handoff_moves_the_turn_witness:
  "active_role (RunId 1) (fst (rg_apply (RgHandoff (RunId 1) (RoleId 1) (RoleId 2) 2) (rg_replay two_roles rg_new)))
     = Some (RoleId 2)"
proof -
  have "snd (rg_apply (RgHandoff (RunId 1) (RoleId 1) (RoleId 2) 2) (rg_replay two_roles rg_new)) = Inr ()"
    by code_simp
  then show ?thesis
    using handoff_moves_the_turn [OF refl, of "RunId 1" "RoleId 1" "RoleId 2" 2 two_roles]
    by (metis prod.collapse)
qed

lemma prune_to_bound:
  "mlen (rg_runs (prune_to cap g)) \<le> cap
   \<or> (\<forall>r node. mlookup (rg_runs (prune_to cap g)) r = Some node \<longrightarrow> \<not> prunable (prune_to cap g) (r, node))"
proof (induction cap g rule: prune_to.induct)
  case (1 cap g)
  show ?case
  proof (cases "mlen (rg_runs g) > cap")
    case True
    show ?thesis
    proof (cases "find (prunable g) (RBT.entries (rg_runs g))")
      case None
      with True have "prune_to cap g = g" by (simp add: prune_to.simps [of cap g])
      with None show ?thesis by (auto simp: find_None_iff entries_iff [symmetric])
    next
      case (Some e)
      with 1 [OF True Some] True show ?thesis by (simp add: prune_to.simps [of cap g])
    qed
  qed (simp add: prune_to.simps [of cap g])
qed

text \<open>
  Bounded history. When a run closes, the projection keeps at most 4096 runs, unless
  every retained run is still open or has retained children.
\<close>

theorem run_history_bounded:
  assumes "finish r status outcome g = (g', Inr ())"
  shows "mlen (rg_runs g') \<le> 4096
     \<or> (\<forall>q node. mlookup (rg_runs g') q = Some node \<longrightarrow>
          \<not> status_terminal (rr_status node) \<or> children_of q g' \<noteq> [])"
  using assms prune_to_bound [of RUN_GRAPH_HISTORY_CAP]
  by (auto simp: finish_def Let_def prunable_def RUN_GRAPH_HISTORY_CAP_def split: option.splits if_splits)

theorem run_history_bounded_witness:
  "mlen (rg_runs (fst (finish (RunId 1) RsCompleted (lit ''ok'') (rg_replay two_roles rg_new)))) \<le> 4096"
proof -
  let ?f = "finish (RunId 1) RsCompleted (lit ''ok'') (rg_replay two_roles rg_new)"
  have "snd ?f = Inr ()" by code_simp
  then have "?f = (fst ?f, Inr ())" by (metis prod.collapse)
  from run_history_bounded [OF this] show ?thesis
  proof
    let ?n = "the (mlookup (rg_runs (fst ?f)) (RunId 1))"
    assume "\<forall>q node. mlookup (rg_runs (fst ?f)) q = Some node \<longrightarrow>
        \<not> status_terminal (rr_status node) \<or> children_of q (fst ?f) \<noteq> []"
    moreover have "mlookup (rg_runs (fst ?f)) (RunId 1) = Some ?n" by code_simp
    moreover have "status_terminal (rr_status ?n)" by code_simp
    moreover have "children_of (RunId 1) (fst ?f) = []" by code_simp
    ultimately show ?thesis by blast
  qed
qed

end
