(* ===== verification/Artifact.thy ===== *)
theory Artifact
  imports Run_Graph "HOL-Library.Product_Lexorder" "HOL-Library.List_Lexorder"
begin

text \<open>
  The artifact ledger of \<^verbatim>\<open>crates/uniterm-core/src/artifact.rs\<close>: producer-owned records of
  files, three ownership indexes, the current record of each Project path, the reducer over
  the durable artifact events and the eviction that keeps the projection bounded.
\<close>

section \<open>Records\<close>

definition ARTIFACT_LEDGER_CAP :: nat where "ARTIFACT_LEDGER_CAP = 4096"
definition ARTIFACT_PATH_MAX_BYTES :: nat where "ARTIFACT_PATH_MAX_BYTES = 4096"

datatype artifact_id = ArtifactId (artifact_raw: u64)

instantiation artifact_id :: linorder
begin

definition less_eq_artifact_id :: "artifact_id \<Rightarrow> artifact_id \<Rightarrow> bool" where
  "less_eq_artifact_id a b \<longleftrightarrow> artifact_raw a \<le> artifact_raw b"

definition less_artifact_id :: "artifact_id \<Rightarrow> artifact_id \<Rightarrow> bool" where
  "less_artifact_id a b \<longleftrightarrow> artifact_raw a < artifact_raw b"

instance
  by standard (auto simp: less_eq_artifact_id_def less_artifact_id_def artifact_id.expand)

end

datatype artifact_kind = AkFile | AkPlan | AkPatch | AkReport | AkTestEvidence | AkFindings

fun artifact_kind_label :: "artifact_kind \<Rightarrow> str" where
  "artifact_kind_label AkFile = lit ''file''"
| "artifact_kind_label AkPlan = lit ''plan''"
| "artifact_kind_label AkPatch = lit ''patch''"
| "artifact_kind_label AkReport = lit ''report''"
| "artifact_kind_label AkTestEvidence = lit ''test-evidence''"
| "artifact_kind_label AkFindings = lit ''findings''"

datatype artifact_status = Available | AsMissing | Superseded

fun artifact_status_label :: "artifact_status \<Rightarrow> str" where
  "artifact_status_label Available = lit ''available''"
| "artifact_status_label AsMissing = lit ''missing''"
| "artifact_status_label Superseded = lit ''superseded''"

record artifact_record =
  ar_id :: artifact_id
  ar_project :: project_id
  ar_run :: run_id
  ar_role :: role_id
  ar_kind :: artifact_kind
  ar_path :: str
  ar_digest :: str
  ar_size :: u64
  ar_status :: artifact_status
  ar_supersedes :: "artifact_id option"

datatype artifact_event =
    Observed artifact_id project_id run_id role_id artifact_kind str str u64
  | Refreshed artifact_id str u64
  | MissingFile artifact_id

datatype artifact_error =
    ZeroIdentity
  | PathLength
  | PathNotNormalized
  | BadDigest
  | ZeroSize
  | DuplicateArtifact artifact_id
  | OldIdentity artifact_id
  | LedgerFull
  | UnknownArtifact artifact_id
  | SupersededArtifact

record artifact_ledger =
  al_records :: "(artifact_id, artifact_record) rbt"
  al_by_project :: "(project_id, artifact_id list) rbt"
  al_by_run :: "(run_id, artifact_id list) rbt"
  al_by_role :: "(role_id, artifact_id list) rbt"
  al_current_path :: "(project_id \<times> str, artifact_id) rbt"
  al_next_artifact :: u64

definition al_new :: artifact_ledger where
  "al_new = \<lparr>al_records = RBT.empty, al_by_project = RBT.empty, al_by_run = RBT.empty,
     al_by_role = RBT.empty, al_current_path = RBT.empty, al_next_artifact = 1\<rparr>"

definition for_project :: "project_id \<Rightarrow> artifact_ledger \<Rightarrow> artifact_id list" where
  "for_project p l = multi_get (al_by_project l) p"

definition for_run :: "run_id \<Rightarrow> artifact_ledger \<Rightarrow> artifact_id list" where
  "for_run r l = multi_get (al_by_run l) r"

definition for_role :: "role_id \<Rightarrow> artifact_ledger \<Rightarrow> artifact_id list" where
  "for_role r l = multi_get (al_by_role l) r"

definition current_at :: "project_id \<Rightarrow> str \<Rightarrow> artifact_ledger \<Rightarrow> artifact_id option" where
  "current_at p path l = mlookup (al_current_path l) (p, path)"

section \<open>Validation\<close>

definition validate_digest :: "str \<Rightarrow> artifact_error option" where
  "validate_digest d =
     (if str_len d \<noteq> 64 \<or> \<not> list_all (\<lambda>c. (48 \<le> c \<and> c \<le> 57) \<or> (97 \<le> c \<and> c \<le> 102)) d
      then Some BadDigest else None)"

definition validate_observation :: "artifact_id \<Rightarrow> project_id \<Rightarrow> run_id \<Rightarrow> role_id \<Rightarrow> str \<Rightarrow> str \<Rightarrow> u64
    \<Rightarrow> artifact_error option" where
  "validate_observation a project run role path digest sz =
     (if artifact_raw a = 0 \<or> artifact_raw a = - 1 \<or> project_raw project = 0 \<or> run_raw run = 0
         \<or> role_raw role = 0
      then Some ZeroIdentity
      else if path = [] \<or> str_len path > ARTIFACT_PATH_MAX_BYTES then Some PathLength
      else if hd path = 47
         \<or> list_ex (\<lambda>w. w = [] \<or> w = lit ''.'' \<or> w = lit ''..'') (str_split 47 path)
         \<or> list_ex is_control path
      then Some PathNotNormalized
      else
        (case validate_digest digest of
           Some e \<Rightarrow> Some e
         | None \<Rightarrow> if sz = 0 then Some ZeroSize else None))"

section \<open>The reducer\<close>

definition remove_id :: "'k::linorder \<Rightarrow> artifact_id \<Rightarrow> ('k, artifact_id list) rbt \<Rightarrow> ('k, artifact_id list) rbt" where
  "remove_id k i m =
     (case mlookup m k of None \<Rightarrow> m | Some xs \<Rightarrow> RBT.insert k (filter (\<lambda>x. x \<noteq> i) xs) m)"

definition remove_from_projection :: "artifact_id \<Rightarrow> artifact_ledger \<Rightarrow> artifact_ledger" where
  "remove_from_projection i l =
     (case mlookup (al_records l) i of
        None \<Rightarrow> l
      | Some r \<Rightarrow>
          l\<lparr>al_records := RBT.delete i (al_records l),
            al_by_project := remove_id (ar_project r) i (al_by_project l),
            al_by_run := remove_id (ar_run r) i (al_by_run l),
            al_by_role := remove_id (ar_role r) i (al_by_role l),
            al_current_path :=
              (if mlookup (al_current_path l) (ar_project r, ar_path r) = Some i
               then RBT.delete (ar_project r, ar_path r) (al_current_path l)
               else al_current_path l)\<rparr>)"

definition first_unavailable :: "artifact_ledger \<Rightarrow> artifact_id option" where
  "first_unavailable l =
     map_option fst (find (\<lambda>e. ar_status (snd e) \<noteq> Available) (RBT.entries (al_records l)))"

definition make_room :: "artifact_id option \<Rightarrow> artifact_ledger \<Rightarrow> artifact_error + artifact_ledger" where
  "make_room replacement l =
     (if mlen (al_records l) < ARTIFACT_LEDGER_CAP then Inr l
      else
        (case (case first_unavailable l of Some i \<Rightarrow> Some i | None \<Rightarrow> replacement) of
           None \<Rightarrow> Inl LedgerFull
         | Some i \<Rightarrow> Inr (remove_from_projection i l)))"

definition supersede :: "artifact_id option \<Rightarrow> artifact_ledger \<Rightarrow> artifact_ledger" where
  "supersede previous l =
     (case previous of
        None \<Rightarrow> l
      | Some p \<Rightarrow> l\<lparr>al_records := RBT.map_entry p (\<lambda>r. r\<lparr>ar_status := Superseded\<rparr>) (al_records l)\<rparr>)"

definition insert_record :: "artifact_record \<Rightarrow> artifact_ledger \<Rightarrow> artifact_ledger" where
  "insert_record r l =
     l\<lparr>al_current_path := RBT.insert (ar_project r, ar_path r) (ar_id r) (al_current_path l),
       al_records := RBT.insert (ar_id r) r (al_records l),
       al_by_project := multi_push (ar_project r) (ar_id r) (al_by_project l),
       al_by_run := multi_push (ar_run r) (ar_id r) (al_by_run l),
       al_by_role := multi_push (ar_role r) (ar_id r) (al_by_role l),
       al_next_artifact := saturating_add (artifact_raw (ar_id r)) 1\<rparr>"

definition apply_observed :: "artifact_id \<Rightarrow> project_id \<Rightarrow> run_id \<Rightarrow> role_id \<Rightarrow> artifact_kind \<Rightarrow> str \<Rightarrow> str \<Rightarrow> u64
    \<Rightarrow> artifact_ledger \<Rightarrow> artifact_ledger \<times> (artifact_error + unit)" where
  "apply_observed a project run role kind path digest sz l =
     (case validate_observation a project run role path digest sz of
        Some e \<Rightarrow> (l, Inl e)
      | None \<Rightarrow>
          (if mlookup (al_records l) a \<noteq> None then (l, Inl (DuplicateArtifact a))
           else if artifact_raw a < al_next_artifact l then (l, Inl (OldIdentity a))
           else
             (let previous = current_at project path l
              in case make_room previous l of
                   Inl e \<Rightarrow> (l, Inl e)
                 | Inr l1 \<Rightarrow>
                     (insert_record \<lparr>ar_id = a, ar_project = project, ar_run = run, ar_role = role,
                        ar_kind = kind, ar_path = path, ar_digest = digest, ar_size = sz,
                        ar_status = Available, ar_supersedes = previous\<rparr> (supersede previous l1), Inr ()))))"

fun al_apply :: "artifact_event \<Rightarrow> artifact_ledger \<Rightarrow> artifact_ledger \<times> (artifact_error + unit)" where
  "al_apply (Observed a project run role kind path digest sz) l =
     apply_observed a project run role kind path digest sz l"
| "al_apply (Refreshed a digest sz) l =
     (case validate_digest digest of
        Some e \<Rightarrow> (l, Inl e)
      | None \<Rightarrow>
          (if sz = 0 then (l, Inl ZeroSize)
           else
             (case mlookup (al_records l) a of
                None \<Rightarrow> (l, Inl (UnknownArtifact a))
              | Some r \<Rightarrow>
                  (if ar_status r = Superseded then (l, Inl SupersededArtifact)
                   else (l\<lparr>al_records := RBT.insert a
                          (r\<lparr>ar_digest := digest, ar_size := sz, ar_status := Available\<rparr>) (al_records l)\<rparr>,
                         Inr ())))))"
| "al_apply (MissingFile a) l =
     (case mlookup (al_records l) a of
        None \<Rightarrow> (l, Inl (UnknownArtifact a))
      | Some r \<Rightarrow>
          (if ar_status r = Superseded then (l, Inl SupersededArtifact)
           else (l\<lparr>al_records := RBT.insert a (r\<lparr>ar_status := AsMissing\<rparr>) (al_records l)\<rparr>, Inr ())))"

section \<open>The invariant\<close>

definition record_ok :: "artifact_ledger \<Rightarrow> artifact_id \<Rightarrow> artifact_record \<Rightarrow> bool" where
  "record_ok l i r \<longleftrightarrow> ar_id r = i \<and> artifact_raw i < al_next_artifact l
     \<and> validate_observation i (ar_project r) (ar_run r) (ar_role r) (ar_path r) (ar_digest r) (ar_size r) = None
     \<and> (\<forall>p. ar_supersedes r = Some p \<longrightarrow> p < i)"

definition index_ok :: "('k::linorder, artifact_id list) rbt \<Rightarrow> (artifact_record \<Rightarrow> 'k)
    \<Rightarrow> (artifact_id \<rightharpoonup> artifact_record) \<Rightarrow> bool" where
  "index_ok m key recs \<longleftrightarrow> (\<forall>k. sorted_wrt (<) (multi_get m k)
     \<and> (\<forall>i. i \<in> set (multi_get m k) \<longleftrightarrow> (\<exists>r. recs i = Some r \<and> key r = k)))"

definition current_ok :: "artifact_ledger \<Rightarrow> bool" where
  "current_ok l \<longleftrightarrow> (\<forall>p path i. current_at p path l = Some i
     \<longleftrightarrow> (\<exists>r. mlookup (al_records l) i = Some r \<and> ar_project r = p \<and> ar_path r = path \<and> ar_status r \<noteq> Superseded))"

definition al_inv :: "artifact_ledger \<Rightarrow> bool" where
  "al_inv l \<longleftrightarrow> (\<forall>i r. mlookup (al_records l) i = Some r \<longrightarrow> record_ok l i r)
     \<and> index_ok (al_by_project l) ar_project (mlookup (al_records l))
     \<and> index_ok (al_by_run l) ar_run (mlookup (al_records l))
     \<and> index_ok (al_by_role l) ar_role (mlookup (al_records l)) \<and> current_ok l
     \<and> mlen (al_records l) \<le> ARTIFACT_LEDGER_CAP"

lemma al_new_inv: "al_inv al_new"
  by (simp add: al_inv_def al_new_def index_ok_def current_ok_def current_at_def)

text \<open>A step that rewrites one retained record without moving it between owners.\<close>

lemma index_ok_cong:
  assumes "index_ok m key recs" and "recs i = Some r" and "key r' = key r"
  shows "index_ok m key (recs(i \<mapsto> r'))"
proof -
  have "(\<exists>x. (recs(i \<mapsto> r')) j = Some x \<and> key x = k) \<longleftrightarrow> (\<exists>x. recs j = Some x \<and> key x = k)" for j k
    using assms(2,3) by (cases "j = i") auto
  with assms(1) show ?thesis by (simp add: index_ok_def del: fun_upd_apply)
qed

lemma update_record_inv:
  assumes inv: "al_inv l" and r: "mlookup (al_records l) i = Some r"
    and same: "ar_id r' = i" "ar_project r' = ar_project r" "ar_run r' = ar_run r" "ar_role r' = ar_role r"
      "ar_path r' = ar_path r" "ar_supersedes r' = ar_supersedes r"
    and live: "ar_status r' \<noteq> Superseded" "ar_status r \<noteq> Superseded"
    and valid: "validate_observation i (ar_project r) (ar_run r) (ar_role r) (ar_path r) (ar_digest r') (ar_size r') = None"
  shows "al_inv (l\<lparr>al_records := RBT.insert i r' (al_records l)\<rparr>)"
proof -
  let ?l = "l\<lparr>al_records := RBT.insert i r' (al_records l)\<rparr>"
  have ex: "(\<exists>x. mlookup (al_records ?l) j = Some x \<and> P x) \<longleftrightarrow> (\<exists>x. mlookup (al_records l) j = Some x \<and> P x)"
    if "P r' \<longleftrightarrow> P r" for P j using that r by (cases "j = i") auto
  have rec: "record_ok l j x" if "mlookup (al_records l) j = Some x" for j x
    using inv that by (simp add: al_inv_def)
  have "record_ok ?l j x" if "mlookup (al_records ?l) j = Some x" for j x
    using that rec [of j] rec [OF r] valid same by (cases "j = i") (auto simp: record_ok_def)
  moreover have "index_ok (al_by_project ?l) ar_project (mlookup (al_records ?l))"
    "index_ok (al_by_run ?l) ar_run (mlookup (al_records ?l))"
    "index_ok (al_by_role ?l) ar_role (mlookup (al_records ?l))"
    using inv same r by (auto simp: al_inv_def intro!: index_ok_cong [where recs = "mlookup (al_records l)" and r = r])
  moreover have "current_ok ?l"
    unfolding current_ok_def
  proof (intro allI)
    fix p path j
    have "current_at p path ?l = current_at p path l" by (simp add: current_at_def)
    moreover have "current_at p path l = Some j \<longleftrightarrow> (\<exists>x. mlookup (al_records l) j = Some x
        \<and> (ar_project x = p \<and> ar_path x = path \<and> ar_status x \<noteq> Superseded))"
      using inv by (simp add: al_inv_def current_ok_def)
    ultimately show "current_at p path ?l = Some j \<longleftrightarrow> (\<exists>x. mlookup (al_records ?l) j = Some x
        \<and> ar_project x = p \<and> ar_path x = path \<and> ar_status x \<noteq> Superseded)"
      using ex [of "\<lambda>x. ar_project x = p \<and> ar_path x = path \<and> ar_status x \<noteq> Superseded" j] same live by simp
  qed
  moreover have "mlen (al_records ?l) \<le> ARTIFACT_LEDGER_CAP"
    using inv r by (simp add: al_inv_def mlen_insert)
  ultimately show ?thesis by (simp add: al_inv_def)
qed

lemma multi_get_remove_id:
  "multi_get (remove_id k i m) k' = (if k' = k then filter (\<lambda>x. x \<noteq> i) (multi_get m k) else multi_get m k')"
  by (auto simp: remove_id_def multi_get_def split: option.split)

lemma index_ok_remove:
  assumes "index_ok m key recs" and "recs i = Some r"
  shows "index_ok (remove_id (key r) i m) key (recs(i := None))"
  using assms unfolding index_ok_def by (auto simp: multi_get_remove_id intro: sorted_wrt_filter)

lemma index_ok_push:
  assumes ok: "index_ok m key recs" and new: "recs i = None" and top: "\<And>j r. recs j = Some r \<Longrightarrow> j < i"
  shows "index_ok (multi_push (key r) i m) key (recs(i \<mapsto> r))"
proof -
  have iff: "j \<in> set (multi_get m k) \<longleftrightarrow> (\<exists>r. recs j = Some r \<and> key r = k)" and srt: "sorted_wrt (<) (multi_get m k)" for j k
    using ok by (simp_all add: index_ok_def)
  have "sorted_wrt (<) (multi_get m k @ [i])" for k
    using srt top iff by (auto simp: sorted_wrt_append)
  then show ?thesis
    unfolding index_ok_def multi_get_push using srt iff new by (auto simp: fun_upd_def)
qed

lemma remove_from_projection_inv:
  assumes inv: "al_inv l"
  shows "al_inv (remove_from_projection i l)"
proof (cases "mlookup (al_records l) i")
  case None
  with inv show ?thesis by (simp add: remove_from_projection_def)
next
  case (Some r)
  let ?l = "remove_from_projection i l"
  have rec: "mlookup (al_records ?l) = (mlookup (al_records l))(i := None)"
    using Some by (simp add: remove_from_projection_def)
  have "index_ok (al_by_project ?l) ar_project (mlookup (al_records ?l))"
    "index_ok (al_by_run ?l) ar_run (mlookup (al_records ?l))"
    "index_ok (al_by_role ?l) ar_role (mlookup (al_records ?l))"
    unfolding rec
    using inv Some index_ok_remove [of "al_by_project l" ar_project "mlookup (al_records l)" i r]
      index_ok_remove [of "al_by_run l" ar_run "mlookup (al_records l)" i r]
      index_ok_remove [of "al_by_role l" ar_role "mlookup (al_records l)" i r]
    by (simp_all add: al_inv_def remove_from_projection_def)
  moreover have "current_ok ?l"
    unfolding current_ok_def
  proof (intro allI)
    fix p path j
    have iff: "current_at p' path' l = Some j' \<longleftrightarrow> (\<exists>x. mlookup (al_records l) j' = Some x
        \<and> ar_project x = p' \<and> ar_path x = path' \<and> ar_status x \<noteq> Superseded)" for p' path' j'
      using inv by (simp add: al_inv_def current_ok_def)
    have cur: "current_at p path ?l = (if p = ar_project r \<and> path = ar_path r \<and> current_at p path l = Some i
        then None else current_at p path l)" for p path
      using Some by (auto simp: remove_from_projection_def current_at_def)
    show "current_at p path ?l = Some j \<longleftrightarrow> (\<exists>x. mlookup (al_records ?l) j = Some x
        \<and> ar_project x = p \<and> ar_path x = path \<and> ar_status x \<noteq> Superseded)"
    proof (cases "j = i")
      case True
      have "current_at p path ?l \<noteq> Some i"
      proof (cases "current_at p path l = Some i")
        case True
        then have "p = ar_project r \<and> path = ar_path r" using iff [of p path i] Some by simp
        with True show ?thesis by (simp add: cur)
      next
        case False
        then show ?thesis by (simp only: cur simp_thms if_False)
      qed
      with True show ?thesis by (simp add: rec)
    next
      case False
      with iff [of p path j] show ?thesis by (auto simp: cur rec)
    qed
  qed
  moreover have "record_ok ?l j x" if "mlookup (al_records ?l) j = Some x" for j x
  proof -
    have "mlookup (al_records l) j = Some x" using that by (auto simp: rec split: if_splits)
    with inv have "record_ok l j x" by (simp add: al_inv_def)
    moreover have "al_next_artifact ?l = al_next_artifact l" using Some by (simp add: remove_from_projection_def)
    ultimately show ?thesis by (simp add: record_ok_def)
  qed
  moreover have "mlen (al_records ?l) \<le> ARTIFACT_LEDGER_CAP"
    using inv Some by (auto simp: al_inv_def remove_from_projection_def mlen_delete)
  ultimately show ?thesis by (simp add: al_inv_def)
qed

subsection \<open>Observation\<close>

lemma current_present:
  "al_inv l \<Longrightarrow> current_at p path l = Some i \<Longrightarrow> \<exists>r. mlookup (al_records l) i = Some r
     \<and> ar_project r = p \<and> ar_path r = path \<and> ar_status r \<noteq> Superseded"
  by (simp add: al_inv_def current_ok_def)

lemma make_room_effect:
  assumes inv: "al_inv l" and ok: "make_room (current_at p path l) l = Inr l1"
  shows "al_inv l1" and "mlen (al_records l1) < ARTIFACT_LEDGER_CAP"
    and "al_next_artifact l1 = al_next_artifact l"
    and "\<And>i. mlookup (al_records l) i = None \<Longrightarrow> mlookup (al_records l1) i = None"
    and "current_at p path l1 = current_at p path l
       \<or> current_at p path l1 = None \<and> (\<forall>i. current_at p path l = Some i \<longrightarrow> mlookup (al_records l1) i = None)"
proof -
  consider (keep) "l1 = l" "mlen (al_records l) < ARTIFACT_LEDGER_CAP"
    | (evict) i where "l1 = remove_from_projection i l" "mlookup (al_records l) i \<noteq> None"
      "mlen (al_records l) \<ge> ARTIFACT_LEDGER_CAP"
  proof (cases "mlen (al_records l) < ARTIFACT_LEDGER_CAP")
    case True
    with ok show ?thesis by (intro keep) (simp_all add: make_room_def)
  next
    case False
    have cp: "current_at p path l = Some i \<Longrightarrow> mlookup (al_records l) i \<noteq> None" for i
      using current_present [OF inv] by fastforce
    have fu: "first_unavailable l = Some i \<Longrightarrow> mlookup (al_records l) i \<noteq> None" for i
      by (auto simp: first_unavailable_def dest!: find_entry)
    from False ok obtain i where "l1 = remove_from_projection i l" "mlookup (al_records l) i \<noteq> None"
      using cp fu by (auto simp: make_room_def split: option.splits)
    with False show ?thesis by (intro evict) simp_all
  qed
  then have "al_inv l1 \<and> mlen (al_records l1) < ARTIFACT_LEDGER_CAP
       \<and> al_next_artifact l1 = al_next_artifact l
       \<and> (\<forall>i. mlookup (al_records l) i = None \<longrightarrow> mlookup (al_records l1) i = None)
       \<and> (current_at p path l1 = current_at p path l
         \<or> current_at p path l1 = None \<and> (\<forall>i. current_at p path l = Some i \<longrightarrow> mlookup (al_records l1) i = None))"
  proof cases
    case keep
    with inv show ?thesis by simp
  next
    case (evict i)
    then obtain r where r: "mlookup (al_records l) i = Some r" by blast
    have "mlen (al_records l1) < ARTIFACT_LEDGER_CAP"
      using inv evict r by (simp add: al_inv_def remove_from_projection_def mlen_delete ARTIFACT_LEDGER_CAP_def)
    moreover have "current_at p path l1 = current_at p path l
       \<or> current_at p path l1 = None \<and> (\<forall>j. current_at p path l = Some j \<longrightarrow> mlookup (al_records l1) j = None)"
      using evict r by (auto simp: remove_from_projection_def current_at_def)
    ultimately show ?thesis
      using remove_from_projection_inv [OF inv, of i] evict r by (simp add: remove_from_projection_def)
  qed
  then show "al_inv l1" and "mlen (al_records l1) < ARTIFACT_LEDGER_CAP"
    and "al_next_artifact l1 = al_next_artifact l"
    and "\<And>i. mlookup (al_records l) i = None \<Longrightarrow> mlookup (al_records l1) i = None"
    and "current_at p path l1 = current_at p path l
       \<or> current_at p path l1 = None \<and> (\<forall>i. current_at p path l = Some i \<longrightarrow> mlookup (al_records l1) i = None)"
    by blast+
qed

text \<open>The record tables after the previous record of the path was superseded.\<close>

lemma supersede_effect:
  assumes inv: "al_inv l"
  shows "mlookup (al_records (supersede prev l)) i
      = (if prev = Some i then map_option (\<lambda>r. r\<lparr>ar_status := Superseded\<rparr>) (mlookup (al_records l) i)
         else mlookup (al_records l) i)"
    and "index_ok (al_by_project (supersede prev l)) ar_project (mlookup (al_records (supersede prev l)))"
    and "index_ok (al_by_run (supersede prev l)) ar_run (mlookup (al_records (supersede prev l)))"
    and "index_ok (al_by_role (supersede prev l)) ar_role (mlookup (al_records (supersede prev l)))"
proof -
  show rec: "mlookup (al_records (supersede prev l)) i
      = (if prev = Some i then map_option (\<lambda>r. r\<lparr>ar_status := Superseded\<rparr>) (mlookup (al_records l) i)
         else mlookup (al_records l) i)" for i
    by (simp add: supersede_def split: option.split)
  have same: "al_by_project (supersede prev l) = al_by_project l" "al_by_run (supersede prev l) = al_by_run l"
    "al_by_role (supersede prev l) = al_by_role l"
    by (simp_all add: supersede_def split: option.split)
  have idx: "index_ok m key (mlookup (al_records (supersede prev l)))"
    if "index_ok m key (mlookup (al_records l))" and "\<And>r. key (r\<lparr>ar_status := Superseded\<rparr>) = key r" for m key
  proof -
    have "(\<exists>x. mlookup (al_records (supersede prev l)) j = Some x \<and> key x = k)
        \<longleftrightarrow> (\<exists>x. mlookup (al_records l) j = Some x \<and> key x = k)" for j k
      using that(2) by (auto simp: rec)
    with that(1) show ?thesis by (simp add: index_ok_def)
  qed
  show "index_ok (al_by_project (supersede prev l)) ar_project (mlookup (al_records (supersede prev l)))"
    "index_ok (al_by_run (supersede prev l)) ar_run (mlookup (al_records (supersede prev l)))"
    "index_ok (al_by_role (supersede prev l)) ar_role (mlookup (al_records (supersede prev l)))"
    using inv idx [of "al_by_project l" ar_project] idx [of "al_by_run l" ar_run] idx [of "al_by_role l" ar_role] same
    by (simp_all add: al_inv_def)
qed

lemma insert_current_ok:
  assumes inv: "al_inv l" and new: "mlookup (al_records l) (ar_id r) = None" and st: "ar_status r = Available"
    and prev: "current_at (ar_project r) (ar_path r) l = prev
      \<or> current_at (ar_project r) (ar_path r) l = None \<and> (\<forall>i. prev = Some i \<longrightarrow> mlookup (al_records l) i = None)"
  shows "current_ok (insert_record r (supersede prev l))"
  unfolding current_ok_def
proof (intro allI)
  let ?l = "insert_record r (supersede prev l)"
  fix p path j
  have iff: "current_at p' path' l = Some j' \<longleftrightarrow> (\<exists>x. mlookup (al_records l) j' = Some x
      \<and> ar_project x = p' \<and> ar_path x = path' \<and> ar_status x \<noteq> Superseded)" for p' path' j'
    using inv by (simp add: al_inv_def current_ok_def)
  have cur: "current_at p path ?l = (if p = ar_project r \<and> path = ar_path r then Some (ar_id r) else current_at p path l)" for p path
    by (auto simp: insert_record_def current_at_def supersede_def split: option.split)
  have rec: "mlookup (al_records ?l) j = (if j = ar_id r then Some r
      else if prev = Some j then map_option (\<lambda>r. r\<lparr>ar_status := Superseded\<rparr>) (mlookup (al_records l) j)
      else mlookup (al_records l) j)" for j
    by (simp add: insert_record_def supersede_effect(1) [OF inv])
  show "current_at p path ?l = Some j \<longleftrightarrow> (\<exists>x. mlookup (al_records ?l) j = Some x
      \<and> ar_project x = p \<and> ar_path x = path \<and> ar_status x \<noteq> Superseded)"
  proof (cases "j = ar_id r")
    case True
    have "current_at p path l \<noteq> Some (ar_id r)" using iff [of p path "ar_id r"] new by simp
    with True st show ?thesis by (auto simp: cur rec)
  next
    case False
    show ?thesis
    proof (cases "p = ar_project r \<and> path = ar_path r")
      case True
      have "\<not> (\<exists>x. mlookup (al_records ?l) j = Some x \<and> ar_project x = p \<and> ar_path x = path \<and> ar_status x \<noteq> Superseded)"
        using False True prev iff [of p path j] by (auto simp: rec)
      with False True show ?thesis by (auto simp: cur)
    next
      case other: False
      have "prev \<noteq> Some j" if "current_at p path l = Some j"
        using that prev other iff [of p path j] iff [of "ar_project r" "ar_path r" j] by auto
      with False other iff [of p path j] prev iff [of "ar_project r" "ar_path r" j] show ?thesis
        by (auto simp: cur rec)
    qed
  qed
qed

lemma insert_record_inv:
  assumes inv: "al_inv l" and room: "mlen (al_records l) < ARTIFACT_LEDGER_CAP"
    and new: "al_next_artifact l \<le> artifact_raw (ar_id r)" and st: "ar_status r = Available"
    and valid: "validate_observation (ar_id r) (ar_project r) (ar_run r) (ar_role r) (ar_path r) (ar_digest r) (ar_size r) = None"
    and sup: "ar_supersedes r = prev" "\<And>p. prev = Some p \<Longrightarrow> p < ar_id r"
    and prev: "current_at (ar_project r) (ar_path r) l = prev
      \<or> current_at (ar_project r) (ar_path r) l = None \<and> (\<forall>i. prev = Some i \<longrightarrow> mlookup (al_records l) i = None)"
  shows "al_inv (insert_record r (supersede prev l))"
proof -
  let ?s = "supersede prev l"
  let ?l = "insert_record r ?s"
  note eff = supersede_effect [OF inv, of prev]
  have rec: "record_ok l j x" if "mlookup (al_records l) j = Some x" for j x using inv that by (simp add: al_inv_def)
  have top: "j < ar_id r" if "mlookup (al_records ?s) j = Some x" for j x
  proof -
    have "\<exists>y. mlookup (al_records l) j = Some y" using that by (auto simp: eff(1) split: if_splits)
    then have "artifact_raw j < al_next_artifact l" using rec by (auto simp: record_ok_def)
    with new show ?thesis by (simp add: less_artifact_id_def)
  qed
  have fresh: "mlookup (al_records ?s) (ar_id r) = None" using top by fastforce
  then have fresh_l: "mlookup (al_records l) (ar_id r) = None" by (auto simp: eff(1) split: if_splits)
  have nx: "artifact_raw (ar_id r) < al_next_artifact ?l"
    using valid word_less_succ [of "artifact_raw (ar_id r)"]
    by (auto simp: insert_record_def saturating_add_one validate_observation_def split: if_splits)
  have "record_ok ?l j x" if "mlookup (al_records ?l) j = Some x" for j x
  proof (cases "j = ar_id r")
    case True
    with that have "x = r" by (simp add: insert_record_def)
    with True nx valid sup show ?thesis by (simp add: record_ok_def)
  next
    case False
    with that have s: "mlookup (al_records ?s) j = Some x" by (simp add: insert_record_def)
    then obtain y where y: "mlookup (al_records l) j = Some y" and x: "x = y \<or> x = y\<lparr>ar_status := Superseded\<rparr>"
      by (auto simp: eff(1) split: if_splits)
    have "artifact_raw j < al_next_artifact ?l" using top [OF s] nx by (simp add: less_artifact_id_def)
    with rec [OF y] x show ?thesis by (auto simp: record_ok_def)
  qed
  moreover have "index_ok (al_by_project ?l) ar_project (mlookup (al_records ?l))"
    "index_ok (al_by_run ?l) ar_run (mlookup (al_records ?l))" "index_ok (al_by_role ?l) ar_role (mlookup (al_records ?l))"
    using index_ok_push [OF eff(2) fresh top, where r = r] index_ok_push [OF eff(3) fresh top, where r = r]
      index_ok_push [OF eff(4) fresh top, where r = r] by (simp_all add: insert_record_def)
  moreover have "current_ok ?l" by (rule insert_current_ok [OF inv fresh_l st prev])
  moreover have "mlen (al_records ?l) \<le> ARTIFACT_LEDGER_CAP"
  proof -
    have "dom (mlookup (al_records ?s)) = dom (mlookup (al_records l))"
      by (auto simp: eff(1) dom_def split: if_splits)
    then have "mlen (al_records ?s) = mlen (al_records l)" by (simp add: mlen_card)
    with room fresh show ?thesis by (simp add: insert_record_def mlen_insert)
  qed
  ultimately show ?thesis by (simp add: al_inv_def)
qed

lemma apply_observed_inv:
  assumes inv: "al_inv l"
  shows "al_inv (fst (apply_observed a project run role kind path digest sz l))"
proof (cases "snd (apply_observed a project run role kind path digest sz l)")
  case (Inl e)
  then have "fst (apply_observed a project run role kind path digest sz l) = l"
    by (auto simp: apply_observed_def Let_def split: option.splits if_splits sum.splits)
  with inv show ?thesis by simp
next
  case (Inr u)
  let ?prev = "current_at project path l"
  from Inr obtain l1 where v: "validate_observation a project run role path digest sz = None"
    and old: "\<not> artifact_raw a < al_next_artifact l" and l1: "make_room ?prev l = Inr l1"
    and res: "fst (apply_observed a project run role kind path digest sz l)
      = insert_record \<lparr>ar_id = a, ar_project = project, ar_run = run, ar_role = role, ar_kind = kind,
          ar_path = path, ar_digest = digest, ar_size = sz, ar_status = Available, ar_supersedes = ?prev\<rparr>
          (supersede ?prev l1)"
    by (auto simp: apply_observed_def Let_def split: option.splits if_splits sum.splits)
  note m = make_room_effect [OF inv l1]
  have "p < a" if "?prev = Some p" for p
  proof -
    have "\<exists>r. mlookup (al_records l) p = Some r" using current_present [OF inv that] by blast
    then obtain r where "mlookup (al_records l) p = Some r" by blast
    with inv have "artifact_raw p < al_next_artifact l" by (simp add: al_inv_def record_ok_def)
    with old show ?thesis by (simp add: less_artifact_id_def)
  qed
  with m v old show ?thesis unfolding res by (intro insert_record_inv) auto
qed

lemma validate_refreshed:
  assumes "validate_observation i p r ro path d z = None" and "validate_digest d' = None" and "z' \<noteq> 0"
  shows "validate_observation i p r ro path d' z' = None"
  using assms by (auto simp: validate_observation_def split: if_splits option.splits)

lemma al_apply_inv: "al_inv l \<Longrightarrow> al_inv (fst (al_apply e l))"
proof (cases e)
  case (Observed a project run role kind path digest sz)
  assume "al_inv l"
  with Observed show ?thesis by (simp add: apply_observed_inv)
next
  case (Refreshed a digest sz)
  assume inv: "al_inv l"
  show ?thesis
  proof (cases "snd (al_apply e l)")
    case (Inl err)
    with Refreshed inv show ?thesis by (auto split: option.splits if_splits)
  next
    case (Inr u)
    with Refreshed obtain r where r: "mlookup (al_records l) a = Some r" "ar_status r \<noteq> Superseded"
      and d: "validate_digest digest = None" "sz \<noteq> 0" by (auto split: option.splits if_splits)
    have "record_ok l a r" using inv r(1) by (simp add: al_inv_def)
    then have "al_inv (l\<lparr>al_records := RBT.insert a (r\<lparr>ar_digest := digest, ar_size := sz, ar_status := Available\<rparr>) (al_records l)\<rparr>)"
      using validate_refreshed [OF _ d] by (intro update_record_inv [OF inv r(1)]) (auto simp: record_ok_def r(2))
    with r d Refreshed show ?thesis by simp
  qed
next
  case (MissingFile a)
  assume inv: "al_inv l"
  show ?thesis
  proof (cases "\<exists>r. mlookup (al_records l) a = Some r \<and> ar_status r \<noteq> Superseded")
    case False
    with MissingFile inv show ?thesis by (auto split: option.split)
  next
    case True
    then obtain r where r: "mlookup (al_records l) a = Some r" "ar_status r \<noteq> Superseded" by blast
    have "record_ok l a r" using inv r(1) by (simp add: al_inv_def)
    then have "al_inv (l\<lparr>al_records := RBT.insert a (r\<lparr>ar_status := AsMissing\<rparr>) (al_records l)\<rparr>)"
      by (intro update_record_inv [OF inv r(1)]) (auto simp: record_ok_def r(2))
    with r MissingFile show ?thesis by simp
  qed
qed

lemma al_apply_atomic: "snd (al_apply e l) = Inl err \<Longrightarrow> fst (al_apply e l) = l"
  by (cases e) (auto simp: apply_observed_def Let_def split: option.splits if_splits sum.splits)

interpretation al: atomic_reducer al_new al_apply al_inv
  by unfold_locales (auto intro: al_new_inv al_apply_inv al_apply_atomic)

section \<open>Properties\<close>

definition al_replay :: "artifact_event list \<Rightarrow> artifact_ledger \<Rightarrow> artifact_ledger" where
  "al_replay es l = fold (\<lambda>e l. fst (al_apply e l)) es l"

definition al_accepted :: "artifact_event list \<Rightarrow> artifact_ledger \<Rightarrow> artifact_event list" where
  "al_accepted es l = al.accepted es l"

lemma al_replay_eq: "al_replay es l = al.replay es l"
  by (induction es arbitrary: l) (simp_all add: al_replay_def)

text \<open>
  C23. The artifact ledger is exact and bounded. Whatever events are applied, valid or not, the
  project, run and role indexes list exactly the retained records of their owner in
  increasing identity, each Project path resolves to its one record that is not superseded,
  every record carries validated facts (normalized relative path, SHA-256 digest, nonzero
  size and owners) and only older records are superseded, and at most 4096 are retained.
\<close>

theorem artifact_ledger_exact: "al_inv (al_replay es al_new)"
  unfolding al_replay_eq by (rule al.replay_init_inv)

text \<open>
  Recovery of the ledger. A rejected event changes nothing, so replaying the accepted
  events alone rebuilds the same ledger, with no rejection on the way.
\<close>

theorem artifact_recovery:
  "al_replay (al_accepted es al_new) al_new = al_replay es al_new
   \<and> al_accepted (al_accepted es al_new) al_new = al_accepted es al_new"
  by (simp add: al_replay_eq al_accepted_def al.replay_accepted al.accepted_accepted)

lemma observed_current:
  assumes "snd (apply_observed a project run role kind path digest sz l) = Inr u"
  shows "current_at project path (fst (apply_observed a project run role kind path digest sz l)) = Some a"
    and "\<exists>r. mlookup (al_records (fst (apply_observed a project run role kind path digest sz l))) a = Some r
       \<and> ar_status r = Available \<and> ar_supersedes r = current_at project path l \<and> ar_role r = role"
  using assms
  by (auto simp: apply_observed_def Let_def insert_record_def current_at_def
      split: option.splits if_splits sum.splits)

text \<open>
  A new observation takes over its path. When an observation at a Project path is
  accepted, that path resolves to the new record, which names the record it replaced, and
  the replaced record, if it is still retained, is superseded.
\<close>

theorem observation_supersedes:
  assumes "l = al_replay es al_new"
    and "al_apply (Observed a project run role kind path digest sz) l = (l', Inr ())"
    and "current_at project path l = Some old" and "mlookup (al_records l') old = Some r"
  shows "current_at project path l' = Some a \<and> old \<noteq> a \<and> ar_status r = Superseded
     \<and> (\<exists>n. mlookup (al_records l') a = Some n \<and> ar_supersedes n = Some old \<and> ar_status n = Available)"
proof -
  have inv: "al_inv l" using assms(1) al.replay_init_inv by (simp add: al_replay_eq)
  have ap: "apply_observed a project run role kind path digest sz l = (l', Inr ())" using assms(2) by simp
  then have cur: "current_at project path l' = Some a"
    and n: "\<exists>n. mlookup (al_records l') a = Some n \<and> ar_status n = Available \<and> ar_supersedes n = Some old"
    using observed_current [of a project run role kind path digest sz l "()"] assms(3) by auto
  have "mlookup (al_records l) a = None"
    using ap by (auto simp: apply_observed_def Let_def split: option.splits if_splits sum.splits)
  then have "old \<noteq> a" using current_present [OF inv assms(3)] by auto
  moreover from ap assms(3,4) this have "ar_status r = Superseded"
    by (auto simp: apply_observed_def Let_def insert_record_def supersede_def
        split: option.splits if_splits sum.splits)
  ultimately show ?thesis using cur n by blast
qed

definition demo_digest :: str where
  "demo_digest = replicate 64 97"

definition demo_observed :: "u64 \<Rightarrow> artifact_event" where
  "demo_observed k = Observed (ArtifactId k) (ProjectId 1) (RunId 1) (RoleId 1) AkPlan (lit ''docs/p.md'') demo_digest 9"

theorem observation_supersedes_witness:
  "current_at (ProjectId 1) (lit ''docs/p.md'')
     (fst (al_apply (demo_observed 2) (al_replay [demo_observed 1] al_new))) = Some (ArtifactId 2)"
proof -
  let ?l = "al_replay [demo_observed 1] al_new"
  let ?l' = "fst (al_apply (demo_observed 2) ?l)"
  have "snd (al_apply (demo_observed 2) ?l) = Inr ()" by code_simp
  then have a: "al_apply (demo_observed 2) ?l = (?l', Inr ())" by (metis prod.collapse)
  have c: "current_at (ProjectId 1) (lit ''docs/p.md'') ?l = Some (ArtifactId 1)" by code_simp
  have "mlookup (al_records ?l') (ArtifactId 1) = Some (the (mlookup (al_records ?l') (ArtifactId 1)))" by code_simp
  from observation_supersedes [OF refl a [unfolded demo_observed_def [of 2]] c
      this [unfolded demo_observed_def [of 2]]]
  show ?thesis unfolding demo_observed_def [of 2] by blast
qed

end
