(* ===== verification/Inbox.thy ===== *)
theory Inbox
  imports Interfaces
begin

text \<open>
  The bounded Project inbox of \<^verbatim>\<open>crates/uniterm-core/src/inbox.rs\<close>: the \<open>Board\<close> with its
  event journal and projection, the recording of events, expiry, the release of a closed
  pane's work, structural deletion, pagination and the authorised operations. Times are
  64-bit words, as in the source; the event counter and the ids and revisions drawn from it
  are natural numbers, since they advance by one per event and never come near \<open>2\<^sup>6\<^sup>4\<close>.
\<close>

section \<open>Vocabulary\<close>

definition BODY_LIMIT :: nat where "BODY_LIMIT = 8192"
definition PROJECT_LIMIT :: nat where "PROJECT_LIMIT = 1000"
definition BYTE_LIMIT :: nat where "BYTE_LIMIT = 8 * 1024 * 1024"
definition TTL_MS :: u64 where "TTL_MS = 24 * 60 * 60 * 1000"

datatype author = Human | AgentAuthor pane_id u64

fun author_key :: "author \<Rightarrow> nat \<times> nat" where
  "author_key Human = (0, 0)"
| "author_key (AgentAuthor p i) = (Suc (unat (pane_raw p)), unat i)"

lemma author_key_inj: "author_key a = author_key b \<Longrightarrow> a = b"
  by (cases a; cases b) (auto simp: pane_id.expand word_unat_eq_iff)

instantiation author :: linorder
begin

definition less_eq_author :: "author \<Rightarrow> author \<Rightarrow> bool" where
  "less_eq_author a b \<longleftrightarrow> fst (author_key a) < fst (author_key b)
     \<or> fst (author_key a) = fst (author_key b) \<and> snd (author_key a) \<le> snd (author_key b)"

definition less_author :: "author \<Rightarrow> author \<Rightarrow> bool" where
  "less_author a b \<longleftrightarrow> a \<le> b \<and> \<not> b \<le> (a::author)"

instance
proof
  fix x y :: author
  assume "x \<le> y" and "y \<le> x"
  then have "author_key x = author_key y" by (auto simp: less_eq_author_def prod_eq_iff)
  then show "x = y" by (rule author_key_inj)
qed (auto simp: less_eq_author_def less_author_def)

end

datatype post_kind =
  Plan | Proposal | Critique | Feedback | QuestionPost | Answer | Finding | Request | Handoff | Decision | BlockedPost

record message =
  m_id :: nat
  m_project :: project_id
  m_author :: author
  m_kind :: post_kind
  m_body :: str
  m_reply_to :: "nat option"
  m_thread :: nat
  m_to :: "author option"
  m_task :: "u64 option"
  m_key :: str
  m_created_ms :: u64
  m_expires_ms :: u64
  m_ttl_ms :: u64

record inbox_claim =
  cl_owner :: author
  cl_revision :: nat
  cl_expires_ms :: u64

record inbox_entry =
  e_message :: message
  e_revision :: nat
  e_changed :: nat
  e_acknowledged :: "author bset"
  e_claim :: "inbox_claim option"

datatype inbox_event =
    PostEv message
  | AckEv nat author
  | ClaimEv nat "inbox_claim option"
  | RemoveEv nat
  | PauseEv project_id bool
  | RevokeEv author
  | GrantEv author

datatype inbox_operation =
    Discover
  | Credential
  | ListOp nat "nat option" nat
  | Watch nat u64
  | Post post_kind str "nat option" "author option" "u64 option" str u64
  | Ack nat
  | ClaimOp nat nat u64
  | Release nat nat
  | Pause bool
  | Clear bool
  | Revoke author

datatype inbox_error =
    Revoked | PausedErr | InvalidPost | IdempotencyConflict | Capacity | RateLimited | NotFound
  | ThreadBudget | ClaimThreadRoot | RevisionConflict | AlreadyClaimed | TaskAlreadyClaimed
  | InvalidLease | NotOwner | InvalidRecipient | Forbidden | CursorExpired

record inbox_page =
  pg_entries :: "inbox_entry list"
  pg_cursor :: nat
  pg_floor :: nat
  pg_more :: bool
  pg_paused :: bool

record board =
  bd_journal :: "(nat \<times> inbox_event) list"
  bd_entries :: "(nat, inbox_entry) rbt"
  bd_projects :: "(project_id, nat bset) rbt"
  bd_paused :: "project_id bset"
  bd_revoked :: "author bset"
  bd_sequence :: nat
  bd_floor :: nat
  bd_bytes :: nat
  bd_changed :: "(project_id, nat) rbt"
  bd_rates :: "(author, u64 list) rbt"

definition board_default :: board where
  "board_default = \<lparr>bd_journal = [], bd_entries = RBT.empty, bd_projects = RBT.empty,
     bd_paused = RBT.empty, bd_revoked = RBT.empty, bd_sequence = 0, bd_floor = 0, bd_bytes = 0,
     bd_changed = RBT.empty, bd_rates = RBT.empty\<rparr>"

section \<open>Recording\<close>

definition event_project :: "inbox_event \<Rightarrow> board \<Rightarrow> project_id option" where
  "event_project ev b =
     (case ev of
        PostEv m \<Rightarrow> Some (m_project m)
      | AckEv i _ \<Rightarrow> map_option (\<lambda>e. m_project (e_message e)) (mlookup (bd_entries b) i)
      | ClaimEv i _ \<Rightarrow> map_option (\<lambda>e. m_project (e_message e)) (mlookup (bd_entries b) i)
      | RemoveEv i \<Rightarrow> map_option (\<lambda>e. m_project (e_message e)) (mlookup (bd_entries b) i)
      | PauseEv p _ \<Rightarrow> Some p
      | _ \<Rightarrow> None)"

definition project_ids :: "project_id \<Rightarrow> board \<Rightarrow> nat list" where
  "project_ids p b = (case mlookup (bd_projects b) p of None \<Rightarrow> [] | Some s \<Rightarrow> bset_elems s)"

definition project_set :: "project_id \<Rightarrow> board \<Rightarrow> nat bset" where
  "project_set p b = (case mlookup (bd_projects b) p of None \<Rightarrow> RBT.empty | Some s \<Rightarrow> s)"

definition is_post_of :: "nat \<Rightarrow> inbox_event \<Rightarrow> bool" where
  "is_post_of i ev = (case ev of PostEv m \<Rightarrow> m_id m = i | _ \<Rightarrow> False)"

definition project_event :: "inbox_event \<Rightarrow> board \<Rightarrow> board" where
  "project_event ev b =
     (case ev of
        PostEv m \<Rightarrow>
          b\<lparr>bd_rates := multi_push (m_author m) (m_created_ms m) (bd_rates b),
            bd_bytes := bd_bytes b + str_len (m_body m) * 2,
            bd_projects := RBT.insert (m_project m) (bset_insert (m_id m) (project_set (m_project m) b)) (bd_projects b),
            bd_entries := RBT.insert (m_id m)
              \<lparr>e_message = m, e_revision = 0, e_changed = bd_sequence b, e_acknowledged = RBT.empty,
               e_claim = None\<rparr> (bd_entries b)\<rparr>
      | AckEv i a \<Rightarrow>
          (case mlookup (bd_entries b) i of
             None \<Rightarrow> b
           | Some e \<Rightarrow> b\<lparr>bd_entries := RBT.insert i
               (e\<lparr>e_acknowledged := bset_insert a (e_acknowledged e), e_changed := bd_sequence b\<rparr>) (bd_entries b)\<rparr>)
      | ClaimEv i c \<Rightarrow>
          (case mlookup (bd_entries b) i of
             None \<Rightarrow> b
           | Some e \<Rightarrow> b\<lparr>bd_entries := RBT.insert i
               (e\<lparr>e_revision := e_revision e + 1, e_changed := bd_sequence b, e_claim := c\<rparr>) (bd_entries b)\<rparr>)
      | RemoveEv i \<Rightarrow>
          (case mlookup (bd_entries b) i of
             None \<Rightarrow> b
           | Some e \<Rightarrow>
               (let p = m_project (e_message e)
                in b\<lparr>bd_entries := RBT.delete i (bd_entries b),
                     bd_bytes := bd_bytes b - str_len (m_body (e_message e)) * 2,
                     bd_projects :=
                       (case mlookup (bd_projects b) p of
                          None \<Rightarrow> bd_projects b
                        | Some ids \<Rightarrow>
                            (let ids1 = RBT.delete i ids
                             in if RBT.is_empty ids1 then RBT.delete p (bd_projects b)
                                else RBT.insert p ids1 (bd_projects b))),
                     bd_journal := filter (\<lambda>(_, ev). \<not> is_post_of i ev) (bd_journal b),
                     bd_floor := bd_sequence b\<rparr>))
      | PauseEv p paused \<Rightarrow>
          b\<lparr>bd_paused := (if paused then bset_insert p (bd_paused b) else RBT.delete p (bd_paused b))\<rparr>
      | GrantEv _ \<Rightarrow> b
      | RevokeEv a \<Rightarrow> b\<lparr>bd_revoked := bset_insert a (bd_revoked b)\<rparr>)"

text \<open>The trimming loop: the front of the journal is dropped while more than 4096 are kept.\<close>

fun trim_journal :: "nat \<Rightarrow> (nat \<times> inbox_event) list \<Rightarrow> nat \<times> (nat \<times> inbox_event) list" where
  "trim_journal floor [] = (floor, [])"
| "trim_journal floor (x # xs) =
     (if length (x # xs) > 4096 then trim_journal (max floor (fst x)) xs else (floor, x # xs))"

definition board_record :: "inbox_event \<Rightarrow> board \<Rightarrow> board" where
  "board_record ev b0 =
     (let b1 = b0\<lparr>bd_sequence := bd_sequence b0 + 1\<rparr>;
          b2 = (case event_project ev b1 of
                  None \<Rightarrow> b1
                | Some p \<Rightarrow> b1\<lparr>bd_changed := RBT.insert p (bd_sequence b1) (bd_changed b1)\<rparr>);
          b3 = b2\<lparr>bd_journal := bd_journal b2 @ [(bd_sequence b2, ev)]\<rparr>;
          b4 = project_event ev b3;
          (floor, journal) = trim_journal (bd_floor b4) (bd_journal b4)
      in b4\<lparr>bd_floor := floor, bd_journal := journal\<rparr>)"

definition remove_all :: "nat list \<Rightarrow> board \<Rightarrow> board" where
  "remove_all is b = fold (\<lambda>i. board_record (RemoveEv i)) is b"

definition release_all :: "nat list \<Rightarrow> board \<Rightarrow> board" where
  "release_all is b = fold (\<lambda>i. board_record (ClaimEv i None)) is b"

definition ids_where :: "(inbox_entry \<Rightarrow> bool) \<Rightarrow> board \<Rightarrow> nat list" where
  "ids_where P b = map (\<lambda>e. m_id (e_message e)) (filter P (mvalues (bd_entries b)))"

definition board_changed :: "project_id \<Rightarrow> board \<Rightarrow> nat" where
  "board_changed p b = (case mlookup (bd_changed b) p of None \<Rightarrow> 0 | Some n \<Rightarrow> n)"

definition retain_one :: "project_id \<Rightarrow> board \<Rightarrow> board" where
  "retain_one p b =
     (let b1 = remove_all (project_ids p b) b
      in b1\<lparr>bd_changed := RBT.delete p (bd_changed b1), bd_paused := RBT.delete p (bd_paused b1)\<rparr>)"

definition retain_projects :: "project_id bset \<Rightarrow> board \<Rightarrow> board" where
  "retain_projects live b =
     fold retain_one (filter (\<lambda>p. \<not> bset_mem p live) (map fst (RBT.entries (bd_changed b)))) b"

definition deadlines :: "inbox_entry \<Rightarrow> u64 list" where
  "deadlines e = m_expires_ms (e_message e) # (case e_claim e of None \<Rightarrow> [] | Some c \<Rightarrow> [cl_expires_ms c])"

definition deadline :: "board \<Rightarrow> u64 option" where
  "deadline b =
     (case concat (map deadlines (mvalues (bd_entries b))) of
        [] \<Rightarrow> None
      | t # ts \<Rightarrow> Some (fold min ts t))"

definition claim_expired :: "u64 \<Rightarrow> inbox_entry \<Rightarrow> bool" where
  "claim_expired now e = (case e_claim e of None \<Rightarrow> False | Some c \<Rightarrow> cl_expires_ms c \<le> now)"

definition expire :: "u64 \<Rightarrow> board \<Rightarrow> board" where
  "expire now b =
     (let b1 = remove_all (ids_where (\<lambda>e. m_expires_ms (e_message e) \<le> now) b) b
      in release_all (ids_where (claim_expired now) b1) b1)"

definition author_of_pane :: "pane_id \<Rightarrow> author \<Rightarrow> bool" where
  "author_of_pane pane a = (case a of Human \<Rightarrow> False | AgentAuthor p _ \<Rightarrow> p = pane)"

definition owned_by :: "(author \<Rightarrow> bool) \<Rightarrow> inbox_entry \<Rightarrow> bool" where
  "owned_by P e = (case e_claim e of None \<Rightarrow> False | Some c \<Rightarrow> P (cl_owner c))"

definition forget_pane :: "pane_id \<Rightarrow> board \<Rightarrow> board" where
  "forget_pane pane b =
     (let b1 = release_all (ids_where (owned_by (author_of_pane pane)) b) b
      in b1\<lparr>bd_revoked := RBT.filter (\<lambda>a _. \<not> author_of_pane pane a) (bd_revoked b1)\<rparr>)"

definition authorize :: "author \<Rightarrow> board \<Rightarrow> inbox_error + unit" where
  "authorize a b = (if bset_mem a (bd_revoked b) then Inl Revoked else Inr ())"

definition validate_cursor :: "nat \<Rightarrow> board \<Rightarrow> inbox_error + unit" where
  "validate_cursor after b =
     (if after > bd_sequence b \<or> (after \<noteq> 0 \<and> after < bd_floor b) then Inl CursorExpired else Inr ())"

definition project_entries :: "project_id \<Rightarrow> board \<Rightarrow> inbox_entry list" where
  "project_entries p b = List.map_filter (mlookup (bd_entries b)) (project_ids p b)"

definition board_list :: "project_id \<Rightarrow> nat \<Rightarrow> nat option \<Rightarrow> nat \<Rightarrow> board \<Rightarrow> inbox_error + inbox_page" where
  "board_list p after thread limit0 b =
     (case validate_cursor after b of
        Inl e \<Rightarrow> Inl e
      | Inr _ \<Rightarrow>
          (let es = sort_key e_changed (filter
                 (\<lambda>e. e_changed e > after
                   \<and> (case thread of None \<Rightarrow> True | Some t \<Rightarrow> m_thread (e_message e) = t)) (project_entries p b));
               limit = max 1 (min limit0 20);
               more = length es > limit;
               page = take limit es;
               cursor = (if more then (if page = [] then after else e_changed (last page)) else bd_sequence b)
           in Inr \<lparr>pg_entries = page, pg_cursor = cursor, pg_floor = bd_floor b, pg_more = more,
                   pg_paused = bset_mem p (bd_paused b)\<rparr>))"

section \<open>Operations\<close>

definition retain_rates :: "u64 \<Rightarrow> board \<Rightarrow> board" where
  "retain_rates now b =
     b\<lparr>bd_rates := RBT.filter (\<lambda>_ times. times \<noteq> [])
        (RBT.map (\<lambda>_ times. dropWhile (\<lambda>t. saturating_sub now t \<ge> 60000) times) (bd_rates b))\<rparr>"

definition post_invalid :: "str \<Rightarrow> str \<Rightarrow> u64 \<Rightarrow> bool" where
  "post_invalid body key ttl \<longleftrightarrow>
     list_all is_whitespace body \<or> str_len body > BODY_LIMIT
     \<or> list_ex (\<lambda>c. is_control c \<and> c \<noteq> 10 \<and> c \<noteq> 9) body
     \<or> key = [] \<or> str_len key > 128 \<or> \<not> (1000 \<le> ttl \<and> ttl \<le> TTL_MS)"

definition same_post :: "post_kind \<Rightarrow> str \<Rightarrow> nat option \<Rightarrow> author option \<Rightarrow> u64 option \<Rightarrow> u64 \<Rightarrow> message \<Rightarrow> bool" where
  "same_post kind body reply_to to task ttl m \<longleftrightarrow>
     m_kind m = kind \<and> m_body m = body \<and> m_reply_to m = reply_to \<and> m_to m = to \<and> m_task m = task
     \<and> m_ttl_ms m = ttl"

definition over_capacity :: "project_id \<Rightarrow> str \<Rightarrow> board \<Rightarrow> bool" where
  "over_capacity project body b \<longleftrightarrow>
     mlen (project_set project b) \<ge> PROJECT_LIMIT
     \<or> bd_bytes b + str_len body * 2 > BYTE_LIMIT \<or> mlen (bd_entries b) \<ge> 4000"

definition entry_in :: "project_id \<Rightarrow> nat \<Rightarrow> board \<Rightarrow> inbox_entry option" where
  "entry_in project i b =
     (case mlookup (bd_entries b) i of
        None \<Rightarrow> None
      | Some e \<Rightarrow> if m_project (e_message e) = project then Some e else None)"

definition post_place :: "project_id \<Rightarrow> nat option \<Rightarrow> u64 \<Rightarrow> u64 \<Rightarrow> board \<Rightarrow> inbox_error + (nat \<times> u64)" where
  "post_place project reply_to ttl now b =
     (case reply_to of
        None \<Rightarrow> Inr (bd_sequence b + 1, saturating_add now ttl)
      | Some parent \<Rightarrow>
          (case entry_in project parent b of
             None \<Rightarrow> Inl NotFound
           | Some e \<Rightarrow>
               (if length (filter (\<lambda>x. m_thread (e_message x) = m_thread (e_message e)) (project_entries project b)) \<ge> 100
                then Inl ThreadBudget
                else Inr (m_thread (e_message e), min (saturating_add now ttl) (m_expires_ms (e_message e))))))"

definition op_post :: "project_id \<Rightarrow> author \<Rightarrow> post_kind \<Rightarrow> str \<Rightarrow> nat option \<Rightarrow> author option \<Rightarrow> u64 option
    \<Rightarrow> str \<Rightarrow> u64 \<Rightarrow> u64 \<Rightarrow> board \<Rightarrow> board \<times> (inbox_error + nat option)" where
  "op_post project author kind body reply_to to task key ttl now b =
     (if post_invalid body key ttl then (b, Inl InvalidPost)
      else
        (case find (\<lambda>e. m_author (e_message e) = author \<and> m_key (e_message e) = key) (project_entries project b) of
           Some e \<Rightarrow>
             (if same_post kind body reply_to to task ttl (e_message e)
              then (b, Inr (Some (m_id (e_message e)))) else (b, Inl IdempotencyConflict))
         | None \<Rightarrow>
             (if over_capacity project body b then (b, Inl Capacity)
              else if length (multi_get (bd_rates b) author) \<ge> 30 then (b, Inl RateLimited)
              else if mlookup (bd_rates b) author = None \<and> mlen (bd_rates b) \<ge> 1024 then (b, Inl Capacity)
              else
                (case post_place project reply_to ttl now b of
                   Inl e \<Rightarrow> (b, Inl e)
                 | Inr (thread, expires) \<Rightarrow>
                     (board_record (PostEv \<lparr>m_id = bd_sequence b + 1, m_project = project, m_author = author,
                        m_kind = kind, m_body = body, m_reply_to = reply_to, m_thread = thread, m_to = to,
                        m_task = task, m_key = key, m_created_ms = now, m_expires_ms = expires,
                        m_ttl_ms = ttl\<rparr>) b, Inr (Some (bd_sequence b + 1)))))))"

definition op_ack :: "project_id \<Rightarrow> author \<Rightarrow> nat \<Rightarrow> board \<Rightarrow> board \<times> (inbox_error + nat option)" where
  "op_ack project author i b =
     (case entry_in project i b of
        None \<Rightarrow> (b, Inl NotFound)
      | Some e \<Rightarrow>
          (if bset_mem author (e_acknowledged e) then (b, Inr (Some i))
           else if mlen (e_acknowledged e) \<ge> 64
             \<or> sum_list (map (\<lambda>e. mlen (e_acknowledged e)) (mvalues (bd_entries b))) \<ge> 4096
           then (b, Inl Capacity)
           else (board_record (AckEv i author) b, Inr (Some i))))"

definition task_claimed_elsewhere :: "inbox_entry \<Rightarrow> nat \<Rightarrow> board \<Rightarrow> bool" where
  "task_claimed_elsewhere e i b =
     (case m_task (e_message e) of
        None \<Rightarrow> False
      | Some t \<Rightarrow> list_ex (\<lambda>x. m_id (e_message x) \<noteq> i \<and> m_task (e_message x) = Some t \<and> e_claim x \<noteq> None)
                   (mvalues (bd_entries b)))"

definition op_claim :: "project_id \<Rightarrow> author \<Rightarrow> nat \<Rightarrow> nat \<Rightarrow> u64 \<Rightarrow> u64 \<Rightarrow> board
    \<Rightarrow> board \<times> (inbox_error + nat option)" where
  "op_claim project author i revision lease now b =
     (case entry_in project i b of
        None \<Rightarrow> (b, Inl NotFound)
      | Some e \<Rightarrow>
          (if m_thread (e_message e) \<noteq> i then (b, Inl ClaimThreadRoot)
           else if e_revision e \<noteq> revision then (b, Inl RevisionConflict)
           else if owned_by (\<lambda>a. a \<noteq> author) e then (b, Inl AlreadyClaimed)
           else if task_claimed_elsewhere e i b then (b, Inl TaskAlreadyClaimed)
           else if \<not> (1000 \<le> lease \<and> lease \<le> 3600000) then (b, Inl InvalidLease)
           else (board_record (ClaimEv i (Some \<lparr>cl_owner = author, cl_revision = revision + 1,
                   cl_expires_ms = min (saturating_add now lease) (m_expires_ms (e_message e))\<rparr>)) b,
                 Inr (Some i))))"

definition op_release :: "project_id \<Rightarrow> author \<Rightarrow> nat \<Rightarrow> nat \<Rightarrow> board \<Rightarrow> board \<times> (inbox_error + nat option)" where
  "op_release project author i revision b =
     (case entry_in project i b of
        None \<Rightarrow> (b, Inl NotFound)
      | Some e \<Rightarrow>
          (if e_revision e \<noteq> revision then (b, Inl RevisionConflict)
           else if author \<noteq> Human \<and> \<not> owned_by (\<lambda>a. a = author) e then (b, Inl NotOwner)
           else (if e_claim e \<noteq> None then board_record (ClaimEv i None) b else b, Inr (Some i))))"

definition op_revoke :: "author \<Rightarrow> board \<Rightarrow> board \<times> (inbox_error + nat option)" where
  "op_revoke a b =
     (if a = Human then (b, Inl InvalidRecipient)
      else if bset_mem a (bd_revoked b) then (b, Inr None)
      else if mlen (bd_revoked b) \<ge> 1024 then (b, Inl Capacity)
      else
        (let b1 = board_record (RevokeEv a) b
         in (release_all (ids_where (owned_by (\<lambda>x. x = a)) b1) b1, Inr None)))"

definition board_apply :: "project_id \<Rightarrow> author \<Rightarrow> inbox_operation \<Rightarrow> u64 \<Rightarrow> board
    \<Rightarrow> board \<times> (inbox_error + nat option)" where
  "board_apply project author op now b0 =
     (let b = retain_rates now (expire now b0);
          human = (author = Human)
      in case authorize author b of
           Inl e \<Rightarrow> (b, Inl e)
         | Inr _ \<Rightarrow>
             (if bset_mem project (bd_paused b) \<and> \<not> human then (b, Inl PausedErr)
              else
                (case op of
                   Credential \<Rightarrow> if \<not> human then (board_record (GrantEv author) b, Inr None) else (b, Inl Forbidden)
                 | Post kind body reply_to to task key ttl \<Rightarrow>
                     op_post project author kind body reply_to to task key ttl now b
                 | Ack i \<Rightarrow> op_ack project author i b
                 | ClaimOp i revision lease \<Rightarrow> op_claim project author i revision lease now b
                 | Release i revision \<Rightarrow> op_release project author i revision b
                 | Pause paused \<Rightarrow>
                     if human then
                       (if bset_mem project (bd_paused b) \<noteq> paused then board_record (PauseEv project paused) b else b, Inr None)
                     else (b, Inl Forbidden)
                 | Clear confirmed \<Rightarrow>
                     if human \<and> confirmed then (remove_all (project_ids project b) b, Inr None) else (b, Inl Forbidden)
                 | Revoke a \<Rightarrow> if human then op_revoke a b else (b, Inl Forbidden)
                 | _ \<Rightarrow> (b, Inl Forbidden))))"

section \<open>The invariant\<close>

definition cost :: "inbox_entry \<Rightarrow> nat" where
  "cost e = str_len (m_body (e_message e)) * 2"

definition payload :: "(nat, inbox_entry) rbt \<Rightarrow> nat" where
  "payload ents = (\<Sum>i\<in>dom (mlookup ents). cost (the (mlookup ents i)))"

lemma payload_empty [simp]: "payload RBT.empty = 0"
  by (simp add: payload_def)

lemma payload_insert_new:
  assumes "mlookup ents i = None"
  shows "payload (RBT.insert i e ents) = payload ents + cost e"
proof -
  have "payload (RBT.insert i e ents)
      = (\<Sum>j\<in>insert i (dom (mlookup ents)). cost (the (((mlookup ents)(i \<mapsto> e)) j)))"
    by (simp add: payload_def)
  also have "\<dots> = cost e + (\<Sum>j\<in>dom (mlookup ents). cost (the (((mlookup ents)(i \<mapsto> e)) j)))"
    using assms by (subst sum.insert) (auto simp: domIff)
  also have "(\<Sum>j\<in>dom (mlookup ents). cost (the (((mlookup ents)(i \<mapsto> e)) j))) = payload ents"
    unfolding payload_def using assms by (intro sum.cong) auto
  finally show ?thesis by simp
qed

lemma payload_delete:
  assumes "mlookup ents i = Some e"
  shows "payload (RBT.delete i ents) + cost e = payload ents"
proof -
  have i: "i \<in> dom (mlookup ents)" using assms by auto
  have "payload ents = cost (the (mlookup ents i)) + (\<Sum>j\<in>dom (mlookup ents) - {i}. cost (the (mlookup ents j)))"
    unfolding payload_def by (rule sum.remove) (auto simp: i)
  moreover have "payload (RBT.delete i ents) = (\<Sum>j\<in>dom (mlookup ents) - {i}. cost (the (mlookup ents j)))"
    unfolding payload_def by (intro sum.cong) auto
  ultimately show ?thesis using assms by simp
qed

lemma payload_update:
  assumes "mlookup ents i = Some e" and "cost e' = cost e"
  shows "payload (RBT.insert i e' ents) = payload ents"
proof -
  have "dom (mlookup (RBT.insert i e' ents)) = dom (mlookup ents)" using assms(1) by auto
  then show ?thesis unfolding payload_def using assms by (intro sum.cong) auto
qed

definition entry_ok :: "nat \<Rightarrow> nat \<Rightarrow> inbox_entry \<Rightarrow> bool" where
  "entry_ok seq i e \<longleftrightarrow> m_id (e_message e) = i \<and> i \<le> seq \<and> e_changed e \<le> seq
     \<and> str_len (m_body (e_message e)) \<le> BODY_LIMIT
     \<and> (\<forall>c. e_claim e = Some c \<longrightarrow> m_thread (e_message e) = i \<and> cl_expires_ms c \<le> m_expires_ms (e_message e))"

definition placed :: "board \<Rightarrow> nat \<Rightarrow> inbox_entry \<Rightarrow> bool" where
  "placed b i e \<longleftrightarrow> entry_ok (bd_sequence b) i e
     \<and> e_changed e \<le> board_changed (m_project (e_message e)) b
     \<and> mlookup (bd_changed b) (m_project (e_message e)) \<noteq> None"

text \<open>Two entries never share a change number, nor a claimed task.\<close>

definition apart :: "inbox_entry \<Rightarrow> inbox_entry \<Rightarrow> bool" where
  "apart e f \<longleftrightarrow> e_changed e \<noteq> e_changed f
     \<and> (e_claim e \<noteq> None \<longrightarrow> e_claim f \<noteq> None \<longrightarrow> m_task (e_message e) \<noteq> None \<longrightarrow>
          m_task (e_message e) \<noteq> m_task (e_message f))"

definition entries_inv :: "board \<Rightarrow> bool" where
  "entries_inv b \<longleftrightarrow>
     (\<forall>i e. mlookup (bd_entries b) i = Some e \<longrightarrow> placed b i e)
   \<and> (\<forall>i j e f. mlookup (bd_entries b) i = Some e \<longrightarrow> mlookup (bd_entries b) j = Some f \<longrightarrow>
        i \<noteq> j \<longrightarrow> apart e f)
   \<and> mlen (bd_entries b) \<le> 4000 \<and> (\<forall>p. board_changed p b \<le> bd_sequence b)"

definition index_inv :: "board \<Rightarrow> bool" where
  "index_inv b \<longleftrightarrow> (\<forall>p. mlen (project_set p b) \<le> PROJECT_LIMIT
     \<and> (\<forall>i. bset_mem i (project_set p b)
          \<longleftrightarrow> (\<exists>e. mlookup (bd_entries b) i = Some e \<and> m_project (e_message e) = p)))"

definition bytes_inv :: "board \<Rightarrow> bool" where
  "bytes_inv b \<longleftrightarrow> bd_bytes b = payload (bd_entries b) \<and> bd_bytes b \<le> BYTE_LIMIT"

text \<open>No copy of a payload survives its entry.\<close>

definition journal_inv :: "board \<Rightarrow> bool" where
  "journal_inv b \<longleftrightarrow> length (bd_journal b) \<le> 4096 \<and> bd_floor b \<le> bd_sequence b
     \<and> (\<forall>s ev. (s, ev) \<in> set (bd_journal b) \<longrightarrow> s \<le> bd_sequence b
        \<and> (\<forall>m. ev = PostEv m \<longrightarrow> (\<exists>e. mlookup (bd_entries b) (m_id m) = Some e \<and> e_message e = m)))"

definition board_inv :: "board \<Rightarrow> bool" where
  "board_inv b \<longleftrightarrow> entries_inv b \<and> index_inv b \<and> bytes_inv b \<and> journal_inv b"

lemma project_set_empty [simp]: "project_set p (b\<lparr>bd_projects := RBT.empty\<rparr>) = RBT.empty"
  by (simp add: project_set_def)

lemma board_default_inv: "board_inv board_default"
  by (simp add: board_inv_def entries_inv_def index_inv_def bytes_inv_def journal_inv_def board_default_def
      project_set_def board_changed_def)

subsection \<open>What recording an event does\<close>

lemma trim_journal_spec:
  assumes "\<forall>x\<in>set xs. fst x \<le> n" and "floor \<le> n"
  shows "length (snd (trim_journal floor xs)) \<le> 4096 \<and> fst (trim_journal floor xs) \<le> n
     \<and> set (snd (trim_journal floor xs)) \<subseteq> set xs"
  using assms by (induction floor xs rule: trim_journal.induct) auto

lemma trim_journal_id: "length xs \<le> 4096 \<Longrightarrow> trim_journal floor xs = (floor, xs)"
  by (cases xs) simp_all

definition staged :: "inbox_event \<Rightarrow> board \<Rightarrow> board" where
  "staged ev b =
     b\<lparr>bd_sequence := bd_sequence b + 1,
       bd_changed := (case event_project ev b of None \<Rightarrow> bd_changed b
         | Some p \<Rightarrow> RBT.insert p (bd_sequence b + 1) (bd_changed b)),
       bd_journal := bd_journal b @ [(bd_sequence b + 1, ev)]\<rparr>"

lemma event_project_seq [simp]: "event_project ev (b\<lparr>bd_sequence := n\<rparr>) = event_project ev b"
  by (simp add: event_project_def split: inbox_event.split)

lemma board_record_staged:
  "board_record ev b = (let b4 = project_event ev (staged ev b);
      t = trim_journal (bd_floor b4) (bd_journal b4)
    in b4\<lparr>bd_floor := fst t, bd_journal := snd t\<rparr>)"
  by (simp add: board_record_def staged_def Let_def case_prod_beta split: option.split)

lemma board_record_fields:
  "bd_entries (board_record ev b) = bd_entries (project_event ev (staged ev b))"
  "bd_projects (board_record ev b) = bd_projects (project_event ev (staged ev b))"
  "bd_bytes (board_record ev b) = bd_bytes (project_event ev (staged ev b))"
  "bd_sequence (board_record ev b) = bd_sequence (project_event ev (staged ev b))"
  "bd_changed (board_record ev b) = bd_changed (project_event ev (staged ev b))"
  "bd_paused (board_record ev b) = bd_paused (project_event ev (staged ev b))"
  "bd_revoked (board_record ev b) = bd_revoked (project_event ev (staged ev b))"
  "bd_rates (board_record ev b) = bd_rates (project_event ev (staged ev b))"
  by (simp_all add: board_record_staged Let_def)

lemma project_event_seq [simp]:
  "bd_sequence (project_event ev b) = bd_sequence b"
  "bd_changed (project_event ev b) = bd_changed b"
  by (simp_all add: project_event_def Let_def split: inbox_event.split option.split)

lemma record_sequence [simp]: "bd_sequence (board_record ev b) = bd_sequence b + 1"
  by (simp add: board_record_fields staged_def)

lemma record_changed:
  "bd_changed (board_record ev b) = (case event_project ev b of None \<Rightarrow> bd_changed b
     | Some p \<Rightarrow> RBT.insert p (bd_sequence b + 1) (bd_changed b))"
  by (simp add: board_record_fields staged_def)

lemma board_changed_record:
  "board_changed p (board_record ev b)
     = (if event_project ev b = Some p then bd_sequence b + 1 else board_changed p b)"
  by (auto simp: board_changed_def record_changed split: option.split)

lemma record_entries:
  "bd_entries (board_record (PostEv m) b) = RBT.insert (m_id m)
     \<lparr>e_message = m, e_revision = 0, e_changed = bd_sequence b + 1, e_acknowledged = RBT.empty, e_claim = None\<rparr> (bd_entries b)"
  "bd_entries (board_record (AckEv i a) b) = (case mlookup (bd_entries b) i of None \<Rightarrow> bd_entries b
     | Some e \<Rightarrow> RBT.insert i (e\<lparr>e_acknowledged := bset_insert a (e_acknowledged e), e_changed := bd_sequence b + 1\<rparr>) (bd_entries b))"
  "bd_entries (board_record (ClaimEv i c) b) = (case mlookup (bd_entries b) i of None \<Rightarrow> bd_entries b
     | Some e \<Rightarrow> RBT.insert i (e\<lparr>e_revision := e_revision e + 1, e_changed := bd_sequence b + 1, e_claim := c\<rparr>) (bd_entries b))"
  "bd_entries (board_record (RemoveEv i) b) = (case mlookup (bd_entries b) i of None \<Rightarrow> bd_entries b
     | Some e \<Rightarrow> RBT.delete i (bd_entries b))"
  "bd_entries (board_record (PauseEv p on) b) = bd_entries b"
  "bd_entries (board_record (RevokeEv x) b) = bd_entries b"
  "bd_entries (board_record (GrantEv x) b) = bd_entries b"
  by (simp_all add: board_record_fields project_event_def staged_def Let_def split: option.split)

lemma record_journal:
  assumes "journal_inv b"
    and "\<And>s m. (s, PostEv m) \<in> set (bd_journal (project_event ev (staged ev b))) \<Longrightarrow>
      \<exists>e. mlookup (bd_entries (board_record ev b)) (m_id m) = Some e \<and> e_message e = m"
  shows "journal_inv (board_record ev b)"
proof -
  let ?b = "project_event ev (staged ev b)"
  have sub: "set (bd_journal ?b) \<subseteq> set (bd_journal b) \<union> {(bd_sequence b + 1, ev)}"
    by (auto simp: project_event_def staged_def Let_def split: inbox_event.splits option.splits)
  have le: "\<forall>x\<in>set (bd_journal ?b). fst x \<le> bd_sequence b + 1"
    using sub assms(1) by (fastforce simp: journal_inv_def)
  have fl: "bd_floor ?b \<le> bd_sequence b + 1"
    using assms(1) by (auto simp: journal_inv_def project_event_def staged_def Let_def split: inbox_event.split option.split)
  from trim_journal_spec [OF le fl] le assms(2) show ?thesis
    unfolding journal_inv_def by (fastforce simp: board_record_staged Let_def staged_def)
qed

subsection \<open>Recording keeps the invariant\<close>

lemma apart_sym: "apart e f \<Longrightarrow> apart f e"
  by (auto simp: apart_def)

lemma placed_record:
  assumes "placed b i e" and "board_changed (m_project (e_message e)) b \<le> bd_sequence b"
  shows "placed (board_record ev b) i e"
  using assms by (auto simp: placed_def entry_ok_def board_changed_record record_changed split: option.split)

lemma entries_inv_record:
  assumes inv: "entries_inv b" and ents: "mlookup (bd_entries (board_record ev b)) = (mlookup (bd_entries b))(i \<mapsto> e')"
    and new: "placed (board_record ev b) i e'"
    and sep: "\<And>j f. j \<noteq> i \<Longrightarrow> mlookup (bd_entries b) j = Some f \<Longrightarrow> apart e' f"
    and room: "mlen (bd_entries (board_record ev b)) \<le> 4000"
  shows "entries_inv (board_record ev b)"
  unfolding entries_inv_def
proof (intro conjI allI impI)
  have ch: "board_changed p b \<le> bd_sequence b" for p using inv by (simp add: entries_inv_def)
  show "board_changed p (board_record ev b) \<le> bd_sequence (board_record ev b)" for p
    using ch [of p] by (simp add: board_changed_record)
  fix k e assume "mlookup (bd_entries (board_record ev b)) k = Some e"
  then show "placed (board_record ev b) k e"
    using new inv ch placed_record by (cases "k = i") (auto simp: ents entries_inv_def)
next
  fix k j e f
  assume "mlookup (bd_entries (board_record ev b)) k = Some e" "mlookup (bd_entries (board_record ev b)) j = Some f" "k \<noteq> j"
  moreover have "apart e f" if "mlookup (bd_entries b) k = Some e" "mlookup (bd_entries b) j = Some f" "k \<noteq> j" for k j e f
    using inv that unfolding entries_inv_def by blast
  ultimately show "apart e f"
    using sep apart_sym by (cases "k = i"; cases "j = i") (auto simp: ents)
qed (rule room)

lemma entries_inv_quiet:
  assumes inv: "entries_inv b" and sub: "\<And>k e. mlookup (bd_entries (board_record ev b)) k = Some e \<Longrightarrow> mlookup (bd_entries b) k = Some e"
    and room: "mlen (bd_entries (board_record ev b)) \<le> mlen (bd_entries b)"
  shows "entries_inv (board_record ev b)"
  unfolding entries_inv_def
proof (intro conjI allI impI)
  have ch: "board_changed p b \<le> bd_sequence b" for p using inv by (simp add: entries_inv_def)
  show "board_changed p (board_record ev b) \<le> bd_sequence (board_record ev b)" for p
    using ch [of p] by (simp add: board_changed_record)
  fix k e assume "mlookup (bd_entries (board_record ev b)) k = Some e"
  then show "placed (board_record ev b) k e"
    using inv ch sub placed_record by (auto simp: entries_inv_def)
next
  fix k j e f
  assume "mlookup (bd_entries (board_record ev b)) k = Some e" "mlookup (bd_entries (board_record ev b)) j = Some f" "k \<noteq> j"
  then show "apart e f" using inv sub unfolding entries_inv_def by blast
next
  show "mlen (bd_entries (board_record ev b)) \<le> 4000" using room inv by (simp add: entries_inv_def)
qed

lemma staged_fields [simp]:
  "bd_entries (staged ev b) = bd_entries b" "bd_projects (staged ev b) = bd_projects b"
  "bd_bytes (staged ev b) = bd_bytes b" "project_set p (staged ev b) = project_set p b"
  by (simp_all add: staged_def project_set_def)

lemma journal_staged: "bd_journal (staged ev b) = bd_journal b @ [(bd_sequence b + 1, ev)]"
  by (simp add: staged_def)

text \<open>Events that touch at most one entry in place: acknowledgement, claims and controls.\<close>

lemma record_update_inv:
  assumes inv: "board_inv b" and e: "mlookup (bd_entries b) i = Some e"
    and ents: "bd_entries (board_record ev b) = RBT.insert i e' (bd_entries b)"
    and ev: "ev = AckEv i a \<or> ev = ClaimEv i c"
    and same: "e_message e' = e_message e" "e_changed e' = bd_sequence b + 1"
    and claim: "\<And>c. e_claim e' = Some c \<Longrightarrow> m_thread (e_message e) = i \<and> cl_expires_ms c \<le> m_expires_ms (e_message e)"
    and task: "\<And>j f. e_claim e' \<noteq> None \<Longrightarrow> j \<noteq> i \<Longrightarrow> mlookup (bd_entries b) j = Some f \<Longrightarrow> e_claim f \<noteq> None \<Longrightarrow>
       m_task (e_message e) \<noteq> None \<Longrightarrow> m_task (e_message e) \<noteq> m_task (e_message f)"
  shows "board_inv (board_record ev b)"
proof -
  have i: "entries_inv b" "index_inv b" "bytes_inv b" "journal_inv b" using inv by (simp_all add: board_inv_def)
  have pl: "placed b j f" if "mlookup (bd_entries b) j = Some f" for j f using i(1) that by (simp add: entries_inv_def)
  have ep: "event_project ev b = Some (m_project (e_message e))" using ev e by (auto simp: event_project_def)
  have "placed (board_record ev b) i e'"
    using pl [OF e] same claim ep by (auto simp: placed_def entry_ok_def board_changed_record record_changed)
  moreover have "apart e' f" if "j \<noteq> i" "mlookup (bd_entries b) j = Some f" for j f
    using pl [OF that(2)] same task [OF _ that] by (auto simp: apart_def placed_def entry_ok_def)
  moreover have "mlen (bd_entries (board_record ev b)) \<le> 4000"
    using i(1) e by (simp add: ents mlen_insert entries_inv_def)
  ultimately have "entries_inv (board_record ev b)"
    using i(1) by (intro entries_inv_record [where i = i and e' = e']) (auto simp: ents)
  moreover have ps: "project_set p (board_record ev b) = project_set p b" for p
    using ev e by (auto simp: project_set_def board_record_fields project_event_def)
  moreover have "index_inv (board_record ev b)"
  proof -
    have "(\<exists>x. mlookup (RBT.insert i e' (bd_entries b)) j = Some x \<and> m_project (e_message x) = p)
        \<longleftrightarrow> (\<exists>x. mlookup (bd_entries b) j = Some x \<and> m_project (e_message x) = p)" for j p
      using e same(1) by (cases "j = i") auto
    then show ?thesis using i(2) by (simp add: index_inv_def ps ents)
  qed
  moreover have "bd_bytes (board_record ev b) = bd_bytes b"
    using ev e by (auto simp: board_record_fields project_event_def)
  then have "bytes_inv (board_record ev b)"
    using i(3) payload_update [OF e, of e'] same(1) by (simp add: bytes_inv_def ents cost_def)
  moreover have "journal_inv (board_record ev b)"
  proof (rule record_journal [OF i(4)])
    fix s m assume "(s, PostEv m) \<in> set (bd_journal (project_event ev (staged ev b)))"
    then have "(s, PostEv m) \<in> set (bd_journal b)"
      using ev e by (auto simp: project_event_def journal_staged)
    then obtain x where "mlookup (bd_entries b) (m_id m) = Some x" "e_message x = m"
      using i(4) unfolding journal_inv_def by blast
    with e same(1) show "\<exists>x. mlookup (bd_entries (board_record ev b)) (m_id m) = Some x \<and> e_message x = m"
      by (cases "m_id m = i") (auto simp: ents)
  qed
  ultimately show ?thesis by (simp add: board_inv_def)
qed

lemma record_quiet_inv:
  assumes inv: "board_inv b" and quiet: "project_event ev (staged ev b) = (staged ev b)\<lparr>bd_paused := x, bd_revoked := y\<rparr>"
    and ev: "\<And>m. ev \<noteq> PostEv m"
  shows "board_inv (board_record ev b)"
proof -
  have i: "entries_inv b" "index_inv b" "bytes_inv b" "journal_inv b" using inv by (simp_all add: board_inv_def)
  have same: "bd_entries (board_record ev b) = bd_entries b" "bd_projects (board_record ev b) = bd_projects b"
    "bd_bytes (board_record ev b) = bd_bytes b"
    by (simp_all add: board_record_fields quiet)
  have "entries_inv (board_record ev b)" using i(1) by (rule entries_inv_quiet) (simp_all add: same)
  moreover have "index_inv (board_record ev b)" "bytes_inv (board_record ev b)"
    using i(2,3) by (simp_all add: index_inv_def bytes_inv_def same project_set_def)
  moreover have "journal_inv (board_record ev b)"
  proof (rule record_journal [OF i(4)])
    fix s m assume "(s, PostEv m) \<in> set (bd_journal (project_event ev (staged ev b)))"
    then have "(s, PostEv m) \<in> set (bd_journal b)" using ev by (auto simp: quiet journal_staged)
    then show "\<exists>x. mlookup (bd_entries (board_record ev b)) (m_id m) = Some x \<and> e_message x = m"
      using i(4) unfolding journal_inv_def same by blast
  qed
  ultimately show ?thesis by (simp add: board_inv_def)
qed

lemma record_control_inv:
  assumes "board_inv b"
  shows "board_inv (board_record (PauseEv p on) b)" and "board_inv (board_record (RevokeEv a) b)"
    and "board_inv (board_record (GrantEv a) b)"
proof -
  show "board_inv (board_record (PauseEv p on) b)"
    by (rule record_quiet_inv [OF assms, where
          x = "if on then bset_insert p (bd_paused b) else RBT.delete p (bd_paused b)" and y = "bd_revoked b"])
      (simp_all add: project_event_def staged_def)
  show "board_inv (board_record (RevokeEv a) b)"
    by (rule record_quiet_inv [OF assms, where x = "bd_paused b" and y = "bset_insert a (bd_revoked b)"])
      (simp_all add: project_event_def staged_def)
  show "board_inv (board_record (GrantEv a) b)"
    by (rule record_quiet_inv [OF assms, where x = "bd_paused b" and y = "bd_revoked b"])
      (simp_all add: project_event_def staged_def)
qed

lemma record_absent_inv:
  assumes "board_inv b" and "mlookup (bd_entries b) i = None"
  shows "board_inv (board_record (ClaimEv i c) b)" and "board_inv (board_record (RemoveEv i) b)"
proof -
  show "board_inv (board_record (ClaimEv i c) b)"
    by (rule record_quiet_inv [OF assms(1), where x = "bd_paused b" and y = "bd_revoked b"])
      (simp_all add: project_event_def staged_def assms(2))
  show "board_inv (board_record (RemoveEv i) b)"
    by (rule record_quiet_inv [OF assms(1), where x = "bd_paused b" and y = "bd_revoked b"])
      (simp_all add: project_event_def staged_def assms(2))
qed

lemma release_inv: "board_inv b \<Longrightarrow> board_inv (board_record (ClaimEv i None) b)"
proof (cases "mlookup (bd_entries b) i")
  case None
  assume "board_inv b"
  then show ?thesis using None by (rule record_absent_inv)
next
  case (Some e)
  assume inv: "board_inv b"
  show ?thesis
    by (rule record_update_inv [OF inv Some, where
          e' = "e\<lparr>e_revision := e_revision e + 1, e_changed := bd_sequence b + 1, e_claim := None\<rparr>"])
      (simp_all add: record_entries Some)
qed

lemma project_set_remove:
  assumes "mlookup (bd_entries b) i = Some e"
  shows "bset_mem j (project_set p (board_record (RemoveEv i) b))
      \<longleftrightarrow> bset_mem j (project_set p b) \<and> \<not> (p = m_project (e_message e) \<and> j = i)"
    and "mlen (project_set p (board_record (RemoveEv i) b)) \<le> mlen (project_set p b)"
proof -
  let ?p = "m_project (e_message e)"
  have ps: "project_set p (board_record (RemoveEv i) b) =
      (if p = ?p then (case mlookup (bd_projects b) ?p of None \<Rightarrow> RBT.empty
         | Some ids \<Rightarrow> if RBT.is_empty (RBT.delete i ids) then RBT.empty else RBT.delete i ids)
       else project_set p b)"
    using assms by (simp add: project_set_def board_record_fields project_event_def Let_def split: option.split)
  have em: "RBT.is_empty m \<longleftrightarrow> m = RBT.empty" for m :: "nat bset"
    by (metis RBT.is_empty_empty RBT.lookup_empty_empty)
  show "bset_mem j (project_set p (board_record (RemoveEv i) b))
      \<longleftrightarrow> bset_mem j (project_set p b) \<and> \<not> (p = m_project (e_message e) \<and> j = i)"
  proof (cases "p = ?p")
    case True
    have "bset_mem j (if RBT.is_empty (RBT.delete i ids) then RBT.empty else RBT.delete i ids)
        \<longleftrightarrow> bset_mem j (RBT.delete i ids)" for ids by (simp add: em)
    then have "bset_mem j (project_set p (board_record (RemoveEv i) b)) \<longleftrightarrow> j \<noteq> i \<and> bset_mem j (project_set ?p b)"
      unfolding ps using True by (simp add: project_set_def split: option.split)
    with True show ?thesis by auto
  qed (simp add: ps)
  show "mlen (project_set p (board_record (RemoveEv i) b)) \<le> mlen (project_set p b)"
    unfolding ps by (auto simp: project_set_def em mlen_delete split: option.split)
qed

lemma remove_inv:
  assumes inv: "board_inv b"
  shows "board_inv (board_record (RemoveEv i) b)"
proof (cases "mlookup (bd_entries b) i")
  case None
  with inv show ?thesis by (rule record_absent_inv)
next
  case (Some e)
  have i: "entries_inv b" "index_inv b" "bytes_inv b" "journal_inv b" using inv by (simp_all add: board_inv_def)
  let ?b = "board_record (RemoveEv i) b"
  have ents: "bd_entries ?b = RBT.delete i (bd_entries b)" by (simp add: record_entries Some)
  have "entries_inv ?b"
    using i(1) by (rule entries_inv_quiet) (auto simp: ents mlen_delete Some split: if_splits)
  moreover have "index_inv ?b"
    unfolding index_inv_def
  proof (intro allI conjI)
    fix p j
    have "bset_mem j (project_set p b) \<longleftrightarrow> (\<exists>x. mlookup (bd_entries b) j = Some x \<and> m_project (e_message x) = p)"
      and l: "mlen (project_set p b) \<le> PROJECT_LIMIT" using i(2) by (simp_all add: index_inv_def)
    then show "bset_mem j (project_set p ?b) \<longleftrightarrow> (\<exists>x. mlookup (bd_entries ?b) j = Some x \<and> m_project (e_message x) = p)"
      using Some by (cases "j = i") (auto simp: project_set_remove(1) [OF Some] ents)
    show "mlen (project_set p ?b) \<le> PROJECT_LIMIT" using project_set_remove(2) [OF Some, of p] l by simp
  qed
  moreover have "bytes_inv ?b"
  proof -
    have "bd_bytes ?b = bd_bytes b - cost e"
      by (simp add: board_record_fields project_event_def Some Let_def cost_def)
    with i(3) payload_delete [OF Some] show ?thesis by (auto simp: bytes_inv_def ents)
  qed
  moreover have "journal_inv ?b"
  proof (rule record_journal [OF i(4)])
    fix s m assume "(s, PostEv m) \<in> set (bd_journal (project_event (RemoveEv i) (staged (RemoveEv i) b)))"
    then have "(s, PostEv m) \<in> set (bd_journal b)" "m_id m \<noteq> i"
      using Some by (auto simp: project_event_def journal_staged Let_def is_post_of_def)
    then show "\<exists>x. mlookup (bd_entries ?b) (m_id m) = Some x \<and> e_message x = m"
      using i(4) unfolding journal_inv_def by (auto simp: ents)
  qed
  ultimately show ?thesis by (simp add: board_inv_def)
qed

lemma post_inv:
  assumes inv: "board_inv b" and new: "m_id m = bd_sequence b + 1"
    and body: "str_len (m_body m) \<le> BODY_LIMIT" and cap: "\<not> over_capacity (m_project m) (m_body m) b"
  shows "board_inv (board_record (PostEv m) b)"
proof -
  have i: "entries_inv b" "index_inv b" "bytes_inv b" "journal_inv b" using inv by (simp_all add: board_inv_def)
  let ?b = "board_record (PostEv m) b"
  let ?e = "\<lparr>e_message = m, e_revision = 0, e_changed = bd_sequence b + 1, e_acknowledged = RBT.empty, e_claim = None\<rparr>"
  have pl: "placed b j f" if "mlookup (bd_entries b) j = Some f" for j f using i(1) that by (simp add: entries_inv_def)
  have fresh: "mlookup (bd_entries b) (m_id m) = None"
    using pl [of "m_id m"] new by (cases "mlookup (bd_entries b) (m_id m)") (auto simp: placed_def entry_ok_def)
  have ents: "bd_entries ?b = RBT.insert (m_id m) ?e (bd_entries b)" by (simp add: record_entries)
  have "placed ?b (m_id m) ?e"
    using new body by (simp add: placed_def entry_ok_def board_changed_record record_changed event_project_def)
  moreover have "apart ?e f" if "mlookup (bd_entries b) j = Some f" for j f
    using pl [OF that] by (auto simp: apart_def placed_def entry_ok_def)
  moreover have "mlen (bd_entries ?b) \<le> 4000"
    using cap fresh by (simp add: ents mlen_insert over_capacity_def)
  ultimately have "entries_inv ?b"
    using i(1) by (intro entries_inv_record [where i = "m_id m" and e' = ?e]) (auto simp: ents)
  moreover have ps: "project_set p ?b = (if p = m_project m then bset_insert (m_id m) (project_set p b) else project_set p b)" for p
    by (auto simp: project_set_def board_record_fields project_event_def staged_def)
  have "index_inv ?b"
    unfolding index_inv_def
  proof (intro allI conjI)
    fix p j
    have "bset_mem j (project_set p b) \<longleftrightarrow> (\<exists>x. mlookup (bd_entries b) j = Some x \<and> m_project (e_message x) = p)"
      and l: "mlen (project_set p b) \<le> PROJECT_LIMIT" using i(2) by (simp_all add: index_inv_def)
    then show "bset_mem j (project_set p ?b) \<longleftrightarrow> (\<exists>x. mlookup (bd_entries ?b) j = Some x \<and> m_project (e_message x) = p)"
      using fresh by (cases "j = m_id m") (auto simp: ps ents)
    show "mlen (project_set p ?b) \<le> PROJECT_LIMIT"
      using l cap by (auto simp: ps bset_insert_def mlen_insert over_capacity_def)
  qed
  moreover have "bytes_inv ?b"
  proof -
    have "bd_bytes ?b = bd_bytes b + str_len (m_body m) * 2"
      by (simp add: board_record_fields project_event_def)
    with i(3) cap payload_insert_new [OF fresh, of ?e] show ?thesis
      by (simp add: bytes_inv_def ents cost_def over_capacity_def)
  qed
  moreover have "journal_inv ?b"
  proof (rule record_journal [OF i(4)])
    fix s m' assume "(s, PostEv m') \<in> set (bd_journal (project_event (PostEv m) (staged (PostEv m) b)))"
    then consider "m' = m" | "(s, PostEv m') \<in> set (bd_journal b)"
      by (auto simp: project_event_def journal_staged)
    then show "\<exists>x. mlookup (bd_entries ?b) (m_id m') = Some x \<and> e_message x = m'"
    proof cases
      case 2
      then have "\<exists>x. mlookup (bd_entries b) (m_id m') = Some x \<and> e_message x = m'"
        using i(4) unfolding journal_inv_def by blast
      with fresh show ?thesis by (cases "m_id m' = m_id m") (auto simp: ents)
    qed (simp add: ents)
  qed
  ultimately show ?thesis by (simp add: board_inv_def)
qed

subsection \<open>Every operation keeps the invariant\<close>

lemma remove_all_inv: "board_inv b \<Longrightarrow> board_inv (remove_all ks b)"
  unfolding remove_all_def by (induction ks arbitrary: b) (auto intro: remove_inv)

lemma release_all_inv: "board_inv b \<Longrightarrow> board_inv (release_all ks b)"
  unfolding release_all_def by (induction ks arbitrary: b) (auto intro: release_inv)

lemma expire_inv: "board_inv b \<Longrightarrow> board_inv (expire now b)"
  by (simp add: expire_def Let_def remove_all_inv release_all_inv)

lemma board_inv_frame:
  "board_inv (b\<lparr>bd_rates := r\<rparr>) \<longleftrightarrow> board_inv b"
  "board_inv (b\<lparr>bd_revoked := v\<rparr>) \<longleftrightarrow> board_inv b"
  "board_inv (b\<lparr>bd_paused := s\<rparr>) \<longleftrightarrow> board_inv b"
  by (simp_all add: board_inv_def entries_inv_def placed_def index_inv_def project_set_def bytes_inv_def journal_inv_def
      board_changed_def)

lemma forget_pane_inv: "board_inv b \<Longrightarrow> board_inv (forget_pane pane b)"
  by (simp add: forget_pane_def Let_def board_inv_frame release_all_inv)

lemma entry_in_Some: "entry_in p i b = Some e \<longleftrightarrow> mlookup (bd_entries b) i = Some e \<and> m_project (e_message e) = p"
  by (auto simp: entry_in_def split: option.split)

lemma op_post_inv: "board_inv b \<Longrightarrow> board_inv (fst (op_post p a kind body r tgt task key ttl now b))"
  by (auto simp: op_post_def post_invalid_def intro!: post_inv split: option.split sum.split)

lemma op_ack_inv:
  assumes "board_inv b"
  shows "board_inv (fst (op_ack p a i b))"
proof (cases "entry_in p i b")
  case None
  with assms show ?thesis by (simp add: op_ack_def)
next
  case (Some e)
  then have e: "mlookup (bd_entries b) i = Some e" by (simp add: entry_in_Some)
  have pl: "placed b i e" using assms e by (simp add: board_inv_def entries_inv_def)
  have ap: "apart e f" if "j \<noteq> i" "mlookup (bd_entries b) j = Some f" for j f
    using assms e that unfolding board_inv_def entries_inv_def by blast
  have "board_inv (board_record (AckEv i a) b)"
    by (rule record_update_inv [OF assms e, where
          e' = "e\<lparr>e_acknowledged := bset_insert a (e_acknowledged e), e_changed := bd_sequence b + 1\<rparr>"])
      (use pl ap in \<open>auto simp: record_entries e placed_def entry_ok_def apart_def\<close>)
  with Some assms show ?thesis by (simp add: op_ack_def)
qed

lemma op_claim_inv:
  assumes "board_inv b"
  shows "board_inv (fst (op_claim p a i rv lease now b))"
proof (cases "snd (op_claim p a i rv lease now b)")
  case (Inl err)
  then have "fst (op_claim p a i rv lease now b) = b"
    by (auto simp: op_claim_def split: option.splits if_splits)
  with assms show ?thesis by simp
next
  case (Inr x)
  then obtain e where en: "entry_in p i b = Some e" and th: "m_thread (e_message e) = i" "e_revision e = rv"
    and task: "\<not> task_claimed_elsewhere e i b"
    and res: "fst (op_claim p a i rv lease now b) = board_record (ClaimEv i (Some \<lparr>cl_owner = a, cl_revision = rv + 1,
        cl_expires_ms = min (saturating_add now lease) (m_expires_ms (e_message e))\<rparr>)) b"
    by (auto simp: op_claim_def split: option.splits if_splits)
  have e: "mlookup (bd_entries b) i = Some e" using en by (simp add: entry_in_Some)
  have idj: "m_id (e_message f) = j" if "mlookup (bd_entries b) j = Some f" for j f
    using assms that by (simp add: board_inv_def entries_inv_def placed_def entry_ok_def)
  let ?c = "Some \<lparr>cl_owner = a, cl_revision = rv + 1, cl_expires_ms = min (saturating_add now lease) (m_expires_ms (e_message e))\<rparr>"
  show ?thesis
    unfolding res
  proof (rule record_update_inv [OF assms e, where
        e' = "e\<lparr>e_revision := e_revision e + 1, e_changed := bd_sequence b + 1, e_claim := ?c\<rparr>"])
    show "bd_entries (board_record (ClaimEv i ?c) b)
        = RBT.insert i (e\<lparr>e_revision := e_revision e + 1, e_changed := bd_sequence b + 1, e_claim := ?c\<rparr>) (bd_entries b)"
      by (simp add: record_entries e)
    show "m_task (e_message e) \<noteq> m_task (e_message f)"
      if "j \<noteq> i" "mlookup (bd_entries b) j = Some f" "e_claim f \<noteq> None" "m_task (e_message e) \<noteq> None" for j f
    proof
      assume same: "m_task (e_message e) = m_task (e_message f)"
      have f: "f \<in> set (mvalues (bd_entries b))" using that(2) by (auto simp: mvalues_iff)
      have "list_ex (\<lambda>x. m_id (e_message x) \<noteq> i \<and> m_task (e_message x) = Some t \<and> e_claim x \<noteq> None) (mvalues (bd_entries b))"
        if "m_task (e_message e) = Some t" for t
        unfolding list_ex_iff using f same that \<open>j \<noteq> i\<close> \<open>e_claim f \<noteq> None\<close> idj [OF \<open>mlookup (bd_entries b) j = Some f\<close>]
        by (intro bexI [of _ f]) auto
      then have "task_claimed_elsewhere e i b"
        using that(4) by (cases "m_task (e_message e)") (simp_all add: task_claimed_elsewhere_def)
      with task show False by simp
    qed
  qed (use th in auto)
qed

lemma op_release_inv: "board_inv b \<Longrightarrow> board_inv (fst (op_release p a i rv b))"
  by (auto simp: op_release_def release_inv split: option.split)

lemma op_revoke_inv: "board_inv b \<Longrightarrow> board_inv (fst (op_revoke a b))"
  by (simp add: op_revoke_def Let_def release_all_inv record_control_inv)

lemma board_apply_inv:
  assumes "board_inv b"
  shows "board_inv (fst (board_apply p a op now b))"
proof -
  let ?b = "retain_rates now (expire now b)"
  have b: "board_inv ?b" using assms by (simp add: retain_rates_def board_inv_frame expire_inv)
  show ?thesis
    using b by (cases op)
      (simp_all add: board_apply_def Let_def op_post_inv op_ack_inv op_claim_inv op_release_inv op_revoke_inv
        record_control_inv remove_all_inv split: sum.split)
qed

lemma remove_all_entries:
  "mlookup (bd_entries (remove_all ks b)) k = (if k \<in> set ks then None else mlookup (bd_entries b) k)"
proof (induction ks arbitrary: b)
  case (Cons j ks)
  have "mlookup (bd_entries (board_record (RemoveEv j) b)) k = (if k = j then None else mlookup (bd_entries b) k)"
    by (simp add: record_entries split: option.split)
  with Cons [of "board_record (RemoveEv j) b"] show ?case by (cases "k = j") (auto simp: remove_all_def)
qed (simp add: remove_all_def)

lemma set_project_ids:
  assumes "index_inv b"
  shows "k \<in> set (project_ids p b) \<longleftrightarrow> (\<exists>e. mlookup (bd_entries b) k = Some e \<and> m_project (e_message e) = p)"
proof -
  have "k \<in> set (project_ids p b) \<longleftrightarrow> bset_mem k (project_set p b)"
    by (simp add: project_ids_def project_set_def set_bset_elems split: option.split)
  with assms show ?thesis by (simp add: index_inv_def)
qed

lemma cleared:
  assumes "board_inv b" and "mlookup (bd_entries (remove_all (project_ids p b) b)) k = Some e"
  shows "m_project (e_message e) \<noteq> p"
  using assms set_project_ids [of b k p] by (auto simp: board_inv_def remove_all_entries split: if_splits)

lemma retain_one_inv:
  assumes "board_inv b"
  shows "board_inv (retain_one p b)"
proof -
  let ?b = "remove_all (project_ids p b) b"
  let ?c = "?b\<lparr>bd_changed := RBT.delete p (bd_changed ?b)\<rparr>"
  have inv: "board_inv ?b" using assms by (rule remove_all_inv)
  have bc: "board_changed q ?c = (if q = p then 0 else board_changed q ?b)" for q
    by (simp add: board_changed_def)
  have "placed ?c k e" if "mlookup (bd_entries ?b) k = Some e" for k e
    using inv that cleared [OF assms that]
    by (auto simp: board_inv_def entries_inv_def placed_def bc)
  then have "entries_inv ?c" using inv by (auto simp: board_inv_def entries_inv_def bc)
  moreover have "index_inv ?c" "bytes_inv ?c" "journal_inv ?c"
    using inv by (simp_all add: board_inv_def index_inv_def bytes_inv_def journal_inv_def project_set_def)
  ultimately have "board_inv ?c" by (simp add: board_inv_def)
  moreover have "retain_one p b = ?c\<lparr>bd_paused := RBT.delete p (bd_paused ?b)\<rparr>"
    by (simp add: retain_one_def Let_def)
  ultimately show ?thesis by (simp add: board_inv_frame del: board.update_convs)
qed

lemma retain_projects_inv: "board_inv b \<Longrightarrow> board_inv (retain_projects live_set b)"
proof -
  have "board_inv c \<Longrightarrow> board_inv (fold retain_one ps c)" for ps c
    by (induction ps arbitrary: c) (auto intro: retain_one_inv)
  then show "board_inv b \<Longrightarrow> ?thesis" by (simp add: retain_projects_def)
qed

datatype board_input =
    ApplyOp project_id author inbox_operation u64
  | Tick u64
  | PaneGone pane_id
  | KeepProjects "project_id bset"

fun board_step :: "board_input \<Rightarrow> board \<Rightarrow> board \<times> (inbox_error + nat option)" where
  "board_step (ApplyOp p a op now) b = board_apply p a op now b"
| "board_step (Tick now) b = (expire now b, Inr None)"
| "board_step (PaneGone pane) b = (forget_pane pane b, Inr None)"
| "board_step (KeepProjects ps) b = (retain_projects ps b, Inr None)"

interpretation bd: reducer board_default board_step board_inv
proof
  show "board_inv board_default" by (rule board_default_inv)
  show "board_inv s \<Longrightarrow> board_inv (fst (board_step e s))" for s e
    by (cases e) (auto intro: board_apply_inv expire_inv forget_pane_inv retain_projects_inv)
qed

definition board_run :: "board_input list \<Rightarrow> board" where
  "board_run xs = fold (\<lambda>x b. fst (board_step x b)) xs board_default"

lemma board_run_eq: "board_run xs = bd.replay xs board_default"
proof -
  have "fold (\<lambda>x b. fst (board_step x b)) xs c = bd.replay xs c" for c
    by (induction xs arbitrary: c) simp_all
  then show ?thesis by (simp add: board_run_def)
qed

lemma board_run_inv: "board_inv (board_run xs)"
  unfolding board_run_eq by (rule bd.replay_init_inv)

section \<open>Properties\<close>

text \<open>
  C13. The inbox stays bounded and exact. Whatever operations, expiries, pane closures and
  Project deletions reach the board, accepted or not: at most 4000 posts, 1000 per Project,
  8192 bytes a body and 8 MiB of payload (with the byte count exact); the Project index is
  exact; change numbers are unique; a claim is held on a thread root only, no longer than
  its post lives, and by at most one post per task; and the journal, of at most 4096 events,
  holds the payload of no post that was removed.
\<close>

theorem inbox_bounded_and_exact: "board_inv (board_run xs)"
  by (rule board_run_inv)

lemma retain_one_entries:
  assumes "board_inv b"
  shows "mlookup (bd_entries (retain_one p b)) k
     = (case mlookup (bd_entries b) k of None \<Rightarrow> None | Some e \<Rightarrow> if m_project (e_message e) = p then None else Some e)"
proof -
  have "mlookup (bd_entries (retain_one p b)) k = (if k \<in> set (project_ids p b) then None else mlookup (bd_entries b) k)"
    by (simp add: retain_one_def Let_def remove_all_entries)
  moreover have "index_inv b" using assms by (simp add: board_inv_def)
  ultimately show ?thesis by (auto simp: set_project_ids split: option.split)
qed

lemma retain_fold_entries:
  "board_inv b \<Longrightarrow> mlookup (bd_entries (fold retain_one ps b)) k
     = (case mlookup (bd_entries b) k of None \<Rightarrow> None | Some e \<Rightarrow> if m_project (e_message e) \<in> set ps then None else Some e)"
proof (induction ps arbitrary: b)
  case (Cons p ps)
  from Cons.IH [OF retain_one_inv [OF Cons.prems, of p]] show ?case
    by (auto simp: retain_one_entries [OF Cons.prems] split: option.split)
qed (simp split: option.split)

text \<open>
  Deleting Projects erases their conversations. After the structural deletion of every
  Project outside a set, no post of another Project remains, neither in the projection nor
  as a payload in the journal.
\<close>

theorem deleted_projects_leave_nothing:
  assumes "b = retain_projects live_set (board_run xs)"
  shows "(\<forall>i e. mlookup (bd_entries b) i = Some e \<longrightarrow> bset_mem (m_project (e_message e)) live_set)
     \<and> (\<forall>s m. (s, PostEv m) \<in> set (bd_journal b) \<longrightarrow> bset_mem (m_project m) live_set)"
proof -
  let ?b0 = "board_run xs"
  have inv0: "board_inv ?b0" by (rule board_run_inv)
  have live_entry: "bset_mem (m_project (e_message e)) live_set" if "mlookup (bd_entries b) i = Some e" for i e
  proof (rule ccontr)
    assume gone: "\<not> bset_mem (m_project (e_message e)) live_set"
    from that have e0: "mlookup (bd_entries ?b0) i = Some e"
      and notin: "m_project (e_message e) \<notin> set (filter (\<lambda>p. \<not> bset_mem p live_set) (map fst (RBT.entries (bd_changed ?b0))))"
      by (auto simp: assms retain_projects_def retain_fold_entries [OF inv0] split: option.splits if_splits)
    from e0 inv0 have "placed ?b0 i e" unfolding board_inv_def entries_inv_def by blast
    then obtain n where "mlookup (bd_changed ?b0) (m_project (e_message e)) = Some n"
      by (auto simp: placed_def)
    then have "m_project (e_message e) \<in> set (map fst (RBT.entries (bd_changed ?b0)))"
      by (force simp: entries_iff [symmetric])
    with gone notin show False by simp
  qed
  moreover have "board_inv b" unfolding assms by (rule retain_projects_inv [OF inv0])
  then have "\<exists>e. mlookup (bd_entries b) (m_id m) = Some e \<and> e_message e = m" if "(s, PostEv m) \<in> set (bd_journal b)" for s m
    using that unfolding board_inv_def journal_inv_def by blast
  ultimately show ?thesis by blast
qed

lemma set_project_entries:
  assumes "index_inv b"
  shows "e \<in> set (project_entries p b) \<longleftrightarrow> (\<exists>i. mlookup (bd_entries b) i = Some e) \<and> m_project (e_message e) = p"
proof -
  have "set (project_entries p b) = {e. \<exists>i\<in>set (project_ids p b). mlookup (bd_entries b) i = Some e}"
    by (force simp: project_entries_def List.map_filter_def)
  then show ?thesis using set_project_ids [OF assms] by fastforce
qed

lemma distinct_map_partial:
  assumes "distinct ks" and "\<And>i j e f. m i = Some e \<Longrightarrow> m j = Some f \<Longrightarrow> i \<noteq> j \<Longrightarrow> g e \<noteq> g f"
  shows "distinct (map g (List.map_filter m ks))"
  using assms(1)
proof (induction ks)
  case (Cons k ks)
  then show ?case using assms(2) [of k]
    by (cases "m k") (auto simp: List.map_filter_def, metis)
qed (simp add: List.map_filter_def)

lemma distinct_changed:
  assumes "entries_inv b"
  shows "distinct (map e_changed (project_entries p b))"
  unfolding project_entries_def
proof (rule distinct_map_partial)
  show "distinct (project_ids p b)"
    by (simp add: project_ids_def distinct_bset_elems split: option.split)
  show "mlookup (bd_entries b) i = Some e \<Longrightarrow> mlookup (bd_entries b) j = Some f \<Longrightarrow> i \<noteq> j \<Longrightarrow> e_changed e \<noteq> e_changed f"
    for i j e f
    using assms unfolding entries_inv_def apart_def by blast
qed

text \<open>A prefix of a list sorted by distinct keys is the part up to the key of its last element.\<close>

lemma take_upto_last:
  assumes "sorted (map g xs)" and "distinct (map g xs)" and "0 < n" and "n \<le> length xs"
  shows "set (take n xs) = {x \<in> set xs. g x \<le> g (last (take n xs))}"
proof -
  have lst: "last (take n xs) = xs ! (n - 1)" using assms(3,4) by (subst last_conv_nth) (auto simp: min_def)
  have "sorted_wrt (<) (map g xs)" using assms(1,2) by (simp add: strict_sorted_iff)
  then have lt: "g (xs ! i) < g (xs ! j)" if "i < j" "j < length xs" for i j
    using sorted_wrt_nth_less [of "(<)" "map g xs" i j] that by simp
  have le: "g (xs ! i) \<le> g (xs ! j) \<longleftrightarrow> i \<le> j" if "i < length xs" "j < length xs" for i j
    using lt [of i j] lt [of j i] that by (cases i j rule: linorder_cases) auto
  show ?thesis
  proof (intro set_eqI iffI)
    fix x assume "x \<in> set (take n xs)"
    then obtain i where "i < n" "x = xs ! i" "i < length xs" by (auto simp: in_set_conv_nth)
    then show "x \<in> {x \<in> set xs. g x \<le> g (last (take n xs))}" using le [of i "n - 1"] assms(4) by (auto simp: lst)
  next
    fix x assume "x \<in> {x \<in> set xs. g x \<le> g (last (take n xs))}"
    then obtain i where i: "i < length xs" "x = xs ! i" "g (xs ! i) \<le> g (xs ! (n - 1))"
      by (auto simp: in_set_conv_nth lst)
    then have "i < n" using le [of i "n - 1"] assms(3,4) by linarith
    then show "x \<in> set (take n xs)" using i by (auto simp: in_set_conv_nth)
  qed
qed

text \<open>What a reader subscribed to a Project, and perhaps to one thread, should see.\<close>

definition due :: "project_id \<Rightarrow> nat option \<Rightarrow> nat \<Rightarrow> board \<Rightarrow> inbox_entry set" where
  "due p thread after b = {e. (\<exists>i. mlookup (bd_entries b) i = Some e) \<and> m_project (e_message e) = p
     \<and> after < e_changed e \<and> (\<forall>t. thread = Some t \<longrightarrow> m_thread (e_message e) = t)}"

lemma board_list_page:
  assumes inv: "board_inv b" and pg: "board_list p after thread limit b = Inr pg"
  shows "set (pg_entries pg) = {e \<in> due p thread after b. e_changed e \<le> pg_cursor pg}
     \<and> sorted (map e_changed (pg_entries pg)) \<and> distinct (map e_changed (pg_entries pg))
     \<and> length (pg_entries pg) \<le> 20 \<and> pg_floor pg = bd_floor b
     \<and> after \<le> pg_cursor pg \<and> pg_cursor pg \<le> bd_sequence b
     \<and> (if pg_more pg then after < pg_cursor pg else pg_cursor pg = bd_sequence b)"
proof -
  define fs where "fs = filter (\<lambda>e. e_changed e > after
      \<and> (case thread of None \<Rightarrow> True | Some t \<Rightarrow> m_thread (e_message e) = t)) (project_entries p b)"
  define es where "es = sort_key e_changed fs"
  define n where "n = max 1 (min limit 20)"
  have idx: "index_inv b" and ent: "entries_inv b" using inv by (simp_all add: board_inv_def)
  from pg have ok: "after \<le> bd_sequence b" and pgd: "pg = \<lparr>pg_entries = take n es,
      pg_cursor = (if length es > n then (if take n es = [] then after else e_changed (last (take n es))) else bd_sequence b),
      pg_floor = bd_floor b, pg_more = (length es > n), pg_paused = bset_mem p (bd_paused b)\<rparr>"
    by (auto simp: board_list_def validate_cursor_def Let_def es_def fs_def n_def split: if_splits)
  have st: "set es = due p thread after b"
    using set_project_entries [OF idx, of _ p]
    by (auto simp: es_def fs_def due_def split: option.splits)
  have srt: "sorted (map e_changed es)" by (simp add: es_def)
  have dst: "distinct (map e_changed es)"
    using distinct_map_filter [OF distinct_changed [OF ent]] unfolding es_def fs_def distinct_map by simp
  have n: "0 < n" "n \<le> 20" by (simp_all add: n_def)
  have top: "e_changed e \<le> bd_sequence b" if "e \<in> set es" for e
    using that ent unfolding st due_def entries_inv_def placed_def entry_ok_def by blast
  show ?thesis
  proof (cases "length es > n")
    case True
    then have ne: "take n es \<noteq> []" using n by auto
    then have "last (take n es) \<in> set es" using last_in_set [OF ne] set_take_subset [of n es] by blast
    moreover from this have "after < e_changed (last (take n es))" unfolding st due_def by blast
    ultimately show ?thesis
      using True ne n top take_upto_last [OF srt dst n(1)] sorted_wrt_take [OF srt, of n] distinct_take [OF dst, of n] st
      by (simp add: pgd take_map)
  next
    case False
    then show ?thesis using ok top srt dst n st by (auto simp: pgd)
  qed
qed

subsection \<open>A held claim\<close>

lemma release_all_other:
  "k \<notin> set ks \<Longrightarrow> mlookup (bd_entries (release_all ks b)) k = mlookup (bd_entries b) k"
proof (induction ks arbitrary: b)
  case (Cons j ks)
  then have "mlookup (bd_entries (board_record (ClaimEv j None) b)) k = mlookup (bd_entries b) k"
    by (simp add: record_entries split: option.split)
  with Cons show ?case by (simp add: release_all_def)
qed (simp add: release_all_def)

lemma ids_where_iff:
  assumes "board_inv b"
  shows "k \<in> set (ids_where P b) \<longleftrightarrow> (\<exists>e. mlookup (bd_entries b) k = Some e \<and> P e)"
proof -
  have "m_id (e_message e) = k" if "mlookup (bd_entries b) k = Some e" for k e
    using assms that unfolding board_inv_def entries_inv_def placed_def entry_ok_def by blast
  then show ?thesis by (auto simp: ids_where_def mvalues_iff image_iff)
qed

lemma expire_keeps:
  assumes inv: "board_inv b" and e: "mlookup (bd_entries b) i = Some e"
    and live: "now < m_expires_ms (e_message e)" "\<not> claim_expired now e"
  shows "mlookup (bd_entries (expire now b)) i = Some e"
proof -
  let ?gone = "ids_where (\<lambda>e. m_expires_ms (e_message e) \<le> now) b"
  let ?b = "remove_all ?gone b"
  have kept: "mlookup (bd_entries ?b) i = Some e"
    using live(1) e by (simp add: remove_all_entries ids_where_iff [OF inv])
  have "i \<notin> set (ids_where (claim_expired now) ?b)"
    using live(2) kept by (simp add: ids_where_iff [OF remove_all_inv [OF inv]])
  then show ?thesis using kept by (simp add: expire_def Let_def release_all_other)
qed

definition holds_claim :: "nat \<Rightarrow> inbox_claim \<Rightarrow> nat \<Rightarrow> board \<Rightarrow> bool" where
  "holds_claim i c rv b = (case mlookup (bd_entries b) i of None \<Rightarrow> False
     | Some e \<Rightarrow> e_claim e = Some c \<and> e_revision e = rv)"

lemma post_keeps_claim:
  assumes "board_inv b" and "holds_claim i c rv b"
  shows "holds_claim i c rv (fst (op_post p a kind body r tgt task key ttl now b))"
proof -
  from assms(2) obtain e where "mlookup (bd_entries b) i = Some e"
    by (auto simp: holds_claim_def split: option.splits)
  with assms(1) have "i \<le> bd_sequence b"
    unfolding board_inv_def entries_inv_def placed_def entry_ok_def by blast
  with assms(2) show ?thesis
    by (auto simp: op_post_def holds_claim_def record_entries split: option.splits sum.splits)
qed

lemma ack_keeps_claim: "holds_claim i c rv b \<Longrightarrow> holds_claim i c rv (fst (op_ack p a j b))"
  by (auto simp: op_ack_def holds_claim_def record_entries entry_in_def split: option.splits)

lemma claim_keeps_claim:
  "holds_claim i c rv b \<Longrightarrow> cl_owner c \<noteq> a \<Longrightarrow> holds_claim i c rv (fst (op_claim p a j revision lease now b))"
  by (auto simp: op_claim_def holds_claim_def owned_by_def record_entries entry_in_def split: option.splits)

lemma release_keeps_claim:
  "holds_claim i c rv b \<Longrightarrow> cl_owner c \<noteq> a \<Longrightarrow> a \<noteq> Human \<Longrightarrow>
     holds_claim i c rv (fst (op_release p a j revision b))"
  by (auto simp: op_release_def holds_claim_def owned_by_def record_entries entry_in_def split: option.splits)

lemmas keeps_claim = post_keeps_claim ack_keeps_claim claim_keeps_claim release_keeps_claim

text \<open>
  C21. A claim is exclusive. While the lease of a claim runs, no operation of another agent,
  of any kind, on any post of any Project, accepted or refused, ends, replaces or renews it:
  the claim and the revision of the claimed post are unchanged. Only the owner, the human
  and the clock can take work away.
\<close>

theorem claim_is_exclusive:
  assumes inv: "board_inv b" and held: "holds_claim i c rv b"
    and other: "a \<noteq> cl_owner c" "a \<noteq> Human" and running: "now < cl_expires_ms c"
  shows "holds_claim i c rv (fst (board_apply p a op now b))"
proof -
  let ?b = "retain_rates now (expire now b)"
  from held obtain e where e: "mlookup (bd_entries b) i = Some e" "e_claim e = Some c"
    by (auto simp: holds_claim_def split: option.splits)
  with inv have "entry_ok (bd_sequence b) i e"
    unfolding board_inv_def entries_inv_def placed_def by blast
  then have "now < m_expires_ms (e_message e)" "\<not> claim_expired now e"
    using e(2) running by (auto simp: entry_ok_def claim_expired_def)
  from expire_keeps [OF inv e(1) this] held e have h: "holds_claim i c rv ?b"
    by (simp add: holds_claim_def retain_rates_def)
  have inv': "board_inv ?b" using inv by (simp add: retain_rates_def board_inv_frame expire_inv)
  have grant: "holds_claim i c rv (board_record (GrantEv a) ?b)"
    using h by (simp add: holds_claim_def record_entries)
  show ?thesis
    using h inv' other grant
    by (cases op) (auto simp: board_apply_def Let_def intro!: keeps_claim split: sum.split)
qed

section \<open>A concrete history\<close>

definition demo_post :: "str \<Rightarrow> u64 \<Rightarrow> inbox_operation" where
  "demo_post key ttl = Post Plan (lit ''do it'') None None None key ttl"

text \<open>Three posts by the human, a claim of the first by an agent, then the third expires.\<close>

definition demo_inputs :: "board_input list" where
  "demo_inputs =
     [ApplyOp (ProjectId 1) Human (demo_post (lit ''a'') 100000) 5,
      ApplyOp (ProjectId 1) Human (demo_post (lit ''b'') 100000) 5,
      ApplyOp (ProjectId 1) Human (demo_post (lit ''c'') 1000) 5,
      ApplyOp (ProjectId 1) (AgentAuthor (PaneId 7) 1) (ClaimOp 1 0 60000) 6,
      Tick 2000]"

definition demo_claim :: inbox_claim where
  "demo_claim = \<lparr>cl_owner = AgentAuthor (PaneId 7) 1, cl_revision = 1, cl_expires_ms = 60006\<rparr>"

definition demo_retry :: "board \<Rightarrow> board \<times> (inbox_error + nat option)" where
  "demo_retry b = op_post (ProjectId 1) Human Plan (lit ''do it'') None None None (lit ''d'') 1000 3000 b"

definition demo_checks :: "board \<Rightarrow> bool" where
  "demo_checks b \<longleftrightarrow> holds_claim 1 demo_claim 1 b \<and> mlookup (bd_entries b) 1 \<noteq> None
     \<and> (case board_list (ProjectId 1) 0 None 1 b of Inl _ \<Rightarrow> False
          | Inr pg \<Rightarrow> pg_more pg \<and> pg_cursor pg < pg_floor pg)
     \<and> snd (demo_retry b) = Inr (Some 6)"

lemma demo_checked: "demo_checks (board_run demo_inputs)"
  by code_simp

lemma demo_page:
  obtains pg where "board_list (ProjectId 1) 0 None 1 (board_run demo_inputs) = Inr pg"
    and "pg_more pg" and "pg_cursor pg < pg_floor pg"
  using demo_checked by (auto simp: demo_checks_def split: sum.splits)

theorem claim_is_exclusive_witness:
  "holds_claim 1 demo_claim 1 (fst (board_apply (ProjectId 1) (AgentAuthor (PaneId 8) 2) (ClaimOp 1 1 60000) 3000
     (board_run demo_inputs)))"
proof (rule claim_is_exclusive [OF board_run_inv])
  show "holds_claim 1 demo_claim 1 (board_run demo_inputs)" using demo_checked by (simp add: demo_checks_def)
qed (simp_all add: demo_claim_def)

theorem deleted_projects_leave_nothing_witness:
  "mlookup (bd_entries (board_run demo_inputs)) 1 \<noteq> None
     \<and> mlookup (bd_entries (retain_projects RBT.empty (board_run demo_inputs))) 1 = None"
proof
  show "mlookup (bd_entries (board_run demo_inputs)) 1 \<noteq> None" using demo_checked by (simp add: demo_checks_def)
  show "mlookup (bd_entries (retain_projects RBT.empty (board_run demo_inputs))) 1 = None"
    using deleted_projects_leave_nothing [OF refl, of RBT.empty demo_inputs] by auto
qed

section \<open>Pages and retries\<close>

text \<open>
  C22. A page is exact. A page read from a reachable board holds, in order of change and
  without repetition, precisely the posts of the Project (and thread) changed after the
  cursor presented and up to the cursor returned; the cursor always moves forward when more
  is announced, and otherwise covers everything recorded, so a reader that advances to the
  returned cursor neither misses nor repeats a change.
\<close>

theorem inbox_page_exact:
  assumes "board_list p after thread limit (board_run xs) = Inr pg"
  shows "set (pg_entries pg) = {e \<in> due p thread after (board_run xs). e_changed e \<le> pg_cursor pg}
     \<and> sorted (map e_changed (pg_entries pg)) \<and> distinct (map e_changed (pg_entries pg))
     \<and> length (pg_entries pg) \<le> 20 \<and> pg_floor pg = bd_floor (board_run xs)
     \<and> after \<le> pg_cursor pg \<and> pg_cursor pg \<le> bd_sequence (board_run xs)
     \<and> (if pg_more pg then after < pg_cursor pg else pg_cursor pg = bd_sequence (board_run xs))"
  by (rule board_list_page [OF board_run_inv assms])

theorem inbox_page_exact_witness:
  "\<exists>pg. board_list (ProjectId 1) 0 None 1 (board_run demo_inputs) = Inr pg \<and> pg_more pg \<and> 0 < pg_cursor pg"
proof -
  obtain pg where pg: "board_list (ProjectId 1) 0 None 1 (board_run demo_inputs) = Inr pg" "pg_more pg"
    by (rule demo_page)
  with inbox_page_exact [OF pg(1)] show ?thesis by auto
qed

text \<open>
  The cursor of a page can be dead on arrival. When more is announced and the returned
  cursor lies below the retention floor, which every removal raises to the current sequence
  number, continuing from it is refused as expired; starting again from zero, which is never
  refused, yields the same page. Posts past the first page are then out of the reach of a
  reader that follows the cursors.
\<close>

theorem inbox_cursor_below_floor:
  assumes "board_list p 0 thread limit (board_run xs) = Inr pg" and "pg_more pg"
    and "pg_cursor pg < pg_floor pg"
  shows "board_list p (pg_cursor pg) thread limit' (board_run xs) = Inl CursorExpired"
  using board_list_page [OF board_run_inv assms(1)] assms(2,3)
  by (auto simp: board_list_def [of p "pg_cursor pg"] validate_cursor_def)

theorem inbox_cursor_below_floor_witness:
  "\<exists>pg. board_list (ProjectId 1) 0 None 1 (board_run demo_inputs) = Inr pg \<and> pg_more pg
     \<and> board_list (ProjectId 1) (pg_cursor pg) None 20 (board_run demo_inputs) = Inl CursorExpired"
  using demo_page inbox_cursor_below_floor by metis

lemma find_keyed:
  assumes "e \<in> set es" and "P e" and "\<And>f. f \<in> set es \<Longrightarrow> P f \<Longrightarrow> f = e"
  shows "find P es = Some e"
proof (cases "find P es")
  case None
  with assms(1,2) show ?thesis by (auto simp: find_None_iff)
next
  case (Some f)
  then have "f \<in> set es" "P f" by (auto simp: find_Some_iff)
  then have "f = e" by (rule assms(3))
  with Some show ?thesis by blast
qed

text \<open>After an accepted post, the search for its author and key finds exactly that post.\<close>

lemma posted_is_found:
  assumes inv: "board_inv b"
    and ok: "op_post p a kind body r tgt task key ttl now b = (b1, Inr (Some i))"
  obtains e where "find (\<lambda>e. m_author (e_message e) = a \<and> m_key (e_message e) = key) (project_entries p b1) = Some e"
    and "m_id (e_message e) = i" and "same_post kind body r tgt task ttl (e_message e)"
proof (cases "find (\<lambda>e. m_author (e_message e) = a \<and> m_key (e_message e) = key) (project_entries p b)")
  case (Some e)
  then show ?thesis using ok that by (auto simp: op_post_def split: if_splits)
next
  case None
  from ok None obtain thread expires where b1: "b1 = board_record (PostEv \<lparr>m_id = bd_sequence b + 1,
      m_project = p, m_author = a, m_kind = kind, m_body = body, m_reply_to = r, m_thread = thread, m_to = tgt,
      m_task = task, m_key = key, m_created_ms = now, m_expires_ms = expires, m_ttl_ms = ttl\<rparr>) b"
    and i: "i = bd_sequence b + 1"
    by (auto simp: op_post_def split: if_splits sum.splits)
  from b1 obtain e where ents: "bd_entries b1 = RBT.insert i e (bd_entries b)"
    and e: "m_project (e_message e) = p" "m_author (e_message e) = a" "m_key (e_message e) = key"
      "m_id (e_message e) = i" "same_post kind body r tgt task ttl (e_message e)"
    by (simp add: record_entries i same_post_def)
  have "board_inv b1" using op_post_inv [OF inv, of p a kind body r tgt task key ttl now] by (simp add: ok)
  then have idx: "index_inv b" "index_inv b1" using inv by (simp_all add: board_inv_def)
  have "find (\<lambda>e. m_author (e_message e) = a \<and> m_key (e_message e) = key) (project_entries p b1) = Some e"
  proof (rule find_keyed)
    show "e \<in> set (project_entries p b1)" using e(1) by (auto simp: set_project_entries [OF idx(2)] ents)
    fix f assume "f \<in> set (project_entries p b1)" and f: "m_author (e_message f) = a \<and> m_key (e_message f) = key"
    moreover have "f \<notin> set (project_entries p b)" using None f by (auto simp: find_None_iff)
    ultimately show "f = e" by (auto simp: set_project_entries [OF idx(1)] set_project_entries [OF idx(2)] ents split: if_splits)
  qed (use e in simp)
  then show ?thesis using e that by blast
qed

text \<open>
  Posting is idempotent by key. Once a post is accepted, any later post by the same author
  with the same key in that Project leaves the board as it is, capacity, rate and thread limits
  notwithstanding: the identical request is answered with the original id, and a different
  one is refused as a conflict.
\<close>

theorem post_is_idempotent:
  assumes "board_inv b" and "op_post p a kind body r tgt task key ttl now b = (b1, Inr (Some i))"
    and "\<not> post_invalid body' key ttl'"
  shows "op_post p a kind' body' r' tgt' task' key ttl' now' b1
     = (b1, if (kind', body', r', tgt', task', ttl') = (kind, body, r, tgt, task, ttl) then Inr (Some i)
            else Inl IdempotencyConflict)"
proof -
  from posted_is_found [OF assms(1,2)] obtain e
    where "find (\<lambda>e. m_author (e_message e) = a \<and> m_key (e_message e) = key) (project_entries p b1) = Some e"
      and "m_id (e_message e) = i" and "same_post kind body r tgt task ttl (e_message e)"
    by blast
  with assms(3) show ?thesis by (auto simp: op_post_def same_post_def)
qed

theorem post_is_idempotent_witness:
  "op_post (ProjectId 1) Human Plan (lit ''do it'') None None None (lit ''d'') 1000 4000
     (fst (demo_retry (board_run demo_inputs))) = (fst (demo_retry (board_run demo_inputs)), Inr (Some 6))"
proof -
  let ?r = "demo_retry (board_run demo_inputs)"
  have "?r = (fst ?r, Inr (Some 6))" using demo_checked by (metis demo_checks_def prod.collapse)
  moreover have "\<not> post_invalid (lit ''do it'') (lit ''d'') 1000" by code_simp
  ultimately show ?thesis
    using post_is_idempotent [OF board_run_inv, of "ProjectId 1" Human Plan "lit ''do it''" None None None "lit ''d''" 1000 3000]
    unfolding demo_retry_def by simp
qed

end
