(* ===== verification/Utf8.thy ===== *)
theory Utf8
  imports Interfaces
begin

text \<open>
  The UTF-8 codec of the Rust standard library, as the sources use it: \<^verbatim>\<open>str::as_bytes\<close>,
  \<^verbatim>\<open>char::encode_utf8\<close> and the strict decoder behind \<^verbatim>\<open>String::from_utf8\<close> and
  \<^verbatim>\<open>str::from_utf8\<close>, which refuses overlong forms, surrogates and numbers above 10FFFF;
  with the searches and splits on strings (\<^verbatim>\<open>trim\<close>, \<^verbatim>\<open>lines\<close>, \<^verbatim>\<open>split_once\<close>). A byte is a
  natural number below 256.
\<close>

type_synonym byte = nat

section \<open>Scalar values\<close>

definition is_scalar :: "rchar \<Rightarrow> bool" where
  "is_scalar c \<longleftrightarrow> c < 0x110000 \<and> \<not> (0xD800 \<le> c \<and> c \<le> 0xDFFF)"

definition is_str :: "str \<Rightarrow> bool" where
  "is_str s = list_all is_scalar s"

definition encode_utf8 :: "rchar \<Rightarrow> byte list" where
  "encode_utf8 c =
     (if c < 0x80 then [c]
      else if c < 0x800 then [0xC0 + c div 64, 0x80 + c mod 64]
      else if c < 0x10000 then [0xE0 + c div 4096, 0x80 + c div 64 mod 64, 0x80 + c mod 64]
      else [0xF0 + c div 262144, 0x80 + c div 4096 mod 64, 0x80 + c div 64 mod 64, 0x80 + c mod 64])"

definition as_bytes :: "str \<Rightarrow> byte list" where
  "as_bytes s = concat (map encode_utf8 s)"

definition is_cont :: "byte \<Rightarrow> bool" where
  "is_cont b \<longleftrightarrow> 0x80 \<le> b \<and> b \<le> 0xBF"

text \<open>The range of the second byte depends on the first; this is where overlong forms end.\<close>

definition second_ok :: "byte \<Rightarrow> byte \<Rightarrow> bool" where
  "second_ok b0 b1 =
     (if b0 = 0xE0 then 0xA0 \<le> b1 \<and> b1 \<le> 0xBF
      else if b0 = 0xED then 0x80 \<le> b1 \<and> b1 \<le> 0x9F
      else if b0 = 0xF0 then 0x90 \<le> b1 \<and> b1 \<le> 0xBF
      else if b0 = 0xF4 then 0x80 \<le> b1 \<and> b1 \<le> 0x8F
      else is_cont b1)"

definition utf8_next :: "byte list \<Rightarrow> (rchar \<times> byte list) option" where
  "utf8_next bs =
     (case bs of
        [] \<Rightarrow> None
      | b0 # r0 \<Rightarrow>
          if b0 < 0x80 then Some (b0, r0)
          else if 0xC2 \<le> b0 \<and> b0 \<le> 0xDF then
            (case r0 of
               b1 # r1 \<Rightarrow> if is_cont b1 then Some ((b0 - 0xC0) * 64 + (b1 - 0x80), r1) else None
             | _ \<Rightarrow> None)
          else if 0xE0 \<le> b0 \<and> b0 \<le> 0xEF then
            (case r0 of
               b1 # b2 # r2 \<Rightarrow>
                 if second_ok b0 b1 \<and> is_cont b2
                 then Some ((b0 - 0xE0) * 4096 + (b1 - 0x80) * 64 + (b2 - 0x80), r2) else None
             | _ \<Rightarrow> None)
          else if 0xF0 \<le> b0 \<and> b0 \<le> 0xF4 then
            (case r0 of
               b1 # b2 # b3 # r3 \<Rightarrow>
                 if second_ok b0 b1 \<and> is_cont b2 \<and> is_cont b3
                 then Some ((b0 - 0xF0) * 262144 + (b1 - 0x80) * 4096 + (b2 - 0x80) * 64 + (b3 - 0x80), r3)
                 else None
             | _ \<Rightarrow> None)
          else None)"

lemma utf8_next_shorter: "utf8_next bs = Some (c, r) \<Longrightarrow> length r < length bs"
  by (auto simp: utf8_next_def split: list.splits if_splits)

function from_utf8 :: "byte list \<Rightarrow> str option" where
  "from_utf8 bs =
     (if bs = [] then Some []
      else case utf8_next bs of
             None \<Rightarrow> None
           | Some (c, r) \<Rightarrow> map_option ((#) c) (from_utf8 r))"
  by pat_completeness auto
termination by (relation "measure length") (auto dest: utf8_next_shorter)

declare from_utf8.simps [simp del]

lemma from_utf8_Nil [simp]: "from_utf8 [] = Some []"
  by (simp add: from_utf8.simps)

subsection \<open>Round trips\<close>

text \<open>The base-64 digits of a number, so that what follows is linear arithmetic.\<close>

lemma digits64:
  fixes c :: nat
  obtains w x y z where "c = w * 262144 + x * 4096 + y * 64 + z" "x < 64" "y < 64" "z < 64"
    "c div 262144 = w" "c div 4096 = w * 64 + x" "c div 64 = w * 4096 + x * 64 + y"
    "c div 4096 mod 64 = x" "c div 64 mod 64 = y" "c mod 64 = z"
proof -
  let ?y = "c div 64" let ?x = "c div 64 div 64" let ?w = "c div 64 div 64 div 64"
  have e: "c div 4096 = ?x" "c div 262144 = ?w"
    using div_mult2_eq [of c 64 64] div_mult2_eq [of c 4096 64] by simp_all
  have "c = ?y * 64 + c mod 64" "?y = ?x * 64 + ?y mod 64" "?x = ?w * 64 + ?x mod 64"
    by (rule div_mult_mod_eq [symmetric])+
  moreover have "c mod 64 < 64" "?y mod 64 < 64" "?x mod 64 < 64" by simp_all
  ultimately show thesis
    by (intro that [of ?w "?x mod 64" "?y mod 64" "c mod 64"]) (unfold e, linarith+)
qed

lemma utf8_next_encode:
  assumes "is_scalar c"
  shows "utf8_next (encode_utf8 c @ r) = Some (c, r)"
proof -
  obtain w x y z where d: "c = w * 262144 + x * 4096 + y * 64 + z" "x < 64" "y < 64" "z < 64"
    and e: "c div 262144 = w" "c div 4096 = w * 64 + x" "c div 64 = w * 4096 + x * 64 + y"
      "c div 4096 mod 64 = x" "c div 64 mod 64 = y" "c mod 64 = z"
    by (rule digits64)
  have sc: "c < 0x110000" "\<not> (0xD800 \<le> c \<and> c \<le> 0xDFFF)" using assms by (auto simp: is_scalar_def)
  consider "c < 0x80" | "0x80 \<le> c" "c < 0x800" | "0x800 \<le> c" "c < 0x10000" | "0x10000 \<le> c" by linarith
  then show ?thesis
  proof cases
    case 1
    then show ?thesis by (simp add: encode_utf8_def utf8_next_def)
  next
    case 2
    then have "w = 0" "x = 0" using d by linarith+
    then have "2 \<le> y" "y \<le> 31" using d 2 by linarith+
    with \<open>w = 0\<close> \<open>x = 0\<close> have b: "encode_utf8 c = [0xC0 + y, 0x80 + z]" using 2 e by (simp add: encode_utf8_def)
    show ?thesis unfolding b using \<open>w = 0\<close> \<open>x = 0\<close> \<open>2 \<le> y\<close> \<open>y \<le> 31\<close> d by (simp add: utf8_next_def is_cont_def)
  next
    case 3
    then have "w = 0" using d by linarith
    then have w: "w = 0" "x \<le> 15" using d 3 by linarith+
    then have b: "encode_utf8 c = [0xE0 + x, 0x80 + y, 0x80 + z]" using 3 e by (simp add: encode_utf8_def)
    have "second_ok (0xE0 + x) (0x80 + y)"
      using 3 sc d w by (auto simp: second_ok_def is_cont_def)
    then show ?thesis unfolding b using w d by (simp add: utf8_next_def is_cont_def)
  next
    case 4
    then have w: "w \<le> 4" using d sc by linarith
    then have b: "encode_utf8 c = [0xF0 + w, 0x80 + x, 0x80 + y, 0x80 + z]" using 4 e by (simp add: encode_utf8_def)
    have "second_ok (0xF0 + w) (0x80 + x)"
      using 4 sc d w by (auto simp: second_ok_def is_cont_def)
    then show ?thesis unfolding b using w d by (simp add: utf8_next_def is_cont_def)
  qed
qed

lemma encode_utf8_nonempty [simp]: "encode_utf8 c \<noteq> []"
  by (simp add: encode_utf8_def)

lemma length_encode_utf8 [simp]: "length (encode_utf8 c) = utf8_len c"
  by (simp add: encode_utf8_def utf8_len_def)

lemma length_as_bytes [simp]: "length (as_bytes s) = str_len s"
  by (induction s) (simp_all add: as_bytes_def str_len_def)

lemma as_bytes_Cons: "as_bytes (c # s) = encode_utf8 c @ as_bytes s"
  by (simp add: as_bytes_def)

lemma as_bytes_append: "as_bytes (s @ t) = as_bytes s @ as_bytes t"
  by (simp add: as_bytes_def)

lemma from_utf8_as_bytes: "is_str s \<Longrightarrow> from_utf8 (as_bytes s) = Some s"
proof (induction s)
  case (Cons c s)
  then have "utf8_next (encode_utf8 c @ as_bytes s) = Some (c, as_bytes s)"
    by (simp add: is_str_def utf8_next_encode)
  with Cons show ?case
    by (simp add: from_utf8.simps [of "encode_utf8 c @ as_bytes s"] as_bytes_Cons is_str_def)
qed (simp add: as_bytes_def)

lemma compose64:
  fixes w x y z :: nat
  assumes "x < 64" "y < 64" "z < 64"
  shows "(w * 262144 + x * 4096 + y * 64 + z) div 64 = w * 4096 + x * 64 + y"
    and "(w * 262144 + x * 4096 + y * 64 + z) mod 64 = z"
    and "(w * 262144 + x * 4096 + y * 64 + z) div 4096 = w * 64 + x"
    and "(w * 262144 + x * 4096 + y * 64 + z) div 262144 = w"
proof -
  have one: "(a * 64 + b) div 64 = a" "(a * 64 + b) mod 64 = b" if "b < 64" for a b :: nat
    using that by simp_all
  have c: "w * 262144 + x * 4096 + y * 64 + z = ((w * 64 + x) * 64 + y) * 64 + z" by simp
  show a: "(w * 262144 + x * 4096 + y * 64 + z) div 64 = w * 4096 + x * 64 + y"
    and "(w * 262144 + x * 4096 + y * 64 + z) mod 64 = z"
    unfolding c using one [OF assms(3), of "(w * 64 + x) * 64 + y"] by simp_all
  have "(w * 262144 + x * 4096 + y * 64 + z) div 4096 = (w * 262144 + x * 4096 + y * 64 + z) div 64 div 64"
    by (simp add: div_mult2_eq [symmetric])
  also have "\<dots> = w * 64 + x" unfolding a using one(1) [OF assms(2), of "w * 64 + x"] by simp
  finally show b: "(w * 262144 + x * 4096 + y * 64 + z) div 4096 = w * 64 + x" .
  have "(w * 262144 + x * 4096 + y * 64 + z) div 262144 = (w * 262144 + x * 4096 + y * 64 + z) div 4096 div 64"
    by (simp add: div_mult2_eq [symmetric])
  also have "\<dots> = w" unfolding b using assms(1) by simp
  finally show "(w * 262144 + x * 4096 + y * 64 + z) div 262144 = w" .
qed

lemma encode_composed:
  fixes w x y z :: nat
  assumes "x < 64" "y < 64" "z < 64"
  shows "w = 0 \<Longrightarrow> x = 0 \<Longrightarrow> 2 \<le> y \<Longrightarrow> y < 32 \<Longrightarrow> encode_utf8 (y * 64 + z) = [0xC0 + y, 0x80 + z]"
    and "x < 16 \<Longrightarrow> x = 0 \<longrightarrow> 32 \<le> y \<Longrightarrow>
      encode_utf8 (x * 4096 + y * 64 + z) = [0xE0 + x, 0x80 + y, 0x80 + z]"
    and "w < 8 \<Longrightarrow> w = 0 \<longrightarrow> 16 \<le> x \<Longrightarrow>
      encode_utf8 (w * 262144 + x * 4096 + y * 64 + z) = [0xF0 + w, 0x80 + x, 0x80 + y, 0x80 + z]"
proof -
  note c = compose64 [OF assms]
  show "w = 0 \<Longrightarrow> x = 0 \<Longrightarrow> 2 \<le> y \<Longrightarrow> y < 32 \<Longrightarrow> encode_utf8 (y * 64 + z) = [0xC0 + y, 0x80 + z]"
    using assms(3) by (simp add: encode_utf8_def)
  assume "x < 16" "x = 0 \<longrightarrow> 32 \<le> y"
  moreover from this have "0x800 \<le> x * 4096 + y * 64 + z" by (cases x) auto
  moreover have "x * 4096 + y * 64 + z < 0x10000" using \<open>x < 16\<close> assms by linarith
  moreover have "(x * 64 + y) mod 64 = y" using assms by simp
  ultimately show "encode_utf8 (x * 4096 + y * 64 + z) = [0xE0 + x, 0x80 + y, 0x80 + z]"
    using c(1-3) [of 0] by (simp add: encode_utf8_def)
next
  note c = compose64 [OF assms, of w]
  assume "w < 8" "w = 0 \<longrightarrow> 16 \<le> x"
  moreover from this have "0x10000 \<le> w * 262144 + x * 4096 + y * 64 + z" by (cases w) auto
  moreover have "(w * 64 + x) mod 64 = x" "(w * 4096 + x * 64 + y) mod 64 = y"
    using assms mod_less [of y 64] mod_mult_self3 [of "w * 64 + x" 64 y] by (simp_all add: algebra_simps)
  ultimately show "encode_utf8 (w * 262144 + x * 4096 + y * 64 + z) = [0xF0 + w, 0x80 + x, 0x80 + y, 0x80 + z]"
    using c by (simp add: encode_utf8_def)
qed

lemma utf8_next_inverse:
  assumes "utf8_next bs = Some (c, r)"
  shows "is_scalar c \<and> bs = encode_utf8 c @ r"
proof -
  obtain b0 r0 where bs: "bs = b0 # r0" using assms by (cases bs) (auto simp: utf8_next_def)
  consider "b0 < 0x80" | "0xC2 \<le> b0 \<and> b0 \<le> 0xDF" | "0xE0 \<le> b0 \<and> b0 \<le> 0xEF" | "0xF0 \<le> b0 \<and> b0 \<le> 0xF4"
    using assms by (auto simp: bs utf8_next_def split: if_splits)
  then show ?thesis
  proof cases
    case 1
    then show ?thesis using assms by (auto simp: bs utf8_next_def is_scalar_def encode_utf8_def)
  next
    case 2
    then obtain b1 where b: "r0 = b1 # r" "is_cont b1" "c = (b0 - 0xC0) * 64 + (b1 - 0x80)"
      using assms by (auto simp: bs utf8_next_def split: list.splits if_splits)
    then have d: "b1 - 0x80 < 64" "2 \<le> b0 - 0xC0" "b0 - 0xC0 < 32" using 2 by (auto simp: is_cont_def)
    then have "encode_utf8 c = [b0, b1]"
      using encode_composed(1) [of 0 "b0 - 0xC0" "b1 - 0x80" 0] 2 b by (simp add: is_cont_def)
    moreover have "c < 0x800" using d by (simp add: b(3))
    ultimately show ?thesis by (simp add: bs b(1) is_scalar_def)
  next
    case 3
    then obtain b1 b2 where b: "r0 = b1 # b2 # r" "second_ok b0 b1" "is_cont b2"
      "c = (b0 - 0xE0) * 4096 + (b1 - 0x80) * 64 + (b2 - 0x80)"
      using assms by (auto simp: bs utf8_next_def split: list.splits if_splits)
    define x y z where d: "x = b0 - 0xE0" "y = b1 - 0x80" "z = b2 - 0x80"
    have v: "b0 = 0xE0 + x" "b1 = 0x80 + y" "b2 = 0x80 + z" "x < 16" "y < 64" "z < 64" "x = 0 \<longrightarrow> 32 \<le> y"
      "x = 13 \<longrightarrow> y < 32"
      using 3 b(2,3) unfolding d by (auto simp: is_cont_def second_ok_def split: if_splits)
    have c: "c = x * 4096 + y * 64 + z" using b(4) by (simp add: d)
    have "encode_utf8 c = [b0, b1, b2]" unfolding c using v encode_composed(2) [of x y z] by simp
    moreover have "is_scalar c" unfolding c is_scalar_def using v by (cases "x < 13"; cases "x = 13") auto
    ultimately show ?thesis by (simp add: bs b(1))
  next
    case 4
    then obtain b1 b2 b3 where b: "r0 = b1 # b2 # b3 # r" "second_ok b0 b1" "is_cont b2" "is_cont b3"
      "c = (b0 - 0xF0) * 262144 + (b1 - 0x80) * 4096 + (b2 - 0x80) * 64 + (b3 - 0x80)"
      using assms by (auto simp: bs utf8_next_def split: list.splits if_splits)
    define w x y z where d: "w = b0 - 0xF0" "x = b1 - 0x80" "y = b2 - 0x80" "z = b3 - 0x80"
    have v: "b0 = 0xF0 + w" "b1 = 0x80 + x" "b2 = 0x80 + y" "b3 = 0x80 + z" "w < 5" "x < 64" "y < 64" "z < 64"
      "w = 0 \<longrightarrow> 16 \<le> x" "w = 4 \<longrightarrow> x < 16"
      using 4 b(2-4) unfolding d by (auto simp: is_cont_def second_ok_def split: if_splits)
    have c: "c = w * 262144 + x * 4096 + y * 64 + z" using b(5) by (simp add: d)
    have "encode_utf8 c = [b0, b1, b2, b3]" unfolding c using v encode_composed(3) [of x y z w] by simp
    moreover have "is_scalar c" unfolding c is_scalar_def using v by (cases "w = 0"; cases "w = 4") auto
    ultimately show ?thesis by (simp add: bs b(1))
  qed
qed

lemma from_utf8_inverse: "from_utf8 bs = Some s \<Longrightarrow> is_str s \<and> bs = as_bytes s"
proof (induction bs arbitrary: s rule: from_utf8.induct)
  case (1 bs)
  show ?case
  proof (cases "bs = []")
    case True
    with 1 show ?thesis by (simp add: is_str_def as_bytes_def)
  next
    case False
    with 1(2) obtain c r t where n: "utf8_next bs = Some (c, r)" and t: "from_utf8 r = Some t" "s = c # t"
      by (auto simp: from_utf8.simps [of bs] split: option.splits)
    from 1(1) [OF False n refl t(1)] utf8_next_inverse [OF n] show ?thesis
      by (simp add: t(2) is_str_def as_bytes_Cons)
  qed
qed

lemma byte_bound: "is_scalar c \<Longrightarrow> b \<in> set (encode_utf8 c) \<Longrightarrow> b < 256"
  by (auto simp: encode_utf8_def is_scalar_def split: if_splits)

lemma as_bytes_bound: "is_str s \<Longrightarrow> b \<in> set (as_bytes s) \<Longrightarrow> b < 256"
  by (auto simp: as_bytes_def is_str_def list_all_iff dest: byte_bound)

interpretation utf8: codec as_bytes from_utf8 is_str
  by unfold_locales (rule from_utf8_as_bytes)

end
