(* ===== verification/Wire.thy ===== *)
theory Wire
  imports Utf8 "HOL-Library.Sublist"
begin

text \<open>
  The byte stream between clients and the server: the frame codec of
  \<^verbatim>\<open>crates/uniterm-proto/src/lib.rs\<close> (\<open>encode_frame\<close>, \<open>FrameDecoder\<close>), and the reading half of
  the server's client handler in \<^verbatim>\<open>crates/uniterm-server/src/server/io.rs\<close>, which pushes what a
  readiness event delivers and decodes every complete message. The payload codec
  \<^verbatim>\<open>bincode\<close> is a parameter: \<open>ser\<close> and \<open>de\<close>, with the law that decoding inverts encoding.
\<close>

section \<open>Frames\<close>

definition MAX_SERVER_FRAME :: nat where "MAX_SERVER_FRAME = 8 * 1024 * 1024"
definition MAX_CLIENT_FRAME :: nat where "MAX_CLIENT_FRAME = 2 * 1024 * 1024"

text \<open>\<^verbatim>\<open>u32::to_be_bytes\<close> and \<^verbatim>\<open>u32::from_be_bytes\<close>.\<close>

definition to_be_bytes :: "nat \<Rightarrow> byte list" where
  "to_be_bytes n = [n div 16777216 mod 256, n div 65536 mod 256, n div 256 mod 256, n mod 256]"

definition from_be_bytes :: "byte list \<Rightarrow> nat" where
  "from_be_bytes bs = fold (\<lambda>b n. n * 256 + b) (take 4 bs) 0"

definition encode_frame :: "('m \<Rightarrow> byte list) \<Rightarrow> 'm \<Rightarrow> byte list" where
  "encode_frame ser msg = (let payload = ser msg in to_be_bytes (length payload mod 2 ^ 32) @ payload)"

datatype frame_error = Oversized nat | BufferOverflow nat | Corrupt

record frame_decoder =
  fd_buf :: "byte list"
  fd_offset :: nat
  fd_max_frame :: nat
  fd_failed :: "frame_error option"

definition fd_new :: frame_decoder where
  "fd_new = \<lparr>fd_buf = [], fd_offset = 0, fd_max_frame = MAX_SERVER_FRAME, fd_failed = None\<rparr>"

definition with_max_frame :: "nat \<Rightarrow> frame_decoder" where
  "with_max_frame n = fd_new\<lparr>fd_max_frame := max n 1\<rparr>"

definition fd_push :: "byte list \<Rightarrow> frame_decoder \<Rightarrow> frame_decoder" where
  "fd_push data d0 =
     (if fd_failed d0 \<noteq> None then d0
      else
        (let d = (if fd_offset d0 \<noteq> 0 then d0\<lparr>fd_buf := drop (fd_offset d0) (fd_buf d0), fd_offset := 0\<rparr> else d0);
             max_buffer = fd_max_frame d + 4;
             new_len = length (fd_buf d) + length data
         in if new_len \<ge> 2 ^ 64 then d\<lparr>fd_failed := Some (BufferOverflow (2 ^ 64 - 1))\<rparr>
            else if new_len > max_buffer then d\<lparr>fd_failed := Some (BufferOverflow new_len)\<rparr>
            else
              (let d1 = d\<lparr>fd_buf := fd_buf d @ data\<rparr>;
                   len = from_be_bytes (fd_buf d1)
               in if length (fd_buf d1) \<ge> 4 \<and> len > fd_max_frame d1 then d1\<lparr>fd_failed := Some (Oversized len)\<rparr>
                  else d1)))"

definition fd_decode :: "(byte list \<Rightarrow> 'm option) \<Rightarrow> frame_decoder \<Rightarrow> frame_decoder \<times> (frame_error + 'm option)" where
  "fd_decode de d =
     (case fd_failed d of
        Some error \<Rightarrow> (d\<lparr>fd_failed := None, fd_buf := [], fd_offset := 0\<rparr>, Inl error)
      | None \<Rightarrow>
          (let pending = drop (fd_offset d) (fd_buf d)
           in if length pending < 4 then (d, Inr None)
              else
                (let len = from_be_bytes pending; total = 4 + len
                 in if len > fd_max_frame d then (d, Inl (Oversized len))
                    else if length pending < total then (d, Inr None)
                    else
                      (case de (drop 4 (take total pending)) of
                         None \<Rightarrow> (d, Inl Corrupt)
                       | Some msg \<Rightarrow>
                           (let d1 = d\<lparr>fd_offset := fd_offset d + total\<rparr>
                            in (if fd_offset d1 = length (fd_buf d1) then d1\<lparr>fd_buf := [], fd_offset := 0\<rparr> else d1,
                                Inr (Some msg)))))))"

section \<open>The reading half of the client handler\<close>

definition PTY_IO_BUDGET :: nat where "PTY_IO_BUDGET = 256 * 1024"
definition MAX_CLIENT_MESSAGES_PER_EVENT :: nat where "MAX_CLIENT_MESSAGES_PER_EVENT = 1024"

text \<open>What successive \<^verbatim>\<open>read\<close> calls on the socket return, each into a buffer of 8192 bytes.\<close>

datatype read_result = ReadData "byte list" | ReadEof | ReadBlock | ReadIntr | ReadErr

text \<open>The reading loop: the decoder, whether the client is removed, whether the budget is spent.\<close>

fun read_loop :: "nat \<Rightarrow> read_result list \<Rightarrow> frame_decoder \<Rightarrow> frame_decoder \<times> bool \<times> bool" where
  "read_loop n [] d = (d, False, n \<ge> PTY_IO_BUDGET)"
| "read_loop n (r # rs) d =
     (if n \<ge> PTY_IO_BUDGET then (d, False, True)
      else
        (case r of
           ReadData bs \<Rightarrow> read_loop (n + length bs) rs (fd_push bs d)
         | ReadEof \<Rightarrow> (d, True, False)
         | ReadBlock \<Rightarrow> (d, False, False)
         | ReadIntr \<Rightarrow> read_loop n rs d
         | ReadErr \<Rightarrow> (d, True, False)))"

text \<open>
  The decoding loop. \<open>k\<close> counts down the messages still allowed in this event; running out of
  it removes the client, as the source does.
\<close>

fun decode_loop :: "(byte list \<Rightarrow> 'm option) \<Rightarrow> nat \<Rightarrow> frame_decoder \<Rightarrow> frame_decoder \<times> 'm list \<times> bool" where
  "decode_loop de 0 d = (d, [], True)"
| "decode_loop de (Suc k) d =
     (case fd_decode de d of
        (d1, Inl _) \<Rightarrow> (d1, [], True)
      | (d1, Inr None) \<Rightarrow> (d1, [], False)
      | (d1, Inr (Some m)) \<Rightarrow> (let (d2, ms, r) = decode_loop de k d1 in (d2, m # ms, r)))"

definition client_read :: "(byte list \<Rightarrow> 'm option) \<Rightarrow> read_result list \<Rightarrow> frame_decoder
    \<Rightarrow> frame_decoder \<times> 'm list \<times> bool \<times> bool" where
  "client_read de rs d =
     (let (d1, remove, spent) = read_loop 0 rs d;
          (d2, ms, bad) = decode_loop de MAX_CLIENT_MESSAGES_PER_EVENT d1
      in (d2, ms, remove \<or> bad, spent \<and> \<not> (remove \<or> bad)))"

text \<open>Successive readiness events of one connection, all messages in order of arrival.\<close>

fun client_events :: "(byte list \<Rightarrow> 'm option) \<Rightarrow> read_result list list \<Rightarrow> frame_decoder
    \<Rightarrow> frame_decoder \<times> 'm list \<times> bool" where
  "client_events de [] d = (d, [], False)"
| "client_events de (rs # rss) d =
     (let (d1, ms, remove, _) = client_read de rs d
      in if remove then (d1, ms, True)
         else (let (d2, ms2, r2) = client_events de rss d1 in (d2, ms @ ms2, r2)))"

section \<open>What the decoder buffers\<close>

definition pending :: "frame_decoder \<Rightarrow> byte list" where
  "pending d = drop (fd_offset d) (fd_buf d)"

lemma be_bytes_round_trip:
  assumes "n < 2 ^ 32"
  shows "from_be_bytes (to_be_bytes n @ r) = n"
proof -
  have "n div 16777216 = n div 256 div 256 div 256" "n div 65536 = n div 256 div 256"
    by (simp_all add: div_mult2_eq [symmetric])
  moreover have "n div 256 div 256 div 256 < 256" using assms by (simp add: div_mult2_eq [symmetric])
  ultimately show ?thesis
    using div_mult_mod_eq [of n 256] div_mult_mod_eq [of "n div 256" 256] div_mult_mod_eq [of "n div 256 div 256" 256]
    by (simp add: from_be_bytes_def to_be_bytes_def)
qed

lemma length_to_be_bytes [simp]: "length (to_be_bytes n) = 4"
  by (simp add: to_be_bytes_def)

text \<open>
  What a connection has delivered: all messages and nothing left over, or a prefix of at
  least 1024 messages when the client was removed.
\<close>

definition delivered :: "'m list \<Rightarrow> frame_decoder \<times> 'm list \<times> bool \<Rightarrow> bool" where
  "delivered ms x = (case x of (d, ms', removed) \<Rightarrow> prefix ms' ms
     \<and> (if removed then MAX_CLIENT_MESSAGES_PER_EVENT \<le> length ms' else ms' = ms \<and> pending d = []))"

section \<open>Frames of a law-abiding payload codec\<close>

definition ready :: "nat \<Rightarrow> frame_decoder \<Rightarrow> bool" where
  "ready cap d \<longleftrightarrow> fd_failed d = None \<and> fd_offset d \<le> length (fd_buf d) \<and> cap \<le> fd_max_frame d
     \<and> fd_max_frame d < 2 ^ 32"

locale framed = codec ser de ok
  for ser :: "'m \<Rightarrow> byte list" and de :: "byte list \<Rightarrow> 'm option" and ok :: "'m \<Rightarrow> bool" +
  fixes cap :: nat
  assumes payload_len: "ok m \<Longrightarrow> length (ser m) \<le> cap"
begin

definition stream :: "'m list \<Rightarrow> byte list" where
  "stream ms = concat (map (encode_frame ser) ms)"

text \<open>What is buffered past the complete frames: a proper part of the next frame, if any.\<close>

definition partial :: "byte list \<Rightarrow> 'm list \<Rightarrow> bool" where
  "partial q ms = (case ms of [] \<Rightarrow> q = [] | m # _ \<Rightarrow> strict_prefix q (encode_frame ser m))"

lemma stream_simps [simp]: "stream [] = []" "stream (m # ms) = encode_frame ser m @ stream ms"
  by (simp_all add: stream_def)

lemma header:
  assumes "ok m" and "cap < 2 ^ 32"
  shows "encode_frame ser m = to_be_bytes (length (ser m)) @ ser m"
    and "from_be_bytes (encode_frame ser m @ r) = length (ser m)"
proof -
  have "length (ser m) < 2 ^ 32" using payload_len [OF assms(1)] assms(2) by linarith
  then show "encode_frame ser m = to_be_bytes (length (ser m)) @ ser m"
    and "from_be_bytes (encode_frame ser m @ r) = length (ser m)"
    using be_bytes_round_trip by (simp_all add: encode_frame_def Let_def)
qed

lemma ready_cap: "ready cap d \<Longrightarrow> cap < 2 ^ 32"
  by (simp add: ready_def)

lemma decode_complete:
  assumes "ready cap d" and "ok m" and "pending d = encode_frame ser m @ r"
  obtains d' where "fd_decode de d = (d', Inr (Some m))" and "ready cap d'" and "pending d' = r"
    and "fd_max_frame d' = fd_max_frame d"
proof -
  note h = header [OF assms(2) ready_cap [OF assms(1)]]
  let ?t = "4 + length (ser m)"
  have len: "length (pending d) = ?t + length r" and fb: "from_be_bytes (pending d) = length (ser m)"
    and body: "drop 4 (take ?t (pending d)) = ser m" and rest: "drop ?t (pending d) = r"
    using assms(3) h by simp_all
  have cap: "length (ser m) \<le> fd_max_frame d"
    using payload_len [OF assms(2)] assms(1) by (simp add: ready_def)
  let ?d1 = "d\<lparr>fd_offset := fd_offset d + ?t\<rparr>"
  let ?d' = "if fd_offset ?d1 = length (fd_buf ?d1) then ?d1\<lparr>fd_buf := [], fd_offset := 0\<rparr> else ?d1"
  have "fd_decode de d = (?d', Inr (Some m))"
    using assms(1) cap len fb body dec_enc [OF assms(2)]
    by (simp add: fd_decode_def ready_def pending_def [symmetric] Let_def)
  moreover have le: "fd_offset d + ?t \<le> length (fd_buf d)"
    using len assms(1) by (simp add: pending_def ready_def)
  then have "ready cap ?d'" using assms(1) by (simp add: ready_def)
  moreover have "pending ?d' = r"
    using rest by (auto simp: pending_def add.commute)
  moreover have "fd_max_frame ?d' = fd_max_frame d" by simp
  ultimately show ?thesis by (rule that)
qed

lemma decode_partial:
  assumes "ready cap d" and "partial (pending d) ms" and "list_all ok ms"
  shows "fd_decode de d = (d, Inr None)"
proof (cases "length (pending d) < 4")
  case True
  with assms(1) show ?thesis by (simp add: fd_decode_def ready_def pending_def [symmetric] Let_def)
next
  case False
  with assms(2) obtain m ms' where ms: "ms = m # ms'" and sp: "strict_prefix (pending d) (encode_frame ser m)"
    by (cases ms) (auto simp: partial_def)
  from ms assms(3) have m: "ok m" by simp
  note h = header [OF m ready_cap [OF assms(1)]]
  from sp obtain x where x: "encode_frame ser m = pending d @ x" "x \<noteq> []" by (auto elim: strict_prefixE')
  have "take 4 (pending d) = take 4 (encode_frame ser m @ [])" using x(1) False by simp
  then have fb: "from_be_bytes (pending d) = length (ser m)"
    using h(2) [of "[]"] unfolding from_be_bytes_def by metis
  moreover have "length (pending d) < 4 + length (ser m)"
    using arg_cong [OF x(1), of length] x(2) by (simp add: h(1))
  moreover have "length (ser m) \<le> fd_max_frame d"
    using payload_len [OF m] assms(1) by (simp add: ready_def)
  ultimately show ?thesis
    using assms(1) False by (simp add: fd_decode_def ready_def pending_def [symmetric] Let_def)
qed

lemma partial_prefix: "partial q ms \<Longrightarrow> prefix q (stream ms)"
  by (cases ms) (auto simp: partial_def intro: prefix_prefix)

text \<open>Every part of the stream is complete frames and a proper part of the next.\<close>

lemma split_stream:
  assumes "prefix p (stream ms)"
  obtains ms1 ms2 q where "ms = ms1 @ ms2" and "p = stream ms1 @ q" and "partial q ms2"
  using assms
proof (induction ms arbitrary: p thesis)
  case Nil
  then show ?case by (auto simp: partial_def)
next
  case (Cons m ms)
  show ?case
  proof (cases "prefix (encode_frame ser m) p")
    case True
    then obtain p' where p: "p = encode_frame ser m @ p'" by (auto elim: prefixE)
    with Cons.prems(2) have "prefix p' (stream ms)" by simp
    then obtain ms1 ms2 q where "ms = ms1 @ ms2" "p' = stream ms1 @ q" "partial q ms2" by (rule Cons.IH [rotated])
    with p show ?thesis by (intro Cons.prems(1) [of "m # ms1" ms2 q]) auto
  next
    case False
    with Cons.prems(2) have "strict_prefix p (encode_frame ser m)"
      using prefix_same_cases [of p "stream (m # ms)" "encode_frame ser m"] by (auto simp: strict_prefix_def)
    then show ?thesis by (intro Cons.prems(1) [of "[]" "m # ms" p]) (auto simp: partial_def)
  qed
qed

lemma length_stream_app: "stream (xs @ ys) = stream xs @ stream ys"
  by (simp add: stream_def)

lemma decode_loop_stream:
  assumes "ready cap d" and "pending d = stream ms1 @ q" and "partial q ms2" and "list_all ok (ms1 @ ms2)"
  shows "\<exists>d'. decode_loop de k d = (d', take k ms1, k \<le> length ms1) \<and> fd_max_frame d' = fd_max_frame d
     \<and> (length ms1 < k \<longrightarrow> ready cap d' \<and> pending d' = q)"
  using assms
proof (induction k arbitrary: d ms1)
  case (Suc k)
  show ?case
  proof (cases ms1)
    case Nil
    with Suc.prems have "fd_decode de d = (d, Inr None)" by (intro decode_partial [of d ms2]) auto
    with Nil Suc.prems show ?thesis by simp
  next
    case (Cons m ms)
    with Suc.prems(2) have "pending d = encode_frame ser m @ (stream ms @ q)" by simp
    moreover have "ok m" using Cons Suc.prems(4) by simp
    ultimately obtain d1 where d1: "fd_decode de d = (d1, Inr (Some m))" "ready cap d1" "pending d1 = stream ms @ q"
        "fd_max_frame d1 = fd_max_frame d"
      using decode_complete [OF Suc.prems(1)] by metis
    have "list_all ok (ms @ ms2)" using Cons Suc.prems(4) by simp
    from Suc.IH [OF d1(2,3) Suc.prems(3) this] d1 Cons show ?thesis by auto
  qed
qed simp

lemma push_stream:
  assumes "ready cap d" and "prefix (pending d @ data) (stream ms)" and "list_all ok ms"
    and "length (pending d @ data) \<le> fd_max_frame d + 4"
  shows "ready cap (fd_push data d) \<and> pending (fd_push data d) = pending d @ data
     \<and> fd_max_frame (fd_push data d) = fd_max_frame d"
proof -
  let ?p = "pending d @ data"
  have len: "from_be_bytes ?p \<le> fd_max_frame d" if "4 \<le> length ?p"
  proof -
    from assms(2) obtain x where x: "stream ms = ?p @ x" by (auto elim: prefixE)
    with that obtain m ms' where ms: "ms = m # ms'" by (cases ms) auto
    with assms(3) have m: "ok m" by simp
    have "take 4 ?p = take 4 (encode_frame ser m @ stream ms')"
      using x that ms by (metis stream_simps(2) take_append append_Nil2 diff_is_0_eq' take_0)
    then have "from_be_bytes ?p = length (ser m)"
      using header(2) [OF m ready_cap [OF assms(1)], of "stream ms'"] unfolding from_be_bytes_def by metis
    then show ?thesis using payload_len [OF m] assms(1) by (simp add: ready_def)
  qed
  show ?thesis
    using len assms(1,4) by (cases "fd_offset d = 0") (auto simp: fd_push_def Let_def ready_def pending_def)
qed

lemma pushes_stream:
  assumes "ready cap d" and "prefix (pending d @ concat cs) (stream ms)" and "list_all ok ms"
    and "length (pending d @ concat cs) \<le> fd_max_frame d + 4"
  shows "ready cap (fold fd_push cs d) \<and> pending (fold fd_push cs d) = pending d @ concat cs
     \<and> fd_max_frame (fold fd_push cs d) = fd_max_frame d"
  using assms
proof (induction cs arbitrary: d)
  case (Cons c cs)
  have "prefix (pending d @ c) (stream ms)"
    using Cons.prems(2) by (metis append_assoc append_prefixD concat.simps(2))
  then have "ready cap (fd_push c d)" "pending (fd_push c d) = pending d @ c" "fd_max_frame (fd_push c d) = fd_max_frame d"
    using push_stream [OF Cons.prems(1) _ Cons.prems(3)] Cons.prems(4) by auto
  with Cons show ?case by simp
qed simp

end

text \<open>What one readiness event reads: the chunks it takes, and whether the peer hung up.\<close>

fun consumed :: "nat \<Rightarrow> read_result list \<Rightarrow> byte list list" where
  "consumed n [] = []"
| "consumed n (r # rs) =
     (if n \<ge> PTY_IO_BUDGET then []
      else case r of ReadData bs \<Rightarrow> bs # consumed (n + length bs) rs | ReadIntr \<Rightarrow> consumed n rs | _ \<Rightarrow> [])"

fun hangup :: "nat \<Rightarrow> read_result list \<Rightarrow> bool" where
  "hangup n [] = False"
| "hangup n (r # rs) =
     (if n \<ge> PTY_IO_BUDGET then False
      else case r of ReadData bs \<Rightarrow> hangup (n + length bs) rs | ReadIntr \<Rightarrow> hangup n rs
             | ReadBlock \<Rightarrow> False | _ \<Rightarrow> True)"

lemma read_loop_pushes:
  "\<exists>spent. read_loop n rs d = (fold fd_push (consumed n rs) d, hangup n rs, spent)"
  by (induction n rs d rule: read_loop.induct) (auto split: read_result.split)

lemma consumed_bound:
  assumes "\<forall>bs. ReadData bs \<in> set rs \<longrightarrow> length bs \<le> 8192"
  shows "n + length (concat (consumed n rs)) \<le> max n (PTY_IO_BUDGET + 8191)"
  using assms
proof (induction n rs rule: consumed.induct)
  case (2 n r rs)
  show ?case
  proof (cases r)
    case (ReadData bs)
    then have "length bs \<le> 8192" using 2(3) by simp
    moreover have "n < PTY_IO_BUDGET \<Longrightarrow>
        n + length bs + length (concat (consumed (n + length bs) rs)) \<le> max (n + length bs) (PTY_IO_BUDGET + 8191)"
      using 2(1,3) ReadData by simp
    ultimately show ?thesis using ReadData by auto
  qed (use 2 in auto)
qed simp

context framed
begin

lemma partial_length: "partial q ms \<Longrightarrow> list_all ok ms \<Longrightarrow> cap < 2 ^ 32 \<Longrightarrow> length q \<le> cap + 3"
proof (cases ms)
  case (Cons m ms')
  assume *: "partial q ms" "list_all ok ms" "cap < 2 ^ 32"
  with Cons have m: "ok m" and "strict_prefix q (encode_frame ser m)" by (simp_all add: partial_def)
  then have "length q < 4 + length (ser m)" using prefix_length_less header(1) [OF m *(3)] by fastforce
  with payload_len [OF m] show ?thesis by linarith
qed (simp add: partial_def)

lemma client_events_stream:
  assumes "ready cap d" and "partial (pending d) ms" and "list_all ok ms"
    and "pending d @ concat (map (\<lambda>rs. concat (consumed 0 rs)) rss) = stream ms"
    and "\<forall>rs\<in>set rss. \<not> hangup 0 rs \<and> (\<forall>bs. ReadData bs \<in> set rs \<longrightarrow> length bs \<le> 8192)"
    and "cap + PTY_IO_BUDGET + 8190 \<le> fd_max_frame d"
  shows "delivered ms (client_events de rss d)"
  using assms
proof (induction rss arbitrary: d ms)
  case Nil
  then have "ms = []" by (cases ms) (auto simp: partial_def strict_prefix_def)
  with Nil show ?case by (auto simp: partial_def delivered_def)
next
  case (Cons rs rss)
  let ?c = "concat (consumed 0 rs)"
  have pre: "prefix (pending d @ ?c) (stream ms)" using Cons.prems(4) by (metis append_assoc concat.simps(2) list.simps(9) prefixI)
  then obtain ms1 ms2 q where sp: "ms = ms1 @ ms2" "pending d @ ?c = stream ms1 @ q" "partial q ms2"
    by (rule split_stream)
  have "length ?c \<le> PTY_IO_BUDGET + 8191"
    using consumed_bound [of rs 0] Cons.prems(5) by simp
  moreover have "length (pending d) \<le> cap + 3"
    by (rule partial_length [OF Cons.prems(2,3) ready_cap [OF Cons.prems(1)]])
  ultimately have "length (pending d @ ?c) \<le> fd_max_frame d + 4" using Cons.prems(6) by simp
  from pushes_stream [OF Cons.prems(1) pre Cons.prems(3) this] sp(2)
  have d1: "ready cap (fold fd_push (consumed 0 rs) d)" "pending (fold fd_push (consumed 0 rs) d) = stream ms1 @ q"
    "fd_max_frame (fold fd_push (consumed 0 rs) d) = fd_max_frame d" by simp_all
  have oks: "list_all ok (ms1 @ ms2)" using Cons.prems(3) sp(1) by simp
  from decode_loop_stream [OF d1(1,2) sp(3) oks, of MAX_CLIENT_MESSAGES_PER_EVENT]
  obtain d2 where dl: "decode_loop de MAX_CLIENT_MESSAGES_PER_EVENT (fold fd_push (consumed 0 rs) d)
       = (d2, take MAX_CLIENT_MESSAGES_PER_EVENT ms1, MAX_CLIENT_MESSAGES_PER_EVENT \<le> length ms1)"
    and mx: "fd_max_frame d2 = fd_max_frame d"
    and rd: "length ms1 < MAX_CLIENT_MESSAGES_PER_EVENT \<longrightarrow> ready cap d2 \<and> pending d2 = q"
    using d1(3) by auto
  obtain spent where rl: "read_loop 0 rs d = (fold fd_push (consumed 0 rs) d, False, spent)"
    using read_loop_pushes [of 0 rs d] Cons.prems(5) by auto
  show ?case
  proof (cases "MAX_CLIENT_MESSAGES_PER_EVENT \<le> length ms1")
    case True
    have "prefix (take MAX_CLIENT_MESSAGES_PER_EVENT ms1) ms" using sp(1) by (metis take_is_prefix prefix_prefix)
    with True rl dl show ?thesis by (auto simp: client_read_def delivered_def)
  next
    case False
    have "q @ concat (map (\<lambda>rs. concat (consumed 0 rs)) rss) = stream ms2"
      using Cons.prems(4) sp(1,2) by (metis (no_types, lifting) append.assoc concat.simps(2) length_stream_app list.simps(9) same_append_eq)
    with False rd sp(3) oks Cons.prems(5,6) mx have "delivered ms2 (client_events de rss d2)"
      by (intro Cons.IH) auto
    with False rl dl sp(1) show ?thesis
      by (cases "client_events de rss d2") (auto simp: client_read_def delivered_def split: if_splits)
  qed
qed

end

text \<open>
  The frame layer over any payload codec: the messages it carries faithfully are those the
  payload codec decodes back and whose payload fits.
\<close>

interpretation frames: framed ser de "\<lambda>m. de (ser m) = Some m \<and> length (ser m) \<le> cap" cap
  for ser :: "'m \<Rightarrow> byte list" and de :: "byte list \<Rightarrow> 'm option" and cap :: nat
  by unfold_locales auto


definition demo_frame :: "byte list" where
  "demo_frame = encode_frame as_bytes (lit ''hi'')"

text \<open>Two messages, cut inside the first header and inside the second payload.\<close>

definition demo_reads :: "read_result list list" where
  "demo_reads = [[ReadData (take 3 demo_frame), ReadIntr, ReadData (drop 3 demo_frame @ take 5 demo_frame), ReadBlock],
     [ReadData (drop 5 demo_frame), ReadBlock]]"


lemma push_overflow:
  assumes "fd_failed d = None" and "length (pending d) + length data > fd_max_frame d + 4"
    and "length (pending d) + length data < 2 ^ 64"
  shows "snd (fd_decode de (fd_push data d)) = Inl (BufferOverflow (length (pending d) + length data))"
  using assms by (cases "fd_offset d = 0") (auto simp: fd_push_def fd_decode_def pending_def Let_def)

text \<open>
  C21. Whether a valid stream is accepted depends on how it is cut. A message whose payload
  has exactly the size a decoder admits is decoded when its frame arrives by itself; but
  when the read that completes it also brings the first bytes of what follows, the same
  stream exceeds the buffer, and instead of the message the decoder reports
  \<open>BufferOverflow\<close>.
\<close>

theorem frame_limit_depends_on_cutting:
  assumes "de (ser m) = Some m" and "length (ser m) = n" and "0 < n" and "n < 2 ^ 32"
    and "f = encode_frame ser m" and "x \<noteq> []" and "length x < 2 ^ 32"
  shows "snd (fd_decode de (fd_push f (with_max_frame n))) = Inr (Some m)
     \<and> snd (fd_decode de (fd_push (last f # x) (fd_push (butlast f) (with_max_frame n))))
         = Inl (BufferOverflow (n + 4 + length x))"
proof
  let ?d = "with_max_frame n"
  have r: "ready n ?d" "pending ?d = []" "fd_max_frame ?d = n"
    using assms(3,4) by (simp_all add: ready_def with_max_frame_def fd_new_def pending_def)
  have ok: "de (ser m) = Some m \<and> length (ser m) \<le> n" and oks: "list_all (\<lambda>m. de (ser m) = Some m \<and> length (ser m) \<le> n) [m]"
    using assms(1,2) by simp_all
  have f: "length f = n + 4" "f \<noteq> []" using assms(2,5) by (auto simp: encode_frame_def Let_def to_be_bytes_def)
  have "ready n (fd_push f ?d) \<and> pending (fd_push f ?d) = pending ?d @ f \<and> fd_max_frame (fd_push f ?d) = fd_max_frame ?d"
    using frames.push_stream [OF r(1) _ oks, of f] f r by (simp add: assms(5))
  then show "snd (fd_decode de (fd_push f ?d)) = Inr (Some m)"
    using frames.decode_complete [of n "fd_push f ?d" de ser m "[]"] ok r(2) by (metis append_Nil append_Nil2 assms(5) snd_conv)
  have "prefix (pending ?d @ butlast f) (frames.stream ser [m])" using r(2) by (simp add: assms(5) prefixeq_butlast)
  from frames.push_stream [OF r(1) this oks] f r
  have "ready n (fd_push (butlast f) ?d)" "pending (fd_push (butlast f) ?d) = butlast f" "fd_max_frame (fd_push (butlast f) ?d) = n"
    by simp_all
  moreover have "length (butlast f) + length (last f # x) = n + 4 + length x" using f(1) by simp
  moreover have "0 < length x" using assms(6) by simp
  ultimately show "snd (fd_decode de (fd_push (last f # x) (fd_push (butlast f) ?d))) = Inl (BufferOverflow (n + 4 + length x))"
    using assms(4,7) by (subst push_overflow) (auto simp: ready_def)
qed

theorem frame_limit_depends_on_cutting_witness:
  "snd (fd_decode from_utf8 (fd_push demo_frame (with_max_frame 2))) = Inr (Some (lit ''hi''))
   \<and> snd (fd_decode from_utf8 (fd_push (last demo_frame # demo_frame) (fd_push (butlast demo_frame) (with_max_frame 2))))
       = Inl (BufferOverflow 12)"
proof -
  have a: "from_utf8 (as_bytes (lit ''hi'')) = Some (lit ''hi'')" by (rule from_utf8_as_bytes) code_simp
  have b: "length (as_bytes (lit ''hi'')) = 2" "(0::nat) < 2" "(2::nat) < 2 ^ 32"
    by (simp_all add: lit_def str_len_def utf8_len_def)
  have c: "length demo_frame = 6"
    using b(1) by (simp add: demo_frame_def encode_frame_def Let_def)
  then have "demo_frame \<noteq> []" "length demo_frame < 2 ^ 32" by auto
  from frame_limit_depends_on_cutting [of from_utf8 as_bytes, OF a b demo_frame_def this] c show ?thesis by simp
qed

end
