(* ===== verification/Workspace.thy ===== *)
theory Workspace
  imports Utf8
begin

text \<open>
  The Workspace identity of \<^verbatim>\<open>crates/uniterm-proto/src/lib.rs\<close>: names that may become path
  components, the \<^verbatim>\<open>default-workspace\<close> line of the machine configuration, the reversible
  catalog keys of names, and the remembered split geometry that a restore accepts.
\<close>

section \<open>Strings\<close>

definition trim_start :: "str \<Rightarrow> str" where
  "trim_start s = dropWhile is_whitespace s"

definition trim_end :: "str \<Rightarrow> str" where
  "trim_end s = rev (dropWhile is_whitespace (rev s))"

definition trim :: "str \<Rightarrow> str" where
  "trim s = trim_start (trim_end s)"

definition trim_matches :: "rchar \<Rightarrow> str \<Rightarrow> str" where
  "trim_matches c s = dropWhile ((=) c) (rev (dropWhile ((=) c) (rev s)))"

text \<open>\<^verbatim>\<open>split_once\<close> by a character and by a string.\<close>

fun split_once :: "rchar \<Rightarrow> str \<Rightarrow> (str \<times> str) option" where
  "split_once d [] = None"
| "split_once d (c # s) = (if c = d then Some ([], s) else map_option (\<lambda>(a, b). (c # a, b)) (split_once d s))"

definition starts_with :: "str \<Rightarrow> str \<Rightarrow> bool" where
  "starts_with p s \<longleftrightarrow> take (length p) s = p"

fun split_once_str :: "str \<Rightarrow> str \<Rightarrow> (str \<times> str) option" where
  "split_once_str p [] = (if p = [] then Some ([], []) else None)"
| "split_once_str p (c # s) =
     (if starts_with p (c # s) then Some ([], drop (length p) (c # s))
      else map_option (\<lambda>(a, b). (c # a, b)) (split_once_str p s))"

text \<open>\<^verbatim>\<open>str::lines\<close>: pieces ending in a line feed, without it and one carriage return before it.\<close>

fun split_inclusive :: "rchar \<Rightarrow> str \<Rightarrow> str list" where
  "split_inclusive d [] = []"
| "split_inclusive d (c # s) =
     (if c = d then [c] # split_inclusive d s
      else case split_inclusive d s of [] \<Rightarrow> [[c]] | l # ls \<Rightarrow> (c # l) # ls)"

definition strip_cr :: "str \<Rightarrow> str" where
  "strip_cr l = (if l \<noteq> [] \<and> last l = 13 then butlast l else l)"

definition line_of :: "str \<Rightarrow> str" where
  "line_of l = (if l \<noteq> [] \<and> last l = 10 then strip_cr (butlast l) else l)"

definition lines :: "str \<Rightarrow> str list" where
  "lines s = map line_of (split_inclusive 10 s)"

section \<open>Names\<close>

definition MAX_WORKSPACE_NAME_BYTES :: nat where "MAX_WORKSPACE_NAME_BYTES = 64"

datatype workspace_name_error = NameEmpty | NameTooLong | SurroundingWhitespace | UnsafeCharacter | TraversalComponent

definition is_ascii_alphanumeric :: "byte \<Rightarrow> bool" where
  "is_ascii_alphanumeric b \<longleftrightarrow> (48 \<le> b \<and> b \<le> 57) \<or> (65 \<le> b \<and> b \<le> 90) \<or> (97 \<le> b \<and> b \<le> 122)"

definition name_byte_ok :: "byte \<Rightarrow> bool" where
  "name_byte_ok b \<longleftrightarrow> is_ascii_alphanumeric b \<or> b = 46 \<or> b = 45 \<or> b = 95"

definition validate_workspace_name :: "str \<Rightarrow> workspace_name_error + unit" where
  "validate_workspace_name name =
     (if name = [] then Inl NameEmpty
      else if str_len name > MAX_WORKSPACE_NAME_BYTES then Inl NameTooLong
      else if name \<noteq> trim name then Inl SurroundingWhitespace
      else if name = lit ''.'' \<or> name = lit ''..'' then Inl TraversalComponent
      else if \<not> list_all name_byte_ok (as_bytes name) then Inl UnsafeCharacter
      else Inr ())"

section \<open>The default Workspace of the configuration\<close>

definition DEFAULT_WORKSPACE_KEY :: str where
  "DEFAULT_WORKSPACE_KEY = lit ''default-workspace''"

definition default_of_line :: "str \<Rightarrow> str option" where
  "default_of_line raw =
     (let line = trim raw
      in if line = [] \<or> starts_with (lit ''#'') line then None
         else case split_once 61 line of
                None \<Rightarrow> None
              | Some (key, value) \<Rightarrow>
                  if trim key \<noteq> DEFAULT_WORKSPACE_KEY then None
                  else
                    (let value = trim_matches 34
                           (case split_once_str (lit '' #'') (trim value) of
                              None \<Rightarrow> trim value | Some (v, _) \<Rightarrow> trim v)
                     in case validate_workspace_name value of Inl _ \<Rightarrow> None | Inr _ \<Rightarrow> Some value))"

fun find_map :: "('a \<Rightarrow> 'b option) \<Rightarrow> 'a list \<Rightarrow> 'b option" where
  "find_map f [] = None"
| "find_map f (x # xs) = (case f x of None \<Rightarrow> find_map f xs | Some y \<Rightarrow> Some y)"

definition configured_default_workspace :: "str \<Rightarrow> str option" where
  "configured_default_workspace text = find_map default_of_line (rev (lines text))"

definition is_preference :: "str \<Rightarrow> bool" where
  "is_preference raw = (case split_once 61 raw of None \<Rightarrow> False | Some (key, _) \<Rightarrow> trim key = DEFAULT_WORKSPACE_KEY)"

definition preference_line :: "str \<Rightarrow> str" where
  "preference_line name = DEFAULT_WORKSPACE_KEY @ lit '' = '' @ name"

fun merge_loop :: "str \<Rightarrow> bool \<Rightarrow> str list \<Rightarrow> str \<times> bool" where
  "merge_loop name replaced [] = ([], replaced)"
| "merge_loop name replaced (raw # ls) =
     (if is_preference raw
      then (let (out, r) = merge_loop name True ls
            in ((if \<not> replaced then preference_line name @ [10] else []) @ out, r))
      else (let (out, r) = merge_loop name replaced ls in (raw @ [10] @ out, r)))"

definition ends_with :: "str \<Rightarrow> str \<Rightarrow> bool" where
  "ends_with p s \<longleftrightarrow> starts_with (rev p) (rev s)"

definition merge_default_workspace :: "str \<Rightarrow> str \<Rightarrow> str" where
  "merge_default_workspace text name =
     (let (output, replaced) = merge_loop name False (lines text)
      in if replaced then output
         else (if output \<noteq> [] \<and> \<not> ends_with [10, 10] output then output @ [10] else output)
              @ preference_line name @ [10])"

section \<open>Catalog keys\<close>

definition hex_digit :: "nat \<Rightarrow> rchar" where
  "hex_digit n = lit ''0123456789abcdef'' ! n"

definition workspace_catalog_key :: "str \<Rightarrow> str" where
  "workspace_catalog_key name = concat (map (\<lambda>b. [hex_digit (b div 16), hex_digit (b mod 16)]) (as_bytes name))"

text \<open>\<^verbatim>\<open>char::to_digit(16)\<close>.\<close>

definition to_digit16 :: "rchar \<Rightarrow> nat option" where
  "to_digit16 c =
     (if 48 \<le> c \<and> c \<le> 57 then Some (c - 48)
      else if 97 \<le> c \<and> c \<le> 102 then Some (c - 87)
      else if 65 \<le> c \<and> c \<le> 70 then Some (c - 55)
      else None)"

fun hex_pairs :: "byte list \<Rightarrow> byte list option" where
  "hex_pairs (a # b # r) =
     (case to_digit16 a of
        None \<Rightarrow> None
      | Some hi \<Rightarrow>
          (case to_digit16 b of None \<Rightarrow> None | Some lo \<Rightarrow> map_option ((#) (hi * 16 + lo)) (hex_pairs r)))"
| "hex_pairs _ = Some []"

definition workspace_name_from_catalog_key :: "str \<Rightarrow> str option" where
  "workspace_name_from_catalog_key key =
     (if key = [] \<or> str_len key mod 2 \<noteq> 0 then None
      else case hex_pairs (as_bytes key) of None \<Rightarrow> None | Some bytes \<Rightarrow> from_utf8 bytes)"

section \<open>Remembered layouts\<close>

datatype workspace_layout = WPane | WSplit split_dir nat workspace_layout workspace_layout

definition MAX_PANES :: nat where "MAX_PANES = 64"

fun pane_count :: "workspace_layout \<Rightarrow> nat option" where
  "pane_count WPane = Some 1"
| "pane_count (WSplit _ first_ratio a b) =
     (if \<not> (1 \<le> first_ratio \<and> first_ratio < 10000) then None
      else case pane_count a of
             None \<Rightarrow> None
           | Some m \<Rightarrow>
               (case pane_count b of
                  None \<Rightarrow> None
                | Some n \<Rightarrow> if m + n \<ge> 2 ^ 64 then None
                    else if m + n \<le> MAX_PANES then Some (m + n) else None))"

definition layout_is_valid :: "workspace_layout \<Rightarrow> bool" where
  "layout_is_valid t \<longleftrightarrow> pane_count t \<noteq> None"

section \<open>Trimming and splitting\<close>

lemma dropWhile_stop: "\<not> P x \<Longrightarrow> dropWhile P (xs @ x # ys) = dropWhile P xs @ x # ys"
  by (induction xs) auto

lemma trim_end_stop: "\<not> is_whitespace c \<Longrightarrow> trim_end (a @ c # b) = a @ c # trim_end b"
proof -
  assume "\<not> is_whitespace c"
  then have "dropWhile is_whitespace (rev b @ c # rev a) = dropWhile is_whitespace (rev b) @ c # rev a"
    by (rule dropWhile_stop)
  then show ?thesis by (simp add: trim_end_def)
qed

lemma trim_stop: "\<not> is_whitespace c \<Longrightarrow> trim (a @ c # b) = trim_start a @ c # trim_end b"
  by (simp add: trim_def trim_end_stop trim_start_def dropWhile_stop)

lemma trim_id:
  assumes "s \<noteq> []" and "\<not> is_whitespace (hd s)" and "\<not> is_whitespace (last s)"
  shows "trim s = s"
proof -
  have "trim_end s = s" using assms(1,3) by (cases s rule: rev_cases) (simp_all add: trim_end_def)
  then show ?thesis using assms(1,2) by (cases s) (simp_all add: trim_def trim_start_def)
qed

lemma trim_snoc_ws: "is_whitespace c \<Longrightarrow> trim (s @ [c]) = trim s"
  by (simp add: trim_def trim_end_def)

lemma trim_Cons_ws: "is_whitespace c \<Longrightarrow> trim (c # s) = trim s"
proof -
  assume c: "is_whitespace c"
  show ?thesis
  proof (cases "list_all is_whitespace s")
    case True
    then have e: "dropWhile is_whitespace (rev s @ [c]) = []" "dropWhile is_whitespace (rev s) = []"
      using c by (auto simp: list_all_iff)
    show ?thesis unfolding trim_def trim_end_def trim_start_def rev.simps e by simp
  next
    case False
    then obtain a x b where s: "s = a @ x # b" "\<not> is_whitespace x"
      by (auto simp: list_all_iff dest!: split_list)
    have "trim (c # s) = trim ((c # a) @ x # b)" by (simp add: s(1))
    also have "\<dots> = trim_start (c # a) @ x # trim_end b" by (rule trim_stop [OF s(2)])
    also have "\<dots> = trim s" using trim_stop [OF s(2), of a b] c by (simp add: s(1) trim_start_def)
    finally show ?thesis .
  qed
qed

lemma trim_trim_start [simp]: "trim (trim_start s) = trim s"
  unfolding trim_start_def by (induction s) (simp_all add: trim_Cons_ws)

lemma trim_strip_cr [simp]: "trim (strip_cr s) = trim s"
proof (cases s rule: rev_cases)
  case (snoc a c)
  then show ?thesis using trim_snoc_ws [of c a] by (auto simp: strip_cr_def is_whitespace_def)
qed (simp add: strip_cr_def)

lemma split_once_iff: "split_once d s = Some (a, b) \<longleftrightarrow> s = a @ d # b \<and> d \<notin> set a"
proof (induction s arbitrary: a)
  case (Cons c s)
  show ?case
  proof (cases "c = d")
    case True
    then show ?thesis by (cases a) auto
  next
    case False
    then have "split_once d (c # s) = Some (a, b) \<longleftrightarrow> (\<exists>a'. a = c # a' \<and> split_once d s = Some (a', b))"
      by auto
    also have "\<dots> \<longleftrightarrow> c # s = a @ d # b \<and> d \<notin> set a"
      using False by (cases a) (auto simp: Cons.IH)
    finally show ?thesis .
  qed
qed simp

lemma split_once_None: "split_once d s = None \<longleftrightarrow> d \<notin> set s"
  by (induction s) auto

lemma split_once_snoc: "c \<noteq> d \<Longrightarrow> split_once d (s @ [c]) = map_option (\<lambda>(a, b). (a, b @ [c])) (split_once d s)"
  by (induction s) (auto simp: option.map_comp comp_def case_prod_beta)

lemma is_preference_strip [simp]: "is_preference (strip_cr s) = is_preference s"
proof (cases s rule: rev_cases)
  case (snoc a c)
  then show ?thesis by (cases "c = 13") (auto simp: is_preference_def strip_cr_def split_once_snoc split: option.splits)
qed (simp add: strip_cr_def)

lemma set_trim: "set (trim s) \<subseteq> set s"
  unfolding trim_def trim_start_def trim_end_def by (auto dest!: set_dropWhileD)

text \<open>Only a preference line can set the default.\<close>

lemma default_of_line_preference:
  assumes "default_of_line raw = Some v"
  shows "is_preference raw"
proof -
  from assms obtain key val where sp: "split_once 61 (trim raw) = Some (key, val)" and k: "trim key = DEFAULT_WORKSPACE_KEY"
    by (auto simp: default_of_line_def Let_def split: if_splits option.splits)
  then have "61 \<in> set raw" using set_trim [of raw] by (auto simp: split_once_iff)
  then obtain a b where raw: "split_once 61 raw = Some (a, b)" by (cases "split_once 61 raw") (auto simp: split_once_None)
  then have e: "raw = a @ 61 # b" "61 \<notin> set a" by (simp_all add: split_once_iff)
  have "trim raw = trim_start a @ 61 # trim_end b" unfolding e(1) by (rule trim_stop) (simp add: is_whitespace_def)
  moreover have "61 \<notin> set (trim_start a)" using e(2) unfolding trim_start_def by (auto dest: set_dropWhileD)
  ultimately have "split_once 61 (trim raw) = Some (trim_start a, trim_end b)" by (simp add: split_once_iff)
  with sp k raw show ?thesis using trim_trim_start [of a] by (auto simp: is_preference_def)
qed

lemma default_of_line_strip [simp]: "default_of_line (strip_cr s) = default_of_line s"
  by (simp add: default_of_line_def)

subsection \<open>Lines\<close>

lemma split_inclusive_line: "d \<notin> set r \<Longrightarrow> split_inclusive d (r @ d # t) = (r @ [d]) # split_inclusive d t"
  by (induction r) auto

lemma lines_join:
  "(\<And>r. r \<in> set rs \<Longrightarrow> 10 \<notin> set r) \<Longrightarrow> lines (concat (map (\<lambda>r. r @ [10]) rs)) = map strip_cr rs"
  by (induction rs) (auto simp: lines_def split_inclusive_line line_of_def)

lemma split_inclusive_pieces:
  "l \<in> set (split_inclusive d s) \<Longrightarrow> l \<noteq> [] \<and> d \<notin> set (butlast l)"
  by (induction d s arbitrary: l rule: split_inclusive.induct) (auto split: if_splits list.splits)

lemma set_butlast_subset: "set (butlast l) \<subseteq> set l"
  by (auto dest: in_set_butlastD)

lemma lines_no_lf:
  assumes "r \<in> set (lines s)"
  shows "10 \<notin> set r"
proof -
  from assms obtain l where l: "l \<in> set (split_inclusive 10 s)" "r = line_of l" by (auto simp: lines_def)
  from split_inclusive_pieces [OF l(1)] have p: "l \<noteq> []" "10 \<notin> set (butlast l)" by simp_all
  show ?thesis
  proof (cases "last l = 10")
    case True
    have "set (strip_cr (butlast l)) \<subseteq> set (butlast l)" by (auto simp: strip_cr_def dest: in_set_butlastD)
    with True p show ?thesis by (auto simp: l(2) line_of_def)
  next
    case False
    have "set l = insert (last l) (set (butlast l))" using p(1) by (cases l rule: rev_cases) auto
    with False p show ?thesis by (simp add: l(2) line_of_def)
  qed
qed

subsection \<open>Merging\<close>

fun merged :: "str \<Rightarrow> bool \<Rightarrow> str list \<Rightarrow> str list" where
  "merged name replaced [] = []"
| "merged name replaced (raw # ls) =
     (if is_preference raw then (if replaced then [] else [preference_line name]) @ merged name True ls
      else raw # merged name replaced ls)"

lemma merge_loop_merged:
  "merge_loop name replaced ls
     = (concat (map (\<lambda>r. r @ [10]) (merged name replaced ls)), replaced \<or> list_ex is_preference ls)"
  by (induction name replaced ls rule: merge_loop.induct) auto

lemma is_preference_line: "is_preference (preference_line name)"
proof -
  have "split_once 61 (preference_line name) = Some (DEFAULT_WORKSPACE_KEY @ [32], 32 # name)"
    by (auto simp: split_once_iff preference_line_def DEFAULT_WORKSPACE_KEY_def lit_def)
  moreover have "trim (DEFAULT_WORKSPACE_KEY @ [32]) = DEFAULT_WORKSPACE_KEY" by code_simp
  ultimately show ?thesis by (simp add: is_preference_def)
qed

lemma merged_lines:
  "r \<in> set (merged name replaced ls) \<Longrightarrow> r \<in> set ls \<and> \<not> is_preference r \<or> r = preference_line name"
  by (induction name replaced ls rule: merged.induct) (auto split: if_splits)

lemma merged_present: "list_ex is_preference ls \<Longrightarrow> preference_line name \<in> set (merged name False ls)"
  by (induction ls) (auto simp: is_preference_line)

lemma merged_others:
  "filter (\<lambda>r. \<not> is_preference r) (merged name replaced ls) = filter (\<lambda>r. \<not> is_preference r) ls"
  by (induction name replaced ls rule: merged.induct) (auto simp: is_preference_line)

lemma find_map_unique:
  assumes "y \<in> set ys" and "f y = Some v" and "\<And>z. z \<in> set ys \<Longrightarrow> f z = None \<or> f z = Some v"
  shows "find_map f ys = Some v"
  using assms
proof (induction ys)
  case (Cons z zs)
  then show ?case using Cons.prems(3) [of z] by (cases "f z") auto
qed simp

lemma encode_utf8_ascii: "list_all name_byte_ok (encode_utf8 c) \<Longrightarrow> name_byte_ok c"
  by (auto simp: encode_utf8_def name_byte_ok_def is_ascii_alphanumeric_def split: if_splits)

lemma valid_name_chars:
  assumes "validate_workspace_name name = Inr ()"
  shows "name \<noteq> []" and "c \<in> set name \<Longrightarrow> name_byte_ok c"
proof -
  show "name \<noteq> []" using assms by (auto simp: validate_workspace_name_def)
  have "list_all name_byte_ok (as_bytes name)"
    using assms by (auto simp: validate_workspace_name_def split: if_splits)
  then show "c \<in> set name \<Longrightarrow> name_byte_ok c"
    by (auto simp: as_bytes_def list_all_iff intro!: encode_utf8_ascii)
qed

lemma name_byte_plain: "name_byte_ok c \<Longrightarrow> \<not> is_whitespace c \<and> c \<noteq> 10 \<and> c \<noteq> 34 \<and> c \<noteq> 35"
  by (auto simp: name_byte_ok_def is_ascii_alphanumeric_def is_whitespace_def)

lemma split_once_str_None: "p \<noteq> [] \<Longrightarrow> hd p \<notin> set s \<Longrightarrow> split_once_str p s = None"
  by (induction s) (auto simp: starts_with_def hd_conv_nth dest: arg_cong [of _ _ hd])

lemma trim_matches_id: "c \<notin> set s \<Longrightarrow> trim_matches c s = s"
proof -
  assume c: "c \<notin> set s"
  have d: "dropWhile ((=) c) t = t" if "c \<notin> set t" for t using that by (cases t) auto
  show ?thesis using c by (simp add: trim_matches_def d)
qed

lemma default_of_preference_line:
  assumes ok: "validate_workspace_name name = Inr ()"
  shows "default_of_line (preference_line name) = Some name"
proof -
  note n = valid_name_chars [OF ok]
  have hd: "name_byte_ok (hd name)" "name_byte_ok (last name)" using n by auto
  have tn: "trim name = name" using n(1) name_byte_plain [OF hd(1)] name_byte_plain [OF hd(2)] by (intro trim_id) auto
  have t: "trim (preference_line name) = preference_line name"
    using n(1) name_byte_plain [OF hd(2)]
    by (intro trim_id) (auto simp: preference_line_def DEFAULT_WORKSPACE_KEY_def lit_def is_whitespace_def)
  have sp: "split_once 61 (preference_line name) = Some (DEFAULT_WORKSPACE_KEY @ [32], 32 # name)"
    by (auto simp: split_once_iff preference_line_def DEFAULT_WORKSPACE_KEY_def lit_def)
  have k: "trim (DEFAULT_WORKSPACE_KEY @ [32]) = DEFAULT_WORKSPACE_KEY" by code_simp
  have v: "trim (32 # name) = name" using tn by (simp add: trim_Cons_ws is_whitespace_def)
  have h: "split_once_str (lit '' #'') name = None"
    using n(2) name_byte_plain by (intro split_once_str_None) (auto simp: lit_def is_whitespace_def)
  have q: "trim_matches 34 name = name" using n(2) name_byte_plain by (intro trim_matches_id) blast
  have "preference_line name \<noteq> []" "\<not> starts_with (lit ''#'') (preference_line name)"
    by (auto simp: preference_line_def starts_with_def DEFAULT_WORKSPACE_KEY_def lit_def)
  then show ?thesis using t sp k v h q ok by (simp add: default_of_line_def)
qed

text \<open>The lines of the merged text, in both cases.\<close>

lemma merge_lines:
  assumes ok: "validate_workspace_name name = Inr ()"
  obtains rs where "lines (merge_default_workspace cfg name) = map strip_cr rs"
    and "preference_line name \<in> set rs"
    and "\<forall>r\<in>set rs. \<not> is_preference r \<or> r = preference_line name"
    and "filter (\<lambda>r. \<not> is_preference r \<and> trim r \<noteq> []) rs = filter (\<lambda>r. \<not> is_preference r \<and> trim r \<noteq> []) (lines cfg)"
proof -
  let ?m = "merged name False (lines cfg)"
  have keep: "filter (\<lambda>r. \<not> is_preference r \<and> trim r \<noteq> []) ?m = filter (\<lambda>r. \<not> is_preference r \<and> trim r \<noteq> []) (lines cfg)"
    using arg_cong [OF merged_others [of name False "lines cfg"], of "filter (\<lambda>r. trim r \<noteq> [])"]
    by (simp add: filter_filter conj_commute)
  have pl: "10 \<notin> set (preference_line name)"
    using valid_name_chars(2) [OF ok] name_byte_plain
    by (auto simp: preference_line_def DEFAULT_WORKSPACE_KEY_def lit_def)
  have nl: "10 \<notin> set r" if "r \<in> set ?m" for r
    using merged_lines [OF that] lines_no_lf [of r cfg] pl by auto
  have pref: "\<forall>r\<in>set ?m. \<not> is_preference r \<or> r = preference_line name"
    using merged_lines by blast
  show thesis
  proof (cases "list_ex is_preference (lines cfg)")
    case True
    then have "merge_default_workspace cfg name = concat (map (\<lambda>r. r @ [10]) ?m)"
      by (simp add: merge_default_workspace_def merge_loop_merged)
    with nl have "lines (merge_default_workspace cfg name) = map strip_cr ?m" by (simp add: lines_join)
    then show thesis using merged_present [OF True] pref keep by (rule that)
  next
    case False
    let ?o = "concat (map (\<lambda>r. r @ [10]) ?m)"
    let ?gap = "if ?o \<noteq> [] \<and> \<not> ends_with [10, 10] ?o then [[]] else []"
    let ?rs = "?m @ ?gap @ [preference_line name]"
    have "merge_default_workspace cfg name = concat (map (\<lambda>r. r @ [10]) ?rs)"
      using False by (auto simp: merge_default_workspace_def merge_loop_merged)
    moreover have "\<And>r. r \<in> set ?rs \<Longrightarrow> 10 \<notin> set r" using nl pl by (auto split: if_splits)
    ultimately have l: "lines (merge_default_workspace cfg name) = map strip_cr ?rs"
      using lines_join [of ?rs] by simp
    have e: "\<not> is_preference []" "trim [] = []" by (simp_all add: is_preference_def trim_def trim_start_def trim_end_def)
    show thesis
      by (rule that [OF l]) (use pref e keep is_preference_line in \<open>auto split: if_splits\<close>)
  qed
qed

text \<open>
  Saving the default Workspace is read back, and disturbs nothing else. For every
  configuration text and every valid name, the default read from the text after merging is
  that name; and every other line that is not blank (comments, unknown keys, other
  settings) is kept, in its order and up to surrounding whitespace.
\<close>

theorem default_workspace_round_trip:
  assumes ok: "validate_workspace_name name = Inr ()"
  shows "configured_default_workspace (merge_default_workspace cfg name) = Some name
     \<and> map trim (filter (\<lambda>r. \<not> is_preference r \<and> trim r \<noteq> []) (lines (merge_default_workspace cfg name)))
       = map trim (filter (\<lambda>r. \<not> is_preference r \<and> trim r \<noteq> []) (lines cfg))"
proof -
  obtain rs where l: "lines (merge_default_workspace cfg name) = map strip_cr rs"
    and p: "preference_line name \<in> set rs"
    and only: "\<forall>r\<in>set rs. \<not> is_preference r \<or> r = preference_line name"
    and keep: "filter (\<lambda>r. \<not> is_preference r \<and> trim r \<noteq> []) rs = filter (\<lambda>r. \<not> is_preference r \<and> trim r \<noteq> []) (lines cfg)"
    by (rule merge_lines [OF ok, of cfg])
  note d = default_of_preference_line [OF ok]
  have "find_map default_of_line (rev (map strip_cr rs)) = Some name"
  proof (rule find_map_unique)
    show "strip_cr (preference_line name) \<in> set (rev (map strip_cr rs))" using p by simp
    show "default_of_line (strip_cr (preference_line name)) = Some name" using d by simp
    fix z assume "z \<in> set (rev (map strip_cr rs))"
    then obtain r where "r \<in> set rs" "z = strip_cr r" by auto
    then show "default_of_line z = None \<or> default_of_line z = Some name"
      using only d default_of_line_preference [of r] by (cases "default_of_line r") auto
  qed
  moreover have "filter (\<lambda>r. \<not> is_preference r \<and> trim r \<noteq> []) (map strip_cr rs)
      = map strip_cr (filter (\<lambda>r. \<not> is_preference r \<and> trim r \<noteq> []) (lines cfg))"
    unfolding keep [symmetric] by (simp add: filter_map comp_def)
  ultimately show ?thesis by (simp add: configured_default_workspace_def l)
qed

theorem default_workspace_round_trip_witness:
  "configured_default_workspace (merge_default_workspace (lit ''default-workspace = old # no'') (lit ''main'')) = Some (lit ''main'')"
proof -
  have "validate_workspace_name (lit ''main'') = Inr ()" by code_simp
  from default_workspace_round_trip [OF this] show ?thesis by blast
qed

section \<open>Catalog keys\<close>

lemma hex_digit_values: "map hex_digit [0..<16] = lit ''0123456789abcdef''"
  by (rule nth_equalityI) (simp_all add: hex_digit_def lit_def)

lemma to_digit16_hex: "n < 16 \<Longrightarrow> to_digit16 (hex_digit n) = Some n"
proof -
  have "list_all (\<lambda>n. to_digit16 (hex_digit n) = Some n) [0..<16]" by code_simp
  then show "n < 16 \<Longrightarrow> ?thesis" by (simp add: list_all_iff)
qed

lemma hex_digit_ascii: "n < 16 \<Longrightarrow> hex_digit n < 0x80"
proof -
  have "list_all (\<lambda>n. hex_digit n < 0x80) [0..<16]" by code_simp
  then show "n < 16 \<Longrightarrow> ?thesis" by (simp add: list_all_iff)
qed

lemma as_bytes_ascii: "list_all (\<lambda>c. c < 0x80) s \<Longrightarrow> as_bytes s = s"
  by (induction s) (simp_all add: as_bytes_def encode_utf8_def)

lemma hex_pairs_key:
  "(\<And>b. b \<in> set bs \<Longrightarrow> b < 256) \<Longrightarrow>
     hex_pairs (concat (map (\<lambda>b. [hex_digit (b div 16), hex_digit (b mod 16)]) bs)) = Some bs"
proof (induction bs)
  case (Cons b bs)
  have "b div 16 < 16" using Cons.prems [of b] by simp
  with Cons show ?case by (simp add: to_digit16_hex)
qed simp

lemma catalog_key_ascii: "is_str name \<Longrightarrow> list_all (\<lambda>c. c < 0x80) (workspace_catalog_key name)"
  using as_bytes_bound by (fastforce simp: workspace_catalog_key_def list_all_iff intro!: hex_digit_ascii)

lemma length_catalog_key: "length (workspace_catalog_key name) = 2 * str_len name"
proof -
  have "length (concat (map (\<lambda>b. [hex_digit (b div 16), hex_digit (b mod 16)]) bs)) = 2 * length bs" for bs
    by (induction bs) simp_all
  then show ?thesis by (simp add: workspace_catalog_key_def)
qed

lemma catalog_key_decodes:
  assumes "name \<noteq> []" and "is_str name"
  shows "workspace_name_from_catalog_key (workspace_catalog_key name) = Some name"
proof -
  let ?k = "workspace_catalog_key name"
  have b: "as_bytes ?k = ?k" using catalog_key_ascii [OF assms(2)] by (rule as_bytes_ascii)
  have l: "str_len ?k = 2 * str_len name" using length_as_bytes [of ?k] by (simp add: b length_catalog_key)
  have "?k \<noteq> []" using l assms(1) by (metis str_len_zero mult_is_0 zero_neq_numeral)
  moreover have "hex_pairs ?k = Some (as_bytes name)"
    unfolding workspace_catalog_key_def using as_bytes_bound [OF assms(2)] by (rule hex_pairs_key)
  ultimately show ?thesis using l b from_utf8_as_bytes [OF assms(2)] by (simp add: workspace_name_from_catalog_key_def)
qed

interpretation catalog: codec workspace_catalog_key workspace_name_from_catalog_key "\<lambda>name. name \<noteq> [] \<and> is_str name"
  by unfold_locales (simp add: catalog_key_decodes)

text \<open>
  Catalog keys are reversible and path safe. The key of a non-empty name decodes back to
  the name, is made of lower-case hexadecimal digits only, and no two names share a key.
\<close>

theorem catalog_key_round_trip:
  assumes "name \<noteq> []" and "is_str name"
  shows "workspace_name_from_catalog_key (workspace_catalog_key name) = Some name
     \<and> set (workspace_catalog_key name) \<subseteq> set (lit ''0123456789abcdef'')
     \<and> (\<forall>other. other \<noteq> [] \<longrightarrow> is_str other \<longrightarrow> workspace_catalog_key other = workspace_catalog_key name \<longrightarrow> other = name)"
proof (intro conjI allI impI)
  show "workspace_name_from_catalog_key (workspace_catalog_key name) = Some name"
    using assms by (rule catalog_key_decodes)
  have "hex_digit n \<in> set (lit ''0123456789abcdef'')" if "n < 16" for n
    using that unfolding hex_digit_values [symmetric] by simp
  moreover have "b div 16 < 16" if "b \<in> set (as_bytes name)" for b using as_bytes_bound [OF assms(2) that] by simp
  ultimately show "set (workspace_catalog_key name) \<subseteq> set (lit ''0123456789abcdef'')"
    by (auto simp: workspace_catalog_key_def)
  fix other assume "other \<noteq> []" "is_str other" "workspace_catalog_key other = workspace_catalog_key name"
  then show "other = name" using catalog.enc_inj assms by blast
qed

theorem catalog_key_round_trip_witness:
  "workspace_name_from_catalog_key (workspace_catalog_key [0x4E, 0xE9, 0x1F600]) = Some [0x4E, 0xE9, 0x1F600]"
proof -
  have "[0x4E, 0xE9, 0x1F600::nat] \<noteq> []" "is_str [0x4E, 0xE9, 0x1F600]" by (simp_all add: is_str_def is_scalar_def)
  from catalog_key_round_trip [OF this] show ?thesis by blast
qed

section \<open>Which layouts a restore accepts\<close>

fun leaves :: "workspace_layout \<Rightarrow> nat" where
  "leaves WPane = 1"
| "leaves (WSplit _ _ a b) = leaves a + leaves b"

fun ratios_ok :: "workspace_layout \<Rightarrow> bool" where
  "ratios_ok WPane = True"
| "ratios_ok (WSplit _ k a b) \<longleftrightarrow> 1 \<le> k \<and> k < 10000 \<and> ratios_ok a \<and> ratios_ok b"

lemma leaves_pos: "0 < leaves t"
  by (induction t) auto

lemma pane_count_spec:
  "pane_count t = (if ratios_ok t \<and> leaves t \<le> MAX_PANES then Some (leaves t) else None)"
proof (induction t)
  case (WSplit d k a b)
  then show ?case using leaves_pos [of a] leaves_pos [of b] by (auto simp: MAX_PANES_def)
qed (simp add: MAX_PANES_def)

end
