(* ===== verification/Outbox.thy ===== *)
theory Outbox
  imports Interfaces "HOL-Library.Sublist"
begin

text \<open>
  The backlog between the core loop and the agent runtime,
  \<^verbatim>\<open>crates/uniterm-server/src/runtime/outbox.rs\<close>, with its two callers \<open>AgentRuntime::send\<close>
  and \<open>drain\<close> of \<^verbatim>\<open>runtime.rs\<close>. Of the message type \<open>CoreToAgent\<close> the variants the outbox
  inspects are kept; all others, which it treats alike, are one constructor over a type
  parameter. What other crates compute is a parameter: the memory a checkpoint retains, the
  encoded size of the other variants, and the outcome of each \<^verbatim>\<open>try_send\<close> of the channel.
\<close>

section \<open>Messages\<close>

definition MAX_MESSAGES :: nat where "MAX_MESSAGES = 512"
definition MAX_BYTES :: nat where "MAX_BYTES = 128 * 1024 * 1024"

datatype ('s, 'o) core_to_agent =
    SnapshotSave str 's
  | EventAppend str str
  | WorkspaceCatalogAppend str str
  | PaneEvidence pane_id "i32 option" bool str str "str option"
  | DevServerEvidence pane_id str
  | OtherMessage 'o

fun same_projection :: "('s, 'o) core_to_agent \<Rightarrow> ('s, 'o) core_to_agent \<Rightarrow> bool" where
  "same_projection (SnapshotSave a _) (SnapshotSave b _) = (a = b)"
| "same_projection (WorkspaceCatalogAppend a _) (WorkspaceCatalogAppend b _) = (a = b)"
| "same_projection (PaneEvidence a _ _ _ _ _) (PaneEvidence b _ _ _ _ _) = (a = b)"
| "same_projection (DevServerEvidence a _) (DevServerEvidence b _) = (a = b)"
| "same_projection _ _ = False"

fun barrier :: "('s, 'o) core_to_agent \<Rightarrow> bool" where
  "barrier (OtherMessage _) = True"
| "barrier _ = False"

section \<open>The backlog\<close>

datatype outbox_failure = BacklogExceeded | RuntimeDisconnected

record ('s, 'o) outbox =
  ob_pending :: "(('s, 'o) core_to_agent \<times> nat) list"
  ob_bytes :: nat
  ob_failure :: "outbox_failure option"

definition ob_default :: "('s, 'o) outbox" where
  "ob_default = \<lparr>ob_pending = [], ob_bytes = 0, ob_failure = None\<rparr>"

definition encoded_size :: "('s \<Rightarrow> nat) \<Rightarrow> ('o \<Rightarrow> nat option) \<Rightarrow> ('s, 'o) core_to_agent \<Rightarrow> nat option" where
  "encoded_size retained osize m =
     (case m of
        SnapshotSave name s \<Rightarrow> Some (min (2 ^ 64 - 1) (retained s + (str_len name + 32)))
      | EventAppend name line \<Rightarrow> Some (str_len name + str_len line + 32)
      | WorkspaceCatalogAppend name line \<Rightarrow> Some (str_len name + str_len line + 32)
      | PaneEvidence _ _ _ tail title bound \<Rightarrow>
          Some (str_len tail + str_len title + (case bound of None \<Rightarrow> 0 | Some a \<Rightarrow> str_len a) + 64)
      | DevServerEvidence _ tail \<Rightarrow> Some (str_len tail + 32)
      | OtherMessage x \<Rightarrow> osize x)"

text \<open>A superseded evidence hands its need for a process lookup to its successor.\<close>

fun carry_over :: "('s, 'o) core_to_agent \<Rightarrow> ('s, 'o) core_to_agent \<Rightarrow> ('s, 'o) core_to_agent" where
  "carry_over (PaneEvidence _ _ previous _ _ _) (PaneEvidence p pid changed tail title bound)
     = PaneEvidence p pid (changed \<or> previous) tail title bound"
| "carry_over _ m = m"

definition ob_replace :: "('s, 'o) core_to_agent \<Rightarrow> ('s, 'o) outbox \<Rightarrow> ('s, 'o) outbox \<times> ('s, 'o) core_to_agent" where
  "ob_replace m b =
     (case rposition (\<lambda>(old, _). same_projection old m) (ob_pending b) of
        None \<Rightarrow> (b, m)
      | Some i \<Rightarrow>
          if list_all (\<lambda>(item, _). \<not> barrier item) (drop (i + 1) (ob_pending b))
          then (let (old, sz) = ob_pending b ! i
                in (b\<lparr>ob_pending := remove_at i (ob_pending b), ob_bytes := ob_bytes b - sz\<rparr>, carry_over old m))
          else (b, m))"

definition ob_push :: "('s \<Rightarrow> nat) \<Rightarrow> ('o \<Rightarrow> nat option) \<Rightarrow> ('s, 'o) core_to_agent \<Rightarrow> ('s, 'o) outbox \<Rightarrow> ('s, 'o) outbox" where
  "ob_push retained osize m0 b0 =
     (if ob_failure b0 \<noteq> None then b0
      else
        (let (b, m) = ob_replace m0 b0;
             sz = (case encoded_size retained osize m of None \<Rightarrow> 2 ^ 64 - 1 | Some n \<Rightarrow> n)
         in if length (ob_pending b) \<ge> MAX_MESSAGES \<or> sz > MAX_BYTES - ob_bytes b
            then b\<lparr>ob_failure := Some BacklogExceeded\<rparr>
            else b\<lparr>ob_bytes := ob_bytes b + sz, ob_pending := ob_pending b @ [(m, sz)]\<rparr>))"

text \<open>
  The outcomes of the successive \<^verbatim>\<open>try_send\<close> calls of one flush are given; a flush that outlives
  its list finds the channel full.
\<close>

datatype send_result = SendOk | SendFull | SendDisconnected

function ob_flush :: "send_result list \<Rightarrow> ('s, 'o) outbox \<Rightarrow> ('s, 'o) outbox \<times> ('s, 'o) core_to_agent list" where
  "ob_flush outcomes b =
     (case ob_pending b of
        [] \<Rightarrow> (b, [])
      | (m, sz) # rest \<Rightarrow>
          (case outcomes of
             [] \<Rightarrow> (b, [])
           | SendFull # _ \<Rightarrow> (b, [])
           | SendDisconnected # _ \<Rightarrow>
               (b\<lparr>ob_pending := rest, ob_bytes := ob_bytes b - sz, ob_failure := Some RuntimeDisconnected\<rparr>, [])
           | SendOk # rs \<Rightarrow>
               (let (b', sent) = ob_flush rs (b\<lparr>ob_pending := rest, ob_bytes := ob_bytes b - sz\<rparr>)
                in (b', m # sent))))"
  by pat_completeness auto
termination by (relation "measure (\<lambda>(outcomes, b). length (ob_pending b))") auto

declare ob_flush.simps [simp del]

definition backpressured :: "('s, 'o) outbox \<Rightarrow> bool" where
  "backpressured b \<longleftrightarrow> length (ob_pending b) \<ge> MAX_MESSAGES div 2 \<or> ob_bytes b \<ge> MAX_BYTES div 2"

definition check_health :: "('s, 'o) outbox \<Rightarrow> outbox_failure + unit" where
  "check_health b = (case ob_failure b of None \<Rightarrow> Inr () | Some e \<Rightarrow> Inl e)"

section \<open>The callers\<close>

datatype ('s, 'o) runtime_call = Send "('s, 'o) core_to_agent" "send_result list" | Drain "send_result list"

fun agent_call :: "('s \<Rightarrow> nat) \<Rightarrow> ('o \<Rightarrow> nat option) \<Rightarrow> ('s, 'o) runtime_call \<Rightarrow> ('s, 'o) outbox
    \<Rightarrow> ('s, 'o) outbox \<times> ('s, 'o) core_to_agent list" where
  "agent_call retained osize (Send m rs) b = ob_flush rs (ob_push retained osize m b)"
| "agent_call retained osize (Drain rs) b = ob_flush rs b"

text \<open>A run of calls: the backlog left, and everything the runtime received, in order.\<close>

fun agent_calls :: "('s \<Rightarrow> nat) \<Rightarrow> ('o \<Rightarrow> nat option) \<Rightarrow> ('s, 'o) runtime_call list \<Rightarrow> ('s, 'o) outbox
    \<Rightarrow> ('s, 'o) outbox \<times> ('s, 'o) core_to_agent list" where
  "agent_calls retained osize [] b = (b, [])"
| "agent_calls retained osize (c # cs) b =
     (let (b1, s1) = agent_call retained osize c b; (b2, s2) = agent_calls retained osize cs b1 in (b2, s1 @ s2))"

fun requested :: "('s, 'o) runtime_call \<Rightarrow> ('s, 'o) core_to_agent list" where
  "requested (Send m _) = [m]"
| "requested (Drain _) = []"

definition requests :: "('s, 'o) runtime_call list \<Rightarrow> ('s, 'o) core_to_agent list" where
  "requests cs = concat (map requested cs)"

section \<open>What the backlog promises\<close>

text \<open>Records that must arrive, each one and in order: event lines and every other operation.\<close>

fun ordered :: "('s, 'o) core_to_agent \<Rightarrow> bool" where
  "ordered (EventAppend _ _) = True"
| "ordered (OtherMessage _) = True"
| "ordered _ = False"

text \<open>A message up to the flag that a superseded evidence may have raised in it.\<close>

fun erase :: "('s, 'o) core_to_agent \<Rightarrow> ('s, 'o) core_to_agent" where
  "erase (PaneEvidence p pid _ tail title bound) = PaneEvidence p pid False tail title bound"
| "erase m = m"

fun changed_process :: "pane_id \<Rightarrow> ('s, 'o) core_to_agent \<Rightarrow> bool" where
  "changed_process q (PaneEvidence p _ changed _ _ _) \<longleftrightarrow> p = q \<and> changed"
| "changed_process q _ = False"

text \<open>The newest observation of the projection that \<open>m\<close> belongs to.\<close>

definition newest :: "('s, 'o) core_to_agent \<Rightarrow> ('s, 'o) core_to_agent list \<Rightarrow> ('s, 'o) core_to_agent option" where
  "newest m xs = find (same_projection m) (rev (map erase xs))"

definition faithful :: "('s, 'o) core_to_agent list \<Rightarrow> ('s, 'o) core_to_agent list \<Rightarrow> bool" where
  "faithful hist out \<longleftrightarrow>
     subseq (map erase out) (map erase hist)
   \<and> filter ordered out = filter ordered hist
   \<and> (\<forall>m. newest m out = newest m hist)
   \<and> (\<forall>p. list_ex (changed_process p) hist \<longrightarrow> list_ex (changed_process p) out)"

definition ob_bounded :: "('s, 'o) outbox \<Rightarrow> bool" where
  "ob_bounded b \<longleftrightarrow> length (ob_pending b) \<le> MAX_MESSAGES
     \<and> ob_bytes b = sum_list (map snd (ob_pending b)) \<and> ob_bytes b \<le> MAX_BYTES"

lemma same_projection_sym: "same_projection a b \<Longrightarrow> same_projection b a"
  by (cases a; cases b) auto

lemma same_projection_trans: "same_projection a b \<Longrightarrow> same_projection b c \<Longrightarrow> same_projection a c"
  by (cases a; cases b; cases c) auto

lemma same_projection_erase [simp]:
  "same_projection (erase a) b = same_projection a b" "same_projection a (erase b) = same_projection a b"
  by (cases a; cases b; simp)+

lemma erase_carry_over [simp]: "erase (carry_over old m) = erase m"
  by (cases old; cases m) auto

lemma same_projection_carry [simp]: "same_projection a (carry_over old m) = same_projection a m"
  by (metis erase_carry_over same_projection_erase(2))

lemma ordered_carry [simp]: "ordered (carry_over old m) = ordered m" and "ordered m \<Longrightarrow> carry_over old m = m"
  by (cases old; cases m; simp)+

lemma replaced_not_ordered: "same_projection old m \<Longrightarrow> \<not> ordered old \<and> \<not> ordered m"
  by (cases old; cases m) auto

lemma changed_carry:
  "same_projection old m \<Longrightarrow> changed_process p (carry_over old m) = (changed_process p old \<or> changed_process p m)"
  by (cases old; cases m) auto

lemma newest_snoc: "newest m (xs @ [x]) = (if same_projection m x then Some (erase x) else newest m xs)"
  by (simp add: newest_def)

lemma find_skip: "\<not> P y \<Longrightarrow> find P (xs @ y # ys) = find P (xs @ ys)"
  by (induction xs) auto

lemma newest_skip:
  assumes "same_projection old m"
  shows "newest n (xs @ old # ys @ [m]) = newest n (xs @ ys @ [m])"
proof (cases "same_projection n m")
  case True
  then show ?thesis
    using newest_snoc [of n "xs @ old # ys" m] newest_snoc [of n "xs @ ys" m] by simp
next
  case False
  then have "\<not> same_projection n (erase old)" using assms same_projection_trans by auto
  from find_skip [of "same_projection n", OF this, of "rev (map erase (ys @ [m]))" "rev (map erase xs)"] show ?thesis
    by (simp add: newest_def)
qed

subsection \<open>A message joins the backlog\<close>

lemma faithful_append:
  assumes "faithful hist out"
  shows "faithful (hist @ [m]) (out @ [m])"
  using assms by (auto simp: faithful_def newest_snoc intro: list_emb_append_mono)

lemma faithful_replace:
  assumes "faithful hist (xs @ old # ys)" and "same_projection old m"
  shows "faithful (hist @ [m]) (xs @ ys @ [carry_over old m])"
proof -
  note n = replaced_not_ordered [OF assms(2)]
  have "subseq (map erase (xs @ ys)) (map erase (xs @ old # ys))"
    by (auto simp: subseq_append')
  then have "subseq (map erase (xs @ ys)) (map erase hist)"
    using assms(1) subseq_order.order_trans unfolding faithful_def by blast
  then have "subseq (map erase (xs @ ys) @ [erase m]) (map erase hist @ [erase m])"
    by (rule list_emb_append_mono) simp
  moreover have "newest k (xs @ ys @ [carry_over old m]) = newest k (hist @ [m])" for k
  proof -
    have "newest k (xs @ ys @ [carry_over old m]) = newest k (xs @ ys @ [m])"
      using newest_snoc [of k "xs @ ys"] by simp
    also have "\<dots> = newest k ((xs @ old # ys) @ [m])" using newest_skip [OF assms(2), of k xs ys] by simp
    also have "\<dots> = newest k (hist @ [m])" using assms(1) unfolding newest_snoc faithful_def by simp
    finally show ?thesis .
  qed
  moreover have "list_ex (changed_process p) (xs @ ys @ [carry_over old m])" if "list_ex (changed_process p) (hist @ [m])" for p
    using that assms(1) changed_carry [OF assms(2), of p] unfolding faithful_def by fastforce
  ultimately show ?thesis using assms(1) n by (simp add: faithful_def)
qed

lemma rposition_split:
  assumes "rposition P xs = Some i"
  shows "i < length xs \<and> P (xs ! i)"
proof -
  from assms obtain k where k: "position P (rev xs) = Some k" "i = length xs - Suc k" by (auto simp: rposition_def)
  with position_SomeD [OF k(1)] show ?thesis by (auto simp: rev_nth)
qed

text \<open>What the replacement step leaves: the backlog as it is, or without the superseded entry.\<close>

lemma ob_replace_cases:
  obtains (keep) "ob_replace m b = (b, m)"
  | (drop) xs old sz ys where "ob_pending b = xs @ (old, sz) # ys" "same_projection old m"
      "ob_replace m b = (b\<lparr>ob_pending := xs @ ys, ob_bytes := ob_bytes b - sz\<rparr>, carry_over old m)"
proof (cases "fst (ob_replace m b) = b \<and> snd (ob_replace m b) = m")
  case True
  then show ?thesis by (intro keep) (simp add: prod_eq_iff)
next
  case False
  then obtain i where i: "rposition (\<lambda>(old, _). same_projection old m) (ob_pending b) = Some i"
    and bar: "list_all (\<lambda>(item, _). \<not> barrier item) (List.drop (i + 1) (ob_pending b))"
    by (auto simp: ob_replace_def split: option.splits if_splits)
  obtain old sz where e: "ob_pending b ! i = (old, sz)" by fastforce
  from rposition_split [OF i] have lt: "i < length (ob_pending b)" and sp: "same_projection old m" using e by auto
  have "ob_pending b = take i (ob_pending b) @ (old, sz) # List.drop (Suc i) (ob_pending b)"
    using split_at [OF lt] e by simp
  then show ?thesis
    using sp by (rule drop) (use i bar e in \<open>simp add: ob_replace_def remove_at_def\<close>)
qed

lemma ob_push_spec:
  fixes b :: "('s, 'o) outbox" and retained :: "'s \<Rightarrow> nat" and osize :: "'o \<Rightarrow> nat option" and m :: "('s, 'o) core_to_agent"
  defines "b' \<equiv> ob_push retained osize m b"
  assumes "ob_bounded b"
  shows "ob_bounded b'"
    and "ob_failure b \<noteq> None \<Longrightarrow> b' = b"
    and "ob_failure b' = None \<Longrightarrow> faithful hist (sent @ map fst (ob_pending b)) \<Longrightarrow>
      faithful (hist @ [m]) (sent @ map fst (ob_pending b'))"
proof -
  show "ob_failure b \<noteq> None \<Longrightarrow> b' = b" by (simp add: b'_def ob_push_def)
  show "ob_bounded b'"
  proof (cases rule: ob_replace_cases [where m = m and b = b])
    case keep
    then show ?thesis using assms(2) by (auto simp: b'_def ob_push_def ob_bounded_def Let_def)
  next
    case (drop xs old sz ys)
    then show ?thesis using assms(2) by (auto simp: b'_def ob_push_def ob_bounded_def Let_def)
  qed
  assume ok: "ob_failure b' = None" and f: "faithful hist (sent @ map fst (ob_pending b))"
  show "faithful (hist @ [m]) (sent @ map fst (ob_pending b'))"
  proof (cases rule: ob_replace_cases [where m = m and b = b])
    case keep
    with ok have "map fst (ob_pending b') = map fst (ob_pending b) @ [m]"
      by (auto simp: b'_def ob_push_def Let_def split: if_splits)
    with faithful_append [OF f] show ?thesis by simp
  next
    case (drop xs old sz ys)
    with ok have p: "map fst (ob_pending b') = map fst xs @ map fst ys @ [carry_over old m]"
      by (auto simp: b'_def ob_push_def Let_def split: if_splits)
    have "faithful hist ((sent @ map fst xs) @ old # map fst ys)" using f by (simp add: drop(1))
    from faithful_replace [OF this drop(2)] show ?thesis by (simp add: p)
  qed
qed

lemma ob_flush_spec:
  "ob_bounded b \<Longrightarrow> ob_bounded (fst (ob_flush rs b))
     \<and> (ob_failure b \<noteq> None \<longrightarrow> ob_failure (fst (ob_flush rs b)) \<noteq> None)
     \<and> (ob_failure (fst (ob_flush rs b)) = None \<longrightarrow>
          snd (ob_flush rs b) @ map fst (ob_pending (fst (ob_flush rs b))) = map fst (ob_pending b))"
proof (induction rs b rule: ob_flush.induct)
  case (1 rs b)
  show ?case
  proof (cases "ob_pending b")
    case Nil
    with 1 show ?thesis by (simp add: ob_flush.simps)
  next
    case (Cons x rest)
    obtain m sz where x: "x = (m, sz)" by fastforce
    have bnd: "ob_bounded (b\<lparr>ob_pending := rest, ob_bytes := ob_bytes b - sz\<rparr>)"
      "ob_bounded (b\<lparr>ob_pending := rest, ob_bytes := ob_bytes b - sz, ob_failure := Some RuntimeDisconnected\<rparr>)"
      using 1(2) Cons x by (auto simp: ob_bounded_def)
    show ?thesis
    proof (cases rs)
      case Nil
      with 1 Cons x show ?thesis by (simp add: ob_flush.simps [of "[]" b])
    next
      case (Cons r rs')
      with 1 \<open>ob_pending b = x # rest\<close> x bnd show ?thesis
        by (cases r) (auto simp: ob_flush.simps [of _ b] Let_def case_prod_beta)
    qed
  qed
qed

lemma agent_calls_spec:
  assumes "ob_bounded b"
  shows "ob_bounded (fst (agent_calls retained osize cs b))
     \<and> (ob_failure b \<noteq> None \<longrightarrow> ob_failure (fst (agent_calls retained osize cs b)) \<noteq> None)
     \<and> (ob_failure (fst (agent_calls retained osize cs b)) = None \<longrightarrow> faithful hist (sent @ map fst (ob_pending b)) \<longrightarrow>
          faithful (hist @ requests cs) (sent @ snd (agent_calls retained osize cs b)
             @ map fst (ob_pending (fst (agent_calls retained osize cs b)))))"
  using assms
proof (induction cs arbitrary: b hist sent)
  case (Cons c cs)
  obtain rs b0 where c: "agent_call retained osize c b = ob_flush rs b0" and b0: "ob_bounded b0"
    and nf: "ob_failure b \<noteq> None \<longrightarrow> ob_failure b0 \<noteq> None"
    and step: "ob_failure b0 = None \<longrightarrow> faithful hist (sent @ map fst (ob_pending b)) \<longrightarrow>
      faithful (hist @ requested c) (sent @ map fst (ob_pending b0))"
  proof (cases c)
    case (Send m rs)
    show thesis
    proof (rule that)
      show "agent_call retained osize c b = ob_flush rs (ob_push retained osize m b)" by (simp add: Send)
      show "ob_bounded (ob_push retained osize m b)" using Cons.prems by (rule ob_push_spec(1))
      show "ob_failure b \<noteq> None \<longrightarrow> ob_failure (ob_push retained osize m b) \<noteq> None"
        using ob_push_spec(2) [OF Cons.prems] by metis
    qed (use ob_push_spec(3) [OF Cons.prems] Send in auto)
  next
    case (Drain rs)
    then show thesis using Cons.prems by (intro that [of rs b]) auto
  qed
  let ?b1 = "fst (ob_flush rs b0)" and ?s1 = "snd (ob_flush rs b0)"
  note fl = ob_flush_spec [OF b0, of rs]
  have IH: "ob_bounded (fst (agent_calls retained osize cs ?b1))
     \<and> (ob_failure ?b1 \<noteq> None \<longrightarrow> ob_failure (fst (agent_calls retained osize cs ?b1)) \<noteq> None)
     \<and> (ob_failure (fst (agent_calls retained osize cs ?b1)) = None \<longrightarrow>
          faithful (hist @ requested c) ((sent @ ?s1) @ map fst (ob_pending ?b1)) \<longrightarrow>
          faithful ((hist @ requested c) @ requests cs) ((sent @ ?s1) @ snd (agent_calls retained osize cs ?b1)
             @ map fst (ob_pending (fst (agent_calls retained osize cs ?b1)))))"
    using fl by (intro Cons.IH) blast
  have e: "agent_calls retained osize (c # cs) b
      = (fst (agent_calls retained osize cs ?b1), ?s1 @ snd (agent_calls retained osize cs ?b1))"
    by (simp add: c case_prod_beta)
  have "requests (c # cs) = requested c @ requests cs" by (simp add: requests_def)
  with IH fl nf step show ?case unfolding e by auto
qed (simp add: requests_def)


definition demo_calls :: "(nat, nat) runtime_call list" where
  "demo_calls =
     [Send (SnapshotSave (lit ''w'') 1) [SendFull], Send (EventAppend (lit ''w'') (lit ''a'')) [],
      Send (SnapshotSave (lit ''w'') 2) [], Send (OtherMessage 7) [], Drain [SendOk, SendFull]]"


text \<open>
  C26. A backlog in front of a channel that accepts drains completely: as many successful
  sends as there are pending messages deliver all of them in order and leave nothing.
\<close>

theorem outbox_drains:
  assumes "ob_bounded b" and "length (ob_pending b) \<le> n"
  shows "ob_flush (replicate n SendOk) b = (b\<lparr>ob_pending := [], ob_bytes := 0\<rparr>, map fst (ob_pending b))"
  using assms
proof (induction n arbitrary: b)
  case 0
  then have "b\<lparr>ob_pending := [], ob_bytes := 0\<rparr> = b" by (simp add: ob_bounded_def)
  with 0 show ?case by (simp add: ob_flush.simps)
next
  case (Suc n)
  show ?case
  proof (cases "ob_pending b")
    case Nil
    with Suc.prems have "b\<lparr>ob_pending := [], ob_bytes := 0\<rparr> = b" by (simp add: ob_bounded_def)
    with Nil show ?thesis by (simp add: ob_flush.simps)
  next
    case (Cons x rest)
    obtain m sz where x: "x = (m, sz)" by fastforce
    let ?b = "b\<lparr>ob_pending := rest, ob_bytes := ob_bytes b - sz\<rparr>"
    have "ob_bounded ?b" "length (ob_pending ?b) \<le> n" using Suc.prems Cons x by (auto simp: ob_bounded_def)
    from Suc.IH [OF this] Cons x show ?thesis by (simp add: ob_flush.simps [of _ b])
  qed
qed

theorem outbox_drains_witness:
  "ob_flush [SendOk] \<lparr>ob_pending = [(OtherMessage (7::nat), 7)], ob_bytes = 7, ob_failure = None\<rparr>
     = (\<lparr>ob_pending = [], ob_bytes = 0, ob_failure = None\<rparr>, [OtherMessage 7 :: (nat, nat) core_to_agent])"
  using outbox_drains [of "\<lparr>ob_pending = [(OtherMessage 7 :: (nat, nat) core_to_agent, 7)], ob_bytes = 7, ob_failure = None\<rparr>" 1]
  by (simp add: ob_bounded_def MAX_MESSAGES_def MAX_BYTES_def)

end
