(* ===== verification/Keyboard.thy ===== *)
theory Keyboard
  imports Utf8 "HOL-Library.Sublist"
begin

text \<open>
  Keyboard protocol adaptation, \<^verbatim>\<open>crates/uniterm-core/src/keyboard.rs\<close>: the bracketed-paste
  recogniser that outlives single reads, the decoding of CSI-u keys for consumers of the
  legacy encoding, and the fixed eight-byte buffer that holds one legacy key.
\<close>

unbundle bit_operations_syntax

section \<open>Bracketed paste\<close>

record keyboard_input =
  kb_pasting :: bool
  kb_marker_position :: nat

definition kb_default :: keyboard_input where
  "kb_default = \<lparr>kb_pasting = False, kb_marker_position = 0\<rparr>"

definition paste_marker :: "bool \<Rightarrow> byte list" where
  "paste_marker pasting = (if pasting then 0x1B # lit ''[201~'' else 0x1B # lit ''[200~'')"

definition observe_byte :: "byte \<Rightarrow> keyboard_input \<Rightarrow> keyboard_input \<times> bool" where
  "observe_byte b k =
     (let was_pasting = kb_pasting k;
          marker = paste_marker (kb_pasting k);
          k1 =
            (if b = marker ! kb_marker_position k then
               (let p = kb_marker_position k + 1
                in if p = length marker then k\<lparr>kb_pasting := \<not> kb_pasting k, kb_marker_position := 0\<rparr>
                   else k\<lparr>kb_marker_position := p\<rparr>)
             else k\<lparr>kb_marker_position := (if b = 0x1B then 1 else 0)\<rparr>)
      in (k1, was_pasting \<or> kb_pasting k1 \<or> kb_marker_position k1 \<noteq> 0))"

section \<open>CSI-u keys\<close>

text \<open>\<^verbatim>\<open>str::parse::<u32>\<close>: digits, perhaps after a plus sign, within the type.\<close>

definition parse_u32 :: "str \<Rightarrow> nat option" where
  "parse_u32 s =
     (let ds = (case s of c # r \<Rightarrow> if c = 43 \<and> r \<noteq> [] then r else s | [] \<Rightarrow> [])
      in if ds = [] \<or> \<not> list_all (\<lambda>c. 48 \<le> c \<and> c \<le> 57) ds then None
         else (let n = fold (\<lambda>c n. n * 10 + (c - 48)) ds 0 in if n < 2 ^ 32 then Some n else None))"

definition csi_key :: "byte list \<Rightarrow> (nat \<times> nat \<times> u32) option" where
  "csi_key input =
     (if take 2 input \<noteq> [0x1B, 91] then None
      else
        (let tail = drop 2 input
         in case position (\<lambda>b. 0x40 \<le> b \<and> b \<le> 0x7E) (take 24 tail) of
              None \<Rightarrow> None
            | Some e \<Rightarrow>
                if tail ! e \<noteq> 117 then None
                else
                  (case from_utf8 (take e tail) of
                     None \<Rightarrow> None
                   | Some s \<Rightarrow>
                       (case str_split 59 s of
                          [] \<Rightarrow> None
                        | p0 # ps \<Rightarrow>
                            (case parse_u32 p0 of
                               None \<Rightarrow> None
                             | Some key \<Rightarrow>
                                 (case (case ps of [] \<Rightarrow> Some 1 | p1 # _ \<Rightarrow> parse_u32 p1) of
                                    None \<Rightarrow> None
                                  | Some modifiers \<Rightarrow>
                                      if length ps > 1 \<or> modifiers = 0 then None
                                      else Some (e + 3, key, of_nat modifiers - 1)))))))"

definition functional_key :: "nat \<Rightarrow> byte \<times> byte" where
  "functional_key key =
     (if key = 57417 then (49, 68) else if key = 57418 then (49, 67)
      else if key = 57419 then (49, 65) else if key = 57420 then (49, 66)
      else if key = 57421 then (53, 126) else if key = 57422 then (54, 126)
      else if key = 57423 then (49, 72) else if key = 57424 then (49, 70)
      else if key = 57425 then (50, 126) else (51, 126))"

definition keypad_key :: "nat \<Rightarrow> nat option" where
  "keypad_key key =
     (if 57399 \<le> key \<and> key \<le> 57408 then Some (48 + key - 57399)
      else if key = 57409 then Some 46 else if key = 57410 then Some 47
      else if key = 57411 then Some 42 else if key = 57412 then Some 45
      else if key = 57413 then Some 43 else if key = 57414 then Some 13
      else if key = 57415 then Some 61 else if key = 57416 then Some 44
      else if 57344 \<le> key \<and> key \<le> 63743 then None
      else Some key)"

definition control_key :: "nat \<Rightarrow> nat" where
  "control_key key =
     (if key = 32 \<or> key = 50 \<or> key = 64 then 0
      else if 97 \<le> key \<and> key \<le> 122 then key - 96
      else if 65 \<le> key \<and> key \<le> 90 then key - 64
      else if key = 51 \<or> key = 91 then 27
      else if key = 52 \<or> key = 92 then 28
      else if key = 53 \<or> key = 93 then 29
      else if key = 54 \<or> key = 94 \<or> key = 126 then 30
      else if key = 47 \<or> key = 55 \<or> key = 95 then 31
      else if key = 56 \<or> key = 63 then 127
      else if key = 127 then 8
      else key)"

definition unshifted :: "byte list" where
  "unshifted = lit ''`1234567890-=[]'' @ [92] @ lit '';'' @ [39] @ lit '',./''"

definition shifted :: "byte list" where
  "shifted = lit ''~!@#$%^&*()_+{}|:'' @ [34] @ lit ''<>?''"

definition shift_key :: "nat \<Rightarrow> nat" where
  "shift_key key =
     (if 97 \<le> key \<and> key \<le> 122 then key - 32
      else case position (\<lambda>b. b = key) unshifted of None \<Rightarrow> key | Some i \<Rightarrow> shifted ! i)"

definition legacy_key :: "nat \<Rightarrow> u32 \<Rightarrow> byte list option" where
  "legacy_key key modifiers =
     (if modifiers AND NOT (7 OR 64 OR 128) \<noteq> 0 then None
      else if 57417 \<le> key \<and> key \<le> 57426 then
        (let (parameter, final_byte) = functional_key key
         in Some ([0x1B, 91]
              @ (if modifiers AND 7 \<noteq> 0 \<or> final_byte = 126 then [parameter] else [])
              @ (if modifiers AND 7 \<noteq> 0 then [59, 49 + unat (modifiers AND 7)] else [])
              @ [final_byte]))
      else
        (case keypad_key key of
           None \<Rightarrow> None
         | Some key1 \<Rightarrow>
             if key1 = 9 \<and> modifiers AND 7 = 1 then Some [0x1B, 91, 90]
             else
               (let key2 = (if modifiers AND 4 \<noteq> 0 then control_key key1
                            else if modifiers AND 1 \<noteq> 0 then shift_key key1
                            else key1)
                in if is_scalar key2
                   then Some ((if modifiers AND 2 \<noteq> 0 then [0x1B] else []) @ encode_utf8 key2)
                   else None)))"

section \<open>Decoding a read\<close>

text \<open>
  The loop over one read. \<open>done\<close> is the input before the current index and \<open>out\<close> the owned
  output, once there is one; \<open>None\<close> at the end means the input is returned as it is.
\<close>

definition push_out :: "byte \<Rightarrow> byte list option \<Rightarrow> byte list option" where
  "push_out b out = map_option (\<lambda>o'. o' @ [b]) out"

lemma csi_key_length: "csi_key input = Some (n, key, m) \<Longrightarrow> 0 < n \<and> n \<le> length input"
proof -
  assume "csi_key input = Some (n, key, m)"
  then obtain e where e: "position (\<lambda>b. 0x40 \<le> b \<and> b \<le> 0x7E) (take 24 (drop 2 input)) = Some e" and n: "n = e + 3"
    by (auto simp: csi_key_def Let_def split: if_splits option.splits list.splits)
  from position_SomeD [OF e] have "e < length (take 24 (drop 2 input))" by blast
  with n show ?thesis by auto
qed

text \<open>The test at one position: outside a paste, a key sequence that is to be rewritten.\<close>

definition key_at :: "byte option \<Rightarrow> keyboard_input \<Rightarrow> byte list \<Rightarrow> (nat \<times> byte list) option" where
  "key_at prefix_only k input =
     (if hd input \<noteq> 0x1B \<or> kb_pasting k then None
      else
        (case csi_key input of
           None \<Rightarrow> None
         | Some (n, key, modifiers) \<Rightarrow>
             (case legacy_key key modifiers of
                None \<Rightarrow> None
              | Some bytes \<Rightarrow> if prefix_only = None \<or> bytes = [the prefix_only] then Some (n, bytes) else None)))"

lemma key_at_length: "key_at p k input = Some (n, bytes) \<Longrightarrow> 0 < n \<and> n \<le> length input"
  by (auto simp: key_at_def dest: csi_key_length split: if_splits option.splits)

function legacy_loop :: "byte option \<Rightarrow> byte list \<Rightarrow> byte list \<Rightarrow> byte list option \<Rightarrow> keyboard_input
    \<Rightarrow> keyboard_input \<times> byte list option" where
  "legacy_loop prefix_only done [] out k = (k, out)"
| "legacy_loop prefix_only done (b # rest) out k =
     (case key_at prefix_only k (b # rest) of
        None \<Rightarrow> legacy_loop prefix_only (done @ [b]) rest (push_out b out) (fst (observe_byte b k))
      | Some (n, bytes) \<Rightarrow>
          legacy_loop prefix_only (done @ take n (b # rest)) (drop n (b # rest))
            (Some ((case out of None \<Rightarrow> done | Some o' \<Rightarrow> o') @ bytes)) (k\<lparr>kb_marker_position := 0\<rparr>))"
  by pat_completeness auto
termination
  by (relation "measure (\<lambda>(_, _, rest, _, _). length rest)") (auto dest: key_at_length)

definition kb_legacy_keys :: "byte list \<Rightarrow> byte option \<Rightarrow> keyboard_input \<Rightarrow> keyboard_input \<times> byte list" where
  "kb_legacy_keys input prefix_only k =
     (let (k1, out) = legacy_loop prefix_only [] input None k in (k1, case out of None \<Rightarrow> input | Some o' \<Rightarrow> o'))"

definition legacy_keys :: "byte list \<Rightarrow> byte option \<Rightarrow> byte list" where
  "legacy_keys input prefix_only = snd (kb_legacy_keys input prefix_only kb_default)"

section \<open>One key fits its buffer\<close>

lemma and_seven_bound: "unat (m AND 7) \<le> 7" for m :: u32
  using word_and_le1 [of m 7] by (simp add: word_le_nat_alt)

lemma functional_key_bytes: "fst (functional_key key) < 256 \<and> snd (functional_key key) < 256"
  by (simp add: functional_key_def)

text \<open>
  A decoded key fits the eight bytes reserved for it: whatever number and modifiers a
  terminal reports, the legacy encoding is between one and eight bytes long, and all of
  them are bytes.
\<close>

theorem legacy_key_fits:
  assumes "legacy_key key m = Some bs"
  shows "0 < length bs \<and> length bs \<le> 8 \<and> (\<forall>b\<in>set bs. b < 256)"
proof -
  have u: "utf8_len c \<le> 4 \<and> 0 < utf8_len c" for c by (simp add: utf8_len_def)
  obtain x y where f: "functional_key key = (x, y)" "x < 256" "y < 256"
    using functional_key_bytes [of key] by (cases "functional_key key") auto
  show ?thesis
  proof (cases "57417 \<le> key \<and> key \<le> 57426")
    case True
    with assms f and_seven_bound [of m] show ?thesis
      by (auto simp: legacy_key_def split: if_splits)
  next
    case False
    then consider "bs = [0x1B, 91, 90]"
      | c where "is_scalar c" "bs = (if m AND 2 \<noteq> 0 then [0x1B] else []) @ encode_utf8 c"
      using assms by (auto simp: legacy_key_def Let_def split: if_splits option.splits)
    then show ?thesis
    proof cases
      case (2 c)
      then show ?thesis using u [of c] byte_bound [of c] by auto
    qed simp
  qed
qed

theorem legacy_key_fits_witness: "length [0x1B, 91, 49, 59, 54, 65::nat] \<le> 8"
proof -
  have "legacy_key 57419 5 = Some [0x1B, 91, 49, 59, 54, 65]" by code_simp
  from legacy_key_fits [OF this] show ?thesis by blast
qed

section \<open>The paste recogniser is exact\<close>

definition observe :: "byte list \<Rightarrow> keyboard_input \<Rightarrow> keyboard_input" where
  "observe bs k = fold (\<lambda>b k. fst (observe_byte b k)) bs k"

text \<open>
  The specification: a paste begins or ends exactly when the bytes since the last such change
  end with the whole marker.
\<close>

fun paste_spec :: "bool \<Rightarrow> byte list \<Rightarrow> byte list \<Rightarrow> bool" where
  "paste_spec p seen [] = p"
| "paste_spec p seen (b # bs) =
     (if suffix (paste_marker p) (seen @ [b]) then paste_spec (\<not> p) [] bs else paste_spec p (seen @ [b]) bs)"

text \<open>\<open>n\<close> bytes of the marker are matched, and no more.\<close>

definition matched :: "byte list \<Rightarrow> nat \<Rightarrow> byte list \<Rightarrow> bool" where
  "matched m n seen \<longleftrightarrow> n < length m \<and> suffix (take n m) seen
     \<and> (\<forall>j. n < j \<longrightarrow> j \<le> length m \<longrightarrow> \<not> suffix (take j m) seen)"

lemma suffix_take_snoc:
  assumes "j < length m"
  shows "suffix (take (Suc j) m) (seen @ [b]) \<longleftrightarrow> m ! j = b \<and> suffix (take j m) seen"
  using assms by (auto simp: take_Suc_conv_app_nth)

lemma matched_step_hit:
  assumes "matched m n seen" and "m ! n = b"
  shows "suffix m (seen @ [b]) \<longleftrightarrow> Suc n = length m"
    and "Suc n < length m \<Longrightarrow> matched m (Suc n) (seen @ [b])"
proof -
  have up: "\<not> suffix (take j m) (seen @ [b])" if "Suc n < j" "j \<le> length m" for j
    using that assms(1) suffix_take_snoc [of "j - 1" m seen b] by (cases j) (auto simp: matched_def)
  have hit: "suffix (take (Suc n) m) (seen @ [b])"
    using assms suffix_take_snoc [of n m seen b] by (simp add: matched_def)
  show "suffix m (seen @ [b]) \<longleftrightarrow> Suc n = length m"
    using up [of "length m"] hit assms(1) by (cases "Suc n = length m") (auto simp: matched_def)
  show "Suc n < length m \<Longrightarrow> matched m (Suc n) (seen @ [b])"
    using up hit by (simp add: matched_def)
qed

text \<open>The first byte of the marker occurs nowhere else in it, so matches do not overlap.\<close>

lemma matched_step_miss:
  assumes "matched m n seen" and "m ! n \<noteq> b" and "m \<noteq> []" and "hd m \<notin> set (tl m)" and "1 < length m"
  shows "\<not> suffix m (seen @ [b])" and "matched m (if b = hd m then 1 else 0) (seen @ [b])"
proof -
  have key: "j = 0 \<and> b = hd m" if "suffix (take (Suc j) m) (seen @ [b])" "j < length m" for j
  proof -
    from that have b: "m ! j = b" and sj: "suffix (take j m) seen" using suffix_take_snoc [of j m seen b] by auto
    then have "j \<le> n" "j \<noteq> n" using assms(1,2) that(2) unfolding matched_def by (metis leI less_imp_le, auto)
    then have jn: "j < n" by simp
    have "j = 0"
    proof (rule ccontr)
      assume "j \<noteq> 0"
      have "suffix (take j m) (take n m)"
        using sj assms(1) jn suffix_length_suffix [of "take j m" seen "take n m"] by (auto simp: matched_def)
      then obtain zs where zs: "take n m = zs @ take j m" by (auto simp: suffix_def)
      then have "zs \<noteq> []" using jn assms(1) by (auto simp: matched_def dest: arg_cong [of _ _ length])
      moreover have "hd m \<in> set (take j m)" using \<open>j \<noteq> 0\<close> assms(3) by (cases m; cases j) auto
      ultimately have "hd m \<in> set (tl (take n m))" using zs by (cases zs) auto
      then show False using assms(4) by (metis in_set_takeD tl_take)
    qed
    with b assms(3) show ?thesis by (simp add: hd_conv_nth)
  qed
  show "\<not> suffix m (seen @ [b])"
    using key [of "length m - 1"] assms(5) by auto
  have "suffix (take (if b = hd m then 1 else 0) m) (seen @ [b])"
    using assms(3) suffix_take_snoc [of 0 m seen b] by (auto simp: hd_conv_nth)
  moreover have "\<not> suffix (take j m) (seen @ [b])" if "(if b = hd m then 1 else 0) < j" "j \<le> length m" for j
    using key [of "j - 1"] that by (cases j) (auto split: if_splits)
  ultimately show "matched m (if b = hd m then 1 else 0) (seen @ [b])"
    using assms(5) by (auto simp: matched_def)
qed

lemma paste_marker_facts:
  "length (paste_marker p) = 6" "paste_marker p \<noteq> []" "hd (paste_marker p) = 0x1B"
  "hd (paste_marker p) \<notin> set (tl (paste_marker p))"
  by (simp_all add: paste_marker_def lit_def)

lemma matched_start: "matched (paste_marker p) 0 []"
  using paste_marker_facts(2) [of p] by (auto simp: matched_def)

lemma observe_spec:
  assumes "matched (paste_marker (kb_pasting k)) (kb_marker_position k) seen"
  shows "kb_pasting (observe bs k) = paste_spec (kb_pasting k) seen bs"
  using assms
proof (induction bs arbitrary: k seen)
  case (Cons b bs)
  let ?m = "paste_marker (kb_pasting k)" and ?n = "kb_marker_position k"
  note f = paste_marker_facts [of "kb_pasting k"]
  let ?k = "fst (observe_byte b k)"
  have o: "observe (b # bs) k = observe bs ?k" by (simp add: observe_def)
  show ?case
  proof (cases "?m ! ?n = b")
    case hit: True
    note step = matched_step_hit [OF Cons.prems hit]
    show ?thesis
    proof (cases "Suc ?n = length ?m")
      case True
      with hit have "?k = k\<lparr>kb_pasting := \<not> kb_pasting k, kb_marker_position := 0\<rparr>"
        by (auto simp: observe_byte_def Let_def)
      with True step Cons.IH [of ?k "[]"] matched_start show ?thesis by (simp add: o)
    next
      case False
      with hit have "?k = k\<lparr>kb_marker_position := Suc ?n\<rparr>" by (auto simp: observe_byte_def Let_def)
      moreover have "Suc ?n < length ?m" using False Cons.prems by (auto simp: matched_def)
      ultimately show ?thesis using False step Cons.IH [of ?k "seen @ [b]"] by (auto simp: o)
    qed
  next
    case False
    then have "?k = k\<lparr>kb_marker_position := (if b = 0x1B then 1 else 0)\<rparr>" by (auto simp: observe_byte_def Let_def)
    with matched_step_miss [OF Cons.prems False f(2,4)] f(1,3) Cons.IH [of ?k "seen @ [b]"]
    show ?thesis by (auto simp: o)
  qed
qed (simp add: observe_def)

text \<open>
  C27. The paste recogniser is exact. Byte by byte, and however the input is split into reads,
  the recogniser is inside a paste exactly when the specification says so: a paste starts
  or ends precisely where the bytes since the last change end with the whole start or end
  marker. An escape byte that breaks off a half-read marker is not lost as the start of the
  next one.
\<close>

theorem paste_recogniser_exact:
  "kb_pasting (observe bs kb_default) = paste_spec False [] bs"
  using observe_spec [of kb_default "[]" bs] matched_start [of False] by (simp add: kb_default_def)

section \<open>Decoding is a byte-for-byte translation\<close>

text \<open>The reference: what each position of the input contributes to the output.\<close>

function key_spec :: "byte option \<Rightarrow> byte list \<Rightarrow> keyboard_input \<Rightarrow> keyboard_input \<times> byte list" where
  "key_spec p [] k = (k, [])"
| "key_spec p (b # rest) k =
     (case key_at p k (b # rest) of
        None \<Rightarrow> (let (k1, o1) = key_spec p rest (fst (observe_byte b k)) in (k1, b # o1))
      | Some (n, bytes) \<Rightarrow>
          (let (k1, o1) = key_spec p (drop n (b # rest)) (k\<lparr>kb_marker_position := 0\<rparr>) in (k1, bytes @ o1)))"
  by pat_completeness auto
termination
  by (relation "measure (\<lambda>(_, rest, _). length rest)") (auto dest: key_at_length)

lemma legacy_loop_spec:
  "fst (legacy_loop p d rest out k) = fst (key_spec p rest k)
   \<and> (case snd (legacy_loop p d rest out k) of None \<Rightarrow> d @ rest | Some o' \<Rightarrow> o')
     = (case out of None \<Rightarrow> d | Some o' \<Rightarrow> o') @ snd (key_spec p rest k)"
proof (induction p d rest out k rule: legacy_loop.induct)
  case (2 p d b rest out k)
  show ?case
  proof (cases "key_at p k (b # rest)")
    case None
    with 2(1) show ?thesis
      by (cases out) (auto simp: push_out_def case_prod_beta split: option.splits)
  next
    case (Some x)
    obtain n bytes where x: "x = (n, bytes)" by (cases x)
    have "d @ take n (b # rest) @ drop n (b # rest) = d @ b # rest" by simp
    with 2(2) [OF Some x [symmetric]] Some x show ?thesis by (auto simp: case_prod_beta split: option.splits)
  qed
qed (simp split: option.split)

lemma kb_legacy_keys_spec: "kb_legacy_keys input p k = key_spec p input k"
  using legacy_loop_spec [of p "[]" input None k] by (auto simp: kb_legacy_keys_def case_prod_beta prod_eq_iff split: option.splits)

fun literal :: "keyboard_input \<Rightarrow> byte list \<Rightarrow> bool" where
  "literal k [] = True"
| "literal k (b # bs) \<longleftrightarrow> (b \<noteq> 0x1B \<or> kb_pasting k) \<and> literal (fst (observe_byte b k)) bs"

lemma key_spec_literal:
  "literal k body \<Longrightarrow> key_spec p (body @ rest) k = (let (k1, o1) = key_spec p rest (observe body k) in (k1, body @ o1))"
  by (induction body arbitrary: k) (auto simp: observe_def key_at_def case_prod_beta Let_def)

text \<open>
  Pasted and ordinary text is literal. A stretch of input in which every escape byte lies
  inside a bracketed paste is passed on byte for byte, whatever key sequences it contains
  and whichever prefix is configured; what follows is decoded from the state after it, so
  a paste that spans several reads is protected in all of them.
\<close>

theorem pasted_text_is_literal:
  assumes "literal k body"
  shows "kb_legacy_keys (body @ rest) p k
     = (let (k1, o1) = kb_legacy_keys rest p (observe body k) in (k1, body @ o1))"
  using key_spec_literal [OF assms] by (simp add: kb_legacy_keys_spec)

definition demo_key :: "byte list" where
  "demo_key = 0x1B # lit ''[97;5u''"

text \<open>Inside a paste the sequence of Ctrl-A stays as it is; after the end marker it is decoded.\<close>

theorem pasted_text_is_literal_witness:
  "snd (kb_legacy_keys ((demo_key @ paste_marker True) @ demo_key) None \<lparr>kb_pasting = True, kb_marker_position = 0\<rparr>)
     = (demo_key @ paste_marker True) @ [1]"
proof -
  let ?k = "\<lparr>kb_pasting = True, kb_marker_position = 0\<rparr>"
  have l: "literal ?k (demo_key @ paste_marker True)" by code_simp
  have "snd (kb_legacy_keys demo_key None (observe (demo_key @ paste_marker True) ?k)) = [1]" by code_simp
  then show ?thesis using pasted_text_is_literal [OF l, of demo_key None] by (simp add: case_prod_beta Let_def)
qed

end
