(* ===== verification/Text_Input.thy ===== *)
theory Text_Input
  imports Utf8
begin

text \<open>
  Single-line editing of modal inputs, \<^verbatim>\<open>crates/uniterm-client/src/text_input.rs\<close>: the decoding
  of one terminal key and the editing of a line by byte offsets. Slicing a Rust string
  off a character boundary panics; here it is \<open>None\<close>, and the editor is shown never to get
  there.
\<close>

section \<open>Keys\<close>

datatype line_key =
    Char rchar | Left | Right | WordLeft | WordRight | Home | End | Backspace | Delete | WordBackspace
  | WordDelete | DeleteBefore | DeleteAfter | Up | Down | Enter | Tab | Escape | Cancel | Unknown

definition csi_line_key :: "byte \<Rightarrow> str \<Rightarrow> line_key" where
  "csi_line_key final_byte params =
     (let ps = str_split 59 params;
          modifier = (case (if length ps > 1 then parse_u16 (ps ! 1) else None) of None \<Rightarrow> 1 | Some m \<Rightarrow> m);
          word = (3 \<le> modifier \<and> modifier \<le> 8);
          p0 = hd ps
      in if final_byte = 65 then Up
         else if final_byte = 66 then Down
         else if final_byte = 67 then (if word then WordRight else Right)
         else if final_byte = 68 then (if word then WordLeft else Left)
         else if final_byte = 72 then Home
         else if final_byte = 70 then End
         else if final_byte = 126 then
           (if p0 = lit ''1'' \<or> p0 = lit ''7'' then Home
            else if p0 = lit ''4'' \<or> p0 = lit ''8'' then End
            else if p0 = lit ''3'' then (if word then WordDelete else Delete)
            else Unknown)
         else if final_byte = 117 then
           (if p0 = lit ''8'' \<or> p0 = lit ''127'' then (if word then WordBackspace else Backspace)
            else if p0 = lit ''46'' then (if word then WordDelete else Delete)
            else Unknown)
         else Unknown)"

definition decode_csi :: "byte list \<Rightarrow> line_key \<times> nat" where
  "decode_csi rest =
     (case position (\<lambda>b. 0x40 \<le> b \<and> b \<le> 0x7E \<and> b \<noteq> 91) rest of
        None \<Rightarrow> (Unknown, length rest + 1)
      | Some final_at \<Rightarrow>
          (let params = (case from_utf8 (drop 1 (take final_at rest)) of None \<Rightarrow> [] | Some s \<Rightarrow> s)
           in (csi_line_key (rest ! final_at) params, final_at + 2)))"

definition utf8_width :: "byte \<Rightarrow> nat" where
  "utf8_width c =
     (if 0xC2 \<le> c \<and> c \<le> 0xDF then 2 else if 0xE0 \<le> c \<and> c \<le> 0xEF then 3
      else if 0xF0 \<le> c \<and> c \<le> 0xF4 then 4 else 1)"

definition get_range :: "'a list \<Rightarrow> nat \<Rightarrow> nat \<Rightarrow> 'a list option" where
  "get_range xs a b = (if a \<le> b \<and> b \<le> length xs then Some (drop a (take b xs)) else None)"

definition decode_key :: "byte list \<Rightarrow> nat \<Rightarrow> line_key \<times> nat" where
  "decode_key input at =
     (if \<not> at < length input then (Unknown, 0)
      else
        (let b = input ! at
         in if b = 0x1B then
              (case drop (at + 1) input of
                 [] \<Rightarrow> (Escape, 1)
               | r0 # r \<Rightarrow>
                   if r0 = 0x7F \<or> r0 = 0x08 then (WordBackspace, 2)
                   else if r0 = 98 \<or> r0 = 66 then (WordLeft, 2)
                   else if r0 = 102 \<or> r0 = 70 then (WordRight, 2)
                   else if r0 = 100 \<or> r0 = 68 then (WordDelete, 2)
                   else if r0 = 91 then decode_csi (r0 # r)
                   else (Unknown, 2))
            else if b = 0x01 then (Home, 1) else if b = 0x02 then (Left, 1) else if b = 0x03 then (Cancel, 1)
            else if b = 0x04 then (Delete, 1) else if b = 0x05 then (End, 1) else if b = 0x06 then (Right, 1)
            else if b = 0x08 \<or> b = 0x7F then (Backspace, 1)
            else if b = 9 then (Tab, 1) else if b = 10 \<or> b = 13 then (Enter, 1)
            else if b = 0x0B then (DeleteAfter, 1) else if b = 0x15 then (DeleteBefore, 1)
            else if b = 0x17 then (WordBackspace, 1)
            else if 0x20 \<le> b \<and> b < 0x7F then (Char b, 1)
            else if b \<ge> 0x80 then
              (case Option.bind (get_range input at (at + utf8_width b)) from_utf8 of
                 Some (ch # _) \<Rightarrow> (Char ch, utf8_len ch)
               | _ \<Rightarrow> (Unknown, 1))
            else (Unknown, 1)))"

section \<open>Slices\<close>

text \<open>The two halves of a string at a byte offset; \<open>None\<close> off a character boundary.\<close>

fun slice :: "str \<Rightarrow> nat \<Rightarrow> (str \<times> str) option" where
  "slice s 0 = Some ([], s)"
| "slice [] (Suc n) = None"
| "slice (c # s) (Suc n) =
     (if Suc n < utf8_len c then None else map_option (\<lambda>(l, r). (c # l, r)) (slice s (Suc n - utf8_len c)))"

definition is_char_boundary :: "str \<Rightarrow> nat \<Rightarrow> bool" where
  "is_char_boundary s i \<longleftrightarrow> slice s i \<noteq> None"

fun floor_boundary :: "str \<Rightarrow> nat \<Rightarrow> nat" where
  "floor_boundary s 0 = 0"
| "floor_boundary s (Suc i) = (if is_char_boundary s (Suc i) then Suc i else floor_boundary s i)"

text \<open>\<^verbatim>\<open>char_indices\<close>: each character with its byte offset.\<close>

fun char_indices_from :: "nat \<Rightarrow> str \<Rightarrow> (nat \<times> rchar) list" where
  "char_indices_from n [] = []"
| "char_indices_from n (c # s) = (n, c) # char_indices_from (n + utf8_len c) s"

definition char_indices :: "str \<Rightarrow> (nat \<times> rchar) list" where
  "char_indices s = char_indices_from 0 s"

definition previous_boundary :: "str \<Rightarrow> nat \<Rightarrow> nat option" where
  "previous_boundary s cur =
     map_option (\<lambda>(l, _). case rev (char_indices l) of [] \<Rightarrow> 0 | (i, _) # _ \<Rightarrow> i) (slice s cur)"

definition next_boundary :: "str \<Rightarrow> nat \<Rightarrow> nat option" where
  "next_boundary s cur =
     map_option (\<lambda>(_, r). if length (char_indices r) > 1 then cur + fst (char_indices r ! 1) else str_len s) (slice s cur)"

definition is_word_separator :: "rchar \<Rightarrow> bool" where
  "is_word_separator c \<longleftrightarrow> is_whitespace c \<or> c \<in> {47, 92, 45, 95, 46, 58, 61}"

definition previous_word :: "str \<Rightarrow> nat \<Rightarrow> nat option" where
  "previous_word s cur =
     map_option (\<lambda>(l, _).
        case dropWhile (\<lambda>(_, c). \<not> is_word_separator c) (dropWhile (\<lambda>(_, c). is_word_separator c) (rev (char_indices l))) of
          [] \<Rightarrow> 0
        | (i, c) # _ \<Rightarrow> i + utf8_len c) (slice s cur)"

definition next_word :: "str \<Rightarrow> nat \<Rightarrow> nat option" where
  "next_word s cur =
     map_option (\<lambda>(_, r).
        case dropWhile (\<lambda>(_, c). \<not> is_word_separator c) (dropWhile (\<lambda>(_, c). is_word_separator c) (char_indices r)) of
          [] \<Rightarrow> str_len s
        | (i, _) # _ \<Rightarrow> cur + i) (slice s cur)"

definition drain :: "nat \<Rightarrow> nat \<Rightarrow> str \<Rightarrow> str option" where
  "drain a b s =
     (case slice s a of
        None \<Rightarrow> None
      | Some (l, _) \<Rightarrow> (case slice s b of None \<Rightarrow> None | Some (_, r) \<Rightarrow> if a \<le> b then Some (l @ r) else None))"

section \<open>Editing\<close>

definition edit_at :: "line_key \<Rightarrow> str \<Rightarrow> nat \<Rightarrow> (str \<times> nat \<times> bool) option" where
  "edit_at key buf cursor =
     (let finish = (\<lambda>(b, c). (b, c, cursor \<noteq> c \<or> str_len buf \<noteq> str_len b));
          move = (\<lambda>c. map_option (\<lambda>c. finish (buf, c)) c);
          cut_back = (\<lambda>start. Option.bind start (\<lambda>st. map_option (\<lambda>b. finish (b, st)) (drain st cursor buf)));
          cut_on = (\<lambda>stop. Option.bind stop (\<lambda>e. map_option (\<lambda>b. finish (b, cursor)) (drain cursor e buf)))
      in case key of
           Char ch \<Rightarrow> map_option (\<lambda>(l, r). finish (l @ [ch] @ r, cursor + utf8_len ch)) (slice buf cursor)
         | Left \<Rightarrow> move (previous_boundary buf cursor)
         | Right \<Rightarrow> move (next_boundary buf cursor)
         | WordLeft \<Rightarrow> move (previous_word buf cursor)
         | WordRight \<Rightarrow> move (next_word buf cursor)
         | Home \<Rightarrow> move (Some 0)
         | End \<Rightarrow> move (Some (str_len buf))
         | Backspace \<Rightarrow> cut_back (previous_boundary buf cursor)
         | Delete \<Rightarrow> cut_on (next_boundary buf cursor)
         | WordBackspace \<Rightarrow> cut_back (previous_word buf cursor)
         | WordDelete \<Rightarrow> cut_on (next_word buf cursor)
         | DeleteBefore \<Rightarrow> map_option (\<lambda>b. finish (b, 0)) (drain 0 cursor buf)
         | DeleteAfter \<Rightarrow> map_option (\<lambda>(l, _). finish (l, cursor)) (slice buf cursor)
         | _ \<Rightarrow> Some (buf, cursor, False))"

definition edit_line :: "line_key \<Rightarrow> str \<Rightarrow> nat \<Rightarrow> (str \<times> nat \<times> bool) option" where
  "edit_line key buf cursor = edit_at key buf (floor_boundary buf (min cursor (str_len buf)))"

section \<open>The line as a zipper\<close>

text \<open>The specification: the text before and after the cursor, as characters.\<close>

definition split_back :: "(rchar \<Rightarrow> bool) \<Rightarrow> str \<Rightarrow> str" where
  "split_back P l = rev (dropWhile P (rev l))"

definition word_start :: "str \<Rightarrow> str" where
  "word_start l = split_back (\<lambda>c. \<not> is_word_separator c) (split_back is_word_separator l)"

definition word_rest :: "str \<Rightarrow> str" where
  "word_rest r = dropWhile (\<lambda>c. \<not> is_word_separator c) (dropWhile is_word_separator r)"

fun zip_edit :: "line_key \<Rightarrow> str \<times> str \<Rightarrow> str \<times> str" where
  "zip_edit (Char c) (l, r) = (l @ [c], r)"
| "zip_edit Left (l, r) = (butlast l, (if l = [] then r else last l # r))"
| "zip_edit Right (l, r) = (l @ take 1 r, drop 1 r)"
| "zip_edit WordLeft (l, r) = (word_start l, drop (length (word_start l)) l @ r)"
| "zip_edit WordRight (l, r) = (l @ take (length r - length (word_rest r)) r, word_rest r)"
| "zip_edit Home (l, r) = ([], l @ r)"
| "zip_edit End (l, r) = (l @ r, [])"
| "zip_edit Backspace (l, r) = (butlast l, r)"
| "zip_edit Delete (l, r) = (l, drop 1 r)"
| "zip_edit WordBackspace (l, r) = (word_start l, r)"
| "zip_edit WordDelete (l, r) = (l, word_rest r)"
| "zip_edit DeleteBefore (l, r) = ([], r)"
| "zip_edit DeleteAfter (l, r) = (l, [])"
| "zip_edit _ (l, r) = (l, r)"

lemma utf8_len_pos: "0 < utf8_len c"
  by (simp add: utf8_len_def)

lemma str_len_simps [simp]: "str_len [] = 0" "str_len (c # s) = utf8_len c + str_len s" "str_len (s @ t) = str_len s + str_len t"
  by (simp_all add: str_len_def)

lemma slice_app: "slice (l @ r) (str_len l) = Some (l, r)"
proof (induction l)
  case (Cons c l)
  obtain k where k: "utf8_len c + str_len l = Suc k" using utf8_len_pos [of c] by (cases "utf8_len c + str_len l") auto
  moreover have "\<not> Suc k < utf8_len c" "Suc k - utf8_len c = str_len l" using k by auto
  ultimately show ?case using Cons by simp
qed simp

lemma slice_Some: "slice s n = Some (l, r) \<Longrightarrow> s = l @ r \<and> n = str_len l"
  by (induction s n arbitrary: l rule: slice.induct) (auto split: if_splits)

lemma floor_boundary_slice:
  obtains l r where "s = l @ r" and "floor_boundary s n = str_len l" and "str_len l \<le> n"
proof -
  have "\<exists>l r. slice s (floor_boundary s n) = Some (l, r) \<and> floor_boundary s n \<le> n"
  proof (induction n)
    case (Suc n)
    then show ?case
      by (auto simp: is_char_boundary_def)
  qed simp
  then show thesis using slice_Some that by (metis (no_types, lifting))
qed

lemma char_indices_from_append:
  "char_indices_from n (a @ b) = char_indices_from n a @ char_indices_from (n + str_len a) b"
  by (induction a arbitrary: n) (simp_all add: ac_simps)

lemma rev_char_indices_snoc: "rev (char_indices (l @ [c])) = (str_len l, c) # rev (char_indices l)"
  by (simp add: char_indices_def char_indices_from_append)

lemma char_indices_Nil [simp]: "char_indices [] = []"
  by (simp add: char_indices_def)

lemma dropWhile_back: "dropWhile (\<lambda>(_, c). P c) (rev (char_indices l)) = rev (char_indices (split_back P l))"
proof (induction l rule: rev_induct)
  case (snoc c l)
  then show ?case using rev_char_indices_snoc [of l c] by (cases "P c") (simp_all add: split_back_def)
qed (simp add: split_back_def)

lemma dropWhile_on:
  "dropWhile (\<lambda>(_, c). P c) (char_indices_from n r) = char_indices_from (n + str_len (takeWhile P r)) (dropWhile P r)"
  by (induction r arbitrary: n) (simp_all add: ac_simps)

lemma previous_boundary_app: "previous_boundary (l @ r) (str_len l) = Some (str_len (butlast l))"
  unfolding previous_boundary_def slice_app
  by (cases l rule: rev_cases) (simp_all add: rev_char_indices_snoc)

lemma next_boundary_app: "next_boundary (l @ r) (str_len l) = Some (str_len (l @ take 1 r))"
proof (cases r)
  case (Cons c r')
  then show ?thesis by (cases r') (simp_all add: next_boundary_def slice_app char_indices_def del: slice.simps)
qed (simp add: next_boundary_def slice_app [of l "[]", simplified] char_indices_def)

lemma previous_word_app: "previous_word (l @ r) (str_len l) = Some (str_len (word_start l))"
  unfolding previous_word_def dropWhile_back slice_app
  by (cases "word_start l" rule: rev_cases)
    (auto simp: dropWhile_back word_start_def [symmetric] rev_char_indices_snoc)

lemma word_rest_split: "\<exists>p. r = p @ word_rest r \<and> length p = length r - length (word_rest r)
    \<and> dropWhile (\<lambda>(_, c). \<not> is_word_separator c) (dropWhile (\<lambda>(_, c). is_word_separator c) (char_indices r))
      = char_indices_from (str_len p) (word_rest r)"
proof -
  let ?a = "takeWhile is_word_separator r" and ?r = "dropWhile is_word_separator r"
  let ?b = "takeWhile (\<lambda>c. \<not> is_word_separator c) ?r"
  have r: "r = (?a @ ?b) @ word_rest r" by (simp add: word_rest_def)
  show ?thesis
  proof (intro exI conjI)
    show "r = (?a @ ?b) @ word_rest r" by (rule r)
    show "length (?a @ ?b) = length r - length (word_rest r)" using arg_cong [OF r, of length] by simp
  qed (simp add: char_indices_def dropWhile_on word_rest_def)
qed

lemma next_word_app:
  "next_word (l @ r) (str_len l) = Some (str_len (l @ take (length r - length (word_rest r)) r))"
proof -
  obtain p where p: "r = p @ word_rest r" "length p = length r - length (word_rest r)"
    and d: "dropWhile (\<lambda>(_, c). \<not> is_word_separator c) (dropWhile (\<lambda>(_, c). is_word_separator c) (char_indices r))
      = char_indices_from (str_len p) (word_rest r)"
    using word_rest_split [of r] by blast
  have t: "take (length r - length (word_rest r)) r = p" using p by (metis append_eq_conv_conj)
  show ?thesis
  proof (cases "word_rest r")
    case Nil
    then have "r = p" using p(1) by simp
    then show ?thesis
      unfolding next_word_def slice_app t option.map(2) prod.case d Nil char_indices_from.simps list.case by simp
  next
    case (Cons c s)
    then show ?thesis unfolding next_word_def slice_app t by (simp add: d)
  qed
qed

lemma drain_app: "drain (str_len l) (str_len l + str_len m) (l @ m @ r) = Some (l @ r)"
  using slice_app [of l "m @ r"] slice_app [of "l @ m" r] by (simp add: drain_def)

lemma drain_back:
  assumes "l = m @ t"
  shows "drain (str_len m) (str_len l) (l @ r) = Some (m @ r)"
  using drain_app [of m t r] by (simp add: assms)

lemma drain_on:
  assumes "r = m @ t"
  shows "drain (str_len l) (str_len (l @ m)) (l @ r) = Some (l @ t)"
  using drain_app [of l m t] by (simp add: assms)

lemma word_start_prefix: "l = word_start l @ drop (length (word_start l)) l"
proof -
  have p: "\<exists>t. m = split_back P m @ t" for P m
    using takeWhile_dropWhile_id [of P "rev m"] unfolding split_back_def by (metis rev_append rev_rev_ident)
  obtain t u where "l = split_back is_word_separator l @ t" "split_back is_word_separator l = word_start l @ u"
    using p unfolding word_start_def by metis
  then show ?thesis by (metis append.assoc append_eq_conv_conj)
qed

lemma butlast_split: "l = butlast l @ (if l = [] then [] else [last l])"
  by simp

lemma edit_at_zip:
  "edit_at key (l @ r) (str_len l)
     = (let (l', r') = zip_edit key (l, r)
        in Some (l' @ r', str_len l', str_len l \<noteq> str_len l' \<or> str_len (l @ r) \<noteq> str_len (l' @ r')))"
proof -
  have r: "r = take 1 r @ drop 1 r" by simp
  have w: "r = take (length r - length (word_rest r)) r @ word_rest r"
    using word_rest_split [of r] by (metis append_eq_conv_conj)
  have h: "drain 0 (str_len l) (l @ r) = Some r" using drain_back [of l "[]" l r] by simp
  have b: "butlast l @ (if l = [] then r else last l # r) = l @ r" by (cases l rule: rev_cases) auto
  have ws: "word_start l @ drop (length (word_start l)) l @ r = l @ r"
    using arg_cong [OF word_start_prefix [of l], of "\<lambda>x. x @ r"] by simp
  have wr: "(l @ take (length r - length (word_rest r)) r) @ word_rest r = l @ r"
    using arg_cong [OF w, of "\<lambda>x. l @ x"] by simp
  have rr: "(l @ take 1 r) @ drop 1 r = l @ r" by simp
  note facts = slice_app previous_boundary_app next_boundary_app previous_word_app next_word_app
    drain_back [OF butlast_split] drain_back [OF word_start_prefix] drain_on [OF r] drain_on [OF w] h
  show ?thesis
  proof (cases key)
    case (Char c)
    then show ?thesis by (simp add: edit_at_def facts)
  next
    case Left
    show ?thesis unfolding Left edit_at_def zip_edit.simps Let_def prod.case b by (simp add: facts)
  next
    case Right
    show ?thesis unfolding Right edit_at_def zip_edit.simps Let_def prod.case rr by (simp add: facts)
  next
    case WordLeft
    show ?thesis unfolding WordLeft edit_at_def zip_edit.simps Let_def prod.case ws by (simp add: facts)
  next
    case WordRight
    show ?thesis unfolding WordRight edit_at_def zip_edit.simps Let_def prod.case wr by (simp add: facts)
  next
    case Delete
    then show ?thesis by (simp add: edit_at_def facts del: One_nat_def str_len_simps(3))
  next
    case WordDelete
    then show ?thesis by (simp add: edit_at_def facts del: str_len_simps(3))
  qed (simp_all add: edit_at_def facts)
qed


section \<open>Reading keys\<close>

lemma decode_csi_consumes: "0 < snd (decode_csi rest) \<and> snd (decode_csi rest) \<le> Suc (length rest)"
  by (auto simp: decode_csi_def Let_def split: option.split dest: position_SomeD)

lemma from_utf8_first:
  assumes "from_utf8 bs = Some (c # s)"
  shows "is_scalar c \<and> utf8_len c \<le> length bs"
  using from_utf8_inverse [OF assms] by (auto simp: is_str_def)

lemma decode_key_consumes:
  assumes "at < length input"
  shows "0 < snd (decode_key input at) \<and> at + snd (decode_key input at) \<le> length input"
proof -
  define b where "b = input ! at"
  have csi: "0 < snd (decode_csi (r0 # r)) \<and> at + snd (decode_csi (r0 # r)) \<le> length input"
    if "drop (at + 1) input = r0 # r" for r0 r
    using decode_csi_consumes [of "r0 # r"] arg_cong [OF that, of length] assms by auto
  have two: "at + 2 \<le> length input" if "drop (at + 1) input = r0 # r" for r0 r
    using arg_cong [OF that, of length] by simp
  have wide: "0 < utf8_len ch \<and> at + utf8_len ch \<le> length input"
    if "Option.bind (get_range input at (at + utf8_width b)) from_utf8 = Some (ch # t)" for ch t
  proof -
    from that have g: "from_utf8 (drop at (take (at + utf8_width b) input)) = Some (ch # t)" "at + utf8_width b \<le> length input"
      by (auto simp: get_range_def split: if_splits)
    from from_utf8_first [OF g(1)] g(2) show ?thesis by (simp add: utf8_len_pos)
  qed
  show ?thesis
  proof (cases "b = 0x1B")
    case True
    then show ?thesis
      using assms csi two by (auto simp: decode_key_def b_def [symmetric] split: list.split)
  next
    case False
    show ?thesis
    proof (cases "b \<ge> 0x80")
      case True
      then show ?thesis
        using assms wide by (auto simp: decode_key_def b_def [symmetric] Let_def split: option.split list.split)
    next
      case below: False
      then have "snd (decode_key input at) = 1"
        using False assms by (auto simp: decode_key_def b_def [symmetric] Let_def)
      then show ?thesis using assms by simp
    qed
  qed
qed

text \<open>A modal's loop over one read: every key of it, in order.\<close>

function decode_all :: "byte list \<Rightarrow> nat \<Rightarrow> line_key list" where
  "decode_all input at =
     (if at < length input
      then (let (key, n) = decode_key input at in key # decode_all input (at + n)) else [])"
  by pat_completeness auto
termination
proof (relation "measure (\<lambda>(input, at). length input - at)", simp)
  fix input at x key n
  assume "at < length input" "x = decode_key input at" "(key, n) = x"
  then have "0 < n" using decode_key_consumes [of at input] by (metis snd_conv)
  with \<open>at < length input\<close> show "((input, at + n), input, at) \<in> measure (\<lambda>(input, at). length input - at)" by simp
qed

declare decode_all.simps [simp del]

definition printable :: "rchar \<Rightarrow> bool" where
  "printable c \<longleftrightarrow> is_scalar c \<and> c \<ge> 0x20 \<and> c \<noteq> 0x7F"

lemma utf8_width_first: "is_scalar c \<Longrightarrow> 0x80 \<le> c \<Longrightarrow> utf8_width (hd (encode_utf8 c)) = utf8_len c \<and> 0x80 \<le> hd (encode_utf8 c)"
proof -
  assume c: "is_scalar c" "0x80 \<le> c"
  obtain w x y z where d: "c = w * 262144 + x * 4096 + y * 64 + z" "x < 64" "y < 64" "z < 64"
    "c div 262144 = w" "c div 4096 = w * 64 + x" "c div 64 = w * 4096 + x * 64 + y"
    by (rule digits64)
  consider "c < 0x800" | "0x800 \<le> c" "c < 0x10000" | "0x10000 \<le> c" by linarith
  then show ?thesis
  proof cases
    case 1
    then have "w = 0" "x = 0" using d by linarith+
    then have "2 \<le> y" "y \<le> 31" using d 1 c by linarith+
    then show ?thesis using 1 c d \<open>w = 0\<close> \<open>x = 0\<close> by (simp add: encode_utf8_def utf8_width_def utf8_len_def)
  next
    case 2
    then have "w = 0" using d by linarith
    then have "x \<le> 15" using d 2 by linarith
    then show ?thesis using 2 c d \<open>w = 0\<close> by (simp add: encode_utf8_def utf8_width_def utf8_len_def)
  next
    case 3
    have "w \<le> 4" using d c by (simp add: is_scalar_def)
    then show ?thesis using 3 d by (simp add: encode_utf8_def utf8_width_def utf8_len_def)
  qed
qed

lemma decode_key_char:
  assumes "printable c"
  shows "decode_key (a @ encode_utf8 c @ r) (length a) = (Char c, utf8_len c)"
proof (cases "c < 0x80")
  case True
  then show ?thesis
    using assms by (auto simp: decode_key_def encode_utf8_def printable_def nth_append utf8_len_def)
next
  case False
  let ?in = "a @ encode_utf8 c @ r"
  have sc: "is_scalar c" using assms by (simp add: printable_def)
  then have b: "?in ! length a = hd (encode_utf8 c)" by (simp add: nth_append hd_conv_nth utf8_len_pos)
  note w = utf8_width_first [OF sc]
  have "get_range ?in (length a) (length a + utf8_len c) = Some (encode_utf8 c)"
    by (simp add: get_range_def)
  moreover have "from_utf8 (encode_utf8 c) = Some [c]"
    using from_utf8_as_bytes [of "[c]"] sc by (simp add: is_str_def as_bytes_def)
  moreover have "length a < length ?in" using utf8_len_pos [of c] by simp
  ultimately show ?thesis
    using False w unfolding decode_key_def b by (simp add: b)
qed

text \<open>
  C29. Reading keys makes progress and loses no text. Every key consumes at least one byte and
  never more than are there, so the loop over a read ends; and text typed or pasted into a
  modal, of whatever characters except the control keys, comes out as those characters.
\<close>

theorem typed_text_round_trip:
  "(\<forall>input at. at < length input \<longrightarrow>
      0 < snd (decode_key input at) \<and> at + snd (decode_key input at) \<le> length input)
   \<and> (list_all printable s \<longrightarrow> decode_all (as_bytes s) 0 = map Char s)"
proof (intro conjI allI impI)
  show "at < length input \<Longrightarrow> 0 < snd (decode_key input at)"
    and "at < length input \<Longrightarrow> at + snd (decode_key input at) \<le> length input" for input at
    using decode_key_consumes by blast+
  have "list_all printable t \<Longrightarrow> decode_all (as_bytes (u @ t)) (str_len u) = map Char t" for t u
  proof (induction t arbitrary: u)
    case Nil
    then show ?case by (simp add: decode_all.simps)
  next
    case (Cons c t)
    then have k: "decode_key (as_bytes (u @ c # t)) (str_len u) = (Char c, utf8_len c)"
      using decode_key_char [of c "as_bytes u" "as_bytes t"] by (simp add: as_bytes_append as_bytes_Cons)
    have "decode_all (as_bytes (u @ c # t)) (str_len u + utf8_len c) = map Char t"
      using Cons.IH [of "u @ [c]"] Cons.prems by simp
    then show ?case using k utf8_len_pos [of c] by (simp add: decode_all.simps [of _ "str_len u"])
  qed
  from this [of s "[]"] show "list_all printable s \<Longrightarrow> decode_all (as_bytes s) 0 = map Char s" by simp
qed

theorem typed_text_round_trip_witness: "decode_all (as_bytes [0x6F, 0xE9, 0x1F600]) 0 = [Char 0x6F, Char 0xE9, Char 0x1F600]"
proof -
  have "list_all printable [0x6F, 0xE9, 0x1F600]" by (simp add: printable_def is_scalar_def)
  with typed_text_round_trip [of "[0x6F, 0xE9, 0x1F600]"] show ?thesis by simp
qed

end
