(* ===== verification/F32.thy ===== *)
theory F32
  imports Complex_Main "HOL-Library.Log_Nat"
begin

text \<open>
  The single-precision arithmetic that split ratios use, as IEEE 754 defines it and Rust's
  \<^verbatim>\<open>f32\<close> provides it: a finite number is the rational it stands for, and every operation is the
  exact result rounded to nearest, ties to even, with 24 bits of precision, gradual
  underflow and overflow to infinity. The sign of zero is not kept: none of the modelled
  code can observe it.
\<close>

datatype f32 = Fin rat | Inf bool | NaN

definition pow2 :: "int \<Rightarrow> rat" where
  "pow2 e = 2 powi e"

text \<open>The binary exponent of a positive number.\<close>

definition expo :: "rat \<Rightarrow> int" where
  "expo x =
     (let (p, q) = quotient_of x;
          k = int (floorlog 2 (nat p)) - int (floorlog 2 (nat q))
      in if pow2 k \<le> x then k else k - 1)"

definition round_even :: "rat \<Rightarrow> int" where
  "round_even x =
     (let f = floor x; d = x - of_int f
      in if d < 1 / 2 then f else if d > 1 / 2 then f + 1 else if even f then f else f + 1)"

definition rnd :: "rat \<Rightarrow> f32" where
  "rnd x =
     (if x = 0 then Fin 0
      else
        (let a = \<bar>x\<bar>;
             e = max (expo a) (- 126);
             y = of_int (round_even (a / pow2 (e - 23))) * pow2 (e - 23)
         in if y \<ge> pow2 128 then Inf (x < 0) else Fin (sgn x * y)))"

text \<open>A 16-bit integer is exact in 24 bits of precision, so its conversion loses nothing.\<close>

definition f32_of_u16 :: "nat \<Rightarrow> f32" where
  "f32_of_u16 n = Fin (of_nat n)"

fun f32_mul :: "f32 \<Rightarrow> f32 \<Rightarrow> f32" where
  "f32_mul (Fin a) (Fin b) = rnd (a * b)"
| "f32_mul (Fin a) (Inf s) = (if a = 0 then NaN else Inf (s \<noteq> (a < 0)))"
| "f32_mul (Inf s) (Fin a) = (if a = 0 then NaN else Inf (s \<noteq> (a < 0)))"
| "f32_mul (Inf s) (Inf t) = Inf (s \<noteq> t)"
| "f32_mul NaN _ = NaN"
| "f32_mul _ NaN = NaN"

fun f32_add :: "f32 \<Rightarrow> f32 \<Rightarrow> f32" where
  "f32_add (Fin a) (Fin b) = rnd (a + b)"
| "f32_add (Fin a) (Inf s) = Inf s"
| "f32_add (Inf s) (Fin a) = Inf s"
| "f32_add (Inf s) (Inf t) = (if s = t then Inf s else NaN)"
| "f32_add NaN _ = NaN"
| "f32_add _ NaN = NaN"

text \<open>Division by a positive finite number, the only one the sources perform.\<close>

fun f32_div :: "f32 \<Rightarrow> f32 \<Rightarrow> f32" where
  "f32_div (Fin a) (Fin b) = (if b = 0 then (if a = 0 then NaN else Inf (a < 0)) else rnd (a / b))"
| "f32_div (Inf s) (Fin b) = Inf (s \<noteq> (b < 0))"
| "f32_div (Fin a) (Inf s) = Fin 0"
| "f32_div _ _ = NaN"

fun f32_less :: "f32 \<Rightarrow> f32 \<Rightarrow> bool" where
  "f32_less (Fin a) (Fin b) = (a < b)"
| "f32_less (Fin a) (Inf s) = (\<not> s)"
| "f32_less (Inf s) (Fin a) = s"
| "f32_less (Inf s) (Inf t) = (s \<and> \<not> t)"
| "f32_less _ _ = False"

definition f32_clamp :: "f32 \<Rightarrow> f32 \<Rightarrow> f32 \<Rightarrow> f32" where
  "f32_clamp lo hi x = (if f32_less x lo then lo else if f32_less hi x then hi else x)"

text \<open>\<^verbatim>\<open>f32::round\<close>: to the nearest integer, halves away from zero.\<close>

definition round_away :: "rat \<Rightarrow> int" where
  "round_away x = (if x \<ge> 0 then floor (x + 1 / 2) else - floor (1 / 2 - x))"

fun f32_round :: "f32 \<Rightarrow> f32" where
  "f32_round (Fin a) = Fin (of_int (round_away a))"
| "f32_round x = x"

text \<open>\<^verbatim>\<open>as u16\<close>: truncation, saturating at the ends, zero for NaN.\<close>

fun f32_as_u16 :: "f32 \<Rightarrow> nat" where
  "f32_as_u16 (Fin a) = (if a \<le> 0 then 0 else min 65535 (nat (floor a)))"
| "f32_as_u16 (Inf s) = (if s then 0 else 65535)"
| "f32_as_u16 NaN = 0"

section \<open>How far rounding goes\<close>

lemma pow2_pos [simp]: "0 < pow2 e"
  by (simp add: pow2_def)

lemma pow2_nonzero [simp]: "pow2 e \<noteq> 0"
  by (simp add: pow2_def)

lemma pow2_add: "pow2 (a + b) = pow2 a * pow2 b"
  by (simp add: pow2_def power_int_add)

lemma pow2_mono: "a \<le> b \<Longrightarrow> pow2 a \<le> pow2 b"
  by (simp add: pow2_def power_int_increasing)

lemma pow2_nat: "pow2 (int n) = 2 ^ n"
  by (simp add: pow2_def)

lemma floorlog2_bounds:
  assumes "0 < n"
  shows "2 ^ (floorlog 2 n - 1) \<le> n" and "n < 2 ^ floorlog 2 n" and "0 < floorlog 2 n"
  using floorlog_bounds [of n 2] floorlog_eq_zero_iff [of 2 n] assms by auto

lemma expo_bounds:
  assumes "0 < x"
  shows "pow2 (expo x) \<le> x" and "x < pow2 (expo x + 1)"
proof -
  obtain p q where pq: "quotient_of x = (p, q)" by fastforce
  have q: "0 < q" using pq by (rule quotient_of_denom_pos)
  have x: "x = of_int p / of_int q" using pq by (rule quotient_of_div)
  have p: "0 < p" using assms q by (simp add: x zero_less_divide_iff)
  define a where "a = floorlog 2 (nat p)"
  define b where "b = floorlog 2 (nat q)"
  have ab: "0 < a" "0 < b" "2 ^ (a - 1) \<le> nat p" "nat p < 2 ^ a" "2 ^ (b - 1) \<le> nat q" "nat q < 2 ^ b"
    unfolding a_def b_def using p q floorlog2_bounds [of "nat p"] floorlog2_bounds [of "nat q"] by auto
  have rp: "pow2 (int a - 1) \<le> of_int p" "of_int p < pow2 (int a)"
  proof -
    have "(of_nat (2 ^ (a - 1)) :: rat) \<le> of_nat (nat p)" "(of_nat (nat p) :: rat) < of_nat (2 ^ a)"
      using ab by (simp_all only: of_nat_le_iff of_nat_less_iff)
    moreover have "pow2 (int a - 1) = 2 ^ (a - 1)" using ab pow2_nat [of "a - 1"] by (simp add: of_nat_diff)
    ultimately show "pow2 (int a - 1) \<le> of_int p" "of_int p < pow2 (int a)" using p by (simp_all add: pow2_nat)
  qed
  have rq: "pow2 (int b - 1) \<le> of_int q" "of_int q < pow2 (int b)"
  proof -
    have "(of_nat (2 ^ (b - 1)) :: rat) \<le> of_nat (nat q)" "(of_nat (nat q) :: rat) < of_nat (2 ^ b)"
      using ab by (simp_all only: of_nat_le_iff of_nat_less_iff)
    moreover have "pow2 (int b - 1) = 2 ^ (b - 1)" using ab pow2_nat [of "b - 1"] by (simp add: of_nat_diff)
    ultimately show "pow2 (int b - 1) \<le> of_int q" "of_int q < pow2 (int b)" using q by (simp_all add: pow2_nat)
  qed
  define k where "k = int a - int b"
  have "pow2 (k - 1) * of_int q \<le> pow2 (k - 1) * pow2 (int b)" using rq(2) by (simp add: mult_left_mono)
  also have "\<dots> = pow2 (int a - 1)" by (simp add: pow2_add [symmetric] k_def)
  finally have lo: "pow2 (k - 1) \<le> x" using rp(1) q by (simp add: x le_divide_eq)
  have "of_int p < pow2 (k + 1) * pow2 (int b - 1)" using rp(2) by (simp add: pow2_add [symmetric] k_def)
  also have "\<dots> \<le> pow2 (k + 1) * of_int q" using rq(1) by (simp add: mult_left_mono)
  finally have hi: "x < pow2 (k + 1)" using q by (simp add: x divide_less_eq)
  have e: "expo x = (if pow2 k \<le> x then k else k - 1)"
    by (simp add: expo_def pq a_def b_def k_def)
  show "pow2 (expo x) \<le> x" "x < pow2 (expo x + 1)" using lo hi by (auto simp: e)
qed

lemma round_even_error: "\<bar>of_int (round_even x) - x\<bar> \<le> 1 / 2"
proof -
  have "of_int \<lfloor>x\<rfloor> \<le> x" "x < of_int \<lfloor>x\<rfloor> + 1" by linarith+
  then show ?thesis by (auto simp: round_even_def Let_def abs_le_iff)
qed

lemma rnd_error:
  assumes "pow2 (- 126) \<le> x" and "x < pow2 127"
  obtains y where "rnd x = Fin y" and "\<bar>y - x\<bar> \<le> x / 16777216"
proof -
  have x: "0 < x" using assms(1) pow2_pos [of "- 126"] by linarith
  let ?e = "expo x"
  note b = expo_bounds [OF x]
  have "- 126 < ?e + 1" using assms(1) b(2) pow2_mono [of "?e + 1" "- 126"] by linarith
  then have e: "max ?e (- 126) = ?e" by simp
  have e2: "?e < 127" using assms(2) b(1) pow2_mono [of 127 ?e] by linarith
  let ?u = "pow2 (?e - 23)"
  let ?m = "round_even (x / ?u)"
  let ?y = "of_int ?m * ?u"
  have "?y - x = (of_int ?m - x / ?u) * ?u" using pow2_pos [of "?e - 23"] by (simp add: left_diff_distrib)
  then have "\<bar>?y - x\<bar> = \<bar>of_int ?m - x / ?u\<bar> * ?u" by (simp add: abs_mult abs_of_pos)
  also have "\<dots> \<le> 1 / 2 * ?u" using round_even_error [of "x / ?u"] less_imp_le [OF pow2_pos] by (intro mult_right_mono)
  also have "\<dots> = pow2 ?e / 2 ^ 24"
    using pow2_add [of ?e "- 23"] by (simp add: pow2_def power_int_minus field_simps)
  also have "\<dots> \<le> x / 2 ^ 24" using b(1) by (simp add: divide_right_mono)
  finally have err: "\<bar>?y - x\<bar> \<le> x / 16777216" by simp
  have "?y < pow2 128"
  proof -
    have "?y \<le> x + x / 16777216" using abs_le_D1 [OF err] by linarith
    also have "\<dots> \<le> 2 * x" using x by simp
    also have "\<dots> < 2 * pow2 127" using assms(2) by simp
    also have "\<dots> = pow2 128" using pow2_add [of 1 127] by (simp add: pow2_def)
    finally show ?thesis .
  qed
  then have "rnd x = Fin ?y" using x e by (simp add: rnd_def Let_def)
  with err show thesis by (intro that)
qed

lemma round_away_near:
  assumes "\<bar>y - of_nat n\<bar> < 1 / 2"
  shows "round_away y = int n"
proof -
  have y: "- (1 / 2) < y - of_nat n" "y - of_nat n < 1 / 2" using abs_less_iff [THEN iffD1, OF assms] by linarith+
  show ?thesis
  proof (cases "y \<ge> 0")
    case True
    have "\<lfloor>y + 1 / 2\<rfloor> = int n" using y by (intro floor_unique) auto
    with True show ?thesis by (simp add: round_away_def)
  next
    case False
    then have "n = 0" using y by (cases n) auto
    moreover have "\<lfloor>1 / 2 - y\<rfloor> = 0" using y False \<open>n = 0\<close> by (intro floor_unique) auto
    ultimately show ?thesis using False by (simp add: round_away_def)
  qed
qed

text \<open>
  Dividing two 16-bit numbers, multiplying back and rounding to an integer gives the
  dividend: the two roundings together stay far below one half.
\<close>

lemma ratio_round_trip:
  assumes "0 < w" and "w \<le> a" and "a < 65536"
  shows "f32_as_u16 (f32_round (f32_mul (f32_of_u16 a) (f32_div (f32_of_u16 w) (f32_of_u16 a)))) = w"
proof -
  let ?w = "of_nat w :: rat" and ?a = "of_nat a :: rat"
  have aw: "1 \<le> ?w" "?w \<le> ?a" "?a \<le> 65535" "0 < ?a"
    using assms of_nat_mono [of 1 w, where 'a = rat] of_nat_mono [of w a, where 'a = rat]
      of_nat_mono [of a 65535, where 'a = rat] by simp_all
  have small: "pow2 (- 126) \<le> 1 / 65536" "(65537 :: rat) < pow2 127" by (simp_all add: pow2_def power_int_minus)
  have q: "1 / 65536 \<le> ?w / ?a" "?w / ?a \<le> 1"
    using aw by (auto simp: divide_le_eq le_divide_eq)
  have b: "pow2 (- 126) \<le> ?w / ?a" "?w / ?a < pow2 127" using q small by linarith+
  obtain y where y: "rnd (?w / ?a) = Fin y" "\<bar>y - ?w / ?a\<bar> \<le> ?w / ?a / 16777216"
    by (rule rnd_error [OF b])
  have "?a * y - ?w = ?a * (y - ?w / ?a)" using aw(4) by (simp add: right_diff_distrib)
  then have "\<bar>?a * y - ?w\<bar> = ?a * \<bar>y - ?w / ?a\<bar>" using aw(4) by (simp add: abs_mult)
  also have "\<dots> \<le> ?a * (?w / ?a / 16777216)" using y(2) aw(4) by (intro mult_left_mono) auto
  finally have p: "\<bar>?a * y - ?w\<bar> \<le> ?w / 16777216" using aw(4) by simp
  then have pb: "1 / 2 \<le> ?a * y" "?a * y \<le> 65536" using abs_le_D1 [OF p] abs_le_D2 [OF p] aw by linarith+
  have c: "pow2 (- 126) \<le> ?a * y" "?a * y < pow2 127" using pb small by linarith+
  obtain z where z: "rnd (?a * y) = Fin z" "\<bar>z - ?a * y\<bar> \<le> ?a * y / 16777216"
    by (rule rnd_error [OF c])
  have "\<bar>z - ?w\<bar> \<le> 65536 / 16777216 + 65536 / 16777216"
    using abs_le_D1 [OF p] abs_le_D2 [OF p] abs_le_D1 [OF z(2)] abs_le_D2 [OF z(2)] pb aw by (intro abs_leI) linarith+
  then have "\<bar>z - ?w\<bar> < 1 / 2" by simp
  then have "round_away z = int w" by (rule round_away_near)
  then show ?thesis using y(1) z(1) aw(4) assms by (simp add: f32_of_u16_def)
qed

text \<open>A ratio within the band of one to nine tenths survives the clamp to that band.\<close>

lemma f32_less_gap:
  assumes "rnd x = Fin a" and "\<bar>a - x\<bar> \<le> x / 16777216" and "rnd y = Fin b" and "\<bar>b - y\<bar> \<le> y / 16777216"
    and "x \<le> 1" and "y \<le> 1" and "y = x \<or> x + 1 / 655350 \<le> y"
  shows "\<not> f32_less (rnd y) (rnd x)"
proof -
  have "a \<le> x + x / 16777216" "y - y / 16777216 \<le> b"
    using abs_le_D1 [OF assms(2)] abs_le_D2 [OF assms(4)] by linarith+
  then show ?thesis using assms by auto
qed

lemma ratio_band:
  assumes "0 < a" and "a < 65536" and "a \<le> 10 * w" and "10 * w \<le> 9 * a"
  shows "f32_clamp (rnd (1 / 10)) (rnd (9 / 10)) (f32_div (f32_of_u16 w) (f32_of_u16 a)) = f32_div (f32_of_u16 w) (f32_of_u16 a)"
proof -
  let ?q = "of_nat w / of_nat a :: rat"
  have a: "(0 :: rat) < of_nat a" "of_nat a \<le> (65535 :: rat)" using assms of_nat_mono [of a 65535, where 'a = rat] by simp_all
  have lo: "?q = 1 / 10 \<or> 1 / 10 + 1 / 655350 \<le> ?q"
  proof (cases "10 * w = a")
    case True
    then show ?thesis using a by (auto simp: field_simps)
  next
    case False
    then have "of_nat (a + 1) \<le> (of_nat (10 * w) :: rat)" using assms(3) by (intro of_nat_mono) simp
    then show ?thesis using a by (auto simp: field_simps)
  qed
  have hi: "9 / 10 = ?q \<or> ?q + 1 / 655350 \<le> 9 / 10"
  proof (cases "10 * w = 9 * a")
    case True
    then have "of_nat (10 * w) = (of_nat (9 * a) :: rat)" by (simp only:)
    then show ?thesis using a by (auto simp: field_simps)
  next
    case False
    then have "of_nat (10 * w + 1) \<le> (of_nat (9 * a) :: rat)" using assms(4) by (intro of_nat_mono) simp
    then show ?thesis using a by (auto simp: field_simps)
  qed
  have q: "1 / 10 \<le> ?q" "?q \<le> 9 / 10" using lo hi by linarith+
  have small: "pow2 (- 126) \<le> 1 / 10" "(1 :: rat) < pow2 127" by (simp_all add: pow2_def power_int_minus)
  have err: "\<exists>y. rnd x = Fin y \<and> \<bar>y - x\<bar> \<le> x / 16777216" if "1 / 10 \<le> x" "x \<le> 9 / 10" for x
  proof -
    have "pow2 (- 126) \<le> x" "x < pow2 127" using that small by linarith+
    from rnd_error [OF this] show ?thesis by blast
  qed
  obtain l m h where "rnd (1 / 10) = Fin l" "\<bar>l - 1 / 10\<bar> \<le> 1 / 10 / 16777216" "rnd ?q = Fin m" "\<bar>m - ?q\<bar> \<le> ?q / 16777216"
    "rnd (9 / 10) = Fin h" "\<bar>h - 9 / 10\<bar> \<le> 9 / 10 / 16777216"
    using err [of "1 / 10"] err [OF q] err [of "9 / 10"] by auto
  then have "\<not> f32_less (rnd ?q) (rnd (1 / 10))" "\<not> f32_less (rnd (9 / 10)) (rnd ?q)"
    using f32_less_gap [of "1 / 10" l ?q m] f32_less_gap [of ?q m "9 / 10" h] lo hi q by auto
  then show ?thesis using a by (simp add: f32_clamp_def f32_of_u16_def)
qed

end
