(* ===== verification/Layout.thy ===== *)
theory Layout
  imports Prelude F32 "HOL-Library.Sublist"
begin

text \<open>
  The window layout, \<^verbatim>\<open>crates/uniterm-core/src/layout.rs\<close>: the binary tree of splits, its
  geometry, splitting, removal, resizing and dragging, the automatic arrangements,
  directional focus and the overview grid. Cell coordinates are 16 bits wide; they are
  natural numbers here, with the wrap-around of an addition written out. Ratios are \<open>f32\<close>.
\<close>

section \<open>Rectangles\<close>

record rect =
  rx :: nat
  ry :: nat
  rw :: nat
  rh :: nat

definition Rect :: "nat \<Rightarrow> nat \<Rightarrow> nat \<Rightarrow> nat \<Rightarrow> rect" where
  "Rect x y w h = \<lparr>rx = x, ry = y, rw = w, rh = h\<rparr>"

definition right :: "rect \<Rightarrow> nat" where
  "right r = wrap16 (rx r + rw r)"

definition bottom :: "rect \<Rightarrow> nat" where
  "bottom r = wrap16 (ry r + rh r)"

definition rect_contains :: "rect \<Rightarrow> nat \<Rightarrow> nat \<Rightarrow> bool" where
  "rect_contains r x y \<longleftrightarrow> x \<ge> rx r \<and> x < right r \<and> y \<ge> ry r \<and> y < bottom r"

section \<open>The tree\<close>

datatype direction = DirLeft | DirRight | DirUp | DirDown

datatype layout_node = Leaf pane_id | Split split_dir f32 layout_node layout_node

record divider =
  dv_dir :: split_dir
  dv_rect :: rect

record layout =
  lo_panes :: "(pane_id \<times> rect) list"
  lo_dividers :: "divider list"

definition layout_default :: layout where
  "layout_default = \<lparr>lo_panes = [], lo_dividers = []\<rparr>"

definition rect_of :: "pane_id \<Rightarrow> layout \<Rightarrow> rect option" where
  "rect_of i l = map_option snd (find (\<lambda>(p, _). p = i) (lo_panes l))"

definition push_pane :: "pane_id \<Rightarrow> rect \<Rightarrow> layout \<Rightarrow> layout" where
  "push_pane i r l = l\<lparr>lo_panes := lo_panes l @ [(i, r)]\<rparr>"

definition push_divider :: "split_dir \<Rightarrow> rect \<Rightarrow> layout \<Rightarrow> layout" where
  "push_divider d r l = l\<lparr>lo_dividers := lo_dividers l @ [\<lparr>dv_dir = d, dv_rect = r\<rparr>]\<rparr>"

text \<open>The share of \<open>first\<close>: the rounded product, kept between one cell and all but one.\<close>

definition share :: "nat \<Rightarrow> f32 \<Rightarrow> nat" where
  "share avail ratio = max 1 (min (avail - 1) (f32_as_u16 (f32_round (f32_mul (f32_of_u16 avail) ratio))))"

fun walk :: "layout_node \<Rightarrow> rect \<Rightarrow> layout \<Rightarrow> layout" where
  "walk (Leaf i) area out = push_pane i area out"
| "walk (Split dir ratio a b) area out =
     (case dir of
        Horizontal \<Rightarrow>
          if rw area < 3 then walk a area out
          else
            (let avail = rw area - 1; w1 = share avail ratio; w2 = avail - w1
             in walk b (Rect (wrap16 (rx area + w1 + 1)) (ry area) w2 (rh area))
                  (push_divider dir (Rect (wrap16 (rx area + w1)) (ry area) 1 (rh area))
                    (walk a (Rect (rx area) (ry area) w1 (rh area)) out)))
      | Vertical \<Rightarrow>
          if rh area < 3 then walk a area out
          else
            (let avail = rh area - 1; h1 = share avail ratio; h2 = avail - h1
             in walk b (Rect (rx area) (wrap16 (ry area + h1 + 1)) (rw area) h2)
                  (push_divider dir (Rect (rx area) (wrap16 (ry area + h1)) (rw area) 1)
                    (walk a (Rect (rx area) (ry area) (rw area) h1) out))))"

definition compute :: "layout_node \<Rightarrow> rect \<Rightarrow> layout" where
  "compute t area = walk t area layout_default"

fun first_pane :: "layout_node \<Rightarrow> pane_id" where
  "first_pane (Leaf i) = i"
| "first_pane (Split _ _ a _) = first_pane a"

fun collect :: "layout_node \<Rightarrow> pane_id list \<Rightarrow> pane_id list" where
  "collect (Leaf i) v = v @ [i]"
| "collect (Split _ _ a b) v = collect b (collect a v)"

definition pane_ids :: "layout_node \<Rightarrow> pane_id list" where
  "pane_ids t = collect t []"

fun leaf_count :: "layout_node \<Rightarrow> nat" where
  "leaf_count (Leaf _) = 1"
| "leaf_count (Split _ _ a b) = leaf_count a + leaf_count b"

fun contains_pane :: "pane_id \<Rightarrow> layout_node \<Rightarrow> bool" where
  "contains_pane i (Leaf p) = (p = i)"
| "contains_pane i (Split _ _ a b) = (contains_pane i a \<or> contains_pane i b)"

text \<open>Operations on \<^verbatim>\<open>&mut self\<close> return the tree with their result.\<close>

fun split_pane :: "pane_id \<Rightarrow> split_dir \<Rightarrow> pane_id \<Rightarrow> layout_node \<Rightarrow> layout_node \<times> bool" where
  "split_pane tgt dir new (Leaf i) =
     (if i = tgt then (Split dir (Fin (1 / 2)) (Leaf i) (Leaf new), True) else (Leaf i, False))"
| "split_pane tgt dir new (Split d r a b) =
     (let (a1, found) = split_pane tgt dir new a
      in if found then (Split d r a1 b, True)
         else (let (b1, found2) = split_pane tgt dir new b in (Split d r a1 b1, found2)))"

fun without :: "pane_id \<Rightarrow> layout_node \<Rightarrow> layout_node option" where
  "without tgt (Leaf i) = (if i = tgt then None else Some (Leaf i))"
| "without tgt (Split d r a b) =
     (case (without tgt a, without tgt b) of
        (None, None) \<Rightarrow> None
      | (Some n, None) \<Rightarrow> Some n
      | (None, Some n) \<Rightarrow> Some n
      | (Some x, Some y) \<Rightarrow> Some (Split d r x y))"

datatype resize = Absent | Found | Handled

definition ratio_clamp :: "f32 \<Rightarrow> f32" where
  "ratio_clamp r = f32_clamp (rnd (1 / 10)) (rnd (9 / 10)) r"

fun resize_inner :: "pane_id \<Rightarrow> split_dir \<Rightarrow> f32 \<Rightarrow> layout_node \<Rightarrow> layout_node \<times> resize" where
  "resize_inner tgt orient delta (Leaf i) = (Leaf i, if i = tgt then Found else Absent)"
| "resize_inner tgt orient delta (Split d r a b) =
     (let (a1, ra) = resize_inner tgt orient delta a;
          (b1, res) = (if ra = Absent then resize_inner tgt orient delta b else (b, ra))
      in if res = Found \<and> d = orient then (Split d (ratio_clamp (f32_add r delta)) a1 b1, Handled)
         else (Split d r a1 b1, res))"

definition resize_pane :: "pane_id \<Rightarrow> split_dir \<Rightarrow> f32 \<Rightarrow> layout_node \<Rightarrow> layout_node \<times> bool" where
  "resize_pane tgt orient delta t = (let (t1, r) = resize_inner tgt orient delta t in (t1, r = Handled))"

text \<open>The ratio that a drag to \<open>p\<close> gives a split starting at \<open>origin\<close>.\<close>

definition dragged :: "nat \<Rightarrow> nat \<Rightarrow> nat \<Rightarrow> f32" where
  "dragged avail origin p =
     ratio_clamp (f32_div (f32_of_u16 (max 1 (min (avail - 1) (p - origin)))) (f32_of_u16 avail))"

fun set_divider_at :: "rect \<Rightarrow> rect \<Rightarrow> nat \<Rightarrow> nat \<Rightarrow> layout_node \<Rightarrow> layout_node \<times> bool" where
  "set_divider_at area dv x y (Leaf i) = (Leaf i, False)"
| "set_divider_at area dv x y (Split dir r a b) =
     (case dir of
        Horizontal \<Rightarrow>
          if rw area < 3 then (let (a1, f) = set_divider_at area dv x y a in (Split dir r a1 b, f))
          else
            (let avail = rw area - 1; w1 = share avail r
             in if Rect (wrap16 (rx area + w1)) (ry area) 1 (rh area) = dv
                then (Split dir (dragged avail (rx area) x) a b, True)
                else
                  (let (a1, f) = set_divider_at (Rect (rx area) (ry area) w1 (rh area)) dv x y a
                   in if f then (Split dir r a1 b, True)
                      else
                        (let (b1, g) = set_divider_at
                               (Rect (wrap16 (rx area + w1 + 1)) (ry area) (avail - w1) (rh area)) dv x y b
                         in (Split dir r a1 b1, g))))
      | Vertical \<Rightarrow>
          if rh area < 3 then (let (a1, f) = set_divider_at area dv x y a in (Split dir r a1 b, f))
          else
            (let avail = rh area - 1; h1 = share avail r
             in if Rect (rx area) (wrap16 (ry area + h1)) (rw area) 1 = dv
                then (Split dir (dragged avail (ry area) y) a b, True)
                else
                  (let (a1, f) = set_divider_at (Rect (rx area) (ry area) (rw area) h1) dv x y a
                   in if f then (Split dir r a1 b, True)
                      else
                        (let (b1, g) = set_divider_at
                               (Rect (rx area) (wrap16 (ry area + h1 + 1)) (rw area) (avail - h1)) dv x y b
                         in (Split dir r a1 b1, g)))))"

section \<open>Automatic arrangements\<close>

datatype pane_layout = SplitMode | Dwindle | Scrolling

definition scrolling_columns :: "nat \<Rightarrow> nat" where
  "scrolling_columns width = (if width \<ge> 49 then 2 else 1)"

fun dwindle :: "pane_id list \<Rightarrow> rect \<Rightarrow> pane_id \<Rightarrow> layout \<Rightarrow> layout" where
  "dwindle [] area active out = out"
| "dwindle (i # is) area active out =
     (if is = [] \<or> (rw area < 3 \<and> rh area < 3)
      then push_pane (case find (\<lambda>j. j = active) (i # is) of None \<Rightarrow> i | Some j \<Rightarrow> j) area out
      else if rw area \<ge> 3 \<and> (rh area < 3 \<or> rw area \<ge> rh area * 2)
      then (let f = (rw area - 1) div 2
            in dwindle is (Rect (wrap16 (rx area + f + 1)) (ry area) (rw area - f - 1) (rh area)) active
                 (push_divider Horizontal (Rect (wrap16 (rx area + f)) (ry area) 1 (rh area))
                   (push_pane i (Rect (rx area) (ry area) f (rh area)) out)))
      else (let f = (rh area - 1) div 2
            in dwindle is (Rect (rx area) (wrap16 (ry area + f + 1)) (rw area) (rh area - f - 1)) active
                 (push_divider Vertical (Rect (rx area) (wrap16 (ry area + f)) (rw area) 1)
                   (push_pane i (Rect (rx area) (ry area) (rw area) f) out))))"

definition scroll_to :: "nat \<Rightarrow> nat \<Rightarrow> nat \<Rightarrow> nat \<Rightarrow> nat" where
  "scroll_to n visible selected scroll =
     (let s0 = min scroll (n - visible);
          s1 = (if selected < s0 then selected else s0)
      in if selected \<ge> s1 + visible then selected + 1 - visible else s1)"

definition compute_mode :: "layout_node \<Rightarrow> rect \<Rightarrow> pane_layout \<Rightarrow> pane_id \<Rightarrow> nat \<Rightarrow> layout \<times> nat" where
  "compute_mode t area mode active scroll =
     (if mode = SplitMode then (compute t area, scroll)
      else
        (let ids = pane_ids t
         in if mode = Dwindle then (dwindle ids area active layout_default, scroll)
            else
              (let visible = scrolling_columns (rw area);
                   selected = (case position (\<lambda>i. i = active) ids of None \<Rightarrow> 0 | Some k \<Rightarrow> k);
                   s = scroll_to (length ids) visible selected scroll;
                   shown = drop s (take (min (length ids) (s + visible)) ids)
               in (if length shown = 1 then push_pane (shown ! 0) area layout_default
                   else if length shown = 2 then
                     (let left = (rw area - 1) div 2
                      in push_pane (shown ! 1)
                           (Rect (wrap16 (rx area + left + 1)) (ry area) (rw area - left - 1) (rh area))
                           (push_divider Horizontal (Rect (wrap16 (rx area + left)) (ry area) 1 (rh area))
                             (push_pane (shown ! 0) (Rect (rx area) (ry area) left (rh area)) layout_default)))
                   else layout_default, s))))"

section \<open>Focus\<close>

definition overlaps_vertically :: "rect \<Rightarrow> rect \<Rightarrow> bool" where
  "overlaps_vertically a b \<longleftrightarrow> ry a < bottom b \<and> ry b < bottom a"

definition overlaps_horizontally :: "rect \<Rightarrow> rect \<Rightarrow> bool" where
  "overlaps_horizontally a b \<longleftrightarrow> rx a < right b \<and> rx b < right a"

fun candidate :: "direction \<Rightarrow> rect \<Rightarrow> rect \<Rightarrow> bool \<times> nat" where
  "candidate DirRight a r = (rx r \<ge> right a \<and> overlaps_vertically a r, rx r - right a)"
| "candidate DirLeft a r = (right r \<le> rx a \<and> overlaps_vertically a r, rx a - right r)"
| "candidate DirDown a r = (ry r \<ge> bottom a \<and> overlaps_horizontally a r, ry r - bottom a)"
| "candidate DirUp a r = (bottom r \<le> ry a \<and> overlaps_horizontally a r, ry a - bottom r)"

fun neighbor_loop :: "(pane_id \<times> rect) list \<Rightarrow> pane_id \<Rightarrow> rect \<Rightarrow> direction \<Rightarrow> (pane_id \<times> nat) option
    \<Rightarrow> (pane_id \<times> nat) option" where
  "neighbor_loop [] active a dir best = best"
| "neighbor_loop ((i, r) # ps) active a dir best =
     (if i = active then neighbor_loop ps active a dir best
      else
        (let (is_candidate, dist) = candidate dir a r
         in neighbor_loop ps active a dir
              (if is_candidate \<and> (case best of None \<Rightarrow> True | Some (_, d) \<Rightarrow> dist < d) then Some (i, dist) else best)))"

definition neighbor :: "(pane_id \<times> rect) list \<Rightarrow> pane_id \<Rightarrow> direction \<Rightarrow> pane_id option" where
  "neighbor panes active dir =
     (case find (\<lambda>(p, _). p = active) panes of
        None \<Rightarrow> None
      | Some (_, a) \<Rightarrow> map_option fst (neighbor_loop panes active a dir None))"

section \<open>The overview grid\<close>

function overview_cols_from :: "nat \<Rightarrow> nat \<Rightarrow> nat" where
  "overview_cols_from cols n = (if cols * cols < n then overview_cols_from (cols + 1) n else cols)"
  by pat_completeness auto

termination overview_cols_from
proof (relation "measure (\<lambda>(cols, n). n - cols)")
  fix cols n :: nat
  assume "cols * cols < n"
  moreover have "cols \<le> cols * cols" by simp
  ultimately have "cols < n" by linarith
  then show "((cols + 1, n), (cols, n)) \<in> measure (\<lambda>(cols, n). n - cols)" by simp
qed simp

declare overview_cols_from.simps [simp del]

definition overview_cols :: "nat \<Rightarrow> nat" where
  "overview_cols n = overview_cols_from 1 n"

text \<open>One row of tiles: columns \<open>c\<close> to \<open>cols\<close> from \<open>x\<close> on, stopping after the \<open>n\<close>-th tile.\<close>

fun overview_row :: "nat \<Rightarrow> nat \<Rightarrow> nat \<Rightarrow> nat \<Rightarrow> nat \<Rightarrow> nat \<Rightarrow> (nat \<Rightarrow> nat) \<Rightarrow> nat \<Rightarrow> rect list" where
  "overview_row 0 c i n x y col_w h = []"
| "overview_row (Suc k) c i n x y col_w h =
     (if i \<ge> n then []
      else Rect x y (col_w c) h # overview_row k (c + 1) (i + 1) n (wrap16 (x + col_w c)) y col_w h)"

fun overview_rows :: "nat \<Rightarrow> nat \<Rightarrow> nat \<Rightarrow> nat \<Rightarrow> nat \<Rightarrow> nat \<Rightarrow> nat \<Rightarrow> (nat \<Rightarrow> nat) \<Rightarrow> (nat \<Rightarrow> nat) \<Rightarrow> rect list" where
  "overview_rows 0 r i n cols x0 y col_w row_h = []"
| "overview_rows (Suc k) r i n cols x0 y col_w row_h =
     (let tiles = overview_row cols 0 i n x0 y col_w (row_h r)
      in tiles @ overview_rows k (r + 1) (i + length tiles) n cols x0 (wrap16 (y + row_h r)) col_w row_h)"

text \<open>\<open>None\<close> is the panic of a division whose 16-bit divisor has wrapped to zero.\<close>

definition overview_tiles :: "rect \<Rightarrow> nat \<Rightarrow> rect list option" where
  "overview_tiles area n =
     (if n = 0 \<or> rw area = 0 \<or> rh area = 0 then Some []
      else
        (let cols = overview_cols n; rows = (n + cols - 1) div cols; c16 = wrap16 cols; r16 = wrap16 rows
         in if c16 = 0 \<or> r16 = 0 then None
            else
              (let bw = rw area div c16; xw = rw area mod c16; bh = rh area div r16; xh = rh area mod r16
               in Some (overview_rows rows 0 0 n cols (rx area) (ry area)
                    (\<lambda>c. bw + (if c < xw then 1 else 0)) (\<lambda>r. bh + (if r < xh then 1 else 0))))))"

section \<open>The geometry tiles its area\<close>

text \<open>How many panes and dividers of a layout lie on a cell.\<close>

definition cell :: "rect \<Rightarrow> nat \<Rightarrow> nat \<Rightarrow> nat" where
  "cell r x y = (if rect_contains r x y then 1 else 0)"

definition cover :: "layout \<Rightarrow> nat \<Rightarrow> nat \<Rightarrow> nat" where
  "cover l x y = sum_list (map (\<lambda>p. cell (snd p) x y) (lo_panes l)) + sum_list (map (\<lambda>d. cell (dv_rect d) x y) (lo_dividers l))"

text \<open>The far edges of a rectangle are 16-bit numbers.\<close>

definition fits :: "rect \<Rightarrow> bool" where
  "fits r \<longleftrightarrow> rx r + rw r < 65536 \<and> ry r + rh r < 65536"

lemma cover_push [simp]:
  "cover (push_pane i r l) x y = cover l x y + cell r x y"
  "cover (push_divider d r l) x y = cover l x y + cell r x y"
  by (simp_all add: cover_def push_pane_def push_divider_def)

lemma cover_default [simp]: "cover layout_default x y = 0"
  by (simp add: cover_def layout_default_def)

lemma Rect_sel [simp]: "rx (Rect x y w h) = x" "ry (Rect x y w h) = y" "rw (Rect x y w h) = w" "rh (Rect x y w h) = h"
  by (simp_all add: Rect_def)

lemma cell_fits: "fits r \<Longrightarrow> cell r x y = (if rx r \<le> x \<and> x < rx r + rw r \<and> ry r \<le> y \<and> y < ry r + rh r then 1 else 0)"
  by (simp add: cell_def rect_contains_def right_def bottom_def wrap16_def fits_def)

text \<open>A cut: two parts and the divider of one cell between them make up the whole.\<close>

lemma cut_columns:
  assumes "fits area" and "f + 1 \<le> rw area"
  shows "fits (Rect (rx area) (ry area) f (rh area))"
    and "fits (Rect (wrap16 (rx area + f + 1)) (ry area) (rw area - f - 1) (rh area))"
    and "cell (Rect (rx area) (ry area) f (rh area)) x y + cell (Rect (wrap16 (rx area + f)) (ry area) 1 (rh area)) x y
      + cell (Rect (wrap16 (rx area + f + 1)) (ry area) (rw area - f - 1) (rh area)) x y = cell area x y"
  using assms by (auto simp: cell_fits fits_def)

lemma cut_rows:
  assumes "fits area" and "f + 1 \<le> rh area"
  shows "fits (Rect (rx area) (ry area) (rw area) f)"
    and "fits (Rect (rx area) (wrap16 (ry area + f + 1)) (rw area) (rh area - f - 1))"
    and "cell (Rect (rx area) (ry area) (rw area) f) x y + cell (Rect (rx area) (wrap16 (ry area + f)) (rw area) 1) x y
      + cell (Rect (rx area) (wrap16 (ry area + f + 1)) (rw area) (rh area - f - 1)) x y = cell area x y"
  using assms by (auto simp: cell_fits fits_def)

lemma share_bounds: "2 \<le> avail \<Longrightarrow> 1 \<le> share avail r \<and> share avail r \<le> avail - 1"
  by (simp add: share_def)

lemma walk_cover: "fits area \<Longrightarrow> cover (walk t area out) x y = cover out x y + cell area x y"
proof (induction t arbitrary: area out)
  case (Leaf i)
  then show ?case by simp
next
  case (Split dir r a b)
  show ?case
  proof (cases dir)
    case Horizontal
    show ?thesis
    proof (cases "rw area < 3")
      case False
      let ?f = "share (rw area - 1) r"
      have "?f + 1 \<le> rw area" using share_bounds [of "rw area - 1" r] False by linarith
      note c = cut_columns [OF Split.prems this]
      have e: "rw area - 1 - ?f = rw area - ?f - 1" by simp
      show ?thesis using c(1,2) c(3) [of x y] False Horizontal by (simp add: Let_def Split.IH e)
    qed (simp add: Horizontal Split.IH Split.prems)
  next
    case Vertical
    show ?thesis
    proof (cases "rh area < 3")
      case False
      let ?f = "share (rh area - 1) r"
      have "?f + 1 \<le> rh area" using share_bounds [of "rh area - 1" r] False by linarith
      note c = cut_rows [OF Split.prems this]
      have e: "rh area - 1 - ?f = rh area - ?f - 1" by simp
      show ?thesis using c(1,2) c(3) [of x y] False Vertical by (simp add: Let_def Split.IH e)
    qed (simp add: Vertical Split.IH Split.prems)
  qed
qed

lemma dwindle_cover:
  "fits area \<Longrightarrow> is \<noteq> [] \<Longrightarrow> cover (dwindle is area active out) x y = cover out x y + cell area x y"
proof (induction "is" arbitrary: area out)
  case (Cons i "is")
  let ?f = "(rw area - 1) div 2" and ?g = "(rh area - 1) div 2"
  consider (last) "is = [] \<or> (rw area < 3 \<and> rh area < 3)"
    | (cols) "is \<noteq> []" "\<not> (rw area < 3 \<and> rh area < 3)" "rw area \<ge> 3 \<and> (rh area < 3 \<or> rw area \<ge> rh area * 2)"
    | (rows) "is \<noteq> []" "\<not> (rw area < 3 \<and> rh area < 3)" "\<not> (rw area \<ge> 3 \<and> (rh area < 3 \<or> rw area \<ge> rh area * 2))"
    by blast
  then show ?case
  proof cases
    case last
    then show ?thesis by simp
  next
    case cols
    then have "?f + 1 \<le> rw area" by auto
    note c = cut_columns [OF Cons.prems(1) this]
    show ?thesis using c(2) c(3) [of x y] cols by (simp add: Let_def Cons.IH)
  next
    case rows
    then have "?g + 1 \<le> rh area" by auto
    note c = cut_rows [OF Cons.prems(1) this]
    show ?thesis using c(2) c(3) [of x y] rows by (auto simp: Let_def Cons.IH)
  qed
qed simp

lemma collect_append: "collect t v = v @ collect t []"
proof (induction t arbitrary: v)
  case (Split d r a b)
  show ?case using Split.IH(1) [of v] Split.IH(2) [of "collect a v"] Split.IH(2) [of "collect a []"] by simp
qed simp

lemma pane_ids_simps [simp]:
  "pane_ids (Leaf i) = [i]"
  "pane_ids (Split d r a b) = pane_ids a @ pane_ids b"
  using collect_append [of b "collect a []"] by (simp_all add: pane_ids_def)

lemma pane_ids_nonempty [simp]: "pane_ids t \<noteq> []"
  by (induction t) auto

lemma contains_pane_iff: "contains_pane i t \<longleftrightarrow> i \<in> set (pane_ids t)"
  by (induction t) auto

lemma leaf_count_length: "leaf_count t = length (pane_ids t)"
  by (induction t) auto

text \<open>The viewport of the scrolling arrangement: one or two columns, the selected one among them.\<close>

lemma scroll_to_range:
  assumes "selected < n" and "visible = 1 \<or> visible = 2"
  shows "scroll_to n visible selected scroll \<le> selected"
    and "selected < scroll_to n visible selected scroll + visible"
    and "scroll_to n visible selected scroll < n"
  using assms by (auto simp: scroll_to_def Let_def)

lemma selected_bound:
  "(case position (\<lambda>i. i = active) (pane_ids t) of None \<Rightarrow> 0 | Some k \<Rightarrow> k) < length (pane_ids t)"
  by (auto split: option.split dest: position_SomeD)

lemma scrolling_columns_cases: "scrolling_columns w = 1 \<or> (scrolling_columns w = 2 \<and> 49 \<le> w)"
  by (simp add: scrolling_columns_def)

definition shown_ids :: "layout_node \<Rightarrow> rect \<Rightarrow> pane_id \<Rightarrow> nat \<Rightarrow> pane_id list" where
  "shown_ids t area active scroll =
     (let ids = pane_ids t; visible = scrolling_columns (rw area);
          selected = (case position (\<lambda>i. i = active) ids of None \<Rightarrow> 0 | Some k \<Rightarrow> k);
          s = scroll_to (length ids) visible selected scroll
      in drop s (take (min (length ids) (s + visible)) ids))"

lemma scrolling_layout:
  "fst (compute_mode t area Scrolling active scroll) =
     (if length (shown_ids t area active scroll) = 1
      then push_pane (shown_ids t area active scroll ! 0) area layout_default
      else if length (shown_ids t area active scroll) = 2 then
        (let left = (rw area - 1) div 2
         in push_pane (shown_ids t area active scroll ! 1)
              (Rect (wrap16 (rx area + left + 1)) (ry area) (rw area - left - 1) (rh area))
              (push_divider Horizontal (Rect (wrap16 (rx area + left)) (ry area) 1 (rh area))
                (push_pane (shown_ids t area active scroll ! 0) (Rect (rx area) (ry area) left (rh area)) layout_default)))
      else layout_default)"
  by (simp add: compute_mode_def shown_ids_def Let_def)

lemma shown_ids_range:
  shows "length (shown_ids t area active scroll) = 1 \<or> (length (shown_ids t area active scroll) = 2 \<and> 49 \<le> rw area)"
    and "active \<in> set (pane_ids t) \<Longrightarrow> active \<in> set (shown_ids t area active scroll)"
proof -
  define sel where "sel = (case position (\<lambda>i. i = active) (pane_ids t) of None \<Rightarrow> 0 | Some k \<Rightarrow> k)"
  define vis where "vis = scrolling_columns (rw area)"
  define s where "s = scroll_to (length (pane_ids t)) vis sel scroll"
  have sel: "sel < length (pane_ids t)" unfolding sel_def by (rule selected_bound)
  have vis: "vis = 1 \<or> (vis = 2 \<and> 49 \<le> rw area)" unfolding vis_def by (rule scrolling_columns_cases)
  have s: "s \<le> sel" "sel < s + vis" "s < length (pane_ids t)"
    unfolding s_def using scroll_to_range [OF sel] vis by blast+
  have e: "shown_ids t area active scroll = drop s (take (min (length (pane_ids t)) (s + vis)) (pane_ids t))"
    by (simp add: shown_ids_def Let_def s_def vis_def sel_def)
  show "length (shown_ids t area active scroll) = 1 \<or> (length (shown_ids t area active scroll) = 2 \<and> 49 \<le> rw area)"
    using vis s by (auto simp: e)
  assume "active \<in> set (pane_ids t)"
  then obtain k where k: "position (\<lambda>i. i = active) (pane_ids t) = Some k"
    using position_None_iff [of "\<lambda>i. i = active" "pane_ids t"] by blast
  then have "pane_ids t ! sel = active" using position_SomeD [OF k] by (simp add: sel_def)
  moreover have "drop s (take (min (length (pane_ids t)) (s + vis)) (pane_ids t)) ! (sel - s) = pane_ids t ! sel"
    using s sel by simp
  moreover have "sel - s < length (shown_ids t area active scroll)" using s sel by (auto simp: e)
  ultimately show "active \<in> set (shown_ids t area active scroll)" by (metis e nth_mem)
qed

lemma scrolling_cover: "fits area \<Longrightarrow> cover (fst (compute_mode t area Scrolling active scroll)) x y = cell area x y"
proof -
  assume f: "fits area"
  consider "length (shown_ids t area active scroll) = 1"
    | "length (shown_ids t area active scroll) = 2" "49 \<le> rw area"
    using shown_ids_range(1) by blast
  then show ?thesis
  proof cases
    case 1
    then show ?thesis by (simp add: scrolling_layout)
  next
    case 2
    then have "(rw area - 1) div 2 + 1 \<le> rw area" by auto
    note c = cut_columns [OF f this]
    show ?thesis using c(3) [of x y] 2 by (simp add: scrolling_layout Let_def)
  qed
qed

text \<open>
  C11. Whatever the tree, its ratios, the arrangement and the scroll position, every cell of the
  window belongs to exactly one pane or divider, and no cell outside it is drawn on.
\<close>

theorem layout_tiles_area:
  assumes "fits area"
  shows "cover (fst (compute_mode t area mode active scroll)) x y = (if rect_contains area x y then 1 else 0)"
proof (cases mode)
  case SplitMode
  then show ?thesis using walk_cover [OF assms] by (simp add: compute_mode_def compute_def cell_def)
next
  case Dwindle
  then show ?thesis using dwindle_cover [OF assms] by (simp add: compute_mode_def cell_def)
next
  case Scrolling
  then show ?thesis using scrolling_cover [OF assms] by (simp add: cell_def)
qed

theorem layout_tiles_area_witness:
  "cover (fst (compute_mode (Split Horizontal (Fin (1 / 2)) (Leaf (PaneId 1)) (Leaf (PaneId 2))) (Rect 0 0 81 24) Dwindle (PaneId 1) 0)) 40 3 = 1"
  using layout_tiles_area [of "Rect 0 0 81 24" "Split Horizontal (Fin (1 / 2)) (Leaf (PaneId 1)) (Leaf (PaneId 2))" Dwindle "PaneId 1" 0 40 3]
  by (simp add: fits_def rect_contains_def right_def bottom_def)

section \<open>Which panes are shown\<close>

lemma shown_push [simp]:
  "map fst (lo_panes (push_pane i r l)) = map fst (lo_panes l) @ [i]"
  "map fst (lo_panes (push_divider d r l)) = map fst (lo_panes l)"
  by (simp_all add: push_pane_def push_divider_def)

lemma walk_shown: "\<exists>vs. map fst (lo_panes (walk t area out)) = map fst (lo_panes out) @ vs \<and> subseq vs (pane_ids t) \<and> vs \<noteq> []"
proof (induction t arbitrary: area out)
  case (Leaf i)
  then show ?case by simp
next
  case (Split dir r a b)
  have small: "\<exists>vs. map fst (lo_panes (walk a area out)) = map fst (lo_panes out) @ vs \<and> subseq vs (pane_ids a @ pane_ids b) \<and> vs \<noteq> []"
    using Split.IH(1) [of area out] by (meson list_emb_prefix)
  have both: "\<exists>vs. map fst (lo_panes (walk b p (push_divider d q (walk a s out)))) = map fst (lo_panes out) @ vs
      \<and> subseq vs (pane_ids a @ pane_ids b) \<and> vs \<noteq> []" for p d q s
  proof -
    obtain us where us: "map fst (lo_panes (walk a s out)) = map fst (lo_panes out) @ us" "subseq us (pane_ids a)"
      using Split.IH(1) by blast
    obtain vs where vs: "map fst (lo_panes (walk b p (push_divider d q (walk a s out)))) =
        map fst (lo_panes (push_divider d q (walk a s out))) @ vs" "subseq vs (pane_ids b)" "vs \<noteq> []"
      using Split.IH(2) by blast
    have "subseq (us @ vs) (pane_ids a @ pane_ids b)" using us(2) vs(2) by (rule list_emb_append_mono)
    with us(1) vs show ?thesis by (intro exI [of _ "us @ vs"]) (simp del: map_append)
  qed
  show ?case using small both by (cases dir) (simp_all add: Let_def)
qed

lemma find_self: "x \<in> set xs \<Longrightarrow> find (\<lambda>j. j = x) xs = Some x"
  by (induction xs) auto

lemma dwindle_shown:
  "\<exists>vs. map fst (lo_panes (dwindle is area active out)) = map fst (lo_panes out) @ vs \<and> subseq vs is
     \<and> (active \<in> set is \<longrightarrow> active \<in> set vs)"
proof (induction "is" arbitrary: area out)
  case (Cons i "is")
  have step: "\<exists>vs. map fst (lo_panes (dwindle is p active (push_divider d q (push_pane i s out)))) = map fst (lo_panes out) @ vs
      \<and> subseq vs (i # is) \<and> (active \<in> set (i # is) \<longrightarrow> active \<in> set vs)" for p d q s
  proof -
    obtain vs where "map fst (lo_panes (dwindle is p active (push_divider d q (push_pane i s out)))) =
        map fst (lo_panes (push_divider d q (push_pane i s out))) @ vs" "subseq vs is" "active \<in> set is \<longrightarrow> active \<in> set vs"
      using Cons.IH by blast
    then show ?thesis by (intro exI [of _ "i # vs"]) auto
  qed
  have last: "\<exists>vs. map fst (lo_panes (push_pane (case find (\<lambda>j. j = active) (i # is) of None \<Rightarrow> i | Some j \<Rightarrow> j) area out))
        = map fst (lo_panes out) @ vs \<and> subseq vs (i # is) \<and> (active \<in> set (i # is) \<longrightarrow> active \<in> set vs)"
  proof (cases "active \<in> set (i # is)")
    case True
    then have "find (\<lambda>j. j = active) (i # is) = Some active" by (rule find_self)
    moreover have "subseq [active] (i # is)" using True by (simp only: subseq_singleton_left)
    ultimately show ?thesis by (intro exI [of _ "[active]"]) (simp del: find.simps)
  next
    case False
    then have "find (\<lambda>j. j = active) (i # is) = None" by (auto simp: find_None_iff)
    with False show ?thesis by (intro exI [of _ "[i]"]) (simp del: find.simps)
  qed
  show ?case unfolding dwindle.simps(2) Let_def
    by (simp only: split: if_split) (intro conjI impI; (rule step | rule last))
qed simp

lemma scrolling_shown:
  "map fst (lo_panes (fst (compute_mode t area Scrolling active scroll))) = shown_ids t area active scroll"
  using shown_ids_range(1) [of t area active scroll]
  by (auto simp: scrolling_layout Let_def layout_default_def length_Suc_conv numeral_2_eq_2)

lemma shown_ids_subseq: "subseq (shown_ids t area active scroll) (pane_ids t)"
  unfolding shown_ids_def Let_def
  by (rule subseq_order.order_trans [OF suffix_imp_subseq [OF suffix_drop] prefix_imp_subseq [OF take_is_prefix]])

text \<open>
  An automatic arrangement always shows the active pane, and no arrangement shows a pane
  the tree does not hold, shows one twice or reorders them.
\<close>

theorem active_pane_is_shown:
  assumes "contains_pane active t"
  shows "subseq (map fst (lo_panes (fst (compute_mode t area mode active scroll)))) (pane_ids t)
    \<and> (mode = SplitMode \<or> active \<in> set (map fst (lo_panes (fst (compute_mode t area mode active scroll)))))"
proof (cases mode)
  case SplitMode
  then show ?thesis using walk_shown [of t area layout_default] by (auto simp: compute_mode_def compute_def layout_default_def)
next
  case Dwindle
  obtain vs where "map fst (lo_panes (dwindle (pane_ids t) area active layout_default)) = map fst (lo_panes layout_default) @ vs"
    "subseq vs (pane_ids t)" "active \<in> set (pane_ids t) \<longrightarrow> active \<in> set vs"
    using dwindle_shown by blast
  with Dwindle assms show ?thesis by (simp add: compute_mode_def contains_pane_iff layout_default_def del: set_map)
next
  case Scrolling
  then show ?thesis using assms shown_ids_range(2) [of active t area scroll] shown_ids_subseq
    by (simp add: scrolling_shown contains_pane_iff del: set_map)
qed

theorem active_pane_is_shown_witness:
  "PaneId 2 \<in> set (map fst (lo_panes (fst (compute_mode (Split Horizontal (Fin (1 / 2)) (Leaf (PaneId 1)) (Leaf (PaneId 2)))
      (Rect 0 0 2 2) Dwindle (PaneId 2) 0))))"
  using active_pane_is_shown [of "PaneId 2" "Split Horizontal (Fin (1 / 2)) (Leaf (PaneId 1)) (Leaf (PaneId 2))" "Rect 0 0 2 2" Dwindle 0]
  by simp

section \<open>Splitting and closing\<close>

lemma without_absent: "new \<notin> set (pane_ids t) \<Longrightarrow> without new t = Some t"
  by (induction t) auto

lemma split_pane_found: "snd (split_pane tgt dir new t) \<longleftrightarrow> tgt \<in> set (pane_ids t)"
  by (induction t) (auto simp: Let_def split_beta)

lemma split_pane_absent: "tgt \<notin> set (pane_ids t) \<Longrightarrow> split_pane tgt dir new t = (t, False)"
  by (induction t) (auto simp: Let_def)

lemma without_split:
  "tgt \<in> set (pane_ids t) \<Longrightarrow> new \<notin> set (pane_ids t) \<Longrightarrow> without new (fst (split_pane tgt dir new t)) = Some t"
proof (induction t)
  case (Split d r a b)
  show ?case
  proof (cases "tgt \<in> set (pane_ids a)")
    case True
    then have "snd (split_pane tgt dir new a)" by (simp add: split_pane_found)
    then show ?thesis using Split True by (simp add: split_beta without_absent)
  next
    case False
    then show ?thesis using Split by (simp add: split_beta split_pane_absent without_absent)
  qed
qed auto

lemma without_ids:
  "(case without i t of None \<Rightarrow> [] | Some u \<Rightarrow> pane_ids u) = filter (\<lambda>p. p \<noteq> i) (pane_ids t)"
proof (induction t)
  case (Split d r a b)
  then show ?case by (cases "without i a"; cases "without i b") auto
qed simp

lemma without_None_iff: "without i t = None \<longleftrightarrow> set (pane_ids t) = {i}"
proof (induction t)
  case (Split d r a b)
  have "set (pane_ids a) \<noteq> {}" "set (pane_ids b) \<noteq> {}" by simp_all
  then have "set (pane_ids a) \<union> set (pane_ids b) = {i} \<longleftrightarrow> set (pane_ids a) = {i} \<and> set (pane_ids b) = {i}"
    unfolding Un_singleton_iff by simp
  moreover have "without i (Split d r a b) = None \<longleftrightarrow> without i a = None \<and> without i b = None"
    by (cases "without i a"; cases "without i b") simp_all
  ultimately show ?case using Split.IH by (simp only: pane_ids_simps set_append)
qed auto

text \<open>
  Closing the pane that a split has just added gives the tree back, its ratios included;
  closing any pane leaves the others in their order, and empties the tree only when it held
  nothing else.
\<close>

theorem split_close_round_trip:
  assumes "contains_pane tgt t" and "\<not> contains_pane new t"
  shows "snd (split_pane tgt dir new t) \<and> without new (fst (split_pane tgt dir new t)) = Some t
    \<and> (case without i t of None \<Rightarrow> pane_ids t = filter (\<lambda>p. p = i) (pane_ids t)
        | Some u \<Rightarrow> pane_ids u = filter (\<lambda>p. p \<noteq> i) (pane_ids t))"
proof (intro conjI)
  show "snd (split_pane tgt dir new t)" using assms(1) by (simp add: split_pane_found contains_pane_iff)
  show "without new (fst (split_pane tgt dir new t)) = Some t" using assms by (simp add: without_split contains_pane_iff)
  show "case without i t of None \<Rightarrow> pane_ids t = filter (\<lambda>p. p = i) (pane_ids t)
      | Some u \<Rightarrow> pane_ids u = filter (\<lambda>p. p \<noteq> i) (pane_ids t)"
  proof (cases "without i t")
    case None
    then have "\<forall>p\<in>set (pane_ids t). p = i" by (simp add: without_None_iff)
    then have "filter (\<lambda>p. p = i) (pane_ids t) = pane_ids t" by (simp only: filter_True)
    with None show ?thesis by simp
  next
    case (Some u)
    then show ?thesis using without_ids [of i t] by simp
  qed
qed

theorem split_close_round_trip_witness:
  "without (PaneId 9) (fst (split_pane (PaneId 1) Vertical (PaneId 9) (Leaf (PaneId 1)))) = Some (Leaf (PaneId 1))"
  using split_close_round_trip [of "PaneId 1" "Leaf (PaneId 1)" "PaneId 9" Vertical "PaneId 1"] by simp

section \<open>Dragging a divider\<close>

text \<open>The area of the split that draws its divider at \<open>dv\<close>, the first one in drawing order of the tree.\<close>

fun split_area :: "rect \<Rightarrow> rect \<Rightarrow> layout_node \<Rightarrow> (split_dir \<times> rect) option" where
  "split_area area dv (Leaf i) = None"
| "split_area area dv (Split dir r a b) =
     (case dir of
        Horizontal \<Rightarrow>
          if rw area < 3 then split_area area dv a
          else (let f = share (rw area - 1) r
                in if Rect (wrap16 (rx area + f)) (ry area) 1 (rh area) = dv then Some (dir, area)
                   else case split_area (Rect (rx area) (ry area) f (rh area)) dv a of
                          Some s \<Rightarrow> Some s
                        | None \<Rightarrow> split_area (Rect (wrap16 (rx area + f + 1)) (ry area) (rw area - 1 - f) (rh area)) dv b)
      | Vertical \<Rightarrow>
          if rh area < 3 then split_area area dv a
          else (let f = share (rh area - 1) r
                in if Rect (rx area) (wrap16 (ry area + f)) (rw area) 1 = dv then Some (dir, area)
                   else case split_area (Rect (rx area) (ry area) (rw area) f) dv a of
                          Some s \<Rightarrow> Some s
                        | None \<Rightarrow> split_area (Rect (rx area) (wrap16 (ry area + f + 1)) (rw area) (rh area - 1 - f)) dv b))"

lemma set_divider_found: "snd (set_divider_at area dv x y t) \<longleftrightarrow> split_area area dv t \<noteq> None"
proof (induction t arbitrary: area)
  case (Split dir r a b)
  then show ?case by (cases dir) (simp_all add: Let_def split_beta split: option.split)
qed simp

lemma set_divider_missed: "\<not> snd (set_divider_at area dv x y t) \<Longrightarrow> fst (set_divider_at area dv x y t) = t"
proof (induction t arbitrary: area)
  case (Split dir r a b)
  then show ?case by (cases dir) (simp_all add: Let_def split_beta split: if_splits)
qed simp

text \<open>The dividers a walk adds do not depend on what was drawn before it.\<close>

lemma walk_dividers:
  "dv_rect ` set (lo_dividers (walk t area out)) = dv_rect ` set (lo_dividers out) \<union> dv_rect ` set (lo_dividers (compute t area))"
proof (induction t arbitrary: area out)
  case (Leaf i)
  then show ?case by (simp add: compute_def push_pane_def layout_default_def)
next
  case (Split dir r a b)
  have e: "dv_rect ` set (lo_dividers (walk b p (push_divider d q (walk a s l)))) =
      dv_rect ` set (lo_dividers l) \<union> dv_rect ` set (lo_dividers (compute a s)) \<union> {q} \<union> dv_rect ` set (lo_dividers (compute b p))"
    for p d q s l
    using Split.IH(1) [of s l] Split.IH(2) [of p "push_divider d q (walk a s l)"] by (simp add: push_divider_def Un_ac)
  have z: "dv_rect ` set (lo_dividers layout_default) = {}" by (simp add: layout_default_def)
  show ?case
    using Split.IH(1) [of area out] by (cases dir) (simp_all add: compute_def Let_def e z Un_ac)
qed

lemma compute_dividers:
  "dv_rect ` set (lo_dividers (compute (Leaf i) area)) = {}"
  "dv_rect ` set (lo_dividers (compute (Split Horizontal r a b) area)) =
     (if rw area < 3 then dv_rect ` set (lo_dividers (compute a area))
      else (let f = share (rw area - 1) r
            in insert (Rect (wrap16 (rx area + f)) (ry area) 1 (rh area))
                 (dv_rect ` set (lo_dividers (compute a (Rect (rx area) (ry area) f (rh area)))) \<union>
                  dv_rect ` set (lo_dividers (compute b (Rect (wrap16 (rx area + f + 1)) (ry area) (rw area - 1 - f) (rh area)))))))"
  "dv_rect ` set (lo_dividers (compute (Split Vertical r a b) area)) =
     (if rh area < 3 then dv_rect ` set (lo_dividers (compute a area))
      else (let f = share (rh area - 1) r
            in insert (Rect (rx area) (wrap16 (ry area + f)) (rw area) 1)
                 (dv_rect ` set (lo_dividers (compute a (Rect (rx area) (ry area) (rw area) f))) \<union>
                  dv_rect ` set (lo_dividers (compute b (Rect (rx area) (wrap16 (ry area + f + 1)) (rw area) (rh area - 1 - f)))))))"
proof -
  have e: "dv_rect ` set (lo_dividers (walk b p (push_divider d q (walk a s layout_default)))) =
      insert q (dv_rect ` set (lo_dividers (compute a s)) \<union> dv_rect ` set (lo_dividers (compute b p)))" for p d q s
    using walk_dividers [of b p "push_divider d q (walk a s layout_default)"]
    by (simp add: push_divider_def compute_def)
  show "dv_rect ` set (lo_dividers (compute (Leaf i) area)) = {}"
    by (simp add: compute_def push_pane_def layout_default_def)
  show "dv_rect ` set (lo_dividers (compute (Split Horizontal r a b) area)) =
     (if rw area < 3 then dv_rect ` set (lo_dividers (compute a area))
      else (let f = share (rw area - 1) r
            in insert (Rect (wrap16 (rx area + f)) (ry area) 1 (rh area))
                 (dv_rect ` set (lo_dividers (compute a (Rect (rx area) (ry area) f (rh area)))) \<union>
                  dv_rect ` set (lo_dividers (compute b (Rect (wrap16 (rx area + f + 1)) (ry area) (rw area - 1 - f) (rh area)))))))"
    by (simp add: compute_def [of "Split _ _ _ _"] compute_def [of a area] Let_def e)
  show "dv_rect ` set (lo_dividers (compute (Split Vertical r a b) area)) =
     (if rh area < 3 then dv_rect ` set (lo_dividers (compute a area))
      else (let f = share (rh area - 1) r
            in insert (Rect (rx area) (wrap16 (ry area + f)) (rw area) 1)
                 (dv_rect ` set (lo_dividers (compute a (Rect (rx area) (ry area) (rw area) f))) \<union>
                  dv_rect ` set (lo_dividers (compute b (Rect (rx area) (wrap16 (ry area + f + 1)) (rw area) (rh area - 1 - f)))))))"
    by (simp add: compute_def [of "Split _ _ _ _"] compute_def [of a area] Let_def e)
qed

lemma split_area_drawn: "split_area area dv t \<noteq> None \<longleftrightarrow> dv \<in> dv_rect ` set (lo_dividers (compute t area))"
proof (induction t arbitrary: area)
  case (Leaf i)
  then show ?case by (simp add: compute_dividers)
next
  case (Split dir r a b)
  show ?case
    by (cases dir) (auto simp: compute_dividers Let_def Split.IH [symmetric] split: option.splits)
qed

text \<open>The middle of a span, where the clamp to one to nine tenths does not act.\<close>

definition in_band :: "nat \<Rightarrow> nat \<Rightarrow> nat \<Rightarrow> bool" where
  "in_band origin len p \<longleftrightarrow> origin \<le> p \<and> len - 1 \<le> 10 * (p - origin) \<and> 10 * (p - origin) \<le> 9 * (len - 1)"

lemma share_dragged:
  assumes "3 \<le> len" and "len \<le> 65536" and "in_band origin len p"
  shows "share (len - 1) (dragged (len - 1) origin p) = p - origin"
proof -
  let ?a = "len - 1" and ?w = "p - origin"
  have b: "0 < ?a" "?a < 65536" "?a \<le> 10 * ?w" "10 * ?w \<le> 9 * ?a" using assms by (auto simp: in_band_def)
  then have w: "1 \<le> ?w" "?w \<le> ?a - 1" by linarith+
  then have e: "max 1 (min (?a - 1) ?w) = ?w" by simp
  have "dragged ?a origin p = f32_div (f32_of_u16 ?w) (f32_of_u16 ?a)"
    unfolding dragged_def e ratio_clamp_def by (rule ratio_band [OF b])
  moreover have "f32_as_u16 (f32_round (f32_mul (f32_of_u16 ?a) (f32_div (f32_of_u16 ?w) (f32_of_u16 ?a)))) = ?w"
    using w b by (intro ratio_round_trip) linarith+
  ultimately show ?thesis unfolding share_def using e by simp
qed

text \<open>The place where a divider is drawn once the split over \<open>s\<close> has been dragged to the pointer.\<close>

fun under_pointer :: "split_dir \<Rightarrow> rect \<Rightarrow> nat \<Rightarrow> nat \<Rightarrow> rect" where
  "under_pointer Horizontal s x y = Rect x (ry s) 1 (rh s)"
| "under_pointer Vertical s x y = Rect (rx s) y (rw s) 1"

fun pointer_in_band :: "split_dir \<Rightarrow> rect \<Rightarrow> nat \<Rightarrow> nat \<Rightarrow> bool" where
  "pointer_in_band Horizontal s x y = in_band (rx s) (rw s) x"
| "pointer_in_band Vertical s x y = in_band (ry s) (rh s) y"

lemma dragged_lands_here:
  assumes "fits area"
  shows "3 \<le> rw area \<Longrightarrow> in_band (rx area) (rw area) x \<Longrightarrow>
      wrap16 (rx area + share (rw area - 1) (dragged (rw area - 1) (rx area) x)) = x"
    and "3 \<le> rh area \<Longrightarrow> in_band (ry area) (rh area) y \<Longrightarrow>
      wrap16 (ry area + share (rh area - 1) (dragged (rh area - 1) (ry area) y)) = y"
  using assms share_dragged [of "rw area" "rx area" x] share_dragged [of "rh area" "ry area" y]
  by (auto simp: fits_def in_band_def)

lemma drag_lands:
  "fits area \<Longrightarrow> split_area area dv t = Some (d, s) \<Longrightarrow> pointer_in_band d s x y \<Longrightarrow>
     under_pointer d s x y \<in> dv_rect ` set (lo_dividers (compute (fst (set_divider_at area dv x y t)) area))"
proof (induction t arbitrary: area)
  case (Split dir r a b)
  show ?case
  proof (cases dir)
    case Horizontal
    show ?thesis
    proof (cases "rw area < 3")
      case True
      then show ?thesis using Split Horizontal by (simp add: split_beta compute_dividers)
    next
      case False
      let ?f = "share (rw area - 1) r"
      have "?f + 1 \<le> rw area" using share_bounds [of "rw area - 1" r] False by linarith
      note c = cut_columns(1,2) [OF Split.prems(1) this]
      have e: "rw area - ?f - 1 = rw area - 1 - ?f" by simp
      show ?thesis
        using Split.prems Horizontal False Split.IH(1) [OF c(1)] Split.IH(2) [OF c(2)] dragged_lands_here(1) [OF Split.prems(1)]
          set_divider_found [of "Rect (rx area) (ry area) ?f (rh area)" dv x y a]
          set_divider_missed [of "Rect (rx area) (ry area) ?f (rh area)" dv x y a]
        by (simp add: Let_def split_beta compute_dividers e split: option.splits if_splits)
    qed
  next
    case Vertical
    show ?thesis
    proof (cases "rh area < 3")
      case True
      then show ?thesis using Split Vertical by (simp add: split_beta compute_dividers)
    next
      case False
      let ?f = "share (rh area - 1) r"
      have "?f + 1 \<le> rh area" using share_bounds [of "rh area - 1" r] False by linarith
      note c = cut_rows(1,2) [OF Split.prems(1) this]
      have e: "rh area - ?f - 1 = rh area - 1 - ?f" by simp
      show ?thesis
        using Split.prems Vertical False Split.IH(1) [OF c(1)] Split.IH(2) [OF c(2)] dragged_lands_here(2) [OF Split.prems(1)]
          set_divider_found [of "Rect (rx area) (ry area) (rw area) ?f" dv x y a]
          set_divider_missed [of "Rect (rx area) (ry area) (rw area) ?f" dv x y a]
        by (simp add: Let_def split_beta compute_dividers e split: option.splits if_splits)
    qed
  qed
qed simp

text \<open>
  C30. A drag finds a split exactly when the geometry draws a divider where the pointer took
  hold, changes nothing otherwise, and puts that divider on the pointer's cell whenever the
  pointer is within one to nine tenths of the split: the division, the multiplication and the
  rounding in single precision lose nothing.
\<close>

theorem drag_follows_pointer:
  assumes "fits area"
  shows "(snd (set_divider_at area dv x y t) \<longleftrightarrow> dv \<in> dv_rect ` set (lo_dividers (compute t area)))
    \<and> (\<not> snd (set_divider_at area dv x y t) \<longrightarrow> fst (set_divider_at area dv x y t) = t)
    \<and> (\<forall>d s. split_area area dv t = Some (d, s) \<and> pointer_in_band d s x y \<longrightarrow>
         under_pointer d s x y \<in> dv_rect ` set (lo_dividers (compute (fst (set_divider_at area dv x y t)) area)))"
  using set_divider_found [of area dv x y t] split_area_drawn [of area dv t]
    set_divider_missed [of area dv x y t] drag_lands [OF assms] by blast

lemma drag_example:
  "split_area (Rect 0 0 81 24) (Rect 40 0 1 24) (Split Horizontal (Fin (1 / 2)) (Leaf (PaneId 1)) (Leaf (PaneId 2)))
     = Some (Horizontal, Rect 0 0 81 24)"
proof -
  have "share 80 (Fin (1 / 2)) = 40" by code_simp
  then show ?thesis by simp
qed

theorem drag_follows_pointer_witness:
  "Rect 20 0 1 24 \<in> dv_rect ` set (lo_dividers (compute (fst (set_divider_at (Rect 0 0 81 24) (Rect 40 0 1 24) 20 5
     (Split Horizontal (Fin (1 / 2)) (Leaf (PaneId 1)) (Leaf (PaneId 2))))) (Rect 0 0 81 24)))"
proof -
  have f: "fits (Rect 0 0 81 24)" by (simp add: fits_def)
  have p: "pointer_in_band Horizontal (Rect 0 0 81 24) 20 5" by (simp add: in_band_def)
  show ?thesis
    using drag_follows_pointer [OF f, THEN conjunct2, THEN conjunct2, rule_format, OF conjI [OF drag_example p]]
    by (simp only: under_pointer.simps Rect_sel)
qed

section \<open>Resizing\<close>

text \<open>The ancestors of a pane, nearest first, as the orientations of their splits.\<close>

fun ancestors :: "pane_id \<Rightarrow> layout_node \<Rightarrow> split_dir list" where
  "ancestors i (Leaf p) = []"
| "ancestors i (Split d r a b) = (if i \<in> set (pane_ids a) then ancestors i a else ancestors i b) @ [d]"

text \<open>The ratio of the nearest ancestor with orientation \<open>o\<close>.\<close>

fun ratio_above :: "pane_id \<Rightarrow> split_dir \<Rightarrow> layout_node \<Rightarrow> f32 option" where
  "ratio_above i ori (Leaf p) = None"
| "ratio_above i ori (Split d r a b) =
     (case (if i \<in> set (pane_ids a) then ratio_above i ori a else ratio_above i ori b) of
        Some q \<Rightarrow> Some q
      | None \<Rightarrow> if d = ori then Some r else None)"

lemma resize_inner_ids [simp]: "pane_ids (fst (resize_inner i ori delta t)) = pane_ids t"
  by (induction t) (auto simp: Let_def split_beta)

lemma resize_inner_result:
  "snd (resize_inner i ori delta t) =
     (if i \<notin> set (pane_ids t) then Absent else if ori \<in> set (ancestors i t) then Handled else Found)"
  by (induction t) (auto simp: Let_def split_beta)

lemma ratio_above_iff: "i \<in> set (pane_ids t) \<Longrightarrow> ratio_above i ori t \<noteq> None \<longleftrightarrow> ori \<in> set (ancestors i t)"
  by (induction t) (auto split: option.splits)

lemma resize_inner_absent: "i \<notin> set (pane_ids t) \<Longrightarrow> fst (resize_inner i ori delta t) = t"
  by (induction t) (auto simp: Let_def split_beta resize_inner_result)

lemma resize_inner_unmatched: "ori \<notin> set (ancestors i t) \<Longrightarrow> fst (resize_inner i ori delta t) = t"
  by (induction t) (auto simp: Let_def split_beta resize_inner_result resize_inner_absent split: if_splits)

lemma resize_inner_ratio:
  "i \<in> set (pane_ids t) \<Longrightarrow> ratio_above i ori (fst (resize_inner i ori delta t)) =
     map_option (\<lambda>r. ratio_clamp (f32_add r delta)) (ratio_above i ori t)"
proof (induction t)
  case (Split d r a b)
  show ?case
  proof (cases "i \<in> set (pane_ids a)")
    case True
    then show ?thesis using Split ratio_above_iff [of i a ori]
      by (auto simp: Let_def split_beta resize_inner_result resize_inner_unmatched split: option.splits)
  next
    case False
    then show ?thesis using Split ratio_above_iff [of i b ori]
      by (auto simp: Let_def split_beta resize_inner_result resize_inner_unmatched resize_inner_absent split: option.splits)
  qed
qed simp

text \<open>
  A resize succeeds exactly when the pane has an ancestor split of that orientation; then
  the nearest such ratio moves by the step, kept within one to nine tenths, and the panes
  stay as they were. Otherwise the tree is unchanged.
\<close>

theorem resize_moves_nearest_split:
  assumes "contains_pane i t"
  shows "(snd (resize_pane i ori delta t) \<longleftrightarrow> ratio_above i ori t \<noteq> None)
    \<and> ratio_above i ori (fst (resize_pane i ori delta t)) = map_option (\<lambda>r. ratio_clamp (f32_add r delta)) (ratio_above i ori t)
    \<and> pane_ids (fst (resize_pane i ori delta t)) = pane_ids t
    \<and> (ratio_above i ori t = None \<longrightarrow> fst (resize_pane i ori delta t) = t)"
  using assms ratio_above_iff [of i t ori] resize_inner_unmatched [of ori i t delta]
  by (auto simp: resize_pane_def split_beta resize_inner_result resize_inner_ratio contains_pane_iff)

theorem resize_moves_nearest_split_witness:
  "snd (resize_pane (PaneId 1) Horizontal (Fin (1 / 16)) (Split Horizontal (Fin (1 / 2)) (Leaf (PaneId 1)) (Leaf (PaneId 2))))"
  using resize_moves_nearest_split [of "PaneId 1" "Split Horizontal (Fin (1 / 2)) (Leaf (PaneId 1)) (Leaf (PaneId 2))" Horizontal "Fin (1 / 16)"]
  by simp

section \<open>Directional focus\<close>

text \<open>The candidates in a direction with their distance, in drawing order.\<close>

definition candidates :: "(pane_id \<times> rect) list \<Rightarrow> pane_id \<Rightarrow> rect \<Rightarrow> direction \<Rightarrow> (pane_id \<times> nat) list" where
  "candidates ps active a dir =
     map (\<lambda>(i, r). (i, snd (candidate dir a r))) (filter (\<lambda>(i, r). i \<noteq> active \<and> fst (candidate dir a r)) ps)"

fun nearest :: "(pane_id \<times> nat) list \<Rightarrow> (pane_id \<times> nat) option \<Rightarrow> (pane_id \<times> nat) option" where
  "nearest [] best = best"
| "nearest (c # cs) best = nearest cs (case best of None \<Rightarrow> Some c | Some b \<Rightarrow> if snd c < snd b then Some c else best)"

lemma neighbor_loop_nearest: "neighbor_loop ps active a dir best = nearest (candidates ps active a dir) best"
proof (induction ps arbitrary: best)
  case (Cons p ps)
  obtain i r where p: "p = (i, r)" by fastforce
  show ?case using Cons.IH by (simp add: p candidates_def Let_def split_beta split: option.splits)
qed (simp add: candidates_def)

lemma nearest_spec:
  "(nearest cs best = None \<longleftrightarrow> cs = [] \<and> best = None) \<and>
   (\<forall>c. nearest cs best = Some c \<longrightarrow> (c \<in> set cs \<or> best = Some c) \<and> (\<forall>d\<in>set cs. snd c \<le> snd d) \<and> (\<forall>b. best = Some b \<longrightarrow> snd c \<le> snd b))"
proof (induction cs arbitrary: best)
  case (Cons c cs)
  show ?case
    using Cons.IH [of "case best of None \<Rightarrow> Some c | Some b \<Rightarrow> if snd c < snd b then Some c else best"]
    by (cases best; cases c) (auto split: if_splits)
qed auto

text \<open>
  Moving the focus picks a pane that lies in that direction, overlaps the active one and
  is nearest to it; it stays put exactly when there is no such pane.
\<close>

theorem neighbor_is_nearest:
  assumes "find (\<lambda>(p, _). p = active) panes = Some (q, a)"
  shows "(neighbor panes active dir = None \<longleftrightarrow> candidates panes active a dir = [])
    \<and> (\<forall>i. neighbor panes active dir = Some i \<longrightarrow>
        (\<exists>dist. (i, dist) \<in> set (candidates panes active a dir) \<and> (\<forall>c\<in>set (candidates panes active a dir). dist \<le> snd c)))"
  using nearest_spec [of "candidates panes active a dir" None]
  by (auto simp: neighbor_def assms neighbor_loop_nearest)

theorem neighbor_is_nearest_witness:
  "neighbor [(PaneId 1, Rect 0 0 40 24), (PaneId 2, Rect 41 0 40 24)] (PaneId 2) DirRight = None"
  using neighbor_is_nearest [of "PaneId 2" "[(PaneId 1, Rect 0 0 40 24), (PaneId 2, Rect 41 0 40 24)]" "PaneId 2" "Rect 41 0 40 24" DirRight]
  by (simp add: candidates_def right_def)

section \<open>The overview\<close>

definition tile_cover :: "rect list \<Rightarrow> nat \<Rightarrow> nat \<Rightarrow> nat" where
  "tile_cover rs x y = sum_list (map (\<lambda>r. cell r x y) rs)"

lemma tile_cover_simps [simp]:
  "tile_cover [] x y = 0"
  "tile_cover (r # rs) x y = cell r x y + tile_cover rs x y"
  "tile_cover (rs @ ss) x y = tile_cover rs x y + tile_cover ss x y"
  by (simp_all add: tile_cover_def)

lemma cell_beside:
  "x0 + (v + w) < 65536 \<Longrightarrow> y0 + h < 65536 \<Longrightarrow>
     cell (Rect x0 y0 v h) x y + cell (Rect (x0 + v) y0 w h) x y = cell (Rect x0 y0 (v + w) h) x y"
  by (auto simp: cell_fits fits_def)

lemma cell_below:
  "x0 + w < 65536 \<Longrightarrow> y0 + (g + h) < 65536 \<Longrightarrow>
     cell (Rect x0 y0 w g) x y + cell (Rect x0 (y0 + g) w h) x y = cell (Rect x0 y0 w (g + h)) x y"
  by (auto simp: cell_fits fits_def)

lemma overview_row_length: "length (overview_row k c i n x y cw h) = min k (n - i)"
  by (induction k c i n x y cw h rule: overview_row.induct) auto

lemma overview_row_cover:
  "x0 + (\<Sum>j<k. cw (c + j)) < 65536 \<Longrightarrow> y0 + h < 65536 \<Longrightarrow>
     tile_cover (overview_row k c i n x0 y0 cw h) x y \<le> cell (Rect x0 y0 (\<Sum>j<k. cw (c + j)) h) x y
     \<and> (i + k \<le> n \<longrightarrow> tile_cover (overview_row k c i n x0 y0 cw h) x y = cell (Rect x0 y0 (\<Sum>j<k. cw (c + j)) h) x y)"
proof (induction k arbitrary: c i x0)
  case 0
  then show ?case by (simp add: cell_def rect_contains_def right_def)
next
  case (Suc k)
  have s: "(\<Sum>j<Suc k. cw (c + j)) = cw c + (\<Sum>j<k. cw (Suc c + j))" by (simp add: sum.lessThan_Suc_shift del: sum.lessThan_Suc)
  have b: "x0 + cw c + (\<Sum>j<k. cw (Suc c + j)) < 65536" using Suc.prems(1) s by simp
  show ?case unfolding s
    using Suc.IH [of "x0 + cw c" "Suc c" "Suc i"] b Suc.prems(2) cell_beside [of x0 "cw c" "\<Sum>j<k. cw (Suc c + j)" y0 h x y]
    by auto
qed

lemma overview_rows_length: "length (overview_rows k r i n cols x0 y cw hs) = min (k * cols) (n - i)"
  by (induction k r i n cols x0 y cw hs rule: overview_rows.induct) (auto simp: Let_def overview_row_length min_def)

lemma overview_rows_cover:
  assumes w: "x0 + (\<Sum>j<cols. cw j) < 65536"
  shows "y0 + (\<Sum>j<k. hs (r + j)) < 65536 \<Longrightarrow>
     tile_cover (overview_rows k r i n cols x0 y0 cw hs) x y \<le> cell (Rect x0 y0 (\<Sum>j<cols. cw j) (\<Sum>j<k. hs (r + j))) x y
     \<and> (i + k * cols \<le> n \<longrightarrow>
         tile_cover (overview_rows k r i n cols x0 y0 cw hs) x y = cell (Rect x0 y0 (\<Sum>j<cols. cw j) (\<Sum>j<k. hs (r + j))) x y)"
proof (induction k arbitrary: r i y0)
  case 0
  then show ?case by (simp add: cell_def rect_contains_def bottom_def)
next
  case (Suc k)
  let ?W = "\<Sum>j<cols. cw j" and ?H = "\<Sum>j<k. hs (Suc r + j)"
  let ?row = "overview_row cols 0 i n x0 y0 cw (hs r)"
  have s: "(\<Sum>j<Suc k. hs (r + j)) = hs r + ?H" by (simp add: sum.lessThan_Suc_shift del: sum.lessThan_Suc)
  have b: "y0 + (hs r + ?H) < 65536" using Suc.prems s by simp
  then have y: "wrap16 (y0 + hs r) = y0 + hs r" by simp
  have row: "tile_cover ?row x y \<le> cell (Rect x0 y0 ?W (hs r)) x y"
    "i + cols \<le> n \<Longrightarrow> tile_cover ?row x y = cell (Rect x0 y0 ?W (hs r)) x y"
    using overview_row_cover [where ?x0.0 = x0 and k = cols and cw = cw and c = 0 and ?y0.0 = y0 and h = "hs r" and i = i and n = n and x = x and y = y] w b by simp_all
  have l: "i + Suc k * cols \<le> n \<Longrightarrow> i + cols \<le> n \<and> i + length ?row + k * cols \<le> n"
    by (simp add: overview_row_length)
  show ?case
    unfolding overview_rows.simps Let_def tile_cover_simps y s cell_below [OF w b, symmetric]
    using Suc.IH [of "y0 + hs r" "Suc r" "i + length ?row"] b row l by (auto intro: add_mono)
qed

lemma sum_spread: "x \<le> c \<Longrightarrow> (\<Sum>j<c. b + (if j < x then 1 else 0)) = b * c + (x :: nat)"
proof -
  assume "x \<le> c"
  then have "{j. j < c \<and> j < x} = {..<x}" by auto
  then show ?thesis by (simp add: sum.distrib sum.If_cases lessThan_def Int_def Collect_conj_eq [symmetric] mult.commute)
qed

lemma overview_cols_from_least:
  "0 < c \<Longrightarrow> n \<le> overview_cols_from c n * overview_cols_from c n \<and> c \<le> overview_cols_from c n
     \<and> (overview_cols_from c n = c \<or> (overview_cols_from c n - 1) * (overview_cols_from c n - 1) < n)"
proof (induction c n rule: overview_cols_from.induct)
  case (1 c n)
  show ?case
  proof (cases "c * c < n")
    case True
    then have e: "overview_cols_from c n = overview_cols_from (c + 1) n" by (simp add: overview_cols_from.simps [of c])
    show ?thesis using 1(1) [OF True] True unfolding e by auto
  qed (simp add: overview_cols_from.simps [of c])
qed

lemma overview_cols_bounds:
  assumes "0 < n" and "n \<le> 65535 * 65535"
  shows "0 < overview_cols n" and "overview_cols n < 65536" and "n \<le> overview_cols n * overview_cols n"
proof -
  note c = overview_cols_from_least [of 1 n]
  show "0 < overview_cols n" "n \<le> overview_cols n * overview_cols n" using c by (simp_all add: overview_cols_def)
  show "overview_cols n < 65536"
  proof (rule ccontr)
    assume "\<not> overview_cols n < 65536"
    then have "65535 * 65535 \<le> (overview_cols n - 1) * (overview_cols n - 1)" by (intro mult_le_mono) simp_all
    moreover have "(overview_cols n - 1) * (overview_cols n - 1) < n" using c \<open>\<not> overview_cols n < 65536\<close> by (simp add: overview_cols_def)
    ultimately show False using assms(2) by linarith
  qed
qed

text \<open>
  The overview never divides by a wrapped zero for any number of windows up to 65535
  squared; it gives one tile per window, never two tiles on one cell and none outside the
  area, and fills the area exactly when the last row is full.
\<close>

theorem overview_tiles_exact:
  assumes "fits area" and "0 < rw area" and "0 < rh area" and "0 < n" and "n \<le> 65535 * 65535"
  shows "\<exists>tiles. overview_tiles area n = Some tiles \<and> length tiles = n
    \<and> tile_cover tiles x y \<le> (if rect_contains area x y then 1 else 0)
    \<and> (overview_cols n dvd n \<longrightarrow> tile_cover tiles x y = (if rect_contains area x y then 1 else 0))"
proof -
  let ?c = "overview_cols n"
  define rows where "rows = (n + ?c - 1) div ?c"
  note c = overview_cols_bounds [OF assms(4,5)]
  have up: "n \<le> rows * ?c" and r0: "0 < rows"
    using c(1) assms(4) dividend_less_times_div [of ?c "n + ?c - 1"] by (auto simp: rows_def div_greater_zero_iff mult.commute)
  have "(n + ?c - 1) div ?c < ?c + 1" using c by (intro less_mult_imp_div_less) (simp add: algebra_simps)
  then have r1: "rows < 65536" using c(2) by (simp add: rows_def)
  let ?cw = "\<lambda>j. rw area div ?c + (if j < rw area mod ?c then 1 else 0)"
  let ?hs = "\<lambda>j. rh area div rows + (if j < rh area mod rows then 1 else 0)"
  have W: "(\<Sum>j<?c. ?cw j) = rw area" using c(1) by (subst sum_spread) simp_all
  have H: "(\<Sum>j<rows. ?hs (0 + j)) = rh area" unfolding add_0_left using r0 by (subst sum_spread) simp_all
  let ?t = "overview_rows rows 0 0 n ?c (rx area) (ry area) ?cw ?hs"
  have t: "overview_tiles area n = Some ?t"
    unfolding overview_tiles_def Let_def rows_def [symmetric] using assms c r0 r1 by simp
  have area: "Rect (rx area) (ry area) (rw area) (rh area) = area" by (simp add: Rect_def)
  have cov: "tile_cover ?t x y \<le> cell area x y \<and> (0 + rows * ?c \<le> n \<longrightarrow> tile_cover ?t x y = cell area x y)"
    using overview_rows_cover [where ?x0.0 = "rx area" and cols = ?c and cw = ?cw and ?y0.0 = "ry area" and k = rows and hs = ?hs and r = 0 and i = 0 and n = n and x = x and y = y] assms(1)
    unfolding W H area fits_def by blast
  have "?c dvd n \<Longrightarrow> rows * ?c \<le> n"
  proof -
    assume "?c dvd n"
    then obtain k where k: "n = ?c * k" by (rule dvdE)
    have "rows = k" unfolding rows_def using k c(1) by (metis Suc_pred' add_diff_assoc c(1) diff_less div_mult_self2 div_less add.commute less_one linorder_not_less nat_neq_iff plus_nat.add_0 zero_less_iff_neq_zero)
    then show ?thesis using k by (metis mult.commute order_refl)
  qed
  then show ?thesis using t cov up overview_rows_length [of rows 0 0 n ?c] by (auto simp: cell_def)
qed

theorem overview_tiles_exact_witness:
  "\<exists>tiles. overview_tiles (Rect 0 0 80 24) 4 = Some tiles \<and> length tiles = 4 \<and> tile_cover tiles 79 23 = 1"
proof -
  have c: "overview_cols 4 = 2" by (simp add: overview_cols_def overview_cols_from.simps)
  have "fits (Rect 0 0 80 24)" "rect_contains (Rect 0 0 80 24) 79 23"
    by (simp_all add: fits_def rect_contains_def right_def bottom_def)
  then show ?thesis using overview_tiles_exact [of "Rect 0 0 80 24" 4 79 23] c by auto
qed

end
