(* ===== verification/Grid.thy ===== *)
theory Grid
  imports Utf8
begin

text \<open>
  The terminal grid, \<^verbatim>\<open>crates/uniterm-core/src/grid.rs\<close>: cells and their attributes, the
  arenas behind grapheme, underline-colour and hyperlink handles, editing of rows with wide
  glyphs, scrolling with a bounded history, and damage. Columns, rows, widths and handles are
  natural numbers; a visible row and column is always indexed under the guards of the source,
  which \<open>grid_wf\<close> makes sufficient. The Unicode tables are parameters: \<open>sw\<close> is the display width
  of a string, \<open>cw\<close> of a character, and \<open>gc\<close> counts grapheme clusters.
\<close>

section \<open>Cells\<close>

datatype color = ColorDefault | Idx nat | Rgb nat nat nat

type_synonym attrs = u16

datatype underline_style = UlNone | UlSingle | UlDouble | UlCurly | UlDotted | UlDashed

unbundle bit_operations_syntax

definition UNDERLINE_STYLE_MASK :: u16 where
  "UNDERLINE_STYLE_MASK = push_bit 1 1 OR push_bit 8 1 OR push_bit 9 1"

definition attrs_underline_style :: "attrs \<Rightarrow> underline_style" where
  "attrs_underline_style a =
     (let encoded = (drop_bit 1 a AND 1) OR (drop_bit 7 a AND 2) OR (drop_bit 7 a AND 4)
      in if encoded = 1 then UlSingle else if encoded = 2 then UlDouble else if encoded = 3 then UlCurly
         else if encoded = 4 then UlDotted else if encoded = 5 then UlDashed else UlNone)"

fun underline_code :: "underline_style \<Rightarrow> u16" where
  "underline_code UlNone = 0"
| "underline_code UlSingle = 1"
| "underline_code UlDouble = 2"
| "underline_code UlCurly = 3"
| "underline_code UlDotted = 4"
| "underline_code UlDashed = 5"

definition set_underline_style :: "underline_style \<Rightarrow> attrs \<Rightarrow> attrs" where
  "set_underline_style style a =
     (let encoded = underline_code style;
          a0 = a AND NOT UNDERLINE_STYLE_MASK;
          a1 = a0 OR push_bit 1 (encoded AND 1);
          a2 = a1 OR push_bit 7 (encoded AND 2)
      in a2 OR push_bit 7 (encoded AND 4))"

record cell =
  ch :: rchar
  fg :: color
  bg :: color
  attrs :: attrs
  width :: nat
  ucolor :: nat
  cluster :: nat
  link :: nat

definition is_continuation :: "cell \<Rightarrow> bool" where
  "is_continuation c \<longleftrightarrow> width c = 0"

definition display_width :: "cell \<Rightarrow> nat" where
  "display_width c = (if is_continuation c then 0 else max (width c) 1)"

definition cell_default :: cell where
  "cell_default = \<lparr>ch = 32, fg = ColorDefault, bg = ColorDefault, attrs = 0, width = 1, ucolor = 0, cluster = 0, link = 0\<rparr>"

record stored_cell =
  st_text :: str
  st_fg :: color
  st_bg :: color
  st_attrs :: attrs
  st_underline :: color
  st_width :: nat
  st_continuation :: bool

record stored_line =
  sl_cells :: "stored_cell list"
  sl_wrapped :: bool

record line =
  cells :: "cell list"
  wrapped :: bool
  line_no :: nat

definition line_blank :: "nat \<Rightarrow> cell \<Rightarrow> nat \<Rightarrow> line" where
  "line_blank w c i = \<lparr>cells = replicate w c, wrapped = False, line_no = i\<rparr>"

text \<open>\<^verbatim>\<open>rposition\<close> plus one, or zero: the length of a prefix that ends with the last match.\<close>

definition keep_len :: "('a \<Rightarrow> bool) \<Rightarrow> 'a list \<Rightarrow> nat" where
  "keep_len P xs = length (dropWhile (\<lambda>x. \<not> P x) (rev xs))"

definition trim_default_tail :: "line \<Rightarrow> line" where
  "trim_default_tail l =
     (if wrapped l then l
      else (let keep = keep_len (\<lambda>c. c \<noteq> cell_default) (cells l)
            in if keep < length (cells l) then l\<lparr>cells := take keep (cells l)\<rparr> else l))"

section \<open>The grid\<close>

record row_damage =
  dirty :: bool
  lo :: nat
  hi :: nat

definition clean :: row_damage where
  "clean = \<lparr>dirty = False, lo = 0, hi = 0\<rparr>"

record grid =
  gw :: nat
  gh :: nat
  rows :: "line list"
  damage :: "row_damage list"
  any_damage :: bool
  pending_scroll_up :: nat
  scrollback :: "line list"
  scrollback_limit :: nat
  clusters :: "str list"
  cluster_gc_at :: nat
  hyperlinks :: "(nat \<times> str) list"
  hyperlink_gc_at :: nat
  next_hyperlink :: nat
  underline_colors :: "color list"
  next_line_id :: nat

definition grid_new :: "nat \<Rightarrow> nat \<Rightarrow> grid" where
  "grid_new w h =
     \<lparr>gw = w, gh = h, rows = map (\<lambda>i. line_blank w cell_default (i + 1)) [0..<h],
      damage = replicate h clean, any_damage = False, pending_scroll_up = 0,
      scrollback = [], scrollback_limit = 10000, clusters = [[]], cluster_gc_at = 4096,
      hyperlinks = [], hyperlink_gc_at = 4096, next_hyperlink = 1, underline_colors = [ColorDefault],
      next_line_id = h + 1\<rparr>"

text \<open>A history longer than the limit loses its oldest lines.\<close>

definition evict :: "nat \<Rightarrow> 'a list \<Rightarrow> 'a list" where
  "evict limit ls = drop (length ls - limit) ls"

definition set_scrollback_limit :: "nat \<Rightarrow> grid \<Rightarrow> grid" where
  "set_scrollback_limit limit g = g\<lparr>scrollback_limit := limit, scrollback := evict limit (scrollback g)\<rparr>"

definition clear_scrollback :: "grid \<Rightarrow> grid" where
  "clear_scrollback g = g\<lparr>scrollback := []\<rparr>"

definition total_lines :: "grid \<Rightarrow> nat" where
  "total_lines g = length (scrollback g) + gh g"

definition retained_cell_count :: "grid \<Rightarrow> nat" where
  "retained_cell_count g = sum_list (map (\<lambda>l. length (cells l)) (scrollback g @ rows g))"

definition line_at :: "grid \<Rightarrow> nat \<Rightarrow> line option" where
  "line_at g n =
     (if n < length (scrollback g) then Some (scrollback g ! n)
      else (let k = n - length (scrollback g) in if k < length (rows g) then Some (rows g ! k) else None))"

definition first_line_id :: "grid \<Rightarrow> nat option" where
  "first_line_id g =
     (case scrollback g of
        l # _ \<Rightarrow> Some (line_no l)
      | [] \<Rightarrow> (case rows g of l # _ \<Rightarrow> Some (line_no l) | [] \<Rightarrow> None))"

definition line_id :: "grid \<Rightarrow> nat \<Rightarrow> nat option" where
  "line_id g n = map_option line_no (line_at g n)"

definition line_wrapped :: "grid \<Rightarrow> nat \<Rightarrow> bool" where
  "line_wrapped g n = (case line_at g n of Some l \<Rightarrow> wrapped l | None \<Rightarrow> False)"

definition set_row_wrapped :: "nat \<Rightarrow> bool \<Rightarrow> grid \<Rightarrow> grid" where
  "set_row_wrapped y b g =
     (if y < length (rows g) then g\<lparr>rows := (rows g)[y := (rows g ! y)\<lparr>wrapped := b\<rparr>]\<rparr> else g)"

definition line_cell :: "grid \<Rightarrow> nat \<Rightarrow> nat \<Rightarrow> cell" where
  "line_cell g n x =
     (case line_at g n of
        None \<Rightarrow> cell_default
      | Some l \<Rightarrow> if x < length (cells l) then cells l ! x else cell_default)"

definition gget :: "nat \<Rightarrow> nat \<Rightarrow> grid \<Rightarrow> cell" where
  "gget x y g = cells (rows g ! y) ! x"

section \<open>Arenas\<close>

definition list_get :: "'a list \<Rightarrow> nat \<Rightarrow> 'a option" where
  "list_get xs i = (if i < length xs then Some (xs ! i) else None)"

text \<open>U+FFFD, the replacement character.\<close>

definition REPLACEMENT :: rchar where
  "REPLACEMENT = 0xFFFD"

definition write_cell_text :: "grid \<Rightarrow> cell \<Rightarrow> byte list" where
  "write_cell_text g c =
     (if is_continuation c then []
      else if cluster c \<noteq> 0 then (case list_get (clusters g) (cluster c) of Some t \<Rightarrow> as_bytes t | None \<Rightarrow> [])
      else encode_utf8 (ch c))"

definition write_cell_display_text :: "(str \<Rightarrow> nat) \<Rightarrow> (rchar \<Rightarrow> nat option) \<Rightarrow> grid \<Rightarrow> cell \<Rightarrow> byte list" where
  "write_cell_display_text sw cw g c =
     (if is_continuation c then []
      else if cluster c \<noteq> 0 then
        (let t = (case list_get (clusters g) (cluster c) of Some t \<Rightarrow> t | None \<Rightarrow> [REPLACEMENT])
         in if width c = 1 \<and> sw t > 1 then as_bytes [REPLACEMENT] else as_bytes t)
      else if width c = 1 \<and> (case cw (ch c) of Some w \<Rightarrow> w | None \<Rightarrow> 0) > 1 then as_bytes [REPLACEMENT]
      else encode_utf8 (ch c))"

definition cell_text_owned :: "str list \<Rightarrow> cell \<Rightarrow> str" where
  "cell_text_owned cl c =
     (if is_continuation c then []
      else if cluster c \<noteq> 0 then (case list_get cl (cluster c) of Some t \<Rightarrow> t | None \<Rightarrow> [REPLACEMENT])
      else [ch c])"

definition underline_color :: "color list \<Rightarrow> nat \<Rightarrow> color" where
  "underline_color us h = (case list_get us h of Some c \<Rightarrow> c | None \<Rightarrow> ColorDefault)"

definition hyperlink :: "(nat \<times> str) list \<Rightarrow> nat \<Rightarrow> str option" where
  "hyperlink hs h = (if h \<noteq> 0 then map_of hs h else None)"

text \<open>
  Compaction rebuilds an arena from the handles in use. Its state is the new arena with the
  table from values to new handles; a handle that the old arena does not hold gives \<open>None\<close>.
\<close>

type_synonym 'a rebuilt = "'a list \<times> ('a \<times> nat) list"

definition relabel :: "'a list \<Rightarrow> nat \<Rightarrow> 'a rebuilt \<Rightarrow> nat option \<times> 'a rebuilt" where
  "relabel old h s =
     (case list_get old h of
        None \<Rightarrow> (None, s)
      | Some v \<Rightarrow>
          (case map_of (snd s) v of
             Some k \<Rightarrow> (Some k, s)
           | None \<Rightarrow> (Some (length (fst s)), (fst s @ [v], (v, length (fst s)) # snd s))))"

primrec map_state :: "('a \<Rightarrow> 's \<Rightarrow> 'b \<times> 's) \<Rightarrow> 'a list \<Rightarrow> 's \<Rightarrow> 'b list \<times> 's" where
  "map_state f [] s = ([], s)"
| "map_state f (x # xs) s = (let (y, s1) = f x s; (ys, s2) = map_state f xs s1 in (y # ys, s2))"

definition map_cells :: "(cell \<Rightarrow> 's \<Rightarrow> cell \<times> 's) \<Rightarrow> line list \<Rightarrow> 's \<Rightarrow> line list \<times> 's" where
  "map_cells f = map_state (\<lambda>l s. let (cs, s1) = map_state f (cells l) s in (l\<lparr>cells := cs\<rparr>, s1))"

definition compact_cluster_cell :: "str list \<Rightarrow> cell \<Rightarrow> str rebuilt \<Rightarrow> cell \<times> str rebuilt" where
  "compact_cluster_cell old c s =
     (if cluster c = 0 then (c, s)
      else (case relabel old (cluster c) s of
              (None, s1) \<Rightarrow> (c\<lparr>cluster := 0, ch := REPLACEMENT\<rparr>, s1)
            | (Some k, s1) \<Rightarrow> (c\<lparr>cluster := k\<rparr>, s1)))"

definition compact_clusters :: "grid \<Rightarrow> grid" where
  "compact_clusters g =
     (let (sb, s1) = map_cells (compact_cluster_cell (clusters g)) (scrollback g) ([[]], []);
          (ls, s2) = map_cells (compact_cluster_cell (clusters g)) (rows g) s1
      in g\<lparr>scrollback := sb, rows := ls, clusters := fst s2, cluster_gc_at := max (length (fst s2) * 2) 4096\<rparr>)"

definition compact_color_cell :: "color list \<Rightarrow> cell \<Rightarrow> color rebuilt \<Rightarrow> cell \<times> color rebuilt" where
  "compact_color_cell old c s =
     (if ucolor c = 0 then (c, s)
      else (case relabel old (ucolor c) s of
              (None, s1) \<Rightarrow> (c\<lparr>ucolor := 0\<rparr>, s1)
            | (Some k, s1) \<Rightarrow> (c\<lparr>ucolor := k\<rparr>, s1)))"

definition compact_underline_colors :: "grid \<Rightarrow> grid" where
  "compact_underline_colors g =
     (let (sb, s1) = map_cells (compact_color_cell (underline_colors g)) (scrollback g) ([ColorDefault], []);
          (ls, s2) = map_cells (compact_color_cell (underline_colors g)) (rows g) s1
      in g\<lparr>scrollback := sb, rows := ls, underline_colors := fst s2\<rparr>)"

definition compact_hyperlinks :: "grid \<Rightarrow> grid" where
  "compact_hyperlinks g =
     (let used = concat (map (\<lambda>l. filter (\<lambda>h. h \<noteq> 0) (map link (cells l))) (scrollback g @ rows g));
          hs = filter (\<lambda>(h, _). h \<in> set used) (hyperlinks g)
      in g\<lparr>hyperlinks := hs, hyperlink_gc_at := max (length hs * 2) 4096\<rparr>)"

text \<open>Interning looks only at the newest 64 graphemes before it adds one.\<close>

definition intern_found :: "str \<Rightarrow> str list \<Rightarrow> nat option" where
  "intern_found t cl =
     (case position (\<lambda>e. e = t) (take 64 (rev cl)) of None \<Rightarrow> None | Some k \<Rightarrow> Some (length cl - 1 - k))"

definition intern :: "str \<Rightarrow> grid \<Rightarrow> nat \<times> grid" where
  "intern t g =
     (case intern_found t (clusters g) of
        Some i \<Rightarrow> (i, g)
      | None \<Rightarrow>
          (let g1 = (if length (clusters g) \<ge> cluster_gc_at g then compact_clusters g else g)
           in (length (clusters g1), g1\<lparr>clusters := clusters g1 @ [t]\<rparr>)))"

definition intern_underline_color :: "color \<Rightarrow> grid \<Rightarrow> nat \<times> grid" where
  "intern_underline_color c g =
     (if c = ColorDefault then (0, g)
      else case position (\<lambda>e. e = c) (underline_colors g) of
        Some i \<Rightarrow> (i, g)
      | None \<Rightarrow>
          (if length (underline_colors g) = 256 then
             (let g1 = compact_underline_colors g
              in case position (\<lambda>e. e = c) (underline_colors g1) of
                   Some i \<Rightarrow> (i, g1)
                 | None \<Rightarrow>
                     if length (underline_colors g1) = 256 then (0, g1)
                     else (length (underline_colors g1), g1\<lparr>underline_colors := underline_colors g1 @ [c]\<rparr>))
           else (length (underline_colors g), g\<lparr>underline_colors := underline_colors g @ [c]\<rparr>)))"

text \<open>The search for a free 32-bit handle; it would not end if every handle were in use.\<close>

definition next_candidate :: "nat \<Rightarrow> nat" where
  "next_candidate c = max ((c + 1) mod 2 ^ 32) 1"

partial_function (option) free_handle :: "(nat \<times> str) list \<Rightarrow> nat \<Rightarrow> (nat \<times> nat) option" where
  "free_handle hs n =
     (let c = max n 1
      in if map_of hs c = None then Some (c, next_candidate c) else free_handle hs (next_candidate c))"

definition intern_hyperlink :: "str \<Rightarrow> grid \<Rightarrow> (nat \<times> grid) option" where
  "intern_hyperlink uri g =
     (if uri = [] \<or> str_len uri > 8192 \<or> list_ex is_control uri then Some (0, g)
      else case find (\<lambda>(_, v). v = uri) (hyperlinks g) of
        Some (h, _) \<Rightarrow> Some (h, g)
      | None \<Rightarrow>
          (let g1 = (if length (hyperlinks g) \<ge> hyperlink_gc_at g then compact_hyperlinks g else g)
           in case free_handle (hyperlinks g1) (next_hyperlink g1) of
                None \<Rightarrow> None
              | Some (h, nx) \<Rightarrow> Some (h, g1\<lparr>next_hyperlink := nx, hyperlinks := (h, uri) # hyperlinks g1\<rparr>)))"

section \<open>Editing\<close>

definition mark_damage :: "nat \<Rightarrow> nat \<Rightarrow> grid \<Rightarrow> grid" where
  "mark_damage x y g =
     (let r = damage g ! y
      in g\<lparr>damage := (damage g)[y :=
             (if dirty r then r\<lparr>lo := min (lo r) x, hi := max (hi r) x\<rparr> else r\<lparr>dirty := True, lo := x, hi := x\<rparr>)],
           any_damage := True\<rparr>)"

definition gset :: "nat \<Rightarrow> nat \<Rightarrow> cell \<Rightarrow> grid \<Rightarrow> grid" where
  "gset x y c g =
     (if x \<ge> gw g \<or> y \<ge> gh g then g
      else if gget x y g = c then g
      else mark_damage x y
        (g\<lparr>rows := (rows g)[y := (rows g ! y)\<lparr>cells := (cells (rows g ! y))[x := c]\<rparr>]\<rparr>))"

definition clear_glyph_at :: "nat \<Rightarrow> nat \<Rightarrow> cell \<Rightarrow> grid \<Rightarrow> grid" where
  "clear_glyph_at x y blank g =
     (if x \<ge> gw g \<or> y \<ge> gh g then g
      else
        (let c = gget x y g
         in if is_continuation c \<and> x > 0 then gset x y blank (gset (x - 1) y blank g)
            else (let g1 = gset x y blank g
                  in if width c = 2 \<and> x + 1 < gw g then gset (x + 1) y blank g1 else g1)))"

function erase_loop :: "nat \<Rightarrow> nat \<Rightarrow> nat \<Rightarrow> cell \<Rightarrow> grid \<Rightarrow> grid" where
  "erase_loop x y stop blank g =
     (if x < stop
      then erase_loop (x + max (display_width (gget x y g)) 1) y stop blank (clear_glyph_at x y blank g)
      else g)"
  by pat_completeness auto

termination erase_loop
  by (relation "measure (\<lambda>(x, y, stop, blank, g). stop - x)") auto

declare erase_loop.simps [simp del]

definition erase_cells :: "nat \<Rightarrow> nat \<Rightarrow> nat \<Rightarrow> cell \<Rightarrow> grid \<Rightarrow> grid" where
  "erase_cells y start stop blank g =
     (if y \<ge> gh g then g else erase_loop (min start (gw g)) y (min stop (gw g)) blank g)"

text \<open>The loop over the columns of a row that wide glyphs were cut from.\<close>

definition repair_step :: "nat \<Rightarrow> cell \<Rightarrow> nat \<Rightarrow> grid \<Rightarrow> grid" where
  "repair_step y blank x g =
     (let c = gget x y g
      in if is_continuation c then
           (if x > 0 \<and> width (gget (x - 1) y g) = 2 then g else gset x y blank g)
         else if width c = 2 then
           (if x + 1 < gw g \<and> is_continuation (gget (x + 1) y g) then g else gset x y blank g)
         else g)"

definition repair_wide_row :: "nat \<Rightarrow> cell \<Rightarrow> grid \<Rightarrow> grid" where
  "repair_wide_row y blank g = fold (repair_step y blank) [0..<gw g] g"

definition delete_cells :: "nat \<Rightarrow> nat \<Rightarrow> nat \<Rightarrow> cell \<Rightarrow> grid \<Rightarrow> grid" where
  "delete_cells y start n0 blank g =
     (if y \<ge> gh g \<or> start \<ge> gw g \<or> n0 = 0 then g
      else
        (let n = min n0 (gw g - start)
         in repair_wide_row y blank
              (fold (\<lambda>x h. gset x y (if x + n < gw h then gget (x + n) y h else blank) h) [start..<gw g] g)))"

definition insert_cells :: "nat \<Rightarrow> nat \<Rightarrow> nat \<Rightarrow> cell \<Rightarrow> grid \<Rightarrow> grid" where
  "insert_cells y start n0 blank g =
     (if y \<ge> gh g \<or> start \<ge> gw g \<or> n0 = 0 then g
      else
        (let n = min n0 (gw g - start)
         in repair_wide_row y blank
              (fold (\<lambda>x h. gset x y (if x \<ge> start + n then gget (x - n) y h else blank) h) (rev [start..<gw g]) g)))"

definition blank_like :: "cell \<Rightarrow> cell" where
  "blank_like c = cell_default\<lparr>fg := fg c, bg := bg c\<rparr>"

definition continuation_of :: "cell \<Rightarrow> cell" where
  "continuation_of c = c\<lparr>ch := 32, width := 0, cluster := 0\<rparr>"

definition set_grapheme :: "nat \<Rightarrow> nat \<Rightarrow> str \<Rightarrow> cell \<Rightarrow> nat \<Rightarrow> grid \<Rightarrow> grid" where
  "set_grapheme x y t c w0 g =
     (if x \<ge> gw g \<or> y \<ge> gh g then g
      else
        (let w = max 1 (min 2 w0)
         in if w = 2 \<and> x + 1 \<ge> gw g then g
            else
              (let g1 = clear_glyph_at x y (blank_like c) g;
                   g2 = (if w = 2 then clear_glyph_at (x + 1) y (blank_like c) g1 else g1);
                   (k, g3) = (if length t > 1 then intern t g2 else (0, g2));
                   lead = c\<lparr>ch := (case t of [] \<Rightarrow> 32 | t0 # _ \<Rightarrow> t0), width := w, cluster := k\<rparr>;
                   g4 = gset x y lead g3
               in if w = 2 then gset (x + 1) y (continuation_of lead) g4 else g4)))"

definition grapheme_extends :: "(str \<Rightarrow> nat) \<Rightarrow> cell \<Rightarrow> rchar \<Rightarrow> grid \<Rightarrow> bool" where
  "grapheme_extends gc c r g \<longleftrightarrow> \<not> is_continuation c \<and> gc (cell_text_owned (clusters g) c @ [r]) = 1"

definition append_to_grapheme :: "(str \<Rightarrow> nat) \<Rightarrow> (str \<Rightarrow> nat) \<Rightarrow> nat \<Rightarrow> nat \<Rightarrow> rchar \<Rightarrow> grid \<Rightarrow> grid \<times> bool" where
  "append_to_grapheme sw gc x y r g =
     (if x \<ge> gw g \<or> y \<ge> gh g then (g, False)
      else
        (let lx = (if is_continuation (gget x y g) \<and> x > 0 then x - 1 else x);
             c = gget lx y g
         in if \<not> grapheme_extends gc c r g then (g, False)
            else (let t = cell_text_owned (clusters g) c @ [r]
                  in (set_grapheme lx y t c (max 1 (min 2 (sw t))) g, True))))"

section \<open>Scrolling\<close>

definition mark_rows_damaged :: "nat \<Rightarrow> nat \<Rightarrow> grid \<Rightarrow> grid" where
  "mark_rows_damaged rtop rbot g =
     (if gw g = 0 then g
      else g\<lparr>damage := fold (\<lambda>y d. d[y := \<lparr>dirty = True, lo = 0, hi = gw g - 1\<rparr>]) [rtop..<rbot + 1] (damage g),
             any_damage := True\<rparr>)"

definition mark_all_damaged :: "grid \<Rightarrow> grid" where
  "mark_all_damaged g =
     (if gw g = 0 \<or> gh g = 0 then g
      else g\<lparr>pending_scroll_up := 0,
             damage := map (\<lambda>_. \<lparr>dirty = True, lo = 0, hi = gw g - 1\<rparr>) (damage g), any_damage := True\<rparr>)"

definition clear_damage :: "grid \<Rightarrow> grid" where
  "clear_damage g =
     (if any_damage g
      then g\<lparr>damage := map (\<lambda>d. d\<lparr>dirty := False\<rparr>) (damage g), any_damage := False, pending_scroll_up := 0\<rparr>
      else g\<lparr>pending_scroll_up := 0\<rparr>)"

definition row_damage_at :: "nat \<Rightarrow> grid \<Rightarrow> (nat \<times> nat) option" where
  "row_damage_at y g = (let r = damage g ! y in if dirty r then Some (lo r, hi r) else None)"

definition push_scrollback :: "line \<Rightarrow> grid \<Rightarrow> grid" where
  "push_scrollback l g =
     (if scrollback_limit g = 0 then g
      else g\<lparr>scrollback := evict (scrollback_limit g) (scrollback g @ [l])\<rparr>)"

definition alloc_line_id :: "grid \<Rightarrow> nat \<times> grid" where
  "alloc_line_id g = (next_line_id g, g\<lparr>next_line_id := next_line_id g + 1\<rparr>)"

text \<open>\<open>pending_scroll_up\<close> is 16 bits wide, but capped by the height it never saturates.\<close>

definition scroll_up :: "cell \<Rightarrow> grid \<Rightarrow> grid" where
  "scroll_up blank g =
     (if gh g = 0 then g
      else
        (let replacement = line_blank (gw g) blank (next_line_id g);
             g1 = g\<lparr>next_line_id := next_line_id g + 1, rows := tl (rows g)\<rparr>;
             g2 = push_scrollback (trim_default_tail (hd (rows g))) g1;
             g3 = g2\<lparr>rows := rows g2 @ [replacement], damage := tl (damage g2) @ [clean],
                     pending_scroll_up := min (pending_scroll_up g2 + 1) (gh g2)\<rparr>
         in mark_rows_damaged (gh g - 1) (gh g - 1) g3))"

definition list_insert_at :: "nat \<Rightarrow> 'a \<Rightarrow> 'a list \<Rightarrow> 'a list" where
  "list_insert_at i x xs = take i xs @ x # drop i xs"

definition scroll_region_up_inner :: "nat \<Rightarrow> nat \<Rightarrow> cell \<Rightarrow> bool \<Rightarrow> grid \<Rightarrow> grid" where
  "scroll_region_up_inner rtop rbot blank preserve_history g =
     (if rtop \<ge> gh g \<or> rbot \<ge> gh g \<or> rtop > rbot then g
      else if preserve_history \<and> rtop = 0 \<and> rbot = gh g - 1 then scroll_up blank g
      else
        (let departing = rows g ! rtop;
             g1 = g\<lparr>rows := remove_at rtop (rows g)\<rparr>;
             g2 = (if preserve_history then push_scrollback departing g1 else g1);
             (i, g3) = alloc_line_id g2;
             g4 = g3\<lparr>rows := list_insert_at rbot (line_blank (gw g3) blank i) (rows g3), pending_scroll_up := 0\<rparr>
         in mark_rows_damaged rtop rbot g4))"

definition scroll_region_up :: "nat \<Rightarrow> nat \<Rightarrow> cell \<Rightarrow> grid \<Rightarrow> grid" where
  "scroll_region_up rtop rbot blank g = scroll_region_up_inner rtop rbot blank (rtop = 0) g"

definition scroll_region_up_discarding :: "nat \<Rightarrow> nat \<Rightarrow> cell \<Rightarrow> grid \<Rightarrow> grid" where
  "scroll_region_up_discarding rtop rbot blank g = scroll_region_up_inner rtop rbot blank False g"

definition scroll_region_down :: "nat \<Rightarrow> nat \<Rightarrow> cell \<Rightarrow> grid \<Rightarrow> grid" where
  "scroll_region_down rtop rbot blank g =
     (if rtop \<ge> gh g \<or> rbot \<ge> gh g \<or> rtop > rbot then g
      else
        (let g1 = g\<lparr>rows := remove_at rbot (rows g)\<rparr>;
             (i, g2) = alloc_line_id g1;
             g3 = g2\<lparr>rows := list_insert_at rtop (line_blank (gw g2) blank i) (rows g2), pending_scroll_up := 0\<rparr>
         in mark_rows_damaged rtop rbot g3))"

section \<open>Persisted lines\<close>

definition stored_cell_is_default_blank :: "stored_cell \<Rightarrow> bool" where
  "stored_cell_is_default_blank c \<longleftrightarrow> st_text c = [32] \<and> st_fg c = ColorDefault \<and> st_bg c = ColorDefault
     \<and> st_attrs c = 0 \<and> st_underline c = ColorDefault \<and> \<not> st_continuation c"

text \<open>Popping the last element while a condition holds.\<close>

definition pop_while :: "('a \<Rightarrow> bool) \<Rightarrow> 'a list \<Rightarrow> 'a list" where
  "pop_while P xs = rev (dropWhile P (rev xs))"

definition store_cell :: "str list \<Rightarrow> color list \<Rightarrow> cell \<Rightarrow> stored_cell" where
  "store_cell cl us c =
     \<lparr>st_text = cell_text_owned cl c, st_fg = fg c, st_bg = bg c, st_attrs = attrs c,
      st_underline = underline_color us (ucolor c), st_width = width c, st_continuation = is_continuation c\<rparr>"

definition store_line :: "grid \<Rightarrow> nat \<Rightarrow> stored_line" where
  "store_line g n =
     (let w = line_wrapped g n;
          cs = map (\<lambda>x. store_cell (clusters g) (underline_colors g) (line_cell g n x)) [0..<gw g]
      in \<lparr>sl_cells = (if w then cs else pop_while stored_cell_is_default_blank cs), sl_wrapped = w\<rparr>)"

definition export_lines :: "nat \<Rightarrow> grid \<Rightarrow> stored_line list" where
  "export_lines mx g = map (store_line g) [total_lines g - mx..<total_lines g]"

text \<open>A stored cell placed on a line under construction, which the grid does not hold yet.\<close>

definition set_stored_on_line :: "nat \<Rightarrow> stored_cell \<Rightarrow> cell \<Rightarrow> line \<Rightarrow> grid \<Rightarrow> line \<times> grid" where
  "set_stored_on_line x saved c l g =
     (if x \<ge> gw g \<or> st_text saved = [] then (l, g)
      else
        (let (k, g1) = (if length (st_text saved) > 1 then intern (st_text saved) g else (0, g));
             c1 = c\<lparr>cluster := k\<rparr>;
             l1 = l\<lparr>cells := (cells l)[x := c1]\<rparr>
         in (if width c1 = 2 \<and> x + 1 < gw g then l1\<lparr>cells := (cells l1)[x + 1 := continuation_of c1]\<rparr> else l1, g1)))"

fun from_stored_loop :: "(nat \<times> stored_cell) list \<Rightarrow> line \<Rightarrow> grid \<Rightarrow> line \<times> grid" where
  "from_stored_loop [] l g = (l, g)"
| "from_stored_loop ((x, saved) # rest) l g =
     (if st_continuation saved then from_stored_loop rest l g
      else
        (let (u, g1) = intern_underline_color (st_underline saved) g;
             c = \<lparr>ch = (case st_text saved of [] \<Rightarrow> 32 | t0 # _ \<Rightarrow> t0), fg = st_fg saved, bg = st_bg saved,
                  attrs = st_attrs saved, width = max (st_width saved) 1, ucolor = u, cluster = 0, link = 0\<rparr>;
             (l1, g2) = set_stored_on_line x saved c l g1
         in from_stored_loop rest l1 g2))"

definition line_from_stored :: "stored_line \<Rightarrow> grid \<Rightarrow> line \<times> grid" where
  "line_from_stored s g =
     (let (i, g1) = alloc_line_id g;
          cs = take (gw g1) (sl_cells s)
      in from_stored_loop (zip [0..<length cs] cs) ((line_blank (gw g1) cell_default i)\<lparr>wrapped := sl_wrapped s\<rparr>) g1)"

fun load_loop :: "stored_line list \<Rightarrow> grid \<Rightarrow> grid" where
  "load_loop [] g = g"
| "load_loop (s # ss) g =
     (let (l, g1) = line_from_stored s g in load_loop ss (g1\<lparr>scrollback := scrollback g1 @ [trim_default_tail l]\<rparr>))"

definition load_scrollback :: "stored_line list \<Rightarrow> grid \<Rightarrow> grid" where
  "load_scrollback ss g =
     (let g1 = load_loop ss (g\<lparr>scrollback := []\<rparr>) in g1\<lparr>scrollback := evict (scrollback_limit g1) (scrollback g1)\<rparr>)"

text \<open>Freezing re-interns every handle of a cell in the copy.\<close>

definition freeze_cell :: "grid \<Rightarrow> cell \<Rightarrow> grid \<Rightarrow> (cell \<times> grid) option" where
  "freeze_cell src c fz =
     (let (c1, f1) =
            (if cluster c \<noteq> 0 then
               (case list_get (clusters src) (cluster c) of
                  Some t \<Rightarrow> (let (k, f) = intern t fz in (c\<lparr>cluster := k\<rparr>, f))
                | None \<Rightarrow> (c\<lparr>cluster := 0, ch := REPLACEMENT\<rparr>, fz))
             else (c, fz));
          (c2, f2) =
            (if ucolor c \<noteq> 0 then
               (let (u, f) = intern_underline_color (underline_color (underline_colors src) (ucolor c)) f1 in (c1\<lparr>ucolor := u\<rparr>, f))
             else (c1, f1))
      in if link c \<noteq> 0 then
           (case hyperlink (hyperlinks src) (link c) of
              None \<Rightarrow> Some (c2\<lparr>link := 0\<rparr>, f2)
            | Some uri \<Rightarrow>
                (case intern_hyperlink uri f2 of
                   None \<Rightarrow> None
                 | Some (h, f) \<Rightarrow> Some (c2\<lparr>link := h\<rparr>, f)))
         else Some (c2, f2))"

fun freeze_cells :: "grid \<Rightarrow> nat \<Rightarrow> nat \<Rightarrow> cell list \<Rightarrow> grid \<Rightarrow> grid option" where
  "freeze_cells src y x [] fz = Some fz"
| "freeze_cells src y x (c # cs) fz =
     (case freeze_cell src c fz of
        None \<Rightarrow> None
      | Some (c1, f) \<Rightarrow>
          freeze_cells src y (x + 1) cs
            (f\<lparr>rows := (rows f)[y := (rows f ! y)\<lparr>cells := (cells (rows f ! y))[x := c1]\<rparr>]\<rparr>))"

fun freeze_rows :: "grid \<Rightarrow> nat \<Rightarrow> line list \<Rightarrow> grid \<Rightarrow> grid option" where
  "freeze_rows src y [] fz = Some fz"
| "freeze_rows src y (l # ls) fz =
     (case freeze_cells src y 0 (take (gw src) (cells l))
             (fz\<lparr>rows := (rows fz)[y := (rows fz ! y)\<lparr>wrapped := wrapped l\<rparr>]\<rparr>) of
        None \<Rightarrow> None
      | Some f \<Rightarrow> freeze_rows src (y + 1) ls f)"

definition freeze_screen :: "grid \<Rightarrow> grid option" where
  "freeze_screen g = freeze_rows g 0 (rows g) (set_scrollback_limit 0 (grid_new (gw g) (gh g)))"

section \<open>Detached captures\<close>

text \<open>\<^verbatim>\<open>crates/uniterm-core/src/grid/capture.rs\<close>: cells of recent lines copied in bulk, resolved later.\<close>

record grid_capture =
  cap_cells :: "cell list"
  cap_lines :: "(nat \<times> bool) list"
  cap_clusters :: "str list"
  cap_colors :: "color list"

fun capture_loop :: "line list \<Rightarrow> cell list \<Rightarrow> (nat \<times> bool) list \<Rightarrow> bool \<Rightarrow> bool \<Rightarrow> cell list \<times> (nat \<times> bool) list \<times> bool \<times> bool" where
  "capture_loop [] cs ls hc hu = (cs, ls, hc, hu)"
| "capture_loop (l # rest) cs ls hc hu =
     (let keep = (if wrapped l then length (cells l) else keep_len (\<lambda>c. c \<noteq> cell_default) (cells l));
          part = take keep (cells l);
          cs1 = cs @ part
      in capture_loop rest cs1 (ls @ [(length cs1, wrapped l)])
           (hc \<or> list_ex (\<lambda>c. cluster c \<noteq> 0) part) (hu \<or> list_ex (\<lambda>c. ucolor c \<noteq> 0) part))"

definition capture_lines :: "nat \<Rightarrow> grid \<Rightarrow> grid_capture" where
  "capture_lines mx g =
     (let (cs, ls, hc, hu) =
            capture_loop (List.map_filter (line_at g) [total_lines g - mx..<total_lines g]) [] [] False False
      in \<lparr>cap_cells = cs, cap_lines = ls, cap_clusters = (if hc then clusters g else []),
          cap_colors = (if hu then underline_colors g else [])\<rparr>)"

fun stored_loop :: "grid_capture \<Rightarrow> nat \<Rightarrow> (nat \<times> bool) list \<Rightarrow> stored_line list" where
  "stored_loop cap start [] = []"
| "stored_loop cap start ((stop, w) # rest) =
     (let cs = map (store_cell (cap_clusters cap) (cap_colors cap)) (drop start (take stop (cap_cells cap)))
      in \<lparr>sl_cells = (if w then cs else pop_while stored_cell_is_default_blank cs), sl_wrapped = w\<rparr> # stored_loop cap stop rest)"

definition into_stored_lines :: "grid_capture \<Rightarrow> stored_line list" where
  "into_stored_lines cap = stored_loop cap 0 (cap_lines cap)"

fun stored_cells_loop :: "stored_cell list \<Rightarrow> grid_capture \<Rightarrow> grid_capture" where
  "stored_cells_loop [] cap = cap"
| "stored_cells_loop (s # ss) cap =
     (let (k, cl) = (if length (st_text s) > 1 then (length (cap_clusters cap), cap_clusters cap @ [st_text s])
                     else (0, cap_clusters cap));
          (u, us) = (case position (\<lambda>c. c = st_underline s) (cap_colors cap) of
                       Some i \<Rightarrow> (i, cap_colors cap)
                     | None \<Rightarrow> if length (cap_colors cap) < 256 then (length (cap_colors cap), cap_colors cap @ [st_underline s])
                              else (0, cap_colors cap));
          c = \<lparr>ch = (case st_text s of [] \<Rightarrow> 32 | t0 # _ \<Rightarrow> t0), fg = st_fg s, bg = st_bg s, attrs = st_attrs s,
               width = (if st_continuation s then 0 else max (st_width s) 1), ucolor = u, cluster = k, link = 0\<rparr>
      in stored_cells_loop ss (cap\<lparr>cap_cells := cap_cells cap @ [c], cap_clusters := cl, cap_colors := us\<rparr>))"

fun stored_lines_loop :: "stored_line list \<Rightarrow> grid_capture \<Rightarrow> grid_capture" where
  "stored_lines_loop [] cap = cap"
| "stored_lines_loop (l # ls) cap =
     (let cap1 = stored_cells_loop (sl_cells l) cap
      in stored_lines_loop ls (cap1\<lparr>cap_lines := cap_lines cap1 @ [(length (cap_cells cap1), sl_wrapped l)]\<rparr>))"

definition from_stored_lines :: "stored_line list \<Rightarrow> grid_capture" where
  "from_stored_lines ls =
     stored_lines_loop ls \<lparr>cap_cells = [], cap_lines = [], cap_clusters = [[]], cap_colors = [ColorDefault]\<rparr>"

end
