(* ===== verification/Grid_Edit.thy ===== *)
theory Grid_Edit
  imports Grid
begin

text \<open>
  What editing keeps: the dimensions of the grid, the pairing of wide glyphs with their
  continuation cells, the appearance of every cell across arena compaction, and the promise of
  damage tracking that a cell outside the damage still looks as it was last drawn.
\<close>

section \<open>Dimensions\<close>

definition grid_wf :: "grid \<Rightarrow> bool" where
  "grid_wf g \<longleftrightarrow> length (rows g) = gh g \<and> length (damage g) = gh g \<and> (\<forall>l\<in>set (rows g). length (cells l) = gw g)
     \<and> pending_scroll_up g \<le> gh g"

lemma grid_wf_row: "grid_wf g \<Longrightarrow> y < gh g \<Longrightarrow> length (cells (rows g ! y)) = gw g"
  by (auto simp: grid_wf_def)

lemma grid_wf_new: "grid_wf (grid_new w h)"
  by (auto simp: grid_wf_def grid_new_def line_blank_def)

lemma mark_damage_sel [simp]:
  "gw (mark_damage x y g) = gw g" "gh (mark_damage x y g) = gh g" "rows (mark_damage x y g) = rows g"
  "scrollback (mark_damage x y g) = scrollback g" "clusters (mark_damage x y g) = clusters g"
  "hyperlinks (mark_damage x y g) = hyperlinks g" "underline_colors (mark_damage x y g) = underline_colors g"
  "pending_scroll_up (mark_damage x y g) = pending_scroll_up g" "length (damage (mark_damage x y g)) = length (damage g)"
  "scrollback_limit (mark_damage x y g) = scrollback_limit g" "next_line_id (mark_damage x y g) = next_line_id g"
  by (simp_all add: mark_damage_def Let_def)

lemma gset_sel [simp]:
  "gw (gset x y c g) = gw g" "gh (gset x y c g) = gh g"
  "scrollback (gset x y c g) = scrollback g" "clusters (gset x y c g) = clusters g"
  "hyperlinks (gset x y c g) = hyperlinks g" "underline_colors (gset x y c g) = underline_colors g"
  "pending_scroll_up (gset x y c g) = pending_scroll_up g"
  "scrollback_limit (gset x y c g) = scrollback_limit g" "next_line_id (gset x y c g) = next_line_id g"
  by (simp_all add: gset_def)

lemma gset_wf: "grid_wf g \<Longrightarrow> grid_wf (gset x y c g)"
  by (auto simp: grid_wf_def gset_def dest!: set_update_subset_insert [THEN subsetD])

lemma gget_gset:
  assumes "grid_wf g" and "x' < gw g" and "y' < gh g"
  shows "gget x' y' (gset x y c g) = (if x' = x \<and> y' = y then c else gget x' y' g)"
proof -
  have l: "y < gh g \<Longrightarrow> y < length (rows g) \<and> length (cells (rows g ! y)) = gw g"
    using assms(1) grid_wf_row [OF assms(1)] by (simp add: grid_wf_def)
  show ?thesis using assms l by (auto simp: gset_def gget_def nth_list_update)
qed

section \<open>Compaction keeps what cells look like\<close>

text \<open>What a renderer reads of a cell, its handles resolved.\<close>

definition look :: "grid \<Rightarrow> cell \<Rightarrow> str \<times> color \<times> color \<times> attrs \<times> color \<times> nat \<times> str option" where
  "look g c = (cell_text_owned (clusters g) c, fg c, bg c, attrs c, underline_color (underline_colors g) (ucolor c), width c,
     hyperlink (hyperlinks g) (link c))"

text \<open>A rebuilt arena: its table points into it, past the reserved entry.\<close>

definition rebuilt_ok :: "'a rebuilt \<Rightarrow> bool" where
  "rebuilt_ok s \<longleftrightarrow> 0 < length (fst s) \<and> (\<forall>v k. map_of (snd s) v = Some k \<longrightarrow> 0 < k \<and> list_get (fst s) k = Some v)"

lemma list_get_append: "list_get xs k = Some v \<Longrightarrow> list_get (xs @ ys) k = Some v"
  by (auto simp: list_get_def nth_append split: if_splits)

lemma list_get_end [simp]: "list_get (xs @ [v]) (length xs) = Some v"
  by (simp add: list_get_def)

lemma relabel_ok:
  assumes "rebuilt_ok s" and "relabel old h s = (r, s1)"
  shows "rebuilt_ok s1" and "\<exists>zs. fst s1 = fst s @ zs"
    and "case r of None \<Rightarrow> list_get old h = None | Some k \<Rightarrow> 0 < k \<and> list_get (fst s1) k = list_get old h \<and> list_get old h \<noteq> None"
proof -
  show "rebuilt_ok s1"
    using assms by (auto simp: relabel_def rebuilt_ok_def list_get_append split: option.splits if_splits)
  show "\<exists>zs. fst s1 = fst s @ zs"
    using assms by (auto simp: relabel_def split: option.splits)
  show "case r of None \<Rightarrow> list_get old h = None | Some k \<Rightarrow> 0 < k \<and> list_get (fst s1) k = list_get old h \<and> list_get old h \<noteq> None"
  proof (cases "list_get old h")
    case None
    then show ?thesis using assms(2) by (auto simp: relabel_def)
  next
    case (Some v)
    show ?thesis
    proof (cases "map_of (snd s) v")
      case None
      then show ?thesis using assms Some by (auto simp: relabel_def rebuilt_ok_def)
    next
      case k: (Some k)
      then have "r = Some k" "s1 = s" using assms(2) Some by (simp_all add: relabel_def)
      then show ?thesis using assms(1) k Some by (simp add: rebuilt_ok_def)
    qed
  qed
qed

lemma map_state_append: "map_state f (xs @ ys) s = (let (us, s1) = map_state f xs s; (vs, s2) = map_state f ys s1 in (us @ vs, s2))"
  by (induction xs arbitrary: s) (auto simp: Let_def split_beta)

text \<open>
  A pass over cells with a growing state: what holds of a cell's replacement in its own state
  and survives growth holds in the final state.
\<close>

locale cell_pass =
  fixes f :: "cell \<Rightarrow> 's \<Rightarrow> cell \<times> 's" and ok :: "'s \<Rightarrow> bool" and grows :: "'s \<Rightarrow> 's \<Rightarrow> bool"
    and rel :: "cell \<Rightarrow> cell \<Rightarrow> 's \<Rightarrow> bool"
  assumes step_ok: "ok s \<Longrightarrow> ok (snd (f c s))"
    and step_grows: "ok s \<Longrightarrow> grows s (snd (f c s))"
    and step_rel: "ok s \<Longrightarrow> rel c (fst (f c s)) (snd (f c s))"
    and grows_refl: "grows s s"
    and grows_trans: "grows s t \<Longrightarrow> grows t u \<Longrightarrow> grows s u"
    and rel_grows: "rel c d s \<Longrightarrow> grows s t \<Longrightarrow> rel c d t"
begin

lemma cells_pass:
  "ok s \<Longrightarrow> ok (snd (map_state f cs s)) \<and> grows s (snd (map_state f cs s))
     \<and> list_all2 (\<lambda>c d. rel c d (snd (map_state f cs s))) cs (fst (map_state f cs s))"
proof (induction cs arbitrary: s)
  case (Cons c cs)
  let ?s1 = "snd (f c s)" and ?s2 = "snd (map_state f cs (snd (f c s)))"
  have 1: "ok ?s1" "grows s ?s1" "rel c (fst (f c s)) ?s1" using Cons.prems step_ok step_grows step_rel by auto
  have 2: "ok ?s2" "grows ?s1 ?s2" "list_all2 (\<lambda>c d. rel c d ?s2) cs (fst (map_state f cs ?s1))"
    using Cons.IH [OF 1(1)] by auto
  show ?case using 1 2 rel_grows grows_trans by (auto simp: split_beta Let_def)
qed (simp add: grows_refl)

lemma lines_pass:
  "ok s \<Longrightarrow> ok (snd (map_cells f ls s)) \<and> grows s (snd (map_cells f ls s))
     \<and> list_all2 (\<lambda>l m. wrapped m = wrapped l \<and> line_no m = line_no l \<and>
          list_all2 (\<lambda>c d. rel c d (snd (map_cells f ls s))) (cells l) (cells m)) ls (fst (map_cells f ls s))"
proof (induction ls arbitrary: s)
  case (Cons l ls)
  let ?s1 = "snd (map_state f (cells l) s)" and ?s2 = "snd (map_cells f ls (snd (map_state f (cells l) s)))"
  note 1 = cells_pass [OF Cons.prems, of "cells l"]
  note 2 = Cons.IH [of ?s1]
  have 3: "list_all2 (\<lambda>c d. rel c d ?s2) (cells l) (fst (map_state f (cells l) s))"
    using 1 2 rel_grows by (auto intro: list_all2_mono)
  show ?case using 1 2 3 grows_trans by (auto simp: map_cells_def split_beta Let_def)
qed (simp add: map_cells_def grows_refl)

end

definition grown :: "'a rebuilt \<Rightarrow> 'a rebuilt \<Rightarrow> bool" where
  "grown s t \<longleftrightarrow> (\<exists>zs. fst t = fst s @ zs)"

definition same_text :: "str list \<Rightarrow> cell \<Rightarrow> cell \<Rightarrow> str rebuilt \<Rightarrow> bool" where
  "same_text old c d s \<longleftrightarrow> cell_text_owned (fst s) d = cell_text_owned old c \<and> fg d = fg c \<and> bg d = bg c \<and> attrs d = attrs c
     \<and> width d = width c \<and> ucolor d = ucolor c \<and> link d = link c
     \<and> (cluster d \<noteq> 0 \<longrightarrow> list_get (fst s) (cluster d) \<noteq> None)"

definition same_color :: "color list \<Rightarrow> cell \<Rightarrow> cell \<Rightarrow> color rebuilt \<Rightarrow> bool" where
  "same_color old c d s \<longleftrightarrow> d\<lparr>ucolor := 0\<rparr> = c\<lparr>ucolor := 0\<rparr> \<and> ucolor d < length (fst s)
     \<and> (list_get old 0 = Some ColorDefault \<longrightarrow> underline_color (fst s) (ucolor d) = underline_color old (ucolor c))"

definition colors_ok :: "color rebuilt \<Rightarrow> bool" where
  "colors_ok s \<longleftrightarrow> rebuilt_ok s \<and> list_get (fst s) 0 = Some ColorDefault"

interpretation cluster_pass: cell_pass "compact_cluster_cell old" rebuilt_ok grown "same_text old" for old
proof unfold_locales
  fix s :: "str rebuilt" and c :: cell
  assume s: "rebuilt_ok s"
  obtain r s1 where r: "relabel old (cluster c) s = (r, s1)" by (cases "relabel old (cluster c) s")
  note k = relabel_ok [OF s r]
  show "rebuilt_ok (snd (compact_cluster_cell old c s))"
    using s k(1) by (auto simp: compact_cluster_cell_def r split: option.splits)
  show "grown s (snd (compact_cluster_cell old c s))"
    using k(2) by (auto simp: compact_cluster_cell_def r grown_def split: option.splits)
  show "same_text old c (fst (compact_cluster_cell old c s)) (snd (compact_cluster_cell old c s))"
    using k(3) by (auto simp: compact_cluster_cell_def r same_text_def cell_text_owned_def is_continuation_def split: option.splits)
next
  fix c d and s t :: "str rebuilt"
  assume "same_text old c d s" "grown s t"
  then show "same_text old c d t"
    by (auto simp: same_text_def grown_def cell_text_owned_def list_get_append split: if_splits)
qed (auto simp: grown_def)

interpretation color_pass: cell_pass "compact_color_cell old" colors_ok grown "same_color old" for old
proof unfold_locales
  fix s :: "color rebuilt" and c :: cell
  assume s: "colors_ok s"
  then have s0: "rebuilt_ok s" "list_get (fst s) 0 = Some ColorDefault" "0 < length (fst s)" by (auto simp: colors_ok_def rebuilt_ok_def)
  obtain r s1 where r: "relabel old (ucolor c) s = (r, s1)" by (cases "relabel old (ucolor c) s")
  note k = relabel_ok [OF s0(1) r]
  have s1: "list_get (fst s1) 0 = Some ColorDefault" "0 < length (fst s1)" using k(2) s0 by (auto simp: list_get_append)
  show "colors_ok (snd (compact_color_cell old c s))"
    using s k(1) s1 by (auto simp: compact_color_cell_def r colors_ok_def split: option.splits)
  show "grown s (snd (compact_color_cell old c s))"
    using k(2) by (auto simp: compact_color_cell_def r grown_def split: option.splits)
  show "same_color old c (fst (compact_color_cell old c s)) (snd (compact_color_cell old c s))"
  proof (cases "ucolor c = 0")
    case True
    then show ?thesis using s0 by (simp add: compact_color_cell_def same_color_def underline_color_def)
  next
    case False
    then show ?thesis using k(3) s1
      by (cases r) (auto simp: compact_color_cell_def r same_color_def underline_color_def list_get_def [of "fst s1"] split: if_splits)
  qed
next
  fix c d and s t :: "color rebuilt"
  assume "same_color old c d s" "grown s t"
  then show "same_color old c d t"
    by (auto simp: same_color_def grown_def underline_color_def list_get_def nth_append)
qed (auto simp: grown_def)

text \<open>Two lists of lines that agree but for the handles in their cells.\<close>

definition lines_related :: "(cell \<Rightarrow> cell \<Rightarrow> bool) \<Rightarrow> line list \<Rightarrow> line list \<Rightarrow> bool" where
  "lines_related R = list_all2 (\<lambda>l m. wrapped m = wrapped l \<and> line_no m = line_no l \<and> list_all2 R (cells l) (cells m))"

lemma lines_related_cell:
  assumes "lines_related R ls ms" and "y < length ls" and "x < length (cells (ls ! y))"
  shows "R (cells (ls ! y) ! x) (cells (ms ! y) ! x)"
  using assms by (auto simp: lines_related_def list_all2_conv_all_nth)

lemma lines_related_shape:
  "lines_related R ls ms \<Longrightarrow> length ms = length ls \<and> (\<forall>y<length ls. length (cells (ms ! y)) = length (cells (ls ! y)))"
  by (auto simp: lines_related_def list_all2_conv_all_nth)

text \<open>What a compaction does: new handles, the same appearance, everything else untouched.\<close>

definition same_looks :: "grid \<Rightarrow> grid \<Rightarrow> bool" where
  "same_looks g h \<longleftrightarrow> lines_related (\<lambda>c d. look h d = look g c) (scrollback g) (scrollback h)
     \<and> lines_related (\<lambda>c d. look h d = look g c) (rows g) (rows h)
     \<and> gw h = gw g \<and> gh h = gh g \<and> damage h = damage g \<and> any_damage h = any_damage g
     \<and> pending_scroll_up h = pending_scroll_up g \<and> scrollback_limit h = scrollback_limit g \<and> next_line_id h = next_line_id g"

lemma same_looks_refl [simp]: "same_looks g g"
  by (simp add: same_looks_def lines_related_def list_all2_same)

lemma compact_clusters_related:
  obtains sb ls k tab where "compact_clusters g = g\<lparr>scrollback := sb, rows := ls, clusters := k, cluster_gc_at := max (length k * 2) 4096\<rparr>"
    and "k \<noteq> []" and "lines_related (\<lambda>c d. same_text (clusters g) c d (k, tab)) (scrollback g) sb"
    and "lines_related (\<lambda>c d. same_text (clusters g) c d (k, tab)) (rows g) ls"
proof -
  let ?f = "compact_cluster_cell (clusters g)"
  let ?p = "map_cells ?f (scrollback g) ([[]], [])"
  let ?q = "map_cells ?f (rows g) (snd ?p)"
  have ok: "rebuilt_ok ([[]], [])" by (simp add: rebuilt_ok_def)
  note 1 = cluster_pass.lines_pass [OF ok, of "clusters g" "scrollback g"]
  note 2 = cluster_pass.lines_pass [of "snd ?p" "clusters g" "rows g"]
  have g2: "rebuilt_ok (snd ?q)" "grown (snd ?p) (snd ?q)" using 1 2 by auto
  have sb: "lines_related (\<lambda>c d. same_text (clusters g) c d (snd ?q)) (scrollback g) (fst ?p)"
    using 1 cluster_pass.rel_grows [OF _ g2(2)] unfolding lines_related_def by (auto elim!: list_all2_mono)
  have ls: "lines_related (\<lambda>c d. same_text (clusters g) c d (snd ?q)) (rows g) (fst ?q)"
    using 1 2 unfolding lines_related_def by auto
  show thesis
    using that [where sb = "fst ?p" and ls = "fst ?q" and k = "fst (snd ?q)" and tab = "snd (snd ?q)"] sb ls g2(1)
    by (simp add: compact_clusters_def split_beta Let_def rebuilt_ok_def)
qed

lemma compact_clusters_same: "same_looks g (compact_clusters g)"
proof -
  obtain sb ls k tab where e: "compact_clusters g = g\<lparr>scrollback := sb, rows := ls, clusters := k, cluster_gc_at := max (length k * 2) 4096\<rparr>"
    and r: "lines_related (\<lambda>c d. same_text (clusters g) c d (k, tab)) (scrollback g) sb"
      "lines_related (\<lambda>c d. same_text (clusters g) c d (k, tab)) (rows g) ls"
    by (rule compact_clusters_related)
  have m: "same_text (clusters g) c d (k, tab) \<Longrightarrow> look (compact_clusters g) d = look g c" for c d
    by (simp add: e look_def same_text_def)
  show ?thesis using r m unfolding same_looks_def lines_related_def by (auto simp: e elim!: list_all2_mono)
qed

definition colors_wf :: "grid \<Rightarrow> bool" where
  "colors_wf g \<longleftrightarrow> list_get (underline_colors g) 0 = Some ColorDefault"

lemma compact_underline_colors_same:
  assumes "colors_wf g"
  shows "same_looks g (compact_underline_colors g) \<and> colors_wf (compact_underline_colors g)"
proof -
  let ?f = "compact_color_cell (underline_colors g)"
  let ?p = "map_cells ?f (scrollback g) ([ColorDefault], [])"
  let ?q = "map_cells ?f (rows g) (snd ?p)"
  have ok: "colors_ok ([ColorDefault], [])" by (simp add: rebuilt_ok_def colors_ok_def list_get_def)
  note 1 = color_pass.lines_pass [OF ok, of "underline_colors g" "scrollback g"]
  note 2 = color_pass.lines_pass [of "snd ?p" "underline_colors g" "rows g"]
  have g2: "colors_ok (snd ?q)" "grown (snd ?p) (snd ?q)" using 1 2 by auto
  have sb: "lines_related (\<lambda>c d. same_color (underline_colors g) c d (snd ?q)) (scrollback g) (fst ?p)"
    using 1 color_pass.rel_grows [OF _ g2(2)] unfolding lines_related_def by (auto elim!: list_all2_mono)
  have ls: "lines_related (\<lambda>c d. same_color (underline_colors g) c d (snd ?q)) (rows g) (fst ?q)"
    using 1 2 unfolding lines_related_def by auto
  have e: "compact_underline_colors g = g\<lparr>scrollback := fst ?p, rows := fst ?q, underline_colors := fst (snd ?q)\<rparr>"
    by (simp add: compact_underline_colors_def split_beta Let_def)
  have m: "look (compact_underline_colors g) d = look g c" if "same_color (underline_colors g) c d (snd ?q)" for c d
  proof -
    have "d\<lparr>ucolor := 0\<rparr> = c\<lparr>ucolor := 0\<rparr>" using that by (simp add: same_color_def)
    then have "ch d = ch c" "fg d = fg c" "bg d = bg c" "attrs d = attrs c" "width d = width c" "cluster d = cluster c" "link d = link c"
      by (cases c; cases d; simp)+
    then show ?thesis using that assms by (simp add: e look_def same_color_def colors_wf_def cell_text_owned_def is_continuation_def)
  qed
  show ?thesis using sb ls m g2(1) unfolding same_looks_def lines_related_def colors_wf_def
    by (auto simp: e colors_ok_def elim!: list_all2_mono)
qed

lemma map_of_filter_keys: "h \<in> S \<Longrightarrow> map_of (filter (\<lambda>(k, _). k \<in> S) hs) h = map_of hs h"
  by (induction hs) auto

lemma compact_hyperlinks_same: "same_looks g (compact_hyperlinks g)"
proof -
  have m: "look (compact_hyperlinks g) c = look g c" if "l \<in> set (scrollback g @ rows g)" "c \<in> set (cells l)" for l c
  proof (cases "link c = 0")
    case False
    then have "link c \<in> set (concat (map (\<lambda>l. filter (\<lambda>h. h \<noteq> 0) (map link (cells l))) (scrollback g @ rows g)))"
      using that by auto
    from map_of_filter_keys [OF this, of "hyperlinks g"] show ?thesis
      unfolding look_def compact_hyperlinks_def Let_def hyperlink_def by simp
  qed (simp add: look_def compact_hyperlinks_def Let_def hyperlink_def)
  then show ?thesis
    unfolding same_looks_def lines_related_def by (auto simp: compact_hyperlinks_def Let_def list_all2_same intro!: list_all2_refl)
qed

section \<open>Handles stay valid\<close>

definition valid :: "grid \<Rightarrow> cell \<Rightarrow> bool" where
  "valid g c \<longleftrightarrow> cluster c < length (clusters g) \<and> ucolor c < length (underline_colors g)
     \<and> (link c = 0 \<or> map_of (hyperlinks g) (link c) \<noteq> None)"

definition all_valid :: "grid \<Rightarrow> bool" where
  "all_valid g \<longleftrightarrow> (\<forall>l\<in>set (scrollback g @ rows g). \<forall>c\<in>set (cells l). valid g c)"

definition sane :: "grid \<Rightarrow> bool" where
  "sane g \<longleftrightarrow> grid_wf g \<and> all_valid g \<and> colors_wf g \<and> clusters g \<noteq> []"

lemma sane_new: "sane (grid_new w h)"
  using grid_wf_new by (auto simp: sane_def all_valid_def valid_def colors_wf_def grid_new_def line_blank_def cell_default_def list_get_def)

lemma sane_get: "sane g \<Longrightarrow> x < gw g \<Longrightarrow> y < gh g \<Longrightarrow> valid g (gget x y g)"
  unfolding sane_def all_valid_def grid_wf_def gget_def by (metis UnCI nth_mem set_append)

lemma valid_plain: "sane g \<Longrightarrow> cluster c = 0 \<Longrightarrow> ucolor c = 0 \<Longrightarrow> link c = 0 \<Longrightarrow> valid g c"
  by (auto simp: valid_def sane_def colors_wf_def list_get_def split: if_splits)

lemma lines_related_set:
  assumes "lines_related R ls ms" and "m \<in> set ms" and "d \<in> set (cells m)"
  obtains l c where "l \<in> set ls" and "c \<in> set (cells l)" and "R c d"
proof -
  obtain y where y: "y < length ms" "m = ms ! y" using assms(2) by (auto simp: in_set_conv_nth)
  obtain x where x: "x < length (cells m)" "d = cells m ! x" using assms(3) by (auto simp: in_set_conv_nth)
  note s = lines_related_shape [OF assms(1)]
  have "R (cells (ls ! y) ! x) d" using lines_related_cell [OF assms(1), of y x] s y x by auto
  then show thesis using s y x by (intro that [of "ls ! y" "cells (ls ! y) ! x"]) auto
qed

lemma same_looks_wf: "same_looks g h \<Longrightarrow> grid_wf g \<Longrightarrow> grid_wf h"
  unfolding same_looks_def grid_wf_def lines_related_def
  by (simp add: list_all2_conv_all_nth all_set_conv_all_nth)

lemma compact_clusters_sane:
  assumes "sane g"
  shows "sane (compact_clusters g)"
proof -
  obtain sb ls k tab where e: "compact_clusters g = g\<lparr>scrollback := sb, rows := ls, clusters := k, cluster_gc_at := max (length k * 2) 4096\<rparr>"
    and k: "k \<noteq> []" and r: "lines_related (\<lambda>c d. same_text (clusters g) c d (k, tab)) (scrollback g) sb"
      "lines_related (\<lambda>c d. same_text (clusters g) c d (k, tab)) (rows g) ls"
    by (rule compact_clusters_related)
  have m: "valid g c \<Longrightarrow> same_text (clusters g) c d (k, tab) \<Longrightarrow> valid (compact_clusters g) d" for c d
    using k by (cases "cluster d = 0") (auto simp: e valid_def same_text_def list_get_def split: if_splits)
  have v: "valid (compact_clusters g) d" if "l \<in> set (sb @ ls)" "d \<in> set (cells l)" for l d
  proof -
    have "\<exists>l c. l \<in> set (scrollback g @ rows g) \<and> c \<in> set (cells l) \<and> same_text (clusters g) c d (k, tab)"
      using that lines_related_set [OF r(1)] lines_related_set [OF r(2)] by (metis UnE UnI1 UnI2 set_append)
    then show ?thesis using assms m unfolding sane_def all_valid_def by blast
  qed
  then have "all_valid (compact_clusters g)" by (auto simp: all_valid_def e)
  moreover have "grid_wf (compact_clusters g)" using assms same_looks_wf [OF compact_clusters_same] by (simp add: sane_def)
  moreover have "colors_wf (compact_clusters g)" "clusters (compact_clusters g) \<noteq> []"
    using assms k by (simp_all add: e sane_def colors_wf_def)
  ultimately show ?thesis by (simp add: sane_def)
qed

lemma compact_clusters_sel [simp]:
  "underline_colors (compact_clusters g) = underline_colors g" "hyperlinks (compact_clusters g) = hyperlinks g"
  by (simp_all add: compact_clusters_def split_beta Let_def)

lemma same_looks_trans: "same_looks g h \<Longrightarrow> same_looks h k \<Longrightarrow> same_looks g k"
  unfolding same_looks_def lines_related_def by (simp add: list_all2_conv_all_nth)

lemma push_cluster_same: "sane g \<Longrightarrow> same_looks g (g\<lparr>clusters := clusters g @ [t]\<rparr>) \<and> sane (g\<lparr>clusters := clusters g @ [t]\<rparr>)"
proof -
  assume g: "sane g"
  let ?h = "g\<lparr>clusters := clusters g @ [t]\<rparr>"
  have "look ?h c = look g c \<and> valid ?h c" if "valid g c" for c
    using that by (auto simp: look_def valid_def cell_text_owned_def list_get_def nth_append)
  then show ?thesis using g
    unfolding same_looks_def lines_related_def sane_def all_valid_def grid_wf_def colors_wf_def
    by (auto simp: list_all2_same intro!: list_all2_refl)
qed

lemma intern_found_bound: "intern_found t cl = Some i \<Longrightarrow> i < length cl \<and> cl ! i = t"
  by (auto simp: intern_found_def rev_nth dest!: position_SomeD split: option.splits)

lemma intern_ok:
  assumes "sane g"
  shows "sane (snd (intern t g))" and "same_looks g (snd (intern t g))"
    and "list_get (clusters (snd (intern t g))) (fst (intern t g)) = Some t"
    and "underline_colors (snd (intern t g)) = underline_colors g" and "hyperlinks (snd (intern t g)) = hyperlinks g"
proof -
  let ?g1 = "if length (clusters g) \<ge> cluster_gc_at g then compact_clusters g else g"
  have g1: "sane ?g1" "same_looks g ?g1" using assms compact_clusters_sane compact_clusters_same by auto
  show "sane (snd (intern t g))" using assms push_cluster_same [OF g1(1), of t] by (auto simp: intern_def Let_def split: option.split)
  show "same_looks g (snd (intern t g))"
    using same_looks_trans [OF g1(2)] push_cluster_same [OF g1(1), of t] by (auto simp: intern_def Let_def split: option.split)
  show "list_get (clusters (snd (intern t g))) (fst (intern t g)) = Some t"
    using intern_found_bound by (auto simp: intern_def Let_def list_get_def split: option.split)
  show "underline_colors (snd (intern t g)) = underline_colors g" "hyperlinks (snd (intern t g)) = hyperlinks g"
    by (auto simp: intern_def Let_def split: option.split)
qed

section \<open>Editing is made of assignments and interning\<close>

definition plain_blank :: "cell \<Rightarrow> bool" where
  "plain_blank b \<longleftrightarrow> width b = 1 \<and> cluster b = 0 \<and> ucolor b = 0 \<and> link b = 0"

lemma valid_gset [simp]: "valid (gset x y c g) d \<longleftrightarrow> valid g d"
  by (simp add: valid_def)

lemma valid_blank: "sane g \<Longrightarrow> plain_blank b \<Longrightarrow> valid g b"
  by (simp add: valid_plain plain_blank_def)

lemma fold_preserves: "I s \<Longrightarrow> (\<And>x s. x \<in> set xs \<Longrightarrow> I s \<Longrightarrow> I (f x s)) \<Longrightarrow> I (fold f xs s)"
  by (induction xs arbitrary: s) auto

locale edit_invariant =
  fixes I :: "grid \<Rightarrow> bool"
  assumes is_sane: "I g \<Longrightarrow> sane g"
    and set_keeps: "I g \<Longrightarrow> valid g c \<Longrightarrow> I (gset x y c g)"
    and intern_keeps: "I g \<Longrightarrow> I (snd (intern t g))"
begin

lemma clear_keeps: "I g \<Longrightarrow> plain_blank b \<Longrightarrow> I (clear_glyph_at x y b g)"
  by (auto simp: clear_glyph_at_def Let_def intro!: set_keeps valid_blank is_sane)

lemma erase_loop_keeps: "I g \<Longrightarrow> plain_blank b \<Longrightarrow> I (erase_loop x y stop b g)"
proof (induction x y stop b g rule: erase_loop.induct)
  case (1 x y stop b g)
  then show ?case by (subst erase_loop.simps) (simp add: clear_keeps)
qed

lemma erase_keeps: "I g \<Longrightarrow> plain_blank b \<Longrightarrow> I (erase_cells y start stop b g)"
  by (simp add: erase_cells_def erase_loop_keeps)

lemma repair_keeps: "I g \<Longrightarrow> plain_blank b \<Longrightarrow> I (repair_wide_row y b g)"
  unfolding repair_wide_row_def
  by (rule fold_preserves) (auto simp: repair_step_def Let_def intro!: set_keeps valid_blank is_sane)

text \<open>Moving cells along a row: a loop of assignments from cells of the row itself.\<close>

lemma move_keeps:
  assumes "I g" and "plain_blank b" and "y < gh g"
    and "\<And>x h. x \<in> set xs \<Longrightarrow> gw h = gw g \<Longrightarrow> P x h \<Longrightarrow> src x < gw g"
  shows "I (fold (\<lambda>x h. gset x y (if P x h then gget (src x) y h else b) h) xs g)"
proof -
  have "I (fold (\<lambda>x h. gset x y (if P x h then gget (src x) y h else b) h) xs g)
      \<and> gw (fold (\<lambda>x h. gset x y (if P x h then gget (src x) y h else b) h) xs g) = gw g
      \<and> gh (fold (\<lambda>x h. gset x y (if P x h then gget (src x) y h else b) h) xs g) = gh g"
    by (rule fold_preserves [where I = "\<lambda>h. I h \<and> gw h = gw g \<and> gh h = gh g"])
      (use assms in \<open>auto intro!: set_keeps intro: valid_blank sane_get is_sane\<close>)
  then show ?thesis by simp
qed

lemma delete_keeps: "I g \<Longrightarrow> plain_blank b \<Longrightarrow> I (delete_cells y start n b g)"
  unfolding delete_cells_def Let_def
  by (auto intro!: repair_keeps move_keeps [where P = "\<lambda>x h. x + min n (gw g - start) < gw h" and src = "\<lambda>x. x + min n (gw g - start)"])

lemma insert_keeps: "I g \<Longrightarrow> plain_blank b \<Longrightarrow> I (insert_cells y start n b g)"
  unfolding insert_cells_def Let_def
  by (auto intro!: repair_keeps move_keeps [where P = "\<lambda>x h. x \<ge> start + min n (gw g - start)" and src = "\<lambda>x. x - min n (gw g - start)"])

lemma set_grapheme_keeps:
  assumes "I g" and "valid g c"
  shows "I (set_grapheme x y t c w g)"
proof -
  let ?b = "blank_like c" and ?w = "max 1 (min 2 w)"
  have b: "plain_blank ?b" by (simp add: plain_blank_def blank_like_def cell_default_def)
  define g2 where "g2 = (if ?w = 2 then clear_glyph_at (x + 1) y ?b (clear_glyph_at x y ?b g) else clear_glyph_at x y ?b g)"
  have same: "underline_colors (clear_glyph_at x y ?b h) = underline_colors h" "hyperlinks (clear_glyph_at x y ?b h) = hyperlinks h" for x h
    by (simp_all add: clear_glyph_at_def Let_def)
  have g2: "I g2" "underline_colors g2 = underline_colors g" "hyperlinks g2 = hyperlinks g"
    unfolding g2_def using assms(1) b by (auto simp: clear_keeps same)
  define kg where "kg = (if length t > 1 then intern t g2 else (0, g2))"
  have s2: "sane g2" using g2(1) by (rule is_sane)
  have g3: "I (snd kg)" "underline_colors (snd kg) = underline_colors g" "hyperlinks (snd kg) = hyperlinks g"
    "fst kg < length (clusters (snd kg))"
    unfolding kg_def using g2 intern_keeps intern_ok [OF s2, of t] s2 by (auto simp: list_get_def sane_def split: if_splits)
  let ?lead = "c\<lparr>ch := (case t of [] \<Rightarrow> 32 | t0 # _ \<Rightarrow> t0), width := ?w, cluster := fst kg\<rparr>"
  have lead: "valid (snd kg) ?lead" "valid (snd kg) (continuation_of ?lead)"
    using assms(2) g3 by (auto simp: valid_def continuation_of_def)
  have "I (gset x y ?lead (snd kg))" "I (gset (x + 1) y (continuation_of ?lead) (gset x y ?lead (snd kg)))"
    using g3(1) lead by (auto intro!: set_keeps)
  then show ?thesis using assms(1)
    unfolding set_grapheme_def Let_def split_beta g2_def [symmetric] kg_def [symmetric]
    by (simp only: if_True if_False simp_thms split: if_split)
qed

lemma append_keeps: "I g \<Longrightarrow> I (fst (append_to_grapheme sw gc x y r g))"
  by (auto simp: append_to_grapheme_def Let_def intro!: set_grapheme_keeps sane_get is_sane)

end

lemma gset_sane: "sane g \<Longrightarrow> valid g c \<Longrightarrow> sane (gset x y c g)"
proof -
  assume g: "sane g" "valid g c"
  have "all_valid (gset x y c g)"
  proof -
    have "valid g d" if "l \<in> set (rows (gset x y c g))" "d \<in> set (cells l)" for l d
    proof (cases "x < gw g \<and> y < gh g \<and> gget x y g \<noteq> c")
      case True
      then have r: "rows (gset x y c g) = (rows g)[y := (rows g ! y)\<lparr>cells := (cells (rows g ! y))[x := c]\<rparr>]"
        by (simp add: gset_def)
      have y: "y < length (rows g)" using True g(1) by (simp add: sane_def grid_wf_def)
      have "l \<in> set (rows g) \<or> l = (rows g ! y)\<lparr>cells := (cells (rows g ! y))[x := c]\<rparr>"
        using that(1) set_update_subset_insert unfolding r by fastforce
      then show ?thesis
      proof
        assume "l \<in> set (rows g)"
        then show ?thesis using g(1) that(2) by (auto simp: sane_def all_valid_def)
      next
        assume "l = (rows g ! y)\<lparr>cells := (cells (rows g ! y))[x := c]\<rparr>"
        then have "d = c \<or> d \<in> set (cells (rows g ! y))" using that(2) set_update_subset_insert by fastforce
        then show ?thesis using g y by (auto simp: sane_def all_valid_def)
      qed
    next
      case False
      then have "gset x y c g = g" by (auto simp: gset_def)
      then show ?thesis using that g(1) by (auto simp: sane_def all_valid_def)
    qed
    then show ?thesis using g(1) by (auto simp: all_valid_def sane_def)
  qed
  then show ?thesis using g gset_wf by (auto simp: sane_def colors_wf_def)
qed

interpretation sane_edit: edit_invariant sane
  using gset_sane intern_ok(1) by unfold_locales auto

section \<open>Damage\<close>

definition damaged :: "grid \<Rightarrow> nat \<Rightarrow> nat \<Rightarrow> bool" where
  "damaged g x y \<longleftrightarrow> dirty (damage g ! y) \<and> lo (damage g ! y) \<le> x \<and> x \<le> hi (damage g ! y)"

definition screen :: "grid \<Rightarrow> nat \<Rightarrow> nat \<Rightarrow> str \<times> color \<times> color \<times> attrs \<times> color \<times> nat \<times> str option" where
  "screen g x y = look g (gget x y g)"

text \<open>
  The screen a client shows is \<open>sh\<close>. After it scrolls up by the pending count, every cell
  outside the damage is right already.
\<close>

definition faithful :: "(nat \<Rightarrow> nat \<Rightarrow> str \<times> color \<times> color \<times> attrs \<times> color \<times> nat \<times> str option) \<Rightarrow> grid \<Rightarrow> bool" where
  "faithful sh g \<longleftrightarrow> (\<forall>x<gw g. \<forall>y<gh g. damaged g x y \<or> (y + pending_scroll_up g < gh g \<and> screen g x y = sh x (y + pending_scroll_up g)))"

lemma faithful_clear:
  assumes "sane g"
  shows "faithful (screen (clear_damage g)) (clear_damage g)"
  using assms by (auto simp: faithful_def clear_damage_def screen_def)

lemma damaged_mark:
  assumes "grid_wf g" and "y < gh g"
  shows "damaged (mark_damage x y g) x' y' \<longleftrightarrow> damaged g x' y' \<or> (y' = y \<and> (if dirty (damage g ! y) then min (lo (damage g ! y)) x \<le> x' \<and> x' \<le> max (hi (damage g ! y)) x else x' = x))"
  using assms by (cases "y' = y") (auto simp: damaged_def mark_damage_def Let_def grid_wf_def)

lemma look_gset [simp]: "look (gset x y c g) = look g"
  by (auto simp: look_def fun_eq_iff)

lemma faithful_gset: "sane g \<Longrightarrow> faithful sh g \<Longrightarrow> faithful sh (gset x y c g)"
proof -
  assume g: "sane g" "faithful sh g"
  have w: "grid_wf g" using g(1) by (simp add: sane_def)
  have "damaged (gset x y c g) x' y' \<or> (y' + pending_scroll_up g < gh g \<and> screen (gset x y c g) x' y' = sh x' (y' + pending_scroll_up g))"
    if b: "x' < gw g" "y' < gh g" for x' y'
  proof (cases "x < gw g \<and> y < gh g \<and> gget x y g \<noteq> c")
    case True
    let ?h = "g\<lparr>rows := (rows g)[y := (rows g ! y)\<lparr>cells := (cells (rows g ! y))[x := c]\<rparr>]\<rparr>"
    have e: "gset x y c g = mark_damage x y ?h" using True by (simp add: gset_def)
    have "grid_wf ?h" using gset_wf [OF w, of x y c] by (simp add: e grid_wf_def)
    then have d: "damaged (gset x y c g) x' y' \<longleftrightarrow> damaged g x' y' \<or> (y' = y \<and> (if dirty (damage g ! y) then min (lo (damage g ! y)) x \<le> x' \<and> x' \<le> max (hi (damage g ! y)) x else x' = x))"
      using damaged_mark [of ?h y x x' y'] True by (simp add: e damaged_def)
    show ?thesis
    proof (cases "x' = x \<and> y' = y")
      case False
      then have "screen (gset x y c g) x' y' = screen g x' y'" using gget_gset [OF w b, of x y c] by (auto simp: screen_def)
      then show ?thesis using g(2) b d by (auto simp: faithful_def)
    qed (use d in auto)
  next
    case False
    then have "gset x y c g = g" by (auto simp: gset_def)
    then show ?thesis using g(2) b by (auto simp: faithful_def)
  qed
  then show ?thesis by (simp add: faithful_def)
qed

lemma faithful_same_looks:
  assumes "same_looks g h" and "grid_wf g" and "faithful sh g"
  shows "faithful sh h"
proof -
  have e: "gw h = gw g" "gh h = gh g" "damage h = damage g" "pending_scroll_up h = pending_scroll_up g"
    and r: "lines_related (\<lambda>c d. look h d = look g c) (rows g) (rows h)"
    using assms(1) by (auto simp: same_looks_def)
  have "screen h x y = screen g x y" if "x < gw g" "y < gh g" for x y
    using lines_related_cell [OF r, of y x] grid_wf_row [OF assms(2) that(2)] that assms(2)
    by (simp add: screen_def gget_def grid_wf_def)
  then show ?thesis using assms(3) e by (simp add: faithful_def damaged_def)
qed

lemma faithful_intern: "sane g \<Longrightarrow> faithful sh g \<Longrightarrow> faithful sh (snd (intern t g))"
  using faithful_same_looks [OF intern_ok(2)] by (simp add: sane_def)

interpretation faithful_edit: edit_invariant "\<lambda>g. sane g \<and> faithful sh g" for sh
  by unfold_locales (auto intro: gset_sane faithful_gset intern_ok(1) faithful_intern)

section \<open>Scrolling\<close>

lemma mark_rows_damaged_sel [simp]:
  "gw (mark_rows_damaged a b g) = gw g" "gh (mark_rows_damaged a b g) = gh g" "rows (mark_rows_damaged a b g) = rows g"
  "scrollback (mark_rows_damaged a b g) = scrollback g" "clusters (mark_rows_damaged a b g) = clusters g"
  "hyperlinks (mark_rows_damaged a b g) = hyperlinks g" "underline_colors (mark_rows_damaged a b g) = underline_colors g"
  "pending_scroll_up (mark_rows_damaged a b g) = pending_scroll_up g"
  "scrollback_limit (mark_rows_damaged a b g) = scrollback_limit g" "next_line_id (mark_rows_damaged a b g) = next_line_id g"
  by (simp_all add: mark_rows_damaged_def)

lemma length_fold_update [simp]: "length (fold (\<lambda>y d. d[y := v]) ys ds) = length ds"
  by (induction ys arbitrary: ds) auto

lemma fold_update_nth: "i < length ds \<Longrightarrow> fold (\<lambda>y d. d[y := v]) ys ds ! i = (if i \<in> set ys then v else ds ! i)"
  by (induction ys arbitrary: ds) (auto simp: nth_list_update)

lemma length_damage_mark_rows [simp]: "length (damage (mark_rows_damaged a b g)) = length (damage g)"
  by (simp add: mark_rows_damaged_def)

lemma damaged_mark_rows:
  assumes "y < length (damage g)" and "x < gw g"
  shows "damaged (mark_rows_damaged a b g) x y \<longleftrightarrow> (a \<le> y \<and> y \<le> b) \<or> damaged g x y"
  using assms by (auto simp: damaged_def mark_rows_damaged_def fold_update_nth)

text \<open>An update of the screen's lines with cells that the grid held already or blanks.\<close>

lemma sane_rows:
  assumes "sane g" and "plain_blank b"
    and "\<And>l c. l \<in> set (scrollback h @ rows h) \<Longrightarrow> c \<in> set (cells l) \<Longrightarrow> c = b \<or> (\<exists>m\<in>set (scrollback g @ rows g). c \<in> set (cells m))"
    and "clusters h = clusters g" and "underline_colors h = underline_colors g" and "hyperlinks h = hyperlinks g"
    and "grid_wf h"
  shows "sane h"
proof -
  have v: "valid h c \<longleftrightarrow> valid g c" for c using assms(4-6) by (simp add: valid_def)
  have "all_valid h"
    using assms(1,3) valid_blank [OF assms(1,2)] unfolding all_valid_def v sane_def by blast
  then show ?thesis using assms by (simp add: sane_def colors_wf_def)
qed

lemma trim_cells: "set (cells (trim_default_tail l)) \<subseteq> set (cells l)"
  by (auto simp: trim_default_tail_def Let_def dest: in_set_takeD)

lemma evict_set: "set (evict n ls) \<subseteq> set ls"
  by (auto simp: evict_def dest: in_set_dropD)

lemma push_scrollback_sel [simp]:
  "gw (push_scrollback l g) = gw g" "gh (push_scrollback l g) = gh g" "rows (push_scrollback l g) = rows g"
  "damage (push_scrollback l g) = damage g" "clusters (push_scrollback l g) = clusters g" "any_damage (push_scrollback l g) = any_damage g"
  "hyperlinks (push_scrollback l g) = hyperlinks g" "underline_colors (push_scrollback l g) = underline_colors g"
  "pending_scroll_up (push_scrollback l g) = pending_scroll_up g" "next_line_id (push_scrollback l g) = next_line_id g"
  "scrollback_limit (push_scrollback l g) = scrollback_limit g"
  by (simp_all add: push_scrollback_def)

lemma push_scrollback_set: "set (scrollback (push_scrollback l g)) \<subseteq> insert l (set (scrollback g))"
  using evict_set [of "scrollback_limit g" "scrollback g @ [l]"] by (auto simp: push_scrollback_def)

lemma scroll_up_sel:
  assumes "gh g \<noteq> 0" and "grid_wf g"
  shows "gw (scroll_up b g) = gw g" "gh (scroll_up b g) = gh g"
    "rows (scroll_up b g) = tl (rows g) @ [line_blank (gw g) b (next_line_id g)]"
    "clusters (scroll_up b g) = clusters g" "hyperlinks (scroll_up b g) = hyperlinks g" "underline_colors (scroll_up b g) = underline_colors g"
    "pending_scroll_up (scroll_up b g) = min (pending_scroll_up g + 1) (gh g)"
    "length (damage (scroll_up b g)) = gh g"
    "set (scrollback (scroll_up b g)) \<subseteq> insert (trim_default_tail (hd (rows g))) (set (scrollback g))"
  using assms push_scrollback_set [of "trim_default_tail (hd (rows g))" "g\<lparr>next_line_id := next_line_id g + 1, rows := tl (rows g)\<rparr>"]
  by (simp_all add: scroll_up_def Let_def grid_wf_def)

lemma scroll_up_damage:
  assumes "grid_wf g" and "y < gh g" and "gw g \<noteq> 0"
  shows "damage (scroll_up b g) ! y = (if y = gh g - 1 then \<lparr>dirty = True, lo = 0, hi = gw g - 1\<rparr> else damage g ! (y + 1))"
proof -
  have "length (tl (damage g)) = gh g - 1" "length (damage g) = gh g" using assms by (simp_all add: grid_wf_def)
  then show ?thesis using assms(2,3)
    by (auto simp: scroll_up_def Let_def mark_rows_damaged_def fold_update_nth nth_append nth_tl)
qed

lemma scroll_up_sane:
  assumes "sane g" and "plain_blank b"
  shows "sane (scroll_up b g)"
proof (cases "gh g = 0")
  case True
  then show ?thesis using assms by (simp add: scroll_up_def)
next
  case False
  have w: "grid_wf g" using assms by (simp add: sane_def)
  note s = scroll_up_sel [OF False w, of b]
  have ne: "rows g \<noteq> []" using False w by (auto simp: grid_wf_def)
  show ?thesis
  proof (rule sane_rows [OF assms])
    fix l c assume l: "l \<in> set (scrollback (scroll_up b g) @ rows (scroll_up b g))" and c: "c \<in> set (cells l)"
    consider "l = trim_default_tail (hd (rows g))" | "l \<in> set (scrollback g)" | "l \<in> set (tl (rows g))" | "l = line_blank (gw g) b (next_line_id g)"
      using l s(3,9) by auto
    then show "c = b \<or> (\<exists>m\<in>set (scrollback g @ rows g). c \<in> set (cells m))"
    proof cases
      case 1
      then have "c \<in> set (cells (hd (rows g)))" using c trim_cells by auto
      then show ?thesis using ne by auto
    next
      case 3
      then show ?thesis using c ne by (auto dest: list.set_sel(2))
    qed (use c in \<open>auto simp: line_blank_def\<close>)
  next
    show "grid_wf (scroll_up b g)"
      using w s ne False by (auto simp: grid_wf_def line_blank_def dest: list.set_sel(2))
  qed (use s in auto)
qed

lemma scroll_up_faithful:
  assumes "sane g" and "faithful sh g"
  shows "faithful sh (scroll_up b g)"
proof (cases "gh g = 0")
  case True
  then show ?thesis using assms by (simp add: scroll_up_def)
next
  case False
  have w: "grid_wf g" using assms by (simp add: sane_def)
  note s = scroll_up_sel [OF False w, of b]
  have lk: "look (scroll_up b g) = look g" by (auto simp: look_def s fun_eq_iff)
  show ?thesis unfolding faithful_def s(1,2,7)
  proof (intro allI impI)
    fix x y assume xy: "x < gw g" "y < gh g"
    show "damaged (scroll_up b g) x y \<or> y + min (pending_scroll_up g + 1) (gh g) < gh g
        \<and> screen (scroll_up b g) x y = sh x (y + min (pending_scroll_up g + 1) (gh g))"
    proof (cases "y = gh g - 1")
      case True
      then show ?thesis using scroll_up_damage [OF w xy(2), of b] xy by (auto simp: damaged_def)
    next
      case last: False
      then have y1: "y + 1 < gh g" using xy by simp
      have "damaged (scroll_up b g) x y = damaged g x (y + 1)"
        using scroll_up_damage [OF w xy(2), of b] xy last by (simp add: damaged_def)
      moreover have "screen (scroll_up b g) x y = screen g x (y + 1)"
        using w y1 by (auto simp: screen_def gget_def lk s(3) grid_wf_def nth_append nth_tl)
      moreover have "damaged g x (y + 1) \<or> (y + 1 + pending_scroll_up g < gh g \<and> screen g x (y + 1) = sh x (y + 1 + pending_scroll_up g))"
        using assms(2) xy(1) y1 unfolding faithful_def by blast
      ultimately show ?thesis by (auto simp: ac_simps)
    qed
  qed
qed

text \<open>Removing one row of a region and inserting a blank one at its other end.\<close>

lemma remove_insert_nth:
  assumes "i < length xs" and "j < length xs" and "y < length xs"
  shows "list_insert_at j z (remove_at i xs) ! y =
      (if y = j then z else if i \<le> j then (if i \<le> y \<and> y < j then xs ! (y + 1) else xs ! y) else (if j < y \<and> y \<le> i then xs ! (y - 1) else xs ! y))"
  using assms by (auto simp: list_insert_at_def remove_at_def nth_append min_def nth_Cons intro!: arg_cong [of _ _ "(!) xs"] split: nat.splits)

lemma remove_insert_length: "i < length xs \<Longrightarrow> j < length xs \<Longrightarrow> length (list_insert_at j z (remove_at i xs)) = length xs"
  by (auto simp: list_insert_at_def remove_at_def)

lemma remove_insert_set: "set (list_insert_at j z (remove_at i xs)) \<subseteq> insert z (set xs)"
  by (auto simp: list_insert_at_def remove_at_def dest: in_set_takeD in_set_dropD)

text \<open>A scrolled region: the lines inside it are all damaged, the others are where they were.\<close>

definition region_scrolled :: "nat \<Rightarrow> nat \<Rightarrow> cell \<Rightarrow> grid \<Rightarrow> grid \<Rightarrow> bool" where
  "region_scrolled a b blank g h \<longleftrightarrow>
     (\<exists>i j k sb. (i = a \<and> j = b \<or> i = b \<and> j = a) \<and>
        set sb \<subseteq> set (scrollback g) \<union> set (rows g) \<and>
        h = mark_rows_damaged a b (g\<lparr>rows := list_insert_at j (line_blank (gw g) blank (next_line_id g)) (remove_at i (rows g)),
              scrollback := sb, next_line_id := k, pending_scroll_up := 0\<rparr>))"

lemma grid_upd_scrollback [simp]: "g\<lparr>rows := r, scrollback := scrollback g\<rparr> = g\<lparr>rows := r\<rparr>"
  by simp

lemma region_up_scrolled:
  assumes "a \<le> b" and "b < gh g" and "grid_wf g" and "\<not> (keep \<and> a = 0 \<and> b = gh g - 1)"
  shows "region_scrolled a b blank g (scroll_region_up_inner a b blank keep g)"
proof -
  let ?sb = "scrollback (if keep then push_scrollback (rows g ! a) (g\<lparr>rows := remove_at a (rows g)\<rparr>) else g)"
  have "rows g ! a \<in> set (rows g)" using assms by (auto simp: grid_wf_def)
  then have s: "set ?sb \<subseteq> set (scrollback g) \<union> set (rows g)"
    using push_scrollback_set [of "rows g ! a" "g\<lparr>rows := remove_at a (rows g)\<rparr>"] by auto
  have "scroll_region_up_inner a b blank keep g =
      mark_rows_damaged a b (g\<lparr>rows := list_insert_at b (line_blank (gw g) blank (next_line_id g)) (remove_at a (rows g)),
         scrollback := ?sb, next_line_id := next_line_id g + 1, pending_scroll_up := 0\<rparr>)"
    using assms by (cases g) (auto simp: scroll_region_up_inner_def Let_def alloc_line_id_def push_scrollback_def)
  then show ?thesis unfolding region_scrolled_def using s by blast
qed

lemma region_down_scrolled:
  assumes "a \<le> b" and "b < gh g"
  shows "region_scrolled a b blank g (scroll_region_down a b blank g)"
proof -
  have "scroll_region_down a b blank g =
      mark_rows_damaged a b (g\<lparr>rows := list_insert_at a (line_blank (gw g) blank (next_line_id g)) (remove_at b (rows g)),
         scrollback := scrollback g, next_line_id := next_line_id g + 1, pending_scroll_up := 0\<rparr>)"
    using assms by (cases g) (simp add: scroll_region_down_def Let_def alloc_line_id_def)
  then show ?thesis unfolding region_scrolled_def by blast
qed

lemma region_scrolled_sane:
  assumes "region_scrolled a b blank g h" and "a \<le> b" and "b < gh g" and "sane g" and "plain_blank blank"
  shows "sane h"
proof -
  obtain i j k sb where ij: "i = a \<and> j = b \<or> i = b \<and> j = a" and sb: "set sb \<subseteq> set (scrollback g) \<union> set (rows g)"
    and h: "h = mark_rows_damaged a b (g\<lparr>rows := list_insert_at j (line_blank (gw g) blank (next_line_id g)) (remove_at i (rows g)),
              scrollback := sb, next_line_id := k, pending_scroll_up := 0\<rparr>)"
    using assms(1) unfolding region_scrolled_def by blast
  have w: "grid_wf g" using assms(4) by (simp add: sane_def)
  have l: "i < length (rows g)" "j < length (rows g)" using ij assms(2,3) w by (auto simp: grid_wf_def)
  note rs = remove_insert_set [of j "line_blank (gw g) blank (next_line_id g)" i "rows g"]
  show ?thesis
  proof (rule sane_rows [OF assms(4,5)])
    fix m c assume "m \<in> set (scrollback h @ rows h)" "c \<in> set (cells m)"
    then show "c = blank \<or> (\<exists>m\<in>set (scrollback g @ rows g). c \<in> set (cells m))"
      using sb rs by (auto simp: h line_blank_def)
  next
    have "\<forall>m\<in>set (rows h). length (cells m) = gw g" using w rs by (auto simp: h grid_wf_def line_blank_def)
    then show "grid_wf h" using w remove_insert_length [OF l] by (simp add: h grid_wf_def)
  qed (simp_all add: h)
qed

lemma region_scrolled_faithful:
  assumes "region_scrolled a b blank g h" and "a \<le> b" and "b < gh g" and "sane g" and "faithful sh g"
    and "pending_scroll_up g = 0 \<or> (a = 0 \<and> b = gh g - 1)"
  shows "faithful sh h"
proof -
  obtain i j k sb where ij: "i = a \<and> j = b \<or> i = b \<and> j = a"
    and h: "h = mark_rows_damaged a b (g\<lparr>rows := list_insert_at j (line_blank (gw g) blank (next_line_id g)) (remove_at i (rows g)),
              scrollback := sb, next_line_id := k, pending_scroll_up := 0\<rparr>)"
    using assms(1) unfolding region_scrolled_def by blast
  have w: "grid_wf g" using assms(4) by (simp add: sane_def)
  have l: "i < length (rows g)" "j < length (rows g)" using ij assms(2,3) w by (auto simp: grid_wf_def)
  have dims: "gw h = gw g" "gh h = gh g" "pending_scroll_up h = 0" by (simp_all add: h)
  have "damaged h x y \<or> screen h x y = sh x y" if b: "x < gw g" "y < gh g" for x y
  proof (cases "a \<le> y \<and> y \<le> b")
    case True
    then show ?thesis using b w by (simp add: h damaged_mark_rows grid_wf_def)
  next
    case False
    then have z: "pending_scroll_up g = 0" using assms(6) b by auto
    have y: "y < length (rows g)" using b w by (simp add: grid_wf_def)
    have "damaged h x y \<longleftrightarrow> damaged g x y" using b w False by (simp add: h damaged_mark_rows grid_wf_def) (auto simp: damaged_def)
    moreover have "rows h ! y = rows g ! y" using remove_insert_nth [OF l y] ij False assms(2) by (auto simp: h)
    then have "screen h x y = screen g x y" by (simp add: screen_def gget_def h look_def)
    moreover have "damaged g x y \<or> screen g x y = sh x y" using assms(5) b z by (auto simp: faithful_def)
    ultimately show ?thesis by simp
  qed
  then show ?thesis by (simp add: faithful_def dims)
qed

section \<open>Interning colours and links\<close>

lemma compact_underline_colors_sane:
  assumes "sane g"
  shows "sane (compact_underline_colors g)"
proof -
  let ?f = "compact_color_cell (underline_colors g)"
  let ?p = "map_cells ?f (scrollback g) ([ColorDefault], [])"
  let ?q = "map_cells ?f (rows g) (snd ?p)"
  have ok: "colors_ok ([ColorDefault], [])" by (simp add: rebuilt_ok_def colors_ok_def list_get_def)
  note 1 = color_pass.lines_pass [OF ok, of "underline_colors g" "scrollback g"]
  note 2 = color_pass.lines_pass [of "snd ?p" "underline_colors g" "rows g"]
  have g2: "colors_ok (snd ?q)" "grown (snd ?p) (snd ?q)" using 1 2 by auto
  have sb: "lines_related (\<lambda>c d. same_color (underline_colors g) c d (snd ?q)) (scrollback g) (fst ?p)"
    using 1 color_pass.rel_grows [OF _ g2(2)] unfolding lines_related_def by (auto elim!: list_all2_mono)
  have ls: "lines_related (\<lambda>c d. same_color (underline_colors g) c d (snd ?q)) (rows g) (fst ?q)"
    using 1 2 unfolding lines_related_def by auto
  let ?h = "compact_underline_colors g"
  have e: "scrollback ?h = fst ?p" "rows ?h = fst ?q" "underline_colors ?h = fst (snd ?q)" "clusters ?h = clusters g" "hyperlinks ?h = hyperlinks g"
    by (simp_all add: compact_underline_colors_def split_beta Let_def)
  have m: "valid g c \<Longrightarrow> same_color (underline_colors g) c d (snd ?q) \<Longrightarrow> valid ?h d" for c d
    by (cases c; cases d) (auto simp: valid_def same_color_def e)
  have "valid ?h d" if "l \<in> set (fst ?p @ fst ?q)" "d \<in> set (cells l)" for l d
  proof -
    have "\<exists>l c. l \<in> set (scrollback g @ rows g) \<and> c \<in> set (cells l) \<and> same_color (underline_colors g) c d (snd ?q)"
      using that lines_related_set [OF sb] lines_related_set [OF ls] by (metis UnE UnI1 UnI2 set_append)
    then show ?thesis using assms m unfolding sane_def all_valid_def by blast
  qed
  then have "all_valid ?h" unfolding all_valid_def e by blast
  moreover have "grid_wf ?h" "colors_wf ?h"
    using assms compact_underline_colors_same [of g] same_looks_wf by (auto simp: sane_def)
  ultimately show ?thesis using assms by (simp add: sane_def e)
qed

lemma push_color_same:
  "sane g \<Longrightarrow> same_looks g (g\<lparr>underline_colors := underline_colors g @ [c]\<rparr>) \<and> sane (g\<lparr>underline_colors := underline_colors g @ [c]\<rparr>)"
proof -
  assume g: "sane g"
  let ?h = "g\<lparr>underline_colors := underline_colors g @ [c]\<rparr>"
  have "look ?h d = look g d \<and> valid ?h d" if "valid g d" for d
    using that by (auto simp: look_def valid_def underline_color_def list_get_def nth_append cell_text_owned_def)
  then show ?thesis using g
    unfolding same_looks_def lines_related_def sane_def all_valid_def grid_wf_def colors_wf_def
    by (auto simp: list_all2_same list_get_append intro!: list_all2_refl)
qed

lemma intern_underline_color_ok:
  assumes "sane g" and "intern_underline_color c g = (h, g1)"
  shows "sane g1 \<and> same_looks g g1 \<and> h < length (underline_colors g1) \<and> (h \<noteq> 0 \<longrightarrow> underline_color (underline_colors g1) h = c)"
proof -
  have p: "position (\<lambda>e. e = c) us = Some i \<Longrightarrow> i < length us \<and> underline_color us i = c" for us i
    using position_SomeD [of "\<lambda>e. e = c" us i] by (auto simp: underline_color_def list_get_def)
  have z: "sane k \<Longrightarrow> 0 < length (underline_colors k)" for k
    by (auto simp: sane_def colors_wf_def list_get_def split: if_splits)
  have l: "underline_color (us @ [c]) (length us) = c" for us by (simp add: underline_color_def)
  note k = compact_underline_colors_sane [OF assms(1)] conjunct1 [OF compact_underline_colors_same]
  have kk: "sane (compact_underline_colors g)" "same_looks g (compact_underline_colors g)"
    using k assms(1) by (auto simp: sane_def)
  note add = push_color_same [OF assms(1), of c] and add2 = push_color_same [OF kk(1), of c]
  show ?thesis
    using assms z [OF assms(1)] z [OF kk(1)] l kk add add2 same_looks_trans [OF kk(2)]
    unfolding intern_underline_color_def Let_def
    by (auto split: if_splits option.splits dest: p)
qed

lemma compact_hyperlinks_sane: "sane g \<Longrightarrow> sane (compact_hyperlinks g)"
proof -
  assume g: "sane g"
  have "valid (compact_hyperlinks g) c" if "l \<in> set (scrollback g @ rows g)" "c \<in> set (cells l)" for l c
  proof (cases "link c = 0")
    case False
    then have "link c \<in> set (concat (map (\<lambda>l. filter (\<lambda>h. h \<noteq> 0) (map link (cells l))) (scrollback g @ rows g)))"
      using that by auto
    from map_of_filter_keys [OF this, of "hyperlinks g"] show ?thesis using g that
      unfolding sane_def all_valid_def valid_def compact_hyperlinks_def Let_def by simp
  next
    case True
    then show ?thesis using g that unfolding sane_def all_valid_def valid_def compact_hyperlinks_def Let_def by simp
  qed
  then have "all_valid (compact_hyperlinks g)" by (auto simp: all_valid_def compact_hyperlinks_def Let_def)
  then show ?thesis using g by (simp add: sane_def grid_wf_def colors_wf_def compact_hyperlinks_def Let_def)
qed

lemma push_link_same:
  "sane g \<Longrightarrow> map_of (hyperlinks g) h = None \<Longrightarrow> h \<noteq> 0 \<Longrightarrow>
     same_looks g (g\<lparr>next_hyperlink := n, hyperlinks := (h, uri) # hyperlinks g\<rparr>)
     \<and> sane (g\<lparr>next_hyperlink := n, hyperlinks := (h, uri) # hyperlinks g\<rparr>)"
proof -
  assume g: "sane g" "map_of (hyperlinks g) h = None" "h \<noteq> 0"
  let ?h = "g\<lparr>next_hyperlink := n, hyperlinks := (h, uri) # hyperlinks g\<rparr>"
  have "look ?h d = look g d \<and> valid ?h d" if "valid g d" for d
    using that g(2,3) by (auto simp: look_def valid_def hyperlink_def cell_text_owned_def)
  then show ?thesis using g
    unfolding same_looks_def lines_related_def sane_def all_valid_def grid_wf_def colors_wf_def
    by (auto simp: list_all2_same intro!: list_all2_refl)
qed

text \<open>The number of candidates between a handle and a free one, in the order the search tries them.\<close>

definition handle_distance :: "nat \<Rightarrow> nat \<Rightarrow> nat" where
  "handle_distance c f = (if c \<le> f then f - c else (2 ^ 32 - 1 - c) + f)"

lemma free_handle_reaches:
  "0 < c \<Longrightarrow> c < 2 ^ 32 \<Longrightarrow> 0 < f \<Longrightarrow> f < 2 ^ 32 \<Longrightarrow> map_of hs f = None \<Longrightarrow>
     \<exists>h n. free_handle hs c = Some (h, n) \<and> map_of hs h = None \<and> 0 < h \<and> h < 2 ^ 32 \<and> 0 < n \<and> n < 2 ^ 32"
proof (induction "handle_distance c f" arbitrary: c rule: less_induct)
  case less
  have nc: "0 < next_candidate c" "next_candidate c < 2 ^ 32" by (auto simp: next_candidate_def max_def)
  have m: "max c 1 = c" using less.prems(1) by simp
  show ?case
  proof (cases "map_of hs c")
    case None
    then show ?thesis using less.prems nc by (subst free_handle.simps) (simp only: Let_def m, simp)
  next
    case (Some v)
    then have "c \<noteq> f" using less.prems(5) by auto
    then have "handle_distance (next_candidate c) f < handle_distance c f"
      using less.prems by (cases "c = 2 ^ 32 - 1") (auto simp: handle_distance_def next_candidate_def)
    from less.hyps [OF this nc less.prems(3-5)] show ?thesis
      using Some by (subst free_handle.simps) (simp only: Let_def m, simp)
  qed
qed

lemma free_handle_exists:
  fixes hs :: "(nat \<times> str) list"
  assumes "length hs < 2 ^ 32 - 1"
  obtains f where "0 < f" and "f < 2 ^ 32" and "map_of hs f = None"
proof -
  have "\<not> {1..<2 ^ 32 :: nat} \<subseteq> set (map fst hs)"
  proof
    assume "{1..<2 ^ 32 :: nat} \<subseteq> set (map fst hs)"
    then have "card {1..<2 ^ 32 :: nat} \<le> card (set (map fst hs))" by (intro card_mono) simp_all
    also have "\<dots> \<le> length hs" using card_length [of "map fst hs"] by simp
    finally show False using assms by simp
  qed
  then obtain f where "f \<in> {1..<2 ^ 32}" "f \<notin> set (map fst hs)" by blast
  then show thesis by (intro that [of f]) (auto simp: map_of_eq_None_iff)
qed

lemma intern_hyperlink_ok:
  assumes "sane g" and "intern_hyperlink uri g = Some (h, g1)" and "0 < next_hyperlink g" and "next_hyperlink g < 2 ^ 32"
    and "length (hyperlinks g) < 2 ^ 32 - 1" and "distinct (map fst (hyperlinks g))"
  shows "sane g1 \<and> same_looks g g1 \<and> (h \<noteq> 0 \<longrightarrow> hyperlink (hyperlinks g1) h = Some uri)"
proof -
  define g0 where "g0 = (if length (hyperlinks g) \<ge> hyperlink_gc_at g then compact_hyperlinks g else g)"
  have g0: "sane g0" "same_looks g g0" "next_hyperlink g0 = next_hyperlink g" "length (hyperlinks g0) \<le> length (hyperlinks g)"
    unfolding g0_def using assms(1) compact_hyperlinks_sane compact_hyperlinks_same
    by (auto simp: compact_hyperlinks_def Let_def)
  obtain f where f: "0 < f" "f < 2 ^ 32" "map_of (hyperlinks g0) f = None"
    using free_handle_exists [of "hyperlinks g0"] g0(4) assms(5) by auto
  obtain k n where k: "free_handle (hyperlinks g0) (next_hyperlink g0) = Some (k, n)" "map_of (hyperlinks g0) k = None" "0 < k"
    using free_handle_reaches [OF _ _ f, of "next_hyperlink g0"] assms(3,4) g0(3) by auto
  have found: "find (\<lambda>(_, v). v = uri) (hyperlinks g) = Some (a, b) \<Longrightarrow> map_of (hyperlinks g) a = Some uri" for a b
    using assms(6) by (auto simp: find_Some_iff intro!: map_of_is_SomeI) (metis nth_mem)
  show ?thesis
  proof (cases "uri = [] \<or> str_len uri > 8192 \<or> list_ex is_control uri")
    case True
    then show ?thesis using assms(1,2) by (auto simp: intern_hyperlink_def)
  next
    case bad: False
    show ?thesis
    proof (cases "find (\<lambda>(_, v). v = uri) (hyperlinks g)")
      case None
      then have "h = k" "g1 = g0\<lparr>next_hyperlink := n, hyperlinks := (k, uri) # hyperlinks g0\<rparr>"
        using assms(2) bad k(1) None unfolding intern_hyperlink_def Let_def g0_def [symmetric] by auto
      then show ?thesis using push_link_same [OF g0(1) k(2), where n = n and uri = uri] k(3) same_looks_trans [OF g0(2)]
        by (auto simp: hyperlink_def)
    next
      case (Some p)
      then have "h = fst p" "g1 = g" using assms(2) bad by (auto simp: intern_hyperlink_def split_beta)
      then show ?thesis using found [of "fst p" "snd p"] Some assms(1) by (auto simp: hyperlink_def)
    qed
  qed
qed

text \<open>Interning a link always ends while not every 32-bit handle is taken.\<close>

lemma intern_hyperlink_ends:
  assumes "0 < next_hyperlink g" and "next_hyperlink g < 2 ^ 32" and "length (hyperlinks g) < 2 ^ 32 - 1"
  shows "intern_hyperlink uri g \<noteq> None"
proof -
  define g0 where "g0 = (if length (hyperlinks g) \<ge> hyperlink_gc_at g then compact_hyperlinks g else g)"
  have g0: "next_hyperlink g0 = next_hyperlink g" "length (hyperlinks g0) \<le> length (hyperlinks g)"
    unfolding g0_def by (auto simp: compact_hyperlinks_def Let_def)
  obtain f where f: "0 < f" "f < 2 ^ 32" "map_of (hyperlinks g0) f = None"
    using free_handle_exists [of "hyperlinks g0"] g0(2) assms(3) by auto
  obtain k n where "free_handle (hyperlinks g0) (next_hyperlink g0) = Some (k, n)"
    using free_handle_reaches [OF _ _ f, of "next_hyperlink g0"] assms(1,2) g0(1) by auto
  then show ?thesis unfolding intern_hyperlink_def Let_def g0_def [symmetric] by (auto split: option.split)
qed

section \<open>Sequences of edits\<close>

datatype edit =
    ClearGlyph nat nat cell
  | EraseCells nat nat nat cell
  | DeleteCells nat nat nat cell
  | InsertCells nat nat nat cell
  | SetGrapheme nat nat str cell nat
  | AppendToGrapheme nat nat rchar
  | ScrollUp cell
  | ScrollRegionUp nat nat cell
  | ScrollRegionUpDiscarding nat nat cell
  | ScrollRegionDown nat nat cell
  | InternColor color

fun apply_edit :: "(str \<Rightarrow> nat) \<Rightarrow> (str \<Rightarrow> nat) \<Rightarrow> edit \<Rightarrow> grid \<Rightarrow> grid" where
  "apply_edit sw gc (ClearGlyph x y b) g = clear_glyph_at x y b g"
| "apply_edit sw gc (EraseCells y start stop b) g = erase_cells y start stop b g"
| "apply_edit sw gc (DeleteCells y start n b) g = delete_cells y start n b g"
| "apply_edit sw gc (InsertCells y start n b) g = insert_cells y start n b g"
| "apply_edit sw gc (SetGrapheme x y t c w) g = set_grapheme x y t c w g"
| "apply_edit sw gc (AppendToGrapheme x y r) g = fst (append_to_grapheme sw gc x y r g)"
| "apply_edit sw gc (ScrollUp b) g = scroll_up b g"
| "apply_edit sw gc (ScrollRegionUp i j b) g = scroll_region_up i j b g"
| "apply_edit sw gc (ScrollRegionUpDiscarding i j b) g = scroll_region_up_discarding i j b g"
| "apply_edit sw gc (ScrollRegionDown i j b) g = scroll_region_down i j b g"
| "apply_edit sw gc (InternColor c) g = snd (intern_underline_color c g)"

text \<open>An edit as the terminal issues it: blanks carry no handle, a written cell's handles are the grid's.\<close>

fun edit_ok :: "grid \<Rightarrow> edit \<Rightarrow> bool" where
  "edit_ok g (ClearGlyph x y b) = plain_blank b"
| "edit_ok g (EraseCells y start stop b) = plain_blank b"
| "edit_ok g (DeleteCells y start n b) = plain_blank b"
| "edit_ok g (InsertCells y start n b) = plain_blank b"
| "edit_ok g (SetGrapheme x y t c w) = valid g c"
| "edit_ok g (AppendToGrapheme x y r) = True"
| "edit_ok g (ScrollUp b) = plain_blank b"
| "edit_ok g (ScrollRegionUp i j b) = plain_blank b"
| "edit_ok g (ScrollRegionUpDiscarding i j b) = plain_blank b"
| "edit_ok g (ScrollRegionDown i j b) = plain_blank b"
| "edit_ok g (InternColor c) = True"

text \<open>A region scroll after a scroll of the whole screen that no client has seen yet.\<close>

fun loses_scroll :: "grid \<Rightarrow> edit \<Rightarrow> bool" where
  "loses_scroll g (ScrollRegionUp i j b) = (pending_scroll_up g \<noteq> 0 \<and> i \<le> j \<and> j < gh g \<and> \<not> (i = 0 \<and> j = gh g - 1))"
| "loses_scroll g (ScrollRegionUpDiscarding i j b) = (pending_scroll_up g \<noteq> 0 \<and> i \<le> j \<and> j < gh g \<and> \<not> (i = 0 \<and> j = gh g - 1))"
| "loses_scroll g (ScrollRegionDown i j b) = (pending_scroll_up g \<noteq> 0 \<and> i \<le> j \<and> j < gh g \<and> \<not> (i = 0 \<and> j = gh g - 1))"
| "loses_scroll g e = False"

fun apply_edits :: "(str \<Rightarrow> nat) \<Rightarrow> (str \<Rightarrow> nat) \<Rightarrow> edit list \<Rightarrow> grid \<Rightarrow> grid" where
  "apply_edits sw gc [] g = g"
| "apply_edits sw gc (e # es) g = apply_edits sw gc es (apply_edit sw gc e g)"

fun edits_ok :: "(str \<Rightarrow> nat) \<Rightarrow> (str \<Rightarrow> nat) \<Rightarrow> (grid \<Rightarrow> edit \<Rightarrow> bool) \<Rightarrow> edit list \<Rightarrow> grid \<Rightarrow> bool" where
  "edits_ok sw gc P [] g = True"
| "edits_ok sw gc P (e # es) g = (edit_ok g e \<and> P g e \<and> edits_ok sw gc P es (apply_edit sw gc e g))"

lemma region_up_cases:
  "scroll_region_up_inner i j b keep g = g \<or> scroll_region_up_inner i j b keep g = scroll_up b g
     \<or> (i \<le> j \<and> j < gh g \<and> \<not> (keep \<and> i = 0 \<and> j = gh g - 1))"
  by (auto simp: scroll_region_up_inner_def)

lemma region_down_cases: "scroll_region_down i j b g = g \<or> (i \<le> j \<and> j < gh g)"
  by (auto simp: scroll_region_down_def)

lemma region_up_sane: "sane g \<Longrightarrow> plain_blank b \<Longrightarrow> sane (scroll_region_up_inner i j b keep g)"
  using region_up_cases [of i j b keep g] scroll_up_sane region_scrolled_sane [OF region_up_scrolled]
  by (metis sane_def)

lemma region_down_sane: "sane g \<Longrightarrow> plain_blank b \<Longrightarrow> sane (scroll_region_down i j b g)"
  using region_down_cases [of i j b g] region_scrolled_sane [OF region_down_scrolled] by metis

lemma apply_edit_sane: "sane g \<Longrightarrow> edit_ok g e \<Longrightarrow> sane (apply_edit sw gc e g)"
  using intern_underline_color_ok [of g]
  by (cases e) (auto simp: sane_edit.clear_keeps sane_edit.erase_keeps sane_edit.delete_keeps sane_edit.insert_keeps
      sane_edit.set_grapheme_keeps sane_edit.append_keeps scroll_up_sane scroll_region_up_def scroll_region_up_discarding_def
      region_up_sane region_down_sane prod_eq_iff)

lemma region_up_faithful:
  assumes "sane g" and "faithful sh g" and "pending_scroll_up g = 0 \<or> \<not> (i \<le> j \<and> j < gh g) \<or> (i = 0 \<and> j = gh g - 1)"
  shows "faithful sh (scroll_region_up_inner i j b keep g)"
  using region_up_cases [of i j b keep g] assms scroll_up_faithful region_scrolled_faithful [OF region_up_scrolled]
  by (metis sane_def)

lemma region_down_faithful:
  assumes "sane g" and "faithful sh g" and "pending_scroll_up g = 0 \<or> \<not> (i \<le> j \<and> j < gh g) \<or> (i = 0 \<and> j = gh g - 1)"
  shows "faithful sh (scroll_region_down i j b g)"
  using region_down_cases [of i j b g] assms region_scrolled_faithful [OF region_down_scrolled] by metis

lemma apply_edit_faithful:
  assumes "sane g" and "faithful sh g" and "edit_ok g e" and "\<not> loses_scroll g e"
  shows "faithful sh (apply_edit sw gc e g)"
proof -
  have c: "faithful sh (snd (intern_underline_color c g))" for c
    using intern_underline_color_ok [OF assms(1) prod.collapse [symmetric]] faithful_same_looks assms(1,2) by (auto simp: sane_def)
  show ?thesis
    using assms c faithful_edit.clear_keeps [of g sh] faithful_edit.erase_keeps [of g sh] faithful_edit.delete_keeps [of g sh]
      faithful_edit.insert_keeps [of g sh] faithful_edit.set_grapheme_keeps [of g sh] faithful_edit.append_keeps [of g sh]
    by (cases e) (auto simp: scroll_up_faithful scroll_region_up_def scroll_region_up_discarding_def
        intro!: region_up_faithful region_down_faithful)
qed

lemma apply_edits_faithful:
  "sane g \<Longrightarrow> faithful sh g \<Longrightarrow> edits_ok sw gc (\<lambda>g e. \<not> loses_scroll g e) es g \<Longrightarrow>
     sane (apply_edits sw gc es g) \<and> faithful sh (apply_edits sw gc es g)"
  by (induction es arbitrary: g) (auto simp: apply_edit_sane apply_edit_faithful)

text \<open>
  C5. Damage tracking is sound: from the moment a client has drawn everything, whatever edits
  follow, a cell that is not in the damage still looks, its handles resolved, as the client
  shows it once it has scrolled by the pending count. The exception is a scroll of a part of
  the screen after a scroll of the whole that the client has not seen.
\<close>

theorem damage_is_sound:
  assumes "sane g" and "edits_ok sw gc (\<lambda>g e. \<not> loses_scroll g e) es (clear_damage g)"
    and "h = apply_edits sw gc es (clear_damage g)" and "x < gw h" and "y < gh h" and "\<not> damaged h x y"
  shows "y + pending_scroll_up h < gh h \<and> screen h x y = screen (clear_damage g) x (y + pending_scroll_up h)"
proof -
  have "sane (clear_damage g)"
    using assms(1) unfolding sane_def grid_wf_def all_valid_def valid_def colors_wf_def by (auto simp: clear_damage_def)
  from apply_edits_faithful [OF this faithful_clear [OF assms(1)] assms(2)] show ?thesis
    using assms(3-6) by (auto simp: faithful_def)
qed

theorem damage_is_sound_witness:
  "screen (apply_edits (\<lambda>_. 1) (\<lambda>_. 1) [ScrollUp cell_default] (clear_damage (grid_new 2 3))) 1 0 =
     screen (clear_damage (grid_new 2 3)) 1 1"
proof -
  let ?h = "apply_edits (\<lambda>_. 1) (\<lambda>_. 1) [ScrollUp cell_default] (clear_damage (grid_new 2 3))"
  have "gw ?h = 2 \<and> gh ?h = 3 \<and> pending_scroll_up ?h = 1 \<and> \<not> damaged ?h 1 0 \<and> plain_blank cell_default" by code_simp
  then show ?thesis
    using damage_is_sound [OF sane_new, of "\<lambda>_. 1" "\<lambda>_. 1" "[ScrollUp cell_default]" 2 3 ?h 1 0] by simp
qed


end
