(* ===== verification/Grid_Wide.thy ===== *)
theory Grid_Wide
  imports Grid_Edit
begin

text \<open>
  Wide glyphs: a lead cell of width two is followed by exactly one continuation cell of width
  zero. Editing never leaves half a glyph behind, although deletion and insertion cut rows at
  any column.
\<close>

section \<open>Rows of widths\<close>

definition pair_ok :: "nat list \<Rightarrow> nat \<Rightarrow> bool" where
  "pair_ok ws x \<longleftrightarrow> (ws ! x = 0 \<longrightarrow> 0 < x \<and> ws ! (x - 1) = 2) \<and> (ws ! x = 2 \<longrightarrow> x + 1 < length ws \<and> ws ! (x + 1) = 0)"

definition paired :: "nat list \<Rightarrow> bool" where
  "paired ws \<longleftrightarrow> (\<forall>x<length ws. pair_ok ws x)"

definition widths :: "grid \<Rightarrow> nat \<Rightarrow> nat list" where
  "widths g y = map width (cells (rows g ! y))"

definition all_paired :: "grid \<Rightarrow> bool" where
  "all_paired g \<longleftrightarrow> (\<forall>y<gh g. paired (widths g y))"

lemma widths_length: "grid_wf g \<Longrightarrow> y < gh g \<Longrightarrow> length (widths g y) = gw g"
  by (simp add: widths_def grid_wf_row)

lemma widths_nth: "grid_wf g \<Longrightarrow> y < gh g \<Longrightarrow> x < gw g \<Longrightarrow> widths g y ! x = width (gget x y g)"
  by (simp add: widths_def gget_def grid_wf_row)

lemma widths_gset:
  assumes "grid_wf g" and "y' < gh g"
  shows "widths (gset x y c g) y' = (if y' = y \<and> x < gw g then (widths g y)[x := width c] else widths g y')"
proof (rule nth_equalityI)
  note w = gset_wf [OF assms(1), of x y c]
  show "length (widths (gset x y c g) y') = length (if y' = y \<and> x < gw g then (widths g y)[x := width c] else widths g y')"
    using widths_length [OF w, of y'] widths_length [OF assms] assms(2) by auto
  fix i assume "i < length (widths (gset x y c g) y')"
  then have i: "i < gw g" using widths_length [OF w, of y'] assms(2) by simp
  show "widths (gset x y c g) y' ! i = (if y' = y \<and> x < gw g then (widths g y)[x := width c] else widths g y') ! i"
    using widths_nth [OF w, of y' i] widths_nth [OF assms, of i] gget_gset [OF assms(1) i assms(2), of x y c] i assms(2)
      widths_length [OF assms] by (auto simp: nth_list_update)
qed

text \<open>Clearing a glyph on a row of widths.\<close>

definition clear_widths :: "nat list \<Rightarrow> nat \<Rightarrow> nat list" where
  "clear_widths ws x =
     (if ws ! x = 0 \<and> 0 < x then ws[x - 1 := 1, x := 1]
      else if ws ! x = 2 \<and> x + 1 < length ws then ws[x := 1, x + 1 := 1] else ws[x := 1])"

text \<open>Narrow cells may replace any set of cells that contains both halves of every glyph it touches.\<close>

lemma paired_blanked:
  assumes "paired ws" and "length vs = length ws"
    and v: "\<And>i. i < length ws \<Longrightarrow> vs ! i = (if i \<in> S then 1 else ws ! i)"
    and lead: "\<And>i. i \<in> S \<Longrightarrow> i < length ws \<Longrightarrow> ws ! i = 2 \<Longrightarrow> i + 1 \<in> S"
    and cont: "\<And>i. i \<in> S \<Longrightarrow> i < length ws \<Longrightarrow> ws ! i = 0 \<Longrightarrow> i - 1 \<in> S"
  shows "paired vs"
  unfolding paired_def assms(2)
proof (intro allI impI)
  fix x assume x: "x < length ws"
  show "pair_ok vs x"
  proof (cases "x \<in> S")
    case True
    then show ?thesis using v [OF x] by (simp add: pair_ok_def)
  next
    case False
    have p: "pair_ok ws x" using assms(1) x by (simp add: paired_def)
    have "0 < x \<and> vs ! (x - 1) = 2" if "ws ! x = 0"
      using that p x less_imp_diff_less [OF x, of 1] False v [of "x - 1"] lead [of "x - 1"] by (auto simp: pair_ok_def)
    moreover have "x + 1 < length ws \<and> vs ! (x + 1) = 0" if "ws ! x = 2"
      using that p x False v [of "x + 1"] cont [of "x + 1"] by (auto simp: pair_ok_def)
    ultimately show ?thesis using v [OF x] False assms(2) by (simp add: pair_ok_def)
  qed
qed

lemma clear_widths_paired:
  assumes "paired ws" and "x < length ws"
  shows "paired (clear_widths ws x)"
proof -
  have p: "pair_ok ws x" using assms by (simp add: paired_def)
  let ?S = "if ws ! x = 0 \<and> 0 < x then {x - 1, x} else if ws ! x = 2 \<and> x + 1 < length ws then {x, x + 1} else {x}"
  show ?thesis
  proof (rule paired_blanked [OF assms(1), of _ ?S])
    fix i assume "i \<in> ?S" "i < length ws" "ws ! i = 2"
    then show "i + 1 \<in> ?S" using p by (cases "x = 0") (auto simp: pair_ok_def split: if_splits)
  next
    fix i assume "i \<in> ?S" "i < length ws" "ws ! i = 0"
    then show "i - 1 \<in> ?S" using p by (auto simp: pair_ok_def split: if_splits)
  qed (use assms(2) in \<open>auto simp: clear_widths_def nth_list_update\<close>)
qed

lemma clear_widths_at: "x < length ws \<Longrightarrow> clear_widths ws x ! x = 1"
  by (auto simp: clear_widths_def nth_list_update)

lemma widths_clear:
  assumes "grid_wf g" and "x < gw g" and "y < gh g" and "y' < gh g" and "width b = 1"
  shows "widths (clear_glyph_at x y b g) y' = (if y' = y then clear_widths (widths g y) x else widths g y')"
  using assms gset_wf [OF assms(1)]
  by (auto simp: clear_glyph_at_def Let_def widths_gset clear_widths_def is_continuation_def widths_nth widths_length)


lemma clear_wf: "grid_wf g \<Longrightarrow> grid_wf (clear_glyph_at x y b g)"
  by (auto simp: clear_glyph_at_def Let_def intro!: gset_wf)

lemma clear_dims [simp]: "gw (clear_glyph_at x y b g) = gw g" "gh (clear_glyph_at x y b g) = gh g"
  by (simp_all add: clear_glyph_at_def Let_def)

lemma clear_paired:
  assumes "grid_wf g" and "all_paired g" and "width b = 1"
  shows "all_paired (clear_glyph_at x y b g)"
proof (cases "x < gw g \<and> y < gh g")
  case True
  then show ?thesis using assms widths_clear [OF assms(1), of x y _ b]
    by (auto simp: all_paired_def intro!: clear_widths_paired simp: widths_length)
next
  case False
  then have "clear_glyph_at x y b g = g" by (auto simp: clear_glyph_at_def)
  then show ?thesis using assms by simp
qed

lemma erase_loop_paired: "grid_wf g \<Longrightarrow> all_paired g \<Longrightarrow> width b = 1 \<Longrightarrow> all_paired (erase_loop x y stop b g)"
proof (induction x y stop b g rule: erase_loop.induct)
  case (1 x y stop b g)
  then show ?case by (subst erase_loop.simps) (simp add: clear_paired clear_wf)
qed

section \<open>Repair\<close>

text \<open>The repair of one column on a row of widths.\<close>

definition repair_width :: "nat \<Rightarrow> nat list \<Rightarrow> nat list" where
  "repair_width x ws =
     (if ws ! x = 0 then (if 0 < x \<and> ws ! (x - 1) = 2 then ws else ws[x := 1])
      else if ws ! x = 2 then (if x + 1 < length ws \<and> ws ! (x + 1) = 0 then ws else ws[x := 1]) else ws)"

lemma repair_width_length [simp]: "length (repair_width x ws) = length ws"
  by (simp add: repair_width_def)

lemma repair_width_step:
  assumes "\<forall>i<x. pair_ok ws i" and "x < length ws"
  shows "\<forall>i<Suc x. pair_ok (repair_width x ws) i"
proof (intro allI impI)
  fix i assume i: "i < Suc x"
  show "pair_ok (repair_width x ws) i"
  proof (cases "i = x")
    case True
    then show ?thesis using assms(2) by (auto simp: pair_ok_def repair_width_def)
  next
    case False
    then have p: "pair_ok ws i" and ix: "i < x" using assms(1) i by auto
    then show ?thesis using assms(2) by (auto simp: pair_ok_def repair_width_def nth_list_update split: if_splits)
  qed
qed

lemma repair_widths_paired: "paired (fold repair_width [0..<length ws] ws)"
proof -
  have "n \<le> length ws \<Longrightarrow> length (fold repair_width [0..<n] ws) = length ws \<and> (\<forall>i<n. pair_ok (fold repair_width [0..<n] ws) i)" for n
  proof (induction n)
    case (Suc n)
    then show ?case using repair_width_step [of n "fold repair_width [0..<n] ws"] by simp
  qed simp
  then show ?thesis by (simp add: paired_def)
qed

lemma repair_step_wf: "grid_wf g \<Longrightarrow> grid_wf (repair_step y b x g)"
  by (simp add: repair_step_def Let_def gset_wf)

lemma repair_step_dims [simp]: "gw (repair_step y b x g) = gw g" "gh (repair_step y b x g) = gh g"
  by (simp_all add: repair_step_def Let_def)

lemma widths_repair_step:
  assumes "grid_wf g" and "y < gh g" and "y' < gh g" and "x < gw g" and "width b = 1"
  shows "widths (repair_step y b x g) y' = (if y' = y then repair_width x (widths g y) else widths g y')"
proof -
  have n: "x + 1 < gw g \<Longrightarrow> widths g y ! (x + 1) = width (gget (x + 1) y g)" "widths g y ! (x - 1) = width (gget (x - 1) y g)"
    using widths_nth [OF assms(1,2), of "x + 1"] widths_nth [OF assms(1,2), of "x - 1"] assms(4) by auto
  show ?thesis
    using assms n by (auto simp: repair_step_def Let_def widths_gset repair_width_def is_continuation_def widths_nth widths_length)
qed

lemma widths_repair:
  assumes "grid_wf g" and "y < gh g" and "y' < gh g" and "width b = 1"
  shows "widths (repair_wide_row y b g) y' = (if y' = y then fold repair_width [0..<gw g] (widths g y) else widths g y')"
proof -
  have "n \<le> gw g \<Longrightarrow> grid_wf (fold (repair_step y b) [0..<n] g) \<and> gw (fold (repair_step y b) [0..<n] g) = gw g
      \<and> gh (fold (repair_step y b) [0..<n] g) = gh g
      \<and> (\<forall>y'<gh g. widths (fold (repair_step y b) [0..<n] g) y' = (if y' = y then fold repair_width [0..<n] (widths g y) else widths g y'))" for n
  proof (induction n)
    case (Suc n)
    then show ?case using widths_repair_step [of "fold (repair_step y b) [0..<n] g" y _ n b] assms(2,4)
      by (simp add: repair_step_wf)
  qed (use assms in auto)
  from this [of "gw g"] show ?thesis using assms(3) by (simp add: repair_wide_row_def)
qed

lemma repair_paired:
  assumes "grid_wf g" and "y < gh g" and "width b = 1" and "\<And>y'. y' < gh g \<Longrightarrow> y' \<noteq> y \<Longrightarrow> paired (widths g y')"
  shows "all_paired (repair_wide_row y b g)"
proof -
  have "gh (repair_wide_row y b g) = gh g"
    unfolding repair_wide_row_def by (rule fold_preserves [where I = "\<lambda>h. gh h = gh g"]) auto
  moreover have "paired (fold repair_width [0..<gw g] (widths g y))"
    using repair_widths_paired [of "widths g y"] widths_length [OF assms(1,2)] by simp
  ultimately show ?thesis using assms widths_repair [OF assms(1,2) _ assms(3)] by (auto simp: all_paired_def)
qed

section \<open>Every edit keeps glyphs whole\<close>

lemma move_other_rows:
  assumes "grid_wf g" and "y' < gh g" and "y' \<noteq> y"
  shows "widths (fold (\<lambda>x h. gset x y (f x h) h) xs g) y' = widths g y'"
proof -
  have "grid_wf (fold (\<lambda>x h. gset x y (f x h) h) xs g) \<and> gh (fold (\<lambda>x h. gset x y (f x h) h) xs g) = gh g
      \<and> widths (fold (\<lambda>x h. gset x y (f x h) h) xs g) y' = widths g y'"
    by (rule fold_preserves [where I = "\<lambda>h. grid_wf h \<and> gh h = gh g \<and> widths h y' = widths g y'"])
      (use assms in \<open>auto simp: gset_wf widths_gset\<close>)
  then show ?thesis by simp
qed

lemma move_wf: "grid_wf g \<Longrightarrow> grid_wf (fold (\<lambda>x h. gset x y (f x h) h) xs g)"
  by (rule fold_preserves) (auto intro: gset_wf)

lemma move_dims [simp]:
  "gw (fold (\<lambda>x h. gset x y (f x h) h) xs g) = gw g" "gh (fold (\<lambda>x h. gset x y (f x h) h) xs g) = gh g"
  by (rule fold_preserves [where I = "\<lambda>h. gw h = gw g"], auto) (rule fold_preserves [where I = "\<lambda>h. gh h = gh g"], auto)

lemma delete_paired: "grid_wf g \<Longrightarrow> all_paired g \<Longrightarrow> width b = 1 \<Longrightarrow> all_paired (delete_cells y start n b g)"
  by (auto simp: delete_cells_def Let_def move_wf move_other_rows all_paired_def [of g] intro!: repair_paired)

lemma insert_paired: "grid_wf g \<Longrightarrow> all_paired g \<Longrightarrow> width b = 1 \<Longrightarrow> all_paired (insert_cells y start n b g)"
  by (auto simp: insert_cells_def Let_def move_wf move_other_rows all_paired_def [of g] intro!: repair_paired)

lemma same_looks_widths:
  assumes "same_looks g h" and "y < length (rows g)"
  shows "widths h y = widths g y"
proof (rule nth_equalityI)
  have r: "lines_related (\<lambda>c d. look h d = look g c) (rows g) (rows h)" using assms(1) by (simp add: same_looks_def)
  show "length (widths h y) = length (widths g y)" using lines_related_shape [OF r] assms(2) by (simp add: widths_def)
  fix i assume "i < length (widths h y)"
  then have i: "i < length (cells (rows g ! y))" "i < length (cells (rows h ! y))"
    using lines_related_shape [OF r] assms(2) by (auto simp: widths_def)
  show "widths h y ! i = widths g y ! i"
    using lines_related_cell [OF r assms(2) i(1)] i by (simp add: widths_def look_def)
qed

lemma same_looks_paired: "same_looks g h \<Longrightarrow> grid_wf g \<Longrightarrow> all_paired g \<Longrightarrow> all_paired h"
  using same_looks_widths [of g h] by (auto simp: all_paired_def grid_wf_def same_looks_def)

text \<open>A glyph is written over cells that are narrow by then.\<close>

lemma write_narrow: "paired ws \<Longrightarrow> ws ! x = 1 \<Longrightarrow> x < length ws \<Longrightarrow> paired (ws[x := 1])"
  by (metis list_update_id)

lemma write_wide:
  assumes "paired ws" and "x + 1 < length ws" and "ws ! x = 1" and "ws ! (x + 1) = 1"
  shows "paired (ws[x := 2, x + 1 := 0])"
  unfolding paired_def
proof (intro allI impI)
  fix i assume i: "i < length (ws[x := 2, x + 1 := 0])"
  have p: "pair_ok ws i" using assms(1) i by (simp add: paired_def)
  show "pair_ok (ws[x := 2, x + 1 := 0]) i"
  proof (cases "i = x \<or> i = x + 1")
    case True
    then show ?thesis using assms by (auto simp: pair_ok_def nth_list_update)
  next
    case False
    let ?v = "ws[x := 2, x + 1 := 0]"
    have vi: "?v ! i = ws ! i" using False by simp
    have "0 < i \<and> ?v ! (i - 1) = 2" if "ws ! i = 0"
    proof -
      have "0 < i" "ws ! (i - 1) = 2" using that p by (auto simp: pair_ok_def)
      moreover from this have "i - 1 \<noteq> x" "i - 1 \<noteq> x + 1" using assms(3,4) by auto
      ultimately show ?thesis by simp
    qed
    moreover have "i + 1 < length ?v \<and> ?v ! (i + 1) = 0" if "ws ! i = 2"
    proof -
      have "i + 1 < length ws" "ws ! (i + 1) = 0" using that p by (auto simp: pair_ok_def)
      moreover from this have "i + 1 \<noteq> x" "i + 1 \<noteq> x + 1" using assms(3,4) by auto
      ultimately show ?thesis by simp
    qed
    ultimately show ?thesis unfolding pair_ok_def vi by blast
  qed
qed

lemma clear_widths_next:
  assumes "paired ws" and "x + 1 < length ws"
  shows "clear_widths (clear_widths ws x) (x + 1) ! x = 1" and "clear_widths (clear_widths ws x) (x + 1) ! (x + 1) = 1"
proof -
  let ?v = "clear_widths ws x"
  have l: "length ?v = length ws" by (simp add: clear_widths_def)
  have v: "?v ! x = 1" using assms by (simp add: clear_widths_at)
  have p: "pair_ok ?v (x + 1)" using clear_widths_paired [OF assms(1), of x] assms l by (simp add: paired_def)
  then have n: "?v ! (x + 1) \<noteq> 0" using v by (auto simp: pair_ok_def)
  show "clear_widths ?v (x + 1) ! (x + 1) = 1" using assms l by (simp add: clear_widths_at)
  show "clear_widths ?v (x + 1) ! x = 1" using n v assms l by (auto simp: clear_widths_def [of ?v] nth_list_update)
qed

lemma set_grapheme_paired:
  assumes "sane g" and "all_paired g" and "valid g c"
  shows "all_paired (set_grapheme x y t c w g)"
proof -
  let ?b = "blank_like c" and ?w = "max 1 (min 2 w)"
  have b: "width ?b = 1" "plain_blank ?b" by (simp_all add: plain_blank_def blank_like_def cell_default_def)
  have wf: "grid_wf g" using assms(1) by (simp add: sane_def)
  show ?thesis
  proof (cases "x \<ge> gw g \<or> y \<ge> gh g \<or> (?w = 2 \<and> x + 1 \<ge> gw g)")
    case True
    then have "set_grapheme x y t c w g = g" unfolding set_grapheme_def Let_def by auto
    then show ?thesis using assms by simp
  next
    case False
    then have xy: "x < gw g" "y < gh g" "?w = 2 \<Longrightarrow> x + 1 < gw g" by auto
    define g2 where "g2 = (if ?w = 2 then clear_glyph_at (x + 1) y ?b (clear_glyph_at x y ?b g) else clear_glyph_at x y ?b g)"
    define kg where "kg = (if length t > 1 then intern t g2 else (0, g2))"
    have g2: "grid_wf g2" "all_paired g2" "gw g2 = gw g" "gh g2 = gh g" "sane g2"
      unfolding g2_def using wf assms(1,2) b by (auto simp: clear_wf clear_paired sane_edit.clear_keeps)
    have one: "widths g2 y ! x = 1" "?w = 2 \<Longrightarrow> widths g2 y ! (x + 1) = 1"
    proof -
      have p: "paired (widths g y)" and l: "length (widths g y) = gw g"
        using assms(2) xy(2) widths_length [OF wf] by (auto simp: all_paired_def)
      have "widths g2 y = (if ?w = 2 then clear_widths (clear_widths (widths g y) x) (x + 1) else clear_widths (widths g y) x)"
        unfolding g2_def using xy wf b(1) by (simp add: widths_clear clear_wf)
      then show "widths g2 y ! x = 1" "?w = 2 \<Longrightarrow> widths g2 y ! (x + 1) = 1"
        using clear_widths_next [OF p, of x] clear_widths_at [of x "widths g y"] xy l by auto
    qed
    have sl: "same_looks g2 (snd kg)" unfolding kg_def using intern_ok(2) [OF g2(5)] by auto
    have k: "grid_wf (snd kg)" "all_paired (snd kg)" "gw (snd kg) = gw g" "gh (snd kg) = gh g" "widths (snd kg) y = widths g2 y"
      using same_looks_wf [OF sl g2(1)] same_looks_paired [OF sl g2(1,2)] sl g2 same_looks_widths [OF sl, of y] xy
      by (auto simp: same_looks_def grid_wf_def)
    let ?lead = "c\<lparr>ch := (case t of [] \<Rightarrow> 32 | t0 # _ \<Rightarrow> t0), width := ?w, cluster := fst kg\<rparr>"
    have e: "set_grapheme x y t c w g =
        (if ?w = 2 then gset (x + 1) y (continuation_of ?lead) (gset x y ?lead (snd kg)) else gset x y ?lead (snd kg))"
      using False unfolding set_grapheme_def Let_def split_beta g2_def [symmetric] kg_def [symmetric] by (simp only: de_Morgan_disj if_False simp_thms)
    have l: "length (widths g2 y) = gw g" using widths_length [OF g2(1)] g2 xy by simp
    have hh: "gh (set_grapheme x y t c w g) = gh g" unfolding e using k by simp
    have py: "paired (widths g2 y)" using g2 xy by (simp add: all_paired_def)
    show ?thesis
    proof (cases "?w = 2")
      case True
      have "paired (widths (set_grapheme x y t c w g) y')" if "y' < gh g" for y'
      proof (cases "y' = y")
        case y: True
        have "widths (set_grapheme x y t c w g) y = (widths g2 y)[x := 2, x + 1 := 0]"
          unfolding e using True k xy gset_wf [OF k(1)] by (simp add: widths_gset continuation_of_def numeral_2_eq_2)
        then show ?thesis using write_wide [OF py, of x] one True xy l y by simp
      next
        case False
        then show ?thesis unfolding e using True k that gset_wf [OF k(1)] by (simp add: widths_gset all_paired_def)
      qed
      then show ?thesis by (simp add: all_paired_def hh)
    next
      case narrow: False
      then have w1: "?w = 1" by simp
      have "paired (widths (set_grapheme x y t c w g) y')" if "y' < gh g" for y'
        using narrow k that xy write_narrow [OF py one(1)] l w1 unfolding e by (simp add: widths_gset all_paired_def)
      then show ?thesis by (simp add: all_paired_def hh)
    qed
  qed
qed

lemma append_paired: "sane g \<Longrightarrow> all_paired g \<Longrightarrow> all_paired (fst (append_to_grapheme sw gc x y r g))"
  by (auto simp: append_to_grapheme_def Let_def intro!: set_grapheme_paired sane_get)

lemma blank_row_paired: "width b = 1 \<Longrightarrow> paired (map width (cells (line_blank w b i)))"
  by (simp add: paired_def pair_ok_def line_blank_def)

lemma rows_paired_iff: "grid_wf g \<Longrightarrow> all_paired g \<longleftrightarrow> (\<forall>l\<in>set (rows g). paired (map width (cells l)))"
  by (auto simp: all_paired_def widths_def grid_wf_def all_set_conv_all_nth)

lemma rows_subset_paired:
  assumes "grid_wf g" and "grid_wf h" and "all_paired g" and "width b = 1"
    and "set (rows h) \<subseteq> insert (line_blank w b i) (set (rows g))"
  shows "all_paired h"
  using assms blank_row_paired by (auto simp: rows_paired_iff)

lemma scroll_up_paired: "sane g \<Longrightarrow> all_paired g \<Longrightarrow> plain_blank b \<Longrightarrow> all_paired (scroll_up b g)"
proof (cases "gh g = 0")
  case False
  assume g: "sane g" "all_paired g" "plain_blank b"
  have w: "grid_wf g" using g(1) by (simp add: sane_def)
  have "rows g \<noteq> []" using False w by (auto simp: grid_wf_def)
  then have "set (rows (scroll_up b g)) \<subseteq> insert (line_blank (gw g) b (next_line_id g)) (set (rows g))"
    using scroll_up_sel(3) [OF False w, of b] by (auto dest: list.set_sel(2))
  then show ?thesis using rows_subset_paired [OF w _ g(2)] scroll_up_sane [OF g(1,3)] g(3) by (auto simp: sane_def plain_blank_def)
qed (simp add: scroll_up_def)

lemma region_scrolled_paired:
  assumes "region_scrolled a b blank g h" and "sane g" and "sane h" and "all_paired g" and "width blank = 1"
  shows "all_paired h"
proof -
  have "set (rows h) \<subseteq> insert (line_blank (gw g) blank (next_line_id g)) (set (rows g))"
    using assms(1) remove_insert_set unfolding region_scrolled_def by fastforce
  then show ?thesis using rows_subset_paired [of g h blank "gw g" "next_line_id g"] assms by (simp add: sane_def)
qed

lemma region_up_paired:
  "sane g \<Longrightarrow> all_paired g \<Longrightarrow> plain_blank b \<Longrightarrow> all_paired (scroll_region_up_inner i j b keep g)"
  using region_up_cases [of i j b keep g] scroll_up_paired region_scrolled_paired [OF region_up_scrolled] region_up_sane
  by (metis plain_blank_def sane_def)

lemma region_down_paired: "sane g \<Longrightarrow> all_paired g \<Longrightarrow> plain_blank b \<Longrightarrow> all_paired (scroll_region_down i j b g)"
  using region_down_cases [of i j b g] region_scrolled_paired [OF region_down_scrolled] region_down_sane
  by (metis plain_blank_def)

lemma apply_edit_paired: "sane g \<Longrightarrow> all_paired g \<Longrightarrow> edit_ok g e \<Longrightarrow> all_paired (apply_edit sw gc e g)"
proof -
  assume g: "sane g" "all_paired g" "edit_ok g e"
  have w: "grid_wf g" using g(1) by (simp add: sane_def)
  have c: "all_paired (snd (intern_underline_color c g))" for c
    using intern_underline_color_ok [OF g(1) prod.collapse [symmetric]] same_looks_paired w g(2) by blast
  show ?thesis using g w c
    by (cases e) (auto simp: clear_paired erase_cells_def erase_loop_paired delete_paired insert_paired set_grapheme_paired append_paired
        scroll_up_paired scroll_region_up_def scroll_region_up_discarding_def region_up_paired region_down_paired plain_blank_def [symmetric] dest: plain_blank_def [THEN iffD1])
qed

lemma apply_edits_paired:
  "sane g \<Longrightarrow> all_paired g \<Longrightarrow> edits_ok sw gc (\<lambda>_ _. True) es g \<Longrightarrow>
     sane (apply_edits sw gc es g) \<and> all_paired (apply_edits sw gc es g)"
  by (induction es arbitrary: g) (auto simp: apply_edit_sane apply_edit_paired)

lemma all_paired_new: "all_paired (grid_new w h)"
  using blank_row_paired [of cell_default] grid_wf_new [of w h]
  by (auto simp: rows_paired_iff grid_new_def cell_default_def)

text \<open>
  C32. Whatever is written, erased, deleted, inserted, appended to or scrolled on a new grid, at
  any column and with any counts, every visible row keeps its length, every wide glyph has its
  continuation cell and every continuation cell its glyph, and no cell holds a handle that its
  arena does not resolve.
\<close>

theorem wide_glyphs_stay_whole:
  assumes "edits_ok sw gc (\<lambda>_ _. True) es (grid_new w h)"
  shows "sane (apply_edits sw gc es (grid_new w h)) \<and> all_paired (apply_edits sw gc es (grid_new w h))"
  using apply_edits_paired [OF sane_new all_paired_new assms] .

theorem wide_glyphs_stay_whole_witness:
  "all_paired (apply_edits (\<lambda>_. 2) (\<lambda>_. 1)
     [SetGrapheme 1 0 [0x4E2D] cell_default 2, DeleteCells 0 0 2 cell_default, ScrollUp cell_default] (grid_new 4 2))"
proof -
  have "edits_ok (\<lambda>_. 2) (\<lambda>_. 1) (\<lambda>_ _. True)
     [SetGrapheme 1 0 [0x4E2D] cell_default 2, DeleteCells 0 0 2 cell_default, ScrollUp cell_default] (grid_new 4 2)"
    by code_simp
  from wide_glyphs_stay_whole [OF this] show ?thesis by simp
qed

end
