(* ===== verification/Grid_Store.thy ===== *)
theory Grid_Store
  imports Grid_Edit
begin

text \<open>
  Persisted lines: the detached capture of \<^verbatim>\<open>grid/capture.rs\<close>, taken in bulk on the core loop and
  resolved on a worker, holds exactly what the direct export of \<^verbatim>\<open>grid.rs\<close> gives; and a capture
  rebuilt from stored lines gives those lines back.
\<close>

section \<open>Trimming\<close>

lemma pop_while_append: "list_all P ys \<Longrightarrow> pop_while P (xs @ ys) = pop_while P xs"
  using dropWhile_append2 [of "rev ys" P "rev xs"] by (simp add: pop_while_def list_all_iff)

lemma pop_while_id: "xs = [] \<or> \<not> P (last xs) \<Longrightarrow> pop_while P xs = xs"
  by (cases xs rule: rev_cases) (auto simp: pop_while_def)

lemma keep_len_le: "keep_len P xs \<le> length xs"
  using length_dropWhile_le [of "\<lambda>x. \<not> P x" "rev xs"] by (simp add: keep_len_def)

lemma keep_len_rest: "x \<in> set (drop (keep_len P xs) xs) \<Longrightarrow> \<not> P x"
proof -
  assume x: "x \<in> set (drop (keep_len P xs) xs)"
  let ?q = "\<lambda>x. \<not> P x"
  have "rev xs = takeWhile ?q (rev xs) @ dropWhile ?q (rev xs)" by simp
  then have "xs = rev (dropWhile ?q (rev xs)) @ rev (takeWhile ?q (rev xs))" by (metis rev_append rev_rev_ident)
  then have "drop (keep_len P xs) xs = rev (takeWhile ?q (rev xs))"
    by (metis append_eq_conv_conj keep_len_def length_rev)
  then show ?thesis using x by (auto dest: set_takeWhileD)
qed

section \<open>The capture is the export\<close>

text \<open>A line as the grid keeps it: never wider than the screen, and full when it wraps.\<close>

definition line_fits :: "nat \<Rightarrow> line \<Rightarrow> bool" where
  "line_fits w l \<longleftrightarrow> length (cells l) \<le> w \<and> (wrapped l \<longrightarrow> length (cells l) = w)"

definition lines_fit :: "grid \<Rightarrow> bool" where
  "lines_fit g \<longleftrightarrow> length (rows g) = gh g \<and> (\<forall>l\<in>set (scrollback g @ rows g). line_fits (gw g) l)"

definition kept :: "line \<Rightarrow> cell list" where
  "kept l = take (if wrapped l then length (cells l) else keep_len (\<lambda>c. c \<noteq> cell_default) (cells l)) (cells l)"

lemma kept_split: "\<exists>n. cells l = kept l @ replicate n cell_default \<and> (wrapped l \<longrightarrow> n = 0)"
proof (cases "wrapped l")
  case False
  let ?k = "keep_len (\<lambda>c. c \<noteq> cell_default) (cells l)"
  define n where "n = length (drop ?k (cells l))"
  have d: "drop ?k (cells l) = replicate n cell_default"
  proof (rule replicate_eqI)
    fix y assume "y \<in> set (drop ?k (cells l))"
    from keep_len_rest [OF this] show "y = cell_default" by blast
  qed (simp add: n_def)
  have k: "kept l = take ?k (cells l)" using False by (simp add: kept_def)
  have "cells l = take ?k (cells l) @ drop ?k (cells l)" by (rule append_take_drop_id [symmetric])
  then have "cells l = kept l @ replicate n cell_default" by (simp only: k d)
  then show ?thesis using False by blast
qed (simp add: kept_def)

definition stored_of :: "str list \<Rightarrow> color list \<Rightarrow> line \<Rightarrow> stored_line" where
  "stored_of cl us l =
     (let cs = map (store_cell cl us) (kept l)
      in \<lparr>sl_cells = (if wrapped l then cs else pop_while stored_cell_is_default_blank cs), sl_wrapped = wrapped l\<rparr>)"

lemma store_default_blank: "list_get us 0 = Some ColorDefault \<Longrightarrow> stored_cell_is_default_blank (store_cell cl us cell_default)"
  by (simp add: stored_cell_is_default_blank_def store_cell_def cell_text_owned_def is_continuation_def cell_default_def underline_color_def)

lemma store_line_eq:
  assumes "colors_wf g" and "line_at g n = Some l" and "line_fits (gw g) l"
  shows "store_line g n = stored_of (clusters g) (underline_colors g) l"
proof -
  let ?s = "store_cell (clusters g) (underline_colors g)"
  obtain k where k: "cells l = kept l @ replicate k cell_default" "wrapped l \<longrightarrow> k = 0" using kept_split by blast
  let ?m = "gw g - length (cells l)"
  have "map (\<lambda>x. line_cell g n x) [0..<gw g] = cells l @ replicate ?m cell_default"
    using assms(3) by (intro nth_equalityI) (auto simp: line_cell_def assms(2) nth_append line_fits_def)
  then have e: "map (\<lambda>x. ?s (line_cell g n x)) [0..<gw g] = map ?s (kept l) @ replicate (k + ?m) (?s cell_default)"
    using k(1) by (metis (no_types, lifting) append.assoc list.map_comp map_append map_replicate replicate_add comp_apply map_eq_conv)
  have d: "list_all stored_cell_is_default_blank (replicate (k + ?m) (?s cell_default))"
    using store_default_blank assms(1) by (simp add: list_all_iff colors_wf_def)
  have w: "wrapped l \<Longrightarrow> k + ?m = 0" using k assms(3) by (simp add: line_fits_def)
  have lw: "line_wrapped g n = wrapped l" by (simp add: line_wrapped_def assms(2))
  show ?thesis
  proof (cases "wrapped l")
    case True
    then show ?thesis using w unfolding store_line_def stored_of_def Let_def lw e by simp
  next
    case False
    then show ?thesis using pop_while_append [OF d] unfolding store_line_def stored_of_def Let_def lw e by simp
  qed
qed

fun line_ends :: "nat \<Rightarrow> line list \<Rightarrow> (nat \<times> bool) list" where
  "line_ends k [] = []"
| "line_ends k (l # ls) = (k + length (kept l), wrapped l) # line_ends (k + length (kept l)) ls"

lemma capture_loop_eq:
  "capture_loop ls cs es hc hu =
     (cs @ concat (map kept ls), es @ line_ends (length cs) ls,
      hc \<or> list_ex (\<lambda>c. cluster c \<noteq> 0) (concat (map kept ls)), hu \<or> list_ex (\<lambda>c. ucolor c \<noteq> 0) (concat (map kept ls)))"
proof (induction ls arbitrary: cs es hc hu)
  case (Cons l ls)
  show ?case unfolding capture_loop.simps(2) Let_def kept_def [symmetric] Cons.IH by (simp add: disj_assoc)
qed simp

lemma stored_loop_eq:
  "cap_cells cap = pre @ concat (map kept ls) @ post \<Longrightarrow>
     stored_loop cap (length pre) (line_ends (length pre) ls) = map (stored_of (cap_clusters cap) (cap_colors cap)) ls"
proof (induction ls arbitrary: pre)
  case (Cons l ls)
  show ?case using Cons.IH [of "pre @ kept l"] Cons.prems by (simp add: stored_of_def Let_def)
qed simp

lemma stored_of_cong:
  assumes "\<And>c. c \<in> set (kept l) \<Longrightarrow> store_cell cl us c = store_cell cl' us' c"
  shows "stored_of cl us l = stored_of cl' us' l"
proof -
  have "map (store_cell cl us) (kept l) = map (store_cell cl' us') (kept l)" using assms by simp
  then show ?thesis unfolding stored_of_def by (simp only:)
qed

text \<open>
  The capture taken in bulk and resolved later equals the direct export, for any number of
  recent lines: leaving out the arenas when no kept cell refers to them changes nothing.
\<close>

theorem capture_equals_export:
  assumes "lines_fit g" and "colors_wf g"
  shows "into_stored_lines (capture_lines mx g) = export_lines mx g"
proof -
  let ?ns = "[total_lines g - mx..<total_lines g]"
  have at: "n < total_lines g \<Longrightarrow> \<exists>l. line_at g n = Some l \<and> l \<in> set (scrollback g @ rows g)" for n
    using assms(1) by (auto simp: line_at_def total_lines_def lines_fit_def Let_def)
  define ls where "ls = List.map_filter (line_at g) ?ns"
  have ls: "ls = map (\<lambda>n. the (line_at g n)) ?ns"
  proof -
    have "filter (\<lambda>n. line_at g n \<noteq> None) ?ns = ?ns" using at by (fastforce simp: filter_id_conv)
    then show ?thesis by (simp add: ls_def map_filter_def comp_def)
  qed
  define cs where "cs = concat (map kept ls)"
  have cap: "capture_lines mx g = \<lparr>cap_cells = cs,
      cap_lines = line_ends 0 ls,
      cap_clusters = (if list_ex (\<lambda>c. cluster c \<noteq> 0) cs then clusters g else []),
      cap_colors = (if list_ex (\<lambda>c. ucolor c \<noteq> 0) cs then underline_colors g else [])\<rparr>"
    by (simp add: capture_lines_def ls_def [symmetric] capture_loop_eq cs_def [symmetric])
  have st: "into_stored_lines (capture_lines mx g) = map (stored_of (cap_clusters (capture_lines mx g)) (cap_colors (capture_lines mx g))) ls"
    using stored_loop_eq [of "capture_lines mx g" "[]" ls "[]"] unfolding into_stored_lines_def by (simp add: cap cs_def)
  have cell: "store_cell (cap_clusters (capture_lines mx g)) (cap_colors (capture_lines mx g)) c = store_cell (clusters g) (underline_colors g) c"
    if "c \<in> set cs" for c
    using that assms(2) by (auto simp: cap store_cell_def cell_text_owned_def underline_color_def list_ex_iff colors_wf_def list_get_def split: if_splits)
  have "stored_of (cap_clusters (capture_lines mx g)) (cap_colors (capture_lines mx g)) l = stored_of (clusters g) (underline_colors g) l"
    if "l \<in> set ls" for l
    using that cell by (intro stored_of_cong) (auto simp: cs_def)
  then have "into_stored_lines (capture_lines mx g) = map (stored_of (clusters g) (underline_colors g)) ls" unfolding st by simp
  also have "\<dots> = map (store_line g) ?ns"
  proof -
    have "stored_of (clusters g) (underline_colors g) (the (line_at g n)) = store_line g n" if n: "n < total_lines g" for n
    proof -
      obtain l where l: "line_at g n = Some l" "l \<in> set (scrollback g @ rows g)" using at [OF n] by blast
      then have "line_fits (gw g) l" using assms(1) by (simp only: lines_fit_def)
      with l(1) show ?thesis using store_line_eq [OF assms(2)] by simp
    qed
    then show ?thesis by (simp add: ls)
  qed
  finally show ?thesis by (simp add: export_lines_def)
qed


lemma capture_example: "lines_fit (set_grapheme 0 0 [65] cell_default 1 (grid_new 3 1)) \<and> colors_wf (set_grapheme 0 0 [65] cell_default 1 (grid_new 3 1))"
  by code_simp

theorem capture_equals_export_witness:
  "into_stored_lines (capture_lines 5 (set_grapheme 0 0 [65] cell_default 1 (grid_new 3 1)))
     = export_lines 5 (set_grapheme 0 0 [65] cell_default 1 (grid_new 3 1))"
  using capture_equals_export capture_example by blast

section \<open>Captures from stored lines\<close>

text \<open>A stored cell as the export writes it.\<close>

definition stored_cell_ok :: "stored_cell \<Rightarrow> bool" where
  "stored_cell_ok s \<longleftrightarrow> (if st_continuation s then st_text s = [] \<and> st_width s = 0 else st_text s \<noteq> [] \<and> 0 < st_width s)"

definition stored_line_ok :: "stored_line \<Rightarrow> bool" where
  "stored_line_ok l \<longleftrightarrow> list_all stored_cell_ok (sl_cells l)
     \<and> (sl_wrapped l \<or> sl_cells l = [] \<or> \<not> stored_cell_is_default_blank (last (sl_cells l)))"

text \<open>A capture under construction, with room for the underline colours still to come.\<close>

definition cap_ok :: "color set \<Rightarrow> grid_capture \<Rightarrow> bool" where
  "cap_ok U cap \<longleftrightarrow> 0 < length (cap_clusters cap) \<and> distinct (cap_colors cap) \<and> set (cap_colors cap) \<subseteq> U \<and> finite U \<and> card U \<le> 256"

definition cap_grows :: "grid_capture \<Rightarrow> grid_capture \<Rightarrow> bool" where
  "cap_grows a b \<longleftrightarrow> (\<exists>z. cap_clusters b = cap_clusters a @ z) \<and> (\<exists>z. cap_colors b = cap_colors a @ z)"

lemma cap_grows_trans: "cap_grows a b \<Longrightarrow> cap_grows b c \<Longrightarrow> cap_grows a c"
  by (auto simp: cap_grows_def)

lemma store_cell_grows:
  assumes "cap_grows a b" and "cluster c < length (cap_clusters a)" and "ucolor c < length (cap_colors a)"
  shows "store_cell (cap_clusters b) (cap_colors b) c = store_cell (cap_clusters a) (cap_colors a) c"
  using assms by (auto simp: cap_grows_def store_cell_def cell_text_owned_def underline_color_def list_get_def nth_append)

definition cell_in :: "grid_capture \<Rightarrow> cell \<Rightarrow> bool" where
  "cell_in cap c \<longleftrightarrow> cluster c < length (cap_clusters cap) \<and> ucolor c < length (cap_colors cap)"

lemma cell_in_grows: "cap_grows a b \<Longrightarrow> cell_in a c \<Longrightarrow> cell_in b c"
  by (auto simp: cell_in_def cap_grows_def)

lemma stored_cells_step:
  assumes "cap_ok U cap" and "stored_cell_ok s" and "st_underline s \<in> U"
  obtains c cap1 where "stored_cells_loop (s # ss) cap = stored_cells_loop ss (cap1\<lparr>cap_cells := cap_cells cap @ [c]\<rparr>)"
    and "cap_grows cap cap1" and "cap_ok U cap1" and "cap_lines cap1 = cap_lines cap" and "cell_in cap1 c"
    and "store_cell (cap_clusters cap1) (cap_colors cap1) c = s"
proof -
  define kc where "kc = (if length (st_text s) > 1 then (length (cap_clusters cap), cap_clusters cap @ [st_text s]) else (0, cap_clusters cap))"
  define uc where "uc = (case position (\<lambda>c. c = st_underline s) (cap_colors cap) of
       Some i \<Rightarrow> (i, cap_colors cap)
     | None \<Rightarrow> if length (cap_colors cap) < 256 then (length (cap_colors cap), cap_colors cap @ [st_underline s]) else (0, cap_colors cap))"
  define c where "c = \<lparr>ch = (case st_text s of [] \<Rightarrow> 32 | t0 # _ \<Rightarrow> t0), fg = st_fg s, bg = st_bg s, attrs = st_attrs s,
       width = (if st_continuation s then 0 else max (st_width s) 1), ucolor = fst uc, cluster = fst kc, link = 0\<rparr>"
  define cap1 where "cap1 = cap\<lparr>cap_clusters := snd kc, cap_colors := snd uc\<rparr>"
  have k: "\<exists>z. snd kc = cap_clusters cap @ z" "fst kc < length (snd kc)" "0 < length (snd kc)"
    using assms(1) by (auto simp: kc_def cap_ok_def)
  have u: "(\<exists>z. snd uc = cap_colors cap @ z) \<and> fst uc < length (snd uc) \<and> snd uc ! fst uc = st_underline s
      \<and> distinct (snd uc) \<and> set (snd uc) \<subseteq> U"
  proof (cases "position (\<lambda>c. c = st_underline s) (cap_colors cap)")
    case None
    then have n: "st_underline s \<notin> set (cap_colors cap)" by (auto simp: position_None_iff)
    have "card (insert (st_underline s) (set (cap_colors cap))) \<le> card U"
      using assms(1,3) by (intro card_mono) (auto simp: cap_ok_def)
    then have "length (cap_colors cap) < 256"
      using assms(1) n distinct_card [of "cap_colors cap"] by (simp add: cap_ok_def)
    then show ?thesis using None n assms(1,3) by (auto simp: uc_def cap_ok_def)
  next
    case (Some i)
    then show ?thesis using position_SomeD [OF Some] assms(1) by (auto simp: uc_def cap_ok_def)
  qed
  have e: "stored_cells_loop (s # ss) cap = stored_cells_loop ss (cap1\<lparr>cap_cells := cap_cells cap @ [c]\<rparr>)"
    unfolding stored_cells_loop.simps Let_def split_beta kc_def [symmetric] uc_def [symmetric] c_def [symmetric]
    by (cases cap) (simp add: cap1_def)
  have t: "cell_text_owned (snd kc) c = st_text s"
    using assms(1,2) by (cases "st_text s") (auto simp: cap_ok_def c_def cell_text_owned_def is_continuation_def stored_cell_ok_def kc_def list_get_def split: if_splits)
  have "store_cell (snd kc) (snd uc) c = s"
    using t u assms(2) by (cases s) (auto simp: store_cell_def c_def underline_color_def list_get_def is_continuation_def stored_cell_ok_def split: if_splits)
  then show thesis using e k u assms(1)
    by (intro that [of c cap1]) (auto simp: cap1_def cap_grows_def cap_ok_def cell_in_def c_def)
qed

lemma stored_cells_loop_eq:
  assumes "cap_ok U cap" and "list_all stored_cell_ok ss" and "st_underline ` set ss \<subseteq> U"
  shows "\<exists>cs. cap_cells (stored_cells_loop ss cap) = cap_cells cap @ cs \<and> cap_lines (stored_cells_loop ss cap) = cap_lines cap
    \<and> cap_grows cap (stored_cells_loop ss cap) \<and> cap_ok U (stored_cells_loop ss cap)
    \<and> list_all (cell_in (stored_cells_loop ss cap)) cs
    \<and> map (store_cell (cap_clusters (stored_cells_loop ss cap)) (cap_colors (stored_cells_loop ss cap))) cs = ss"
  using assms
proof (induction ss arbitrary: cap)
  case Nil
  then show ?case by (simp add: cap_grows_def)
next
  case (Cons s ss)
  have p: "stored_cell_ok s" "st_underline s \<in> U" using Cons.prems by auto
  obtain c cap1 where c: "stored_cells_loop (s # ss) cap = stored_cells_loop ss (cap1\<lparr>cap_cells := cap_cells cap @ [c]\<rparr>)"
    "cap_grows cap cap1" "cap_ok U cap1" "cap_lines cap1 = cap_lines cap" "cell_in cap1 c"
    "store_cell (cap_clusters cap1) (cap_colors cap1) c = s"
    by (rule stored_cells_step [OF Cons.prems(1) p])
  let ?a = "cap1\<lparr>cap_cells := cap_cells cap @ [c]\<rparr>"
  let ?r = "stored_cells_loop ss ?a"
  have a: "cap_ok U ?a" "cap_grows cap ?a" "cell_in ?a c" "store_cell (cap_clusters ?a) (cap_colors ?a) c = s"
    using c by (simp_all add: cap_ok_def cap_grows_def cell_in_def)
  obtain cs where cs: "cap_cells ?r = cap_cells ?a @ cs" "cap_lines ?r = cap_lines ?a" "cap_grows ?a ?r" "cap_ok U ?r"
    "list_all (cell_in ?r) cs" "map (store_cell (cap_clusters ?r) (cap_colors ?r)) cs = ss"
    using Cons.IH [OF a(1)] Cons.prems by auto
  have "store_cell (cap_clusters ?r) (cap_colors ?r) c = s" using store_cell_grows [OF cs(3), of c] a(3,4) by (simp add: cell_in_def)
  moreover have "cell_in ?r c" using cell_in_grows [OF cs(3) a(3)] .
  moreover have "cap_grows cap ?r" using cap_grows_trans [OF a(2) cs(3)] .
  ultimately show ?case using cs c(1,4) by (intro exI [of _ "c # cs"]) simp
qed

text \<open>A capture as its lines: segments of cells with their wrap flags.\<close>

fun segment_ends :: "nat \<Rightarrow> (cell list \<times> bool) list \<Rightarrow> (nat \<times> bool) list" where
  "segment_ends k [] = []"
| "segment_ends k ((cs, w) # r) = (k + length cs, w) # segment_ends (k + length cs) r"

lemma segment_ends_snoc:
  "segment_ends k (r @ [(cs, w)]) = segment_ends k r @ [(k + length (concat (map fst r)) + length cs, w)]"
  by (induction k r rule: segment_ends.induct) (simp_all add: add.assoc)

lemma stored_loop_segments:
  "cap_cells cap = pre @ concat (map fst r) \<Longrightarrow>
     stored_loop cap (length pre) (segment_ends (length pre) r) =
     map (\<lambda>(cs, w). let ts = map (store_cell (cap_clusters cap) (cap_colors cap)) cs
            in \<lparr>sl_cells = (if w then ts else pop_while stored_cell_is_default_blank ts), sl_wrapped = w\<rparr>) r"
proof (induction r arbitrary: pre)
  case (Cons p r)
  obtain cs w where p: "p = (cs, w)" by fastforce
  show ?case using Cons.IH [of "pre @ cs"] Cons.prems by (simp add: p Let_def)
qed simp

definition holds_lines :: "grid_capture \<Rightarrow> stored_line list \<Rightarrow> bool" where
  "holds_lines cap ls \<longleftrightarrow> (\<exists>r. cap_cells cap = concat (map fst r) \<and> cap_lines cap = segment_ends 0 r
     \<and> list_all (cell_in cap) (cap_cells cap)
     \<and> map (\<lambda>(cs, w). \<lparr>sl_cells = map (store_cell (cap_clusters cap) (cap_colors cap)) cs, sl_wrapped = w\<rparr>) r = ls)"

lemma holds_lines_into:
  assumes "holds_lines cap ls" and "list_all stored_line_ok ls"
  shows "into_stored_lines cap = ls"
proof -
  obtain r where r: "cap_cells cap = concat (map fst r)" "cap_lines cap = segment_ends 0 r"
    "map (\<lambda>(cs, w). \<lparr>sl_cells = map (store_cell (cap_clusters cap) (cap_colors cap)) cs, sl_wrapped = w\<rparr>) r = ls"
    using assms(1) unfolding holds_lines_def by blast
  have "(let ts = map (store_cell (cap_clusters cap) (cap_colors cap)) cs
          in \<lparr>sl_cells = (if w then ts else pop_while stored_cell_is_default_blank ts), sl_wrapped = w\<rparr>) =
        \<lparr>sl_cells = map (store_cell (cap_clusters cap) (cap_colors cap)) cs, sl_wrapped = w\<rparr>" if "(cs, w) \<in> set r" for cs w
  proof -
    have "stored_line_ok \<lparr>sl_cells = map (store_cell (cap_clusters cap) (cap_colors cap)) cs, sl_wrapped = w\<rparr>"
      using assms(2) that unfolding r(3) [symmetric] list_all_iff by force
    then show ?thesis by (auto simp: stored_line_ok_def Let_def pop_while_id)
  qed
  then have "map (\<lambda>(cs, w). let ts = map (store_cell (cap_clusters cap) (cap_colors cap)) cs
            in \<lparr>sl_cells = (if w then ts else pop_while stored_cell_is_default_blank ts), sl_wrapped = w\<rparr>) r = ls"
    unfolding r(3) [symmetric] by (intro map_cong) auto
  then show ?thesis using stored_loop_segments [of cap "[]" r] r(1,2) by (simp add: into_stored_lines_def)
qed

lemma stored_lines_loop_holds:
  "cap_ok U cap \<Longrightarrow> holds_lines cap done_lines \<Longrightarrow> list_all stored_line_ok ls \<Longrightarrow>
     (\<forall>l\<in>set ls. st_underline ` set (sl_cells l) \<subseteq> U) \<Longrightarrow> holds_lines (stored_lines_loop ls cap) (done_lines @ ls)"
proof (induction ls arbitrary: cap done_lines)
  case (Cons l ls)
  let ?a = "stored_cells_loop (sl_cells l) cap"
  let ?b = "?a\<lparr>cap_lines := cap_lines ?a @ [(length (cap_cells ?a), sl_wrapped l)]\<rparr>"
  obtain cs where cs: "cap_cells ?a = cap_cells cap @ cs" "cap_lines ?a = cap_lines cap" "cap_grows cap ?a" "cap_ok U ?a"
    "list_all (cell_in ?a) cs" "map (store_cell (cap_clusters ?a) (cap_colors ?a)) cs = sl_cells l"
    using stored_cells_loop_eq [OF Cons.prems(1), of "sl_cells l"] Cons.prems(3,4) by (auto simp: stored_line_ok_def)
  obtain r where r: "cap_cells cap = concat (map fst r)" "cap_lines cap = segment_ends 0 r" "list_all (cell_in cap) (cap_cells cap)"
    "map (\<lambda>(cs, w). \<lparr>sl_cells = map (store_cell (cap_clusters cap) (cap_colors cap)) cs, sl_wrapped = w\<rparr>) r = done_lines"
    using Cons.prems(2) unfolding holds_lines_def by blast
  have old: "store_cell (cap_clusters ?a) (cap_colors ?a) c = store_cell (cap_clusters cap) (cap_colors cap) c \<and> cell_in ?a c"
    if "c \<in> set (cap_cells cap)" for c
    using that r(3) store_cell_grows [OF cs(3), of c] cell_in_grows [OF cs(3), of c] by (auto simp: list_all_iff cell_in_def)
  have "map (\<lambda>(cs, w). \<lparr>sl_cells = map (store_cell (cap_clusters ?a) (cap_colors ?a)) cs, sl_wrapped = w\<rparr>) r = done_lines"
    unfolding r(4) [symmetric]
  proof (intro map_cong refl)
    fix p assume p: "p \<in> set r"
    then have "set (fst p) \<subseteq> set (cap_cells cap)" using r(1) by auto
    then have "map (store_cell (cap_clusters ?a) (cap_colors ?a)) (fst p) = map (store_cell (cap_clusters cap) (cap_colors cap)) (fst p)"
      using old by auto
    then show "(case p of (cs, w) \<Rightarrow> \<lparr>sl_cells = map (store_cell (cap_clusters ?a) (cap_colors ?a)) cs, sl_wrapped = w\<rparr>) =
        (case p of (cs, w) \<Rightarrow> \<lparr>sl_cells = map (store_cell (cap_clusters cap) (cap_colors cap)) cs, sl_wrapped = w\<rparr>)"
      by (simp add: split_beta)
  qed
  then have "holds_lines ?b (done_lines @ [l])"
    unfolding holds_lines_def using cs r(1,2) old
    by (intro exI [of _ "r @ [(cs, sl_wrapped l)]"]) (auto simp: segment_ends_snoc list_all_iff cell_in_def)
  moreover have "cap_ok U ?b" using cs(4) by (simp add: cap_ok_def)
  ultimately show ?case using Cons.IH [of ?b "done_lines @ [l]"] Cons.prems(3,4) by (simp add: Let_def)
qed simp

text \<open>
  Lines recovered from disk survive the capture they are kept in: what is read back is what
  was stored, grapheme texts, colours and line boundaries included, as long as at most 255
  underline colours other than the default occur.
\<close>

theorem stored_lines_round_trip:
  assumes "list_all stored_line_ok ls"
    and "card (insert ColorDefault (\<Union>l\<in>set ls. st_underline ` set (sl_cells l))) \<le> 256"
  shows "into_stored_lines (from_stored_lines ls) = ls"
proof -
  let ?U = "insert ColorDefault (\<Union>l\<in>set ls. st_underline ` set (sl_cells l))"
  let ?c = "\<lparr>cap_cells = [], cap_lines = [], cap_clusters = [[]], cap_colors = [ColorDefault]\<rparr>"
  have "cap_ok ?U ?c" using assms(2) by (simp add: cap_ok_def)
  moreover have "holds_lines ?c []" by (simp add: holds_lines_def exI [of _ "[]"])
  ultimately have "holds_lines (from_stored_lines ls) ls"
    using stored_lines_loop_holds [of ?U ?c "[]" ls] assms(1) by (auto simp: from_stored_lines_def)
  then show ?thesis using assms(1) by (rule holds_lines_into)
qed

lemma stored_example:
  "stored_line_ok \<lparr>sl_cells = [\<lparr>st_text = [65], st_fg = ColorDefault, st_bg = ColorDefault, st_attrs = 0, st_underline = Idx 3,
     st_width = 1, st_continuation = False\<rparr>], sl_wrapped = False\<rparr>"
  by (simp add: stored_line_ok_def stored_cell_ok_def stored_cell_is_default_blank_def)

theorem stored_lines_round_trip_witness:
  "\<exists>l. sl_cells l \<noteq> [] \<and> into_stored_lines (from_stored_lines [l]) = [l]"
  using stored_lines_round_trip [of "[_]", simplified, OF stored_example]
  by (intro exI) (rule conjI, simp_all)

end
