(* ===== verification/Grid_Reflow.thy ===== *)
theory Grid_Reflow
  imports Grid_Wide Grid_Store
begin

text \<open>
  Resizing a grid, \<^verbatim>\<open>Grid::resize_reflow\<close> of \<^verbatim>\<open>crates/uniterm-core/src/grid.rs\<close>: soft-wrapped
  rows are joined to logical lines, cut at the new width, and the viewport and the cursor are
  found again. \<open>sw\<close> is the display width of a string, from the Unicode tables.
\<close>

section \<open>Cutting a logical line\<close>

definition clamp12 :: "nat \<Rightarrow> nat" where
  "clamp12 n = max 1 (min 2 n)"

definition glyph_width :: "(str \<Rightarrow> nat) \<Rightarrow> str list \<Rightarrow> cell \<Rightarrow> nat" where
  "glyph_width sw cl c =
     (if cluster c \<noteq> 0 then (case list_get cl (cluster c) of Some t \<Rightarrow> clamp12 (sw t) | None \<Rightarrow> 1)
      else clamp12 (sw [ch c]))"

definition is_default_blank :: "color list \<Rightarrow> cell \<Rightarrow> bool" where
  "is_default_blank us c \<longleftrightarrow> ch c = 32 \<and> cluster c = 0 \<and> \<not> is_continuation c \<and> fg c = ColorDefault \<and> bg c = ColorDefault
     \<and> attrs c = 0 \<and> link c = 0 \<and> underline_color us (ucolor c) = ColorDefault"

definition vec_resize :: "nat \<Rightarrow> 'a \<Rightarrow> 'a list \<Rightarrow> 'a list" where
  "vec_resize n x xs = take n xs @ replicate (n - length xs) x"

text \<open>The cells of one glyph of width \<open>k\<close>.\<close>

definition glyph_cells :: "nat \<Rightarrow> cell \<Rightarrow> cell list" where
  "glyph_cells k lead = lead\<lparr>width := k\<rparr> # (if k = 2 then [continuation_of lead] else [])"

fun emit_loop :: "(cell \<Rightarrow> nat) \<Rightarrow> nat \<Rightarrow> cell list \<Rightarrow> cell list \<Rightarrow> nat \<Rightarrow> line list \<Rightarrow> nat \<Rightarrow> cell list \<times> line list \<times> nat" where
  "emit_loop f w [] row x phys i = (row, phys, i)"
| "emit_loop f w (lead # leads) row x phys i =
     (let k = min (f lead) w
      in if x > 0 \<and> wrap16 (x + k) > w
         then emit_loop f w leads (glyph_cells k lead) k
                (phys @ [\<lparr>cells = vec_resize w cell_default row, wrapped = True, line_no = i\<rparr>]) (i + 1)
         else emit_loop f w leads (row @ glyph_cells k lead) (wrap16 (x + k)) phys i)"

definition emit_logical_line :: "(cell \<Rightarrow> nat) \<Rightarrow> nat \<Rightarrow> cell list \<Rightarrow> line list \<Rightarrow> nat \<Rightarrow> (nat \<times> nat) \<times> line list \<times> nat" where
  "emit_logical_line f w leads phys i =
     (let (row, phys1, i1) = emit_loop f w leads [] 0 phys i;
          phys2 = phys1 @ [\<lparr>cells = take (keep_len (\<lambda>c. c \<noteq> cell_default) row) row, wrapped = False, line_no = i1\<rparr>]
      in ((length phys, length phys2 - length phys), phys2, i1 + 1))"

section \<open>The pass over the old lines\<close>

record anchors =
  logical_index :: nat
  cursor_logical :: nat
  screen_logical :: nat
  cursor_span :: "nat \<times> nat"
  screen_span :: "nat \<times> nat"

definition anchors_default :: anchors where
  "anchors_default = \<lparr>logical_index = 0, cursor_logical = 0, screen_logical = 0, cursor_span = (0, 1), screen_span = (0, 1)\<rparr>"

definition anchors_record :: "nat \<times> nat \<Rightarrow> anchors \<Rightarrow> anchors" where
  "anchors_record s a =
     (let a1 = (if logical_index a = cursor_logical a then a\<lparr>cursor_span := s\<rparr> else a);
          a2 = (if logical_index a1 = screen_logical a1 then a1\<lparr>screen_span := s\<rparr> else a1)
      in a2\<lparr>logical_index := logical_index a2 + 1\<rparr>)"

record reflow =
  rf_leads :: "cell list"
  rf_phys :: "line list"
  rf_id :: nat
  rf_width :: nat
  rf_cursor :: nat
  rf_screen :: nat
  rf_anchors :: anchors

definition reflow_emit :: "(cell \<Rightarrow> nat) \<Rightarrow> nat \<Rightarrow> reflow \<Rightarrow> reflow" where
  "reflow_emit f w s =
     (let (sp, phys, i) = emit_logical_line f w (rf_leads s) (rf_phys s) (rf_id s)
      in s\<lparr>rf_phys := phys, rf_id := i, rf_anchors := anchors_record sp (rf_anchors s), rf_leads := []\<rparr>)"

text \<open>The glyph leads one physical row adds to its logical line.\<close>

definition row_leads :: "color list \<Rightarrow> nat \<Rightarrow> line \<Rightarrow> cell list" where
  "row_leads us old_width l =
     (let leads = filter (\<lambda>c. \<not> is_continuation c) (cells l)
      in if wrapped l then leads @ replicate (old_width - length (cells l)) cell_default
         else pop_while (is_default_blank us) leads)"

definition reflow_line :: "(cell \<Rightarrow> nat) \<Rightarrow> color list \<Rightarrow> nat \<Rightarrow> nat \<Rightarrow> nat \<Rightarrow> nat \<Rightarrow> nat \<Rightarrow> nat \<times> line \<Rightarrow> reflow \<Rightarrow> reflow" where
  "reflow_line f us w old_width cursor_line screen_line cursor_x il s0 =
     (let (idx, l) = il;
          s1 = (if idx = cursor_line
                then s0\<lparr>rf_anchors := (rf_anchors s0)\<lparr>cursor_logical := logical_index (rf_anchors s0)\<rparr>,
                        rf_cursor := rf_width s0 + cursor_x\<rparr> else s0);
          s2 = (if idx = screen_line
                then s1\<lparr>rf_anchors := (rf_anchors s1)\<lparr>screen_logical := logical_index (rf_anchors s1)\<rparr>,
                        rf_screen := rf_width s1\<rparr> else s1);
          added = row_leads us old_width l;
          s3 = s2\<lparr>rf_leads := rf_leads s2 @ added, rf_width := rf_width s2 + sum_list (map (\<lambda>c. max (width c) 1) added)\<rparr>
      in if wrapped l then s3 else (reflow_emit f w s3)\<lparr>rf_width := 0\<rparr>)"

definition reflow_lines :: "(cell \<Rightarrow> nat) \<Rightarrow> nat \<Rightarrow> nat \<Rightarrow> nat \<Rightarrow> grid \<Rightarrow> reflow" where
  "reflow_lines f w cursor_x cursor_y g =
     (let lines = scrollback g @ rows g;
          init = \<lparr>rf_leads = [], rf_phys = [], rf_id = next_line_id g, rf_width = 0, rf_cursor = 0, rf_screen = 0,
                  rf_anchors = anchors_default\<rparr>;
          s1 = fold (reflow_line f (underline_colors g) w (gw g) (length (scrollback g) + cursor_y) (length (scrollback g)) cursor_x)
                 (zip [0..<length lines] lines) init;
          s2 = (if rf_leads s1 \<noteq> [] then reflow_emit f w s1 else s1)
      in if logical_index (rf_anchors s2) = 0 then reflow_emit f w s2 else s2)"

section \<open>The viewport\<close>

fun push_blanks_back :: "nat \<Rightarrow> nat \<Rightarrow> cell \<Rightarrow> line list \<Rightarrow> nat \<Rightarrow> line list \<times> nat" where
  "push_blanks_back 0 w b phys i = (phys, i)"
| "push_blanks_back (Suc n) w b phys i = push_blanks_back n w b (phys @ [line_blank w b i]) (i + 1)"

fun push_blanks_front :: "nat \<Rightarrow> nat \<Rightarrow> cell \<Rightarrow> line list \<Rightarrow> nat \<Rightarrow> line list \<times> nat" where
  "push_blanks_front 0 w b phys i = (phys, i)"
| "push_blanks_front (Suc n) w b phys i = push_blanks_front n w b (line_blank w b i # phys) (i + 1)"

text \<open>The start of the viewport in the physical rows, which are extended or cut to end with it.\<close>

definition place_viewport :: "nat \<Rightarrow> nat \<Rightarrow> nat \<Rightarrow> cell \<Rightarrow> nat \<Rightarrow> nat \<Rightarrow> line list \<Rightarrow> nat \<Rightarrow> nat \<times> nat \<times> line list \<times> nat" where
  "place_viewport w h old_height blank screen_row cursor_global phys i =
     (if h > old_height then
        (let start0 = max screen_row (cursor_global + 1 - h);
             (start, phys1) =
               (if length phys > start0 + h
                then (let content_end = keep_len (\<lambda>l. wrapped l \<or> cells l \<noteq> []) phys;
                          start1 = max start0 (max content_end (cursor_global + 1) - h)
                      in (start1, take (start1 + h) phys))
                else (start0, phys));
             (phys2, i2) = push_blanks_back (start + h - length phys1) w blank phys1 i
         in (start, cursor_global, phys2, i2))
      else
        (let n = h - length phys;
             (phys1, i1) = push_blanks_front n w blank phys i
         in (length phys1 - h, cursor_global + n, phys1, i1)))"

definition reflow_width :: "(str \<Rightarrow> nat) \<Rightarrow> nat \<Rightarrow> nat \<Rightarrow> cell \<Rightarrow> nat \<times> nat \<Rightarrow> bool \<Rightarrow> grid \<Rightarrow> grid \<times> nat \<times> nat \<times> bool" where
  "reflow_width sw w h blank cursor cursor_pending g =
     (let s = reflow_lines (glyph_width sw (clusters g)) w (fst cursor) (snd cursor) g;
          a = rf_anchors s;
          (cursor_start, cursor_count) = cursor_span a;
          at_edge = (cursor_pending \<and> rf_cursor s mod w = 0 \<and> rf_cursor s \<noteq> 0);
          cursor_row = (if at_edge then rf_cursor s div w - 1 else rf_cursor s div w);
          cursor_x = (if at_edge then w - 1 else rf_cursor s mod w);
          (screen_first, screen_count) = screen_span a;
          (screen_start, cursor_global, phys, i) =
            place_viewport w h (gh g) blank (screen_first + min (rf_screen s div w) (screen_count - 1))
              (cursor_start + min cursor_row (cursor_count - 1)) (rf_phys s) (rf_id s);
          history_start = screen_start - scrollback_limit g;
          retained = drop history_start phys;
          screen_at = screen_start - history_start;
          fill = (\<lambda>l. if length (cells l) < w then l\<lparr>cells := vec_resize w cell_default (cells l)\<rparr> else l);
          g1 = mark_all_damaged (g\<lparr>rows := map fill (drop screen_at retained), scrollback := take screen_at retained, next_line_id := i,
                 gw := w, gh := h, damage := replicate h clean\<rparr>)
      in (g1, min cursor_x (w - 1), min (cursor_global - history_start - screen_at) (h - 1), at_edge))"

section \<open>Resizing\<close>

definition pending_column :: "nat \<Rightarrow> bool \<Rightarrow> nat" where
  "pending_column x pending = (if pending then x - 1 else x)"

definition resize_reflow :: "(str \<Rightarrow> nat) \<Rightarrow> nat \<Rightarrow> nat \<Rightarrow> cell \<Rightarrow> nat \<times> nat \<Rightarrow> bool \<Rightarrow> grid \<Rightarrow> grid \<times> nat \<times> nat \<times> bool" where
  "resize_reflow sw w0 h0 blank cursor pending g =
     (let w = max w0 1; h = max h0 1
      in if w = gw g \<and> h = gh g then (g, fst cursor, snd cursor, pending)
         else if h > gh g \<and> w = gw g then
           (let (ls, i) = push_blanks_back (h - length (rows g)) w blank (rows g) (next_line_id g);
                g1 = mark_all_damaged (g\<lparr>rows := ls, next_line_id := i, gh := h, damage := replicate h clean\<rparr>)
            in (g1, min (pending_column (fst cursor) pending) (w - 1), min (snd cursor) (h - 1), pending))
         else if h < gh g \<and> w = gw g then
           (let removed = gh g - h;
                g1 = fold (\<lambda>l k. push_scrollback (trim_default_tail l) k) (take removed (rows g)) (g\<lparr>rows := drop removed (rows g)\<rparr>);
                g2 = mark_all_damaged (g1\<lparr>gh := h, damage := replicate h clean\<rparr>)
            in (g2, min (pending_column (fst cursor) pending) (w - 1), snd cursor - removed, pending))
         else reflow_width sw w h blank cursor pending g)"

section \<open>Rows cut from a line\<close>

lemma pair_ok_append1: "x < length as \<Longrightarrow> pair_ok as x \<Longrightarrow> pair_ok (as @ bs) x"
  by (auto simp: pair_ok_def nth_append)

lemma paired_append: "paired as \<Longrightarrow> paired bs \<Longrightarrow> paired (as @ bs)"
  unfolding paired_def
proof (intro allI impI)
  fix x assume a: "\<forall>x<length as. pair_ok as x" "\<forall>x<length bs. pair_ok bs x" and x: "x < length (as @ bs)"
  show "pair_ok (as @ bs) x"
  proof (cases "x < length as")
    case True
    then show ?thesis using a(1) by (auto simp: pair_ok_def nth_append)
  next
    case False
    then have "pair_ok bs (x - length as)" using a(2) x by simp
    then show ?thesis using False by (auto simp: pair_ok_def nth_append Suc_diff_le)
  qed
qed

lemma paired_replicate: "paired (replicate n 1)"
  by (simp add: paired_def pair_ok_def)

lemma paired_Nil [simp]: "paired []"
  by (simp add: paired_def)

lemma paired_glyph: "k = 1 \<or> k = 2 \<Longrightarrow> paired (map width (glyph_cells k c))"
  by (auto simp: paired_def pair_ok_def glyph_cells_def continuation_of_def less_Suc_eq)

lemma paired_trim: "paired (as @ replicate n 1) \<Longrightarrow> paired as"
  unfolding paired_def
proof (intro allI impI)
  fix x assume p: "\<forall>x<length (as @ replicate n 1). pair_ok (as @ replicate n 1) x" and x: "x < length as"
  then have q: "pair_ok (as @ replicate n 1) x" by simp
  have "x + 1 < length as" if "as ! x = 2"
  proof (rule ccontr)
    assume "\<not> x + 1 < length as"
    then have "x + 1 = length as" using x by simp
    then show False using q that x by (auto simp: pair_ok_def nth_append split: if_splits)
  qed
  then show "pair_ok as x" using q x by (auto simp: pair_ok_def nth_append split: if_splits)
qed

text \<open>A physical row for width \<open>w\<close>: whole glyphs, valid handles, full when it wraps.\<close>

definition row_good :: "grid \<Rightarrow> nat \<Rightarrow> line \<Rightarrow> bool" where
  "row_good g w l \<longleftrightarrow> length (cells l) \<le> w \<and> (wrapped l \<longrightarrow> length (cells l) = w) \<and> paired (map width (cells l))
     \<and> (\<forall>c\<in>set (cells l). valid g c)"

lemma valid_width [simp]: "valid g (c\<lparr>width := k\<rparr>) = valid g c"
  by (simp add: valid_def)

lemma valid_continuation: "sane g \<Longrightarrow> valid g c \<Longrightarrow> valid g (continuation_of c)"
  by (auto simp: valid_def continuation_of_def sane_def)

lemma valid_glyph: "sane g \<Longrightarrow> valid g c \<Longrightarrow> d \<in> set (glyph_cells k c) \<Longrightarrow> valid g d"
  by (auto simp: glyph_cells_def valid_continuation split: if_splits)

lemma valid_default: "sane g \<Longrightarrow> valid g cell_default"
  by (simp add: valid_plain cell_default_def)

lemma width_default [simp]: "width cell_default = 1"
  by (simp add: cell_default_def)

lemma vec_resize_props:
  "length (vec_resize n x xs) = n" "length xs \<le> n \<Longrightarrow> vec_resize n x xs = xs @ replicate (n - length xs) x"
  by (simp_all add: vec_resize_def)

lemma emit_loop_good:
  assumes "sane g" and "0 < w" and "w < 65534" and "\<And>c. f c = 1 \<or> f c = 2"
  shows "list_all (valid g) leads \<Longrightarrow> length row = x \<Longrightarrow> x \<le> w \<Longrightarrow> paired (map width row) \<Longrightarrow> list_all (valid g) row \<Longrightarrow>
      (\<exists>r new. emit_loop f w leads row x phys i = (r, phys @ new, i + length new) \<and> length r \<le> w \<and> paired (map width r)
         \<and> list_all (valid g) r \<and> (\<forall>l\<in>set new. wrapped l \<and> row_good g w l))"
proof (induction leads arbitrary: row x phys i)
  case (Cons lead leads)
  let ?k = "min (f lead) w"
  have k: "?k = 1 \<or> ?k = 2" using assms(2) assms(4) [of lead] by (auto simp: min_def)
  have kw: "?k \<le> w" by simp
  have gl: "length (glyph_cells ?k lead) = ?k" using k by (auto simp: glyph_cells_def)
  have gp: "paired (map width (glyph_cells ?k lead))" using k by (rule paired_glyph)
  have gv: "list_all (valid g) (glyph_cells ?k lead)"
    using Cons.prems(1) valid_glyph [OF assms(1)] by (auto simp: list_all_iff)
  have wr: "wrap16 (x + ?k) = x + ?k" using Cons.prems(3) assms(3) k by (intro wrap16_id) linarith
  have pl: "list_all (valid g) leads" using Cons.prems(1) by simp
  show ?case
  proof (cases "x > 0 \<and> x + ?k > w")
    case True
    let ?l = "\<lparr>cells = vec_resize w cell_default row, wrapped = True, line_no = i\<rparr>"
    have "vec_resize w cell_default row = row @ replicate (w - length row) cell_default"
      using Cons.prems(2,3) by (intro vec_resize_props) simp
    then have l: "row_good g w ?l"
      using Cons.prems paired_append [OF Cons.prems(4) paired_replicate] valid_default [OF assms(1)]
      by (auto simp: row_good_def vec_resize_props(1) list_all_iff)
    obtain r new where r: "emit_loop f w leads (glyph_cells ?k lead) ?k (phys @ [?l]) (i + 1) = (r, (phys @ [?l]) @ new, i + 1 + length new)"
      "length r \<le> w" "paired (map width r)" "list_all (valid g) r" "\<forall>l\<in>set new. wrapped l \<and> row_good g w l"
      using Cons.IH [OF pl gl kw gp gv, of "phys @ [?l]" "i + 1"] by auto
    show ?thesis using r l True wr by (intro exI [of _ r] exI [of _ "?l # new"]) (simp add: Let_def)
  next
    case False
    have "paired (map width (row @ glyph_cells ?k lead))" using paired_append [OF Cons.prems(4) gp] by simp
    moreover have "x + ?k \<le> w" using False kw by auto
    ultimately obtain r new where r: "emit_loop f w leads (row @ glyph_cells ?k lead) (x + ?k) phys i = (r, phys @ new, i + length new)"
      "length r \<le> w" "paired (map width r)" "list_all (valid g) r" "\<forall>l\<in>set new. wrapped l \<and> row_good g w l"
      using Cons.IH [OF pl, of "row @ glyph_cells ?k lead" "x + ?k" phys i] gl gv Cons.prems(2,5) by auto
    show ?thesis using r False wr by (auto simp: Let_def)
  qed
qed auto

lemma keep_row_good:
  assumes "length r \<le> w" and "paired (map width r)" and "list_all (valid g) r"
  shows "row_good g w \<lparr>cells = take (keep_len (\<lambda>c. c \<noteq> cell_default) r) r, wrapped = False, line_no = i\<rparr>"
proof -
  let ?k = "keep_len (\<lambda>c. c \<noteq> cell_default) r"
  have d: "drop ?k r = replicate (length (drop ?k r)) cell_default"
  proof (rule replicate_eqI)
    fix y assume "y \<in> set (drop ?k r)"
    from keep_len_rest [OF this] show "y = cell_default" by blast
  qed simp
  have "map width r = map width (take ?k r) @ map width (drop ?k r)" by (metis append_take_drop_id map_append)
  moreover have "map width (drop ?k r) = replicate (length (drop ?k r)) 1" by (subst d) simp
  ultimately have "paired (map width (take ?k r))" using assms(2) paired_trim by metis
  then show ?thesis using assms by (auto simp: row_good_def list_all_iff dest: in_set_takeD)
qed

lemma emit_logical_line_good:
  assumes "sane g" and "0 < w" and "w < 65534" and "\<And>c. f c = 1 \<or> f c = 2" and "list_all (valid g) leads"
  shows "\<exists>new j. emit_logical_line f w leads phys i = ((length phys, length new), phys @ new, j) \<and> new \<noteq> [] \<and> (\<forall>l\<in>set new. row_good g w l)"
proof -
  obtain r new where r: "emit_loop f w leads [] 0 phys i = (r, phys @ new, i + length new)" "length r \<le> w" "paired (map width r)"
    "list_all (valid g) r" "\<forall>l\<in>set new. wrapped l \<and> row_good g w l"
    using emit_loop_good [OF assms(1-3), of f leads "[]" 0 phys i] assms(4,5) by auto
  let ?l = "\<lparr>cells = take (keep_len (\<lambda>c. c \<noteq> cell_default) r) r, wrapped = False, line_no = i + length new\<rparr>"
  show ?thesis using r keep_row_good [OF r(2-4), of "i + length new"]
    by (intro exI [of _ "new @ [?l]"] exI [of _ "i + length new + 1"]) (auto simp: emit_logical_line_def)
qed

section \<open>The pass keeps its rows\<close>

definition spans_in :: "anchors \<Rightarrow> nat \<Rightarrow> bool" where
  "spans_in a n \<longleftrightarrow> (\<forall>(s, k)\<in>{cursor_span a, screen_span a}. 0 < k \<and> s + k \<le> max n 1)"

definition reflow_ok :: "grid \<Rightarrow> nat \<Rightarrow> reflow \<Rightarrow> bool" where
  "reflow_ok g w s \<longleftrightarrow> list_all (valid g) (rf_leads s) \<and> list_all (row_good g w) (rf_phys s)
     \<and> spans_in (rf_anchors s) (length (rf_phys s)) \<and> (logical_index (rf_anchors s) = 0 \<longrightarrow> rf_phys s = [])
     \<and> (0 < logical_index (rf_anchors s) \<longrightarrow> rf_phys s \<noteq> [])"

lemma reflow_emit_ok:
  assumes "sane g" and "0 < w" and "w < 65534" and "\<And>c. f c = 1 \<or> f c = 2" and "reflow_ok g w s"
  shows "reflow_ok g w (reflow_emit f w s) \<and> 0 < logical_index (rf_anchors (reflow_emit f w s))"
proof -
  have v: "list_all (valid g) (rf_leads s)" using assms(5) by (simp add: reflow_ok_def)
  obtain new j where e: "emit_logical_line f w (rf_leads s) (rf_phys s) (rf_id s) = ((length (rf_phys s), length new), rf_phys s @ new, j)"
    "new \<noteq> []" "\<forall>l\<in>set new. row_good g w l"
    using emit_logical_line_good [of g w f "rf_leads s" "rf_phys s" "rf_id s"] assms(1-4) v by blast
  show ?thesis using assms(5) e
    by (auto simp: reflow_ok_def reflow_emit_def list_all_iff spans_in_def anchors_record_def Let_def max_def split: if_splits)
qed

lemma row_leads_valid: "sane g \<Longrightarrow> \<forall>c\<in>set (cells l). valid g c \<Longrightarrow> list_all (valid g) (row_leads us w l)"
  by (auto simp: row_leads_def Let_def list_all_iff valid_default pop_while_def dest!: set_dropWhileD)

lemma reflow_line_ok:
  assumes "sane g" and "0 < w" and "w < 65534" and "\<And>c. f c = 1 \<or> f c = 2" and "reflow_ok g w s"
    and "\<forall>c\<in>set (cells (snd il)). valid g c"
  shows "reflow_ok g w (reflow_line f us w ow cl sl cx il s)"
proof -
  obtain idx l where il: "il = (idx, l)" by fastforce
  define s1 where "s1 = (if idx = cl then s\<lparr>rf_anchors := (rf_anchors s)\<lparr>cursor_logical := logical_index (rf_anchors s)\<rparr>, rf_cursor := rf_width s + cx\<rparr> else s)"
  define s2 where "s2 = (if idx = sl then s1\<lparr>rf_anchors := (rf_anchors s1)\<lparr>screen_logical := logical_index (rf_anchors s1)\<rparr>, rf_screen := rf_width s1\<rparr> else s1)"
  define s3 where "s3 = s2\<lparr>rf_leads := rf_leads s2 @ row_leads us ow l, rf_width := rf_width s2 + sum_list (map (\<lambda>c. max (width c) 1) (row_leads us ow l))\<rparr>"
  have "reflow_ok g w s1" using assms(5) by (auto simp: s1_def reflow_ok_def spans_in_def)
  then have "reflow_ok g w s2" by (auto simp: s2_def reflow_ok_def spans_in_def)
  then have s3: "reflow_ok g w s3" using row_leads_valid [OF assms(1), of l us ow] assms(6) by (auto simp: s3_def reflow_ok_def il)
  have e: "reflow_line f us w ow cl sl cx il s = (if wrapped l then s3 else (reflow_emit f w s3)\<lparr>rf_width := 0\<rparr>)"
    by (simp add: reflow_line_def il Let_def s3_def s2_def s1_def)
  show ?thesis using s3 reflow_emit_ok [OF assms(1-4) s3] by (auto simp: e reflow_ok_def)
qed

lemma reflow_lines_ok:
  assumes "sane g" and "0 < w" and "w < 65534" and "\<And>c. f c = 1 \<or> f c = 2"
  shows "reflow_ok g w (reflow_lines f w cx cy g) \<and> 0 < logical_index (rf_anchors (reflow_lines f w cx cy g))"
proof -
  let ?ls = "scrollback g @ rows g"
  let ?init = "\<lparr>rf_leads = [], rf_phys = [], rf_id = next_line_id g, rf_width = 0, rf_cursor = 0, rf_screen = 0, rf_anchors = anchors_default\<rparr>"
  let ?step = "reflow_line f (underline_colors g) w (gw g) (length (scrollback g) + cy) (length (scrollback g)) cx"
  define s1 where "s1 = fold ?step (zip [0..<length ?ls] ?ls) ?init"
  have "reflow_ok g w s1" unfolding s1_def
  proof (rule fold_preserves)
    show "reflow_ok g w ?init" by (simp add: reflow_ok_def spans_in_def anchors_default_def)
    fix il s assume il: "il \<in> set (zip [0..<length ?ls] ?ls)" and s: "reflow_ok g w s"
    have "snd il \<in> set ?ls" using il set_zip_rightD [of "fst il" "snd il" "[0..<length ?ls]" ?ls] by (simp only: prod.collapse)
    then have "\<forall>c\<in>set (cells (snd il)). valid g c" using assms(1) by (auto simp: sane_def all_valid_def)
    then show "reflow_ok g w (?step il s)" using s assms by (intro reflow_line_ok) auto
  qed
  then have s2: "reflow_ok g w (if rf_leads s1 \<noteq> [] then reflow_emit f w s1 else s1)" (is "reflow_ok g w ?s2")
    using reflow_emit_ok [OF assms] by auto
  have e: "reflow_lines f w cx cy g = (if logical_index (rf_anchors ?s2) = 0 then reflow_emit f w ?s2 else ?s2)"
    unfolding reflow_lines_def Let_def s1_def [symmetric] ..
  show ?thesis unfolding e using s2 reflow_emit_ok [OF assms s2] by auto
qed

section \<open>The viewport\<close>

lemma push_blanks_back_eq: "fst (push_blanks_back n w b phys i) = phys @ map (\<lambda>k. line_blank w b (i + k)) [0..<n]"
proof (induction n arbitrary: phys i)
  case (Suc n)
  have "map (\<lambda>k. line_blank w b (i + k)) [0..<Suc n] = line_blank w b i # map (\<lambda>k. line_blank w b (i + 1 + k)) [0..<n]"
    by (simp add: upt_conv_Cons map_Suc_upt [symmetric] del: upt_Suc)
  then show ?case using Suc.IH [of "phys @ [line_blank w b i]" "i + 1"] by simp
qed simp

lemma push_blanks_front_set:
  "set (fst (push_blanks_front n w b phys i)) \<subseteq> set phys \<union> range (line_blank w b) \<and> length (fst (push_blanks_front n w b phys i)) = n + length phys"
  by (induction n w b phys i rule: push_blanks_front.induct) auto

lemma blank_good: "sane g \<Longrightarrow> plain_blank b \<Longrightarrow> row_good g w (line_blank w b i)"
  using paired_replicate [of w] by (auto simp: row_good_def line_blank_def plain_blank_def valid_plain)

lemma place_viewport_ok:
  assumes "sane g" and "plain_blank blank" and "list_all (row_good g w) phys" and "phys \<noteq> []" and "0 < h"
    and "place_viewport w h oh blank sr cg phys i = (start, cg2, phys2, i2)"
  shows "list_all (row_good g w) phys2 \<and> length phys2 = start + h"
proof (cases "h > oh")
  case True
  define start0 where "start0 = max sr (cg + 1 - h)"
  define sp where "sp = (if length phys > start0 + h
      then (let content_end = keep_len (\<lambda>l. wrapped l \<or> cells l \<noteq> []) phys; start1 = max start0 (max content_end (cg + 1) - h)
            in (start1, take (start1 + h) phys)) else (start0, phys))"
  have sp: "length (snd sp) \<le> fst sp + h" "set (snd sp) \<subseteq> set phys"
    by (auto simp: sp_def Let_def dest: in_set_takeD)
  have e: "start = fst sp" "phys2 = fst (push_blanks_back (fst sp + h - length (snd sp)) w blank (snd sp) i)"
    using assms(6) True unfolding place_viewport_def Let_def start0_def [symmetric]
    by (auto simp: sp_def Let_def split_beta split: if_splits)
  show ?thesis using sp assms(3) blank_good [OF assms(1,2)] by (auto simp: e push_blanks_back_eq list_all_iff)
next
  case False
  then have e: "start = length phys2 - h" "phys2 = fst (push_blanks_front (h - length phys) w blank phys i)"
    using assms(6) by (auto simp: place_viewport_def Let_def split_beta)
  have "list_all (row_good g w) phys2" "length phys2 = h - length phys + length phys"
    using push_blanks_front_set [of "h - length phys" w blank phys i] assms(3) blank_good [OF assms(1,2)]
    by (auto simp: e(2) list_all_iff)
  then show ?thesis using e(1) by simp
qed

lemma clamp12_cases: "clamp12 n = 1 \<or> clamp12 n = 2"
  by (auto simp: clamp12_def)

lemma glyph_width_cases: "glyph_width sw cl c = 1 \<or> glyph_width sw cl c = 2"
  using clamp12_cases by (auto simp: glyph_width_def split: option.split)

lemma mark_all_damaged_sel [simp]:
  "gw (mark_all_damaged g) = gw g" "gh (mark_all_damaged g) = gh g" "rows (mark_all_damaged g) = rows g"
  "scrollback (mark_all_damaged g) = scrollback g" "clusters (mark_all_damaged g) = clusters g"
  "hyperlinks (mark_all_damaged g) = hyperlinks g" "underline_colors (mark_all_damaged g) = underline_colors g"
  "length (damage (mark_all_damaged g)) = length (damage g)" "scrollback_limit (mark_all_damaged g) = scrollback_limit g"
  by (simp_all add: mark_all_damaged_def)

lemma mark_all_damaged_pending: "0 < gw g \<Longrightarrow> 0 < gh g \<Longrightarrow> pending_scroll_up (mark_all_damaged g) = 0"
  by (simp add: mark_all_damaged_def)

text \<open>A grid whose lines have been replaced by good rows.\<close>

lemma rebuilt_sane:
  assumes "sane g" and "0 < w" and "0 < h" and "length ls = h"
    and "\<forall>l\<in>set ls. row_good g w l \<and> length (cells l) = w" and "\<forall>l\<in>set sb. \<forall>c\<in>set (cells l). valid g c"
    and "k = mark_all_damaged (g\<lparr>rows := ls, scrollback := sb, next_line_id := i, gw := w, gh := h, damage := replicate h clean\<rparr>)"
  shows "sane k \<and> all_paired k"
proof -
  have v: "valid k c \<longleftrightarrow> valid g c" for c by (simp add: assms(7) valid_def)
  have w: "grid_wf k" using assms by (simp add: grid_wf_def mark_all_damaged_pending)
  moreover have "all_valid k"
  proof -
    have "scrollback k = sb" "rows k = ls" by (simp_all add: assms(7))
    then show ?thesis using assms(5,6) unfolding all_valid_def v by (auto simp: row_good_def)
  qed
  moreover have "colors_wf k" "clusters k \<noteq> []" using assms(1) by (simp_all add: assms(7) sane_def colors_wf_def)
  ultimately show ?thesis using assms(5) by (auto simp: sane_def rows_paired_iff row_good_def assms(7))
qed

definition resized_ok :: "nat \<Rightarrow> nat \<Rightarrow> grid \<Rightarrow> grid \<times> nat \<times> nat \<times> bool \<Rightarrow> bool" where
  "resized_ok w h g r \<longleftrightarrow> (case r of (k, cx, cy, _) \<Rightarrow>
     sane k \<and> all_paired k \<and> gw k = w \<and> gh k = h \<and> cx < w \<and> cy < h
     \<and> (length (scrollback g) \<le> scrollback_limit g \<longrightarrow> length (scrollback k) \<le> scrollback_limit k))"

lemma reflow_width_ok:
  assumes "sane g" and "plain_blank blank" and "0 < w" and "w < 65534" and "0 < h"
  shows "resized_ok w h g (reflow_width sw w h blank cursor pending g)"
proof -
  define s where "s = reflow_lines (glyph_width sw (clusters g)) w (fst cursor) (snd cursor) g"
  have ok: "reflow_ok g w s" "0 < logical_index (rf_anchors s)"
    unfolding s_def using reflow_lines_ok [OF assms(1,3,4) glyph_width_cases] by auto
  define ae where "ae \<longleftrightarrow> pending \<and> rf_cursor s mod w = 0 \<and> rf_cursor s \<noteq> 0"
  define v where "v = place_viewport w h (gh g) blank (fst (screen_span (rf_anchors s)) + min (rf_screen s div w) (snd (screen_span (rf_anchors s)) - 1))
      (fst (cursor_span (rf_anchors s)) + min (if ae then rf_cursor s div w - 1 else rf_cursor s div w) (snd (cursor_span (rf_anchors s)) - 1))
      (rf_phys s) (rf_id s)"
  obtain start cg phys i where v4: "v = (start, cg, phys, i)" by (metis surj_pair)
  have vp: "list_all (row_good g w) phys" "length phys = start + h"
    using place_viewport_ok [OF assms(1,2) _ _ assms(5) v4 [unfolded v_def]] ok by (auto simp: reflow_ok_def)
  define hs where "hs = start - scrollback_limit g"
  let ?fill = "\<lambda>l. if length (cells l) < w then l\<lparr>cells := vec_resize w cell_default (cells l)\<rparr> else l"
  define ls where "ls = map ?fill (drop (start - hs) (drop hs phys))"
  define sb where "sb = take (start - hs) (drop hs phys)"
  have e: "reflow_width sw w h blank cursor pending g =
      (mark_all_damaged (g\<lparr>rows := ls, scrollback := sb, next_line_id := i, gw := w, gh := h, damage := replicate h clean\<rparr>),
       min (if ae then w - 1 else rf_cursor s mod w) (w - 1), min (cg - hs - (start - hs)) (h - 1), ae)"
    unfolding reflow_width_def Let_def s_def [symmetric] split_beta ae_def [symmetric] v_def [symmetric]
    by (simp add: v4 hs_def [symmetric] ls_def sb_def)
  have good: "row_good g w (?fill l) \<and> length (cells (?fill l)) = w" if "l \<in> set phys" for l
  proof -
    have l: "row_good g w l" using that vp(1) by (simp add: list_all_iff)
    show ?thesis
    proof (cases "length (cells l) < w")
      case True
      then have r: "vec_resize w cell_default (cells l) = cells l @ replicate (w - length (cells l)) cell_default"
        by (intro vec_resize_props) simp
      have "paired (map width (cells l) @ replicate (w - length (cells l)) 1)"
        using l paired_append [OF _ paired_replicate] by (simp add: row_good_def)
      then show ?thesis using True l valid_default [OF assms(1)] by (auto simp: row_good_def r)
    qed (use l in \<open>auto simp: row_good_def\<close>)
  qed
  have sub: "set (drop (start - hs) (drop hs phys)) \<subseteq> set phys" "set sb \<subseteq> set phys"
    by (auto simp: sb_def dest: in_set_dropD in_set_takeD)
  have "\<forall>l\<in>set ls. row_good g w l \<and> length (cells l) = w"
    unfolding ls_def set_map using good sub(1) by blast
  moreover have "\<forall>l\<in>set sb. \<forall>c\<in>set (cells l). valid g c"
    using vp(1) sub(2) by (auto simp: list_all_iff row_good_def)
  moreover have "length ls = h" using vp(2) by (simp add: ls_def hs_def)
  ultimately have k: "sane k \<and> all_paired k"
    if "k = mark_all_damaged (g\<lparr>rows := ls, scrollback := sb, next_line_id := i, gw := w, gh := h, damage := replicate h clean\<rparr>)" for k
    using rebuilt_sane [OF assms(1,3,5)] that by blast
  have m: "min a (w - 1) < w" "min a (h - 1) < h" for a using assms(3,5) by linarith+
  have "length sb \<le> scrollback_limit g" by (simp add: sb_def hs_def)
  then show ?thesis unfolding resized_ok_def e using k m by simp
qed

lemma push_fold_rows:
  "rows (fold (\<lambda>l k. push_scrollback (trim_default_tail l) k) ls g) = rows g"
  "gw (fold (\<lambda>l k. push_scrollback (trim_default_tail l) k) ls g) = gw g"
  "clusters (fold (\<lambda>l k. push_scrollback (trim_default_tail l) k) ls g) = clusters g"
  "hyperlinks (fold (\<lambda>l k. push_scrollback (trim_default_tail l) k) ls g) = hyperlinks g"
  "underline_colors (fold (\<lambda>l k. push_scrollback (trim_default_tail l) k) ls g) = underline_colors g"
  "scrollback_limit (fold (\<lambda>l k. push_scrollback (trim_default_tail l) k) ls g) = scrollback_limit g"
  "next_line_id (fold (\<lambda>l k. push_scrollback (trim_default_tail l) k) ls g) = next_line_id g"
  by (induction ls arbitrary: g) simp_all

lemma push_fold_valid:
  "\<forall>l\<in>set (scrollback g) \<union> set ls. \<forall>c\<in>set (cells l). P c \<Longrightarrow>
     \<forall>l\<in>set (scrollback (fold (\<lambda>l k. push_scrollback (trim_default_tail l) k) ls g)). \<forall>c\<in>set (cells l). P c"
proof (induction ls arbitrary: g)
  case (Cons l ls)
  have "\<forall>m\<in>set (scrollback (push_scrollback (trim_default_tail l) g)). \<forall>c\<in>set (cells m). P c"
    using push_scrollback_set [of "trim_default_tail l" g] trim_cells [of l] Cons.prems by fastforce
  then show ?case using Cons.IH [of "push_scrollback (trim_default_tail l) g"] Cons.prems by auto
qed simp

lemma push_fold_bound:
  "length (scrollback g) \<le> scrollback_limit g \<Longrightarrow>
     length (scrollback (fold (\<lambda>l k. push_scrollback (trim_default_tail l) k) ls g)) \<le> scrollback_limit g"
proof (induction ls arbitrary: g)
  case (Cons l ls)
  have "length (scrollback (push_scrollback (trim_default_tail l) g)) \<le> scrollback_limit g"
    using Cons.prems by (auto simp: push_scrollback_def evict_def)
  then show ?case using Cons.IH [of "push_scrollback (trim_default_tail l) g"] by simp
qed simp

text \<open>The column may lie one past the last when a wrap is pending and the size changes.\<close>

lemma resize_reflow_ok:
  assumes "sane g" and "all_paired g" and "plain_blank blank" and "w < 65534" and "max w 1 = gw g \<and> max h 1 = gh g \<longrightarrow> cx < gw g" and "cy < gh g" and "0 < gw g"
  shows "resized_ok (max w 1) (max h 1) g (resize_reflow sw w h blank (cx, cy) pending g)"
proof -
  let ?w = "max w 1" and ?h = "max h 1"
  have wf: "grid_wf g" and wp: "0 < gw g" using assms by (simp_all add: sane_def)
  have rg: "row_good g (gw g) l \<and> length (cells l) = gw g" if "l \<in> set (rows g)" for l
    using that assms(1,2) wf by (auto simp: row_good_def rows_paired_iff [OF wf] sane_def all_valid_def grid_wf_def)
  have sv: "\<forall>l\<in>set (scrollback g). \<forall>c\<in>set (cells l). valid g c" using assms(1) by (auto simp: sane_def all_valid_def)
  have pc: "min (pending_column cx pending) (gw g - 1) < gw g" using wp by linarith
  consider (same) "?w = gw g" "?h = gh g" | (grow) "?w = gw g" "?h > gh g" | (shrink) "?w = gw g" "?h < gh g" | (reflow) "?w \<noteq> gw g"
    by linarith
  then show ?thesis
  proof cases
    case same
    then show ?thesis using assms by (simp add: resize_reflow_def resized_ok_def)
  next
    case grow
    let ?p = "push_blanks_back (?h - length (rows g)) ?w blank (rows g) (next_line_id g)"
    let ?k = "mark_all_damaged (g\<lparr>rows := fst ?p, next_line_id := snd ?p, gh := ?h, damage := replicate ?h clean\<rparr>)"
    have e: "resize_reflow sw w h blank (cx, cy) pending g = (?k, min (pending_column cx pending) (?w - 1), min cy (?h - 1), pending)"
      using grow unfolding resize_reflow_def Let_def split_beta by simp
    have k: "?k = mark_all_damaged (g\<lparr>rows := fst ?p, scrollback := scrollback g, next_line_id := snd ?p, gw := ?w, gh := ?h, damage := replicate ?h clean\<rparr>)"
      using grow(1) by (cases g) simp
    have "\<forall>l\<in>set (fst ?p). row_good g ?w l \<and> length (cells l) = ?w"
      using rg blank_good [OF assms(1,3)] grow(1) by (auto simp: push_blanks_back_eq line_blank_def)
    moreover have "length (fst ?p) = ?h" using grow(2) wf by (simp add: push_blanks_back_eq grid_wf_def)
    ultimately have "sane ?k \<and> all_paired ?k" using rebuilt_sane [OF assms(1) _ _ _ _ sv k] by simp
    then show ?thesis using grow pc unfolding resized_ok_def e by auto
  next
    case shrink
    let ?r = "gh g - ?h"
    let ?g1 = "fold (\<lambda>l k. push_scrollback (trim_default_tail l) k) (take ?r (rows g)) (g\<lparr>rows := drop ?r (rows g)\<rparr>)"
    let ?k = "mark_all_damaged (?g1\<lparr>gh := ?h, damage := replicate ?h clean\<rparr>)"
    have e: "resize_reflow sw w h blank (cx, cy) pending g = (?k, min (pending_column cx pending) (?w - 1), cy - ?r, pending)"
    proof -
      have n: "(?w = gw g \<and> ?h = gh g) = False" "(?h > gh g \<and> ?w = gw g) = False" "(?h < gh g \<and> ?w = gw g) = True"
        using shrink by auto
      show ?thesis unfolding resize_reflow_def Let_def by (simp only: n if_True if_False fst_conv snd_conv)
    qed
    have v: "valid ?k c \<longleftrightarrow> valid g c" for c by (simp add: valid_def push_fold_rows)
    have "\<forall>l\<in>set (scrollback ?g1). \<forall>c\<in>set (cells l). valid g c"
    proof (rule push_fold_valid)
      show "\<forall>l\<in>set (scrollback (g\<lparr>rows := drop ?r (rows g)\<rparr>)) \<union> set (take ?r (rows g)). \<forall>c\<in>set (cells l). valid g c"
        using assms(1) by (auto simp: sane_def all_valid_def dest: in_set_takeD)
    qed
    moreover have rows: "set (rows ?k) \<subseteq> set (rows g)" by (auto simp: push_fold_rows dest: in_set_dropD)
    moreover have "scrollback ?k = scrollback ?g1" by simp
    ultimately have av: "all_valid ?k" unfolding all_valid_def v set_append using rg by (auto simp: row_good_def)
    have wk: "grid_wf ?k" using rows rg wf shrink wp by (auto simp: grid_wf_def push_fold_rows mark_all_damaged_pending)
    have "sane ?k" using assms(1) av wk by (simp add: sane_def colors_wf_def push_fold_rows)
    moreover have "all_paired ?k" unfolding rows_paired_iff [OF wk] using rows rg unfolding row_good_def by blast
    moreover have "length (scrollback g) \<le> scrollback_limit g \<Longrightarrow> length (scrollback ?k) \<le> scrollback_limit ?k"
      using push_fold_bound [of "g\<lparr>rows := drop ?r (rows g)\<rparr>" "take ?r (rows g)"] by (simp add: push_fold_rows)
    ultimately show ?thesis using shrink pc assms(6) unfolding resized_ok_def e by (simp add: push_fold_rows)
  next
    case reflow
    then have "resize_reflow sw w h blank (cx, cy) pending g = reflow_width sw ?w ?h blank (cx, cy) pending g"
      unfolding resize_reflow_def Let_def by simp
    then show ?thesis using reflow_width_ok [OF assms(1,3), of ?w ?h] assms(4) by simp
  qed
qed

text \<open>
  C33. Resizing a sane grid to any size, with the cursor inside it, gives a sane grid of that
  size (at least one cell): every row has the new width, wide glyphs are whole, handles
  resolve, the history stays within its limit and the returned cursor lies on the screen.
\<close>

theorem resize_keeps_the_grid:
  assumes "sane g" and "all_paired g" and "plain_blank blank" and "w < 65534" and "cx < gw g" and "cy < gh g"
  shows "resized_ok (max w 1) (max h 1) g (resize_reflow sw w h blank (cx, cy) pending g)"
  using resize_reflow_ok [OF assms(1-4) _ assms(6)] assms(5) by (metis gr_zeroI not_less_zero)

theorem resize_keeps_the_grid_witness:
  "resized_ok 3 2 (grid_new 4 2) (resize_reflow length 3 2 cell_default (1, 1) False (grid_new 4 2))"
proof -
  have "plain_blank cell_default" "1 < gw (grid_new 4 2)" "1 < gh (grid_new 4 2)"
    by (simp_all add: plain_blank_def cell_default_def grid_new_def)
  from resize_keeps_the_grid [OF sane_new all_paired_new this(1) _ this(2,3), where w = 3 and h = 2 and sw = length and pending = False]
  have "resized_ok (max 3 1) (max 2 1) (grid_new 4 2) (resize_reflow length 3 2 cell_default (1, 1) False (grid_new 4 2))"
    by simp
  moreover have "max 3 (1 :: nat) = 3" "max 2 (1 :: nat) = 2" by simp_all
  ultimately show ?thesis by (simp only:)
qed

section \<open>Joining what was cut\<close>

lemma pop_while_nil [simp]: "pop_while P [] = []"
  by (simp add: pop_while_def)

lemma keep_len_last: "xs \<noteq> [] \<Longrightarrow> P (last xs) \<Longrightarrow> keep_len P xs = length xs"
  by (cases xs rule: rev_cases) (auto simp: keep_len_def)

lemma emit_narrow:
  assumes "0 < w" and "w < 65534" and "\<forall>c\<in>set leads. f c = 1 \<and> width c = 1"
  shows "length row = x \<Longrightarrow> x \<le> w \<Longrightarrow> \<forall>c\<in>set row. width c = 1 \<Longrightarrow>
      (\<exists>r new. emit_loop f w leads row x phys i = (r, phys @ new, i + length new) \<and> (\<forall>l\<in>set new. wrapped l \<and> length (cells l) = w)
         \<and> concat (map cells new) @ r = row @ leads \<and> (\<forall>c\<in>set r. width c = 1) \<and> (leads \<noteq> [] \<longrightarrow> r \<noteq> []))"
  using assms(3)
proof (induction leads arbitrary: row x phys i)
  case (Cons lead leads)
  have k: "min (f lead) w = 1" using Cons.prems(4) assms(1) by simp
  have gl: "glyph_cells 1 lead = [lead]" using Cons.prems(4) by (simp add: glyph_cells_def)
  have wr: "wrap16 (x + 1) = x + 1" using Cons.prems(2) assms(2) by (intro wrap16_id) linarith
  have nl: "\<forall>c\<in>set leads. f c = 1 \<and> width c = 1" "width lead = 1" using Cons.prems(4) by auto
  show ?case
  proof (cases "x > 0 \<and> x + 1 > w")
    case True
    let ?l = "\<lparr>cells = row, wrapped = True, line_no = i\<rparr>"
    have r: "vec_resize w cell_default row = row" using True Cons.prems(1,2) by (simp add: vec_resize_def)
    obtain q new where q: "emit_loop f w leads [lead] 1 (phys @ [?l]) (i + 1) = (q, (phys @ [?l]) @ new, i + 1 + length new)"
      "\<forall>l\<in>set new. wrapped l \<and> length (cells l) = w" "concat (map cells new) @ q = [lead] @ leads" "\<forall>c\<in>set q. width c = 1"
      "leads \<noteq> [] \<longrightarrow> q \<noteq> []"
      using Cons.IH [of "[lead]" 1 "phys @ [?l]" "i + 1"] nl assms(1) by auto
    have "leads = [] \<Longrightarrow> q \<noteq> []" using q(1) by auto
    then show ?thesis using q True k gl wr r Cons.prems(1,2)
      by (intro exI [of _ q] exI [of _ "?l # new"]) (auto simp: Let_def)
  next
    case False
    then have xw: "x + 1 \<le> w" using Cons.prems(2) assms(1) by auto
    obtain q new where q: "emit_loop f w leads (row @ [lead]) (x + 1) phys i = (q, phys @ new, i + length new)"
      "\<forall>l\<in>set new. wrapped l \<and> length (cells l) = w" "concat (map cells new) @ q = (row @ [lead]) @ leads" "\<forall>c\<in>set q. width c = 1"
      "leads \<noteq> [] \<longrightarrow> q \<noteq> []"
      using Cons.IH [of "row @ [lead]" "x + 1" phys i] nl xw Cons.prems(1,3) by auto
    have "leads = [] \<Longrightarrow> q \<noteq> []" using q(1) by auto
    then show ?thesis using q False k gl wr by (intro exI [of _ q] exI [of _ new]) (auto simp: Let_def)
  qed
qed auto

text \<open>The leads that the next reflow reads off the rows of one logical line.\<close>

definition join_rows :: "color list \<Rightarrow> nat \<Rightarrow> line list \<Rightarrow> cell list" where
  "join_rows us w ls = concat (map (row_leads us w) ls)"

lemma filter_narrow: "\<forall>c\<in>set cs. width c = 1 \<Longrightarrow> filter (\<lambda>c. \<not> is_continuation c) cs = cs"
  by (simp add: is_continuation_def filter_id_conv)

text \<open>
  A logical line of single-width glyphs is not changed by a reflow: cut at any width and
  joined again it gives the same glyphs, styles included, whether or not rows are full.
\<close>

theorem reflow_round_trip:
  assumes "0 < w" and "w < 65534" and "list_get us 0 = Some ColorDefault"
    and "\<forall>c\<in>set leads. f c = 1 \<and> width c = 1" and "leads = [] \<or> \<not> is_default_blank us (last leads)"
  shows "join_rows us w (drop (length phys) (fst (snd (emit_logical_line f w leads phys i)))) = leads"
proof -
  obtain r new where e: "emit_loop f w leads [] 0 phys i = (r, phys @ new, i + length new)"
    "\<forall>l\<in>set new. wrapped l \<and> length (cells l) = w" "concat (map cells new) @ r = leads" "\<forall>c\<in>set r. width c = 1" "leads \<noteq> [] \<longrightarrow> r \<noteq> []"
    using emit_narrow [OF assms(1,2,4), of "[]" 0 phys i] by auto
  have d: "is_default_blank us cell_default"
    using assms(3) by (simp add: is_default_blank_def cell_default_def is_continuation_def underline_color_def)
  have r: "r = [] \<or> \<not> is_default_blank us (last r)"
    using assms(5) e(3,5) by (metis append_is_Nil_conv last_appendR)
  then have "r \<noteq> [] \<Longrightarrow> last r \<noteq> cell_default" using d by auto
  then have k: "take (keep_len (\<lambda>c. c \<noteq> cell_default) r) r = r"
    using keep_len_last [of r "\<lambda>c. c \<noteq> cell_default"] by (cases "r = []") auto
  have n: "row_leads us w l = cells l" if "l \<in> set new" for l
  proof -
    have "set (cells l) \<subseteq> set (concat (map cells new) @ r)" using that by auto
    then have "\<forall>c\<in>set (cells l). width c = 1" using assms(4) unfolding e(3) by blast
    then show ?thesis using that e(2) by (simp add: row_leads_def filter_narrow Let_def)
  qed
  have "row_leads us w \<lparr>cells = r, wrapped = False, line_no = i + length new\<rparr> = r"
    using r e(4) by (simp add: row_leads_def filter_narrow Let_def pop_while_id)
  then have "join_rows us w (new @ [\<lparr>cells = r, wrapped = False, line_no = i + length new\<rparr>]) = concat (map cells new) @ r"
    using n by (simp add: join_rows_def cong: map_cong)
  then show ?thesis using e(1,3) k by (simp add: emit_logical_line_def)
qed

theorem reflow_round_trip_witness:
  "join_rows [ColorDefault] 2 (drop 0 (fst (snd (emit_logical_line (\<lambda>_. 1) 2
     [cell_default\<lparr>ch := 97\<rparr>, cell_default\<lparr>ch := 98\<rparr>, cell_default\<lparr>ch := 99\<rparr>] [] 7))))
     = [cell_default\<lparr>ch := 97\<rparr>, cell_default\<lparr>ch := 98\<rparr>, cell_default\<lparr>ch := 99\<rparr>]"
  using reflow_round_trip [of 2 "[ColorDefault]" "[cell_default\<lparr>ch := 97\<rparr>, cell_default\<lparr>ch := 98\<rparr>, cell_default\<lparr>ch := 99\<rparr>]" "\<lambda>_. 1" "[]" 7]
  by (simp add: list_get_def is_default_blank_def)

text \<open>
  A wide glyph that does not fit at the end of a row leaves a default cell there, and the
  next reflow takes that cell for text: two letters and a wide glyph, narrowed to three
  columns and widened again, come back with a space between them.
\<close>

theorem reflow_inserts_blank:
  "let a = cell_default\<lparr>ch := 97\<rparr>; b = cell_default\<lparr>ch := 98\<rparr>; wide = cell_default\<lparr>ch := 0x4E2D, width := 2\<rparr>;
       f = (\<lambda>c. if ch c = 0x4E2D then 2 else 1)
   in join_rows [ColorDefault] 3 (fst (snd (emit_logical_line f 3 [a, b, wide] [] 1))) = [a, b, cell_default, wide]"
  by code_simp

end
