(* ===== verification/Terminal.thy ===== *)
theory Terminal
  imports Grid_Reflow Agent Workspace
begin

text \<open>
  The terminal emulator, \<^verbatim>\<open>crates/uniterm-server/src/terminal.rs\<close>: the callbacks that the
  escape-sequence parser invokes (printing, control bytes, CSI, OSC and ESC sequences), the
  alternate screen, resizing, and the texts read off the screen. \<open>emu\<close> is the \<^verbatim>\<open>Performer\<close>:
  the visible grid together with \<^verbatim>\<open>EmuState\<close>. An operation that can panic on an index returns
  an option, with \<open>None\<close> for the panic; 16-bit sums and differences that can leave their range
  wrap, as in the release build. The parser is the third-party crate \<^verbatim>\<open>vte\<close>: a parameter that
  turns bytes into callbacks. Unicode widths and segmentation, and the decoding of JSON, are
  the fields of \<open>tables\<close>.
\<close>

section \<open>State\<close>

datatype mouse_mode = MouseOff | MouseX10 | MouseNormal | MouseButton | MouseAny

record agent_event =
  ev_agent :: "str option"
  ev_status :: "agent_status option"
  ev_cooperative_ready :: bool
  ev_tool_completed :: bool
  ev_session_id :: "str option"
  ev_parent_session_id :: "str option"
  ev_resume_command :: "str list"
  ev_transcript_path :: "str option"
  ev_details :: "agent_detail list"

record keyboard_mode =
  km_flags :: u16
  km_stack :: "u16 list"
  km_depth :: nat

definition keyboard_default :: keyboard_mode where
  "keyboard_default = \<lparr>km_flags = 0, km_stack = replicate 16 0, km_depth = 0\<rparr>"

definition km_push :: "u16 \<Rightarrow> keyboard_mode \<Rightarrow> keyboard_mode" where
  "km_push f k =
     (let k1 = (if km_depth k = length (km_stack k)
                then k\<lparr>km_stack := drop 1 (km_stack k) @ [last (km_stack k)], km_depth := km_depth k - 1\<rparr> else k)
      in k1\<lparr>km_stack := (km_stack k1)[km_depth k1 := km_flags k1], km_depth := km_depth k1 + 1, km_flags := f AND 1\<rparr>)"

definition km_pop :: "nat \<Rightarrow> keyboard_mode \<Rightarrow> keyboard_mode" where
  "km_pop n k =
     (if n > km_depth k then k\<lparr>km_flags := 0, km_depth := 0\<rparr>
      else if n \<noteq> 0 then k\<lparr>km_depth := km_depth k - n, km_flags := km_stack k ! (km_depth k - n)\<rparr>
      else k)"

text \<open>The tuple kept by the two save-cursor operations.\<close>

record saved_cursor =
  sc_x :: nat
  sc_y :: nat
  sc_fg :: color
  sc_bg :: color
  sc_attrs :: attrs
  sc_ucolor :: color
  sc_pending :: bool

record emu =
  em_grid :: grid
  em_width :: nat
  em_height :: nat
  cx :: nat
  cy :: nat
  em_fg :: color
  em_bg :: color
  em_attrs :: attrs
  em_ucolor :: color
  em_uhandle :: nat
  em_link :: nat
  wrap_pending :: bool
  autowrap :: bool
  origin_mode :: bool
  insert_mode :: bool
  cursor_visible :: bool
  bracketed_paste :: bool
  kb_primary :: keyboard_mode
  kb_alternate :: keyboard_mode
  last_char :: "rchar option"
  tabs :: "bool list"
  line_drawing :: bool
  scroll_top :: nat
  scroll_bottom :: nat
  saved :: "saved_cursor option"
  alt_backup :: "grid option"
  alt_cursor :: "saved_cursor option"
  app_cursor :: bool
  mouse :: mouse_mode
  mouse_sgr :: bool
  nested_input :: bool
  nested_input_changes :: "bool list"
  agent_events :: "agent_event list"
  cwd :: "str option"
  prompt_marks :: "str list"
  clipboard_requests :: "byte list list"
  terminal_title :: str
  default_fg :: color
  default_bg :: color
  dark_theme :: bool
  palette_notifications :: bool
  em_limit :: nat
  responses :: "byte list"

definition blank_cell :: "emu \<Rightarrow> cell" where
  "blank_cell e = cell_default\<lparr>ch := 32, fg := em_fg e, bg := em_bg e, attrs := 0\<rparr>"

definition default_tabs :: "nat \<Rightarrow> bool list" where
  "default_tabs w = map (\<lambda>x. x \<noteq> 0 \<and> x mod 8 = 0) [0..<w]"

definition terminal_new :: "nat \<Rightarrow> nat \<Rightarrow> emu" where
  "terminal_new w h =
     \<lparr>em_grid = grid_new (max w 1) (max h 1), em_width = max w 1, em_height = max h 1, cx = 0, cy = 0,
      em_fg = ColorDefault, em_bg = ColorDefault, em_attrs = 0, em_ucolor = ColorDefault, em_uhandle = 0, em_link = 0,
      wrap_pending = False, autowrap = True, origin_mode = False, insert_mode = False, cursor_visible = True,
      bracketed_paste = False, kb_primary = keyboard_default, kb_alternate = keyboard_default, last_char = None,
      tabs = default_tabs (max w 1), line_drawing = False, scroll_top = 0, scroll_bottom = max h 1 - 1,
      saved = None, alt_backup = None, alt_cursor = None, app_cursor = False, mouse = MouseOff, mouse_sgr = False,
      nested_input = False, nested_input_changes = [], agent_events = [], cwd = None, prompt_marks = [],
      clipboard_requests = [], terminal_title = [], default_fg = Rgb 0xcc 0xcc 0xcc, default_bg = Rgb 0x1e 0x1e 0x2e,
      dark_theme = True, palette_notifications = False, em_limit = 10000, responses = []\<rparr>"

section \<open>Lines and regions\<close>

definition em_scroll_up :: "emu \<Rightarrow> emu" where
  "em_scroll_up e = e\<lparr>em_grid := scroll_region_up (scroll_top e) (scroll_bottom e) (blank_cell e) (em_grid e)\<rparr>"

definition em_scroll_down :: "emu \<Rightarrow> emu" where
  "em_scroll_down e = e\<lparr>em_grid := scroll_region_down (scroll_top e) (scroll_bottom e) (blank_cell e) (em_grid e)\<rparr>"

definition linefeed :: "emu \<Rightarrow> emu" where
  "linefeed e =
     (if cy e = scroll_bottom e then em_scroll_up e
      else if cy e + 1 < em_height e then e\<lparr>cy := cy e + 1\<rparr> else e)"

definition reverse_index :: "emu \<Rightarrow> emu" where
  "reverse_index e =
     (if cy e = scroll_top e then em_scroll_down e
      else if cy e > 0 then e\<lparr>cy := cy e - 1\<rparr> else e)"

definition em_delete_chars :: "nat \<Rightarrow> emu \<Rightarrow> emu" where
  "em_delete_chars n e =
     e\<lparr>em_grid := set_row_wrapped (cy e) False (delete_cells (cy e) (cx e) n (blank_cell e) (em_grid e)),
       wrap_pending := False\<rparr>"

definition em_insert_chars :: "nat \<Rightarrow> emu \<Rightarrow> emu" where
  "em_insert_chars n e =
     e\<lparr>em_grid := insert_cells (cy e) (cx e) n (blank_cell e) (em_grid e), wrap_pending := False\<rparr>"

definition sat16_add :: "nat \<Rightarrow> nat \<Rightarrow> nat" where
  "sat16_add a b = min (a + b) 65535"

definition em_erase_chars :: "nat \<Rightarrow> emu \<Rightarrow> emu" where
  "em_erase_chars n e =
     e\<lparr>em_grid := set_row_wrapped (cy e) False (erase_cells (cy e) (cx e) (sat16_add (cx e) n) (blank_cell e) (em_grid e)),
       wrap_pending := False\<rparr>"

definition em_insert_lines :: "nat \<Rightarrow> emu \<Rightarrow> emu" where
  "em_insert_lines n e =
     (let e1 = e\<lparr>wrap_pending := False\<rparr>
      in if cy e1 < scroll_top e1 \<or> cy e1 > scroll_bottom e1 then e1
         else e1\<lparr>em_grid := (scroll_region_down (cy e1) (scroll_bottom e1) (blank_cell e1) ^^ n) (em_grid e1)\<rparr>)"

definition em_delete_lines :: "nat \<Rightarrow> emu \<Rightarrow> emu" where
  "em_delete_lines n e =
     (let e1 = e\<lparr>wrap_pending := False\<rparr>
      in if cy e1 < scroll_top e1 \<or> cy e1 > scroll_bottom e1 then e1
         else e1\<lparr>em_grid := (scroll_region_up_discarding (cy e1) (scroll_bottom e1) (blank_cell e1) ^^ n) (em_grid e1)\<rparr>)"

definition erase_in_line :: "nat \<Rightarrow> emu \<Rightarrow> emu" where
  "erase_in_line mode e =
     (if mode > 2 then e
      else
        (let (start, stop) = (if mode = 0 then (cx e, em_width e) else if mode = 1 then (0, cx e + 1) else (0, em_width e));
             g1 = erase_cells (cy e) start (min stop (em_width e)) (blank_cell e) (em_grid e);
             g2 = (if mode = 0 then set_row_wrapped (cy e) False g1 else g1)
         in e\<lparr>em_grid := g2, wrap_pending := False\<rparr>))"

definition erase_rows :: "nat \<Rightarrow> nat \<Rightarrow> emu \<Rightarrow> emu" where
  "erase_rows a b e =
     e\<lparr>em_grid := fold (\<lambda>y g. erase_cells y 0 (em_width e) (blank_cell e) g) [a..<b] (em_grid e)\<rparr>"

definition erase_in_display :: "nat \<Rightarrow> emu \<Rightarrow> emu" where
  "erase_in_display mode e =
     (if mode = 0 then erase_rows (cy e + 1) (em_height e) (erase_in_line 0 e)
      else if mode = 1 then erase_in_line 1 (erase_rows 0 (cy e) e)
      else if mode = 2 then (erase_rows 0 (em_height e) e)\<lparr>wrap_pending := False\<rparr>
      else if mode = 3 then e\<lparr>em_grid := clear_scrollback (em_grid e)\<rparr>
      else e)"

section \<open>Graphic rendition\<close>

definition ATTR_BOLD :: attrs where "ATTR_BOLD = push_bit 0 1"
definition ATTR_ITALIC :: attrs where "ATTR_ITALIC = push_bit 4 1"
definition ATTR_REVERSE :: attrs where "ATTR_REVERSE = push_bit 2 1"
definition ATTR_DIM :: attrs where "ATTR_DIM = push_bit 3 1"
definition ATTR_STRIKE :: attrs where "ATTR_STRIKE = push_bit 7 1"
definition ATTR_BLINK :: attrs where "ATTR_BLINK = push_bit 5 1"
definition ATTR_INVISIBLE :: attrs where "ATTR_INVISIBLE = push_bit 6 1"

definition sgr_underline_style :: "nat \<Rightarrow> underline_style option" where
  "sgr_underline_style n =
     (if n = 0 then Some UlNone else if n = 1 then Some UlSingle else if n = 2 then Some UlDouble
      else if n = 3 then Some UlCurly else if n = 4 then Some UlDotted else if n = 5 then Some UlDashed else None)"

definition as_u8 :: "nat \<Rightarrow> nat" where
  "as_u8 n = n mod 256"

definition first_of :: "nat list list \<Rightarrow> nat \<Rightarrow> nat option" where
  "first_of groups i = Option.bind (list_get groups i) (\<lambda>g. list_get g 0)"

definition parse_extended_color :: "nat list list \<Rightarrow> color option \<times> nat" where
  "parse_extended_color groups =
     (let head = groups ! 0
      in if length head > 1 then
           (if head ! 1 = 5 \<and> length head \<ge> 3 then Some (Idx (as_u8 (head ! 2)))
            else if head ! 1 = 2 \<and> length head \<ge> 6 then Some (Rgb (as_u8 (head ! 3)) (as_u8 (head ! 4)) (as_u8 (head ! 5)))
            else if head ! 1 = 2 \<and> length head \<ge> 5 then Some (Rgb (as_u8 (head ! 2)) (as_u8 (head ! 3)) (as_u8 (head ! 4)))
            else None, 1)
         else
           (case first_of groups 1 of
              Some k \<Rightarrow>
                if k = 5 then (case first_of groups 2 of Some n \<Rightarrow> (Some (Idx (as_u8 n)), 3) | None \<Rightarrow> (None, 2))
                else if k = 2 then
                  (case (first_of groups 2, first_of groups 3, first_of groups 4) of
                     (Some r, Some g, Some b) \<Rightarrow> (Some (Rgb (as_u8 r) (as_u8 g) (as_u8 b)), 5)
                   | _ \<Rightarrow> (None, min (length groups) 5))
                else (None, 1)
            | None \<Rightarrow> (None, 1)))"

definition reset_sgr :: "emu \<Rightarrow> emu" where
  "reset_sgr e = e\<lparr>em_fg := ColorDefault, em_bg := ColorDefault, em_attrs := 0, em_ucolor := ColorDefault, em_uhandle := 0\<rparr>"

definition set_ucolor :: "color \<Rightarrow> emu \<Rightarrow> emu" where
  "set_ucolor c e =
     (let (k, g) = intern_underline_color c (em_grid e) in e\<lparr>em_ucolor := c, em_uhandle := k, em_grid := g\<rparr>)"

definition sgr_color :: "nat \<Rightarrow> color \<Rightarrow> emu \<Rightarrow> emu" where
  "sgr_color code c e = (if code = 38 then e\<lparr>em_fg := c\<rparr> else if code = 48 then e\<lparr>em_bg := c\<rparr> else set_ucolor c e)"

definition attr_on :: "attrs \<Rightarrow> emu \<Rightarrow> emu" where
  "attr_on m e = e\<lparr>em_attrs := em_attrs e OR m\<rparr>"

definition attr_off :: "attrs \<Rightarrow> emu \<Rightarrow> emu" where
  "attr_off m e = e\<lparr>em_attrs := em_attrs e AND NOT m\<rparr>"

text \<open>One parameter group other than an extended colour.\<close>

definition sgr_code :: "nat list \<Rightarrow> nat \<Rightarrow> emu \<Rightarrow> emu" where
  "sgr_code grp code e =
     (if code = 0 then reset_sgr e
      else if code = 1 then attr_on ATTR_BOLD e
      else if code = 2 then attr_on ATTR_DIM e
      else if code = 3 then attr_on ATTR_ITALIC e
      else if code = 4 then
        (case (case list_get grp 1 of None \<Rightarrow> Some UlSingle | Some n \<Rightarrow> sgr_underline_style n) of
           Some style \<Rightarrow> e\<lparr>em_attrs := set_underline_style style (em_attrs e)\<rparr>
         | None \<Rightarrow> e)
      else if code = 5 then attr_on ATTR_BLINK e
      else if code = 7 then attr_on ATTR_REVERSE e
      else if code = 8 then attr_on ATTR_INVISIBLE e
      else if code = 9 then attr_on ATTR_STRIKE e
      else if code = 22 then attr_off (ATTR_BOLD OR ATTR_DIM) e
      else if code = 23 then attr_off ATTR_ITALIC e
      else if code = 24 then e\<lparr>em_attrs := set_underline_style UlNone (em_attrs e)\<rparr>
      else if code = 25 then attr_off ATTR_BLINK e
      else if code = 27 then attr_off ATTR_REVERSE e
      else if code = 28 then attr_off ATTR_INVISIBLE e
      else if code = 29 then attr_off ATTR_STRIKE e
      else if 30 \<le> code \<and> code \<le> 37 then e\<lparr>em_fg := Idx (code - 30)\<rparr>
      else if code = 39 then e\<lparr>em_fg := ColorDefault\<rparr>
      else if 40 \<le> code \<and> code \<le> 47 then e\<lparr>em_bg := Idx (code - 40)\<rparr>
      else if code = 49 then e\<lparr>em_bg := ColorDefault\<rparr>
      else if 90 \<le> code \<and> code \<le> 97 then e\<lparr>em_fg := Idx (code - 90 + 8)\<rparr>
      else if 100 \<le> code \<and> code \<le> 107 then e\<lparr>em_bg := Idx (code - 100 + 8)\<rparr>
      else if code = 59 then e\<lparr>em_ucolor := ColorDefault, em_uhandle := 0\<rparr>
      else e)"

lemma extended_color_consumes:
  assumes "groups \<noteq> []" and "(c, n) = parse_extended_color groups"
  shows "length groups - n < length groups"
proof -
  have "0 < snd (parse_extended_color groups)"
    using assms(1) by (simp add: parse_extended_color_def Let_def split: option.split)
  then show ?thesis using assms by (metis diff_less length_greater_0_conv snd_conv)
qed

function sgr_loop :: "nat list list \<Rightarrow> emu \<Rightarrow> emu" where
  "sgr_loop groups e =
     (if groups = [] then e
      else
        (let code = (case list_get (hd groups) 0 of Some c \<Rightarrow> c | None \<Rightarrow> 0)
         in if code = 38 \<or> code = 48 \<or> code = 58 then
              (let (color, consumed) = parse_extended_color groups
               in sgr_loop (drop consumed groups) (case color of Some c \<Rightarrow> sgr_color code c e | None \<Rightarrow> e))
            else sgr_loop (tl groups) (sgr_code (hd groups) code e)))"
  by pat_completeness auto

termination sgr_loop
  by (relation "measure (\<lambda>(groups, e). length groups)") (auto intro: extended_color_consumes)

declare sgr_loop.simps [simp del]

definition apply_sgr :: "nat list list \<Rightarrow> emu \<Rightarrow> emu" where
  "apply_sgr groups e = (if groups = [] then reset_sgr e else sgr_loop groups e)"

section \<open>Saved state and the alternate screen\<close>

definition current_cursor :: "emu \<Rightarrow> saved_cursor" where
  "current_cursor e =
     \<lparr>sc_x = cx e, sc_y = cy e, sc_fg = em_fg e, sc_bg = em_bg e, sc_attrs = em_attrs e, sc_ucolor = em_ucolor e,
      sc_pending = wrap_pending e\<rparr>"

definition load_cursor :: "saved_cursor \<Rightarrow> emu \<Rightarrow> emu" where
  "load_cursor s e =
     (let e1 = set_ucolor (sc_ucolor s)
                 (e\<lparr>cx := min (sc_x s) (em_width e - 1), cy := min (sc_y s) (em_height e - 1), em_fg := sc_fg s, em_bg := sc_bg s,
                    em_attrs := sc_attrs s\<rparr>)
      in e1\<lparr>wrap_pending := sc_pending s\<rparr>)"

definition save_cursor :: "emu \<Rightarrow> emu" where
  "save_cursor e = e\<lparr>saved := Some (current_cursor e)\<rparr>"

definition restore_cursor :: "emu \<Rightarrow> emu" where
  "restore_cursor e = (case saved e of Some s \<Rightarrow> load_cursor s e | None \<Rightarrow> e)"

definition enter_alt :: "emu \<Rightarrow> emu" where
  "enter_alt e =
     (if alt_backup e \<noteq> None then e
      else
        (let alt = mark_all_damaged (set_scrollback_limit 0 (grid_new (em_width e) (em_height e)));
             e1 = e\<lparr>em_grid := alt, alt_backup := Some (em_grid e)\<rparr>;
             e2 = set_ucolor (em_ucolor e1) e1
         in e2\<lparr>alt_cursor := Some (current_cursor e2), cx := 0, cy := 0, em_link := 0, wrap_pending := False,
               scroll_top := 0, scroll_bottom := em_height e - 1, origin_mode := False\<rparr>))"

definition exit_alt :: "emu \<Rightarrow> emu" where
  "exit_alt e =
     (case alt_backup e of
        None \<Rightarrow> e
      | Some primary \<Rightarrow>
          (let e1 = e\<lparr>em_grid := mark_all_damaged primary, alt_backup := None\<rparr>;
               e2 = (case alt_cursor e1 of Some s \<Rightarrow> (load_cursor s e1)\<lparr>alt_cursor := None\<rparr> | None \<Rightarrow> e1)
           in e2\<lparr>scroll_top := 0, scroll_bottom := em_height e2 - 1, origin_mode := False, em_link := 0\<rparr>))"

definition set_nested_input :: "bool \<Rightarrow> emu \<Rightarrow> emu" where
  "set_nested_input b e =
     (if nested_input e \<noteq> b then e\<lparr>nested_input := b, nested_input_changes := nested_input_changes e @ [b]\<rparr> else e)"

definition recover_shell_screen :: "emu \<Rightarrow> emu" where
  "recover_shell_screen e =
     (let e1 = (exit_alt e)\<lparr>cursor_visible := True, bracketed_paste := False, kb_primary := keyboard_default,
                  kb_alternate := keyboard_default, app_cursor := False, mouse := MouseOff, mouse_sgr := False\<rparr>;
          e2 = set_nested_input False e1
      in e2\<lparr>origin_mode := False, em_link := 0, scroll_top := 0, scroll_bottom := em_height e2 - 1, wrap_pending := False\<rparr>)"

section \<open>Modes\<close>

definition home :: "emu \<Rightarrow> emu" where
  "home e = e\<lparr>cx := 0, cy := (if origin_mode e then scroll_top e else 0), wrap_pending := False\<rparr>"

definition set_private_mode :: "nat \<Rightarrow> bool \<Rightarrow> emu \<Rightarrow> emu" where
  "set_private_mode mode on e =
     (if mode = 1 then e\<lparr>app_cursor := on\<rparr>
      else if mode = 6 then home (e\<lparr>origin_mode := on\<rparr>)
      else if mode = 7 then e\<lparr>autowrap := on, wrap_pending := False\<rparr>
      else if mode = 9 then e\<lparr>mouse := (if on then MouseX10 else MouseOff)\<rparr>
      else if mode = 25 then e\<lparr>cursor_visible := on\<rparr>
      else if mode = 1000 then e\<lparr>mouse := (if on then MouseNormal else MouseOff)\<rparr>
      else if mode = 1002 then e\<lparr>mouse := (if on then MouseButton else MouseOff)\<rparr>
      else if mode = 1003 then e\<lparr>mouse := (if on then MouseAny else MouseOff)\<rparr>
      else if mode = 1006 then e\<lparr>mouse_sgr := on\<rparr>
      else if mode = 1048 then (if on then save_cursor e else restore_cursor e)
      else if mode = 47 \<or> mode = 1047 \<or> mode = 1049 then (if on then enter_alt e else exit_alt e)
      else if mode = 2004 then e\<lparr>bracketed_paste := on\<rparr>
      else e)"

definition reset_terminal :: "emu \<Rightarrow> emu" where
  "reset_terminal e =
     set_nested_input False
       (e\<lparr>em_grid := mark_all_damaged (set_scrollback_limit (em_limit e) (grid_new (em_width e) (em_height e))),
          cx := 0, cy := 0, em_fg := ColorDefault, em_bg := ColorDefault, em_attrs := 0, em_ucolor := ColorDefault,
          em_uhandle := 0, em_link := 0, wrap_pending := False, autowrap := True, origin_mode := False, insert_mode := False,
          cursor_visible := True, bracketed_paste := False, kb_primary := keyboard_default, kb_alternate := keyboard_default,
          last_char := None, tabs := default_tabs (em_width e), line_drawing := False, scroll_top := 0,
          scroll_bottom := em_height e - 1, saved := None, alt_backup := None, alt_cursor := None, app_cursor := False,
          mouse := MouseOff, mouse_sgr := False\<rparr>)"

section \<open>Printing\<close>

record raw_event =
  raw_agent :: "str option"
  raw_name :: "str option"
  raw_status :: "str option"
  raw_session_id :: "str option"
  raw_parent_session_id :: "str option"
  raw_resume_command :: "str list"
  raw_transcript_path :: "str option"
  raw_message :: "str option"
  raw_notification_kind :: "str option"
  raw_tool :: "str option"
  raw_preview :: "str option"
  raw_loop_state :: "str option"
  raw_delay_seconds :: "u32 option"

text \<open>Third-party code: string and character widths, the number of graphemes, JSON.\<close>

record tables =
  str_width :: "str \<Rightarrow> nat"
  char_width :: "rchar \<Rightarrow> nat option"
  grapheme_count :: "str \<Rightarrow> nat"
  json_event :: "byte list \<Rightarrow> raw_event option"

definition DEC_LINE_DRAWING :: "rchar list" where
  "DEC_LINE_DRAWING =
     [0x25C6, 0x2592, 0x2409, 0x240C, 0x240D, 0x240A, 0xB0, 0xB1, 0x2424, 0x240B, 0x2518, 0x2510, 0x250C, 0x2514, 0x253C, 0x23BA,
      0x23BB, 0x2500, 0x23BC, 0x23BD, 0x251C, 0x2524, 0x2534, 0x252C, 0x2502, 0x2264, 0x2265, 0x3C0, 0x2260, 0xA3, 0xB7]"

definition dec_line_drawing :: "rchar \<Rightarrow> rchar" where
  "dec_line_drawing c = (if 0x60 \<le> c \<and> c \<le> 0x7E then DEC_LINE_DRAWING ! (c - 0x60) else c)"

definition wrap_line :: "nat \<Rightarrow> emu \<Rightarrow> emu" where
  "wrap_line y e = linefeed (e\<lparr>em_grid := set_row_wrapped y True (em_grid e), cx := 0\<rparr>)"

text \<open>The cell that a printed character may join.\<close>

definition previous_cell :: "emu \<Rightarrow> (nat \<times> nat) option" where
  "previous_cell e =
     (if wrap_pending e then Some (cx e, cy e) else if cx e > 0 then Some (cx e - 1, cy e) else None)"

definition in_grid :: "nat \<Rightarrow> nat \<Rightarrow> grid \<Rightarrow> bool" where
  "in_grid x y g \<longleftrightarrow> y < length (rows g) \<and> x < length (cells (rows g ! y))"

definition join_wide :: "str \<Rightarrow> cell \<Rightarrow> nat \<Rightarrow> nat \<Rightarrow> emu \<Rightarrow> emu" where
  "join_wide t old x y e =
     (let e1 = e\<lparr>em_grid := clear_glyph_at x y (blank_cell e) (em_grid e)\<rparr>
      in if autowrap e then
           (let e2 = (wrap_line y e1)\<lparr>wrap_pending := False\<rparr>;
                e3 = e2\<lparr>em_grid := set_grapheme 0 (cy e2) t old 2 (em_grid e2)\<rparr>
            in if em_width e = 2 then e3\<lparr>cx := 1, wrap_pending := True\<rparr> else e3\<lparr>cx := 2\<rparr>)
         else e1\<lparr>em_grid := set_grapheme x y [REPLACEMENT] old 1 (em_grid e1)\<rparr>)"

definition join_at :: "tables \<Rightarrow> rchar \<Rightarrow> nat \<Rightarrow> nat \<Rightarrow> emu \<Rightarrow> emu option" where
  "join_at T c x0 y e =
     (let x = (if is_continuation (gget x0 y (em_grid e)) \<and> x0 > 0 then x0 - 1 else x0);
          old = gget x y (em_grid e)
      in if \<not> grapheme_extends (grapheme_count T) old c (em_grid e) then None
         else
           (let t = cell_text_owned (clusters (em_grid e)) old @ [c];
                w = max 1 (min 2 (str_width T t))
            in if w = 2 \<and> x + 1 \<ge> em_width e then Some (join_wide t old x y e)
               else
                 (case append_to_grapheme (str_width T) (grapheme_count T) x y c (em_grid e) of
                    (g, ok) \<Rightarrow>
                      (let e1 = e\<lparr>em_grid := g\<rparr>;
                           stop = sat16_add x w
                       in Some (if \<not> ok then e1
                                else if stop \<ge> em_width e then e1\<lparr>cx := em_width e - 1, wrap_pending := autowrap e\<rparr>
                                else if \<not> wrap_pending e then e1\<lparr>cx := stop\<rparr>
                                else e1)))))"

definition glyph_of :: "tables \<Rightarrow> rchar \<Rightarrow> nat \<Rightarrow> str \<times> nat" where
  "glyph_of T c columns =
     (let w = min 2 (case char_width T c of Some n \<Rightarrow> n | None \<Rightarrow> 0);
          (t1, w1) = (if w = 0 then ([0x25CC, c], 1) else ([c], w))
      in if w1 = 2 \<and> columns = 1 then ([REPLACEMENT], 1) else (t1, w1))"

definition print_glyph :: "tables \<Rightarrow> rchar \<Rightarrow> rchar \<Rightarrow> emu \<Rightarrow> emu" where
  "print_glyph T input c e =
     (let (t1, w1) = glyph_of T c (em_width e);
          e1 = (if wrap_pending e then (if autowrap e then wrap_line (cy e) e else e)\<lparr>wrap_pending := False\<rparr> else e);
          (t2, w2, e2) =
            (if w1 = 2 \<and> cx e1 + 1 \<ge> em_width e1
             then if autowrap e1 then (t1, w1, wrap_line (cy e1) e1) else ([REPLACEMENT], 1, e1)
             else (t1, w1, e1));
          e3 = (if insert_mode e2 then e2\<lparr>em_grid := insert_cells (cy e2) (cx e2) w2 (blank_cell e2) (em_grid e2)\<rparr> else e2);
          lead = cell_default\<lparr>ch := c, fg := em_fg e3, bg := em_bg e3, attrs := em_attrs e3, ucolor := em_uhandle e3, link := em_link e3\<rparr>;
          e4 = e3\<lparr>em_grid := set_grapheme (cx e3) (cy e3) t2 lead w2 (em_grid e3)\<rparr>;
          stop = cx e4 + w2;
          e5 = (if stop \<ge> em_width e4 then e4\<lparr>cx := em_width e4 - 1, wrap_pending := autowrap e4\<rparr> else e4\<lparr>cx := stop\<rparr>)
      in e5\<lparr>last_char := Some input\<rparr>)"

definition print_char :: "tables \<Rightarrow> rchar \<Rightarrow> emu \<Rightarrow> emu option" where
  "print_char T input e =
     (let c = (if line_drawing e then dec_line_drawing input else input)
      in case previous_cell e of
           None \<Rightarrow> Some (print_glyph T input c e)
         | Some (x, y) \<Rightarrow>
             if \<not> in_grid x y (em_grid e) then None
             else (case join_at T c x y e of Some e1 \<Rightarrow> Some e1 | None \<Rightarrow> Some (print_glyph T input c e)))"

section \<open>Control bytes\<close>

text \<open>The first of some columns with a tab stop; \<open>None\<close> when one of them has no entry.\<close>

fun find_tab :: "nat list \<Rightarrow> bool list \<Rightarrow> nat option option" where
  "find_tab [] ts = Some None"
| "find_tab (x # xs) ts = (if x < length ts then (if ts ! x then Some (Some x) else find_tab xs ts) else None)"

definition index_down :: "emu \<Rightarrow> emu" where
  "index_down e = (linefeed (e\<lparr>em_grid := set_row_wrapped (cy e) False (em_grid e)\<rparr>))\<lparr>wrap_pending := False\<rparr>"

definition execute :: "byte \<Rightarrow> emu \<Rightarrow> emu option" where
  "execute b e =
     (if 0x0A \<le> b \<and> b \<le> 0x0C then Some (index_down e)
      else if b = 0x0D then Some (e\<lparr>cx := 0, wrap_pending := False\<rparr>)
      else if b = 0x08 then Some (e\<lparr>cx := cx e - 1, wrap_pending := False\<rparr>)
      else if b = 0x09 then
        map_option (\<lambda>t. e\<lparr>cx := (case t of Some x \<Rightarrow> x | None \<Rightarrow> em_width e - 1), wrap_pending := False\<rparr>)
          (find_tab [cx e + 1..<em_width e] (tabs e))
      else Some e)"

section \<open>Replies\<close>

function dec :: "nat \<Rightarrow> byte list" where
  "dec n = (if n < 10 then [48 + n] else dec (n div 10) @ [48 + n mod 10])"
  by pat_completeness auto

termination dec
  by (relation "measure id") auto

declare dec.simps [simp del]

definition ESC_CSI :: "byte list" where
  "ESC_CSI = [0x1B, 0x5B]"

definition respond :: "byte list \<Rightarrow> emu \<Rightarrow> emu" where
  "respond bs e = e\<lparr>responses := responses e @ bs\<rparr>"

definition theme_report :: "bool \<Rightarrow> byte list" where
  "theme_report dark = ESC_CSI @ (if dark then lit ''?997;1n'' else lit ''?997;2n'')"

definition ANSI :: "(nat \<times> nat \<times> nat) list" where
  "ANSI =
     [(0x00, 0x00, 0x00), (0xcd, 0x00, 0x00), (0x00, 0xcd, 0x00), (0xcd, 0xcd, 0x00), (0x00, 0x00, 0xee), (0xcd, 0x00, 0xcd),
      (0x00, 0xcd, 0xcd), (0xe5, 0xe5, 0xe5), (0x7f, 0x7f, 0x7f), (0xff, 0x00, 0x00), (0x00, 0xff, 0x00), (0xff, 0xff, 0x00),
      (0x5c, 0x5c, 0xff), (0xff, 0x00, 0xff), (0x00, 0xff, 0xff), (0xff, 0xff, 0xff)]"

definition color_component :: "nat \<Rightarrow> nat" where
  "color_component p = (if p = 0 then 0 else as_u8 (55 + as_u8 (p * 40)))"

definition indexed_rgb :: "nat \<Rightarrow> nat \<times> nat \<times> nat" where
  "indexed_rgb i =
     (if i \<le> 15 then ANSI ! i
      else if i \<le> 231 then
        (let v = i - 16 in (color_component (v div 36), color_component (v div 6 mod 6), color_component (v mod 6)))
      else (let grey = as_u8 (8 + as_u8 ((i - 232) * 10)) in (grey, grey, grey)))"

fun color_rgb :: "color \<Rightarrow> nat \<times> nat \<times> nat" where
  "color_rgb ColorDefault = (0, 0, 0)"
| "color_rgb (Idx i) = indexed_rgb i"
| "color_rgb (Rgb r g b) = (r, g, b)"

definition color_luminance :: "color \<Rightarrow> nat" where
  "color_luminance c = (case color_rgb c of (r, g, b) \<Rightarrow> r * 299 + g * 587 + b * 114)"

definition hex2 :: "nat \<Rightarrow> byte list" where
  "hex2 n = [hex_digit (n div 16), hex_digit (n mod 16)]"

definition osc_rgb :: "color \<Rightarrow> byte list" where
  "osc_rgb c =
     (case color_rgb c of (r, g, b) \<Rightarrow> lit ''rgb:'' @ hex2 r @ hex2 r @ lit ''/'' @ hex2 g @ hex2 g @ lit ''/'' @ hex2 b @ hex2 b)"

section \<open>Control sequences\<close>

definition param :: "nat list list \<Rightarrow> nat \<Rightarrow> nat \<Rightarrow> nat" where
  "param ps n d = (case first_of ps n of Some v \<Rightarrow> if v \<noteq> 0 then v else d | None \<Rightarrow> d)"

definition has_private_marker :: "byte list \<Rightarrow> bool" where
  "has_private_marker im = list_ex (\<lambda>b. 60 \<le> b \<and> b \<le> 63) im"

definition params_flat :: "nat list list \<Rightarrow> nat list" where
  "params_flat ps = map (\<lambda>g. case list_get g 0 of Some v \<Rightarrow> v | None \<Rightarrow> 0) ps"

definition sub16 :: "nat \<Rightarrow> nat \<Rightarrow> nat" where
  "sub16 a b = wrap16 (a + 65536 - b)"

fun repeat_opt :: "nat \<Rightarrow> ('a \<Rightarrow> 'a option) \<Rightarrow> 'a \<Rightarrow> 'a option" where
  "repeat_opt 0 f s = Some s"
| "repeat_opt (Suc n) f s = Option.bind (f s) (repeat_opt n f)"

definition move_to :: "nat \<Rightarrow> nat \<Rightarrow> emu \<Rightarrow> emu" where
  "move_to x y e = e\<lparr>cx := x, cy := y, wrap_pending := False\<rparr>"

definition top_limit :: "emu \<Rightarrow> nat" where
  "top_limit e = (if origin_mode e then scroll_top e else 0)"

definition bottom_limit :: "emu \<Rightarrow> nat" where
  "bottom_limit e = (if origin_mode e then scroll_bottom e else em_height e - 1)"

definition cursor_position :: "nat list list \<Rightarrow> emu \<Rightarrow> emu" where
  "cursor_position ps e =
     (let row = param ps 0 1; col = param ps 1 1
      in move_to (min (col - 1) (em_width e - 1))
           (if origin_mode e then min (sub16 (wrap16 (scroll_top e + row)) 1) (scroll_bottom e)
            else min (row - 1) (em_height e - 1)) e)"

definition line_position :: "nat list list \<Rightarrow> emu \<Rightarrow> emu" where
  "line_position ps e =
     (let row = param ps 0 1 - 1
      in move_to (cx e)
           (if origin_mode e then min (wrap16 (scroll_top e + row)) (scroll_bottom e) else min row (em_height e - 1)) e)"

fun back_tabs :: "nat \<Rightarrow> emu \<Rightarrow> emu option" where
  "back_tabs 0 e = Some e"
| "back_tabs (Suc n) e =
     (case find_tab (rev [0..<cx e]) (tabs e) of
        None \<Rightarrow> None
      | Some t \<Rightarrow> back_tabs n (e\<lparr>cx := (case t of Some x \<Rightarrow> x | None \<Rightarrow> 0)\<rparr>))"

definition clear_tabs :: "nat \<Rightarrow> emu \<Rightarrow> emu option" where
  "clear_tabs mode e =
     (if mode = 0 then (if cx e < length (tabs e) then Some (e\<lparr>tabs := (tabs e)[cx e := False]\<rparr>) else None)
      else if mode = 3 then Some (e\<lparr>tabs := replicate (length (tabs e)) False\<rparr>)
      else Some e)"

definition set_margins :: "nat list list \<Rightarrow> emu \<Rightarrow> emu" where
  "set_margins ps e =
     (let top = param ps 0 1 - 1; bot = param ps 1 (em_height e) - 1
      in if top < bot \<and> bot < em_height e then home (e\<lparr>scroll_top := top, scroll_bottom := bot\<rparr>) else e)"

definition keyboard_of :: "emu \<Rightarrow> keyboard_mode" where
  "keyboard_of e = (if alt_backup e \<noteq> None then kb_alternate e else kb_primary e)"

definition set_keyboard :: "keyboard_mode \<Rightarrow> emu \<Rightarrow> emu" where
  "set_keyboard k e = (if alt_backup e \<noteq> None then e\<lparr>kb_alternate := k\<rparr> else e\<lparr>kb_primary := k\<rparr>)"

definition keyboard_protocol :: "nat list list \<Rightarrow> byte \<Rightarrow> keyboard_mode \<Rightarrow> keyboard_mode" where
  "keyboard_protocol ps marker k =
     (if marker = 62 then km_push (of_nat (param ps 0 0)) k
      else if marker = 60 then km_pop (param ps 0 1) k
      else
        (let flags = of_nat (param ps 0 0) AND 1; mode = param ps 1 1
         in if mode = 1 then k\<lparr>km_flags := flags\<rparr>
            else if mode = 2 then k\<lparr>km_flags := km_flags k OR flags\<rparr>
            else if mode = 3 then k\<lparr>km_flags := km_flags k AND NOT flags\<rparr>
            else k))"

definition status_report :: "nat \<Rightarrow> emu \<Rightarrow> emu" where
  "status_report mode e =
     (if mode = 5 then respond (ESC_CSI @ lit ''0n'') e
      else if mode = 6 then
        (let row = (if origin_mode e then wrap16 (sub16 (cy e) (scroll_top e) + 1) else wrap16 (cy e + 1))
         in respond (ESC_CSI @ dec row @ lit '';'' @ dec (wrap16 (cx e + 1)) @ lit ''R'') e)
      else e)"

definition window_report :: "nat \<Rightarrow> emu \<Rightarrow> emu" where
  "window_report mode e =
     (if mode = 14 then respond (ESC_CSI @ lit ''4;0;0t'') e
      else if mode = 18 \<or> mode = 19 then
        respond (ESC_CSI @ lit ''8;'' @ dec (em_height e) @ lit '';'' @ dec (em_width e) @ lit ''t'') e
      else if mode = 21 then
        respond ([0x1B] @ lit '']l'' @ as_bytes (map (\<lambda>c. if c = 0x1B \<or> c = 0x07 then 32 else c) (terminal_title e)) @ [0x1B, 0x5C]) e
      else e)"

definition dec_mode :: "bool \<Rightarrow> nat \<Rightarrow> emu \<Rightarrow> emu" where
  "dec_mode on mode e =
     (if mode = 2031 then
        (if on then respond (theme_report (dark_theme e)) (e\<lparr>palette_notifications := True\<rparr>)
         else e\<lparr>palette_notifications := False\<rparr>)
      else set_private_mode mode on e)"

definition ansi_mode :: "bool \<Rightarrow> nat \<Rightarrow> emu \<Rightarrow> emu" where
  "ansi_mode on mode e = (if mode = 4 then e\<lparr>insert_mode := on\<rparr> else e)"

definition csi_dispatch :: "tables \<Rightarrow> nat list list \<Rightarrow> byte list \<Rightarrow> char \<Rightarrow> emu \<Rightarrow> emu option" where
  "csi_dispatch T ps im action e =
     (if action = CHR ''H'' \<or> action = CHR ''f'' then Some (cursor_position ps e)
      else if action = CHR ''A'' then Some (move_to (cx e) (max (cy e - param ps 0 1) (top_limit e)) e)
      else if action = CHR ''B'' \<or> action = CHR ''e'' then
        Some (move_to (cx e) (min (sat16_add (cy e) (param ps 0 1)) (bottom_limit e)) e)
      else if action = CHR ''C'' \<or> action = CHR ''a'' then
        Some (move_to (min (sat16_add (cx e) (param ps 0 1)) (em_width e - 1)) (cy e) e)
      else if action = CHR ''D'' then Some (move_to (cx e - param ps 0 1) (cy e) e)
      else if action = CHR ''E'' then Some (move_to 0 (min (sat16_add (cy e) (param ps 0 1)) (bottom_limit e)) e)
      else if action = CHR ''F'' then Some (move_to 0 (max (cy e - param ps 0 1) (top_limit e)) e)
      else if action = CHR ''G'' \<or> action = CHR 0x60 then
        Some (move_to (min (param ps 0 1 - 1) (em_width e - 1)) (cy e) e)
      else if action = CHR ''d'' then Some (line_position ps e)
      else if action = CHR ''J'' then Some (erase_in_display (param ps 0 0) e)
      else if action = CHR ''K'' then Some (erase_in_line (param ps 0 0) e)
      else if action = CHR ''m'' \<and> im = [] then Some (apply_sgr ps e)
      else if action = CHR ''m'' \<and> has_private_marker im then Some e
      else if action = CHR ''n'' \<and> 62 \<in> set im then Some e
      else if action = CHR ''P'' then Some (em_delete_chars (param ps 0 1) e)
      else if action = CHR ''@'' then Some (em_insert_chars (param ps 0 1) e)
      else if action = CHR ''X'' then Some (em_erase_chars (param ps 0 1) e)
      else if action = CHR ''L'' then Some (em_insert_lines (param ps 0 1) e)
      else if action = CHR ''M'' then Some (em_delete_lines (param ps 0 1) e)
      else if action = CHR ''b'' then
        (case last_char e of Some c \<Rightarrow> repeat_opt (param ps 0 1) (print_char T c) e | None \<Rightarrow> Some e)
      else if action = CHR ''Z'' then map_option (\<lambda>s. s\<lparr>wrap_pending := False\<rparr>) (back_tabs (param ps 0 1) e)
      else if action = CHR ''g'' then clear_tabs (param ps 0 0) e
      else if action = CHR ''S'' then Some ((em_scroll_up ^^ param ps 0 1) e)
      else if action = CHR ''T'' then Some ((em_scroll_down ^^ param ps 0 1) e)
      else if action = CHR ''r'' \<and> im = [] then Some (set_margins ps e)
      else if action = CHR ''s'' \<and> im = [] then Some (save_cursor e)
      else if action = CHR ''u'' \<and> im = [] then Some (restore_cursor e)
      else if action = CHR ''u'' \<and> im = [63] then
        Some (respond (ESC_CSI @ (if km_flags (keyboard_of e) = 0 then lit ''?0u'' else lit ''?1u'')) e)
      else if action = CHR ''u'' \<and> (im = [62] \<or> im = [60] \<or> im = [61]) then
        Some (set_keyboard (keyboard_protocol ps (hd im) (keyboard_of e)) e)
      else if action = CHR ''c'' then
        Some (respond (ESC_CSI @ (if 62 \<in> set im then lit ''>84;0;0c'' else lit ''?1;2c'')) e)
      else if action = CHR ''n'' \<and> im = [] then Some (status_report (param ps 0 0) e)
      else if action = CHR ''n'' \<and> 63 \<in> set im \<and> param ps 0 0 = 996 then Some (respond (theme_report (dark_theme e)) e)
      else if action = CHR ''t'' \<and> im = [] then Some (window_report (param ps 0 0) e)
      else if action = CHR ''h'' \<and> 63 \<in> set im then Some (fold (dec_mode True) (params_flat ps) e)
      else if action = CHR ''l'' \<and> 63 \<in> set im then Some (fold (dec_mode False) (params_flat ps) e)
      else if action = CHR ''h'' \<and> im = [] then Some (fold (ansi_mode True) (params_flat ps) e)
      else if action = CHR ''l'' \<and> im = [] then Some (fold (ansi_mode False) (params_flat ps) e)
      else Some e)"

definition esc_dispatch :: "byte list \<Rightarrow> byte \<Rightarrow> emu \<Rightarrow> emu option" where
  "esc_dispatch im b e =
     (if im = [40] then
        Some (if b = 48 then e\<lparr>line_drawing := True\<rparr> else if b = 66 then e\<lparr>line_drawing := False\<rparr> else e)
      else if b = 77 then Some (reverse_index e)
      else if b = 68 then Some (index_down e)
      else if b = 69 then
        Some ((linefeed (e\<lparr>em_grid := set_row_wrapped (cy e) False (em_grid e), cx := 0\<rparr>))\<lparr>wrap_pending := False\<rparr>)
      else if b = 72 then (if cx e < length (tabs e) then Some (e\<lparr>tabs := (tabs e)[cx e := True]\<rparr>) else None)
      else if b = 55 then Some (save_cursor e)
      else if b = 56 then Some (restore_cursor e)
      else if b = 99 then Some (reset_terminal e)
      else Some e)"

section \<open>Agent events\<close>

definition parse_osc777 :: "raw_event \<Rightarrow> agent_event" where
  "parse_osc777 raw =
     (let note = (if raw_name raw = Some (lit ''notification'') \<or> raw_message raw \<noteq> None \<or> raw_notification_kind raw \<noteq> None
                  then [Notification
                          (detail_bounded_text (case raw_notification_kind raw of Some k \<Rightarrow> k | None \<Rightarrow> lit ''notification'') DETAIL_TEXT_LIMIT)
                          (detail_bounded_text (case raw_message raw of Some m \<Rightarrow> m | None \<Rightarrow> []) DETAIL_TEXT_LIMIT)]
                  else []);
          ask = (if raw_name raw = Some (lit ''permission_request'')
                 then (case raw_tool raw of
                         Some t \<Rightarrow> if trim t \<noteq> []
                                   then [PermissionAsked (detail_bounded_text t DETAIL_TEXT_LIMIT)
                                           (detail_bounded_text (case raw_preview raw of Some p \<Rightarrow> p | None \<Rightarrow> []) DETAIL_TEXT_LIMIT)]
                                   else []
                       | None \<Rightarrow> [])
                 else []);
          loop = (if raw_name raw = Some (lit ''loop'')
                  then (if raw_loop_state raw = Some (lit ''scheduled'') then [Loop Scheduled (raw_delay_seconds raw)]
                        else if raw_loop_state raw = Some (lit ''stopped'') then [Loop Stopped None]
                        else [])
                  else []);
          from_name = Option.bind (raw_name raw) status_from_event
      in \<lparr>ev_agent = raw_agent raw,
          ev_status = (if from_name \<noteq> None then from_name else Option.bind (raw_status raw) status_from_event),
          ev_cooperative_ready = (raw_name raw = Some (lit ''idle'') \<or> raw_status raw = Some (lit ''idle'')),
          ev_tool_completed = (raw_name raw = Some (lit ''tool_end'')),
          ev_session_id = (case raw_session_id raw of Some v \<Rightarrow> if v \<noteq> [] \<and> str_len v \<le> 512 then Some v else None | None \<Rightarrow> None),
          ev_parent_session_id =
            (case raw_parent_session_id raw of Some v \<Rightarrow> if v \<noteq> [] \<and> str_len v \<le> 512 then Some v else None | None \<Rightarrow> None),
          ev_resume_command = take 64 (filter (\<lambda>v. str_len v \<le> 4096 \<and> 0 \<notin> set v) (raw_resume_command raw)),
          ev_transcript_path =
            (case raw_transcript_path raw of Some v \<Rightarrow> if str_len v \<le> 4096 \<and> \<not> list_ex is_control v then Some v else None | None \<Rightarrow> None),
          ev_details = note @ ask @ loop\<rparr>)"

section \<open>Operating system commands\<close>

fun join_with :: "'a \<Rightarrow> 'a list list \<Rightarrow> 'a list" where
  "join_with d [] = []"
| "join_with d [x] = x"
| "join_with d (x # y # r) = x @ [d] @ join_with d (y # r)"

text \<open>
  \<^verbatim>\<open>String::from_utf8_lossy\<close>: each maximal prefix of a sequence that is not well-formed becomes
  one replacement character.
\<close>

definition bad_prefix :: "byte list \<Rightarrow> nat" where
  "bad_prefix bs =
     (case bs of
        [] \<Rightarrow> 0
      | b0 # r0 \<Rightarrow>
          if b0 < 0xE0 \<or> b0 > 0xF4 then 1
          else
            (case r0 of
               [] \<Rightarrow> 1
             | b1 # r1 \<Rightarrow>
                 if \<not> second_ok b0 b1 then 1
                 else if b0 < 0xF0 then 2
                 else (case r1 of [] \<Rightarrow> 2 | b2 # _ \<Rightarrow> if is_cont b2 then 3 else 2)))"

function from_utf8_lossy :: "byte list \<Rightarrow> str" where
  "from_utf8_lossy bs =
     (if bs = [] then []
      else case utf8_next bs of
             Some (c, r) \<Rightarrow> c # from_utf8_lossy r
           | None \<Rightarrow> REPLACEMENT # from_utf8_lossy (drop (max (bad_prefix bs) 1) bs))"
  by pat_completeness auto

termination from_utf8_lossy
  by (relation "measure length") (auto dest: utf8_next_shorter)

declare from_utf8_lossy.simps [simp del]

definition parse_u8 :: "str \<Rightarrow> nat option" where
  "parse_u8 s =
     (let ds = (case s of c # r \<Rightarrow> if c = 43 then r else s | [] \<Rightarrow> []);
          v = foldl (\<lambda>n d. n * 10 + (d - 48)) 0 ds
      in if ds \<noteq> [] \<and> list_all (\<lambda>d. 48 \<le> d \<and> d \<le> 57) ds \<and> v \<le> 255 then Some v else None)"

definition osc_title :: "byte list list \<Rightarrow> emu \<Rightarrow> emu" where
  "osc_title ps e =
     e\<lparr>terminal_title := take 512 (filter (\<lambda>c. \<not> is_control c \<and> c \<noteq> 0x7F) (from_utf8_lossy (join_with 59 (drop 1 ps))))\<rparr>"

definition osc_hyperlink :: "byte list list \<Rightarrow> emu \<Rightarrow> emu option" where
  "osc_hyperlink ps e =
     (case from_utf8 (join_with 59 (drop 2 ps)) of
        None \<Rightarrow> Some (e\<lparr>em_link := 0\<rparr>)
      | Some uri \<Rightarrow>
          (case intern_hyperlink uri (em_grid e) of
             None \<Rightarrow> None
           | Some (h, g) \<Rightarrow> Some (e\<lparr>em_link := h, em_grid := g\<rparr>)))"

definition osc_agent :: "tables \<Rightarrow> byte list list \<Rightarrow> emu \<Rightarrow> emu" where
  "osc_agent T ps e =
     (case json_event T (join_with 59 (drop 3 ps)) of
        None \<Rightarrow> e
      | Some raw \<Rightarrow>
          (let ev = parse_osc777 raw;
               e1 = (if ev_status ev = Some Exited then recover_shell_screen e else e)
           in e1\<lparr>agent_events := agent_events e1 @ [ev]\<rparr>))"

definition osc_cwd :: "byte list list \<Rightarrow> emu \<Rightarrow> emu" where
  "osc_cwd ps e =
     (case Option.bind (list_get ps 1) from_utf8 of
        Some v \<Rightarrow> if str_len v \<le> 4096 then e\<lparr>cwd := Some v\<rparr> else e
      | None \<Rightarrow> e)"

definition osc_prompt_mark :: "byte list list \<Rightarrow> emu \<Rightarrow> emu" where
  "osc_prompt_mark ps e =
     (let mark = join_with 59 (List.map_filter from_utf8 (drop 1 ps));
          e1 = (if alt_backup e \<noteq> None \<and> hd (str_split 59 mark) \<in> {lit ''A'', lit ''D''} then recover_shell_screen e else e)
      in if str_len mark \<le> 4096 \<and> length (prompt_marks e1) < 1024 then e1\<lparr>prompt_marks := prompt_marks e1 @ [mark]\<rparr> else e1)"

definition osc_clipboard :: "byte list list \<Rightarrow> emu \<Rightarrow> emu" where
  "osc_clipboard ps e =
     (let payload = join_with 59 (drop 1 ps)
      in if length payload \<le> 1048576 \<and> length (clipboard_requests e) < 16
         then e\<lparr>clipboard_requests := clipboard_requests e @ [payload]\<rparr> else e)"

definition osc_color_query :: "byte list list \<Rightarrow> emu \<Rightarrow> emu" where
  "osc_color_query ps e =
     (let idx = (if list_get ps 0 = Some (lit ''4'') \<and> length ps \<ge> 3 \<and> ps ! 2 = lit ''?''
                 then parse_u8 (case from_utf8 (ps ! 1) of Some s \<Rightarrow> s | None \<Rightarrow> []) else None)
      in case idx of
           Some i \<Rightarrow> respond ([0x1B] @ lit '']4;'' @ dec i @ lit '';'' @ osc_rgb (Idx i) @ [7]) e
         | None \<Rightarrow>
             if length ps \<ge> 2 \<and> ps ! 1 = lit ''?'' then
               (if ps ! 0 = lit ''10'' then respond ([0x1B] @ lit '']10;'' @ osc_rgb (default_fg e) @ [7]) e
                else if ps ! 0 = lit ''11'' then respond ([0x1B] @ lit '']11;'' @ osc_rgb (default_bg e) @ [7]) e
                else e)
             else e)"

definition osc_dispatch :: "tables \<Rightarrow> byte list list \<Rightarrow> emu \<Rightarrow> emu option" where
  "osc_dispatch T ps e =
     (let code = list_get ps 0
      in if code = Some (lit ''0'') \<or> code = Some (lit ''2'') then Some (osc_title ps e)
         else if code = Some (lit ''8'') \<and> length ps \<ge> 3 then osc_hyperlink ps e
         else if code = Some (lit ''777'') \<and> list_get ps 1 = Some (lit ''uniterm-input'') then
           Some (if list_get ps 2 = Some (lit ''1'') then set_nested_input True e
                 else if list_get ps 2 = Some (lit ''0'') then set_nested_input False e
                 else e)
         else if code = Some (lit ''777'') \<and> length ps \<ge> 4 \<and> ps ! 1 = lit ''notify'' then Some (osc_agent T ps e)
         else if code = Some (lit ''7'') then Some (osc_cwd ps e)
         else if code = Some (lit ''133'') then Some (osc_prompt_mark ps e)
         else if code = Some (lit ''52'') then Some (osc_clipboard ps e)
         else Some (osc_color_query ps e))"

section \<open>Feeding bytes\<close>

datatype callback =
    Print rchar
  | Execute byte
  | CsiDispatch "nat list list" "byte list" char
  | OscDispatch "byte list list"
  | EscDispatch "byte list" byte

fun perform :: "tables \<Rightarrow> callback \<Rightarrow> emu \<Rightarrow> emu option" where
  "perform T (Print c) e = print_char T c e"
| "perform T (Execute b) e = execute b e"
| "perform T (CsiDispatch ps im a) e = csi_dispatch T ps im a e"
| "perform T (OscDispatch ps) e = osc_dispatch T ps e"
| "perform T (EscDispatch im b) e = esc_dispatch im b e"

fun perform_all :: "tables \<Rightarrow> callback list \<Rightarrow> emu \<Rightarrow> emu option" where
  "perform_all T [] e = Some e"
| "perform_all T (c # cs) e = Option.bind (perform T c e) (perform_all T cs)"

text \<open>The parser is a state \<open>'p\<close> that each byte advances, invoking callbacks.\<close>

fun feed :: "tables \<Rightarrow> ('p \<Rightarrow> byte \<Rightarrow> callback list \<times> 'p) \<Rightarrow> byte list \<Rightarrow> 'p \<times> emu \<Rightarrow> ('p \<times> emu) option" where
  "feed T adv [] s = Some s"
| "feed T adv (b # bs) (p, e) =
     (case adv p b of (cs, p1) \<Rightarrow> Option.bind (perform_all T cs e) (\<lambda>e1. feed T adv bs (p1, e1)))"

section \<open>The calls of the server\<close>

definition resize_alt :: "tables \<Rightarrow> nat \<Rightarrow> nat \<Rightarrow> cell \<Rightarrow> emu \<Rightarrow> emu" where
  "resize_alt T w h blank e =
     (case alt_backup e of
        None \<Rightarrow> e
      | Some p \<Rightarrow>
          (let p1 = set_scrollback_limit (em_limit e) p;
               at = (case alt_cursor e of Some s \<Rightarrow> (sc_x s + of_bool (sc_pending s), sc_y s) | None \<Rightarrow> (0, 0));
               pend = (case alt_cursor e of Some s \<Rightarrow> sc_pending s | None \<Rightarrow> False);
               (p2, x, y, b) = resize_reflow (str_width T) w h blank at pend p1
           in e\<lparr>alt_backup := Some p2,
                alt_cursor := map_option (\<lambda>s. s\<lparr>sc_x := x, sc_y := y, sc_pending := b\<rparr>) (alt_cursor e),
                em_grid := set_scrollback_limit 0 (em_grid e)\<rparr>))"

definition resize :: "tables \<Rightarrow> nat \<Rightarrow> nat \<Rightarrow> emu \<Rightarrow> emu" where
  "resize T w0 h0 e =
     (let w = max w0 1; h = max h0 1
      in if w = em_width e \<and> h = em_height e then e
         else
           (let blank = blank_cell e;
                (g, x, y, b) = resize_reflow (str_width T) w h blank (cx e + of_bool (wrap_pending e), cy e) (wrap_pending e) (em_grid e);
                e1 = e\<lparr>em_grid := g, cx := x, cy := y, wrap_pending := b\<rparr>;
                e2 = resize_alt T w h blank (set_ucolor (em_ucolor e1) e1)
            in e2\<lparr>em_width := w, em_height := h, scroll_top := 0, scroll_bottom := h - 1,
                  tabs := take w (tabs e2) @ drop (length (tabs e2)) (default_tabs w)\<rparr>))"

definition em_set_scrollback_limit :: "nat \<Rightarrow> emu \<Rightarrow> emu" where
  "em_set_scrollback_limit n e = e\<lparr>em_limit := n, em_grid := set_scrollback_limit n (em_grid e)\<rparr>"

definition set_default_colors :: "color \<Rightarrow> color \<Rightarrow> emu \<Rightarrow> emu" where
  "set_default_colors f b e =
     (let changed = (default_fg e \<noteq> f \<or> default_bg e \<noteq> b);
          e1 = e\<lparr>default_fg := f, default_bg := b, dark_theme := color_luminance b < color_luminance f\<rparr>
      in if changed \<and> palette_notifications e1 then respond (theme_report (dark_theme e1)) e1 else e1)"

definition take_responses :: "emu \<Rightarrow> byte list \<times> emu" where
  "take_responses e = (responses e, e\<lparr>responses := []\<rparr>)"

definition take_agent_events :: "emu \<Rightarrow> agent_event list \<times> emu" where
  "take_agent_events e = (agent_events e, e\<lparr>agent_events := []\<rparr>)"

definition queue_agent_event :: "agent_event \<Rightarrow> emu \<Rightarrow> emu" where
  "queue_agent_event ev e = e\<lparr>agent_events := agent_events e @ [ev]\<rparr>"

definition take_nested_input_changes :: "emu \<Rightarrow> bool list \<times> emu" where
  "take_nested_input_changes e = (nested_input_changes e, e\<lparr>nested_input_changes := []\<rparr>)"

definition take_prompt_marks :: "emu \<Rightarrow> str list \<times> emu" where
  "take_prompt_marks e = (prompt_marks e, e\<lparr>prompt_marks := []\<rparr>)"

definition take_clipboard_requests :: "emu \<Rightarrow> byte list list \<times> emu" where
  "take_clipboard_requests e = (clipboard_requests e, e\<lparr>clipboard_requests := []\<rparr>)"

section \<open>Texts read off the screen\<close>

definition row_bytes :: "grid \<Rightarrow> nat \<Rightarrow> byte list" where
  "row_bytes g y = concat (map (\<lambda>x. write_cell_text g (gget x y g)) [0..<gw g])"

definition screen_text :: "nat \<Rightarrow> nat \<Rightarrow> grid \<Rightarrow> str" where
  "screen_text start stop g = join_with 10 (map (\<lambda>y. trim_end (from_utf8_lossy (row_bytes g y))) [start..<stop])"

definition bottom_text :: "nat \<Rightarrow> emu \<Rightarrow> str" where
  "bottom_text n e = screen_text (gh (em_grid e) - n) (gh (em_grid e)) (em_grid e)"

definition evidence_text :: "nat \<Rightarrow> emu \<Rightarrow> str" where
  "evidence_text n e =
     (let h = gh (em_grid e); c = min (cy e) (h - 1)
      in screen_text (min (h - n) (c - (n - 1))) h (em_grid e))"

definition recent_output_text :: "nat \<Rightarrow> emu \<Rightarrow> str" where
  "recent_output_text n e =
     (let stop = min (cy e) (gh (em_grid e) - 1) + 1 in screen_text (stop - n) stop (em_grid e))"

definition automation_line :: "grid \<Rightarrow> nat \<Rightarrow> str" where
  "automation_line g n =
     (let bs = concat (map (\<lambda>x. let c = line_cell g n x in if is_continuation c then [] else write_cell_text g c) [0..<gw g]);
          kept = pop_while (\<lambda>b. b = 32 \<or> b = 9) bs
      in case from_utf8 kept of Some t \<Rightarrow> t | None \<Rightarrow> [])"

definition automation_output_text :: "nat \<Rightarrow> emu \<Rightarrow> str" where
  "automation_output_text n e =
     (let g = em_grid e;
          history = total_lines g - gh g;
          stop = min (history + cy e + 1) (total_lines g)
      in join_with 10 (map (automation_line g) [stop - n..<stop]))"

definition dump_text :: "emu \<Rightarrow> str" where
  "dump_text e =
     (let g = em_grid e
      in concat (map (\<lambda>y. trim_end (concat (map (\<lambda>x. let c = gget x y g in if is_continuation c then [] else cell_text_owned (clusters g) c)
                                            [0..<gw g])) @ [10]) [0..<gh g]))"

definition url_char :: "rchar \<Rightarrow> bool" where
  "url_char c \<longleftrightarrow> 0x21 \<le> c \<and> c \<le> 0x7E \<and> c \<noteq> 34 \<and> c \<noteq> 96 \<and> c \<noteq> 60 \<and> c \<noteq> 62"

definition url_part :: "grid \<Rightarrow> nat \<Rightarrow> nat \<Rightarrow> bool" where
  "url_part g y x =
     (let c = gget x y g; t = cell_text_owned (clusters g) c
      in \<not> is_continuation c \<and> t \<noteq> [] \<and> list_all url_char t)"

fun token_start :: "grid \<Rightarrow> nat \<Rightarrow> nat \<Rightarrow> nat" where
  "token_start g y 0 = 0"
| "token_start g y (Suc x) = (if url_part g y x then token_start g y x else Suc x)"

definition token_end :: "grid \<Rightarrow> nat \<Rightarrow> nat \<Rightarrow> nat" where
  "token_end g y x = x + length (takeWhile (url_part g y) [x..<gw g])"

fun find_str :: "str \<Rightarrow> str \<Rightarrow> nat option" where
  "find_str p [] = (if p = [] then Some 0 else None)"
| "find_str p (c # s) = (if starts_with p (c # s) then Some 0 else map_option Suc (find_str p s))"

definition token_url :: "str \<Rightarrow> str option" where
  "token_url token =
     (case (case find_str (lit ''https://'') token of Some i \<Rightarrow> Some i | None \<Rightarrow> find_str (lit ''http://'') token) of
        None \<Rightarrow> None
      | Some i \<Rightarrow>
          (let url = pop_while (\<lambda>c. c \<in> set (lit ''.,;:)]}'')) (drop i token)
           in case split_once_str (lit ''//'') url of
                None \<Rightarrow> None
              | Some (_, rest) \<Rightarrow>
                  (let authority = hd (str_split 47 rest)
                   in if authority \<noteq> [] \<and> \<not> list_ex is_whitespace authority then Some url else None)))"

definition link_url :: "grid \<Rightarrow> cell \<Rightarrow> str option" where
  "link_url g c =
     (case hyperlink (hyperlinks g) (link c) of
        Some uri \<Rightarrow> if starts_with (lit ''http://'') uri \<or> starts_with (lit ''https://'') uri then Some uri else None
      | None \<Rightarrow> None)"

definition url_at :: "nat \<Rightarrow> nat \<Rightarrow> emu \<Rightarrow> str option" where
  "url_at x y e =
     (let g = em_grid e
      in if x \<ge> gw g \<or> y \<ge> gh g then None
         else if link_url g (gget x y g) \<noteq> None then link_url g (gget x y g)
         else if \<not> url_part g y x then None
         else token_url (concat (map (\<lambda>k. cell_text_owned (clusters g) (gget k y g)) [token_start g y x..<token_end g y (x + 1)])))"

end
