(* ===== verification/Terminal_Safe.thy ===== *)
theory Terminal_Safe
  imports Terminal
begin

text \<open>
  The terminal keeps its state in bounds: whatever bytes arrive, no callback panics, the cursor
  and the margins stay on the screen, tab stops cover it, handles resolve, queues stay within
  their limits, and both screens remain sane grids with whole wide glyphs.
\<close>

section \<open>What an edit keeps of a grid\<close>

definition good :: "grid \<Rightarrow> bool" where
  "good g \<longleftrightarrow> sane g \<and> all_paired g \<and> length (scrollback g) \<le> scrollback_limit g
     \<and> 0 < next_hyperlink g \<and> next_hyperlink g < 2 ^ 32 \<and> distinct (map fst (hyperlinks g))"

text \<open>Its size, its limit and the handles of its colours and links.\<close>

definition kept :: "grid \<Rightarrow> grid \<Rightarrow> bool" where
  "kept g h \<longleftrightarrow> gw h = gw g \<and> gh h = gh g \<and> underline_colors h = underline_colors g \<and> hyperlinks h = hyperlinks g
     \<and> next_hyperlink h = next_hyperlink g \<and> scrollback_limit h = scrollback_limit g
     \<and> (length (scrollback g) \<le> scrollback_limit g \<longrightarrow> length (scrollback h) \<le> scrollback_limit h)"

definition safe :: "grid \<Rightarrow> grid \<Rightarrow> bool" where
  "safe g h \<longleftrightarrow> (good g \<longrightarrow> good h \<and> kept g h)"

lemma kept_refl [simp]: "kept g g"
  by (simp add: kept_def)

lemma kept_trans: "kept g h \<Longrightarrow> kept h k \<Longrightarrow> kept g k"
  by (auto simp: kept_def)

lemma safe_refl [simp]: "safe g g"
  by (simp add: safe_def)

lemma safe_trans: "safe g h \<Longrightarrow> safe h k \<Longrightarrow> safe g k"
  by (auto simp: safe_def intro: kept_trans)

lemma safe_of_kept: "(sane g \<Longrightarrow> all_paired g \<Longrightarrow> sane h \<and> all_paired h \<and> kept g h) \<Longrightarrow> safe g h"
  by (auto simp: safe_def good_def kept_def)

lemma length_map_cells: "length (fst (map_cells f ls s)) = length ls"
proof -
  have "length (fst (map_state F xs s)) = length xs" for F :: "line \<Rightarrow> 'a \<Rightarrow> line \<times> 'a" and xs s
    by (induction xs arbitrary: s) (auto simp: split_beta)
  then show ?thesis by (simp add: map_cells_def)
qed

lemma kept_gset: "kept g (gset x y c g)"
  by (simp add: kept_def gset_def mark_damage_def Let_def)

lemma kept_intern: "kept g (snd (intern t g))"
  by (auto simp: kept_def intern_def compact_clusters_def split_beta Let_def length_map_cells split: option.split)

interpretation kept_edit: edit_invariant "\<lambda>h. sane h \<and> kept g h" for g
  using gset_sane sane_edit.intern_keeps kept_gset kept_intern kept_trans by unfold_locales blast+

lemma kept_marked [simp]: "kept g (mark_rows_damaged a b h) = kept g h"
  by (simp add: kept_def mark_rows_damaged_def)

lemma kept_push: "kept g h \<Longrightarrow> kept g (push_scrollback l h)"
  by (auto simp: kept_def push_scrollback_def evict_def)

lemma kept_rows [simp]: "kept g (h\<lparr>rows := r\<rparr>) = kept g h" "kept g (h\<lparr>next_line_id := n\<rparr>) = kept g h"
  "kept g (h\<lparr>damage := d\<rparr>) = kept g h" "kept g (h\<lparr>pending_scroll_up := k\<rparr>) = kept g h"
  by (simp_all add: kept_def)

lemma kept_scroll_up: "kept g (scroll_up b g)"
  by (simp add: scroll_up_def Let_def kept_push)

lemma kept_region_up: "kept g (scroll_region_up_inner i j b keep g)"
  by (simp add: scroll_region_up_inner_def Let_def alloc_line_id_def kept_push kept_scroll_up)

lemma kept_region_down: "kept g (scroll_region_down i j b g)"
  by (simp add: scroll_region_down_def Let_def alloc_line_id_def)

section \<open>Safe edits\<close>

lemma set_row_wrapped_sel [simp]:
  "gw (set_row_wrapped y b g) = gw g" "gh (set_row_wrapped y b g) = gh g" "scrollback (set_row_wrapped y b g) = scrollback g"
  "clusters (set_row_wrapped y b g) = clusters g" "underline_colors (set_row_wrapped y b g) = underline_colors g"
  "hyperlinks (set_row_wrapped y b g) = hyperlinks g"
  by (simp_all add: set_row_wrapped_def)

lemma set_row_wrapped_rows:
  "l \<in> set (rows (set_row_wrapped y b g)) \<Longrightarrow> \<exists>m\<in>set (rows g). cells l = cells m"
  by (auto simp: set_row_wrapped_def split: if_splits dest!: set_update_subset_insert [THEN subsetD])

lemma safe_set_row_wrapped: "safe g (set_row_wrapped y b g)"
proof (rule safe_of_kept)
  assume g: "sane g" "all_paired g"
  have k: "kept g (set_row_wrapped y b g)" by (simp add: kept_def set_row_wrapped_def)
  have v: "valid (set_row_wrapped y b g) c = valid g c" for c by (simp add: valid_def)
  have wf: "grid_wf (set_row_wrapped y b g)" using g(1) set_row_wrapped_rows [of _ y b g]
    by (fastforce simp: sane_def grid_wf_def set_row_wrapped_def)
  have "all_valid (set_row_wrapped y b g)" using g(1) set_row_wrapped_rows [of _ y b g]
    by (fastforce simp: sane_def all_valid_def v)
  moreover have "all_paired (set_row_wrapped y b g)"
    using g set_row_wrapped_rows [of _ y b g] unfolding rows_paired_iff [OF wf] by (fastforce simp: sane_def rows_paired_iff)
  ultimately show "sane (set_row_wrapped y b g) \<and> all_paired (set_row_wrapped y b g) \<and> kept g (set_row_wrapped y b g)"
    using g(1) wf k by (simp add: sane_def colors_wf_def)
qed

lemma safe_clear_scrollback: "safe g (clear_scrollback g)"
proof (rule safe_of_kept)
  assume g: "sane g" "all_paired g"
  then have "all_valid (clear_scrollback g)" by (auto simp: sane_def all_valid_def valid_def clear_scrollback_def)
  then show "sane (clear_scrollback g) \<and> all_paired (clear_scrollback g) \<and> kept g (clear_scrollback g)"
    using g by (simp add: sane_def grid_wf_def colors_wf_def all_paired_def widths_def clear_scrollback_def kept_def)
qed

text \<open>Every edit but the interning of a colour is safe.\<close>

lemma edit_kept:
  assumes "sane g" and "edit_ok g ed" and "\<And>c. ed \<noteq> InternColor c"
  shows "kept g (apply_edit sw gc ed g)"
  using assms kept_scroll_up kept_region_up kept_region_down kept_edit.clear_keeps [of g g] kept_edit.erase_keeps [of g g]
    kept_edit.delete_keeps [of g g] kept_edit.insert_keeps [of g g] kept_edit.set_grapheme_keeps [of g g] kept_edit.append_keeps [of g g]
  by (cases ed) (auto simp: scroll_region_up_def scroll_region_up_discarding_def)

lemma safe_edit:
  assumes "edit_ok g ed" and "\<And>c. ed \<noteq> InternColor c"
  shows "safe g (apply_edit sw gc ed g)"
proof (rule safe_of_kept)
  assume g: "sane g" "all_paired g"
  have "kept g (apply_edit sw gc ed g)" by (rule edit_kept [OF g(1) assms])
  then show "sane (apply_edit sw gc ed g) \<and> all_paired (apply_edit sw gc ed g) \<and> kept g (apply_edit sw gc ed g)"
    using apply_edit_sane [OF g(1) assms(1)] apply_edit_paired [OF g assms(1)] by simp
qed

lemma safe_edits:
  "plain_blank b \<Longrightarrow> safe g (clear_glyph_at x y b g)"
  "plain_blank b \<Longrightarrow> safe g (erase_cells y i j b g)"
  "plain_blank b \<Longrightarrow> safe g (delete_cells y i n b g)"
  "plain_blank b \<Longrightarrow> safe g (insert_cells y i n b g)"
  "plain_blank b \<Longrightarrow> safe g (scroll_region_up i j b g)"
  "plain_blank b \<Longrightarrow> safe g (scroll_region_up_discarding i j b g)"
  "plain_blank b \<Longrightarrow> safe g (scroll_region_down i j b g)"
  "valid g c \<Longrightarrow> safe g (set_grapheme x y t c w g)"
  "safe g (fst (append_to_grapheme sw gc x y r g))"
  using safe_edit [of g "ClearGlyph x y b"] safe_edit [of g "EraseCells y i j b"] safe_edit [of g "DeleteCells y i n b"]
    safe_edit [of g "InsertCells y i n b"] safe_edit [of g "ScrollRegionUp i j b"] safe_edit [of g "ScrollRegionUpDiscarding i j b"]
    safe_edit [of g "ScrollRegionDown i j b"] safe_edit [of g "SetGrapheme x y t c w"] safe_edit [of g "AppendToGrapheme x y r" sw gc]
  by simp_all

lemma safe_fold: "(\<And>x h. safe h (f x h)) \<Longrightarrow> safe g (fold f xs g)"
  by (induction xs arbitrary: g) (auto intro: safe_trans)

lemma safe_funpow: "(\<And>h. safe h (f h)) \<Longrightarrow> safe g ((f ^^ n) g)"
  by (induction n) (auto intro: safe_trans)

section \<open>The invariant\<close>

definition km_wf :: "keyboard_mode \<Rightarrow> bool" where
  "km_wf k \<longleftrightarrow> length (km_stack k) = 16 \<and> km_depth k \<le> 16"

definition screen_ok :: "nat \<Rightarrow> emu \<Rightarrow> bool" where
  "screen_ok n e \<longleftrightarrow> good (em_grid e) \<and> gw (em_grid e) = em_width e \<and> gh (em_grid e) = em_height e
     \<and> length (hyperlinks (em_grid e)) \<le> n \<and> 2 \<le> em_width e \<and> cx e < em_width e \<and> cy e < em_height e
     \<and> scroll_top e \<le> scroll_bottom e \<and> scroll_bottom e < em_height e"

definition handles_ok :: "emu \<Rightarrow> bool" where
  "handles_ok e \<longleftrightarrow> em_uhandle e < length (underline_colors (em_grid e))
     \<and> (em_uhandle e \<noteq> 0 \<longrightarrow> underline_color (underline_colors (em_grid e)) (em_uhandle e) = em_ucolor e)
     \<and> (em_link e = 0 \<or> map_of (hyperlinks (em_grid e)) (em_link e) \<noteq> None)"

definition alt_ok :: "nat \<Rightarrow> emu \<Rightarrow> bool" where
  "alt_ok n e \<longleftrightarrow>
     pred_option (\<lambda>p. good p \<and> gw p = em_width e \<and> gh p = em_height e \<and> length (hyperlinks p) \<le> n) (alt_backup e)
     \<and> pred_option (\<lambda>s. sc_x s < em_width e \<and> sc_y s < em_height e) (alt_cursor e)
     \<and> (alt_backup e = None \<longleftrightarrow> alt_cursor e = None)"

definition aux_ok :: "emu \<Rightarrow> bool" where
  "aux_ok e \<longleftrightarrow> length (tabs e) = em_width e \<and> km_wf (kb_primary e) \<and> km_wf (kb_alternate e)
     \<and> length (prompt_marks e) \<le> 1024 \<and> length (clipboard_requests e) \<le> 16 \<and> length (terminal_title e) \<le> 512"

definition em_inv :: "nat \<Rightarrow> emu \<Rightarrow> bool" where
  "em_inv n e \<longleftrightarrow> screen_ok n e \<and> handles_ok e \<and> alt_ok n e \<and> aux_ok e"

lemmas em_inv_defs = em_inv_def screen_ok_def handles_ok_def alt_ok_def aux_ok_def

text \<open>Most fields do not matter to it.\<close>

lemma em_inv_free [simp]:
  "em_inv n (e\<lparr>wrap_pending := b\<rparr>) = em_inv n e" "em_inv n (e\<lparr>autowrap := b\<rparr>) = em_inv n e"
  "em_inv n (e\<lparr>origin_mode := b\<rparr>) = em_inv n e" "em_inv n (e\<lparr>insert_mode := b\<rparr>) = em_inv n e"
  "em_inv n (e\<lparr>cursor_visible := b\<rparr>) = em_inv n e" "em_inv n (e\<lparr>bracketed_paste := b\<rparr>) = em_inv n e"
  "em_inv n (e\<lparr>last_char := lc\<rparr>) = em_inv n e" "em_inv n (e\<lparr>line_drawing := b\<rparr>) = em_inv n e"
  "em_inv n (e\<lparr>saved := sv\<rparr>) = em_inv n e" "em_inv n (e\<lparr>app_cursor := b\<rparr>) = em_inv n e"
  "em_inv n (e\<lparr>mouse := mo\<rparr>) = em_inv n e" "em_inv n (e\<lparr>mouse_sgr := b\<rparr>) = em_inv n e"
  "em_inv n (e\<lparr>nested_input := b\<rparr>) = em_inv n e" "em_inv n (e\<lparr>nested_input_changes := bs\<rparr>) = em_inv n e"
  "em_inv n (e\<lparr>agent_events := evs\<rparr>) = em_inv n e" "em_inv n (e\<lparr>cwd := c\<rparr>) = em_inv n e"
  "em_inv n (e\<lparr>default_fg := col\<rparr>) = em_inv n e" "em_inv n (e\<lparr>default_bg := col\<rparr>) = em_inv n e"
  "em_inv n (e\<lparr>dark_theme := b\<rparr>) = em_inv n e" "em_inv n (e\<lparr>palette_notifications := b\<rparr>) = em_inv n e"
  "em_inv n (e\<lparr>em_limit := m\<rparr>) = em_inv n e" "em_inv n (e\<lparr>responses := r\<rparr>) = em_inv n e"
  "em_inv n (e\<lparr>em_fg := col\<rparr>) = em_inv n e" "em_inv n (e\<lparr>em_bg := col\<rparr>) = em_inv n e"
  "em_inv n (e\<lparr>em_attrs := a\<rparr>) = em_inv n e"
  by (simp_all add: em_inv_defs)

lemma em_inv_cx: "em_inv n e \<Longrightarrow> x < em_width e \<Longrightarrow> em_inv n (e\<lparr>cx := x\<rparr>)"
  by (simp add: em_inv_defs)

lemma em_inv_cy: "em_inv n e \<Longrightarrow> y < em_height e \<Longrightarrow> em_inv n (e\<lparr>cy := y\<rparr>)"
  by (simp add: em_inv_defs)

lemma em_inv_link0: "em_inv n e \<Longrightarrow> em_inv n (e\<lparr>em_link := 0\<rparr>)"
  by (simp add: em_inv_defs)

lemma em_inv_kb: "em_inv n e \<Longrightarrow> km_wf k \<Longrightarrow> em_inv n (e\<lparr>kb_primary := k\<rparr>) \<and> em_inv n (e\<lparr>kb_alternate := k\<rparr>)"
  by (simp add: em_inv_defs)

lemma em_inv_tabs: "em_inv n e \<Longrightarrow> length ts = em_width e \<Longrightarrow> em_inv n (e\<lparr>tabs := ts\<rparr>)"
  by (simp add: em_inv_defs)

lemma em_inv_margins:
  "em_inv n e \<Longrightarrow> i \<le> j \<Longrightarrow> j < em_height e \<Longrightarrow> em_inv n (e\<lparr>scroll_top := i, scroll_bottom := j\<rparr>)"
  by (simp add: em_inv_defs)

lemma em_invD:
  assumes "em_inv n e"
  shows "good (em_grid e)" "gw (em_grid e) = em_width e" "gh (em_grid e) = em_height e" "cx e < em_width e" "cy e < em_height e"
    "2 \<le> em_width e" "0 < em_height e" "scroll_top e \<le> scroll_bottom e" "scroll_bottom e < em_height e" "length (tabs e) = em_width e"
    "em_uhandle e < length (underline_colors (em_grid e))" "em_link e = 0 \<or> map_of (hyperlinks (em_grid e)) (em_link e) \<noteq> None"
    "length (hyperlinks (em_grid e)) \<le> n"
  using assms by (auto simp: em_inv_defs)

lemma em_inv_grid: "em_inv n e \<Longrightarrow> safe (em_grid e) g \<Longrightarrow> em_inv n (e\<lparr>em_grid := g\<rparr>)"
  by (simp add: em_inv_defs safe_def kept_def)

lemma em_inv_mono: "em_inv n e \<Longrightarrow> n \<le> m \<Longrightarrow> em_inv m e"
  by (auto simp: em_inv_defs option.pred_set)

lemma blank_plain [simp]: "plain_blank (blank_cell e)"
  by (simp add: plain_blank_def blank_cell_def cell_default_def)

lemma blank_cell_free [simp]: "blank_cell (e\<lparr>wrap_pending := b\<rparr>) = blank_cell e" "blank_cell (e\<lparr>em_grid := g\<rparr>) = blank_cell e"
  by (simp_all add: blank_cell_def)

section \<open>Lines and regions\<close>

text \<open>The size of the screen is changed by nothing but a resize.\<close>

definition same_size :: "emu \<Rightarrow> emu \<Rightarrow> bool" where
  "same_size e f \<longleftrightarrow> em_width f = em_width e \<and> em_height f = em_height e"

lemma linefeed_inv: "em_inv n e \<Longrightarrow> em_inv n (linefeed e)"
  by (auto simp: linefeed_def em_scroll_up_def intro!: em_inv_grid em_inv_cy safe_edits)

lemma linefeed_size [simp]: "em_width (linefeed e) = em_width e" "em_height (linefeed e) = em_height e"
  by (simp_all add: linefeed_def em_scroll_up_def)

lemma linefeed_cx [simp]: "cx (linefeed e) = cx e"
  by (simp add: linefeed_def em_scroll_up_def)

lemma reverse_index_inv: "em_inv n e \<Longrightarrow> em_inv n (reverse_index e)"
  using em_invD(5) [of n e] by (auto simp: reverse_index_def em_scroll_down_def intro!: em_inv_grid em_inv_cy safe_edits)

lemma scroll_inv: "em_inv n e \<Longrightarrow> em_inv n (em_scroll_up e)" "em_inv n e \<Longrightarrow> em_inv n (em_scroll_down e)"
  by (auto simp: em_scroll_up_def em_scroll_down_def intro!: em_inv_grid safe_edits)

lemma em_scrolls_inv: "em_inv n e \<Longrightarrow> em_inv n ((em_scroll_up ^^ k) e)" "em_inv n e \<Longrightarrow> em_inv n ((em_scroll_down ^^ k) e)"
  by (induction k) (auto intro: scroll_inv)

lemma em_chars_inv:
  "em_inv n e \<Longrightarrow> em_inv n (em_delete_chars k e)"
  "em_inv n e \<Longrightarrow> em_inv n (em_insert_chars k e)"
  "em_inv n e \<Longrightarrow> em_inv n (em_erase_chars k e)"
  by (auto simp: em_delete_chars_def em_insert_chars_def em_erase_chars_def
      intro!: em_inv_grid safe_trans [OF safe_edits(3) safe_set_row_wrapped] safe_edits safe_trans [OF safe_edits(2) safe_set_row_wrapped])

lemma em_lines_inv:
  "em_inv n e \<Longrightarrow> em_inv n (em_insert_lines k e)"
  "em_inv n e \<Longrightarrow> em_inv n (em_delete_lines k e)"
  by (auto simp: em_insert_lines_def em_delete_lines_def Let_def intro!: em_inv_grid safe_funpow safe_edits)

lemma erase_line_inv: "em_inv n e \<Longrightarrow> em_inv n (erase_in_line m e)"
  by (auto simp: erase_in_line_def Let_def intro!: em_inv_grid safe_trans [OF safe_edits(2) safe_set_row_wrapped] safe_edits)

lemma erase_rows_inv: "em_inv n e \<Longrightarrow> em_inv n (erase_rows i j e)"
  by (auto simp: erase_rows_def intro!: em_inv_grid safe_fold safe_edits)

lemma erase_display_inv: "em_inv n e \<Longrightarrow> em_inv n (erase_in_display m e)"
  by (auto simp: erase_in_display_def intro!: erase_line_inv erase_rows_inv em_inv_grid safe_clear_scrollback)

section \<open>Colours\<close>

lemma compact_colors_sel [simp]:
  "hyperlinks (compact_underline_colors g) = hyperlinks g" "next_hyperlink (compact_underline_colors g) = next_hyperlink g"
  "scrollback_limit (compact_underline_colors g) = scrollback_limit g" "gw (compact_underline_colors g) = gw g"
  "gh (compact_underline_colors g) = gh g" "length (scrollback (compact_underline_colors g)) = length (scrollback g)"
  by (simp_all add: compact_underline_colors_def split_beta Let_def length_map_cells)

lemma intern_color_sel:
  assumes "intern_underline_color c g = (k, h)"
  shows "hyperlinks h = hyperlinks g" "next_hyperlink h = next_hyperlink g" "scrollback_limit h = scrollback_limit g"
    "gw h = gw g" "gh h = gh g" "length (scrollback h) = length (scrollback g)"
  using assms by (auto simp: intern_underline_color_def Let_def split: if_splits option.splits)

lemma intern_color_good:
  assumes "good g" and "intern_underline_color c g = (k, h)"
  shows "good h" "k < length (underline_colors h)" "k \<noteq> 0 \<longrightarrow> underline_color (underline_colors h) k = c"
proof -
  have g: "sane g" "all_paired g" "grid_wf g" using assms(1) by (auto simp: good_def sane_def)
  note ok = intern_underline_color_ok [OF g(1) assms(2)]
  have "all_paired h" using same_looks_paired [OF _ g(3,2)] ok by blast
  then show "good h" using assms(1) ok by (simp add: good_def intern_color_sel [OF assms(2)])
  show "k < length (underline_colors h)" "k \<noteq> 0 \<longrightarrow> underline_color (underline_colors h) k = c" using ok by auto
qed

lemma set_ucolor_sel [simp]:
  "em_width (set_ucolor c e) = em_width e" "em_height (set_ucolor c e) = em_height e" "cx (set_ucolor c e) = cx e"
  "cy (set_ucolor c e) = cy e" "alt_backup (set_ucolor c e) = alt_backup e" "alt_cursor (set_ucolor c e) = alt_cursor e"
  "hyperlinks (em_grid (set_ucolor c e)) = hyperlinks (em_grid e)" "em_link (set_ucolor c e) = em_link e"
  "em_ucolor (set_ucolor c e) = c" "wrap_pending (set_ucolor c e) = wrap_pending e"
  using intern_color_sel [OF prod.collapse [symmetric], of c "em_grid e"] by (simp_all add: set_ucolor_def split_beta)

text \<open>Interning the current colour makes the handles right, whatever they were.\<close>

lemma set_ucolor_ok:
  assumes "screen_ok n e" and "alt_ok n e" and "aux_ok e"
    and "em_link e = 0 \<or> map_of (hyperlinks (em_grid e)) (em_link e) \<noteq> None"
  shows "em_inv n (set_ucolor c e)"
proof -
  obtain k h where k: "intern_underline_color c (em_grid e) = (k, h)" by fastforce
  have g: "good (em_grid e)" using assms(1) by (simp add: screen_ok_def)
  show ?thesis
    using assms intern_color_good [OF g k] intern_color_sel [OF k]
    by (simp add: em_inv_defs set_ucolor_def k)
qed

lemma set_ucolor_inv: "em_inv n e \<Longrightarrow> em_inv n (set_ucolor c e)"
  using set_ucolor_ok by (auto simp: em_inv_def handles_ok_def)

lemma reset_sgr_inv: "em_inv n e \<Longrightarrow> em_inv n (reset_sgr e)"
  by (auto simp: em_inv_defs reset_sgr_def)

lemma em_inv_ucolor0: "em_inv n e \<Longrightarrow> em_inv n (e\<lparr>em_ucolor := ColorDefault, em_uhandle := 0\<rparr>)"
  by (auto simp: em_inv_defs)

lemma sgr_code_inv: "em_inv n e \<Longrightarrow> em_inv n (sgr_code grp code e)"
  by (simp add: sgr_code_def attr_on_def attr_off_def reset_sgr_inv em_inv_ucolor0 split: option.split)

lemma sgr_loop_inv: "em_inv n e \<Longrightarrow> em_inv n (sgr_loop groups e)"
proof (induction groups e rule: sgr_loop.induct)
  case (1 groups e)
  have c: "em_inv n (sgr_color code c e)" for code c
    using 1 by (simp add: sgr_color_def set_ucolor_inv)
  show ?case using 1 c
    by (subst sgr_loop.simps) (auto simp: Let_def split_beta sgr_code_inv split: option.split)
qed

lemma apply_sgr_inv: "em_inv n e \<Longrightarrow> em_inv n (apply_sgr groups e)"
  by (simp add: apply_sgr_def reset_sgr_inv sgr_loop_inv)

section \<open>Screens\<close>

lemma good_new: "good (grid_new w h)"
  using sane_new all_paired_new by (simp add: good_def) (simp add: grid_new_def)

lemma good_limit: "good g \<Longrightarrow> good (set_scrollback_limit m g)"
proof -
  assume g: "good g"
  have v: "valid (set_scrollback_limit m g) c = valid g c" for c by (simp add: valid_def set_scrollback_limit_def)
  have "set (scrollback (set_scrollback_limit m g)) \<subseteq> set (scrollback g)" "rows (set_scrollback_limit m g) = rows g"
    by (simp_all add: set_scrollback_limit_def evict_set)
  then have "all_valid (set_scrollback_limit m g)"
    using g unfolding good_def sane_def all_valid_def v set_append by (metis Un_iff subsetD)
  then have "sane (set_scrollback_limit m g)"
    using g by (simp add: good_def sane_def grid_wf_def colors_wf_def set_scrollback_limit_def)
  then show ?thesis using g by (auto simp: good_def set_scrollback_limit_def evict_def all_paired_def widths_def)
qed

lemma good_marked: "good g \<Longrightarrow> good (mark_all_damaged g)"
proof -
  assume g: "good g"
  have v: "valid (mark_all_damaged g) c = valid g c" for c by (simp add: valid_def)
  have "grid_wf (mark_all_damaged g)" using g by (auto simp: good_def sane_def grid_wf_def mark_all_damaged_def)
  moreover have "next_hyperlink (mark_all_damaged g) = next_hyperlink g" by (simp add: mark_all_damaged_def)
  ultimately show ?thesis using g unfolding good_def sane_def all_valid_def v all_paired_def widths_def colors_wf_def by simp
qed

lemma limit_sel [simp]:
  "hyperlinks (set_scrollback_limit m g) = hyperlinks g" "gw (set_scrollback_limit m g) = gw g" "gh (set_scrollback_limit m g) = gh g"
  "underline_colors (set_scrollback_limit m g) = underline_colors g"
  by (simp_all add: set_scrollback_limit_def)

lemma new_sel [simp]: "hyperlinks (grid_new w h) = []" "gw (grid_new w h) = w" "gh (grid_new w h) = h"
  by (simp_all add: grid_new_def)

lemma load_cursor_inv:
  assumes "screen_ok n e" and "alt_ok n e" and "aux_ok e"
    and "em_link e = 0 \<or> map_of (hyperlinks (em_grid e)) (em_link e) \<noteq> None"
  shows "em_inv n (load_cursor s e)"
proof -
  let ?e = "e\<lparr>cx := min (sc_x s) (em_width e - 1), cy := min (sc_y s) (em_height e - 1), em_fg := sc_fg s, em_bg := sc_bg s,
              em_attrs := sc_attrs s\<rparr>"
  have "screen_ok n ?e" "alt_ok n ?e" "aux_ok ?e" using assms by (auto simp: em_inv_defs)
  then show ?thesis using set_ucolor_ok [of n ?e "sc_ucolor s"] assms(4) by (simp add: load_cursor_def)
qed

lemma restore_cursor_inv: "em_inv n e \<Longrightarrow> em_inv n (restore_cursor e)"
  using load_cursor_inv [of n e] by (auto simp: restore_cursor_def em_inv_def handles_ok_def split: option.split)

lemma enter_alt_inv: "em_inv n e \<Longrightarrow> em_inv n (enter_alt e)"
proof -
  assume e: "em_inv n e"
  let ?alt = "mark_all_damaged (set_scrollback_limit 0 (grid_new (em_width e) (em_height e)))"
  let ?f = "\<lambda>s. s\<lparr>alt_cursor := Some (current_cursor s), cx := 0, cy := 0, em_link := 0, wrap_pending := False,
               scroll_top := 0, scroll_bottom := em_height e - 1, origin_mode := False\<rparr>"
  show ?thesis
  proof (cases "alt_backup e")
    case None
    obtain k h where k: "intern_underline_color (em_ucolor e) ?alt = (k, h)" by fastforce
    have g: "good ?alt" by (simp add: good_marked good_limit good_new)
    show ?thesis
      using None e intern_color_good [OF g k] intern_color_sel [OF k]
      by (auto simp: enter_alt_def set_ucolor_def k em_inv_defs current_cursor_def Let_def)
  qed (simp add: enter_alt_def e)
qed

lemma exit_alt_inv: "em_inv n e \<Longrightarrow> em_inv n (exit_alt e)"
proof -
  assume e: "em_inv n e"
  show ?thesis
  proof (cases "alt_backup e")
    case None
    then show ?thesis using e by (simp add: exit_alt_def)
  next
    case (Some p)
    then obtain s where s: "alt_cursor e = Some s" using e by (auto simp: em_inv_defs)
    let ?e1 = "e\<lparr>em_grid := mark_all_damaged p, alt_backup := None\<rparr>"
    let ?e2 = "?e1\<lparr>alt_cursor := None, scroll_top := 0, scroll_bottom := em_height e - 1, origin_mode := False, em_link := 0\<rparr>"
    have "screen_ok n ?e2" "alt_ok n ?e2" "aux_ok ?e2" using e Some s by (auto simp: em_inv_defs good_marked)
    then have "em_inv n (load_cursor s ?e2)" by (intro load_cursor_inv) auto
    moreover have "exit_alt e = load_cursor s ?e2"
      using Some s by (cases e) (simp add: exit_alt_def load_cursor_def set_ucolor_def split_beta Let_def)
    ultimately show ?thesis by simp
  qed
qed

lemma nested_inv: "em_inv n e \<Longrightarrow> em_inv n (set_nested_input b e)"
  by (simp add: set_nested_input_def)

lemma km_default_wf [simp]: "km_wf keyboard_default"
  by (simp add: km_wf_def keyboard_default_def)

lemma set_nested_sel [simp]: "em_height (set_nested_input b e) = em_height e" "em_width (set_nested_input b e) = em_width e"
  by (simp_all add: set_nested_input_def)

lemma load_cursor_size [simp]: "em_width (load_cursor s e) = em_width e" "em_height (load_cursor s e) = em_height e"
  by (simp_all add: load_cursor_def Let_def)

lemma exit_alt_size [simp]: "em_width (exit_alt e) = em_width e" "em_height (exit_alt e) = em_height e"
  by (simp_all add: exit_alt_def Let_def split: option.split)

lemma recover_inv: "em_inv n e \<Longrightarrow> em_inv n (recover_shell_screen e)"
proof -
  assume e: "em_inv n e"
  let ?e1 = "(exit_alt e)\<lparr>cursor_visible := True, bracketed_paste := False, kb_primary := keyboard_default,
     kb_alternate := keyboard_default, app_cursor := False, mouse := MouseOff, mouse_sgr := False\<rparr>"
  have "em_inv n ?e1" using e by (simp add: em_inv_kb exit_alt_inv)
  then have "em_inv n (set_nested_input False ?e1)" by (rule nested_inv)
  then show ?thesis unfolding recover_shell_screen_def Let_def
    using em_invD(7) [OF e] by (simp add: em_inv_defs)
qed

lemma home_inv: "em_inv n e \<Longrightarrow> em_inv n (home e)"
  using em_invD(6-9) [of n e] by (auto simp: home_def intro!: em_inv_cx em_inv_cy)

lemma private_mode_inv: "em_inv n e \<Longrightarrow> em_inv n (set_private_mode m b e)"
  by (simp add: set_private_mode_def save_cursor_def home_inv restore_cursor_inv enter_alt_inv exit_alt_inv)

lemma reset_terminal_inv: "em_inv n e \<Longrightarrow> em_inv n (reset_terminal e)"
proof -
  assume e: "em_inv n e"
  have "0 < length (underline_colors (grid_new w h))" for w h by (simp add: grid_new_def)
  then show ?thesis unfolding reset_terminal_def using e
    by (intro nested_inv) (auto simp: em_inv_defs default_tabs_def good_marked good_limit good_new)
qed

section \<open>Printing\<close>

lemma wrap_line_inv: "em_inv n e \<Longrightarrow> em_inv n (wrap_line y e)"
  using em_invD(6) [of n e]
  by (auto simp: wrap_line_def intro!: linefeed_inv em_inv_cx em_inv_grid safe_set_row_wrapped)

lemma wrap_line_sel [simp]: "em_width (wrap_line y e) = em_width e" "em_height (wrap_line y e) = em_height e" "cx (wrap_line y e) = 0"
  by (simp_all add: wrap_line_def)

lemma valid_kept: "kept g h \<Longrightarrow> cluster c < length (clusters h) \<Longrightarrow> valid g c \<Longrightarrow> valid h c"
  by (simp add: valid_def kept_def)

text \<open>A cell whose handles are valid may be written whatever its cluster, which is replaced.\<close>

lemma set_grapheme_cluster: "set_grapheme x y t (c\<lparr>cluster := k\<rparr>) w g = set_grapheme x y t c w g"
  by (simp add: set_grapheme_def blank_like_def Let_def split_beta cong: if_cong)

lemma safe_set_grapheme:
  assumes "ucolor c < length (underline_colors g)" and "link c = 0 \<or> map_of (hyperlinks g) (link c) \<noteq> None"
  shows "safe g (set_grapheme x y t c w g)"
proof (cases "good g")
  case True
  then have "valid g (c\<lparr>cluster := 0\<rparr>)" using assms by (auto simp: valid_def good_def sane_def)
  from safe_edits(8) [OF this, of x y t w] show ?thesis by (simp add: set_grapheme_cluster)
qed (simp add: safe_def)

lemma glyph_of_width: "glyph_of T c w = (t, k) \<Longrightarrow> k = 1 \<or> k = 2"
  by (auto simp: glyph_of_def Let_def min_def split: if_splits option.splits)

lemma print_glyph_inv:
  assumes "em_inv n e"
  shows "em_inv n (print_glyph T inp c e)"
proof -
  obtain t1 w1 where t1: "glyph_of T c (em_width e) = (t1, w1)" by fastforce
  define e1 where "e1 = (if wrap_pending e then (if autowrap e then wrap_line (cy e) e else e)\<lparr>wrap_pending := False\<rparr> else e)"
  have e1: "em_inv n e1" using assms by (simp add: e1_def wrap_line_inv)
  define r where "r = (if w1 = 2 \<and> cx e1 + 1 \<ge> em_width e1
             then if autowrap e1 then (t1, w1, wrap_line (cy e1) e1) else ([REPLACEMENT], 1, e1) else (t1, w1, e1))"
  obtain t2 w2 e2 where r: "r = (t2, w2, e2)" by (cases r) auto
  have e2: "em_inv n e2" "w2 = 1 \<or> w2 = 2"
    using r e1 glyph_of_width [OF t1] by (auto simp: r_def wrap_line_inv split: if_splits)
  define e3 where "e3 = (if insert_mode e2 then e2\<lparr>em_grid := insert_cells (cy e2) (cx e2) w2 (blank_cell e2) (em_grid e2)\<rparr> else e2)"
  have e3: "em_inv n e3" using e2 by (auto simp: e3_def intro!: em_inv_grid safe_edits)
  let ?lead = "cell_default\<lparr>ch := c, fg := em_fg e3, bg := em_bg e3, attrs := em_attrs e3, ucolor := em_uhandle e3, link := em_link e3\<rparr>"
  define e4 where "e4 = e3\<lparr>em_grid := set_grapheme (cx e3) (cy e3) t2 ?lead w2 (em_grid e3)\<rparr>"
  have e4: "em_inv n e4" unfolding e4_def
    using em_invD(11,12) [OF e3] by (intro em_inv_grid [OF e3] safe_set_grapheme) simp_all
  have "em_inv n (if cx e4 + w2 \<ge> em_width e4 then e4\<lparr>cx := em_width e4 - 1, wrap_pending := autowrap e4\<rparr> else e4\<lparr>cx := cx e4 + w2\<rparr>)"
    using em_invD(6) [OF e4] by (auto intro!: em_inv_cx e4)
  then show ?thesis
    unfolding print_glyph_def Let_def t1 split_conv e1_def [symmetric] r_def [symmetric] r e3_def [symmetric] e4_def [symmetric] by simp
qed

lemma join_wide_inv:
  assumes "em_inv n e" and "x < em_width e" and "y < em_height e" and "old = gget x y (em_grid e)"
  shows "em_inv n (join_wide t old x y e)"
proof -
  have g: "good (em_grid e)" "sane (em_grid e)" using em_invD(1) [OF assms(1)] by (auto simp: good_def)
  have v: "valid (em_grid e) old" unfolding assms(4) using assms(2,3) em_invD(2,3) [OF assms(1)] by (intro sane_get g) auto
  define e1 where "e1 = e\<lparr>em_grid := clear_glyph_at x y (blank_cell e) (em_grid e)\<rparr>"
  have s1: "safe (em_grid e) (em_grid e1)" by (simp add: e1_def safe_edits)
  have e1: "em_inv n e1" using assms(1) unfolding e1_def by (intro em_inv_grid safe_edits) simp_all
  have w1: "em_width e1 = em_width e" by (simp add: e1_def)
  define e2 where "e2 = (wrap_line y e1)\<lparr>wrap_pending := False\<rparr>"
  have e2: "em_inv n e2" using wrap_line_inv [OF e1] by (simp add: e2_def)
  have s2: "safe (em_grid e1) (em_grid e2)"
    by (auto simp: e2_def wrap_line_def linefeed_def em_scroll_up_def intro!: safe_trans [OF safe_set_row_wrapped safe_edits(5)] safe_set_row_wrapped)
  have u1: "kept (em_grid e) (em_grid e1)" and u2: "kept (em_grid e) (em_grid e2)"
    using s1 safe_trans [OF s1 s2] g(1) by (auto simp: safe_def)
  have k: "safe h (set_grapheme i j t' old w h)" if "kept (em_grid e) h" for h i j t' w
    using v that by (intro safe_set_grapheme) (auto simp: valid_def kept_def)
  have "em_inv n (e2\<lparr>em_grid := set_grapheme 0 (cy e2) t old 2 (em_grid e2)\<rparr>)" by (intro em_inv_grid e2 k u2)
  moreover have "em_inv n (e1\<lparr>em_grid := set_grapheme x y [REPLACEMENT] old 1 (em_grid e1)\<rparr>)" by (intro em_inv_grid e1 k u1)
  moreover have "em_width e2 = em_width e" by (simp add: e2_def w1)
  ultimately show ?thesis using em_invD(6) [OF assms(1)]
    unfolding join_wide_def Let_def e1_def [symmetric] e2_def [symmetric] by (auto intro!: em_inv_cx)
qed

lemma join_at_inv:
  assumes "em_inv n e" and "x0 < em_width e" and "y < em_height e" and "join_at T c x0 y e = Some f"
  shows "em_inv n f"
proof -
  define x where "x = (if is_continuation (gget x0 y (em_grid e)) \<and> x0 > 0 then x0 - 1 else x0)"
  have x: "x < em_width e" using assms(2) by (auto simp: x_def)
  define t where "t = cell_text_owned (clusters (em_grid e)) (gget x y (em_grid e)) @ [c]"
  define w where "w = max 1 (min 2 (str_width T t))"
  obtain g ok where g: "append_to_grapheme (str_width T) (grapheme_count T) x y c (em_grid e) = (g, ok)" by fastforce
  have "safe (em_grid e) g" using safe_edits(9) [of "em_grid e" "str_width T" "grapheme_count T" x y c] g by simp
  then have e1: "em_inv n (e\<lparr>em_grid := g\<rparr>)" using assms(1) by (rule em_inv_grid [rotated])
  note j = assms(4) [unfolded join_at_def Let_def x_def [symmetric] t_def [symmetric] w_def [symmetric] g split_conv]
  then have ext: "grapheme_extends (grapheme_count T) (gget x y (em_grid e)) c (em_grid e)" by (auto split: if_splits)
  show ?thesis
  proof (cases "w = 2 \<and> x + 1 \<ge> em_width e")
    case True
    then have "f = join_wide t (gget x y (em_grid e)) x y e" using j ext by simp
    then show ?thesis using join_wide_inv [OF assms(1) x assms(3) refl] by simp
  next
    case False
    have j1: "(if \<not> ok then e\<lparr>em_grid := g\<rparr>
               else if sat16_add x w \<ge> em_width e then e\<lparr>em_grid := g, cx := em_width e - 1, wrap_pending := autowrap e\<rparr>
               else if \<not> wrap_pending e then e\<lparr>em_grid := g, cx := sat16_add x w\<rparr> else e\<lparr>em_grid := g\<rparr>) = f"
      using j ext False by (simp only: if_False simp_thms option.inject)
    then show ?thesis using e1 em_invD(6) [OF assms(1)] by (auto intro!: em_inv_cx split: if_splits)
  qed
qed

lemma print_char_inv:
  assumes "em_inv n e"
  obtains f where "print_char T c e = Some f" and "em_inv n f"
proof -
  have i: "in_grid x y (em_grid e)" if "x < em_width e" "y < em_height e" for x y
    using that em_invD(1-3) [OF assms] by (auto simp: in_grid_def good_def sane_def grid_wf_def)
  have p: "x < em_width e \<and> y < em_height e" if "previous_cell e = Some (x, y)" for x y
    using that em_invD(4,5) [OF assms] by (auto simp: previous_cell_def split: if_splits)
  have "\<exists>f. print_char T c e = Some f \<and> em_inv n f"
    using i p join_at_inv [OF assms, where T = T] print_glyph_inv [OF assms]
    by (fastforce simp: print_char_def Let_def split: option.split)
  then show thesis using that by blast
qed

section \<open>Callbacks\<close>

lemma find_tab_ok: "\<forall>x\<in>set xs. x < length ts \<Longrightarrow> \<exists>t. find_tab xs ts = Some t \<and> (\<forall>x. t = Some x \<longrightarrow> x \<in> set xs)"
  by (induction xs) auto

lemma index_down_inv: "em_inv n e \<Longrightarrow> em_inv n (index_down e)"
  by (auto simp: index_down_def intro!: linefeed_inv em_inv_grid safe_set_row_wrapped)

lemma execute_inv:
  assumes "em_inv n e"
  shows "\<exists>f. execute b e = Some f \<and> em_inv n f"
proof -
  note d = em_invD [OF assms]
  obtain t where t: "find_tab [cx e + 1..<em_width e] (tabs e) = Some t" "\<forall>x. t = Some x \<longrightarrow> x \<in> set [cx e + 1..<em_width e]"
    using find_tab_ok [of "[cx e + 1..<em_width e]" "tabs e"] d(10) by auto
  have "em_inv n (e\<lparr>cx := (case t of Some x \<Rightarrow> x | None \<Rightarrow> em_width e - 1)\<rparr>)"
    using t(2) d(6) by (intro em_inv_cx assms) (auto split: option.split)
  then show ?thesis using t(1) assms d(4,6)
    by (auto simp: execute_def index_down_inv intro!: em_inv_cx)
qed

lemma move_to_inv: "em_inv n e \<Longrightarrow> x < em_width e \<Longrightarrow> y < em_height e \<Longrightarrow> em_inv n (move_to x y e)"
  by (auto simp: move_to_def intro!: em_inv_cx em_inv_cy)

lemma limits_in: "em_inv n e \<Longrightarrow> top_limit e < em_height e \<and> bottom_limit e < em_height e"
  using em_invD [of n e] by (auto simp: top_limit_def bottom_limit_def)

lemma back_tabs_inv: "em_inv n e \<Longrightarrow> \<exists>f. back_tabs k e = Some f \<and> em_inv n f"
proof (induction k arbitrary: e)
  case (Suc k)
  note d = em_invD [OF Suc.prems]
  obtain t where t: "find_tab (rev [0..<cx e]) (tabs e) = Some t" "\<forall>x. t = Some x \<longrightarrow> x \<in> set (rev [0..<cx e])"
    using find_tab_ok [of "rev [0..<cx e]" "tabs e"] d(4,10) by auto
  have "em_inv n (e\<lparr>cx := (case t of Some x \<Rightarrow> x | None \<Rightarrow> 0)\<rparr>)"
    using t(2) d(4,6) by (intro em_inv_cx Suc.prems) (auto split: option.split)
  then show ?case using Suc.IH t(1) by simp
qed simp

lemma repeat_inv: "(\<And>s. I s \<Longrightarrow> \<exists>t. f s = Some t \<and> I t) \<Longrightarrow> I s \<Longrightarrow> \<exists>t. repeat_opt k f s = Some t \<and> I t"
proof (induction k arbitrary: s)
  case (Suc k)
  then obtain t where "f s = Some t" "I t" by blast
  then show ?case using Suc by simp
qed simp

lemma clear_tabs_inv: "em_inv n e \<Longrightarrow> \<exists>f. clear_tabs m e = Some f \<and> em_inv n f"
  using em_invD(4,10) [of n e] by (auto simp: clear_tabs_def intro!: em_inv_tabs)

lemma set_margins_inv: "em_inv n e \<Longrightarrow> em_inv n (set_margins ps e)"
  by (auto simp: set_margins_def Let_def intro!: home_inv em_inv_margins)

lemma respond_inv [simp]: "em_inv n (respond bs e) = em_inv n e"
  by (simp add: respond_def)

lemma km_wf_ops: "km_wf k \<Longrightarrow> km_wf (km_push f k)" "km_wf k \<Longrightarrow> km_wf (km_pop m k)"
  by (auto simp: km_wf_def km_push_def km_pop_def Let_def)

lemma keyboard_inv: "em_inv n e \<Longrightarrow> em_inv n (set_keyboard (keyboard_protocol ps b (keyboard_of e)) e)"
proof -
  assume e: "em_inv n e"
  then have "km_wf (keyboard_of e)" by (simp add: keyboard_of_def em_inv_defs)
  then have "km_wf (keyboard_protocol ps b (keyboard_of e))"
    by (auto simp: keyboard_protocol_def km_wf_ops Let_def) (auto simp: km_wf_def)
  then show ?thesis using e by (simp add: set_keyboard_def em_inv_kb)
qed

lemma fold_inv: "(\<And>x s. I s \<Longrightarrow> I (f x s)) \<Longrightarrow> I s \<Longrightarrow> I (fold f xs s)"
  by (induction xs arbitrary: s) auto

lemma modes_inv: "em_inv n e \<Longrightarrow> em_inv n (fold (dec_mode b) ms e)" "em_inv n e \<Longrightarrow> em_inv n (fold (ansi_mode b) ms e)"
  by (rule fold_inv; simp add: dec_mode_def ansi_mode_def private_mode_inv)+

lemma positions_inv:
  assumes "em_inv n e"
  shows "em_inv n (cursor_position ps e)" "em_inv n (line_position ps e)"
  using em_invD [OF assms] by (auto simp: cursor_position_def line_position_def Let_def intro!: move_to_inv assms)

lemma print_char_ok: "em_inv n e \<Longrightarrow> \<exists>f. print_char T c e = Some f \<and> em_inv n f"
  using print_char_inv [of n e T c] by blast

lemma csi_move_inv:
  assumes "em_inv n e"
  shows "em_inv n (move_to (cx e) (max (cy e - k) (top_limit e)) e)" "em_inv n (move_to 0 (max (cy e - k) (top_limit e)) e)"
    "em_inv n (move_to (cx e) (min (sat16_add (cy e) k) (bottom_limit e)) e)" "em_inv n (move_to 0 (min (sat16_add (cy e) k) (bottom_limit e)) e)"
    "em_inv n (move_to (min m (em_width e - 1)) (cy e) e)" "em_inv n (move_to (cx e - k) (cy e) e)"
  using limits_in [OF assms] em_invD(4-7) [OF assms] by (auto intro!: move_to_inv assms)

lemmas csi_invs = csi_move_inv positions_inv erase_display_inv erase_line_inv apply_sgr_inv em_chars_inv em_lines_inv em_scrolls_inv
  set_margins_inv restore_cursor_inv keyboard_inv modes_inv

lemma csi_dispatch_inv:
  assumes "em_inv n e"
  shows "\<exists>f. csi_dispatch T ps im a e = Some f \<and> em_inv n f"
proof -
  have b: "\<exists>f. (case last_char e of Some c \<Rightarrow> repeat_opt k (print_char T c) e | None \<Rightarrow> Some e) = Some f \<and> em_inv n f" for k
    using repeat_inv [of "em_inv n", OF print_char_ok assms] assms by (auto split: option.split)
  have z: "\<exists>f. map_option (\<lambda>s. s\<lparr>wrap_pending := False\<rparr>) (back_tabs k e) = Some f \<and> em_inv n f" for k
    using back_tabs_inv [OF assms, of k] by auto
  have some: "\<exists>f. Some s = Some f \<and> em_inv n f" if "em_inv n s" for s using that by blast
  show ?thesis
    unfolding csi_dispatch_def
    by (intro if_split [where P = "\<lambda>r. \<exists>f. r = Some f \<and> em_inv n f", THEN iffD2] conjI impI some b z clear_tabs_inv assms csi_invs)
      (simp_all add: assms save_cursor_def status_report_def window_report_def Let_def)
qed

section \<open>Links\<close>

lemma intern_link_good:
  assumes "good g" and "intern_hyperlink uri g = Some (k, h)" and "length (hyperlinks g) \<le> n" and "n < 2 ^ 32 - 1"
  shows "good h \<and> length (hyperlinks h) \<le> n + 1 \<and> (k = 0 \<or> map_of (hyperlinks h) k \<noteq> None)
    \<and> underline_colors h = underline_colors g \<and> gw h = gw g \<and> gh h = gh g"
proof -
  define g0 where "g0 = (if length (hyperlinks g) \<ge> hyperlink_gc_at g then compact_hyperlinks g else g)"
  have g: "sane g" "all_paired g" "0 < next_hyperlink g" "next_hyperlink g < 2 ^ 32" "distinct (map fst (hyperlinks g))" "grid_wf g"
    using assms(1) by (auto simp: good_def sane_def)
  have len: "length (hyperlinks g) < 2 ^ 32 - 1" using assms(3,4) by linarith
  note ok = intern_hyperlink_ok [OF g(1) assms(2) g(3,4) len g(5)]
  have pr: "all_paired h" using same_looks_paired [OF _ g(6,2)] ok by blast
  have dims: "gw h = gw g" "gh h = gh g" "scrollback_limit h = scrollback_limit g" "length (scrollback h) = length (scrollback g)"
    using ok lines_related_shape unfolding same_looks_def by blast+
  have g0: "distinct (map fst (hyperlinks g0))" "length (hyperlinks g0) \<le> length (hyperlinks g)" "next_hyperlink g0 = next_hyperlink g"
    "underline_colors g0 = underline_colors g"
    unfolding g0_def using g(5) by (auto simp: compact_hyperlinks_def Let_def distinct_map_filter)
  obtain f where f: "0 < f" "f < 2 ^ 32" "map_of (hyperlinks g0) f = None"
    using free_handle_exists [of "hyperlinks g0"] g0(2) len by auto
  obtain j m where j: "free_handle (hyperlinks g0) (next_hyperlink g0) = Some (j, m)" "map_of (hyperlinks g0) j = None" "0 < m" "m < 2 ^ 32"
    using free_handle_reaches [OF _ _ f, of "next_hyperlink g0"] g(3,4) g0(3) by auto
  consider "h = g" | "h = g0\<lparr>next_hyperlink := m, hyperlinks := (j, uri) # hyperlinks g0\<rparr>"
    using assms(2) j(1) unfolding intern_hyperlink_def Let_def g0_def [symmetric] by (auto split: if_splits option.splits)
  then have "0 < next_hyperlink h \<and> next_hyperlink h < 2 ^ 32 \<and> distinct (map fst (hyperlinks h)) \<and> length (hyperlinks h) \<le> n + 1
      \<and> underline_colors h = underline_colors g"
  proof cases
    case 1
    then show ?thesis using g assms(3) by simp
  next
    case 2
    then show ?thesis using g0 j assms(3) by (auto simp: map_of_eq_None_iff)
  qed
  moreover have "k = 0 \<or> map_of (hyperlinks h) k \<noteq> None" using ok by (auto simp: hyperlink_def)
  ultimately show ?thesis using assms(1) ok pr dims by (simp add: good_def)
qed

lemma osc_hyperlink_inv:
  assumes "em_inv n e" and "n < 2 ^ 32 - 1"
  shows "\<exists>f. osc_hyperlink ps e = Some f \<and> em_inv (n + 1) f"
proof (cases "from_utf8 (join_with 59 (drop 2 ps))")
  case None
  then show ?thesis using em_inv_mono [OF em_inv_link0 [OF assms(1)], of "n + 1"] by (simp add: osc_hyperlink_def)
next
  case (Some uri)
  note d = em_invD [OF assms(1)]
  have "intern_hyperlink uri (em_grid e) \<noteq> None"
    using d(1,13) assms(2) by (intro intern_hyperlink_ends) (auto simp: good_def)
  then obtain k h where k: "intern_hyperlink uri (em_grid e) = Some (k, h)" by auto
  note h = intern_link_good [OF d(1) k d(13) assms(2)]
  have "em_inv (n + 1) (e\<lparr>em_link := k, em_grid := h\<rparr>)"
    using em_inv_mono [OF assms(1), of "n + 1"] h by (simp add: em_inv_defs)
  then show ?thesis using Some k by (simp add: osc_hyperlink_def)
qed

lemma recover_queues [simp]:
  "prompt_marks (recover_shell_screen e) = prompt_marks e" "clipboard_requests (recover_shell_screen e) = clipboard_requests e"
  by (auto simp: recover_shell_screen_def exit_alt_def set_nested_input_def load_cursor_def set_ucolor_def split_beta Let_def
      split: option.split)

lemma osc_dispatch_inv:
  assumes "em_inv n e" and "n < 2 ^ 32 - 1"
  shows "\<exists>f. osc_dispatch T ps e = Some f \<and> em_inv (n + 1) f"
proof -
  have e: "em_inv (n + 1) e" using em_inv_mono [OF assms(1)] by simp
  have some: "\<exists>f. Some s = Some f \<and> em_inv (n + 1) f" if "em_inv (n + 1) s" for s using that by blast
  have t: "em_inv (n + 1) (osc_title ps e)" using e by (simp add: osc_title_def em_inv_defs)
  have a: "em_inv (n + 1) (osc_agent T ps e)" using e by (simp add: osc_agent_def Let_def recover_inv split: option.split)
  have c: "em_inv (n + 1) (osc_cwd ps e)" using e by (simp add: osc_cwd_def split: option.split)
  have m: "em_inv k (s\<lparr>prompt_marks := prompt_marks s @ [x]\<rparr>)" if "em_inv k s" "length (prompt_marks s) < 1024" for k s x
    using that by (simp add: em_inv_defs)
  have p: "em_inv (n + 1) (osc_prompt_mark ps e)" using e by (simp add: osc_prompt_mark_def Let_def m recover_inv)
  have k: "em_inv (n + 1) (osc_clipboard ps e)" using e by (simp add: osc_clipboard_def Let_def em_inv_defs)
  have i: "em_inv (n + 1) (if A then set_nested_input True e else if B then set_nested_input False e else e)" for A B
    using nested_inv [OF e] e by simp
  have q: "em_inv (n + 1) (osc_color_query ps e)" using e by (simp add: osc_color_query_def Let_def split: option.split)
  show ?thesis
    unfolding osc_dispatch_def Let_def
    by (intro if_split [where P = "\<lambda>r. \<exists>f. r = Some f \<and> em_inv (n + 1) f", THEN iffD2] conjI impI some osc_hyperlink_inv assms t a c p k q i)
qed

lemma esc_dispatch_inv:
  assumes "em_inv n e"
  shows "\<exists>f. esc_dispatch im b e = Some f \<and> em_inv n f"
proof -
  have some: "\<exists>f. Some s = Some f \<and> em_inv n f" if "em_inv n s" for s using that by blast
  have nel: "em_inv n ((linefeed (e\<lparr>em_grid := set_row_wrapped (cy e) False (em_grid e), cx := 0\<rparr>))\<lparr>wrap_pending := False\<rparr>)"
    using em_invD(6) [OF assms] by (auto intro!: linefeed_inv em_inv_cx em_inv_grid safe_set_row_wrapped assms)
  have hts: "\<exists>f. (if cx e < length (tabs e) then Some (e\<lparr>tabs := (tabs e)[cx e := True]\<rparr>) else None) = Some f \<and> em_inv n f"
    using em_invD(4,10) [OF assms] by (auto intro!: em_inv_tabs assms)
  show ?thesis
    unfolding esc_dispatch_def
    by (intro if_split [where P = "\<lambda>r. \<exists>f. r = Some f \<and> em_inv n f", THEN iffD2] conjI impI some nel hts assms reverse_index_inv index_down_inv
        restore_cursor_inv reset_terminal_inv)
      (simp_all add: assms save_cursor_def)
qed

lemma perform_inv:
  assumes "em_inv n e" and "n < 2 ^ 32 - 1"
  shows "\<exists>f. perform T c e = Some f \<and> em_inv (n + 1) f"
proof -
  have up: "em_inv n f \<Longrightarrow> em_inv (n + 1) f" for f by (erule em_inv_mono) simp
  show ?thesis
    using print_char_ok [OF assms(1), of T] execute_inv [OF assms(1)] csi_dispatch_inv [OF assms(1), of T]
      esc_dispatch_inv [OF assms(1)] osc_dispatch_inv [OF assms, of T] up
    by (cases c) (auto, blast+)
qed

section \<open>Resizing\<close>

lemma push_fold_next: "next_hyperlink (fold (\<lambda>l k. push_scrollback (trim_default_tail l) k) ls g) = next_hyperlink g"
  by (induction ls arbitrary: g) (simp_all add: push_scrollback_def)

lemma marked_next [simp]: "next_hyperlink (mark_all_damaged g) = next_hyperlink g"
  by (simp add: mark_all_damaged_def)

lemma reflow_width_sel:
  "hyperlinks (fst (reflow_width sw w h b c p g)) = hyperlinks g" "next_hyperlink (fst (reflow_width sw w h b c p g)) = next_hyperlink g"
  unfolding reflow_width_def Let_def split_beta fst_conv by simp_all

lemma resize_reflow_sel:
  "hyperlinks (fst (resize_reflow sw w h b c p g)) = hyperlinks g" "next_hyperlink (fst (resize_reflow sw w h b c p g)) = next_hyperlink g"
  unfolding resize_reflow_def Let_def split_beta
  by (simp_all add: reflow_width_sel push_fold_rows push_fold_next)

lemma resize_good:
  assumes "good g" and "plain_blank b" and "0 < w" and "w < 65534" and "0 < h" and "w = gw g \<and> h = gh g \<longrightarrow> x < gw g" and "y < gh g"
    and "0 < gw g" and "resize_reflow sw w h b (x, y) p g = (k, x1, y1, q)"
  shows "good k \<and> gw k = w \<and> gh k = h \<and> x1 < w \<and> y1 < h \<and> hyperlinks k = hyperlinks g"
proof -
  have m: "max w 1 = w" "max h 1 = h" using assms(3,5) by simp_all
  have g: "sane g" "all_paired g" using assms(1) by (auto simp: good_def)
  have "resized_ok w h g (k, x1, y1, q)"
    using resize_reflow_ok [OF g assms(2,4), where h = h and cx = x and cy = y and sw = sw and pending = p] assms(6-9) unfolding m by simp
  then show ?thesis using assms(1) resize_reflow_sel [of sw w h b "(x, y)" p g] unfolding assms(9) by (auto simp: resized_ok_def good_def)
qed

lemma resize_inv:
  assumes "em_inv n e" and "2 \<le> w" and "w < 65534" and "0 < h"
  shows "em_inv n (resize T w h e)"
proof (cases "w = em_width e \<and> h = em_height e")
  case True
  then show ?thesis using assms by (simp add: resize_def Let_def)
next
  case False
  note d = em_invD [OF assms(1)]
  have m: "max w 1 = w" "max h 1 = h" using assms(2,4) by simp_all
  obtain g x y b where r: "resize_reflow (str_width T) w h (blank_cell e) (cx e + of_bool (wrap_pending e), cy e) (wrap_pending e) (em_grid e)
      = (g, x, y, b)" by (metis prod_cases4)
  have g: "good g \<and> gw g = w \<and> gh g = h \<and> x < w \<and> y < h \<and> hyperlinks g = hyperlinks (em_grid e)"
    using False d assms(2-4) by (intro resize_good [OF _ _ _ _ _ _ _ _ r]) auto
  define e1 where "e1 = set_ucolor (em_ucolor e) (e\<lparr>em_grid := g, cx := x, cy := y, wrap_pending := b\<rparr>)"
  obtain k h1 where k: "intern_underline_color (em_ucolor e) g = (k, h1)" by fastforce
  have e1: "e1 = e\<lparr>em_grid := h1, cx := x, cy := y, wrap_pending := b, em_uhandle := k\<rparr>"
    using k by (cases e) (simp add: e1_def set_ucolor_def)
  note h1 = intern_color_good [OF conjunct1 [OF g] k] intern_color_sel [OF k]
  have h0: "h - 1 < h" using assms(4) by simp
  show ?thesis
  proof (cases "alt_backup e")
    case None
    then have a: "alt_cursor e = None" using assms(1) by (simp add: em_inv_defs)
    show ?thesis
      using assms(1,2) g h1 h0 a None
      unfolding resize_def Let_def m r split_conv using False
      by (simp add: e1_def [symmetric, simplified] resize_alt_def e1 em_inv_defs default_tabs_def)
  next
    case (Some p)
    then obtain s where s: "alt_cursor e = Some s" using assms(1) by (auto simp: em_inv_defs)
    have p: "good p" "gw p = em_width e" "gh p = em_height e" "length (hyperlinks p) \<le> n" "sc_x s < em_width e" "sc_y s < em_height e"
      using assms(1) Some s by (auto simp: em_inv_defs)
    obtain p2 px py pb where rp: "resize_reflow (str_width T) w h (blank_cell e) (sc_x s + of_bool (sc_pending s), sc_y s) (sc_pending s)
        (set_scrollback_limit (em_limit e) p) = (p2, px, py, pb)" by (metis prod_cases4)
    have q: "good p2 \<and> gw p2 = w \<and> gh p2 = h \<and> px < w \<and> py < h \<and> hyperlinks p2 = hyperlinks (set_scrollback_limit (em_limit e) p)"
      using False p d(6) assms(2-4) by (intro resize_good [OF _ _ _ _ _ _ _ _ rp]) (auto simp: good_limit)
    show ?thesis
      using assms(1,2) g h1 h0 p(4) q good_limit [OF h1(1), of 0] Some s rp
      unfolding resize_def Let_def m r split_conv using False
      by (simp add: e1_def [symmetric, simplified] resize_alt_def e1 em_inv_defs default_tabs_def)
  qed
qed

section \<open>Any input\<close>

datatype term_input =
    Feed callback
  | Resize nat nat
  | SetLimit nat
  | SetColors color color
  | Recover
  | QueueEvent agent_event
  | Drain

fun term_step :: "tables \<Rightarrow> term_input \<Rightarrow> emu \<Rightarrow> emu option" where
  "term_step T (Feed c) e = perform T c e"
| "term_step T (Resize w h) e = Some (resize T w h e)"
| "term_step T (SetLimit m) e = Some (em_set_scrollback_limit m e)"
| "term_step T (SetColors f b) e = Some (set_default_colors f b e)"
| "term_step T Recover e = Some (recover_shell_screen e)"
| "term_step T (QueueEvent ev) e = Some (queue_agent_event ev e)"
| "term_step T Drain e =
     Some (snd (take_clipboard_requests (snd (take_prompt_marks (snd (take_nested_input_changes
       (snd (take_agent_events (snd (take_responses e))))))))))"

fun term_run :: "tables \<Rightarrow> term_input list \<Rightarrow> emu \<Rightarrow> emu option" where
  "term_run T [] e = Some e"
| "term_run T (i # is) e = Option.bind (term_step T i e) (term_run T is)"

fun wide_enough :: "term_input \<Rightarrow> bool" where
  "wide_enough (Resize w h) = (2 \<le> w \<and> w < 65534)"
| "wide_enough i = True"

lemma resize_height: "resize T w (max h 1) e = resize T w h e"
  by (simp add: resize_def)

lemma term_step_inv:
  assumes "em_inv n e" and "n < 2 ^ 32 - 1" and "wide_enough i"
  shows "\<exists>f. term_step T i e = Some f \<and> em_inv (n + 1) f"
proof -
  have e: "em_inv (n + 1) e" by (rule em_inv_mono [OF assms(1)]) simp
  have r: "em_inv (n + 1) (resize T w h e)" if "2 \<le> w" "w < 65534" for w h
    using resize_inv [OF e that, of "max h 1" T] unfolding resize_height by simp
  have l: "em_inv (n + 1) (em_set_scrollback_limit m e)" for m
    using e by (simp add: em_set_scrollback_limit_def em_inv_defs good_limit)
  have d: "em_inv (n + 1) (e\<lparr>responses := [], agent_events := [], nested_input_changes := [], prompt_marks := [], clipboard_requests := []\<rparr>)"
    using e by (simp add: em_inv_defs)
  show ?thesis
    using perform_inv [OF assms(1,2)] assms(3) e r l d
    by (cases i) (auto simp: set_default_colors_def Let_def recover_inv queue_agent_event_def take_responses_def take_agent_events_def
        take_nested_input_changes_def take_prompt_marks_def take_clipboard_requests_def)
qed

lemma term_run_inv:
  assumes "em_inv n e" and "n + length is \<le> 2 ^ 32 - 1" and "list_all wide_enough is"
  shows "\<exists>f. term_run T is e = Some f \<and> em_inv (n + length is) f"
  using assms
proof (induction "is" arbitrary: n e)
  case (Cons i "is")
  then obtain f where f: "term_step T i e = Some f" "em_inv (n + 1) f" using term_step_inv [of n e i T] by auto
  then show ?case using Cons.IH [OF f(2)] Cons.prems by simp
qed simp

lemma terminal_new_inv:
  assumes "2 \<le> w"
  shows "em_inv 0 (terminal_new w h)"
  using assms good_new by (auto simp: em_inv_defs terminal_new_def default_tabs_def) (simp add: grid_new_def)

text \<open>
  C2. Whatever bytes a program writes, however the parser cuts them into callbacks, and however
  the server resizes, reconfigures, drains and recovers the terminal in between, as long as it
  is at least two columns wide, every step returns (no index panics and the search for a link
  handle ends), the cursor and the scroll region stay on the screen, tab stops cover it, the
  handles of the current colour and link resolve, the alternate and the stashed screen have the
  terminal's size with whole wide glyphs and bounded history, and the queues keep their limits.
\<close>

theorem terminal_stays_on_screen:
  assumes "2 \<le> w" and "list_all wide_enough is" and "length is \<le> 2 ^ 32 - 1"
  shows "\<exists>e. term_run T is (terminal_new w h) = Some e \<and> em_inv (length is) e"
  using term_run_inv [OF terminal_new_inv [OF assms(1)], of "is" T h] assms(2,3) by simp

theorem terminal_stays_on_screen_witness:
  "\<exists>e. term_run \<lparr>str_width = length, char_width = (\<lambda>_. Some 1), grapheme_count = length, json_event = (\<lambda>_. None)\<rparr>
      [Feed (CsiDispatch [[1049]] [63] (CHR ''h'')), Feed (Print 97), Resize 3 4, Feed (CsiDispatch [[65535], [65535]] [] (CHR ''H''))]
      (terminal_new 5 2) = Some e \<and> em_inv 4 e"
proof -
  let ?is = "[Feed (CsiDispatch [[1049]] [63] (CHR ''h'')), Feed (Print 97), Resize 3 4, Feed (CsiDispatch [[65535], [65535]] [] (CHR ''H''))]"
  have l: "length ?is = 4" by simp
  have "\<exists>e. term_run \<lparr>str_width = length, char_width = (\<lambda>_. Some 1), grapheme_count = length, json_event = (\<lambda>_. None)\<rparr> ?is
      (terminal_new 5 2) = Some e \<and> em_inv (length ?is) e"
    by (rule terminal_stays_on_screen) simp_all
  then show ?thesis unfolding l .
qed

section \<open>One column\<close>

lemma gget_set_narrow:
  assumes "grid_wf g" and "x < gw g" and "y < gh g"
  shows "gget x y (set_grapheme x y [r] c 1 g) = c\<lparr>ch := r, width := 1, cluster := 0\<rparr>"
  using assms clear_wf [OF assms(1), of x y "blank_like c"] by (simp add: set_grapheme_def Let_def gget_gset)

lemma one_column_join:
  assumes "em_width e = 1" and "wrap_pending e" and "autowrap e" and "\<not> line_drawing e" and "cx e = 0"
    and "in_grid 0 (cy e) (em_grid e)" and "cell_text_owned (clusters (em_grid e)) (gget 0 (cy e) (em_grid e)) = [c1]"
    and "\<not> is_continuation (gget 0 (cy e) (em_grid e))" and "good (em_grid e)" and "gw (em_grid e) = 1"
    and "grapheme_count T [c1, c2] = 1" and "str_width T [c1, c2] = 2"
  obtains f where "print_char T c2 e = Some f" and "cx f = 2" and "\<not> wrap_pending f" and "good (em_grid f)" and "gw (em_grid f) = 1"
    and "line_drawing f = line_drawing e"
proof -
  let ?y = "cy e" and ?b = "blank_cell e"
  let ?old = "gget 0 ?y (em_grid e)"
  define e1 where "e1 = e\<lparr>em_grid := clear_glyph_at 0 ?y ?b (em_grid e)\<rparr>"
  define e2 where "e2 = (wrap_line ?y e1)\<lparr>wrap_pending := False\<rparr>"
  have s1: "safe (em_grid e) (em_grid e1)" by (simp add: e1_def safe_edits)
  have s2: "safe (em_grid e1) (em_grid e2)"
    by (auto simp: e2_def wrap_line_def linefeed_def em_scroll_up_def intro!: safe_trans [OF safe_set_row_wrapped safe_edits(5)] safe_set_row_wrapped)
  have g2: "good (em_grid e2)" "gw (em_grid e2) = 1"
    using safe_trans [OF s1 s2] assms(9,10) by (auto simp: safe_def kept_def)
  have "set_grapheme 0 (cy e2) [c1, c2] ?old 2 (em_grid e2) = em_grid e2" using g2(2) by (simp add: set_grapheme_def)
  then have "join_wide [c1, c2] ?old 0 ?y e = e2\<lparr>cx := 2\<rparr>"
    unfolding join_wide_def Let_def e1_def [symmetric] e2_def [symmetric] using assms(1,3) by simp
  moreover have "join_at T c2 0 ?y e = Some (join_wide [c1, c2] ?old 0 ?y e)"
    using assms(1,7,8,11,12) by (simp add: join_at_def Let_def grapheme_extends_def)
  ultimately have "print_char T c2 e = Some (e2\<lparr>cx := 2\<rparr>)"
    using assms(2,4,5,6) by (simp add: print_char_def previous_cell_def Let_def)
  then show thesis using that [of "e2\<lparr>cx := 2\<rparr>"] g2 by (simp add: e2_def e1_def wrap_line_def linefeed_def em_scroll_up_def)
qed

text \<open>
  C34. In a terminal of one column a character that turns its predecessor into a wide glyph
  (a regional indicator, a variation selector) moves the cursor to column two, and the next
  character indexes the row out of bounds: the emulator panics.
\<close>

theorem one_column_panics:
  assumes "char_width T c1 = Some 1" and "grapheme_count T [c1, c2] = 1" and "str_width T [c1, c2] = 2"
  shows "perform_all T [Print c1, Print c2, Print c3] (terminal_new 1 h) = None"
proof -
  let ?e = "terminal_new 1 h"
  let ?lead = "cell_default\<lparr>ch := c1\<rparr>"
  define e1 where "e1 = print_glyph T c1 c1 ?e"
  have p1: "print_char T c1 ?e = Some e1" by (simp add: e1_def print_char_def previous_cell_def terminal_new_def)
  have f: "em_width e1 = 1" "wrap_pending e1" "autowrap e1" "\<not> line_drawing e1" "cx e1 = 0" "cy e1 = 0"
    "em_grid e1 = set_grapheme 0 0 [c1] ?lead 1 (grid_new 1 (max h 1))"
    using assms(1) by (simp_all add: e1_def print_glyph_def glyph_of_def terminal_new_def Let_def cell_default_def)
  have s: "safe (grid_new 1 (max h 1)) (em_grid e1)" unfolding f(7)
    by (rule safe_set_grapheme) (simp_all add: cell_default_def grid_new_def)
  then have g: "good (em_grid e1)" "gw (em_grid e1) = 1" "gh (em_grid e1) = max h 1"
    using good_new by (auto simp: safe_def kept_def)
  have i: "in_grid 0 (cy e1) (em_grid e1)" using g f(6) by (auto simp: in_grid_def good_def sane_def grid_wf_def)
  have "gget 0 (cy e1) (em_grid e1) = ?lead\<lparr>width := 1, cluster := 0\<rparr>"
    unfolding f(6,7) by (subst gget_set_narrow) (simp_all add: grid_wf_new)
  then have c: "cell_text_owned (clusters (em_grid e1)) (gget 0 (cy e1) (em_grid e1)) = [c1]" "\<not> is_continuation (gget 0 (cy e1) (em_grid e1))"
    by (simp_all add: cell_text_owned_def is_continuation_def)
  obtain e2 where p2: "print_char T c2 e1 = Some e2" "cx e2 = 2" "\<not> wrap_pending e2" "good (em_grid e2)" "gw (em_grid e2) = 1"
    by (rule one_column_join [OF f(1-5) i c g(1,2) assms(2,3)])
  have "\<not> in_grid 1 y (em_grid e2)" for y using p2(4,5) by (auto simp: in_grid_def good_def sane_def grid_wf_def)
  then have "print_char T c3 e2 = None" using p2(2,3) by (simp add: print_char_def previous_cell_def Let_def)
  then show ?thesis using p1 p2(1) by simp
qed

theorem one_column_panics_witness:
  "perform_all \<lparr>str_width = length, char_width = (\<lambda>_. Some 1), grapheme_count = (\<lambda>s. if s = [0x1F1E9, 0x1F1EA] then 1 else length s),
      json_event = (\<lambda>_. None)\<rparr> [Print 0x1F1E9, Print 0x1F1EA, Print 97] (terminal_new 1 24) = None"
  by (rule one_column_panics) simp_all

end
