(* ===== verification/Terminal_Screen.thy ===== *)
theory Terminal_Screen
  imports Terminal_Safe
begin

text \<open>
  What the emulator does to the screen: the alternate screen gives the primary one back, text
  lands where it should, the keyboard stacks are bounded stacks, and two ways in which origin
  mode leaves its region.
\<close>

section \<open>The alternate screen\<close>

text \<open>A callback on the alternate screen either leaves it or keeps what was stashed.\<close>

definition stash :: "emu \<Rightarrow> grid option \<times> saved_cursor option" where
  "stash e = (alt_backup e, alt_cursor e)"

lemma stash_free [simp]:
  "stash (e\<lparr>em_grid := g\<rparr>) = stash e" "stash (e\<lparr>cx := x\<rparr>) = stash e" "stash (e\<lparr>cy := x\<rparr>) = stash e"
  "stash (e\<lparr>wrap_pending := b\<rparr>) = stash e" "stash (e\<lparr>autowrap := b\<rparr>) = stash e"
  "stash (e\<lparr>origin_mode := b\<rparr>) = stash e" "stash (e\<lparr>insert_mode := b\<rparr>) = stash e"
  "stash (e\<lparr>cursor_visible := b\<rparr>) = stash e" "stash (e\<lparr>bracketed_paste := b\<rparr>) = stash e"
  "stash (e\<lparr>last_char := lc\<rparr>) = stash e" "stash (e\<lparr>line_drawing := b\<rparr>) = stash e"
  "stash (e\<lparr>saved := sv\<rparr>) = stash e" "stash (e\<lparr>app_cursor := b\<rparr>) = stash e"
  "stash (e\<lparr>mouse := mo\<rparr>) = stash e" "stash (e\<lparr>mouse_sgr := b\<rparr>) = stash e" "stash (e\<lparr>tabs := ts\<rparr>) = stash e"
  "stash (e\<lparr>nested_input := b\<rparr>) = stash e" "stash (e\<lparr>nested_input_changes := bs\<rparr>) = stash e"
  "stash (e\<lparr>agent_events := evs\<rparr>) = stash e" "stash (e\<lparr>cwd := c\<rparr>) = stash e" "stash (e\<lparr>terminal_title := ti\<rparr>) = stash e"
  "stash (e\<lparr>prompt_marks := pm\<rparr>) = stash e" "stash (e\<lparr>clipboard_requests := cr\<rparr>) = stash e"
  "stash (e\<lparr>palette_notifications := b\<rparr>) = stash e" "stash (e\<lparr>responses := r\<rparr>) = stash e"
  "stash (e\<lparr>em_fg := col\<rparr>) = stash e" "stash (e\<lparr>em_bg := col\<rparr>) = stash e" "stash (e\<lparr>em_attrs := a\<rparr>) = stash e"
  "stash (e\<lparr>em_ucolor := col\<rparr>) = stash e" "stash (e\<lparr>em_uhandle := k\<rparr>) = stash e" "stash (e\<lparr>em_link := k\<rparr>) = stash e"
  "stash (e\<lparr>scroll_top := k\<rparr>) = stash e" "stash (e\<lparr>scroll_bottom := k\<rparr>) = stash e"
  "stash (e\<lparr>kb_primary := km\<rparr>) = stash e" "stash (e\<lparr>kb_alternate := km\<rparr>) = stash e"
  by (simp_all add: stash_def)

lemma stash_lines [simp]:
  "stash (em_scroll_up e) = stash e" "stash (em_scroll_down e) = stash e" "stash (linefeed e) = stash e" "stash (reverse_index e) = stash e"
  "stash (em_delete_chars n e) = stash e" "stash (em_insert_chars n e) = stash e" "stash (em_erase_chars n e) = stash e"
  "stash (em_insert_lines n e) = stash e" "stash (em_delete_lines n e) = stash e" "stash (erase_in_line m e) = stash e"
  "stash (erase_rows i j e) = stash e"
  by (simp_all add: em_scroll_up_def em_scroll_down_def linefeed_def reverse_index_def em_delete_chars_def em_insert_chars_def
      em_erase_chars_def em_insert_lines_def em_delete_lines_def erase_in_line_def erase_rows_def Let_def split_beta)

lemma stash_erase_display [simp]: "stash (erase_in_display m e) = stash e"
  by (simp add: erase_in_display_def)

lemma stash_scrolls [simp]: "stash ((em_scroll_up ^^ n) e) = stash e" "stash ((em_scroll_down ^^ n) e) = stash e"
  by (induction n) simp_all

lemma stash_ucolor [simp]: "stash (set_ucolor c e) = stash e"
  by (simp add: set_ucolor_def split_beta)

lemma stash_sgr_code [simp]: "stash (sgr_code grp code e) = stash e"
  by (simp add: sgr_code_def reset_sgr_def attr_on_def attr_off_def split: option.split)

lemma stash_sgr_loop [simp]: "stash (sgr_loop groups e) = stash e"
proof (induction groups e rule: sgr_loop.induct)
  case (1 groups e)
  have "stash (sgr_color code c e) = stash e" for code c by (simp add: sgr_color_def)
  then show ?case using 1 by (subst sgr_loop.simps) (auto simp: Let_def split_beta split: option.split)
qed

lemma stash_sgr [simp]: "stash (apply_sgr groups e) = stash e"
  by (simp add: apply_sgr_def reset_sgr_def)

lemma stash_cursor [simp]:
  "stash (load_cursor s e) = stash e" "stash (save_cursor e) = stash e" "stash (restore_cursor e) = stash e" "stash (home e) = stash e"
  "stash (move_to x y e) = stash e" "stash (cursor_position ps e) = stash e" "stash (line_position ps e) = stash e"
  "stash (set_margins ps e) = stash e" "stash (respond bs e) = stash e" "stash (status_report m e) = stash e"
  "stash (window_report m e) = stash e" "stash (set_keyboard k e) = stash e" "stash (set_nested_input b e) = stash e"
  "stash (wrap_line y e) = stash e" "stash (index_down e) = stash e" "stash (join_wide t old x y e) = stash e"
  by (simp_all add: load_cursor_def save_cursor_def restore_cursor_def home_def move_to_def cursor_position_def line_position_def
      set_margins_def respond_def status_report_def window_report_def set_keyboard_def set_nested_input_def wrap_line_def index_down_def
      join_wide_def Let_def split: option.split)

lemma stash_join: "join_at T c x y e = Some f \<Longrightarrow> stash f = stash e"
  by (auto simp: join_at_def Let_def split: if_splits prod.splits)

lemma stash_print_glyph [simp]: "stash (print_glyph T i c e) = stash e"
  by (simp add: print_glyph_def Let_def split_beta)

lemma stash_print: "print_char T c e = Some f \<Longrightarrow> stash f = stash e"
  by (auto simp: print_char_def Let_def stash_join split: option.splits if_splits)

lemma stash_back_tabs: "back_tabs n e = Some f \<Longrightarrow> stash f = stash e"
  by (induction n arbitrary: e) (auto split: option.splits)

lemma stash_repeat: "repeat_opt n (print_char T c) e = Some f \<Longrightarrow> stash f = stash e"
proof (induction n arbitrary: e)
  case (Suc n)
  then obtain s where s: "print_char T c e = Some s" "repeat_opt n (print_char T c) s = Some f"
    by (auto simp: bind_eq_Some_conv)
  then show ?case using Suc.IH [OF s(2)] stash_print [OF s(1)] by simp
qed simp

text \<open>Leaving: nothing is stashed any more.\<close>

definition left :: "emu \<Rightarrow> emu \<Rightarrow> bool" where
  "left e f \<longleftrightarrow> alt_backup f = None \<or> stash f = stash e"

lemma left_exit: "left e (exit_alt e)"
proof (cases "alt_backup e")
  case (Some p)
  have "alt_backup (load_cursor s e1) = alt_backup e1" for s e1
    using stash_cursor(1) [of s e1] by (simp add: stash_def)
  then show ?thesis using Some by (simp add: left_def exit_alt_def Let_def split: option.split)
qed (simp add: left_def exit_alt_def)

lemma left_recover: "left e (recover_shell_screen e)"
proof -
  have "alt_backup (recover_shell_screen e) = alt_backup (exit_alt e)" "stash (recover_shell_screen e) = stash (exit_alt e)"
    by (simp_all add: recover_shell_screen_def Let_def set_nested_input_def)
  then show ?thesis using left_exit [of e] by (simp add: left_def)
qed

lemma modes_on_stash:
  assumes "alt_backup e \<noteq> None"
  shows "stash (fold (dec_mode True) ms e) = stash e"
proof -
  have "stash (dec_mode True m s) = stash s" if "alt_backup s \<noteq> None" for m s
    using that by (simp add: dec_mode_def set_private_mode_def enter_alt_def)
  moreover have "stash s = stash e \<Longrightarrow> alt_backup s \<noteq> None" for s using assms by (simp add: stash_def)
  ultimately show ?thesis using fold_inv [of "\<lambda>s. stash s = stash e" "dec_mode True" e ms] by simp
qed

lemma modes_off_left: "left e (fold (dec_mode False) ms e)"
proof (rule fold_inv [where I = "left e"])
  fix m s assume "left e s"
  moreover have "left s (dec_mode False m s)"
    using left_exit [of s] by (simp add: dec_mode_def set_private_mode_def left_def)
  ultimately show "left e (dec_mode False m s)" by (auto simp: left_def stash_def)
qed (simp add: left_def)

lemma ansi_modes_stash: "stash (fold (ansi_mode b) ms e) = stash e"
  using fold_inv [of "\<lambda>s. stash s = stash e" "ansi_mode b" e ms] by (simp add: ansi_mode_def)

lemma csi_left:
  assumes "csi_dispatch T ps im a e = Some f" and "alt_backup e \<noteq> None"
  shows "left e f"
proof -
  let ?P = "\<lambda>r. r = Some f \<longrightarrow> left e f"
  have some: "?P (Some s)" if "stash s = stash e" for s using that by (auto simp: left_def)
  have b: "?P (case last_char e of Some c \<Rightarrow> repeat_opt k (print_char T c) e | None \<Rightarrow> Some e)" for k
    by (auto simp: left_def dest: stash_repeat split: option.split)
  have z: "?P (map_option (\<lambda>s. s\<lparr>wrap_pending := False\<rparr>) (back_tabs k e))" for k
    by (auto simp: left_def dest: stash_back_tabs)
  have g: "?P (clear_tabs k e)" for k by (auto simp: left_def clear_tabs_def)
  have l: "?P (Some (fold (dec_mode False) ms e))" for ms using modes_off_left [of e ms] by auto
  have "?P (csi_dispatch T ps im a e)"
    unfolding csi_dispatch_def
    by (intro if_split [where P = ?P, THEN iffD2] conjI [of "_ \<longrightarrow> ?P _"] impI [of _ "?P _"] b z g l some)
      (simp_all add: modes_on_stash [OF assms(2)] ansi_modes_stash)
  then show ?thesis using assms(1) by blast
qed

lemma osc_left:
  assumes "osc_dispatch T ps e = Some f"
  shows "left e f"
proof -
  have r: "left e (recover_shell_screen e)" by (rule left_recover)
  have up: "left e s \<Longrightarrow> left e (s\<lparr>agent_events := x\<rparr>) \<and> left e (s\<lparr>prompt_marks := y\<rparr>)" for s x y by (auto simp: left_def)
  have same: "stash s = stash e \<Longrightarrow> left e s" for s by (simp add: left_def)
  have "left e (osc_agent T ps e)" using r up same by (simp add: osc_agent_def Let_def split: option.split)
  moreover have "left e (osc_prompt_mark ps e)" using r up same by (simp add: osc_prompt_mark_def Let_def)
  moreover have "osc_hyperlink ps e = Some f \<Longrightarrow> left e f" by (auto simp: osc_hyperlink_def left_def split: option.splits)
  moreover have "stash (osc_title ps e) = stash e" "stash (osc_cwd ps e) = stash e" "stash (osc_clipboard ps e) = stash e"
    "stash (osc_color_query ps e) = stash e"
    by (simp_all add: osc_title_def osc_cwd_def osc_clipboard_def osc_color_query_def Let_def split: option.split)
  ultimately show ?thesis using assms same unfolding osc_dispatch_def Let_def by (auto split: if_splits)
qed

lemma perform_left:
  assumes "perform T c e = Some f" and "alt_backup e \<noteq> None"
  shows "left e f"
proof (cases c)
  case (Execute b)
  then show ?thesis using assms by (auto simp: execute_def left_def split: if_splits)
next
  case (EscDispatch im b)
  then show ?thesis using assms by (auto simp: esc_dispatch_def left_def reset_terminal_def set_nested_input_def split: if_splits)
qed (use assms csi_left osc_left stash_print in \<open>auto simp: left_def\<close>)

fun on_alt :: "tables \<Rightarrow> callback list \<Rightarrow> emu \<Rightarrow> bool" where
  "on_alt T [] e = (alt_backup e \<noteq> None)"
| "on_alt T (c # cs) e = (alt_backup e \<noteq> None \<and> (case perform T c e of None \<Rightarrow> False | Some f \<Rightarrow> on_alt T cs f))"

lemma on_alt_run:
  assumes "on_alt T cs e" and "em_inv n e" and "n + length cs \<le> 2 ^ 32 - 1"
  shows "\<exists>f. perform_all T cs e = Some f \<and> stash f = stash e \<and> em_inv (n + length cs) f"
  using assms
proof (induction cs arbitrary: e n)
  case (Cons c cs)
  obtain f where f: "perform T c e = Some f" "on_alt T cs f" using Cons.prems(1) by (auto split: option.splits)
  have i: "em_inv (n + 1) f" using perform_inv [OF Cons.prems(2), of T c] Cons.prems(3) f(1) by auto
  have "alt_backup f \<noteq> None" using f(2) by (cases cs) auto
  then have "stash f = stash e" using perform_left [OF f(1)] Cons.prems(1) by (auto simp: left_def)
  then show ?case using Cons.IH [OF f(2) i] Cons.prems(3) f(1) by simp
qed simp

lemma perform_all_append: "perform_all T (xs @ ys) e = Option.bind (perform_all T xs e) (perform_all T ys)"
  by (induction xs arbitrary: e) (simp_all split: bind_split)

definition ENTER_ALT :: callback where
  "ENTER_ALT = CsiDispatch [[1049]] [63] (CHR ''h'')"

definition LEAVE_ALT :: callback where
  "LEAVE_ALT = CsiDispatch [[1049]] [63] (CHR ''l'')"

lemma alt_callbacks: "perform T ENTER_ALT e = Some (enter_alt e)" "perform T LEAVE_ALT e = Some (exit_alt e)"
  by (simp_all add: ENTER_ALT_def LEAVE_ALT_def csi_dispatch_def params_flat_def list_get_def dec_mode_def set_private_mode_def
      has_private_marker_def)

lemma enter_alt_stash:
  assumes "alt_backup e = None"
  shows "alt_backup (enter_alt e) = Some (em_grid e)" "alt_cursor (enter_alt e) = Some (current_cursor e)"
  using assms by (simp_all add: enter_alt_def Let_def current_cursor_def set_ucolor_def split_beta)

lemma exit_alt_restores:
  assumes "alt_backup f = Some g" and "alt_cursor f = Some s" and "good g" and "sc_x s < em_width f" and "sc_y s < em_height f"
  shows "same_looks (mark_all_damaged g) (em_grid (exit_alt f)) \<and> current_cursor (exit_alt f) = s \<and> alt_backup (exit_alt f) = None"
proof -
  obtain k h where k: "intern_underline_color (sc_ucolor s) (mark_all_damaged g) = (k, h)" by fastforce
  have "sane (mark_all_damaged g)" using good_marked [OF assms(3)] by (simp add: good_def)
  from intern_underline_color_ok [OF this k] have "same_looks (mark_all_damaged g) h" by simp
  then show ?thesis using assms k
    by (cases s) (simp add: exit_alt_def load_cursor_def set_ucolor_def Let_def current_cursor_def)
qed

text \<open>
  C6. A full-screen program leaves no trace: whatever it writes between entering the alternate
  screen and leaving it, as long as it does not leave it in between, every cell of the primary
  screen and its history looks as before, the cursor is where it was with its colours,
  attributes and pending wrap, and the whole screen is marked for repainting.
\<close>

theorem alternate_screen_restores:
  assumes "em_inv n e" and "alt_backup e = None" and "on_alt T cs (enter_alt e)" and "n + length cs \<le> 2 ^ 32 - 1"
  shows "\<exists>r. perform_all T (ENTER_ALT # cs @ [LEAVE_ALT]) e = Some r
    \<and> same_looks (mark_all_damaged (em_grid e)) (em_grid r) \<and> current_cursor r = current_cursor e \<and> alt_backup r = None"
proof -
  obtain f where f: "perform_all T cs (enter_alt e) = Some f" "stash f = stash (enter_alt e)" "em_inv (n + length cs) f"
    using on_alt_run [OF assms(3) enter_alt_inv [OF assms(1)] assms(4)] by blast
  have s: "alt_backup f = Some (em_grid e)" "alt_cursor f = Some (current_cursor e)"
    using f(2) enter_alt_stash [OF assms(2)] by (simp_all add: stash_def)
  have w: "sc_x (current_cursor e) < em_width f" "sc_y (current_cursor e) < em_height f"
    using f(3) s by (simp_all add: em_inv_defs)
  have "same_looks (mark_all_damaged (em_grid e)) (em_grid (exit_alt f)) \<and> current_cursor (exit_alt f) = current_cursor e
      \<and> alt_backup (exit_alt f) = None"
    by (rule exit_alt_restores [OF s em_invD(1) [OF assms(1)] w])
  then show ?thesis using f(1) by (simp add: alt_callbacks perform_all_append)
qed

theorem alternate_screen_restores_witness:
  "\<exists>r. perform_all \<lparr>str_width = length, char_width = (\<lambda>_. Some 1), grapheme_count = length, json_event = (\<lambda>_. None)\<rparr>
        [ENTER_ALT, Print 97, LEAVE_ALT] (terminal_new 5 2) = Some r
    \<and> same_looks (mark_all_damaged (em_grid (terminal_new 5 2))) (em_grid r) \<and> current_cursor r = current_cursor (terminal_new 5 2)
    \<and> alt_backup r = None"
proof -
  let ?T = "\<lparr>str_width = length, char_width = (\<lambda>_. Some 1), grapheme_count = length, json_event = (\<lambda>_. None)\<rparr> :: tables"
  have i: "em_inv 0 (terminal_new 5 2)" by (rule terminal_new_inv) simp
  have a: "alt_backup (terminal_new 5 2) = None" by (simp add: terminal_new_def)
  obtain f where f: "print_char ?T 97 (enter_alt (terminal_new 5 2)) = Some f" using print_char_ok [OF enter_alt_inv [OF i]] by blast
  have "alt_backup f \<noteq> None"
    using stash_print [OF f] enter_alt_stash [OF a] by (simp add: stash_def)
  then have "on_alt ?T [Print 97] (enter_alt (terminal_new 5 2))" using f enter_alt_stash [OF a] by simp
  from alternate_screen_restores [OF i a this] show ?thesis by simp
qed

section \<open>The keyboard stacks\<close>

text \<open>The saved flags, newest first.\<close>

definition km_saved :: "keyboard_mode \<Rightarrow> u16 list" where
  "km_saved k = rev (take (km_depth k) (km_stack k))"

lemma km_push_saved:
  assumes "km_wf k"
  shows "km_saved (km_push f k) = take 16 (km_flags k # km_saved k)"
proof (cases "km_depth k = 16")
  case True
  obtain a s where s: "km_stack k = a # s" "length s = 15" using assms by (cases "km_stack k") (auto simp: km_wf_def)
  have "take 16 ((s @ [x])[15 := km_flags k]) = s @ [km_flags k]" for x using s(2) by (simp add: list_update_append)
  then show ?thesis using True s assms by (simp add: km_saved_def km_push_def km_wf_def Let_def)
next
  case False
  then have d: "km_depth k < length (km_stack k)" using assms by (simp add: km_wf_def)
  then have "take (km_depth k + 1) ((km_stack k)[km_depth k := km_flags k]) = take (km_depth k) (km_stack k) @ [km_flags k]"
    by (simp add: take_Suc_conv_app_nth)
  then show ?thesis using False d assms by (simp add: km_saved_def km_push_def km_wf_def Let_def)
qed

lemma km_pop_saved:
  assumes "km_wf k" and "n \<le> km_depth k"
  shows "km_saved (km_pop n k) = drop n (km_saved k)" and "n \<noteq> 0 \<Longrightarrow> km_flags (km_pop n k) = km_saved k ! (n - 1)"
  using assms by (auto simp: km_saved_def km_pop_def km_wf_def drop_rev rev_nth min_def)

text \<open>
  The keyboard protocol's array with its depth is a stack of at most sixteen saved flags:
  pushing saves the current flags and drops the oldest beyond sixteen, popping gives the flags
  saved that many pushes ago, and popping more than there are resets to none.
\<close>

theorem keyboard_stack_refines:
  assumes "km_wf k"
  shows "km_wf (km_push f k) \<and> km_flags (km_push f k) = f AND 1 \<and> km_saved (km_push f k) = take 16 (km_flags k # km_saved k)
    \<and> km_wf (km_pop n k)
    \<and> (km_flags (km_pop n k), km_saved (km_pop n k)) =
        (if n > length (km_saved k) then (0, [])
         else if n = 0 then (km_flags k, km_saved k) else (km_saved k ! (n - 1), drop n (km_saved k)))"
proof -
  have l: "length (km_saved k) = km_depth k" using assms by (simp add: km_saved_def km_wf_def)
  have z: "n > km_depth k \<Longrightarrow> (km_flags (km_pop n k), km_saved (km_pop n k)) = (0, [])" by (simp add: km_pop_def km_saved_def)
  have e: "km_pop 0 k = k" by (simp add: km_pop_def)
  have f: "km_flags (km_push f k) = f AND 1" by (simp add: km_push_def Let_def)
  show ?thesis
    using km_wf_ops [OF assms] f km_push_saved [OF assms] z e km_pop_saved [OF assms, of n] unfolding l by simp
qed

theorem keyboard_stack_refines_witness:
  "km_saved (km_push 1 keyboard_default) = [0] \<and> km_flags (km_pop 1 (km_push 1 keyboard_default)) = 0"
proof -
  have w: "km_wf keyboard_default" by simp
  have s: "km_saved keyboard_default = []" "km_flags keyboard_default = 0" by (simp_all add: km_saved_def keyboard_default_def)
  note p = keyboard_stack_refines [OF w, of 1 0]
  from keyboard_stack_refines [of "km_push 1 keyboard_default" 0 1] p show ?thesis by (simp add: s)
qed

section \<open>Origin mode\<close>

text \<open>
  Row addressing in origin mode wraps: the largest row number puts the cursor two rows
  above the scroll region instead of on its last row.
\<close>

theorem origin_addressing_wraps:
  assumes "em_inv n e" and "em_height e < 65536" and "origin_mode e" and "2 \<le> scroll_top e"
  shows "\<exists>f. perform T (CsiDispatch [[65535]] [] (CHR ''H'')) e = Some f \<and> cy f = scroll_top e - 2"
proof -
  have t: "scroll_top e \<le> scroll_bottom e" "scroll_top e < 65536" using em_invD(8,9) [OF assms(1)] assms(2) by linarith+
  have a: "scroll_top e + 65535 = (scroll_top e - 1) + 65536" and b: "scroll_top e - 1 + 65536 - 1 = (scroll_top e - 2) + 65536"
    using assms(4) by simp_all
  have "wrap16 (scroll_top e + 65535) = scroll_top e - 1" unfolding wrap16_def a mod_add_self2 using t(2) by simp
  then have "sub16 (wrap16 (scroll_top e + 65535)) 1 = scroll_top e - 2"
    unfolding sub16_def wrap16_def using t(2) by (simp only: b mod_add_self2) simp
  then show ?thesis using assms(3) t(1)
    by (simp add: csi_dispatch_def cursor_position_def param_def first_of_def list_get_def move_to_def)
qed

theorem origin_addressing_wraps_witness:
  "\<exists>f. perform \<lparr>str_width = length, char_width = (\<lambda>_. Some 1), grapheme_count = length, json_event = (\<lambda>_. None)\<rparr>
      (CsiDispatch [[65535]] [] (CHR ''H'')) ((terminal_new 5 9)\<lparr>scroll_top := 3, scroll_bottom := 6, origin_mode := True\<rparr>) = Some f \<and> cy f = 1"
proof -
  let ?e = "(terminal_new 5 9)\<lparr>scroll_top := 3, scroll_bottom := 6, origin_mode := True\<rparr>"
  have "em_inv 0 (terminal_new 5 9)" by (rule terminal_new_inv) simp
  then have "em_inv 0 ((terminal_new 5 9)\<lparr>scroll_top := 3, scroll_bottom := 6\<rparr>)"
    by (rule em_inv_margins) (simp_all add: terminal_new_def)
  then have i: "em_inv 0 ?e" by simp
  have h: "em_height ?e < 65536" "origin_mode ?e" "2 \<le> scroll_top ?e" "scroll_top ?e - 2 = 1" by (simp_all add: terminal_new_def)
  from origin_addressing_wraps [OF i h(1-3)] h(4) show ?thesis by metis
qed

text \<open>
  A cursor restored above the scroll region while origin mode is on is reported at row
  65535: the report subtracts the top margin from a smaller row.
\<close>

theorem origin_report_wraps:
  "map_option responses (perform_all T
     [EscDispatch [] 55, CsiDispatch [[3], [8]] [] (CHR ''r''), CsiDispatch [[6]] [63] (CHR ''h''), EscDispatch [] 56,
      CsiDispatch [[6]] [] (CHR ''n'')] (terminal_new 10 10))
   = Some (ESC_CSI @ lit ''65535;1R'')"
  by code_simp

text \<open>
  A new history limit set while the alternate screen is shown is lost: it bounds the
  alternate screen, and the primary screen comes back with its old limit.
\<close>

theorem limit_lost_on_alternate:
  assumes "alt_backup e = None"
  shows "scrollback_limit (em_grid (exit_alt (em_set_scrollback_limit m (enter_alt e)))) = scrollback_limit (em_grid e)
    \<and> scrollback_limit (em_grid (em_set_scrollback_limit m (enter_alt e))) = m"
proof -
  let ?f = "em_set_scrollback_limit m (enter_alt e)"
  have s: "alt_backup ?f = Some (em_grid e)" "alt_cursor ?f = Some (current_cursor e)"
    using enter_alt_stash [OF assms] by (simp_all add: em_set_scrollback_limit_def)
  have "scrollback_limit (snd (intern_underline_color c g)) = scrollback_limit g" for c g
    by (rule intern_color_sel(3) [OF prod.collapse [symmetric]])
  then have "scrollback_limit (em_grid (exit_alt ?f)) = scrollback_limit (em_grid e)"
    using s by (simp add: exit_alt_def load_cursor_def set_ucolor_def split_beta Let_def)
  then show ?thesis by (simp add: em_set_scrollback_limit_def set_scrollback_limit_def)
qed

theorem limit_lost_on_alternate_witness:
  "scrollback_limit (em_grid (exit_alt (em_set_scrollback_limit 100 (enter_alt (terminal_new 5 2))))) = 10000"
proof -
  have "alt_backup (terminal_new 5 2) = None" "scrollback_limit (em_grid (terminal_new 5 2)) = 10000"
    by (simp_all add: terminal_new_def grid_new_def)
  with limit_lost_on_alternate [of "terminal_new 5 2" 100] show ?thesis by simp
qed

end
