(* ===== verification/Renderer.thy ===== *)
theory Renderer
  imports Terminal_Safe
begin

text \<open>
  The damage-tracked renderer, \<^verbatim>\<open>crates/uniterm-server/src/renderer.rs\<close>: it paints the cells of
  a grid on a client's terminal through cached cursor, style and link. The sequences it writes
  are tokens (\<open>tty\<close>) whose bytes \<open>tty_bytes\<close> gives. \<open>host\<close> is the abstract terminal that the client
  attaches with: what each cell shows, the cursor, the style and the open link, and what each
  token does to them; its colours and attributes are set by the emulator's own reading of the
  sequence. Painting makes the host show the grid and touches no other cell, and after any
  edits the damaged cells are enough.
\<close>

section \<open>Tokens\<close>

type_synonym style = "color \<times> color \<times> attrs \<times> color"

datatype tty =
    Cup nat nat
  | Sgr "nat list list"
  | TtyText str
  | OpenLink str
  | CloseLink
  | Ech nat
  | ScrollRegion nat nat nat
  | EraseDisplay

definition sgr_group_bytes :: "nat list \<Rightarrow> byte list" where
  "sgr_group_bytes ns = join_with 58 (map dec ns)"

fun tty_bytes :: "tty \<Rightarrow> byte list" where
  "tty_bytes (Cup x y) = ESC_CSI @ dec (y + 1) @ lit '';'' @ dec (x + 1) @ lit ''H''"
| "tty_bytes (Sgr gs) = ESC_CSI @ join_with 59 (map sgr_group_bytes gs) @ lit ''m''"
| "tty_bytes (TtyText t) = as_bytes t"
| "tty_bytes (OpenLink u) = [0x1B] @ lit '']8;;'' @ as_bytes u @ [0x1B, 0x5C]"
| "tty_bytes CloseLink = [0x1B] @ lit '']8;;'' @ [0x1B, 0x5C]"
| "tty_bytes (Ech n) = ESC_CSI @ dec n @ lit ''X''"
| "tty_bytes (ScrollRegion i j n) =
     ESC_CSI @ dec (i + 1) @ lit '';'' @ dec j @ lit ''r'' @ ESC_CSI @ dec n @ lit ''S'' @ ESC_CSI @ lit ''r''"
| "tty_bytes EraseDisplay = ESC_CSI @ lit ''2J''"

section \<open>The renderer\<close>

record renderer =
  r_style :: "style option"
  r_link :: "str option"
  r_cursor :: "(nat \<times> nat) option"
  r_dim :: bool

definition renderer_new :: renderer where
  "renderer_new = \<lparr>r_style = None, r_link = None, r_cursor = None, r_dim = False\<rparr>"

definition invalidate :: "renderer \<Rightarrow> renderer" where
  "invalidate r = r\<lparr>r_style := None, r_link := None, r_cursor := None\<rparr>"

definition set_dim :: "bool \<Rightarrow> renderer \<Rightarrow> renderer" where
  "set_dim d r = (if r_dim r \<noteq> d then r\<lparr>r_dim := d, r_style := None\<rparr> else r)"

definition color_groups :: "nat \<Rightarrow> color \<Rightarrow> nat list list" where
  "color_groups k c =
     (case c of ColorDefault \<Rightarrow> [] | Idx n \<Rightarrow> [[k], [5], [n]] | Rgb r g b \<Rightarrow> [[k], [2], [r], [g], [b]])"

definition underline_groups :: "underline_style \<Rightarrow> nat list list" where
  "underline_groups u =
     (case u of UlNone \<Rightarrow> [] | UlSingle \<Rightarrow> [[4]] | UlDouble \<Rightarrow> [[4, 2]] | UlCurly \<Rightarrow> [[4, 3]] | UlDotted \<Rightarrow> [[4, 4]] | UlDashed \<Rightarrow> [[4, 5]])"

definition flag_group :: "attrs \<Rightarrow> attrs \<Rightarrow> nat \<Rightarrow> nat list list" where
  "flag_group a m code = (if a AND m \<noteq> 0 then [[code]] else [])"

definition emit_sgr :: "bool \<Rightarrow> style \<Rightarrow> nat list list" where
  "emit_sgr dim st =
     (case st of (f, b, a, u) \<Rightarrow>
        [[0]] @ (if dim then [[2]] else [])
        @ flag_group a ATTR_BOLD 1 @ flag_group a ATTR_DIM 2 @ flag_group a ATTR_ITALIC 3
        @ underline_groups (attrs_underline_style a)
        @ flag_group a ATTR_BLINK 5 @ flag_group a ATTR_REVERSE 7 @ flag_group a ATTR_INVISIBLE 8 @ flag_group a ATTR_STRIKE 9
        @ color_groups 38 f @ color_groups 48 b @ color_groups 58 u)"

definition close_hyperlink :: "renderer \<Rightarrow> tty list \<times> renderer" where
  "close_hyperlink r = (case r_link r of Some _ \<Rightarrow> ([CloseLink], r\<lparr>r_link := None\<rparr>) | None \<Rightarrow> ([], r))"

definition set_hyperlink :: "str option \<Rightarrow> renderer \<Rightarrow> tty list \<times> renderer" where
  "set_hyperlink target r =
     (if r_link r = target then ([], r)
      else
        (let (out, r1) = close_hyperlink r
         in case target of
              Some u \<Rightarrow> (out @ [OpenLink u], r1\<lparr>r_link := Some u\<rparr>)
            | None \<Rightarrow> (out, r1)))"

definition set_style :: "style \<Rightarrow> renderer \<Rightarrow> tty list \<times> renderer" where
  "set_style st r = (if r_style r \<noteq> Some st then ([Sgr (emit_sgr (r_dim r) st)], r\<lparr>r_style := Some st\<rparr>) else ([], r))"

definition move_cursor :: "nat \<Rightarrow> nat \<Rightarrow> renderer \<Rightarrow> tty list \<times> renderer" where
  "move_cursor x y r = (if r_cursor r = Some (x, y) then ([], r) else ([Cup x y], r\<lparr>r_cursor := Some (x, y)\<rparr>))"

text \<open>The text that \<^verbatim>\<open>write_cell_display_text\<close> encodes.\<close>

definition display_text :: "tables \<Rightarrow> grid \<Rightarrow> cell \<Rightarrow> str" where
  "display_text T g c =
     (if is_continuation c then []
      else if cluster c \<noteq> 0 then
        (let t = (case list_get (clusters g) (cluster c) of Some t \<Rightarrow> t | None \<Rightarrow> [REPLACEMENT])
         in if width c = 1 \<and> str_width T t > 1 then [REPLACEMENT] else t)
      else if width c = 1 \<and> (case char_width T (ch c) of Some w \<Rightarrow> w | None \<Rightarrow> 0) > 1 then [REPLACEMENT]
      else [ch c])"

lemma display_text_bytes: "as_bytes (display_text T g c) = write_cell_display_text (str_width T) (char_width T) g c"
  by (auto simp: display_text_def write_cell_display_text_def as_bytes_def Let_def split: option.split)

definition cell_style :: "grid \<Rightarrow> cell \<Rightarrow> style" where
  "cell_style g c = (fg c, bg c, attrs c, underline_color (underline_colors g) (ucolor c))"

definition emit_cell :: "tables \<Rightarrow> grid \<Rightarrow> cell \<Rightarrow> renderer \<Rightarrow> tty list \<times> renderer" where
  "emit_cell T g c r =
     (let (o1, r1) = set_hyperlink (hyperlink (hyperlinks g) (link c)) r;
          (o2, r2) = set_style (cell_style g c) r1
      in (o1 @ o2 @ [TtyText (display_text T g c)], r2))"

function emit_row :: "tables \<Rightarrow> grid \<Rightarrow> nat \<Rightarrow> nat \<Rightarrow> nat \<Rightarrow> renderer \<Rightarrow> tty list \<times> nat \<times> renderer" where
  "emit_row T g y x stop r =
     (if x < stop then
        (let c = gget x y g
         in if is_continuation c then emit_row T g y (x + 1) stop r
            else
              (let (o1, r1) = emit_cell T g c r;
                   (o2, x2, r2) = emit_row T g y (x + display_width c) stop r1
               in (o1 @ o2, x2, r2)))
      else ([], x, r))"
  by pat_completeness auto

termination emit_row
  by (relation "measure (\<lambda>(T, g, y, x, stop, r). stop - x)") (auto simp: display_width_def)

declare emit_row.simps [simp del]

text \<open>The end of the text: default cells at the end of the run are not text.\<close>

fun text_end :: "grid \<Rightarrow> nat \<Rightarrow> nat \<Rightarrow> nat \<Rightarrow> nat" where
  "text_end g y i 0 = 0"
| "text_end g y i (Suc x) = (if Suc x > i \<and> gget x y g = cell_default then text_end g y i x else Suc x)"

definition run_end :: "grid \<Rightarrow> nat \<Rightarrow> nat \<Rightarrow> nat \<Rightarrow> nat" where
  "run_end g y i j = (let t = text_end g y i (j + 1) in if j + 1 - t < 8 then j + 1 else t)"

definition render_row :: "tables \<Rightarrow> grid \<Rightarrow> nat \<Rightarrow> nat \<Rightarrow> nat \<Rightarrow> nat \<times> nat \<Rightarrow> renderer \<Rightarrow> tty list \<times> renderer" where
  "render_row T g y i j off r =
     (let stop = run_end g y i j;
          (o1, r1) = move_cursor (fst off + i) (snd off + y) r;
          (o2, x, r2) = emit_row T g y i stop r1;
          r3 = r2\<lparr>r_cursor := Some (fst off + x, snd off + y)\<rparr>
      in if stop \<le> j then
           (let (o3, r4) = close_hyperlink r3;
                (o4, r5) = set_style (ColorDefault, ColorDefault, 0, ColorDefault) r4
            in (o1 @ o2 @ o3 @ o4 @ [Ech (j + 1 - stop)], r5))
         else (o1 @ o2, r3))"

definition expanded_damage :: "grid \<Rightarrow> nat \<Rightarrow> nat \<Rightarrow> nat \<Rightarrow> nat \<times> nat" where
  "expanded_damage g y i j =
     (let i1 = (if is_continuation (gget i y g) \<and> i > 0 then i - 1 else i);
          c = gget j y g;
          j1 = (if \<not> is_continuation c \<and> width c = 2 \<and> j + 1 < gw g then j + 1 else j)
      in (i1, j1))"

fun each_row :: "(nat \<Rightarrow> renderer \<Rightarrow> tty list \<times> renderer) \<Rightarrow> nat list \<Rightarrow> renderer \<Rightarrow> tty list \<times> renderer" where
  "each_row f [] r = ([], r)"
| "each_row f (y # ys) r = (let (o1, r1) = f y r; (o2, r2) = each_row f ys r1 in (o1 @ o2, r2))"

definition and_close :: "tty list \<times> renderer \<Rightarrow> tty list \<times> renderer" where
  "and_close p = (let (o1, r1) = p; (o2, r2) = close_hyperlink r1 in (o1 @ o2, r2))"

definition damage_row :: "tables \<Rightarrow> grid \<Rightarrow> nat \<times> nat \<Rightarrow> nat \<Rightarrow> renderer \<Rightarrow> tty list \<times> renderer" where
  "damage_row T g off y r =
     (case row_damage_at y g of
        None \<Rightarrow> ([], r)
      | Some (i, j) \<Rightarrow> (case expanded_damage g y i j of (i1, j1) \<Rightarrow> render_row T g y i1 j1 off r))"

definition render_pane_damage_precise :: "tables \<Rightarrow> grid \<Rightarrow> nat \<times> nat \<Rightarrow> renderer \<Rightarrow> tty list \<times> renderer" where
  "render_pane_damage_precise T g off r = and_close (each_row (damage_row T g off) [0..<gh g] r)"

definition full_row :: "tables \<Rightarrow> grid \<Rightarrow> nat \<times> nat \<Rightarrow> nat \<Rightarrow> renderer \<Rightarrow> tty list \<times> renderer" where
  "full_row T g off y r = (if gw g \<noteq> 0 then render_row T g y 0 (gw g - 1) off r else ([], r))"

definition render_pane_full :: "tables \<Rightarrow> grid \<Rightarrow> nat \<times> nat \<Rightarrow> renderer \<Rightarrow> tty list \<times> renderer" where
  "render_pane_full T g off r = and_close (each_row (full_row T g off) [0..<gh g] r)"

definition render_pane_damage :: "tables \<Rightarrow> grid \<Rightarrow> nat \<times> nat \<Rightarrow> renderer \<Rightarrow> tty list \<times> renderer" where
  "render_pane_damage T g off r =
     (if \<not> any_damage g then ([], r)
      else if pending_scroll_up g \<noteq> 0 then render_pane_full T g off r
      else render_pane_damage_precise T g off r)"

definition render :: "tables \<Rightarrow> grid \<Rightarrow> renderer \<Rightarrow> tty list \<times> renderer" where
  "render T g r =
     (if \<not> any_damage g then ([], r)
      else if pending_scroll_up g \<noteq> 0 then render_pane_full T g (0, 0) r
      else render_pane_damage_precise T g (0, 0) r)"

definition render_pane_damage_with_scroll :: "tables \<Rightarrow> grid \<Rightarrow> nat \<times> nat \<Rightarrow> renderer \<Rightarrow> tty list \<times> renderer" where
  "render_pane_damage_with_scroll T g off r =
     (if \<not> any_damage g then ([], r)
      else
        (let scroll = pending_scroll_up g;
             (o1, r1) =
               (if scroll \<noteq> 0
                then (let (o0, r0) = close_hyperlink r
                      in (o0 @ [ScrollRegion (snd off) (snd off + gh g) scroll], r0\<lparr>r_cursor := None\<rparr>))
                else ([], r));
             (o2, r2) = render_pane_damage_precise T g off r1
         in (o1 @ o2, r2)))"

definition place_cursor :: "nat \<Rightarrow> nat \<Rightarrow> renderer \<Rightarrow> tty list \<times> renderer" where
  "place_cursor x y r = move_cursor x y r"

definition render_full :: "tables \<Rightarrow> grid \<Rightarrow> renderer \<Rightarrow> tty list \<times> renderer" where
  "render_full T g r = (let (o1, r1) = render_pane_full T g (0, 0) (invalidate r) in (EraseDisplay # o1, r1))"

section \<open>Styles survive their sequence\<close>

definition color_ok :: "color \<Rightarrow> bool" where
  "color_ok c = (case c of ColorDefault \<Rightarrow> True | Idx n \<Rightarrow> n < 256 | Rgb r g b \<Rightarrow> r < 256 \<and> g < 256 \<and> b < 256)"

text \<open>Attributes as the terminal makes them: the eight flags and one of the underline styles.\<close>

definition attrs_ok :: "attrs \<Rightarrow> bool" where
  "attrs_ok a \<longleftrightarrow> a AND 0x3FF = a \<and> set_underline_style (attrs_underline_style a) a = a"

lemma sgr_single:
  assumes "k \<noteq> 38" and "k \<noteq> 48" and "k \<noteq> 58"
  shows "sgr_loop ((k # ks) # rest) e = sgr_loop rest (sgr_code (k # ks) k e)"
  by (subst sgr_loop.simps) (simp add: assms list_get_def)

lemma sgr_flag:
  assumes "k \<noteq> 38" and "k \<noteq> 48" and "k \<noteq> 58"
  shows "sgr_loop (flag_group a m k @ rest) e = sgr_loop rest (if a AND m \<noteq> 0 then sgr_code [k] k e else e)"
  by (simp add: flag_group_def sgr_single [OF assms])

lemma sgr_colors:
  assumes "k = 38 \<or> k = 48 \<or> k = 58" and "color_ok c"
  shows "sgr_loop (color_groups k c @ rest) e = sgr_loop rest (if c = ColorDefault then e else sgr_color k c e)"
proof (cases c)
  case (Idx n)
  then have "parse_extended_color ([k] # [5] # [n] # rest) = (Some (Idx n), 3)"
    using assms(2) by (simp add: parse_extended_color_def first_of_def list_get_def as_u8_def color_ok_def)
  then show ?thesis using Idx assms(1) by (subst sgr_loop.simps) (auto simp: color_groups_def list_get_def)
next
  case (Rgb r g b)
  then have "parse_extended_color ([k] # [2] # [r] # [g] # [b] # rest) = (Some (Rgb r g b), 5)"
    using assms(2) by (simp add: parse_extended_color_def first_of_def list_get_def as_u8_def color_ok_def)
  then show ?thesis using Rgb assms(1) by (subst sgr_loop.simps) (auto simp: color_groups_def list_get_def)
qed (simp add: color_groups_def)

lemma sgr_underlines:
  "sgr_loop (underline_groups u @ rest) e = sgr_loop rest (if u = UlNone then e else e\<lparr>em_attrs := set_underline_style u (em_attrs e)\<rparr>)"
  by (cases u) (simp_all add: underline_groups_def sgr_single sgr_code_def list_get_def sgr_underline_style_def)

lemma sgr_code_flags:
  "sgr_code [1] 1 e = attr_on ATTR_BOLD e" "sgr_code [2] 2 e = attr_on ATTR_DIM e" "sgr_code [3] 3 e = attr_on ATTR_ITALIC e"
  "sgr_code [5] 5 e = attr_on ATTR_BLINK e" "sgr_code [7] 7 e = attr_on ATTR_REVERSE e" "sgr_code [8] 8 e = attr_on ATTR_INVISIBLE e"
  "sgr_code [9] 9 e = attr_on ATTR_STRIKE e" "sgr_code [0] 0 e = reset_sgr e"
  by (simp_all add: sgr_code_def)

lemma and_flag: "(if a AND push_bit k 1 \<noteq> 0 then push_bit k 1 else 0) = a AND (push_bit k 1 :: attrs)"
proof (cases "bit a k")
  case True
  then have "a AND push_bit k 1 = push_bit k 1" by (intro bit_word_eqI) (auto simp: bit_simps)
  then show ?thesis by simp
next
  case False
  then have "a AND push_bit k 1 = 0" by (intro bit_word_eqI) (auto simp: bit_simps)
  then show ?thesis by simp
qed

definition style_emu :: "emu \<Rightarrow> style" where
  "style_emu e = (em_fg e, em_bg e, em_attrs e, em_ucolor e)"

lemma style_parts [simp]:
  "em_attrs (attr_on m e) = em_attrs e OR m" "em_fg (attr_on m e) = em_fg e" "em_bg (attr_on m e) = em_bg e" "em_ucolor (attr_on m e) = em_ucolor e"
  "em_attrs (sgr_color k c e) = em_attrs e"
  "em_fg (sgr_color k c e) = (if k = 38 then c else em_fg e)"
  "em_bg (sgr_color k c e) = (if k = 48 then c else em_bg e)"
  "em_ucolor (sgr_color k c e) = (if k = 38 \<or> k = 48 then em_ucolor e else c)"
  by (simp_all add: attr_on_def sgr_color_def set_ucolor_def split_beta)

definition FLAGS :: attrs where
  "FLAGS = ATTR_BOLD OR ATTR_DIM OR ATTR_ITALIC OR ATTR_BLINK OR ATTR_REVERSE OR ATTR_INVISIBLE OR ATTR_STRIKE"

lemma set_underline_split: "set_underline_style u x = (x AND NOT UNDERLINE_STYLE_MASK) OR set_underline_style u 0"
  by (simp add: set_underline_style_def Let_def ac_simps)

lemma flags_masked: "FLAGS AND NOT UNDERLINE_STYLE_MASK = FLAGS" "FLAGS = 0x3FF AND NOT UNDERLINE_STYLE_MASK"
  unfolding FLAGS_def UNDERLINE_STYLE_MASK_def ATTR_BOLD_def ATTR_DIM_def ATTR_ITALIC_def ATTR_BLINK_def ATTR_REVERSE_def
    ATTR_INVISIBLE_def ATTR_STRIKE_def by code_simp+

lemma attrs_rebuilt:
  assumes "attrs_ok a"
  shows "(a AND FLAGS) OR set_underline_style (attrs_underline_style a) 0 = a"
proof -
  have "a AND FLAGS = (a AND 0x3FF) AND NOT UNDERLINE_STYLE_MASK" by (simp only: flags_masked(2) and.assoc)
  also have "\<dots> = a AND NOT UNDERLINE_STYLE_MASK" using assms by (simp add: attrs_ok_def)
  finally show ?thesis using assms set_underline_split [of "attrs_underline_style a" a] by (simp add: attrs_ok_def)
qed

lemma underline_keeps_flags:
  assumes "x AND FLAGS = x"
  shows "(if u = UlNone then x else set_underline_style u x) = x OR set_underline_style u 0"
proof -
  have "x AND NOT UNDERLINE_STYLE_MASK = (x AND FLAGS) AND NOT UNDERLINE_STYLE_MASK" by (simp only: assms)
  also have "\<dots> = x AND (FLAGS AND NOT UNDERLINE_STYLE_MASK)" by (rule and.assoc)
  also have "\<dots> = x" by (simp only: flags_masked(1) assms)
  finally have "set_underline_style u x = x OR set_underline_style u 0" using set_underline_split [of u x] by simp
  moreover have "set_underline_style UlNone 0 = 0" by (simp add: set_underline_style_def)
  ultimately show ?thesis by auto
qed

definition dim_bit :: "bool \<Rightarrow> attrs" where
  "dim_bit d = (if d then ATTR_DIM else 0)"

text \<open>Setting one flag of \<open>a\<close> on the emulator.\<close>

definition add_flag :: "attrs \<Rightarrow> attrs \<Rightarrow> emu \<Rightarrow> emu" where
  "add_flag a m e = (if a AND m \<noteq> 0 then attr_on m e else e)"

lemma add_flag_free [simp]:
  "em_fg (add_flag a m e) = em_fg e" "em_bg (add_flag a m e) = em_bg e" "em_ucolor (add_flag a m e) = em_ucolor e"
  by (simp_all add: add_flag_def)

lemma add_flag_bit: "em_attrs (add_flag a (push_bit k 1) e) = em_attrs e OR (a AND push_bit k 1)"
  using and_flag [of a k] by (simp add: add_flag_def split: if_splits)

lemma add_flags [simp]:
  "em_attrs (add_flag a ATTR_BOLD e) = em_attrs e OR (a AND ATTR_BOLD)"
  "em_attrs (add_flag a ATTR_DIM e) = em_attrs e OR (a AND ATTR_DIM)"
  "em_attrs (add_flag a ATTR_ITALIC e) = em_attrs e OR (a AND ATTR_ITALIC)"
  "em_attrs (add_flag a ATTR_BLINK e) = em_attrs e OR (a AND ATTR_BLINK)"
  "em_attrs (add_flag a ATTR_REVERSE e) = em_attrs e OR (a AND ATTR_REVERSE)"
  "em_attrs (add_flag a ATTR_INVISIBLE e) = em_attrs e OR (a AND ATTR_INVISIBLE)"
  "em_attrs (add_flag a ATTR_STRIKE e) = em_attrs e OR (a AND ATTR_STRIKE)"
  unfolding ATTR_BOLD_def ATTR_DIM_def ATTR_ITALIC_def ATTR_BLINK_def ATTR_REVERSE_def ATTR_INVISIBLE_def ATTR_STRIKE_def
  by (rule add_flag_bit)+

lemma sgr_add_flag:
  "sgr_loop (flag_group a ATTR_BOLD 1 @ rest) e = sgr_loop rest (add_flag a ATTR_BOLD e)"
  "sgr_loop (flag_group a ATTR_DIM 2 @ rest) e = sgr_loop rest (add_flag a ATTR_DIM e)"
  "sgr_loop (flag_group a ATTR_ITALIC 3 @ rest) e = sgr_loop rest (add_flag a ATTR_ITALIC e)"
  "sgr_loop (flag_group a ATTR_BLINK 5 @ rest) e = sgr_loop rest (add_flag a ATTR_BLINK e)"
  "sgr_loop (flag_group a ATTR_REVERSE 7 @ rest) e = sgr_loop rest (add_flag a ATTR_REVERSE e)"
  "sgr_loop (flag_group a ATTR_INVISIBLE 8 @ rest) e = sgr_loop rest (add_flag a ATTR_INVISIBLE e)"
  "sgr_loop (flag_group a ATTR_STRIKE 9 @ rest) e = sgr_loop rest (add_flag a ATTR_STRIKE e)"
  by (simp_all del: One_nat_def add: add_flag_def sgr_flag sgr_code_flags)

definition add_underline :: "underline_style \<Rightarrow> emu \<Rightarrow> emu" where
  "add_underline u e = (if u = UlNone then e else e\<lparr>em_attrs := set_underline_style u (em_attrs e)\<rparr>)"

definition add_color :: "nat \<Rightarrow> color \<Rightarrow> emu \<Rightarrow> emu" where
  "add_color k c e = (if c = ColorDefault then e else sgr_color k c e)"

lemma add_rest [simp]:
  "em_fg (add_underline u e) = em_fg e" "em_bg (add_underline u e) = em_bg e" "em_ucolor (add_underline u e) = em_ucolor e"
  "em_attrs (add_color k c e) = em_attrs e"
  by (simp_all add: add_underline_def add_color_def)

lemma sgr_nil [simp]: "sgr_loop [] e = e"
  by (simp add: sgr_loop.simps)

lemma emit_sgr_loop:
  assumes "color_ok f" and "color_ok b" and "color_ok u"
  shows "apply_sgr (emit_sgr d (f, b, a, u)) e =
    add_color 58 u (add_color 48 b (add_color 38 f (add_flag a ATTR_STRIKE (add_flag a ATTR_INVISIBLE (add_flag a ATTR_REVERSE
      (add_flag a ATTR_BLINK (add_underline (attrs_underline_style a) (add_flag a ATTR_ITALIC (add_flag a ATTR_DIM (add_flag a ATTR_BOLD
        (if d then attr_on ATTR_DIM (reset_sgr e) else reset_sgr e)))))))))))"
proof -
  note c = sgr_colors [of 38 f, OF _ assms(1)] sgr_colors [of 48 b, OF _ assms(2)] sgr_colors [of 58 u "[]", OF _ assms(3)]
  have d: "sgr_loop ([[0]] @ (if d then [[2]] else []) @ rest) e = sgr_loop rest (if d then attr_on ATTR_DIM (reset_sgr e) else reset_sgr e)" for rest
    by (simp add: sgr_single sgr_code_flags)
  show ?thesis
    unfolding apply_sgr_def emit_sgr_def split_conv d sgr_add_flag sgr_underlines add_underline_def add_color_def
    using c by (simp del: One_nat_def add: sgr_add_flag sgr_underlines)
qed

lemma style_read_back:
  assumes "color_ok f" and "color_ok b" and "color_ok u" and "attrs_ok a"
  shows "style_emu (apply_sgr (emit_sgr d (f, b, a, u)) e) = (f, b, a OR dim_bit d, u)"
proof -
  let ?x = "dim_bit d OR (a AND ATTR_BOLD) OR (a AND ATTR_DIM) OR (a AND ATTR_ITALIC)"
  let ?s = "set_underline_style (attrs_underline_style a) 0"
  have x: "?x AND FLAGS = ?x"
    by (rule bit_word_eqI) (auto simp: bit_simps dim_bit_def FLAGS_def)
  have z: "em_attrs (reset_sgr e) = 0" "em_fg (reset_sgr e) = ColorDefault" "em_bg (reset_sgr e) = ColorDefault"
    "em_ucolor (reset_sgr e) = ColorDefault" by (simp_all add: reset_sgr_def)
  have "((?x OR ?s) OR (a AND ATTR_BLINK) OR (a AND ATTR_REVERSE) OR (a AND ATTR_INVISIBLE) OR (a AND ATTR_STRIKE))
      = dim_bit d OR ((a AND FLAGS) OR ?s)"
    by (simp add: FLAGS_def bit.conj_disj_distrib ac_simps)
  then have final: "((((?x OR ?s) OR (a AND ATTR_BLINK)) OR (a AND ATTR_REVERSE)) OR (a AND ATTR_INVISIBLE)) OR (a AND ATTR_STRIKE)
      = a OR dim_bit d"
    unfolding attrs_rebuilt [OF assms(4)] by (simp add: ac_simps)
  let ?d = "if d then attr_on ATTR_DIM (reset_sgr e) else reset_sgr e"
  have d: "em_attrs ?d = dim_bit d" "em_fg ?d = ColorDefault" "em_bg ?d = ColorDefault" "em_ucolor ?d = ColorDefault"
    using z by (simp_all add: dim_bit_def)
  have u: "em_attrs (add_underline (attrs_underline_style a) (add_flag a ATTR_ITALIC (add_flag a ATTR_DIM (add_flag a ATTR_BOLD ?d)))) = ?x OR ?s"
    using underline_keeps_flags [OF x, of "attrs_underline_style a"] unfolding add_underline_def
    by (simp add: d or.assoc split: if_splits)
  show ?thesis
    unfolding style_emu_def emit_sgr_loop [OF assms(1-3)] using final
    by (simp add: u d add_color_def or.assoc)
qed

text \<open>
  The sequence that the renderer writes for a style is read back by the emulator as that
  style: both colours, the underline colour and every attribute, with the faint attribute added
  for a dimmed pane, whatever the style was before.
\<close>

theorem style_round_trip:
  assumes "color_ok f" and "color_ok b" and "color_ok u" and "attrs_ok a"
  shows "style_emu (apply_sgr (emit_sgr d (f, b, a, u)) e) = (f, b, a OR dim_bit d, u)"
  by (rule style_read_back [OF assms])

theorem style_round_trip_witness:
  "style_emu (apply_sgr (emit_sgr True (Idx 7, Rgb 1 2 3, ATTR_BOLD, ColorDefault)) (terminal_new 2 2))
     = (Idx 7, Rgb 1 2 3, ATTR_BOLD OR dim_bit True, ColorDefault)"
proof -
  have "attrs_ok ATTR_BOLD" unfolding attrs_ok_def ATTR_BOLD_def by code_simp
  then show ?thesis by (intro style_round_trip) (simp_all add: color_ok_def)
qed

section \<open>The host terminal\<close>

type_synonym shown_cell = "str \<times> style \<times> nat \<times> str option"

abbreviation shown_width :: "shown_cell \<Rightarrow> nat" where
  "shown_width c \<equiv> fst (snd (snd c))"

definition plain_style :: style where
  "plain_style = (ColorDefault, ColorDefault, 0, ColorDefault)"

text \<open>The right half of a wide glyph, and what is left of a glyph of which one half was overwritten.\<close>

definition half_cell :: shown_cell where
  "half_cell = ([], plain_style, 0, None)"

definition broken_cell :: shown_cell where
  "broken_cell = ([], plain_style, 1, None)"

definition blank_shown :: "style \<Rightarrow> shown_cell" where
  "blank_shown st = ([32], st, 1, None)"

record host =
  h_w :: nat
  h_h :: nat
  shown :: "nat \<Rightarrow> nat \<Rightarrow> shown_cell"
  h_cursor :: "(nat \<times> nat) option"
  h_style :: style
  h_link :: "str option"

text \<open>Writing \<open>m\<close> cells from column \<open>x\<close> of a row breaks the glyphs that it cuts in half.\<close>

definition overwrite :: "nat \<Rightarrow> nat \<Rightarrow> (nat \<Rightarrow> shown_cell) \<Rightarrow> (nat \<Rightarrow> shown_cell) \<Rightarrow> nat \<Rightarrow> shown_cell" where
  "overwrite x m f s c =
     (if x \<le> c \<and> c < x + m then f c
      else if c + 1 = x \<and> shown_width (s x) = 0 then broken_cell
      else if c = x + m \<and> shown_width (s (x + m - 1)) = 2 then broken_cell
      else s c)"

definition write_row :: "nat \<Rightarrow> nat \<Rightarrow> nat \<Rightarrow> (nat \<Rightarrow> shown_cell) \<Rightarrow> host \<Rightarrow> host" where
  "write_row x y m f H = H\<lparr>shown := (\<lambda>c r. if r = y then overwrite x m f (\<lambda>c. shown H c y) c else shown H c r)\<rparr>"

definition style_after :: "nat list list \<Rightarrow> style \<Rightarrow> style" where
  "style_after gs st =
     (case st of (f, b, a, u) \<Rightarrow> style_emu (apply_sgr gs ((terminal_new 2 2)\<lparr>em_fg := f, em_bg := b, em_attrs := a, em_ucolor := u\<rparr>)))"

text \<open>What a sequence does; \<open>None\<close> where that would depend on the terminal (writing past the right margin, leaving the screen).\<close>

fun host_step :: "tables \<Rightarrow> tty \<Rightarrow> host \<Rightarrow> host option" where
  "host_step T (Cup x y) H = (if x < h_w H \<and> y < h_h H then Some (H\<lparr>h_cursor := Some (x, y)\<rparr>) else None)"
| "host_step T (Sgr gs) H = Some (H\<lparr>h_style := style_after gs (h_style H)\<rparr>)"
| "host_step T (TtyText t) H =
     (case h_cursor H of
        None \<Rightarrow> None
      | Some (x, y) \<Rightarrow>
          (let k = max 1 (min 2 (str_width T t))
           in if x + k \<le> h_w H
              then Some ((write_row x y k (\<lambda>c. if c = x then (t, h_style H, k, h_link H) else half_cell) H)\<lparr>h_cursor := Some (x + k, y)\<rparr>)
              else None))"
| "host_step T (OpenLink u) H = Some (H\<lparr>h_link := Some u\<rparr>)"
| "host_step T CloseLink H = Some (H\<lparr>h_link := None\<rparr>)"
| "host_step T (Ech n) H =
     (case h_cursor H of
        None \<Rightarrow> None
      | Some (x, y) \<Rightarrow> if x + n \<le> h_w H then Some (write_row x y n (\<lambda>_. blank_shown (h_style H)) H) else None)"
| "host_step T (ScrollRegion i j n) H =
     (if i < j \<and> j \<le> h_h H
      then Some (H\<lparr>shown := (\<lambda>c r. if i \<le> r \<and> r < j \<and> c < h_w H then (if r + n < j then shown H c (r + n) else blank_shown (h_style H)) else shown H c r),
                  h_cursor := None\<rparr>)
      else None)"
| "host_step T EraseDisplay H = Some (H\<lparr>shown := (\<lambda>c r. blank_shown (h_style H))\<rparr>)"

fun host_run :: "tables \<Rightarrow> tty list \<Rightarrow> host \<Rightarrow> host option" where
  "host_run T [] H = Some H"
| "host_run T (t # ts) H = Option.bind (host_step T t H) (host_run T ts)"

lemma host_run_append: "host_run T (xs @ ys) H = Option.bind (host_run T xs H) (host_run T ys)"
  by (induction xs arbitrary: H) (simp_all split: bind_split)

text \<open>Every right half has its glyph and conversely, on each row of the screen.\<close>

definition row_whole :: "nat \<Rightarrow> (nat \<Rightarrow> shown_cell) \<Rightarrow> bool" where
  "row_whole w s \<longleftrightarrow> shown_width (s 0) \<noteq> 0 \<and> (\<forall>c. c + 1 < w \<longrightarrow> (shown_width (s (c + 1)) = 0 \<longleftrightarrow> shown_width (s c) = 2))"

text \<open>Two runs side by side are one run, when the first ends with a whole glyph.\<close>

lemma overwrite_join:
  assumes "row_whole w s" and "0 < m" and "0 < m'" and "x + m + m' \<le> w"
  shows "overwrite (x + m) m' f' (overwrite x m f s) = overwrite x (m + m') (\<lambda>c. if c < x + m then f c else f' c) s"
proof
  fix c
  have p: "shown_width (s (x + m)) = 0 \<longleftrightarrow> shown_width (s (x + m - 1)) = 2"
    using assms by (auto simp: row_whole_def dest: spec [of _ "x + m - 1"])
  show "overwrite (x + m) m' f' (overwrite x m f s) c = overwrite x (m + m') (\<lambda>c. if c < x + m then f c else f' c) s c"
    using p assms(2,3) by (auto simp: overwrite_def broken_cell_def add.assoc [symmetric])
qed

section \<open>The caches agree with the host\<close>

fun dimmed :: "bool \<Rightarrow> style \<Rightarrow> style" where
  "dimmed d (f, b, a, u) = (f, b, a OR dim_bit d, u)"

definition style_ok :: "style \<Rightarrow> bool" where
  "style_ok st = (case st of (f, b, a, u) \<Rightarrow> color_ok f \<and> color_ok b \<and> color_ok u \<and> attrs_ok a)"

definition cache_ok :: "renderer \<Rightarrow> host \<Rightarrow> bool" where
  "cache_ok r H \<longleftrightarrow> (\<forall>st. r_style r = Some st \<longrightarrow> h_style H = dimmed (r_dim r) st)
     \<and> (\<forall>p. r_cursor r = Some p \<longrightarrow> h_cursor H = Some p) \<and> h_link H = r_link r"

lemma style_after_emit: "style_ok st \<Longrightarrow> style_after (emit_sgr d st) st0 = dimmed d st"
  by (cases st; cases st0) (simp add: style_after_def style_ok_def style_read_back)

lemma close_hyperlink_run:
  assumes "h_link H = r_link r" and "close_hyperlink r = (out, r1)"
  shows "host_run T out H = Some (H\<lparr>h_link := None\<rparr>) \<and> r1 = r\<lparr>r_link := None\<rparr>"
  using assms by (cases r; cases H) (auto simp: close_hyperlink_def split: option.splits)

lemma set_hyperlink_run:
  assumes "h_link H = r_link r" and "set_hyperlink u r = (out, r1)"
  shows "host_run T out H = Some (H\<lparr>h_link := u\<rparr>) \<and> r1 = r\<lparr>r_link := u\<rparr>"
proof (cases "r_link r = u")
  case True
  then show ?thesis using assms by (cases r; cases H) (simp add: set_hyperlink_def)
next
  case False
  obtain o1 r2 where c: "close_hyperlink r = (o1, r2)" by fastforce
  show ?thesis using close_hyperlink_run [OF assms(1) c, of T] assms(2) False
    by (cases u) (auto simp: set_hyperlink_def c host_run_append)
qed

lemma set_style_run:
  assumes "\<forall>st. r_style r = Some st \<longrightarrow> h_style H = dimmed (r_dim r) st" and "style_ok st" and "set_style st r = (out, r1)"
  shows "host_run T out H = Some (H\<lparr>h_style := dimmed (r_dim r) st\<rparr>) \<and> r1 = r\<lparr>r_style := Some st\<rparr>"
  using assms style_after_emit [OF assms(2)]
  by (cases st; cases r; cases H) (auto simp: set_style_def split: if_splits)

lemma move_cursor_run:
  assumes "\<forall>p. r_cursor r = Some p \<longrightarrow> h_cursor H = Some p" and "x < h_w H" and "y < h_h H" and "move_cursor x y r = (out, r1)"
  shows "host_run T out H = Some (H\<lparr>h_cursor := Some (x, y)\<rparr>) \<and> r1 = r\<lparr>r_cursor := Some (x, y)\<rparr>"
  using assms by (cases r; cases H) (auto simp: move_cursor_def split: if_splits)

section \<open>Painting a row\<close>

text \<open>The grid's own invariant: handles resolve and wide glyphs have both halves.\<close>

definition whole :: "grid \<Rightarrow> bool" where
  "whole g \<longleftrightarrow> sane g \<and> all_paired g"

definition drawn :: "tables \<Rightarrow> bool \<Rightarrow> grid \<Rightarrow> nat \<Rightarrow> nat \<Rightarrow> shown_cell" where
  "drawn T d g x y =
     (let c = gget x y g
      in if is_continuation c then half_cell
         else (display_text T g c, dimmed d (cell_style g c), width c, hyperlink (hyperlinks g) (link c)))"

text \<open>Texts have the width of their cells, styles can be written, and a space is narrow.\<close>

definition drawable :: "tables \<Rightarrow> grid \<Rightarrow> bool" where
  "drawable T g \<longleftrightarrow> (case char_width T 32 of Some w \<Rightarrow> w | None \<Rightarrow> 0) \<le> 1
     \<and> (\<forall>y<gh g. \<forall>x<gw g. is_continuation (gget x y g)
          \<or> (max 1 (min 2 (str_width T (display_text T g (gget x y g)))) = width (gget x y g) \<and> style_ok (cell_style g (gget x y g))))"

lemma emit_cell_run:
  assumes "cache_ok (r\<lparr>r_cursor := None\<rparr>) H" and "drawable T g" and "x < gw g" and "y < gh g" and "\<not> is_continuation (gget x y g)"
    and "h_cursor H = Some (ox + x, Y)" and "ox + x + width (gget x y g) \<le> h_w H" and "emit_cell T g (gget x y g) r = (out, r1)"
  shows "\<exists>H1. host_run T out H = Some H1 \<and> cache_ok (r1\<lparr>r_cursor := None\<rparr>) H1 \<and> h_cursor H1 = Some (ox + x + width (gget x y g), Y)
    \<and> r_dim r1 = r_dim r \<and> h_w H1 = h_w H \<and> h_h H1 = h_h H
    \<and> shown H1 = shown (write_row (ox + x) Y (width (gget x y g))
         (\<lambda>c. if c = ox + x then drawn T (r_dim r) g x y else half_cell) H)"
proof -
  let ?c = "gget x y g"
  have d: "max 1 (min 2 (str_width T (display_text T g ?c))) = width ?c" "style_ok (cell_style g ?c)"
    using assms(2-5) by (auto simp: drawable_def)
  obtain o1 r2 where l: "set_hyperlink (hyperlink (hyperlinks g) (link ?c)) r = (o1, r2)" by fastforce
  have l1: "host_run T o1 H = Some (H\<lparr>h_link := hyperlink (hyperlinks g) (link ?c)\<rparr>)" "r2 = r\<lparr>r_link := hyperlink (hyperlinks g) (link ?c)\<rparr>"
    using set_hyperlink_run [OF _ l, of H T] assms(1) by (auto simp: cache_ok_def)
  obtain o2 r3 where s: "set_style (cell_style g ?c) r2 = (o2, r3)" by fastforce
  let ?H = "H\<lparr>h_link := hyperlink (hyperlinks g) (link ?c)\<rparr>"
  have s1: "host_run T o2 ?H = Some (?H\<lparr>h_style := dimmed (r_dim r) (cell_style g ?c)\<rparr>)" "r3 = r2\<lparr>r_style := Some (cell_style g ?c)\<rparr>"
    using set_style_run [OF _ d(2) s, of ?H T] assms(1) l1(2) by (auto simp: cache_ok_def)
  have o: "out = o1 @ o2 @ [TtyText (display_text T g ?c)]" "r1 = r3"
    using assms(8) by (auto simp: emit_cell_def l s Let_def)
  let ?G = "?H\<lparr>h_style := dimmed (r_dim r) (cell_style g ?c)\<rparr>"
  let ?f = "\<lambda>c. if c = ox + x then (display_text T g ?c, dimmed (r_dim r) (cell_style g ?c), width ?c, hyperlink (hyperlinks g) (link ?c)) else half_cell"
  have t: "host_step T (TtyText (display_text T g ?c)) ?G = Some ((write_row (ox + x) Y (width ?c) ?f ?G)\<lparr>h_cursor := Some (ox + x + width ?c, Y)\<rparr>)"
    using assms(6,7) d(1) by (simp add: Let_def del: One_nat_def cong: if_cong)
  have dr: "drawn T (r_dim r) g x y = (display_text T g ?c, dimmed (r_dim r) (cell_style g ?c), width ?c, hyperlink (hyperlinks g) (link ?c))"
    using assms(5) by (simp add: drawn_def Let_def)
  have "host_run T out H = Some ((write_row (ox + x) Y (width ?c) ?f ?G)\<lparr>h_cursor := Some (ox + x + width ?c, Y)\<rparr>)"
    unfolding o(1) host_run_append l1(1) s1(1) bind.bind_lunit host_run.simps t by simp
  then show ?thesis unfolding dr using s1(2) l1(2) o(2) assms(1)
    by (auto simp: cache_ok_def write_row_def cong: if_cong)
qed

text \<open>A run of columns that cuts no glyph.\<close>

definition run_ok :: "grid \<Rightarrow> nat \<Rightarrow> nat \<Rightarrow> nat \<Rightarrow> bool" where
  "run_ok g y i j \<longleftrightarrow> i < j \<and> j \<le> gw g \<and> \<not> is_continuation (gget i y g) \<and> (j = gw g \<or> \<not> is_continuation (gget j y g))"

lemma whole_glyph:
  assumes "whole g" and "y < gh g" and "x < gw g" and "\<not> is_continuation (gget x y g)" and "drawable T g"
  shows "width (gget x y g) = 1 \<or> (width (gget x y g) = 2 \<and> x + 1 < gw g \<and> is_continuation (gget (x + 1) y g))"
    and "x + width (gget x y g) = gw g \<or> (x + width (gget x y g) < gw g \<and> \<not> is_continuation (gget (x + width (gget x y g)) y g))"
proof -
  have wf: "grid_wf g" and p: "paired (widths g y)" using assms(1,2) by (auto simp: whole_def sane_def all_paired_def)
  have l: "length (widths g y) = gw g" using widths_length [OF wf assms(2)] .
  have n: "widths g y ! k = width (gget k y g)" if "k < gw g" for k using widths_nth [OF wf assms(2) that] .
  have ok: "pair_ok (widths g y) k" if "k < gw g" for k using p that l by (simp add: paired_def)
  have nx: "k + 1 < gw g \<Longrightarrow> width (gget (k + 1) y g) = 0 \<longleftrightarrow> width (gget k y g) = 2" for k
    using ok [of k] ok [of "k + 1"] n [of k] n [of "k + 1"] l by (auto simp: pair_ok_def)
  show a: "width (gget x y g) = 1 \<or> (width (gget x y g) = 2 \<and> x + 1 < gw g \<and> is_continuation (gget (x + 1) y g))"
  proof -
    have "max 1 (min 2 n) = 1 \<or> max 1 (min 2 n) = 2" for n :: nat by linarith
    then have "width (gget x y g) = 1 \<or> width (gget x y g) = 2" using assms(2-5) unfolding drawable_def by metis
    then show ?thesis using ok [OF assms(3)] n [OF assms(3)] n [of "x + 1"] l by (auto simp: pair_ok_def is_continuation_def)
  qed
  show "x + width (gget x y g) = gw g \<or> (x + width (gget x y g) < gw g \<and> \<not> is_continuation (gget (x + width (gget x y g)) y g))"
    using a nx [of x] nx [of "x + 1"] assms(3) by (auto simp: is_continuation_def)
qed

lemma overwrite_cong: "(\<And>c. x \<le> c \<Longrightarrow> c < x + m \<Longrightarrow> f c = f' c) \<Longrightarrow> overwrite x m f s = overwrite x m f' s"
  by (rule ext) (simp add: overwrite_def)

lemma shown_write_row: "shown (write_row x y m f H) = (\<lambda>c r. if r = y then overwrite x m f (\<lambda>c. shown H c y) c else shown H c r)"
  by (simp add: write_row_def)

lemma write_row_join:
  assumes "row_whole (h_w H) (\<lambda>c. shown H c Y)" and "x0 < x" and "0 < k" and "x + k \<le> h_w H"
    and "shown H1 = shown (write_row x0 Y (x - x0) F H)" and "\<And>c. x \<le> c \<Longrightarrow> c < x + k \<Longrightarrow> f c = F c"
  shows "shown (write_row x Y k f H1) = shown (write_row x0 Y (x + k - x0) F H)"
proof -
  let ?s = "\<lambda>c. shown H c Y"
  have e: "x0 + (x - x0) = x" "x - x0 + k = x + k - x0" using assms(2) by auto
  have "overwrite x k f (overwrite x0 (x - x0) F ?s) = overwrite x0 (x + k - x0) (\<lambda>c. if c < x then F c else f c) ?s"
    using overwrite_join [OF assms(1), of "x - x0" k x0 f F] assms(2-4) unfolding e by simp
  also have "\<dots> = overwrite x0 (x + k - x0) F ?s" using assms(2,6) by (intro overwrite_cong) auto
  finally show ?thesis unfolding shown_write_row assms(5) by (auto simp: shown_write_row fun_eq_iff)
qed

lemma emit_row_run:
  assumes "whole g" and "drawable T g" and "y < gh g" and "row_whole (h_w H0) (\<lambda>c. shown H0 c Y)" and "ox + gw g \<le> h_w H0"
    and "stop = gw g \<or> \<not> is_continuation (gget stop y g)" and "stop \<le> gw g"
  shows "x0 \<le> x \<Longrightarrow> x \<le> stop \<Longrightarrow> x < stop \<longrightarrow> \<not> is_continuation (gget x y g) \<Longrightarrow> cache_ok (r\<lparr>r_cursor := None\<rparr>) H \<Longrightarrow>
    h_cursor H = Some (ox + x, Y) \<Longrightarrow> h_w H = h_w H0 \<Longrightarrow> r_dim r = d \<Longrightarrow>
    shown H = (if x = x0 then shown H0 else shown (write_row (ox + x0) Y (x - x0) (\<lambda>c. drawn T d g (c - ox) y) H0)) \<Longrightarrow>
    emit_row T g y x stop r = (out, x2, r2) \<Longrightarrow>
    \<exists>H2. host_run T out H = Some H2 \<and> cache_ok (r2\<lparr>r_cursor := None\<rparr>) H2 \<and> h_cursor H2 = Some (ox + stop, Y) \<and> x2 = stop
      \<and> h_w H2 = h_w H \<and> h_h H2 = h_h H \<and> r_dim r2 = d
      \<and> shown H2 = (if stop = x0 then shown H0 else shown (write_row (ox + x0) Y (stop - x0) (\<lambda>c. drawn T d g (c - ox) y) H0))"
proof (induction "stop - x" arbitrary: x r H out x2 r2 rule: less_induct)
  case less
  show ?case
  proof (cases "x < stop")
    case False
    then have xs: "x = stop" using less.prems(2) by simp
    have "emit_row T g y x stop r = ([], x, r)" by (subst emit_row.simps) (simp add: False)
    then have "out = []" "x2 = stop" "r2 = r" using less.prems(9) xs by auto
    then show ?thesis using less.prems(4-8) xs by auto
  next
    case True
    let ?c = "gget x y g" and ?F = "\<lambda>c. drawn T d g (c - ox) y"
    have x: "x < gw g" "\<not> is_continuation ?c" using True assms(7) less.prems(3) by auto
    note wg = whole_glyph [OF assms(1,3) x assms(2)]
    have k: "0 < width ?c" "display_width ?c = width ?c" "x + width ?c \<le> gw g" using wg x(2) by (auto simp: display_width_def is_continuation_def)
    have "width ?c = 1 \<or> (width ?c = 2 \<and> stop \<noteq> x + 1)" using wg(1) assms(6) by auto
    then have st: "x + width ?c \<le> stop" using True by auto
    obtain o1 r1 where e: "emit_cell T g ?c r = (o1, r1)" by fastforce
    obtain o2 x3 r3 where e2: "emit_row T g y (x + width ?c) stop r1 = (o2, x3, r3)" by (metis prod_cases3)
    have o: "out = o1 @ o2" "x2 = x3" "r2 = r3"
      using less.prems(9) True x(2) e e2 k(2) by (auto simp: emit_row.simps [of T g y x] Let_def)
    have "ox + x + width ?c \<le> h_w H" using k(3) assms(5) less.prems(6) by linarith
    from emit_cell_run [OF less.prems(4) assms(2) x(1) assms(3) x(2) less.prems(5) this e]
    obtain H1 where H1: "host_run T o1 H = Some H1" "cache_ok (r1\<lparr>r_cursor := None\<rparr>) H1" "h_cursor H1 = Some (ox + x + width ?c, Y)"
      "r_dim r1 = d" "h_w H1 = h_w H" "h_h H1 = h_h H"
      "shown H1 = shown (write_row (ox + x) Y (width ?c) (\<lambda>c. if c = ox + x then drawn T d g x y else half_cell) H)"
      using less.prems(7) by auto
    have f: "(if c = ox + x then drawn T d g x y else half_cell) = ?F c" if "ox + x \<le> c" "c < ox + x + width ?c" for c
    proof (cases "c = ox + x")
      case False
      then have "c - ox = x + 1" "is_continuation (gget (x + 1) y g)" using that wg(1) by auto
      then show ?thesis using False by (simp add: drawn_def)
    qed simp
    have sh: "shown H1 = shown (write_row (ox + x0) Y (x + width ?c - x0) ?F H0)"
    proof (cases "x = x0")
      case True
      have "overwrite (ox + x) (width ?c) (\<lambda>c. if c = ox + x then drawn T d g x y else half_cell) s = overwrite (ox + x) (width ?c) ?F s" for s
        by (rule overwrite_cong) (rule f)
      then show ?thesis using H1(7) less.prems(8) True by (simp add: shown_write_row fun_eq_iff)
    next
      case False
      then have lt: "ox + x0 < ox + x" using less.prems(1) by simp
      have sh0: "shown H = shown (write_row (ox + x0) Y (ox + x - (ox + x0)) ?F H0)" using less.prems(8) False by simp
      have "ox + x + width ?c \<le> h_w H0" using k(3) assms(5) by linarith
      from write_row_join [OF assms(4) lt k(1) this sh0 f] show ?thesis unfolding H1(7) by simp
    qed
    have m: "stop - (x + width ?c) < stop - x" using True k(1) by simp
    have nc: "x + width ?c < stop \<longrightarrow> \<not> is_continuation (gget (x + width ?c) y g)" using wg(2) st assms(7) by auto
    have ne: "x + width ?c \<noteq> x0" "x0 \<le> x + width ?c" using less.prems(1) k(1) by auto
    obtain H2 where H2: "host_run T o2 H1 = Some H2" "cache_ok (r3\<lparr>r_cursor := None\<rparr>) H2" "h_cursor H2 = Some (ox + stop, Y)" "x3 = stop"
      "h_w H2 = h_w H1" "h_h H2 = h_h H1" "r_dim r3 = d"
      "shown H2 = (if stop = x0 then shown H0 else shown (write_row (ox + x0) Y (stop - x0) ?F H0))"
      using less.hyps [OF m ne(2) st nc H1(2) _ _ H1(4) _ e2] H1(3,5) less.prems(6) sh ne(1) by (auto simp: add.assoc)
    then show ?thesis using H1 o by (auto simp: host_run_append)
  qed
qed

lemma text_end_props:
  "i \<le> j \<Longrightarrow> i \<le> text_end g y i j \<and> text_end g y i j \<le> j \<and> (\<forall>x. text_end g y i j \<le> x \<and> x < j \<longrightarrow> gget x y g = cell_default)"
proof (induction j)
  case (Suc j)
  show ?case
  proof (cases "Suc j > i \<and> gget j y g = cell_default")
    case True
    then show ?thesis using Suc.IH by (auto simp: less_Suc_eq)
  qed (use Suc.prems in auto)
qed simp

lemma run_end_props:
  assumes "i \<le> j"
  shows "i \<le> run_end g y i j \<and> run_end g y i j \<le> j + 1 \<and> (\<forall>x. run_end g y i j \<le> x \<and> x < j + 1 \<longrightarrow> gget x y g = cell_default)"
  using text_end_props [of i "j + 1" g y] assms unfolding run_end_def Let_def by (auto simp del: text_end.simps)

lemma drawn_default:
  assumes "drawable T g" and "whole g" and "gget x y g = cell_default"
  shows "drawn T d g x y = blank_shown (dimmed d plain_style)"
proof -
  have b: "\<not> 1 < (case char_width T 32 of Some w \<Rightarrow> w | None \<Rightarrow> 0)" using assms(1) by (simp add: drawable_def)
  have "underline_color (underline_colors g) 0 = ColorDefault"
    using assms(2) by (simp add: whole_def sane_def colors_wf_def underline_color_def)
  then show ?thesis
    using b by (simp add: drawn_def assms(3) cell_default_def is_continuation_def display_text_def cell_style_def blank_shown_def
        plain_style_def hyperlink_def)
qed

lemma plain_style_ok: "style_ok plain_style"
proof -
  have "attrs_ok 0" unfolding attrs_ok_def by code_simp
  then show ?thesis by (simp add: style_ok_def plain_style_def color_ok_def)
qed

text \<open>Rendering a run paints exactly its cells, and the caches still agree.\<close>

lemma render_row_run:
  assumes "whole g" and "drawable T g" and "y < gh g" and "row_whole (h_w H) (\<lambda>c. shown H c (oy + y))" and "ox + gw g \<le> h_w H"
    and "oy + y < h_h H" and "run_ok g y i (j + 1)" and "cache_ok r H" and "render_row T g y i j (ox, oy) r = (out, r1)"
  shows "\<exists>H1. host_run T out H = Some H1 \<and> cache_ok r1 H1 \<and> h_w H1 = h_w H \<and> h_h H1 = h_h H \<and> r_dim r1 = r_dim r
    \<and> shown H1 = shown (write_row (ox + i) (oy + y) (j + 1 - i) (\<lambda>c. drawn T (r_dim r) g (c - ox) y) H)"
proof -
  let ?stop = "run_end g y i j" and ?Y = "oy + y" and ?d = "r_dim r"
  let ?F = "\<lambda>c. drawn T ?d g (c - ox) y"
  have ij: "i < j + 1" "j + 1 \<le> gw g" "\<not> is_continuation (gget i y g)" "j + 1 = gw g \<or> \<not> is_continuation (gget (j + 1) y g)"
    using assms(7) by (auto simp: run_ok_def)
  note re = run_end_props [of i j g y]
  have st: "i \<le> ?stop" "?stop \<le> j + 1" "\<And>x. ?stop \<le> x \<Longrightarrow> x < j + 1 \<Longrightarrow> gget x y g = cell_default"
    using re ij(1) by auto
  have sc: "?stop = gw g \<or> \<not> is_continuation (gget ?stop y g)"
    using st(2,3) ij(4) by (cases "?stop = j + 1") (auto simp: cell_default_def is_continuation_def)
  obtain o1 r2 where m: "move_cursor (ox + i) ?Y r = (o1, r2)" by fastforce
  have xi: "ox + i < h_w H" using ij assms(5) by linarith
  have m1: "host_run T o1 H = Some (H\<lparr>h_cursor := Some (ox + i, ?Y)\<rparr>)" "r2 = r\<lparr>r_cursor := Some (ox + i, ?Y)\<rparr>"
    using move_cursor_run [OF _ xi assms(6) m, of T] assms(8) by (auto simp: cache_ok_def)
  let ?H0 = "H\<lparr>h_cursor := Some (ox + i, ?Y)\<rparr>"
  obtain o2 x2 r3 where e: "emit_row T g y i ?stop r2 = (o2, x2, r3)" by (metis prod_cases3)
  have c0: "cache_ok (r2\<lparr>r_cursor := None\<rparr>) ?H0" using assms(8) m1(2) by (simp add: cache_ok_def)
  have le: "?stop \<le> gw g" using st(2) ij(2) by linarith
  have "\<exists>H2. host_run T o2 ?H0 = Some H2 \<and> cache_ok (r3\<lparr>r_cursor := None\<rparr>) H2 \<and> h_cursor H2 = Some (ox + ?stop, ?Y) \<and> x2 = ?stop
      \<and> h_w H2 = h_w ?H0 \<and> h_h H2 = h_h ?H0 \<and> r_dim r3 = ?d
      \<and> shown H2 = (if ?stop = i then shown H else shown (write_row (ox + i) ?Y (?stop - i) ?F H))"
    by (rule emit_row_run [OF assms(1-5) sc le, of i i r2 ?H0 ?d]) (use st(1) ij(3) c0 m1(2) e in simp_all)
  then obtain H2 where H2: "host_run T o2 ?H0 = Some H2" "cache_ok (r3\<lparr>r_cursor := None\<rparr>) H2" "h_cursor H2 = Some (ox + ?stop, ?Y)"
    "x2 = ?stop" "h_w H2 = h_w H" "h_h H2 = h_h H" "r_dim r3 = ?d"
    "shown H2 = (if ?stop = i then shown H else shown (write_row (ox + i) ?Y (?stop - i) ?F H))" by auto
  let ?r = "r3\<lparr>r_cursor := Some (ox + ?stop, ?Y)\<rparr>"
  have c2: "cache_ok ?r H2" using H2(2,3) by (simp add: cache_ok_def)
  show ?thesis
  proof (cases "?stop \<le> j")
    case False
    then have "?stop = j + 1" using st(2) by simp
    moreover have "out = o1 @ o2" "r1 = ?r" using assms(9) False m e H2(4) by (auto simp: render_row_def Let_def)
    ultimately show ?thesis using H2 m1 c2 ij(1) by (auto simp: host_run_append)
  next
    case True
    obtain o3 r4 where cl: "close_hyperlink ?r = (o3, r4)" by fastforce
    have cl1: "host_run T o3 H2 = Some (H2\<lparr>h_link := None\<rparr>)" "r4 = ?r\<lparr>r_link := None\<rparr>"
      using close_hyperlink_run [OF _ cl, of H2 T] c2 by (auto simp: cache_ok_def)
    obtain o4 r5 where ss: "set_style plain_style r4 = (o4, r5)" by fastforce
    let ?H3 = "H2\<lparr>h_link := None\<rparr>"
    have ss1: "host_run T o4 ?H3 = Some (?H3\<lparr>h_style := dimmed ?d plain_style\<rparr>)" "r5 = r4\<lparr>r_style := Some plain_style\<rparr>"
      using set_style_run [OF _ plain_style_ok ss, of ?H3 T] c2 cl1(2) H2(7) by (auto simp: cache_ok_def)
    let ?H4 = "?H3\<lparr>h_style := dimmed ?d plain_style\<rparr>" and ?n = "j + 1 - ?stop"
    let ?H5 = "write_row (ox + ?stop) ?Y ?n (\<lambda>_. blank_shown (dimmed ?d plain_style)) ?H4"
    have "ox + ?stop + ?n \<le> h_w H2" using st(2) ij(2) assms(5) H2(5) by simp
    then have ech: "host_step T (Ech ?n) ?H4 = Some ?H5" using H2(3) by simp
    have o: "out = o1 @ o2 @ o3 @ o4 @ [Ech ?n]" "r1 = r5"
      using assms(9) True m e H2(4) cl ss by (auto simp: render_row_def Let_def plain_style_def)
    have run: "host_run T out H = Some ?H5"
      unfolding o(1) host_run_append m1(1) H2(1) cl1(1) ss1(1) bind.bind_lunit host_run.simps ech by simp
    have f: "blank_shown (dimmed ?d plain_style) = ?F c" if "ox + ?stop \<le> c" "c < ox + ?stop + ?n" for c
      using drawn_default [OF assms(2,1) st(3), of "c - ox"] that True by auto
    have sh: "shown ?H5 = shown (write_row (ox + i) ?Y (j + 1 - i) ?F H)"
    proof (cases "?stop = i")
      case st_i: True
      have "overwrite (ox + ?stop) ?n (\<lambda>_. blank_shown (dimmed ?d plain_style)) s = overwrite (ox + ?stop) ?n ?F s" for s
        by (rule overwrite_cong) (rule f)
      then show ?thesis using H2(8) st_i by (simp add: shown_write_row fun_eq_iff)
    next
      case False
      then have lt: "ox + i < ox + ?stop" using st(1) by simp
      have n: "0 < ?n" "ox + ?stop + ?n \<le> h_w H" "ox + ?stop + ?n - (ox + i) = j + 1 - i"
        using True st(2) ij(2) assms(5) by auto
      have s4: "shown ?H4 = shown (write_row (ox + i) ?Y (ox + ?stop - (ox + i)) ?F H)" using H2(8) False by simp
      from write_row_join [OF assms(4) lt n(1,2) s4 f] show ?thesis unfolding n(3) by simp
    qed
    have "cache_ok r5 ?H5" using c2 cl1(2) ss1(2) H2(7) by (simp add: cache_ok_def write_row_def)
    then show ?thesis using run sh o(2) ss1(2) cl1(2) H2(5-7) by (auto simp: write_row_def)
  qed
qed

end
