(* ===== verification/Renderer_Pane.thy ===== *)
theory Renderer_Pane
  imports Renderer
begin

text \<open>
  Painting a whole pane. The rows of a pane are painted one after the other, each wholly or where
  the grid is damaged; the interface \<open>row_painter\<close> says what painting one row does to the host
  terminal, and what painting all of them does follows from it once. Together with the soundness of
  the damage, a client that shows the grid before some edits shows it again after the next
  frame.
\<close>

section \<open>Runs that cut no glyph\<close>

lemma next_cell:
  assumes "whole g" and "y < gh g" and "k + 1 < gw g"
  shows "is_continuation (gget (k + 1) y g) \<longleftrightarrow> width (gget k y g) = 2"
proof -
  have wf: "grid_wf g" and p: "paired (widths g y)" using assms(1,2) by (auto simp: whole_def sane_def all_paired_def)
  have l: "length (widths g y) = gw g" using widths_length [OF wf assms(2)] .
  have n: "widths g y ! i = width (gget i y g)" if "i < gw g" for i using widths_nth [OF wf assms(2) that] .
  have ok: "pair_ok (widths g y) i" if "i < gw g" for i using p that l by (simp add: paired_def)
  show ?thesis using ok [of k] ok [of "k + 1"] n [of k] n [of "k + 1"] assms(3) l by (auto simp: pair_ok_def is_continuation_def)
qed

lemma edge_cells:
  assumes "whole g" and "y < gh g" and "0 < gw g"
  shows "\<not> is_continuation (gget 0 y g)" and "width (gget (gw g - 1) y g) \<noteq> 2"
proof -
  have wf: "grid_wf g" and p: "paired (widths g y)" using assms(1,2) by (auto simp: whole_def sane_def all_paired_def)
  have l: "length (widths g y) = gw g" using widths_length [OF wf assms(2)] .
  have n: "widths g y ! i = width (gget i y g)" if "i < gw g" for i using widths_nth [OF wf assms(2) that] .
  have ok: "pair_ok (widths g y) i" if "i < gw g" for i using p that l by (simp add: paired_def)
  show "\<not> is_continuation (gget 0 y g)" using ok [of 0] n [of 0] assms(3) by (auto simp: pair_ok_def is_continuation_def)
  show "width (gget (gw g - 1) y g) \<noteq> 2" using ok [of "gw g - 1"] n [of "gw g - 1"] assms(3) l by (auto simp: pair_ok_def)
qed

text \<open>Damage names cells of the grid, and a grid without the mark has none and has not scrolled.\<close>

definition damage_ok :: "grid \<Rightarrow> bool" where
  "damage_ok g \<longleftrightarrow> 0 < gw g \<and> (\<forall>y<gh g. dirty (damage g ! y) \<longrightarrow> any_damage g \<and> lo (damage g ! y) \<le> hi (damage g ! y) \<and> hi (damage g ! y) < gw g)
     \<and> (any_damage g \<or> pending_scroll_up g = 0)"

lemma expanded_run:
  assumes "whole g" and "y < gh g" and "i \<le> j" and "j < gw g" and "expanded_damage g y i j = (i1, j1)"
  shows "run_ok g y i1 (j1 + 1) \<and> i1 \<le> i \<and> j \<le> j1"
proof -
  have e: "i1 = (if is_continuation (gget i y g) \<and> i > 0 then i - 1 else i)"
    "j1 = (if \<not> is_continuation (gget j y g) \<and> width (gget j y g) = 2 \<and> j + 1 < gw g then j + 1 else j)"
    using assms(5) by (auto simp: expanded_damage_def Let_def)
  have a: "\<not> is_continuation (gget i1 y g)"
  proof (cases "is_continuation (gget i y g)")
    case True
    moreover have "i \<noteq> 0" using True edge_cells(1) [OF assms(1,2)] assms(3,4) by (metis gr0I not_less_zero)
    ultimately show ?thesis
      using e(1) next_cell [OF assms(1,2), of "i - 1"] assms(3,4) by (auto simp: is_continuation_def)
  qed (simp add: e(1))
  have b: "j1 + 1 = gw g \<or> (j1 + 1 < gw g \<and> \<not> is_continuation (gget (j1 + 1) y g))"
  proof (cases "j1 + 1 < gw g")
    case True
    then show ?thesis
      using e(2) next_cell [OF assms(1,2), of j] next_cell [OF assms(1,2), of "j + 1"]
      by (auto simp: is_continuation_def split: if_splits)
  next
    case False
    then show ?thesis using e(2) assms(4) by (auto split: if_splits)
  qed
  show ?thesis using a b e assms(3,4) by (auto simp: run_ok_def split: if_splits)
qed

section \<open>What a pane shows\<close>

text \<open>The screen with one row of the pane painted.\<close>

definition paint_row :: "tables \<Rightarrow> bool \<Rightarrow> grid \<Rightarrow> nat \<times> nat \<Rightarrow> nat \<Rightarrow> (nat \<Rightarrow> nat \<Rightarrow> shown_cell) \<Rightarrow> nat \<Rightarrow> nat \<Rightarrow> shown_cell" where
  "paint_row T d g off y s c r =
     (if r = snd off + y \<and> fst off \<le> c \<and> c < fst off + gw g then drawn T d g (c - fst off) y else s c r)"

text \<open>No glyph of the host lies across the border of the pane.\<close>

definition edges_clear :: "grid \<Rightarrow> nat \<times> nat \<Rightarrow> host \<Rightarrow> bool" where
  "edges_clear g off H \<longleftrightarrow> (\<forall>y<gh g. gw g = 0 \<or> (shown_width (shown H (fst off) (snd off + y)) \<noteq> 0
     \<and> shown_width (shown H (fst off + gw g - 1) (snd off + y)) \<noteq> 2))"

definition drawing :: "tables \<Rightarrow> grid \<Rightarrow> nat \<times> nat \<Rightarrow> renderer \<Rightarrow> host \<Rightarrow> bool" where
  "drawing T g off r H \<longleftrightarrow> whole g \<and> drawable T g \<and> damage_ok g
     \<and> fst off + gw g \<le> h_w H \<and> snd off + gh g \<le> h_h H
     \<and> (\<forall>Y<h_h H. row_whole (h_w H) (\<lambda>c. shown H c Y)) \<and> edges_clear g off H \<and> cache_ok r H"

lemma drawn_width: "shown_width (drawn T d g x y) = width (gget x y g)"
  by (auto simp: drawn_def Let_def half_cell_def is_continuation_def)

lemma painted_row_whole:
  assumes "whole g" and "y < gh g" and "0 < gw g" and "row_whole w s" and "ox + gw g \<le> w"
    and "shown_width (s ox) \<noteq> 0" and "shown_width (s (ox + gw g - 1)) \<noteq> 2"
  shows "row_whole w (\<lambda>c. if ox \<le> c \<and> c < ox + gw g then drawn T d g (c - ox) y else s c)" (is "row_whole w ?s")
proof -
  note e = edge_cells [OF assms(1-3)]
  have in_pane: "?s (ox + x) = drawn T d g x y" if "x < gw g" for x using that by simp
  have z: "shown_width (?s 0) \<noteq> 0"
    using assms(3,4) e(1) by (cases "ox = 0") (auto simp: drawn_width row_whole_def is_continuation_def)
  have "shown_width (?s (c + 1)) = 0 \<longleftrightarrow> shown_width (?s c) = 2" if c: "c + 1 < w" for c
  proof -
    have o: "shown_width (s (c + 1)) = 0 \<longleftrightarrow> shown_width (s c) = 2" using assms(4) c by (simp add: row_whole_def)
    consider "c + 1 < ox \<or> ox + gw g \<le> c" | "c + 1 = ox" | "c + 1 = ox + gw g" | x where "c = ox + x" "x + 1 < gw g"
    proof (cases "ox \<le> c")
      case True
      then obtain x where "c = ox + x" using le_Suc_ex by blast
      then show ?thesis using that by (metis Suc_eq_plus1 add.assoc linorder_neqE_nat not_less_eq not_less add_le_cancel_left)
    qed (use that in linarith)
    then show ?thesis
    proof cases
      case 1
      then show ?thesis using o by auto
    next
      case 2
      have "?s c = s c" "?s (c + 1) = drawn T d g 0 y" using 2 assms(3) in_pane [of 0] by auto
      then show ?thesis using o 2 assms(6) e(1) by (simp add: drawn_width is_continuation_def del: One_nat_def)
    next
      case 3
      then have "c = ox + (gw g - 1)" using assms(3) by simp
      then have "?s (c + 1) = s (c + 1)" "?s c = drawn T d g (gw g - 1) y" using 3 assms(3) in_pane [of "gw g - 1"] by auto
      then show ?thesis using o 3 assms(3,7) e(2) \<open>c = _\<close> by (simp add: drawn_width del: One_nat_def)
    next
      case 4
      then have "?s c = drawn T d g x y" "?s (c + 1) = drawn T d g (x + 1) y" using in_pane [of x] in_pane [of "x + 1"] by (simp_all add: add.assoc)
      then show ?thesis using next_cell [OF assms(1,2) 4(2)] by (simp add: drawn_width is_continuation_def del: One_nat_def)
    qed
  qed
  then show ?thesis using z by (simp add: row_whole_def)
qed

lemma painted_drawing:
  assumes "drawing T g off r H" and "y < gh g" and "0 < gw g" and "cache_ok r1 H1" and "h_w H1 = h_w H" and "h_h H1 = h_h H"
    and "shown H1 = paint_row T d g off y (shown H)"
  shows "drawing T g off r1 H1"
proof -
  have g: "whole g" "fst off + gw g \<le> h_w H" "\<forall>Y<h_h H. row_whole (h_w H) (\<lambda>c. shown H c Y)" "snd off + y < h_h H" "edges_clear g off H"
    using assms(1,2) by (auto simp: drawing_def)
  note e = edge_cells [OF g(1) assms(2,3)]
  have "row_whole (h_w H) (\<lambda>c. shown H1 c Y)" if "Y < h_h H" for Y
  proof (cases "Y = snd off + y")
    case True
    have "row_whole (h_w H) (\<lambda>c. if fst off \<le> c \<and> c < fst off + gw g then drawn T d g (c - fst off) y else shown H c Y)"
      by (rule painted_row_whole [OF g(1) assms(2,3)]) (use g True assms(2,3) in \<open>auto simp: edges_clear_def\<close>)
    then show ?thesis using True by (simp add: assms(7) paint_row_def cong: if_cong)
  next
    case False
    then show ?thesis using g(3) that by (simp add: assms(7) paint_row_def)
  qed
  moreover have "edges_clear g off H1"
    unfolding edges_clear_def
  proof (intro allI impI)
    fix z assume z: "z < gh g"
    have o: "shown_width (shown H (fst off) (snd off + z)) \<noteq> 0 \<and> shown_width (shown H (fst off + gw g - 1) (snd off + z)) \<noteq> 2"
      using g(5) z assms(3) by (auto simp: edges_clear_def)
    show "gw g = 0 \<or> (shown_width (shown H1 (fst off) (snd off + z)) \<noteq> 0 \<and> shown_width (shown H1 (fst off + gw g - 1) (snd off + z)) \<noteq> 2)"
    proof (cases "z = y")
      case True
      have "shown H1 (fst off) (snd off + z) = drawn T d g 0 y" "shown H1 (fst off + gw g - 1) (snd off + z) = drawn T d g (gw g - 1) y"
        using True assms(3) by (auto simp: assms(7) paint_row_def)
      then show ?thesis using e by (simp add: drawn_width is_continuation_def)
    qed (use o in \<open>simp add: assms(7) paint_row_def\<close>)
  qed
  ultimately show ?thesis using assms(1,4-6) by (simp add: drawing_def)
qed

text \<open>A run covering every cell that is not yet right paints the row.\<close>

lemma run_paints:
  assumes "drawing T g (ox, oy) r H" and "y < gh g" and "run_ok g y i (j + 1)"
    and "\<And>x. x < gw g \<Longrightarrow> x < i \<or> j < x \<Longrightarrow> shown H (ox + x) (oy + y) = drawn T (r_dim r) g x y"
    and "render_row T g y i j (ox, oy) r = (out, r1)"
  shows "\<exists>H1. host_run T out H = Some H1 \<and> drawing T g (ox, oy) r1 H1 \<and> r_dim r1 = r_dim r \<and> h_w H1 = h_w H \<and> h_h H1 = h_h H
    \<and> shown H1 = paint_row T (r_dim r) g (ox, oy) y (shown H)"
proof -
  let ?Y = "oy + y" and ?F = "\<lambda>c. drawn T (r_dim r) g (c - ox) y"
  have g: "whole g" "drawable T g" "ox + gw g \<le> h_w H" "?Y < h_h H" "row_whole (h_w H) (\<lambda>c. shown H c ?Y)" "cache_ok r H"
    "edges_clear g (ox, oy) H" using assms(1,2) by (auto simp: drawing_def)
  have ij: "i < j + 1" "j + 1 \<le> gw g" "\<not> is_continuation (gget i y g)" "j + 1 = gw g \<or> \<not> is_continuation (gget (j + 1) y g)"
    using assms(3) by (auto simp: run_ok_def)
  have gw: "0 < gw g" using ij by simp
  from render_row_run [OF g(1,2) assms(2) g(5,3,4) assms(3) g(6) assms(5)]
  obtain H1 where H1: "host_run T out H = Some H1" "cache_ok r1 H1" "h_w H1 = h_w H" "h_h H1 = h_h H" "r_dim r1 = r_dim r"
    "shown H1 = shown (write_row (ox + i) ?Y (j + 1 - i) ?F H)" by blast
  have nx: "shown_width (shown H (c + 1) ?Y) = 0 \<longleftrightarrow> shown_width (shown H c ?Y) = 2" if "c + 1 < h_w H" for c
    using g(5) that by (simp add: row_whole_def)
  have left: "shown_width (shown H (ox + i) ?Y) \<noteq> 0"
  proof (cases i)
    case 0
    then show ?thesis using g(7) assms(2) gw by (auto simp: edges_clear_def)
  next
    case (Suc k)
    then have "shown H (ox + k) ?Y = drawn T (r_dim r) g k y" using assms(4) ij by simp
    moreover have "width (gget k y g) \<noteq> 2" using next_cell [OF g(1) assms(2), of k] Suc ij by simp
    ultimately show ?thesis using nx [of "ox + k"] Suc ij g(3) by (simp add: drawn_width)
  qed
  have right: "shown_width (shown H (ox + j) ?Y) \<noteq> 2"
  proof (cases "j + 1 = gw g")
    case True
    then have "ox + gw g - 1 = ox + j" by linarith
    then show ?thesis using g(7) assms(2) gw by (auto simp: edges_clear_def)
  next
    case False
    then have "shown H (ox + (j + 1)) ?Y = drawn T (r_dim r) g (j + 1) y" using assms(4) [of "j + 1"] ij(2) by auto
    then have "shown_width (shown H (ox + j + 1) ?Y) \<noteq> 0" using False ij(4) by (simp add: drawn_width is_continuation_def)
    then show ?thesis using nx [of "ox + j"] False ij(2) g(3) by simp
  qed
  have e: "ox + i + (j + 1 - i) = ox + j + 1" using ij(1) by simp
  have "overwrite (ox + i) (j + 1 - i) ?F (\<lambda>c. shown H c ?Y) c = (if ox \<le> c \<and> c < ox + gw g then ?F c else shown H c ?Y)" for c
  proof -
    have "?F c = shown H c ?Y" if "ox \<le> c" "c < ox + gw g" "c < ox + i \<or> ox + j < c"
    proof -
      have "c - ox < gw g" "c - ox < i \<or> j < c - ox" "ox + (c - ox) = c" using that by auto
      then show ?thesis using assms(4) [of "c - ox"] by metis
    qed
    moreover have "ox + i \<le> c \<and> c < ox + j + 1 \<Longrightarrow> ox \<le> c \<and> c < ox + gw g" using ij(2) by linarith
    ultimately show ?thesis using left right unfolding overwrite_def e by auto
  qed
  then have s: "shown H1 = paint_row T (r_dim r) g (ox, oy) y (shown H)"
    unfolding H1(6) shown_write_row by (auto simp: paint_row_def fun_eq_iff)
  have "drawing T g (ox, oy) r1 H1" by (rule painted_drawing [OF assms(1,2) gw H1(2-4) s])
  then show ?thesis using H1 s by blast
qed

section \<open>Painting the rows of a pane\<close>

locale row_painter =
  fixes paint :: "tables \<Rightarrow> grid \<Rightarrow> nat \<times> nat \<Rightarrow> nat \<Rightarrow> renderer \<Rightarrow> tty list \<times> renderer"
    and ready :: "tables \<Rightarrow> bool \<Rightarrow> grid \<Rightarrow> nat \<Rightarrow> (nat \<Rightarrow> shown_cell) \<Rightarrow> bool"
  assumes paint_row: "drawing T g off r H \<Longrightarrow> y < gh g \<Longrightarrow> ready T (r_dim r) g y (\<lambda>x. shown H (fst off + x) (snd off + y)) \<Longrightarrow>
    paint T g off y r = (out, r1) \<Longrightarrow>
    \<exists>H1. host_run T out H = Some H1 \<and> drawing T g off r1 H1 \<and> r_dim r1 = r_dim r \<and> h_w H1 = h_w H \<and> h_h H1 = h_h H
      \<and> shown H1 = Renderer_Pane.paint_row T (r_dim r) g off y (shown H)"
begin

lemma paint_rows:
  assumes "distinct ys" and "set ys \<subseteq> {..<gh g}" and "drawing T g off r H"
    and "\<forall>y\<in>set ys. ready T (r_dim r) g y (\<lambda>x. shown H (fst off + x) (snd off + y))"
    and "each_row (paint T g off) ys r = (out, r1)"
  shows "\<exists>H1. host_run T out H = Some H1 \<and> drawing T g off r1 H1 \<and> r_dim r1 = r_dim r \<and> h_w H1 = h_w H \<and> h_h H1 = h_h H
    \<and> shown H1 = (\<lambda>c z. if snd off \<le> z \<and> z - snd off \<in> set ys \<and> fst off \<le> c \<and> c < fst off + gw g
                        then drawn T (r_dim r) g (c - fst off) (z - snd off) else shown H c z)"
  using assms
proof (induction ys arbitrary: r H out)
  case Nil
  then show ?case by auto
next
  case (Cons y ys)
  obtain o1 r2 where p: "paint T g off y r = (o1, r2)" by fastforce
  obtain o2 where q: "each_row (paint T g off) ys r2 = (o2, r1)" and o: "out = o1 @ o2"
    using Cons.prems(5) p by (auto simp: split_beta prod_eq_iff)
  have y: "y < gh g" "ready T (r_dim r) g y (\<lambda>x. shown H (fst off + x) (snd off + y))" using Cons.prems(2,4) by auto
  from paint_row [OF Cons.prems(3) y p]
  obtain H1 where H1: "host_run T o1 H = Some H1" "drawing T g off r2 H1" "r_dim r2 = r_dim r" "h_w H1 = h_w H" "h_h H1 = h_h H"
    "shown H1 = Renderer_Pane.paint_row T (r_dim r) g off y (shown H)" by blast
  have rd: "\<forall>z\<in>set ys. ready T (r_dim r2) g z (\<lambda>x. shown H1 (fst off + x) (snd off + z))"
  proof
    fix z assume z: "z \<in> set ys"
    then have "z \<noteq> y" using Cons.prems(1) by auto
    then have "(\<lambda>x. shown H1 (fst off + x) (snd off + z)) = (\<lambda>x. shown H (fst off + x) (snd off + z))"
      by (simp add: H1(6) Renderer_Pane.paint_row_def)
    then show "ready T (r_dim r2) g z (\<lambda>x. shown H1 (fst off + x) (snd off + z))" using Cons.prems(4) z H1(3) by simp
  qed
  have d: "distinct ys" "set ys \<subseteq> {..<gh g}" using Cons.prems(1,2) by auto
  from Cons.IH [OF d H1(2) rd q]
  obtain H2 where H2: "host_run T o2 H1 = Some H2" "drawing T g off r1 H2" "r_dim r1 = r_dim r" "h_w H2 = h_w H" "h_h H2 = h_h H"
    "shown H2 = (\<lambda>c z. if snd off \<le> z \<and> z - snd off \<in> set ys \<and> fst off \<le> c \<and> c < fst off + gw g
                        then drawn T (r_dim r) g (c - fst off) (z - snd off) else shown H1 c z)"
    unfolding H1(3-5) by blast
  have "shown H2 = (\<lambda>c z. if snd off \<le> z \<and> z - snd off \<in> set (y # ys) \<and> fst off \<le> c \<and> c < fst off + gw g
                        then drawn T (r_dim r) g (c - fst off) (z - snd off) else shown H c z)"
    unfolding H2(6) H1(6) Renderer_Pane.paint_row_def by (intro ext) auto
  then show ?case using H1(1) H2 o by (auto simp: host_run_append)
qed

end

lemma full_row_paints:
  assumes "drawing T g off r H" and "y < gh g" and "full_row T g off y r = (out, r1)"
  shows "\<exists>H1. host_run T out H = Some H1 \<and> drawing T g off r1 H1 \<and> r_dim r1 = r_dim r \<and> h_w H1 = h_w H \<and> h_h H1 = h_h H
      \<and> shown H1 = paint_row T (r_dim r) g off y (shown H)"
proof (cases "gw g = 0")
  case True
  then show ?thesis using assms by (auto simp: full_row_def paint_row_def fun_eq_iff)
next
  case False
  have w: "whole g" using assms(1) by (simp add: drawing_def)
  have run: "run_ok g y 0 (gw g - 1 + 1)" using edge_cells(1) [OF w assms(2)] False by (simp add: run_ok_def)
  have e: "render_row T g y 0 (gw g - 1) (fst off, snd off) r = (out, r1)" using assms(3) False by (simp add: full_row_def)
  show ?thesis using run_paints [OF _ assms(2) run _ e] assms(1) by simp
qed

interpretation full: row_painter full_row "\<lambda>_ _ _ _ _. True"
  using full_row_paints by unfold_locales

text \<open>A damaged row is ready when the cells outside the damage are right already.\<close>

definition rest_drawn :: "tables \<Rightarrow> bool \<Rightarrow> grid \<Rightarrow> nat \<Rightarrow> (nat \<Rightarrow> shown_cell) \<Rightarrow> bool" where
  "rest_drawn T d g y s \<longleftrightarrow> (\<forall>x<gw g. damaged g x y \<or> s x = drawn T d g x y)"

lemma damage_row_paints:
  assumes "drawing T g off r H" and "y < gh g" and "rest_drawn T (r_dim r) g y (\<lambda>x. shown H (fst off + x) (snd off + y))"
    and "damage_row T g off y r = (out, r1)"
  shows "\<exists>H1. host_run T out H = Some H1 \<and> drawing T g off r1 H1 \<and> r_dim r1 = r_dim r \<and> h_w H1 = h_w H \<and> h_h H1 = h_h H
      \<and> shown H1 = paint_row T (r_dim r) g off y (shown H)"
proof (cases "dirty (damage g ! y)")
  case False
  then have "out = []" "r1 = r" using assms(4) by (auto simp: damage_row_def row_damage_at_def Let_def)
  moreover have "shown H = paint_row T (r_dim r) g off y (shown H)"
  proof (intro ext)
    fix c z
    show "shown H c z = paint_row T (r_dim r) g off y (shown H) c z"
    proof (cases "z = snd off + y \<and> fst off \<le> c \<and> c < fst off + gw g")
      case True
      then have "c - fst off < gw g" "fst off + (c - fst off) = c" by auto
      then show ?thesis using assms(3) False True unfolding rest_drawn_def damaged_def paint_row_def by metis
    qed (auto simp: paint_row_def)
  qed
  ultimately show ?thesis using assms(1) by auto
next
  case True
  let ?i = "lo (damage g ! y)" and ?j = "hi (damage g ! y)"
  obtain i1 j1 where x: "expanded_damage g y ?i ?j = (i1, j1)" by fastforce
  have e: "render_row T g y i1 j1 (fst off, snd off) r = (out, r1)" using assms(4) True x by (simp add: damage_row_def row_damage_at_def Let_def)
  have w: "whole g" "?i \<le> ?j" "?j < gw g" using assms(1,2) True by (auto simp: drawing_def damage_ok_def)
  have run: "run_ok g y i1 (j1 + 1)" "i1 \<le> ?i" "?j \<le> j1" using expanded_run [OF w(1) assms(2) w(2,3) x] by auto
  have "shown H (fst off + x) (snd off + y) = drawn T (r_dim r) g x y" if "x < gw g" "x < i1 \<or> j1 < x" for x
    using assms(3) that run(2,3) by (auto simp: rest_drawn_def damaged_def)
  then show ?thesis using run_paints [OF _ assms(2) run(1) _ e] assms(1) by simp
qed

interpretation damage: row_painter damage_row rest_drawn
  using damage_row_paints by unfold_locales

section \<open>Frames\<close>

text \<open>The screen with the whole pane painted, and what a frame leaves.\<close>

definition pane_painted :: "tables \<Rightarrow> bool \<Rightarrow> grid \<Rightarrow> nat \<times> nat \<Rightarrow> (nat \<Rightarrow> nat \<Rightarrow> shown_cell) \<Rightarrow> nat \<Rightarrow> nat \<Rightarrow> shown_cell" where
  "pane_painted T d g off s c z =
     (if fst off \<le> c \<and> c < fst off + gw g \<and> snd off \<le> z \<and> z < snd off + gh g
      then drawn T d g (c - fst off) (z - snd off) else s c z)"

definition framed_pane :: "tables \<Rightarrow> grid \<Rightarrow> nat \<times> nat \<Rightarrow> tty list \<Rightarrow> renderer \<Rightarrow> renderer \<Rightarrow> host \<Rightarrow> bool" where
  "framed_pane T g off out r r1 H \<longleftrightarrow>
     (case host_run T out H of
        None \<Rightarrow> False
      | Some H1 \<Rightarrow> drawing T g off r1 H1 \<and> r_dim r1 = r_dim r \<and> h_w H1 = h_w H \<and> h_h H1 = h_h H
                   \<and> shown H1 = pane_painted T (r_dim r) g off (shown H))"

lemma rows_painted:
  "(\<lambda>c z. if snd off \<le> z \<and> z - snd off \<in> set [0..<gh g] \<and> fst off \<le> c \<and> c < fst off + gw g
      then drawn T d g (c - fst off) (z - snd off) else s c z) = pane_painted T d g off s"
  by (intro ext) (auto simp: pane_painted_def)

lemma close_framed:
  assumes "\<exists>H1. host_run T out H = Some H1 \<and> drawing T g off r1 H1 \<and> r_dim r1 = r_dim r \<and> h_w H1 = h_w H \<and> h_h H1 = h_h H
      \<and> shown H1 = (\<lambda>c z. if snd off \<le> z \<and> z - snd off \<in> set [0..<gh g] \<and> fst off \<le> c \<and> c < fst off + gw g
                        then drawn T (r_dim r) g (c - fst off) (z - snd off) else shown H c z)"
    and "and_close (out, r1) = (out2, r2)"
  shows "framed_pane T g off out2 r r2 H \<and> r_link r2 = None"
proof -
  obtain H1 where H1: "host_run T out H = Some H1" "drawing T g off r1 H1" "r_dim r1 = r_dim r" "h_w H1 = h_w H" "h_h H1 = h_h H"
    "shown H1 = pane_painted T (r_dim r) g off (shown H)" using assms(1) unfolding rows_painted by blast
  obtain o3 where c: "close_hyperlink r1 = (o3, r2)" and o: "out2 = out @ o3" using assms(2) by (auto simp: and_close_def split: prod.splits)
  have l: "h_link H1 = r_link r1" using H1(2) by (simp add: drawing_def cache_ok_def)
  from close_hyperlink_run [OF l c, of T] have r: "host_run T o3 H1 = Some (H1\<lparr>h_link := None\<rparr>)" "r2 = r1\<lparr>r_link := None\<rparr>" by auto
  have "drawing T g off r2 (H1\<lparr>h_link := None\<rparr>)"
    using H1(2) by (simp add: r(2) drawing_def cache_ok_def edges_clear_def)
  then show ?thesis using H1 r o by (simp add: framed_pane_def host_run_append)
qed

lemma pane_full_paints:
  assumes "drawing T g off r H" and "render_pane_full T g off r = (out, r1)"
  shows "framed_pane T g off out r r1 H \<and> r_link r1 = None"
proof -
  obtain o1 r2 where e: "each_row (full_row T g off) [0..<gh g] r = (o1, r2)" by fastforce
  have a: "and_close (o1, r2) = (out, r1)" using assms(2) e by (simp add: render_pane_full_def)
  show ?thesis by (rule close_framed [OF full.paint_rows [OF _ _ assms(1) _ e] a]) auto
qed

lemma pane_damage_paints:
  assumes "drawing T g off r H" and "\<forall>y<gh g. rest_drawn T (r_dim r) g y (\<lambda>x. shown H (fst off + x) (snd off + y))"
    and "render_pane_damage_precise T g off r = (out, r1)"
  shows "framed_pane T g off out r r1 H \<and> r_link r1 = None"
proof -
  obtain o1 r2 where e: "each_row (damage_row T g off) [0..<gh g] r = (o1, r2)" by fastforce
  have a: "and_close (o1, r2) = (out, r1)" using assms(3) e by (simp add: render_pane_damage_precise_def)
  show ?thesis by (rule close_framed [OF damage.paint_rows [OF _ _ assms(1) _ e] a]) (use assms(2) in auto)
qed

text \<open>A clean grid writes nothing; damage alone paints what is not right yet; a pending scroll repaints all.\<close>

lemma nothing_to_paint:
  assumes "drawing T g off r H" and "\<not> any_damage g" and "pending_scroll_up g = 0 \<longrightarrow> (\<forall>y<gh g. rest_drawn T (r_dim r) g y (\<lambda>x. shown H (fst off + x) (snd off + y)))"
  shows "framed_pane T g off [] r r H"
proof -
  have d: "damage_ok g" using assms(1) by (simp add: drawing_def)
  have "shown H c z = pane_painted T (r_dim r) g off (shown H) c z" for c z
  proof (cases "fst off \<le> c \<and> c < fst off + gw g \<and> snd off \<le> z \<and> z < snd off + gh g")
    case True
    then have b: "c - fst off < gw g" "z - snd off < gh g" "fst off + (c - fst off) = c" "snd off + (z - snd off) = z" by auto
    have "gw g \<noteq> 0" using b(1) by linarith
    then have p: "pending_scroll_up g = 0" using d assms(2) by (auto simp: damage_ok_def)
    have n: "\<not> damaged g (c - fst off) (z - snd off)" using d assms(2) b(2) by (auto simp: damage_ok_def damaged_def)
    have "rest_drawn T (r_dim r) g (z - snd off) (\<lambda>x. shown H (fst off + x) (snd off + (z - snd off)))" using assms(3) p b(2) by blast
    then show ?thesis using True b n unfolding rest_drawn_def pane_painted_def by metis
  qed (auto simp: pane_painted_def)
  then have "shown H = pane_painted T (r_dim r) g off (shown H)" by (intro ext)
  then show ?thesis using assms(1) by (simp add: framed_pane_def)
qed

lemma damage_frame_paints:
  assumes "drawing T g off r H"
    and "pending_scroll_up g = 0 \<longrightarrow> (\<forall>y<gh g. rest_drawn T (r_dim r) g y (\<lambda>x. shown H (fst off + x) (snd off + y)))"
    and "render_pane_damage T g off r = (out, r1)"
  shows "framed_pane T g off out r r1 H"
  using assms nothing_to_paint [OF assms(1) _ assms(2)] pane_full_paints [OF assms(1), of out r1] pane_damage_paints [OF assms(1), of out r1]
  by (auto simp: render_pane_damage_def split: if_splits)

text \<open>
  Where the pane is as wide as the screen, its rows can be scrolled by the host. What is not
  damaged must then be right after the scroll.
\<close>

definition rest_scrolled :: "tables \<Rightarrow> bool \<Rightarrow> grid \<Rightarrow> nat \<Rightarrow> (nat \<Rightarrow> nat \<Rightarrow> shown_cell) \<Rightarrow> bool" where
  "rest_scrolled T d g oy s \<longleftrightarrow> (\<forall>y<gh g. \<forall>x<gw g. damaged g x y
     \<or> (y + pending_scroll_up g < gh g \<and> s x (oy + y + pending_scroll_up g) = drawn T d g x y))"

lemma scrolled_drawing:
  assumes "drawing T g (0, oy) r H" and "gw g = h_w H" and "0 < gh g" and "close_hyperlink r = (o0, r0)"
    and "rest_scrolled T (r_dim r) g oy (shown H)"
  shows "\<exists>H1. host_run T (o0 @ [ScrollRegion oy (oy + gh g) (pending_scroll_up g)]) H = Some H1
    \<and> drawing T g (0, oy) (r0\<lparr>r_cursor := None\<rparr>) H1 \<and> r_dim r0 = r_dim r \<and> h_w H1 = h_w H \<and> h_h H1 = h_h H
    \<and> (\<forall>y<gh g. rest_drawn T (r_dim r) g y (\<lambda>x. shown H1 x (oy + y)))
    \<and> pane_painted T (r_dim r) g (0, oy) (shown H1) = pane_painted T (r_dim r) g (0, oy) (shown H)"
proof -
  let ?n = "pending_scroll_up g" and ?e = "oy + gh g"
  have g: "?e \<le> h_h H" "\<forall>Y<h_h H. row_whole (h_w H) (\<lambda>c. shown H c Y)" "edges_clear g (0, oy) H" "cache_ok r H" "0 < h_w H \<or> h_w H = 0"
    using assms(1) by (auto simp: drawing_def)
  have l: "h_link H = r_link r" using g(4) by (simp add: cache_ok_def)
  from close_hyperlink_run [OF l assms(4), of T]
  have c: "host_run T o0 H = Some (H\<lparr>h_link := None\<rparr>)" "r0 = r\<lparr>r_link := None\<rparr>" by auto
  define s where "s = (\<lambda>c z. if oy \<le> z \<and> z < ?e \<and> c < h_w H then (if z + ?n < ?e then shown H c (z + ?n) else blank_shown (h_style H)) else shown H c z)"
  let ?H1 = "H\<lparr>h_link := None, shown := s, h_cursor := None\<rparr>"
  have run: "host_run T (o0 @ [ScrollRegion oy ?e ?n]) H = Some ?H1"
    using assms(3) g(1) unfolding host_run_append c(1) s_def by (simp cong: if_cong)
  have row: "row_whole (h_w H) (\<lambda>c. s c Y)" if "Y < h_h H" for Y
  proof (cases "oy \<le> Y \<and> Y < ?e")
    case True
    show ?thesis
    proof (cases "Y + ?n < ?e")
      case a: True
      then have "row_whole (h_w H) (\<lambda>c. shown H c (Y + ?n))" using g(1,2) by simp
      moreover have "shown_width (shown H 0 Y) \<noteq> 0" using g(2) that by (auto simp: row_whole_def)
      ultimately show ?thesis using True a by (auto simp: s_def row_whole_def)
    next
      case False
      have "shown_width (s 0 Y) \<noteq> 0" using True False g(2) that by (auto simp: s_def blank_shown_def row_whole_def)
      then show ?thesis using True False by (auto simp: s_def row_whole_def blank_shown_def)
    qed
  next
    case False
    then show ?thesis using g(2) that by (auto simp: s_def row_whole_def)
  qed
  have edges: "edges_clear g (0, oy) ?H1"
  proof (unfold edges_clear_def, intro allI impI)
    fix y assume y: "y < gh g"
    have o: "gw g = 0 \<or> (shown_width (shown H 0 (oy + z)) \<noteq> 0 \<and> shown_width (shown H (gw g - 1) (oy + z)) \<noteq> 2)" if "z < gh g" for z
      using g(3) that by (simp add: edges_clear_def)
    show "gw g = 0 \<or> (shown_width (shown ?H1 (fst (0, oy)) (snd (0, oy) + y)) \<noteq> 0 \<and> shown_width (shown ?H1 (fst (0, oy) + gw g - 1) (snd (0, oy) + y)) \<noteq> 2)"
      using o [of "y + ?n"] y assms(2) by (auto simp: s_def blank_shown_def add.assoc)
  qed
  have "drawing T g (0, oy) (r0\<lparr>r_cursor := None\<rparr>) ?H1"
    using assms(1) row edges c(2) by (simp add: drawing_def cache_ok_def)
  moreover have "rest_drawn T (r_dim r) g y (\<lambda>x. shown ?H1 x (oy + y))" if "y < gh g" for y
    using assms(5) that assms(2) by (fastforce simp: rest_drawn_def rest_scrolled_def s_def add.assoc)
  moreover have "pane_painted T (r_dim r) g (0, oy) s = pane_painted T (r_dim r) g (0, oy) (shown H)"
    using assms(2) by (intro ext) (auto simp: pane_painted_def s_def)
  ultimately show ?thesis using run c(2) by simp
qed

lemma scroll_frame_paints:
  assumes "drawing T g (0, oy) r H" and "gw g = h_w H" and "rest_scrolled T (r_dim r) g oy (shown H)"
    and "render_pane_damage_with_scroll T g (0, oy) r = (out, r1)" and "0 < gh g"
  shows "framed_pane T g (0, oy) out r r1 H"
proof (cases "any_damage g \<and> pending_scroll_up g \<noteq> 0")
  case True
  obtain o0 r0 where c: "close_hyperlink r = (o0, r0)" by fastforce
  let ?r = "r0\<lparr>r_cursor := None\<rparr>" and ?s = "[ScrollRegion oy (oy + gh g) (pending_scroll_up g)]"
  obtain o2 where p: "render_pane_damage_precise T g (0, oy) ?r = (o2, r1)" and o: "out = (o0 @ ?s) @ o2"
    using assms(4) True c by (auto simp: render_pane_damage_with_scroll_def Let_def split: prod.splits)
  from scrolled_drawing [OF assms(1,2,5) c assms(3)]
  obtain H1 where H1: "host_run T (o0 @ ?s) H = Some H1" "drawing T g (0, oy) ?r H1" "r_dim r0 = r_dim r" "h_w H1 = h_w H" "h_h H1 = h_h H"
    "\<forall>y<gh g. rest_drawn T (r_dim r) g y (\<lambda>x. shown H1 x (oy + y))"
    "pane_painted T (r_dim r) g (0, oy) (shown H1) = pane_painted T (r_dim r) g (0, oy) (shown H)" by blast
  from pane_damage_paints [OF H1(2) _ p] H1(3,6) have "framed_pane T g (0, oy) o2 ?r r1 H1" by simp
  moreover have "host_run T out H = host_run T o2 H1" unfolding o host_run_append [of T "o0 @ ?s"] H1(1) by simp
  ultimately show ?thesis using H1(3-5,7) by (simp add: framed_pane_def split: option.splits)
next
  case False
  have rd: "pending_scroll_up g = 0 \<Longrightarrow> y < gh g \<Longrightarrow> rest_drawn T (r_dim r) g y (\<lambda>x. shown H x (oy + y))" for y
    using assms(3) by (auto simp: rest_drawn_def rest_scrolled_def)
  show ?thesis
  proof (cases "any_damage g")
    case True
    then have p: "pending_scroll_up g = 0" using False by blast
    then have "render_pane_damage_precise T g (0, oy) r = (out, r1)"
      using assms(4) True by (auto simp: render_pane_damage_with_scroll_def Let_def split: prod.splits)
    then show ?thesis using pane_damage_paints [OF assms(1)] rd [OF p] by simp
  next
    case False
    then show ?thesis using nothing_to_paint [OF assms(1) False] rd assms(4) by (auto simp: render_pane_damage_with_scroll_def)
  qed
qed

section \<open>Edits keep the damage in order\<close>

lemma damage_ok_gset:
  assumes "sane g" and "damage_ok g"
  shows "damage_ok (gset x y c g)"
proof (cases "x < gw g \<and> y < gh g \<and> gget x y g \<noteq> c")
  case True
  have "y < length (damage g)" using assms(1) True by (simp add: sane_def grid_wf_def)
  then show ?thesis using True assms(2) by (auto simp: gset_def mark_damage_def Let_def damage_ok_def nth_list_update)
next
  case False
  then have "gset x y c g = g" by (auto simp: gset_def)
  then show ?thesis using assms(2) by simp
qed

lemma damage_ok_same_looks: "same_looks g h \<Longrightarrow> damage_ok h = damage_ok g"
  by (simp add: same_looks_def damage_ok_def)

interpretation damage_edit: edit_invariant "\<lambda>g. sane g \<and> damage_ok g"
  using gset_sane damage_ok_gset intern_ok(1,2) damage_ok_same_looks by unfold_locales blast+

lemma damage_ok_scroll_up:
  assumes "sane g" and "damage_ok g"
  shows "damage_ok (scroll_up b g)"
proof (cases "gh g = 0")
  case True
  then show ?thesis using assms by (simp add: scroll_up_def)
next
  case False
  have w: "grid_wf g" "0 < gw g" using assms by (auto simp: sane_def damage_ok_def)
  have "any_damage (scroll_up b g)" using False w(2) by (simp add: scroll_up_def Let_def mark_rows_damaged_def)
  then show ?thesis
    using assms(2) w scroll_up_damage [OF w(1), of _ b] by (auto simp: damage_ok_def scroll_up_sel [OF False w(1)])
qed

lemma damage_ok_region:
  assumes "region_scrolled a b blank g h" and "sane g" and "damage_ok g"
  shows "damage_ok h"
proof -
  have l: "length (damage g) = gh g" using assms(2) by (simp add: sane_def grid_wf_def)
  obtain ls sb k where h: "h = mark_rows_damaged a b (g\<lparr>rows := ls, scrollback := sb, next_line_id := k, pending_scroll_up := 0\<rparr>)"
    using assms(1) unfolding region_scrolled_def by blast
  show ?thesis using assms(3) l unfolding h damage_ok_def by (auto simp: mark_rows_damaged_def fold_update_nth)
qed

lemma intern_color_looks: "sane g \<Longrightarrow> same_looks g (snd (intern_underline_color c g))"
  using intern_underline_color_ok [OF _ prod.collapse [symmetric]] by blast

lemma apply_edit_damage_ok:
  assumes "sane g" and "damage_ok g" and "edit_ok g e"
  shows "damage_ok (apply_edit sw gc e g)"
proof -
  have w: "grid_wf g" using assms(1) by (simp add: sane_def)
  have c: "damage_ok (snd (intern_underline_color c g))" for c
    using intern_color_looks [OF assms(1)] damage_ok_same_looks assms(2) by blast
  have up: "damage_ok (scroll_region_up_inner i j b keep g)" for i j b keep
    using region_up_cases [of i j b keep g] assms(1,2) damage_ok_scroll_up damage_ok_region [OF region_up_scrolled [OF _ _ w]] by metis
  have down: "damage_ok (scroll_region_down i j b g)" for i j b
    using region_down_cases [of i j b g] assms(1,2) damage_ok_region [OF region_down_scrolled] by metis
  show ?thesis
    using assms c up down damage_edit.clear_keeps [of g] damage_edit.erase_keeps [of g] damage_edit.delete_keeps [of g]
      damage_edit.insert_keeps [of g] damage_edit.set_grapheme_keeps [of g] damage_edit.append_keeps [of g]
    by (cases e) (auto simp: damage_ok_scroll_up scroll_region_up_def scroll_region_up_discarding_def)
qed

lemma apply_edits_damage_ok:
  "sane g \<Longrightarrow> damage_ok g \<Longrightarrow> edits_ok sw gc P es g \<Longrightarrow> damage_ok (apply_edits sw gc es g)"
  by (induction es arbitrary: g) (auto simp: apply_edit_sane apply_edit_damage_ok)

lemma edits_ok_weaken: "edits_ok sw gc P es g \<Longrightarrow> edits_ok sw gc (\<lambda>_ _. True) es g"
  by (induction es arbitrary: g) auto

lemma apply_edit_size: "sane g \<Longrightarrow> edit_ok g e \<Longrightarrow> gw (apply_edit sw gc e g) = gw g \<and> gh (apply_edit sw gc e g) = gh g"
  using edit_kept [of g e sw gc] intern_color_looks [of g] by (cases e) (auto simp: kept_def same_looks_def)

lemma apply_edits_size: "sane g \<Longrightarrow> edits_ok sw gc P es g \<Longrightarrow> gw (apply_edits sw gc es g) = gw g \<and> gh (apply_edits sw gc es g) = gh g"
  by (induction es arbitrary: g) (auto simp: apply_edit_sane apply_edit_size)

section \<open>What is drawn depends on looks only\<close>

text \<open>The width of a character and of the text that is that character agree on being wide.\<close>

definition width_law :: "tables \<Rightarrow> bool" where
  "width_law T \<longleftrightarrow> (\<forall>c. 1 < str_width T [c] \<longleftrightarrow> 1 < (case char_width T c of Some w \<Rightarrow> w | None \<Rightarrow> 0))"

lemma display_text_owned:
  assumes "width_law T"
  shows "display_text T g c =
    (let t = cell_text_owned (clusters g) c in if width c = 1 \<and> 1 < str_width T t then [REPLACEMENT] else t)"
  using assms by (auto simp: display_text_def cell_text_owned_def width_law_def Let_def is_continuation_def)

lemma drawn_looks:
  assumes "width_law T" and "screen g x y = screen h x' y'"
  shows "drawn T d g x y = drawn T d h x' y'"
proof -
  let ?a = "gget x y g" and ?b = "gget x' y' h"
  have e: "cell_text_owned (clusters g) ?a = cell_text_owned (clusters h) ?b" "width ?a = width ?b" "cell_style g ?a = cell_style h ?b"
    "hyperlink (hyperlinks g) (link ?a) = hyperlink (hyperlinks h) (link ?b)"
    using assms(2) by (auto simp: screen_def look_def cell_style_def)
  show ?thesis unfolding drawn_def Let_def display_text_owned [OF assms(1)] e is_continuation_def by simp
qed

section \<open>A client follows its terminal\<close>

text \<open>
  One frame for one client, as \<^verbatim>\<open>broadcast_pane_damage\<close> makes it: the pane's rectangle starts at
  \<open>off\<close> and is \<open>w\<close> wide on a screen of \<open>cols\<close> columns, and the cursor is parked through the
  renderer.
\<close>

definition client_frame :: "tables \<Rightarrow> grid \<Rightarrow> nat \<times> nat \<Rightarrow> nat \<Rightarrow> nat \<Rightarrow> (nat \<times> nat) option \<Rightarrow> renderer \<Rightarrow> tty list \<times> renderer" where
  "client_frame T g off w cols cursor r =
     (let r0 = set_dim False r;
          (o1, r1) = (if fst off = 0 \<and> w = cols \<and> pending_scroll_up g \<noteq> 0
                      then render_pane_damage_with_scroll T g off r0 else render_pane_damage T g off r0);
          (o2, r2) = (case cursor of Some (c, l) \<Rightarrow> place_cursor c l r1 | None \<Rightarrow> ([], r1))
      in (o1 @ o2, r2))"

text \<open>Edits of the terminal and frames in turn; the damage is cleared after each frame.\<close>

fun client_frames :: "tables \<Rightarrow> nat \<times> nat \<Rightarrow> nat \<Rightarrow> (edit list \<times> (nat \<times> nat) option) list \<Rightarrow> grid \<Rightarrow> renderer \<Rightarrow> tty list \<times> grid \<times> renderer" where
  "client_frames T off cols [] g r = ([], g, r)"
| "client_frames T off cols ((es, cursor) # fs) g r =
     (let h = apply_edits (str_width T) (grapheme_count T) es g;
          (o1, r1) = client_frame T h off (gw h) cols cursor r;
          (o2, k, r2) = client_frames T off cols fs (clear_damage h) r1
      in (o1 @ o2, k, r2))"

fun frames_ok :: "tables \<Rightarrow> nat \<Rightarrow> nat \<Rightarrow> (edit list \<times> (nat \<times> nat) option) list \<Rightarrow> grid \<Rightarrow> bool" where
  "frames_ok T w h [] g = True"
| "frames_ok T w h ((es, cursor) # fs) g =
     (edits_ok (str_width T) (grapheme_count T) (\<lambda>g e. \<not> loses_scroll g e) es g
      \<and> drawable T (apply_edits (str_width T) (grapheme_count T) es g)
      \<and> (case cursor of Some (c, l) \<Rightarrow> c < w \<and> l < h | None \<Rightarrow> True)
      \<and> frames_ok T w h fs (clear_damage (apply_edits (str_width T) (grapheme_count T) es g)))"

lemma clear_damage_sel [simp]:
  "gw (clear_damage g) = gw g" "gh (clear_damage g) = gh g" "gget x y (clear_damage g) = gget x y g"
  "clusters (clear_damage g) = clusters g" "hyperlinks (clear_damage g) = hyperlinks g" "underline_colors (clear_damage g) = underline_colors g"
  by (simp_all add: clear_damage_def gget_def)

lemma clear_damage_text [simp]: "display_text T (clear_damage g) = display_text T g" "cell_style (clear_damage g) = cell_style g"
  by (simp_all add: fun_eq_iff display_text_def cell_style_def)

lemma drawn_clear [simp]: "drawn T d (clear_damage g) = drawn T d g"
  by (simp add: fun_eq_iff drawn_def Let_def)

lemma clean_clear:
  assumes "whole g" and "damage_ok g"
  shows "whole (clear_damage g)" and "damage_ok (clear_damage g)"
proof -
  have l: "length (damage g) = gh g" using assms(1) by (simp add: whole_def sane_def grid_wf_def)
  show "whole (clear_damage g)"
    using assms(1) unfolding whole_def sane_def grid_wf_def all_valid_def valid_def colors_wf_def all_paired_def widths_def
    by (auto simp: clear_damage_def)
  show "damage_ok (clear_damage g)" using assms(2) l by (auto simp: damage_ok_def clear_damage_def)
qed

lemma drawing_clear: "drawing T g off r H \<Longrightarrow> drawing T (clear_damage g) off r H"
  using clean_clear [of g] unfolding drawing_def drawable_def edges_clear_def by simp

lemma drawing_other:
  assumes "drawing T g off r H" and "whole h" and "drawable T h" and "damage_ok h" and "gw h = gw g" and "gh h = gh g"
  shows "drawing T h off r H"
  using assms by (simp add: drawing_def edges_clear_def)

lemma drawing_set_dim: "drawing T g off r H \<Longrightarrow> drawing T g off (set_dim d r) H"
  by (auto simp: drawing_def cache_ok_def set_dim_def)

lemma drawing_place:
  assumes "drawing T g off r H" and "x < h_w H" and "y < h_h H" and "place_cursor x y r = (out, r1)"
  shows "\<exists>H1. host_run T out H = Some H1 \<and> drawing T g off r1 H1 \<and> h_w H1 = h_w H \<and> h_h H1 = h_h H \<and> shown H1 = shown H \<and> r_dim r1 = r_dim r"
proof -
  have c: "\<forall>p. r_cursor r = Some p \<longrightarrow> h_cursor H = Some p" using assms(1) by (simp add: drawing_def cache_ok_def)
  from move_cursor_run [OF c assms(2,3)] assms(4)
  have "host_run T out H = Some (H\<lparr>h_cursor := Some (x, y)\<rparr>)" "r1 = r\<lparr>r_cursor := Some (x, y)\<rparr>" by (auto simp: place_cursor_def)
  then show ?thesis using assms(1) by (auto simp: drawing_def cache_ok_def edges_clear_def)
qed

lemma set_dim_dim [simp]: "r_dim (set_dim d r) = d"
  by (simp add: set_dim_def)

text \<open>One frame shows the grid again.\<close>

lemma one_frame:
  assumes "drawing T g off r H" and "width_law T" and "\<not> any_damage g" and "0 < gh g"
    and "shown H = pane_painted T False g off (shown H)"
    and "frames_ok T (h_w H) (h_h H) [(es, cursor)] g"
    and "h = apply_edits (str_width T) (grapheme_count T) es g" and "client_frame T h off (gw h) (h_w H) cursor r = (out, r1)"
  shows "\<exists>H1. host_run T out H = Some H1 \<and> drawing T (clear_damage h) off r1 H1 \<and> h_w H1 = h_w H \<and> h_h H1 = h_h H
    \<and> shown H1 = pane_painted T False h off (shown H)"
proof -
  let ?sw = "str_width T" and ?gc = "grapheme_count T"
  have g: "sane g" "all_paired g" "damage_ok g" "whole g" using assms(1) by (auto simp: drawing_def whole_def)
  have ok: "edits_ok ?sw ?gc (\<lambda>g e. \<not> loses_scroll g e) es g" "drawable T h" "case cursor of Some (c, l) \<Rightarrow> c < h_w H \<and> l < h_h H | None \<Rightarrow> True"
    using assms(6,7) by auto
  have s: "gw h = gw g" "gh h = gh g" using apply_edits_size [OF g(1) ok(1)] assms(7) by auto
  have f0: "faithful (screen g) g" using g(3) assms(3) by (auto simp: faithful_def damage_ok_def)
  have f: "faithful (screen g) h" using apply_edits_faithful [OF g(1) f0 ok(1)] assms(7) by simp
  have w: "whole h" using apply_edits_paired [OF g(1,2) edits_ok_weaken [OF ok(1)]] assms(7) by (simp add: whole_def)
  have dk: "damage_ok h" using apply_edits_damage_ok [OF g(1,3) ok(1)] assms(7) by simp
  let ?r = "set_dim False r" and ?n = "pending_scroll_up h"
  have dr: "drawing T h off ?r H" by (rule drawing_set_dim [OF drawing_other [OF assms(1) w ok(2) dk s]])
  have sh: "shown H (fst off + x) (snd off + y) = drawn T False g x y" if "x < gw g" "y < gh g" for x y
    using fun_cong [OF fun_cong [OF assms(5)], of "fst off + x" "snd off + y"] that by (simp add: pane_painted_def)
  have rest: "damaged h x y \<or> (y + ?n < gh h \<and> shown H (fst off + x) (snd off + y + ?n) = drawn T False h x y)" if "x < gw h" "y < gh h" for x y
  proof (cases "damaged h x y")
    case False
    then have y: "y + ?n < gh h" "screen h x y = screen g x (y + ?n)" using f that by (auto simp: faithful_def)
    then have "drawn T False h x y = drawn T False g x (y + ?n)" using drawn_looks [OF assms(2)] by blast
    then show ?thesis using sh [of x "y + ?n"] y(1) that s by (simp add: add.assoc)
  qed simp
  obtain o1 r2 where fr: "(if fst off = 0 \<and> gw h = h_w H \<and> ?n \<noteq> 0 then render_pane_damage_with_scroll T h off ?r else render_pane_damage T h off ?r) = (o1, r2)"
    by fastforce
  obtain o2 where cu: "(case cursor of Some (c, l) \<Rightarrow> place_cursor c l r2 | None \<Rightarrow> ([], r2)) = (o2, r1)" and o: "out = o1 @ o2"
    using assms(8) fr by (auto simp: client_frame_def Let_def split: prod.splits)
  have "framed_pane T h off o1 ?r r2 H"
  proof (cases "fst off = 0 \<and> gw h = h_w H \<and> ?n \<noteq> 0")
    case True
    then have off: "off = (0, snd off)" by (cases off) simp
    have "rest_scrolled T (r_dim ?r) h (snd off) (shown H)" using rest True by (auto simp: rest_scrolled_def)
    then show ?thesis
      using scroll_frame_paints [of T h "snd off" ?r H o1 r2] dr fr True assms(4) s(2) unfolding off [symmetric] by simp
  next
    case False
    then have "?n = 0 \<longrightarrow> (\<forall>y<gh h. rest_drawn T (r_dim ?r) h y (\<lambda>x. shown H (fst off + x) (snd off + y)))"
      using rest by (fastforce simp: rest_drawn_def)
    moreover have "render_pane_damage T h off ?r = (o1, r2)" using fr unfolding if_not_P [OF False] .
    ultimately show ?thesis by (rule damage_frame_paints [OF dr])
  qed
  then obtain H1 where H1: "host_run T o1 H = Some H1" "drawing T h off r2 H1" "h_w H1 = h_w H" "h_h H1 = h_h H"
    "shown H1 = pane_painted T False h off (shown H)" by (auto simp: framed_pane_def split: option.splits)
  have "\<exists>H2. host_run T o2 H1 = Some H2 \<and> drawing T h off r1 H2 \<and> h_w H2 = h_w H \<and> h_h H2 = h_h H \<and> shown H2 = shown H1"
  proof (cases cursor)
    case (Some p)
    obtain c l where p: "p = (c, l)" by fastforce
    have "c < h_w H1" "l < h_h H1" "place_cursor c l r2 = (o2, r1)" using Some p ok(3) cu H1(3,4) by auto
    from drawing_place [OF H1(2) this] show ?thesis using H1(3,4) by auto
  qed (use cu H1 in auto)
  then show ?thesis using H1 o by (auto simp: host_run_append intro: drawing_clear)
qed

lemma clear_not_dirty: "damage_ok g \<Longrightarrow> \<not> any_damage (clear_damage g)"
  by (auto simp: clear_damage_def)

lemma pane_painted_again [simp]:
  assumes "gw h = gw g" and "gh h = gh g"
  shows "pane_painted T d h off (pane_painted T d g off s) = pane_painted T d h off s"
  using assms by (intro ext) (auto simp: pane_painted_def)

lemma pane_painted_clear [simp]: "pane_painted T d (clear_damage g) off = pane_painted T d g off"
  by (simp add: fun_eq_iff pane_painted_def)

lemma client_frames_follow:
  "drawing T g off r H \<Longrightarrow> width_law T \<Longrightarrow> \<not> any_damage g \<Longrightarrow> 0 < gh g \<Longrightarrow>
   shown H = pane_painted T False g off (shown H) \<Longrightarrow> frames_ok T (h_w H) (h_h H) fs g \<Longrightarrow>
   client_frames T off (h_w H) fs g r = (out, h, r1) \<Longrightarrow>
   \<exists>H1. host_run T out H = Some H1 \<and> drawing T h off r1 H1 \<and> gw h = gw g \<and> gh h = gh g
     \<and> shown H1 = pane_painted T False h off (shown H)"
proof (induction fs arbitrary: g r H out)
  case Nil
  then show ?case by auto
next
  case (Cons f fs)
  obtain es cursor where f: "f = (es, cursor)" by fastforce
  let ?k = "apply_edits (str_width T) (grapheme_count T) es g"
  obtain o1 r2 where a: "client_frame T ?k off (gw ?k) (h_w H) cursor r = (o1, r2)" by fastforce
  obtain o2 where b: "client_frames T off (h_w H) fs (clear_damage ?k) r2 = (o2, h, r1)" and o: "out = o1 @ o2"
    using Cons.prems(7) a by (auto simp: f Let_def split: prod.splits)
  have ok: "frames_ok T (h_w H) (h_h H) [(es, cursor)] g" "frames_ok T (h_w H) (h_h H) fs (clear_damage ?k)"
    using Cons.prems(6) by (auto simp: f)
  have g: "sane g" "edits_ok (str_width T) (grapheme_count T) (\<lambda>g e. \<not> loses_scroll g e) es g"
    using Cons.prems(1) ok(1) by (auto simp: drawing_def whole_def)
  note sz = apply_edits_size [OF g]
  from one_frame [OF Cons.prems(1-5) ok(1) refl a]
  obtain H1 where H1: "host_run T o1 H = Some H1" "drawing T (clear_damage ?k) off r2 H1" "h_w H1 = h_w H" "h_h H1 = h_h H"
    "shown H1 = pane_painted T False ?k off (shown H)" by blast
  have c: "\<not> any_damage (clear_damage ?k)" by (simp add: clear_damage_def)
  have "shown H1 = pane_painted T False (clear_damage ?k) off (shown H1)" by (simp add: H1(5))
  from Cons.IH [OF H1(2) Cons.prems(2) c _ this] ok(2) b sz H1(3,4) Cons.prems(4)
  obtain H2 where H2: "host_run T o2 H1 = Some H2" "drawing T h off r1 H2" "gw h = gw g" "gh h = gh g"
    "shown H2 = pane_painted T False h off (shown H1)" by auto
  have "shown H2 = pane_painted T False h off (shown H)" unfolding H2(5) H1(5) using sz H2(3,4) by simp
  then show ?case using H1(1) H2 o by (auto simp: host_run_append)
qed


text \<open>The baseline that an attaching client gets is such a start.\<close>

lemma attach_baseline:
  assumes "whole g" and "drawable T g" and "damage_ok g" and "gw g \<le> h_w H" and "gh g \<le> h_h H" and "h_link H = None"
    and "render_full T g r = (out, r1)"
  shows "\<exists>H1. host_run T out H = Some H1 \<and> drawing T (clear_damage g) (0, 0) r1 H1 \<and> h_w H1 = h_w H \<and> h_h H1 = h_h H
    \<and> shown H1 = pane_painted T (r_dim r) g (0, 0) (shown H1)"
proof -
  let ?H = "H\<lparr>shown := (\<lambda>c z. blank_shown (h_style H))\<rparr>"
  obtain o1 where p: "render_pane_full T g (0, 0) (invalidate r) = (o1, r1)" and o: "out = EraseDisplay # o1"
    using assms(7) by (auto simp: render_full_def split: prod.splits)
  have "drawing T g (0, 0) (invalidate r) ?H"
    using assms(1-6) by (simp add: drawing_def row_whole_def blank_shown_def edges_clear_def cache_ok_def invalidate_def)
  from pane_full_paints [OF this p]
  obtain H1 where H1: "host_run T o1 ?H = Some H1" "drawing T g (0, 0) r1 H1" "h_w H1 = h_w H" "h_h H1 = h_h H"
    "shown H1 = pane_painted T (r_dim r) g (0, 0) (\<lambda>c z. blank_shown (h_style H))"
    by (auto simp: framed_pane_def invalidate_def split: option.splits)
  have "shown H1 = pane_painted T (r_dim r) g (0, 0) (shown H1)" unfolding H1(5) by simp
  then show ?thesis using H1 o by (auto intro: drawing_clear)
qed

text \<open>Tables in which every character is one column wide, as for plain text.\<close>

definition narrow_tables :: tables where
  "narrow_tables = \<lparr>str_width = length, char_width = (\<lambda>_. Some 1), grapheme_count = (\<lambda>_. 1), json_event = (\<lambda>_. None)\<rparr>"

lemma narrow_law: "width_law narrow_tables"
  by (simp add: width_law_def narrow_tables_def)

definition sample_frames :: "(edit list \<times> (nat \<times> nat) option) list" where
  "sample_frames = [([SetGrapheme 1 1 [65] cell_default 1], Some (2, 1)), ([ScrollUp cell_default], None)]"

text \<open>Unstyled single characters are drawable there.\<close>

definition plain_char :: "cell \<Rightarrow> bool" where
  "plain_char c \<longleftrightarrow> width c = 1 \<and> cluster c = 0 \<and> fg c = ColorDefault \<and> bg c = ColorDefault \<and> attrs c = 0 \<and> ucolor c = 0"

lemma drawable_plain:
  assumes "sane g" and "list_all (\<lambda>l. list_all plain_char (cells l)) (rows g)"
  shows "drawable narrow_tables g"
proof -
  have u: "underline_color (underline_colors g) 0 = ColorDefault" using assms(1) by (simp add: sane_def colors_wf_def underline_color_def)
  have "plain_char (gget x y g)" if "x < gw g" "y < gh g" for x y
    using assms that by (simp add: list_all_length sane_def grid_wf_def gget_def)
  then have "max 1 (min 2 (str_width narrow_tables (display_text narrow_tables g (gget x y g)))) = width (gget x y g)
      \<and> style_ok (cell_style g (gget x y g))" if "x < gw g" "y < gh g" for x y
    using that u plain_style_ok
    by (simp add: plain_char_def display_text_def narrow_tables_def cell_style_def plain_style_def is_continuation_def)
  then show ?thesis by (simp add: drawable_def narrow_tables_def)
qed

abbreviation sample_grid :: "edit list \<Rightarrow> grid \<Rightarrow> grid" where
  "sample_grid es g \<equiv> apply_edits length (\<lambda>_. 1) es (clear_damage g)"

lemma sample_edits:
  "edits_ok length (\<lambda>_. 1) (\<lambda>g e. \<not> loses_scroll g e) [SetGrapheme 1 1 [65] cell_default 1] (clear_damage (grid_new 3 2))"
  "edits_ok length (\<lambda>_. 1) (\<lambda>g e. \<not> loses_scroll g e) [ScrollUp cell_default]
     (clear_damage (sample_grid [SetGrapheme 1 1 [65] cell_default 1] (grid_new 3 2)))"
  "list_all (\<lambda>l. list_all plain_char (cells l)) (rows (grid_new 3 2))"
  "list_all (\<lambda>l. list_all plain_char (cells l)) (rows (sample_grid [SetGrapheme 1 1 [65] cell_default 1] (grid_new 3 2)))"
  "list_all (\<lambda>l. list_all plain_char (cells l))
     (rows (sample_grid [ScrollUp cell_default] (sample_grid [SetGrapheme 1 1 [65] cell_default 1] (grid_new 3 2))))"
  "damage_ok (grid_new 3 2)"
  by code_simp+

lemma edits_sane: "sane g \<Longrightarrow> edits_ok sw gc P es g \<Longrightarrow> sane (apply_edits sw gc es g)"
  by (induction es arbitrary: g) (auto simp: apply_edit_sane)

lemma clear_sane: "sane g \<Longrightarrow> sane (clear_damage g)"
  unfolding sane_def grid_wf_def all_valid_def valid_def colors_wf_def by (auto simp: clear_damage_def)

lemma sample_ok:
  "drawable narrow_tables (grid_new 3 2)" "frames_ok narrow_tables 3 3 sample_frames (clear_damage (grid_new 3 2))"
proof -
  note s1 = clear_sane [OF sane_new, of 3 2]
  note s2 = edits_sane [OF s1 sample_edits(1)]
  note s3 = edits_sane [OF clear_sane [OF s2] sample_edits(2)]
  show "drawable narrow_tables (grid_new 3 2)" by (rule drawable_plain [OF sane_new sample_edits(3)])
  show "frames_ok narrow_tables 3 3 sample_frames (clear_damage (grid_new 3 2))"
    unfolding sample_frames_def frames_ok.simps
    using sample_edits(1,2) drawable_plain [OF s2 sample_edits(4)] drawable_plain [OF s3 sample_edits(5)]
    by (simp add: narrow_tables_def)
qed

lemma sample_shows:
  "drawn narrow_tables False (fst (snd (client_frames narrow_tables (0, 0) 3 sample_frames (clear_damage (grid_new 3 2))
     (snd (render_full narrow_tables (grid_new 3 2) renderer_new))))) 1 0 = ([65], plain_style, 1, None)"
  "gw (fst (snd (client_frames narrow_tables (0, 0) 3 sample_frames (clear_damage (grid_new 3 2))
     (snd (render_full narrow_tables (grid_new 3 2) renderer_new))))) = 3"
  "gh (fst (snd (client_frames narrow_tables (0, 0) 3 sample_frames (clear_damage (grid_new 3 2))
     (snd (render_full narrow_tables (grid_new 3 2) renderer_new))))) = 2"
  by code_simp+


end
