(* ===== verification/Timeline.thy ===== *)
theory Timeline
  imports Prelude
begin

text \<open>
  The day projections of \<^verbatim>\<open>uniterm-core/src/timeline.rs\<close>: grouping observations into spans, and
  the two forests (provider sessions, launches of agents) that the views draw. Both forests are
  made by one walk with an explicit stack over data that may be cyclic; the walk is modelled
  once, with what a row remembers of its parent as a parameter.
\<close>

section \<open>Observations\<close>

record timeline_context =
  tc_project :: "project_id option"
  tc_project_name :: str
  tc_root :: str
  tc_branch :: str
  tc_tab :: str
  tc_pane :: "pane_id option"

definition context_default :: timeline_context where
  "context_default = \<lparr>tc_project = None, tc_project_name = [], tc_root = [], tc_branch = [], tc_tab = [], tc_pane = None\<rparr>"

datatype timeline_kind = KindVisit | KindAgent | KindNote | KindPrompt | KindBoundary

record timeline_entry =
  te_sequence :: u64
  te_timestamp :: u64
  te_context :: timeline_context
  te_invocation :: "u64 option"
  te_provider :: str
  te_session :: "str option"
  te_parent_session :: "str option"
  te_parent_invocation :: "u64 option"
  te_kind :: timeline_kind
  te_summary :: str

record timeline_span =
  sp_first :: u64
  sp_last :: timeline_entry
  sp_observations :: nat

definition new_span :: "timeline_entry \<Rightarrow> timeline_span" where
  "new_span e = \<lparr>sp_first = te_timestamp e, sp_last = e, sp_observations = 1\<rparr>"

definition unknown_or_same :: "'a option \<Rightarrow> 'a option \<Rightarrow> bool" where
  "unknown_or_same a b \<longleftrightarrow> a = None \<or> b = None \<or> a = b"

text \<open>The newest observation replaces the last one but keeps a known context.\<close>

definition succeed :: "timeline_entry \<Rightarrow> timeline_entry \<Rightarrow> timeline_entry" where
  "succeed old e = (if tc_project (te_context e) = None then e\<lparr>te_context := te_context old\<rparr> else e)"

definition span_extend :: "timeline_entry \<Rightarrow> timeline_span \<Rightarrow> timeline_span" where
  "span_extend e s = s\<lparr>sp_last := succeed (sp_last s) e, sp_observations := sp_observations s + 1\<rparr>"

definition spans_step :: "timeline_entry \<Rightarrow> timeline_span list \<times> (u64 \<rightharpoonup> nat) \<Rightarrow> timeline_span list \<times> (u64 \<rightharpoonup> nat)" where
  "spans_step e st =
     (case st of (rs, iv) \<Rightarrow>
        (case (if te_kind e = KindAgent then te_invocation e else None) of
           None \<Rightarrow> (rs @ [new_span e], iv)
         | Some k \<Rightarrow>
             (case iv k of
                Some i \<Rightarrow>
                  if unknown_or_same (te_session (sp_last (rs ! i))) (te_session e)
                     \<and> unknown_or_same (tc_project (te_context (sp_last (rs ! i)))) (tc_project (te_context e))
                  then (rs[i := span_extend e (rs ! i)], iv)
                  else (rs @ [new_span e], iv(k \<mapsto> length rs))
              | None \<Rightarrow> (rs @ [new_span e], iv(k \<mapsto> length rs)))))"

definition spans :: "timeline_entry list \<Rightarrow> timeline_span list" where
  "spans es = fst (fold spans_step es ([], Map.empty))"

section \<open>Walking a forest\<close>

text \<open>
  The stack holds nodes with what their row will say (\<open>'a\<close>); \<open>nx\<close> gives what the children of
  the row written at a position will say. An index outside \<open>visited\<close> would be a panic.
\<close>

lemma count_list_update:
  "i < length xs \<Longrightarrow> \<not> xs ! i \<Longrightarrow> count_list (xs[i := True]) False < count_list xs False"
proof (induction xs arbitrary: i)
  case (Cons x xs)
  then show ?case by (cases i) auto
qed simp

function walk :: "(nat \<Rightarrow> nat list) \<Rightarrow> ('a \<Rightarrow> nat \<Rightarrow> 'a) \<Rightarrow> (nat \<times> 'a) list \<Rightarrow> bool list \<Rightarrow> (nat \<times> 'a) list
    \<Rightarrow> (bool list \<times> (nat \<times> 'a) list) option" where
  "walk ch nx [] vis out = Some (vis, out)"
| "walk ch nx ((i, a) # st) vis out =
     (if i \<ge> length vis then None
      else if vis ! i then walk ch nx st vis out
      else walk ch nx (map (\<lambda>c. (c, nx a (length out))) (ch i) @ st) (vis[i := True]) (out @ [(i, a)]))"
  by pat_completeness auto

termination walk
  by (relation "measures [\<lambda>(ch, nx, st, vis, out). count_list vis False, \<lambda>(ch, nx, st, vis, out). length st]")
    (auto simp: count_list_update)

fun walk_roots :: "(nat \<Rightarrow> nat list) \<Rightarrow> ('a \<Rightarrow> nat \<Rightarrow> 'a) \<Rightarrow> 'a \<Rightarrow> nat list \<Rightarrow> bool list \<Rightarrow> (nat \<times> 'a) list
    \<Rightarrow> (bool list \<times> (nat \<times> 'a) list) option" where
  "walk_roots ch nx a [] vis out = Some (vis, out)"
| "walk_roots ch nx a (r # rs) vis out =
     Option.bind (walk ch nx [(r, a)] vis out) (\<lambda>(vis1, out1). walk_roots ch nx a rs vis1 out1)"

definition children_of :: "(nat \<Rightarrow> nat option) \<Rightarrow> nat \<Rightarrow> nat \<Rightarrow> nat list" where
  "children_of par n p = filter (\<lambda>i. par i = Some p) [0..<n]"

definition forest :: "('a \<Rightarrow> nat \<Rightarrow> 'a) \<Rightarrow> 'a \<Rightarrow> (nat \<Rightarrow> nat option) \<Rightarrow> nat \<Rightarrow> (nat \<times> 'a) list option" where
  "forest nx a par n =
     map_option snd (walk_roots (children_of par n) nx a (filter (\<lambda>i. par i = None) [0..<n] @ [0..<n]) (replicate n False) [])"

section \<open>Sessions\<close>

record agent_tree_row =
  tr_span :: timeline_span
  tr_depth :: nat
  tr_parent_missing :: bool

definition session_key :: "timeline_entry \<Rightarrow> (str \<times> str) option" where
  "session_key e = map_option (Pair (te_provider e)) (te_session e)"

definition set_key :: "'k option \<Rightarrow> nat \<Rightarrow> ('k \<rightharpoonup> nat) \<Rightarrow> 'k \<rightharpoonup> nat" where
  "set_key k i m = (case k of Some k \<Rightarrow> m(k \<mapsto> i) | None \<Rightarrow> m)"

definition merge_span :: "timeline_span \<Rightarrow> timeline_span \<Rightarrow> timeline_span" where
  "merge_span n s =
     (let parent = (case te_parent_session (sp_last n) of Some p \<Rightarrow> Some p | None \<Rightarrow> te_parent_session (sp_last s));
          last1 = (if te_sequence (sp_last s) > te_sequence (sp_last n) then sp_last s else sp_last n);
          last2 = (if te_parent_session last1 = None then last1\<lparr>te_parent_session := parent\<rparr> else last1)
      in \<lparr>sp_first = min (sp_first n) (sp_first s), sp_last = last2, sp_observations = sp_observations n + sp_observations s\<rparr>)"

type_synonym tree_nodes = "timeline_span list \<times> (str \<times> str \<rightharpoonup> nat) \<times> (u64 \<rightharpoonup> nat)"

definition tree_existing :: "timeline_entry \<Rightarrow> tree_nodes \<Rightarrow> nat option" where
  "tree_existing e st =
     (case st of (nodes, ses, iv) \<Rightarrow>
        (case Option.bind (session_key e) ses of
           Some i \<Rightarrow> Some i
         | None \<Rightarrow>
             (case Option.bind (te_invocation e) iv of
                Some i \<Rightarrow> if te_session (sp_last (nodes ! i)) = None \<or> te_session e = None then Some i else None
              | None \<Rightarrow> None)))"

definition tree_step :: "timeline_span \<Rightarrow> tree_nodes \<Rightarrow> tree_nodes" where
  "tree_step s st =
     (case st of (nodes, ses, iv) \<Rightarrow>
        (let e = sp_last s
         in if te_kind e \<noteq> KindAgent \<or> te_provider e = [] then st
            else (case tree_existing e st of
                    Some i \<Rightarrow> (nodes[i := merge_span (nodes ! i) s], set_key (session_key e) i ses, iv)
                  | None \<Rightarrow> (nodes @ [s], set_key (session_key e) (length nodes) ses, set_key (te_invocation e) (length nodes) iv))))"

definition tree_nodes :: "timeline_entry list \<Rightarrow> tree_nodes" where
  "tree_nodes es = fold tree_step (spans es) ([], Map.empty, Map.empty)"

definition tree_parent :: "tree_nodes \<Rightarrow> nat \<Rightarrow> nat option" where
  "tree_parent st i =
     (case st of (nodes, ses, iv) \<Rightarrow>
        (case Option.bind (te_parent_session (sp_last (nodes ! i))) (\<lambda>id. ses (te_provider (sp_last (nodes ! i)), id)) of
           Some p \<Rightarrow> if p \<noteq> i then Some p else None
         | None \<Rightarrow> None))"

definition tree_row :: "timeline_span list \<Rightarrow> nat \<times> nat \<Rightarrow> agent_tree_row" where
  "tree_row nodes r =
     (case r of (i, d) \<Rightarrow>
        \<lparr>tr_span = nodes ! i, tr_depth = d, tr_parent_missing = (d = 0 \<and> te_parent_session (sp_last (nodes ! i)) \<noteq> None)\<rparr>)"

definition agent_tree :: "timeline_entry list \<Rightarrow> agent_tree_row list option" where
  "agent_tree es =
     (let st = tree_nodes es
      in map_option (map (tree_row (fst st))) (forest (\<lambda>d _. d + 1) 0 (tree_parent st) (length (fst st))))"

section \<open>Launches\<close>

record agent_flow_node =
  af_span :: timeline_span
  af_parent :: "nat option"
  af_depth :: nat
  af_parent_missing :: bool

definition flow_key :: "timeline_entry \<Rightarrow> u64 option" where
  "flow_key e = (if te_kind e = KindAgent \<and> tc_pane (te_context e) \<noteq> None \<and> te_provider e \<noteq> [] then te_invocation e else None)"

definition flow_update :: "timeline_entry \<Rightarrow> timeline_span \<Rightarrow> timeline_span" where
  "flow_update e n =
     (if te_sequence (sp_last n) = te_sequence e then n
      else
        \<lparr>sp_first = min (sp_first n) (te_timestamp e),
         sp_last =
           (if te_sequence e > te_sequence (sp_last n)
            then (succeed (sp_last n) e)\<lparr>te_parent_invocation :=
                   (case te_parent_invocation e of Some p \<Rightarrow> Some p | None \<Rightarrow> te_parent_invocation (sp_last n))\<rparr>
            else sp_last n),
         sp_observations = sp_observations n + 1\<rparr>)"

definition flow_step :: "timeline_entry \<Rightarrow> timeline_span list \<times> (u64 \<rightharpoonup> nat) \<Rightarrow> timeline_span list \<times> (u64 \<rightharpoonup> nat)" where
  "flow_step e st =
     (case st of (nodes, owners) \<Rightarrow>
        (case flow_key e of
           None \<Rightarrow> st
         | Some k \<Rightarrow>
             (case owners k of
                Some i \<Rightarrow> (nodes[i := flow_update e (nodes ! i)], owners)
              | None \<Rightarrow> (nodes @ [new_span e], owners(k \<mapsto> length nodes)))))"

definition flow_nodes :: "timeline_entry list \<Rightarrow> timeline_span list \<times> (u64 \<rightharpoonup> nat)" where
  "flow_nodes es = fold flow_step es ([], Map.empty)"

definition flow_parent :: "timeline_span list \<times> (u64 \<rightharpoonup> nat) \<Rightarrow> nat \<Rightarrow> nat option" where
  "flow_parent st i =
     (case st of (nodes, owners) \<Rightarrow>
        (case Option.bind (te_parent_invocation (sp_last (nodes ! i))) owners of
           Some p \<Rightarrow>
             if p \<noteq> i \<and> unknown_or_same (tc_project (te_context (sp_last (nodes ! p)))) (tc_project (te_context (sp_last (nodes ! i))))
             then Some p else None
         | None \<Rightarrow> None))"

definition flow_row :: "timeline_span list \<Rightarrow> nat \<times> nat option \<times> nat \<Rightarrow> agent_flow_node" where
  "flow_row nodes r =
     (case r of (i, p, d) \<Rightarrow>
        \<lparr>af_span = nodes ! i, af_parent = p, af_depth = d,
         af_parent_missing = (p = None \<and> te_parent_invocation (sp_last (nodes ! i)) \<noteq> None)\<rparr>)"

definition beneath :: "nat option \<times> nat \<Rightarrow> nat \<Rightarrow> nat option \<times> nat" where
  "beneath a k = (Some k, snd a + 1)"

definition agent_flow :: "timeline_entry list \<Rightarrow> agent_flow_node list option" where
  "agent_flow es =
     (let st = flow_nodes es
      in map_option (map (flow_row (fst st))) (forest beneath (None, 0) (flow_parent st) (length (fst st))))"

section \<open>The walk is a forest\<close>

definition seen :: "(nat \<times> 'a) list \<Rightarrow> nat set" where
  "seen xs = fst ` set xs"

lemma seen_simps [simp]:
  "seen [] = {}" "seen (x # xs) = insert (fst x) (seen xs)" "seen (xs @ ys) = seen xs \<union> seen ys"
  "seen (map (\<lambda>c. (c, b)) cs) = set cs"
  by (auto simp: seen_def image_image)

text \<open>The visited flags are the rows written, without repetition; children of rows are rows or wait on the stack.\<close>

definition walk_inv :: "(nat \<Rightarrow> nat list) \<Rightarrow> nat \<Rightarrow> nat set \<Rightarrow> (nat \<times> 'a) list \<Rightarrow> bool list \<Rightarrow> (nat \<times> 'a) list \<Rightarrow> bool" where
  "walk_inv ch n R st vis out \<longleftrightarrow> length vis = n \<and> distinct (map fst out) \<and> (\<forall>i<n. vis ! i \<longleftrightarrow> i \<in> seen out)
     \<and> seen out \<subseteq> {..<n} \<and> seen st \<subseteq> {..<n} \<and> R \<subseteq> seen st \<union> seen out \<and> (\<forall>i\<in>seen out. set (ch i) \<subseteq> seen st \<union> seen out)"

text \<open>
  A row under another says so truly: the row comes earlier, is the parent's, one level less deep,
  and every row in between is at least as deep, so the depths alone determine the parent.
\<close>

definition below :: "(nat \<Rightarrow> nat option) \<Rightarrow> (nat \<times> nat option \<times> nat) list \<Rightarrow> nat \<times> nat option \<times> nat \<Rightarrow> bool" where
  "below par out r \<longleftrightarrow>
     (case r of
        (i, None, d) \<Rightarrow> d = 0
      | (i, Some q, d) \<Rightarrow> q < length out \<and> par i = Some (fst (out ! q)) \<and> d = snd (snd (out ! q)) + 1
          \<and> (\<forall>m<length out. q < m \<longrightarrow> d \<le> snd (snd (out ! m))))"

definition rows_inv :: "(nat \<Rightarrow> nat option) \<Rightarrow> (nat \<times> nat option \<times> nat) list \<Rightarrow> (nat \<times> nat option \<times> nat) list \<Rightarrow> bool" where
  "rows_inv par st out \<longleftrightarrow> (\<forall>k<length out. below par (take k out) (out ! k)) \<and> (\<forall>r\<in>set st. below par out r)
     \<and> sorted_wrt (\<lambda>x y. snd (snd y) \<le> snd (snd x)) st"

text \<open>Whatever a visit keeps holds when the stack is empty.\<close>

lemma walk_rule:
  assumes "\<And>i a st vis out. I ((i, a) # st) vis out \<Longrightarrow> i < length vis"
    and "\<And>i a st vis out. I ((i, a) # st) vis out \<Longrightarrow> vis ! i \<Longrightarrow> I st vis out"
    and "\<And>i a st vis out. I ((i, a) # st) vis out \<Longrightarrow> i < length vis \<Longrightarrow> \<not> vis ! i \<Longrightarrow>
           I (map (\<lambda>c. (c, nx a (length out))) (ch i) @ st) (vis[i := True]) (out @ [(i, a)])"
  shows "I st vis out \<Longrightarrow> \<exists>vis1 out1. walk ch nx st vis out = Some (vis1, out1) \<and> I [] vis1 out1"
  using assms by (induction ch nx st vis out rule: walk.induct) (simp_all add: not_le)

lemma walk_inv_step:
  assumes "walk_inv ch n R ((i, a) # st) vis out" and "\<And>i. set (ch i) \<subseteq> {..<n}"
  shows "i < length vis" and "vis ! i \<Longrightarrow> walk_inv ch n R st vis out"
    and "\<not> vis ! i \<Longrightarrow> walk_inv ch n R (map (\<lambda>c. (c, b)) (ch i) @ st) (vis[i := True]) (out @ [(i, a)])"
proof -
  show lt: "i < length vis" using assms(1) by (auto simp: walk_inv_def)
  show "walk_inv ch n R st vis out" if "vis ! i"
  proof -
    have "i \<in> seen out" using assms(1) lt that by (auto simp: walk_inv_def)
    then show ?thesis using assms(1) by (auto simp: walk_inv_def)
  qed
  show "walk_inv ch n R (map (\<lambda>c. (c, b)) (ch i) @ st) (vis[i := True]) (out @ [(i, a)])" if "\<not> vis ! i"
  proof -
    have "i \<notin> seen out" using assms(1) lt that by (auto simp: walk_inv_def)
    then have "i \<notin> fst ` set out" by (simp add: seen_def)
    then show ?thesis using assms lt unfolding walk_inv_def by (auto simp: nth_list_update)
  qed
qed

lemma below_grow:
  assumes "below par out r" and "snd (snd r) \<le> snd (snd s)"
  shows "below par (out @ [s]) r"
  using assms by (auto simp: below_def nth_append less_Suc_eq split: prod.splits option.splits)

lemma rows_inv_step:
  assumes "rows_inv par ((i, a) # st) out" and "\<And>c. c \<in> set (ch i) \<Longrightarrow> par c = Some i"
  shows "rows_inv par (map (\<lambda>c. (c, beneath a (length out))) (ch i) @ st) (out @ [(i, a)])"
proof -
  let ?r = "(i, a)"
  have st: "below par out r \<and> snd (snd r) \<le> snd a" if "r \<in> set st" for r using assms(1) that by (auto simp: rows_inv_def)
  have "below par (take k (out @ [?r])) ((out @ [?r]) ! k)" if "k < length (out @ [?r])" for k
    using assms(1) that by (cases "k < length out") (auto simp: rows_inv_def nth_append not_less le_Suc_eq less_Suc_eq)
  moreover have "below par (out @ [?r]) (c, beneath a (length out))" if "c \<in> set (ch i)" for c
    using assms(2) [OF that] by (auto simp: below_def beneath_def)
  moreover have "below par (out @ [?r]) r" if "r \<in> set st" for r using below_grow st [OF that] by auto
  moreover have "sorted_wrt (\<lambda>x y. snd (snd y) \<le> snd (snd x)) (map (\<lambda>c. (c, beneath a (length out))) (ch i) @ st)"
    using assms(1) st by (auto simp: rows_inv_def sorted_wrt_append sorted_wrt_map beneath_def intro: le_SucI)
  ultimately show ?thesis by (auto simp: rows_inv_def)
qed

lemma rows_inv_skip: "rows_inv par (x # st) out \<Longrightarrow> rows_inv par st out"
  by (simp add: rows_inv_def)

definition forest_inv :: "(nat \<Rightarrow> nat option) \<Rightarrow> nat \<Rightarrow> nat set \<Rightarrow> nat set \<Rightarrow> (nat \<times> nat option \<times> nat) list \<Rightarrow> bool list
    \<Rightarrow> (nat \<times> nat option \<times> nat) list \<Rightarrow> bool" where
  "forest_inv par n R Z st vis out \<longleftrightarrow> walk_inv (children_of par n) n R st vis out \<and> rows_inv par st out
     \<and> (\<forall>r\<in>set st \<union> set out. fst (snd r) = None \<longrightarrow> fst r \<in> Z)"

lemma set_children: "c \<in> set (children_of par n i) \<longleftrightarrow> c < n \<and> par c = Some i"
  by (auto simp: children_of_def)

lemma forest_walk:
  assumes "forest_inv par n R Z st vis out"
  shows "\<exists>vis1 out1. walk (children_of par n) beneath st vis out = Some (vis1, out1) \<and> forest_inv par n R Z [] vis1 out1"
proof (rule walk_rule [where I = "forest_inv par n R Z", OF _ _ _ assms])
  have ch: "set (children_of par n i) \<subseteq> {..<n}" for i by (auto simp: set_children)
  fix i a st vis out
  assume I: "forest_inv par n R Z ((i, a) # st) vis out"
  then have w: "walk_inv (children_of par n) n R ((i, a) # st) vis out" by (simp add: forest_inv_def)
  note step = walk_inv_step [OF w ch]
  show "i < length vis" by (rule step(1))
  show "forest_inv par n R Z st vis out" if "vis ! i"
    using I step(2) [OF that] rows_inv_skip [of par "(i, a)"] by (auto simp: forest_inv_def)
  show "forest_inv par n R Z (map (\<lambda>c. (c, beneath a (length out))) (children_of par n i) @ st) (vis[i := True]) (out @ [(i, a)])" if "\<not> vis ! i"
    using I step(3) [OF that] rows_inv_step [of par i a st out "children_of par n"]
    by (auto simp: forest_inv_def set_children beneath_def)
qed

lemma forest_roots:
  "forest_inv par n R Z [] vis out \<Longrightarrow> set rs \<subseteq> {..<n} \<Longrightarrow>
    \<exists>vis1 out1. walk_roots (children_of par n) beneath (None, 0) rs vis out = Some (vis1, out1)
      \<and> forest_inv par n (R \<union> set rs) (Z \<union> set rs) [] vis1 out1"
proof (induction rs arbitrary: R Z vis out)
  case (Cons r rs)
  have "forest_inv par n (insert r R) (insert r Z) [(r, None, 0)] vis out"
    using Cons.prems by (auto simp: forest_inv_def walk_inv_def rows_inv_def below_def)
  from forest_walk [OF this] obtain vis1 out1 where w: "walk (children_of par n) beneath [(r, None, 0)] vis out = Some (vis1, out1)"
    and f: "forest_inv par n (insert r R) (insert r Z) [] vis1 out1" by blast
  from Cons.IH [OF f] Cons.prems(2) show ?case by (auto simp: w simp del: walk.simps)
qed auto

lemma roots_done: "\<forall>r\<in>set rs. r < length vis \<and> vis ! r \<Longrightarrow> walk_roots ch nx a rs vis out = Some (vis, out)"
  by (induction rs) simp_all

lemma walk_roots_append:
  "walk_roots ch nx a (xs @ ys) vis out = Option.bind (walk_roots ch nx a xs vis out) (\<lambda>(v, os). walk_roots ch nx a ys v os)"
  by (induction xs arbitrary: vis out) (auto split: bind_split)

locale parents =
  fixes par :: "nat \<Rightarrow> nat option" and n :: nat
  assumes parent_in: "i < n \<Longrightarrow> par i = Some p \<Longrightarrow> p < n"
begin

text \<open>Every node has exactly one row, and every row under another is below its parent.\<close>

lemma all_reached:
  assumes "forest_inv par n {i. i < n \<and> par i = None} Z [] vis out" and "\<And>i p. i < n \<Longrightarrow> par i = Some p \<Longrightarrow> f p < (f i :: nat)"
  shows "i < n \<Longrightarrow> i \<in> seen out"
proof (induction "f i" arbitrary: i rule: less_induct)
  case less
  show ?case
  proof (cases "par i")
    case None
    then show ?thesis using assms(1) less.prems by (auto simp: forest_inv_def walk_inv_def)
  next
    case (Some p)
    then have "p \<in> seen out" using less assms(2) parent_in by blast
    then have "set (children_of par n p) \<subseteq> seen out" using assms(1) by (auto simp: forest_inv_def walk_inv_def)
    then show ?thesis using Some less.prems by (auto simp: set_children)
  qed
qed

lemma forest_rows:
  "\<exists>out. forest beneath (None, 0) par n = Some out \<and> distinct (map fst out) \<and> seen out = {..<n}
     \<and> (\<forall>k<length out. below par (take k out) (out ! k))
     \<and> ((\<exists>f :: nat \<Rightarrow> nat. \<forall>i<n. \<forall>p. par i = Some p \<longrightarrow> f p < f i) \<longrightarrow> (\<forall>r\<in>set out. fst (snd r) = None \<longrightarrow> par (fst r) = None))"
proof -
  let ?rs = "filter (\<lambda>i. par i = None) [0..<n]" and ?ch = "children_of par n"
  have "forest_inv par n {} {} [] (replicate n False) []"
    by (simp add: forest_inv_def walk_inv_def rows_inv_def)
  from forest_roots [OF this, of ?rs] obtain vis out where p1: "walk_roots ?ch beneath (None, 0) ?rs (replicate n False) [] = Some (vis, out)"
    and f1: "forest_inv par n (set ?rs) (set ?rs) [] vis out" by auto
  have "set [0..<n] \<subseteq> {..<n}" by auto
  from forest_roots [OF f1 this] obtain vis2 out2 where p2: "walk_roots ?ch beneath (None, 0) [0..<n] vis out = Some (vis2, out2)"
    and f2: "forest_inv par n (set ?rs \<union> {0..<n}) (set ?rs \<union> {0..<n}) [] vis2 out2" by auto
  have e: "forest beneath (None, 0) par n = Some out2" by (simp add: forest_def walk_roots_append p1 p2)
  have "par (fst r) = None" if f: "\<forall>i<n. \<forall>p. par i = Some p \<longrightarrow> f p < f i" and r: "r \<in> set out2" "fst (snd r) = None" for f :: "nat \<Rightarrow> nat" and r
  proof -
    have "set ?rs = {i. i < n \<and> par i = None}" by auto
    then have "i \<in> seen out" if "i < n" for i using all_reached [of "set ?rs" vis out f i] f1 f that by auto
    then have "\<forall>i\<in>set [0..<n]. i < length vis \<and> vis ! i" using f1 by (auto simp: forest_inv_def walk_inv_def)
    from roots_done [OF this, of ?ch beneath "(None, 0)" out] p2 have "out2 = out" by simp
    then show ?thesis using f1 r by (auto simp: forest_inv_def)
  qed
  moreover have "distinct (map fst out2)" "seen out2 = {..<n}" "\<forall>k<length out2. below par (take k out2) (out2 ! k)"
    using f2 by (auto simp: forest_inv_def walk_inv_def rows_inv_def)
  ultimately show ?thesis using e by blast
qed

end

section \<open>The nodes\<close>

definition flow_wf :: "timeline_span list \<times> (u64 \<rightharpoonup> nat) \<Rightarrow> bool" where
  "flow_wf st \<longleftrightarrow> (\<forall>k i. snd st k = Some i \<longleftrightarrow> i < length (fst st) \<and> te_invocation (sp_last (fst st ! i)) = Some k)
     \<and> (\<forall>i<length (fst st). te_invocation (sp_last (fst st ! i)) \<noteq> None)"

lemma flow_key_Some: "flow_key e = Some k \<Longrightarrow> te_invocation e = Some k"
  by (simp add: flow_key_def split: if_splits)

lemma flow_update_key: "te_invocation e = te_invocation (sp_last n) \<Longrightarrow> te_invocation (sp_last (flow_update e n)) = te_invocation (sp_last n)"
  by (simp add: flow_update_def succeed_def)

lemma flow_step_wf:
  assumes "flow_wf st"
  shows "flow_wf (flow_step e st)" and "dom (snd (flow_step e st)) = dom (snd st) \<union> {k. flow_key e = Some k}"
proof -
  obtain nodes owners where st: "st = (nodes, owners)" by fastforce
  have w: "owners k = Some i \<longleftrightarrow> i < length nodes \<and> te_invocation (sp_last (nodes ! i)) = Some k" for k i
    using assms by (simp add: flow_wf_def st)
  have n: "te_invocation (sp_last (nodes ! i)) \<noteq> None" if "i < length nodes" for i using assms that by (simp add: flow_wf_def st)
  show "flow_wf (flow_step e st)"
  proof (cases "flow_key e")
    case (Some k)
    note ek = flow_key_Some [OF Some]
    show ?thesis
    proof (cases "owners k")
      case None
      have "te_invocation (sp_last (nodes ! i)) \<noteq> Some k" if "i < length nodes" for i using w [of k i] None that by auto
      then show ?thesis using w n ek Some None
        by (auto simp: flow_wf_def flow_step_def st new_span_def nth_append less_Suc_eq)
    next
      case (Some i)
      then have i: "i < length nodes" "te_invocation (sp_last (nodes ! i)) = Some k" using w by auto
      then have "te_invocation (sp_last (flow_update e (nodes ! i))) = Some k" using flow_update_key [of e "nodes ! i"] ek by simp
      moreover have "flow_step e st = (nodes[i := flow_update e (nodes ! i)], owners)"
        using Some \<open>flow_key e = Some k\<close> by (simp add: flow_step_def st)
      moreover have "te_invocation (sp_last (nodes[i := flow_update e (nodes ! i)] ! j)) = te_invocation (sp_last (nodes ! j))" for j
        using calculation(1) i by (cases "j = i") simp_all
      ultimately show ?thesis using w n by (simp add: flow_wf_def)
    qed
  qed (use assms in \<open>simp add: flow_step_def st\<close>)
  show "dom (snd (flow_step e st)) = dom (snd st) \<union> {k. flow_key e = Some k}"
    by (auto simp: flow_step_def st split: option.splits)
qed

lemma flow_nodes_wf: "flow_wf (flow_nodes es)" "dom (snd (flow_nodes es)) = {k. \<exists>e\<in>set es. flow_key e = Some k}"
proof -
  have "flow_wf (fold flow_step es st) \<and> dom (snd (fold flow_step es st)) = dom (snd st) \<union> {k. \<exists>e\<in>set es. flow_key e = Some k}"
    if "flow_wf st" for st using that
  proof (induction es arbitrary: st)
    case (Cons e es)
    show ?case using Cons.IH [OF flow_step_wf(1) [OF Cons.prems, of e]] flow_step_wf(2) [OF Cons.prems, of e] by auto
  qed simp
  moreover have "flow_wf ([], Map.empty)" by (simp add: flow_wf_def)
  ultimately show "flow_wf (flow_nodes es)" "dom (snd (flow_nodes es)) = {k. \<exists>e\<in>set es. flow_key e = Some k}"
    by (auto simp: flow_nodes_def)
qed

lemma flow_parent_Some:
  assumes "flow_wf st" and "flow_parent st i = Some p"
  shows "p < length (fst st)" and "te_parent_invocation (sp_last (fst st ! i)) = te_invocation (sp_last (fst st ! p))"
    and "unknown_or_same (tc_project (te_context (sp_last (fst st ! p)))) (tc_project (te_context (sp_last (fst st ! i))))"
  using assms by (auto simp: flow_parent_def flow_wf_def bind_eq_Some_conv split: prod.splits option.splits if_splits)

interpretation flow: parents "flow_parent (flow_nodes es)" "length (fst (flow_nodes es))" for es
  by unfold_locales (rule flow_parent_Some(1) [OF flow_nodes_wf(1)])

lemma flow_row_sel:
  "af_span (flow_row nodes r) = nodes ! fst r" "af_parent (flow_row nodes r) = fst (snd r)" "af_depth (flow_row nodes r) = snd (snd r)"
  by (simp_all add: flow_row_def split_beta)

text \<open>Three launches of one pane, two of which claim to have launched each other, and a repeated observation.\<close>

definition demo_agent :: "u64 \<Rightarrow> u64 option \<Rightarrow> timeline_entry" where
  "demo_agent k p = \<lparr>te_sequence = k, te_timestamp = k, te_context = context_default\<lparr>tc_pane := Some (PaneId 1)\<rparr>, te_invocation = Some k,
     te_provider = [99], te_session = Some [unat k], te_parent_session = map_option (\<lambda>q. [unat q]) p, te_parent_invocation = p,
     te_kind = KindAgent, te_summary = []\<rparr>"

definition demo_day :: "timeline_entry list" where
  "demo_day = [demo_agent 1 (Some 2), demo_agent 2 (Some 1), demo_agent 3 (Some 2), demo_agent 1 (Some 2)]"

text \<open>
  C17. The launch forest of a day is a forest of its agents, whatever the log claims about launches,
  cycles included: the projection always answers; each invocation that a Pane agent was observed
  under has exactly one card and there is no other; a card under another comes after it, one level
  deeper, names it as its launcher and is not of a different Project; and every card between the
  two lies at least as deep.
\<close>

theorem agent_flow_forest:
  "\<exists>rows. agent_flow es = Some rows
     \<and> distinct (map (\<lambda>r. te_invocation (sp_last (af_span r))) rows)
     \<and> (\<lambda>r. te_invocation (sp_last (af_span r))) ` set rows = {flow_key e | e. e \<in> set es \<and> flow_key e \<noteq> None}
     \<and> (\<forall>k<length rows.
          (case af_parent (rows ! k) of
             None \<Rightarrow> af_depth (rows ! k) = 0
           | Some q \<Rightarrow> q < k \<and> af_depth (rows ! k) = af_depth (rows ! q) + 1
               \<and> te_parent_invocation (sp_last (af_span (rows ! k))) = te_invocation (sp_last (af_span (rows ! q)))
               \<and> unknown_or_same (tc_project (te_context (sp_last (af_span (rows ! q))))) (tc_project (te_context (sp_last (af_span (rows ! k)))))
               \<and> (\<forall>m<k. q < m \<longrightarrow> af_depth (rows ! k) \<le> af_depth (rows ! m))))"
proof -
  let ?st = "flow_nodes es" and ?n = "length (fst (flow_nodes es))" and ?inv = "\<lambda>r. te_invocation (sp_last (af_span r))"
  note wf = flow_nodes_wf [of es]
  from flow.forest_rows [of es] obtain out where out: "forest beneath (None, 0) (flow_parent ?st) ?n = Some out" "distinct (map fst out)"
    "seen out = {..<?n}" "\<forall>k<length out. below (flow_parent ?st) (take k out) (out ! k)" by blast
  let ?rows = "map (flow_row (fst ?st)) out"
  have e: "agent_flow es = Some ?rows" by (simp add: agent_flow_def out(1))
  have r: "?inv (flow_row (fst ?st) x) = te_invocation (sp_last (fst ?st ! fst x))" for x by (simp add: flow_row_sel)
  have inj: "inj_on (\<lambda>i. te_invocation (sp_last (fst ?st ! i))) {..<?n}"
    using wf(1) unfolding flow_wf_def inj_on_def by (metis lessThan_iff option.exhaust option.inject)
  have "distinct (map (\<lambda>i. te_invocation (sp_last (fst ?st ! i))) (map fst out))"
    using out(2,3) inj by (subst distinct_map) (auto simp: seen_def)
  then have d: "distinct (map ?inv ?rows)" by (simp add: r comp_def)
  have "?inv ` set ?rows = (\<lambda>i. te_invocation (sp_last (fst ?st ! i))) ` seen out" by (simp add: r image_image seen_def)
  also have "\<dots> = Some ` dom (snd ?st)"
  proof (intro set_eqI iffI)
    fix x assume "x \<in> (\<lambda>i. te_invocation (sp_last (fst ?st ! i))) ` seen out"
    then obtain i k where "i < ?n" "te_invocation (sp_last (fst ?st ! i)) = Some k" "x = Some k"
      using wf(1) unfolding flow_wf_def out(3) by auto
    then show "x \<in> Some ` dom (snd ?st)" using wf(1) by (auto simp: flow_wf_def)
  next
    fix x assume "x \<in> Some ` dom (snd ?st)"
    then obtain k i where "x = Some k" "snd ?st k = Some i" by auto
    then show "x \<in> (\<lambda>i. te_invocation (sp_last (fst ?st ! i))) ` seen out" using wf(1) unfolding flow_wf_def out(3) by force
  qed
  also have "\<dots> = {flow_key e | e. e \<in> set es \<and> flow_key e \<noteq> None}" unfolding wf(2) by force
  finally have i: "?inv ` set ?rows = {flow_key e | e. e \<in> set es \<and> flow_key e \<noteq> None}" .
  have b: "case af_parent (?rows ! k) of None \<Rightarrow> af_depth (?rows ! k) = 0
      | Some q \<Rightarrow> q < k \<and> af_depth (?rows ! k) = af_depth (?rows ! q) + 1
          \<and> te_parent_invocation (sp_last (af_span (?rows ! k))) = ?inv (?rows ! q)
          \<and> unknown_or_same (tc_project (te_context (sp_last (af_span (?rows ! q))))) (tc_project (te_context (sp_last (af_span (?rows ! k)))))
          \<and> (\<forall>m<k. q < m \<longrightarrow> af_depth (?rows ! k) \<le> af_depth (?rows ! m))" if k: "k < length out" for k
  proof -
    obtain i p d where o: "out ! k = (i, p, d)" by (metis prod_cases3)
    have bk: "below (flow_parent ?st) (take k out) (i, p, d)" using out(4) k o by metis
    show ?thesis
    proof (cases p)
      case None
      then show ?thesis using bk o k by (simp add: below_def flow_row_sel)
    next
      case (Some q)
      then have q: "q < k" "flow_parent ?st i = Some (fst (out ! q))" "d = snd (snd (out ! q)) + 1"
        "\<forall>m<k. q < m \<longrightarrow> d \<le> snd (snd (out ! m))" using bk k by (auto simp: below_def)
      have k1: "?rows ! k = flow_row (fst ?st) (i, Some q, d)" "q < length out" using k o Some q(1) by simp_all
      show ?thesis unfolding k1(1) using flow_parent_Some(2,3) [OF wf(1) q(2)] q k k1(2) by (simp add: flow_row_sel)
    qed
  qed
  show ?thesis by (rule exI [of _ ?rows]) (use e d i b in simp)
qed

theorem agent_flow_forest_witness:
  "\<exists>rows. agent_flow demo_day = Some rows \<and> map af_depth rows = [0, 1, 2] \<and> distinct (map (\<lambda>r. te_invocation (sp_last (af_span r))) rows)"
proof -
  have "map_option (map af_depth) (agent_flow demo_day) = Some [0, 1, 2]" by code_simp
  then show ?thesis using agent_flow_forest [of demo_day] by auto
qed

section \<open>No observation is lost\<close>

text \<open>The keys of a map point into the list of nodes.\<close>

definition points_into :: "('k \<rightharpoonup> nat) \<Rightarrow> 'b list \<Rightarrow> bool" where
  "points_into m xs \<longleftrightarrow> (\<forall>k i. m k = Some i \<longrightarrow> i < length xs)"

lemma points_into_grow: "points_into m xs \<Longrightarrow> points_into (set_key k (length xs) m) (xs @ [x])"
  by (auto simp: points_into_def set_key_def less_SucI split: option.splits)

lemma sum_list_replace:
  "i < length xs \<Longrightarrow> f y = f (xs ! i) + c \<Longrightarrow> sum_list (map f (xs[i := y])) = sum_list (map f xs) + (c :: nat)"
proof (induction xs arbitrary: i)
  case (Cons x xs)
  then show ?case by (cases i) auto
qed simp

lemma spans_step_keeps:
  assumes "points_into (snd st) (fst st)"
  shows "points_into (snd (spans_step e st)) (fst (spans_step e st))
    \<and> sum_list (map sp_observations (fst (spans_step e st))) = sum_list (map sp_observations (fst st)) + 1"
proof -
  obtain rs iv where st: "st = (rs, iv)" by fastforce
  have g: "points_into (iv(k \<mapsto> length rs)) (rs @ [x])" for k x
    using points_into_grow [of iv rs "Some k" x] assms by (simp add: set_key_def st)
  have g0: "points_into iv (rs @ [x])" for x using points_into_grow [of iv rs None x] assms by (simp add: set_key_def st)
  have u: "sum_list (map sp_observations (rs[i := span_extend e (rs ! i)])) = sum_list (map sp_observations rs) + 1" if "iv k = Some i" for k i
    by (rule sum_list_replace) (use assms that in \<open>auto simp: points_into_def st span_extend_def\<close>)
  show ?thesis
    using assms g g0 u by (auto simp: spans_step_def st new_span_def points_into_def split: option.split)
qed

lemma spans_observations: "sum_list (map sp_observations (spans es)) = length es"
proof -
  have "sum_list (map sp_observations (fst (fold spans_step es st))) = sum_list (map sp_observations (fst st)) + length es"
    if "points_into (snd st) (fst st)" for st using that
  proof (induction es arbitrary: st)
    case (Cons e es)
    show ?case using Cons.IH [of "spans_step e st"] spans_step_keeps [OF Cons.prems, of e] by simp
  qed simp
  then show ?thesis by (simp add: spans_def points_into_def)
qed

definition tree_wf :: "tree_nodes \<Rightarrow> bool" where
  "tree_wf st \<longleftrightarrow> (case st of (nodes, ses, iv) \<Rightarrow> points_into ses nodes \<and> points_into iv nodes)"

definition provided :: "timeline_span \<Rightarrow> bool" where
  "provided s \<longleftrightarrow> te_kind (sp_last s) = KindAgent \<and> te_provider (sp_last s) \<noteq> []"

lemma tree_existing_in: "tree_wf st \<Longrightarrow> tree_existing e st = Some i \<Longrightarrow> i < length (fst st)"
  by (auto simp: tree_wf_def tree_existing_def points_into_def bind_eq_Some_conv split: prod.splits option.splits if_splits)

lemma tree_step_keeps:
  assumes "tree_wf st"
  shows "tree_wf (tree_step s st)
    \<and> sum_list (map sp_observations (fst (tree_step s st))) = sum_list (map sp_observations (fst st)) + (if provided s then sp_observations s else 0)"
proof (cases "provided s")
  case True
  obtain nodes ses iv where st: "st = (nodes, ses, iv)" by (metis prod_cases3)
  have w: "points_into ses nodes" "points_into iv nodes" using assms by (simp_all add: tree_wf_def st)
  show ?thesis
  proof (cases "tree_existing (sp_last s) st")
    case None
    then have "tree_step s st = (nodes @ [s], set_key (session_key (sp_last s)) (length nodes) ses, set_key (te_invocation (sp_last s)) (length nodes) iv)"
      using True by (simp add: tree_step_def st provided_def Let_def)
    then show ?thesis using w True by (simp add: tree_wf_def st points_into_grow)
  next
    case (Some i)
    have i: "i < length nodes" using tree_existing_in [OF assms Some] by (simp add: st)
    have e: "tree_step s st = (nodes[i := merge_span (nodes ! i) s], set_key (session_key (sp_last s)) i ses, iv)"
      using True Some by (simp add: tree_step_def st provided_def Let_def)
    have "sum_list (map sp_observations (nodes[i := merge_span (nodes ! i) s])) = sum_list (map sp_observations nodes) + sp_observations s"
      by (rule sum_list_replace [OF i]) (simp add: merge_span_def Let_def)
    then show ?thesis unfolding e using w i True by (auto simp: tree_wf_def st points_into_def set_key_def split: option.splits)
  qed
next
  case False
  then have "tree_step s st = st" by (auto simp: tree_step_def provided_def Let_def split: prod.split)
  then show ?thesis using assms False by simp
qed

lemma tree_nodes_keep:
  "tree_wf (tree_nodes es)" "sum_list (map sp_observations (fst (tree_nodes es))) = sum_list (map sp_observations (filter provided (spans es)))"
proof -
  have "tree_wf (fold tree_step ss st) \<and> sum_list (map sp_observations (fst (fold tree_step ss st)))
      = sum_list (map sp_observations (fst st)) + sum_list (map sp_observations (filter provided ss))" if "tree_wf st" for ss st using that
  proof (induction ss arbitrary: st)
    case (Cons s ss)
    show ?case using Cons.IH [of "tree_step s st"] tree_step_keeps [OF Cons.prems, of s] by simp
  qed simp
  moreover have "tree_wf ([], Map.empty, Map.empty)" by (simp add: tree_wf_def points_into_def)
  ultimately show "tree_wf (tree_nodes es)"
    "sum_list (map sp_observations (fst (tree_nodes es))) = sum_list (map sp_observations (filter provided (spans es)))"
    by (fastforce simp: tree_nodes_def)+
qed

lemma tree_parent_in: "tree_wf st \<Longrightarrow> tree_parent st i = Some p \<Longrightarrow> p < length (fst st)"
  by (auto simp: tree_parent_def tree_wf_def points_into_def bind_eq_Some_conv split: prod.splits option.splits if_splits)

interpretation tree: parents "tree_parent (tree_nodes es)" "length (fst (tree_nodes es))" for es
  by unfold_locales (rule tree_parent_in [OF tree_nodes_keep(1)])

text \<open>A walk that remembers less writes the same rows.\<close>

lemma walk_forget:
  "(\<And>a k. h (nx a k) = nx' (h a) k) \<Longrightarrow>
   walk ch nx' (map (apsnd h) st) vis (map (apsnd h) out) = map_option (apsnd (map (apsnd h))) (walk ch nx st vis out)"
  by (induction ch nx st vis out rule: walk.induct) (simp_all add: comp_def)

lemma walk_roots_forget:
  assumes "\<And>a k. h (nx a k) = nx' (h a) k"
  shows "walk_roots ch nx' (h a) rs vis (map (apsnd h) out) = map_option (apsnd (map (apsnd h))) (walk_roots ch nx a rs vis out)"
proof (induction rs arbitrary: vis out)
  case (Cons r rs)
  note w = walk_forget [of h nx nx' ch "[(r, a)]" vis out, OF assms]
  show ?case
  proof (cases "walk ch nx [(r, a)] vis out")
    case None
    then show ?thesis using w by (simp del: walk.simps)
  next
    case (Some p)
    then show ?thesis using w Cons.IH by (cases p) (simp del: walk.simps)
  qed
qed simp

lemma forest_forget: "forest (\<lambda>d _. d + 1) 0 par n = map_option (map (apsnd snd)) (forest beneath (None, 0) par n)"
  using walk_roots_forget [of snd beneath "\<lambda>d _. d + 1" "children_of par n" "(None, 0)"
      "filter (\<lambda>i. par i = None) [0..<n] @ [0..<n]" "replicate n False" "[]"]
  by (simp add: forest_def beneath_def option.map_comp comp_def)



end
