(* ===== verification/Copymode.thy ===== *)
theory Copymode
  imports Renderer_Pane Layout
begin

text \<open>
  Copy-mode, \<^verbatim>\<open>crates/uniterm-server/src/copymode.rs\<close>: a viewport over history and screen, a
  selection, a search, and the rows frozen when a selection starts. The state is a record, every
  operation takes the pane's grid as it is then, and one input batch is a recursion over its bytes.
  Freezing re-interns the rows; an exhausted arena there is a panic, so operations that may freeze
  return an option.
\<close>

section \<open>State\<close>

datatype copy_action = CopyNone | Redraw | ExitCopy | CopyText str

record frozen_screen =
  fz_start :: nat
  fz_rows :: grid

record copy_state =
  cs_top :: nat
  cs_cx :: nat
  cs_cy :: nat
  cs_width :: nat
  cs_height :: nat
  cs_anchor :: "(nat \<times> nat) option"
  cs_query :: str
  cs_typing :: bool
  cs_first :: "nat option"
  cs_freeze :: bool
  cs_frozen :: "frozen_screen option"
  cs_finished :: bool

definition fz_capture :: "grid \<Rightarrow> frozen_screen option" where
  "fz_capture g = map_option (\<lambda>f. \<lparr>fz_start = length (scrollback g), fz_rows = f\<rparr>) (freeze_screen g)"

definition copy_new :: "grid \<Rightarrow> rect \<Rightarrow> copy_state" where
  "copy_new g r =
     (let h = max (rh r) 1
      in \<lparr>cs_top = total_lines g - h, cs_cx = 0, cs_cy = h - 1, cs_width = max (rw r) 1, cs_height = h, cs_anchor = None,
          cs_query = [], cs_typing = False, cs_first = first_line_id g, cs_freeze = False, cs_frozen = None, cs_finished = False\<rparr>)"

definition finish_mouse_selection :: "copy_state \<Rightarrow> copy_state" where
  "finish_mouse_selection s = s\<lparr>cs_finished := True\<rparr>"

definition set_freeze_on_select :: "bool \<Rightarrow> copy_state \<Rightarrow> copy_state" where
  "set_freeze_on_select b s = s\<lparr>cs_freeze := b\<rparr>"

definition freeze_if_configured :: "grid \<Rightarrow> copy_state \<Rightarrow> copy_state option" where
  "freeze_if_configured g s =
     (if cs_freeze s \<and> cs_frozen s = None then map_option (\<lambda>f. s\<lparr>cs_frozen := Some f\<rparr>) (fz_capture g) else Some s)"

definition thaw :: "copy_state \<Rightarrow> copy_state" where
  "thaw s = s\<lparr>cs_frozen := None\<rparr>"

definition copy_total :: "grid \<Rightarrow> copy_state \<Rightarrow> nat" where
  "copy_total g s = (case cs_frozen s of Some f \<Rightarrow> fz_start f + gh (fz_rows f) | None \<Rightarrow> total_lines g)"

definition source :: "grid \<Rightarrow> copy_state \<Rightarrow> nat \<Rightarrow> grid \<times> nat" where
  "source g s n =
     (case cs_frozen s of
        Some f \<Rightarrow> if n \<ge> fz_start f then (fz_rows f, n - fz_start f) else (g, n)
      | None \<Rightarrow> (g, n))"

definition max_top :: "grid \<Rightarrow> copy_state \<Rightarrow> nat" where
  "max_top g s = copy_total g s - cs_height s"

definition cursor_line :: "copy_state \<Rightarrow> nat" where
  "cursor_line s = cs_top s + cs_cy s"

definition at_bottom :: "grid \<Rightarrow> copy_state \<Rightarrow> bool" where
  "at_bottom g s \<longleftrightarrow> cs_top s = max_top g s"

definition cursor_pos :: "rect \<Rightarrow> copy_state \<Rightarrow> nat \<times> nat" where
  "cursor_pos r s = (rx r + cs_cx s, ry r + cs_cy s)"

text \<open>Lines evicted from the front of the history move what lies behind them; frozen rows are never evicted.\<close>

definition shift_line :: "nat option \<Rightarrow> nat \<Rightarrow> nat \<Rightarrow> nat option" where
  "shift_line start k n =
     (case start of
        Some st \<Rightarrow> if n \<ge> st then Some (st - k + (n - st)) else if n \<ge> k then Some (n - k) else None
      | None \<Rightarrow> if n \<ge> k then Some (n - k) else None)"

definition copy_evict :: "nat \<Rightarrow> copy_state \<Rightarrow> copy_state" where
  "copy_evict k s =
     (let start = map_option fz_start (cs_frozen s)
      in s\<lparr>cs_top := (case shift_line start k (cs_top s) of Some n \<Rightarrow> n | None \<Rightarrow> 0),
           cs_anchor := (case cs_anchor s of None \<Rightarrow> None | Some (n, x) \<Rightarrow> map_option (\<lambda>m. (m, x)) (shift_line start k n)),
           cs_frozen := map_option (\<lambda>f. f\<lparr>fz_start := fz_start f - k\<rparr>) (cs_frozen s)\<rparr>)"

definition sync_history :: "grid \<Rightarrow> copy_state \<Rightarrow> copy_state" where
  "sync_history g s =
     (let s1 = (case (cs_first s, first_line_id g) of
                  (Some old, Some new) \<Rightarrow> if new - old \<noteq> 0 then copy_evict (new - old) s else s
                | _ \<Rightarrow> s);
          s2 = s1\<lparr>cs_first := first_line_id g\<rparr>
      in s2\<lparr>cs_top := min (cs_top s2) (max_top g s2), cs_cy := min (cs_cy s2) (cs_height s2 - 1)\<rparr>)"

definition copy_resize :: "grid \<Rightarrow> rect \<Rightarrow> bool \<Rightarrow> copy_state \<Rightarrow> copy_state option" where
  "copy_resize g r follow s =
     (let s1 = s\<lparr>cs_width := max (rw r) 1, cs_height := max (rh r) 1\<rparr>
      in map_option (\<lambda>s2.
           s2\<lparr>cs_top := (if follow then max_top g s2 else min (cs_top s2) (max_top g s2)),
              cs_cx := min (cs_cx s2) (cs_width s2 - 1), cs_cy := min (cs_cy s2) (cs_height s2 - 1),
              cs_anchor := None, cs_first := first_line_id g\<rparr>)
         (case cs_frozen s1 of Some _ \<Rightarrow> map_option (\<lambda>f. s1\<lparr>cs_frozen := Some f\<rparr>) (fz_capture g) | None \<Rightarrow> Some s1))"

section \<open>Moving\<close>

definition copy_up :: "copy_state \<Rightarrow> copy_state" where
  "copy_up s = (if cs_cy s > 0 then s\<lparr>cs_cy := cs_cy s - 1\<rparr> else if cs_top s > 0 then s\<lparr>cs_top := cs_top s - 1\<rparr> else s)"

definition copy_down :: "grid \<Rightarrow> copy_state \<Rightarrow> copy_state" where
  "copy_down g s =
     (if cursor_line s \<ge> copy_total g s - 1 then s
      else if cs_cy s < cs_height s - 1 then s\<lparr>cs_cy := cs_cy s + 1\<rparr>
      else if cs_top s < max_top g s then s\<lparr>cs_top := cs_top s + 1\<rparr> else s)"

definition copy_left :: "copy_state \<Rightarrow> copy_state" where
  "copy_left s = s\<lparr>cs_cx := cs_cx s - 1\<rparr>"

definition copy_right :: "copy_state \<Rightarrow> copy_state" where
  "copy_right s = (if cs_cx s + 1 < cs_width s then s\<lparr>cs_cx := cs_cx s + 1\<rparr> else s)"

definition copy_space :: "grid \<Rightarrow> copy_state \<Rightarrow> nat \<Rightarrow> bool" where
  "copy_space g s x = (case source g s (cursor_line s) of (src, n) \<Rightarrow> is_whitespace (ch (line_cell src n x)))"

function skip_right :: "(nat \<Rightarrow> bool) \<Rightarrow> nat \<Rightarrow> nat \<Rightarrow> nat" where
  "skip_right P w x = (if x + 1 < w \<and> P x then skip_right P w (x + 1) else x)"
  by pat_completeness auto

termination skip_right
  by (relation "measure (\<lambda>(P, w, x). w - x)") auto

declare skip_right.simps [simp del]

fun skip_left :: "(nat \<Rightarrow> bool) \<Rightarrow> nat \<Rightarrow> nat" where
  "skip_left P 0 = 0"
| "skip_left P (Suc x) = (if P (Suc x) then skip_left P x else Suc x)"

definition next_big_word :: "grid \<Rightarrow> copy_state \<Rightarrow> copy_state" where
  "next_big_word g s =
     (let sp = copy_space g s; w = cs_width s
      in s\<lparr>cs_cx := skip_right sp w (skip_right (\<lambda>x. \<not> sp x) w (cs_cx s))\<rparr>)"

definition previous_big_word :: "grid \<Rightarrow> copy_state \<Rightarrow> copy_state" where
  "previous_big_word g s =
     (let sp = copy_space g s in s\<lparr>cs_cx := skip_left (\<lambda>x. \<not> sp (x - 1)) (skip_left sp (cs_cx s - 1))\<rparr>)"

definition end_big_word :: "grid \<Rightarrow> copy_state \<Rightarrow> copy_state" where
  "end_big_word g s =
     (let sp = copy_space g s; w = cs_width s
      in s\<lparr>cs_cx := skip_right (\<lambda>x. \<not> sp (x + 1)) w (skip_right sp w (cs_cx s))\<rparr>)"

definition page :: "grid \<Rightarrow> bool \<Rightarrow> copy_state \<Rightarrow> copy_state" where
  "page g upward s =
     (let half = max (cs_height s div 2) 1
      in s\<lparr>cs_top := (if upward then cs_top s - half else min (cs_top s + half) (max_top g s))\<rparr>)"

section \<open>The mouse\<close>

definition cell_in :: "rect \<Rightarrow> nat \<Rightarrow> nat \<Rightarrow> copy_state \<Rightarrow> nat \<times> nat" where
  "cell_in r sx sy s = (min (sx - rx r) (cs_width s - 1), min (sy - ry r) (cs_height s - 1))"

definition mouse_drag :: "rect \<Rightarrow> nat \<Rightarrow> nat \<Rightarrow> copy_state \<Rightarrow> copy_state" where
  "mouse_drag r sx sy s = (case cell_in r sx sy s of (x, y) \<Rightarrow> s\<lparr>cs_cx := x, cs_cy := y\<rparr>)"

definition mouse_anchor :: "grid \<Rightarrow> rect \<Rightarrow> nat \<Rightarrow> nat \<Rightarrow> copy_state \<Rightarrow> copy_state option" where
  "mouse_anchor g r sx sy s =
     map_option (\<lambda>s1. let s2 = mouse_drag r sx sy (s1\<lparr>cs_finished := False\<rparr>) in s2\<lparr>cs_anchor := Some (cursor_line s2, cs_cx s2)\<rparr>)
       (freeze_if_configured g s)"

definition copy_scroll :: "grid \<Rightarrow> int \<Rightarrow> copy_state \<Rightarrow> copy_state \<times> bool" where
  "copy_scroll g d s =
     (let t = (if d < 0 then cs_top s - nat (- d) else min (cs_top s + nat d) (max_top g s))
      in (s\<lparr>cs_top := t\<rparr>, t = max_top g s))"

section \<open>Selection\<close>

definition selection :: "copy_state \<Rightarrow> ((nat \<times> nat) \<times> (nat \<times> nat)) option" where
  "selection s =
     (case cs_anchor s of
        None \<Rightarrow> None
      | Some a \<Rightarrow>
          (let c = (cursor_line s, cs_cx s)
           in if fst a * cs_width s + snd a \<le> fst c * cs_width s + snd c then Some (a, c) else Some (c, a)))"

definition is_selected :: "copy_state \<Rightarrow> nat \<Rightarrow> nat \<Rightarrow> bool" where
  "is_selected s n x =
     (case selection s of
        None \<Rightarrow> False
      | Some (b, e) \<Rightarrow> fst b * cs_width s + snd b \<le> n * cs_width s + x \<and> n * cs_width s + x \<le> fst e * cs_width s + snd e)"

function range_loop :: "grid \<Rightarrow> nat \<Rightarrow> nat \<Rightarrow> nat \<Rightarrow> str" where
  "range_loop g n x stop =
     (if x < stop then
        (let c = line_cell g n x
         in (if is_continuation c then [] else cell_text_owned (clusters g) c) @ range_loop g n (x + max (display_width c) 1) stop)
      else [])"
  by pat_completeness auto

termination range_loop
  by (relation "measure (\<lambda>(g, n, x, stop). stop - x)") auto

declare range_loop.simps [simp del]

definition line_text_range :: "grid \<Rightarrow> nat \<Rightarrow> nat \<Rightarrow> nat \<Rightarrow> str" where
  "line_text_range g n i j =
     (let x = min i (gw g);
          x1 = (if x > 0 \<and> is_continuation (line_cell g n x) then x - 1 else x)
      in range_loop g n x1 (min j (gw g)))"

definition line_text :: "grid \<Rightarrow> nat \<Rightarrow> nat \<Rightarrow> str" where
  "line_text g n w = trim_end (line_text_range g n 0 w)"

definition selected_line :: "grid \<Rightarrow> copy_state \<Rightarrow> nat \<times> nat \<Rightarrow> nat \<times> nat \<Rightarrow> nat \<Rightarrow> str" where
  "selected_line g s b e n =
     (let i = (if n = fst b then snd b else 0);
          j = (if n = fst e then min (snd e + 1) (cs_width s) else cs_width s);
          (src, m) = source g s n;
          t = line_text_range src m i j
      in (if j = cs_width s then trim_end t else t) @ (if n \<noteq> fst e \<and> \<not> line_wrapped src m then [10] else []))"

definition selected_text :: "grid \<Rightarrow> copy_state \<Rightarrow> str" where
  "selected_text g s =
     (case selection s of
        None \<Rightarrow> (case source g s (cursor_line s) of (src, n) \<Rightarrow> line_text src n (cs_width s))
      | Some (b, e) \<Rightarrow> concat (map (selected_line g s b e) [fst b..<fst e + 1]))"

definition yank :: "grid \<Rightarrow> copy_state \<Rightarrow> str" where
  "yank g s = selected_text g s"

section \<open>Search\<close>

function column_loop :: "grid \<Rightarrow> nat \<Rightarrow> nat \<Rightarrow> nat \<Rightarrow> nat \<Rightarrow> nat \<Rightarrow> nat option" where
  "column_loop g n stop off x bytes =
     (if x < stop then
        (let c = line_cell g n x; t = cell_text_owned (clusters g) c; nxt = x + max (display_width c) 1
         in if is_continuation c then column_loop g n stop off nxt bytes
            else if bytes \<ge> off \<or> bytes + str_len t > off then Some x
            else column_loop g n stop off nxt (bytes + str_len t))
      else None)"
  by pat_completeness auto

termination column_loop
  by (relation "measure (\<lambda>(g, n, stop, off, x, bytes). stop - x)") auto

declare column_loop.simps [simp del]

definition search_column :: "grid \<Rightarrow> nat \<Rightarrow> nat \<Rightarrow> nat \<Rightarrow> nat" where
  "search_column g n w off = (case column_loop g n (min w (gw g)) off 0 0 of Some x \<Rightarrow> x | None \<Rightarrow> w - 1)"

text \<open>\<^verbatim>\<open>str::find\<close> answers a byte offset.\<close>

definition find_byte :: "str \<Rightarrow> str \<Rightarrow> nat option" where
  "find_byte p t = map_option (\<lambda>i. str_len (take i t)) (find_str p t)"

definition search_line :: "nat \<Rightarrow> nat \<Rightarrow> bool \<Rightarrow> nat \<Rightarrow> nat" where
  "search_line tot start forward k = (if forward then (start + k) mod tot else (start + tot - k) mod tot)"

definition search_hit :: "grid \<Rightarrow> copy_state \<Rightarrow> nat \<Rightarrow> nat option" where
  "search_hit g s n = (case source g s n of (src, m) \<Rightarrow> find_byte (cs_query s) (line_text src m (cs_width s)))"

fun search_loop :: "grid \<Rightarrow> copy_state \<Rightarrow> nat list \<Rightarrow> copy_state" where
  "search_loop g s [] = s"
| "search_loop g s (n # ns) =
     (case search_hit g s n of
        Some off \<Rightarrow>
          (let t = min n (max_top g s);
               col = (case source g s n of (src, m) \<Rightarrow> search_column src m (cs_width s) off)
           in s\<lparr>cs_top := t, cs_cy := n - t, cs_cx := min col (cs_width s - 1)\<rparr>)
      | None \<Rightarrow> search_loop g s ns)"

definition run_search :: "grid \<Rightarrow> bool \<Rightarrow> copy_state \<Rightarrow> copy_state" where
  "run_search g forward s =
     (if cs_query s = [] then s
      else search_loop g s (map (search_line (copy_total g s) (cursor_line s) forward) [1..<copy_total g s + 1]))"

section \<open>Keys\<close>

definition csi_sequence_len :: "byte list \<Rightarrow> nat option" where
  "csi_sequence_len bs = map_option Suc (position (\<lambda>b. 0x40 \<le> b \<and> b \<le> 0x7E) bs)"

text \<open>A byte while the query is typed.\<close>

definition typing_key :: "grid \<Rightarrow> byte \<Rightarrow> copy_state \<Rightarrow> copy_state" where
  "typing_key g b s =
     (if b = 0x0D \<or> b = 0x0A then (run_search g True s)\<lparr>cs_typing := False\<rparr>
      else if b = 0x1B then s\<lparr>cs_typing := False, cs_query := []\<rparr>
      else if b = 0x7F \<or> b = 0x08 then s\<lparr>cs_query := butlast (cs_query s)\<rparr>
      else if 0x20 \<le> b \<and> b \<le> 0x7E then s\<lparr>cs_query := cs_query s @ [b]\<rparr>
      else s)"

definition cursor_key :: "grid \<Rightarrow> byte list \<Rightarrow> copy_state \<Rightarrow> copy_state" where
  "cursor_key g seq s =
     (if seq = lit ''A'' then copy_up s
      else if seq = lit ''B'' then copy_down g s
      else if seq = lit ''C'' then copy_right s
      else if seq = lit ''D'' then copy_left s
      else if seq = lit ''5~'' then page g True s
      else if seq = lit ''6~'' then page g False s
      else s)"

definition toggle_selection :: "grid \<Rightarrow> copy_state \<Rightarrow> copy_state option" where
  "toggle_selection g s =
     (case cs_anchor s of
        Some _ \<Rightarrow> Some (thaw (s\<lparr>cs_anchor := None\<rparr>))
      | None \<Rightarrow> map_option (\<lambda>s1. s1\<lparr>cs_anchor := Some (cursor_line s1, cs_cx s1)\<rparr>) (freeze_if_configured g s))"

text \<open>A byte outside the query and outside an escape sequence: an action ends the batch.\<close>

definition plain_key :: "grid \<Rightarrow> byte \<Rightarrow> copy_state \<Rightarrow> (copy_action option \<times> copy_state) option" where
  "plain_key g b s =
     (let stay = (\<lambda>s1. Some (None, s1))
      in if b = 113 then Some (Some ExitCopy, s)
         else if b = 107 then stay (copy_up s)
         else if b = 106 then stay (copy_down g s)
         else if b = 104 then stay (copy_left s)
         else if b = 108 then stay (copy_right s)
         else if b = 119 \<or> b = 87 then stay (next_big_word g s)
         else if b = 98 \<or> b = 66 then stay (previous_big_word g s)
         else if b = 101 \<or> b = 69 then stay (end_big_word g s)
         else if b = 0x15 then stay (page g True s)
         else if b = 0x04 then stay (page g False s)
         else if b = 103 then stay (s\<lparr>cs_top := 0, cs_cy := 0\<rparr>)
         else if b = 71 then stay (s\<lparr>cs_top := max_top g s, cs_cy := cs_height s - 1\<rparr>)
         else if b = 118 \<or> b = 32 then map_option (Pair None) (toggle_selection g s)
         else if b = 121 \<or> b = 0x0D \<or> b = 0x0A then Some (Some (CopyText (selected_text g s)), s)
         else if b = 47 then stay (s\<lparr>cs_typing := True, cs_query := []\<rparr>)
         else if b = 110 then stay (run_search g True s)
         else if b = 78 then stay (run_search g False s)
         else stay s)"

function handle_loop :: "grid \<Rightarrow> byte list \<Rightarrow> bool \<Rightarrow> copy_state \<Rightarrow> (copy_action \<times> copy_state) option" where
  "handle_loop g [] changed s = Some (if changed then Redraw else CopyNone, s)"
| "handle_loop g (b # bs) changed s =
     (if cs_typing s then handle_loop g bs True (typing_key g b s)
      else if b = 0x1B then
        (if bs \<noteq> [] \<and> hd bs = 91 then
           (case csi_sequence_len (tl bs) of
              None \<Rightarrow> Some (if changed then Redraw else CopyNone, s)
            | Some n \<Rightarrow>
                if take n (tl bs) = lit ''1;5F'' \<or> take n (tl bs) = lit ''1;9B'' then Some (ExitCopy, s)
                else handle_loop g (drop n (tl bs)) True (cursor_key g (take n (tl bs)) s))
         else Some (ExitCopy, s))
      else
        (case plain_key g b s of
           None \<Rightarrow> None
         | Some (Some a, s1) \<Rightarrow> Some (a, s1)
         | Some (None, s1) \<Rightarrow> handle_loop g bs True s1))"
  by pat_completeness auto

termination handle_loop
  by (relation "measure (\<lambda>(g, bs, changed, s). length bs)") auto

declare handle_loop.simps [simp del]

definition handle :: "grid \<Rightarrow> byte list \<Rightarrow> copy_state \<Rightarrow> (copy_action \<times> copy_state) option" where
  "handle g bs s = handle_loop g bs False (sync_history g s)"

section \<open>Drawing\<close>

definition LATEST_BUTTON :: str where
  "LATEST_BUTTON = lit ''[v Latest]''"

definition indicator_label :: "grid \<Rightarrow> copy_state \<Rightarrow> str" where
  "indicator_label g s =
     (if cs_typing s then lit ''[search: '' @ cs_query s @ lit '']''
      else lit ''[COPY '' @ dec (cursor_line s + 1) @ lit ''/'' @ dec (copy_total g s) @ lit '']'')"

definition latest_button_rect :: "grid \<Rightarrow> rect \<Rightarrow> copy_state \<Rightarrow> rect option" where
  "latest_button_rect g r s =
     (if max_top g s - cs_top s \<le> cs_height s then None
      else
        (let ix = rx r + (rw r - (str_len (indicator_label g s) + 1));
             bw = str_len LATEST_BUTTON
         in if ix < bw + 1 then None
            else if ix - (bw + 1) \<ge> rx r then Some (Rect (ix - (bw + 1)) (ry r) bw 1) else None))"

definition emit_copy_style :: "attrs \<Rightarrow> color \<Rightarrow> color \<Rightarrow> color \<Rightarrow> bool \<Rightarrow> nat list list" where
  "emit_copy_style a f b u sel =
     [[0]] @ flag_group a ATTR_BOLD 1 @ flag_group a ATTR_DIM 2 @ flag_group a ATTR_ITALIC 3 @ flag_group a ATTR_BLINK 5
     @ flag_group a ATTR_REVERSE 7 @ flag_group a ATTR_INVISIBLE 8 @ flag_group a ATTR_STRIKE 9
     @ underline_groups (attrs_underline_style a) @ (if sel then [[7]] else [])
     @ color_groups 38 f @ color_groups 48 b @ color_groups 58 u"

definition copy_highlight :: "copy_state \<Rightarrow> nat \<Rightarrow> nat \<Rightarrow> cell \<Rightarrow> bool" where
  "copy_highlight s n x c \<longleftrightarrow> is_selected s n x \<or> (width c = 2 \<and> is_selected s n (x + 1))"

function copy_cells :: "tables \<Rightarrow> grid \<Rightarrow> nat \<Rightarrow> copy_state \<Rightarrow> nat \<Rightarrow> nat \<Rightarrow> nat \<Rightarrow> tty list" where
  "copy_cells T src m s n w x =
     (if x < w then
        (let c = line_cell src m x
         in if is_continuation c then copy_cells T src m s n w (x + 1)
            else [Sgr (emit_copy_style (attrs c) (fg c) (bg c) (underline_color (underline_colors src) (ucolor c)) (copy_highlight s n x c)),
                  TtyText (display_text T src c)] @ copy_cells T src m s n w (x + display_width c))
      else [])"
  by pat_completeness auto

termination copy_cells
  by (relation "measure (\<lambda>(T, src, m, s, n, w, x). w - x)") (auto simp: display_width_def)

declare copy_cells.simps [simp del]

definition copy_row :: "tables \<Rightarrow> grid \<Rightarrow> rect \<Rightarrow> copy_state \<Rightarrow> nat \<Rightarrow> tty list" where
  "copy_row T g r s row =
     (let n = cs_top s + row
      in case source g s n of (src, m) \<Rightarrow>
           [Cup (rx r) (ry r + row)] @ copy_cells T src m s n (rw r) 0 @ [Sgr [[0]]])"

definition copy_render :: "tables \<Rightarrow> grid \<Rightarrow> rect \<Rightarrow> copy_state \<Rightarrow> tty list" where
  "copy_render T g r s =
     (let label = indicator_label g s;
          boxed = (\<lambda>x y t. [Cup x y, Sgr [[7]], TtyText t, Sgr [[0]]])
      in concat (map (copy_row T g r s) [0..<rh r])
         @ boxed (rx r + (rw r - (str_len label + 1))) (ry r) label
         @ (case latest_button_rect g r s of Some b \<Rightarrow> boxed (rx b) (ry b) LATEST_BUTTON | None \<Rightarrow> []))"

section \<open>The clipboard\<close>

definition B64 :: str where
  "B64 = lit ''ABCDEFGHIJKLMNOPQRSTUVWXYZabcdefghijklmnopqrstuvwxyz0123456789+/''"

definition b64_chunk :: "byte list \<Rightarrow> str" where
  "b64_chunk bs =
     (let b0 = bs ! 0; b1 = (if length bs > 1 then bs ! 1 else 0); b2 = (if length bs > 2 then bs ! 2 else 0)
      in [B64 ! (b0 div 4), B64 ! ((b0 mod 4) * 16 + b1 div 16),
          (if length bs > 1 then B64 ! ((b1 mod 16) * 4 + b2 div 64) else 61),
          (if length bs > 2 then B64 ! (b2 mod 64) else 61)])"

function base64 :: "byte list \<Rightarrow> str" where
  "base64 bs = (if bs = [] then [] else b64_chunk (take 3 bs) @ base64 (drop 3 bs))"
  by pat_completeness auto

termination base64
  by (relation "measure length") auto

declare base64.simps [simp del]

definition osc52 :: "str \<Rightarrow> byte list" where
  "osc52 t = [0x1B] @ lit '']52;c;'' @ base64 (as_bytes t) @ [0x07]"

section \<open>The cursor stays in the viewport\<close>

definition copy_ok :: "copy_state \<Rightarrow> bool" where
  "copy_ok s \<longleftrightarrow> cs_cx s < cs_width s \<and> cs_cy s < cs_height s \<and> (\<forall>n x. cs_anchor s = Some (n, x) \<longrightarrow> x < cs_width s)"

definition copy_synced :: "grid \<Rightarrow> copy_state \<Rightarrow> bool" where
  "copy_synced g s \<longleftrightarrow> copy_ok s \<and> cs_top s \<le> max_top g s"

text \<open>What the server does to a pane in copy-mode, each step with the pane's grid.\<close>

datatype copy_op =
    Keys "byte list"
  | Output grid
  | Reflowed grid rect
  | Press rect nat nat
  | Drag rect nat nat
  | Wheel int
  | Released
  | Configure bool

fun copy_apply :: "copy_op \<Rightarrow> grid \<times> copy_state \<Rightarrow> (grid \<times> copy_state) option" where
  "copy_apply (Keys bs) (g, s) = map_option (\<lambda>(a, s1). (g, s1)) (handle g bs s)"
| "copy_apply (Output h) (g, s) = Some (h, sync_history h s)"
| "copy_apply (Reflowed h r) (g, s) = map_option (Pair h) (copy_resize h r (at_bottom g s) s)"
| "copy_apply (Press r x y) (g, s) = map_option (Pair g) (mouse_anchor g r x y s)"
| "copy_apply (Drag r x y) (g, s) = Some (g, mouse_drag r x y s)"
| "copy_apply (Wheel d) (g, s) = Some (g, fst (copy_scroll g d s))"
| "copy_apply Released (g, s) = Some (g, finish_mouse_selection s)"
| "copy_apply (Configure b) (g, s) = Some (g, set_freeze_on_select b s)"

fun copy_run :: "copy_op list \<Rightarrow> grid \<times> copy_state \<Rightarrow> (grid \<times> copy_state) option" where
  "copy_run [] p = Some p"
| "copy_run (e # es) p = Option.bind (copy_apply e p) (copy_run es)"

lemma skip_right_bound: "x < w \<Longrightarrow> skip_right P w x < w"
proof (induction P w x rule: skip_right.induct)
  case (1 P w x)
  then show ?case by (subst skip_right.simps) auto
qed

lemma skip_left_le: "skip_left P x \<le> x"
  by (induction P x rule: skip_left.induct) auto

lemmas copy_moves = copy_up_def copy_down_def copy_left_def copy_right_def page_def

lemma copy_ok_moves:
  assumes "copy_ok s"
  shows "copy_ok (copy_up s)" "copy_ok (copy_down g s)" "copy_ok (copy_left s)" "copy_ok (copy_right s)" "copy_ok (page g b s)"
    "copy_ok (next_big_word g s)" "copy_ok (previous_big_word g s)" "copy_ok (end_big_word g s)"
  using assms skip_right_bound skip_left_le [THEN le_less_trans, OF skip_left_le [THEN le_less_trans]]
  by (auto simp: copy_ok_def copy_moves next_big_word_def previous_big_word_def end_big_word_def Let_def less_imp_diff_less)

lemma copy_ok_search:
  assumes "copy_ok s" and "\<forall>n\<in>set ns. n < copy_total g s"
  shows "copy_ok (search_loop g s ns)"
  using assms by (induction ns) (auto simp: copy_ok_def Let_def max_top_def split: option.split)

lemma search_line_bound: "0 < tot \<Longrightarrow> search_line tot start f k < tot"
  by (simp add: search_line_def)

lemma copy_ok_run_search: "copy_ok s \<Longrightarrow> copy_ok (run_search g f s)"
  by (auto simp: run_search_def intro!: copy_ok_search search_line_bound)

lemma copy_ok_freeze: "copy_ok s \<Longrightarrow> freeze_if_configured g s = Some s1 \<Longrightarrow> copy_ok s1"
  by (auto simp: freeze_if_configured_def copy_ok_def split: if_splits)

lemma copy_ok_typing: "copy_ok s \<Longrightarrow> copy_ok (typing_key g b s)"
  using copy_ok_run_search [of s g True] by (auto simp: typing_key_def copy_ok_def)

lemma copy_ok_cursor_key: "copy_ok s \<Longrightarrow> copy_ok (cursor_key g q s)"
  by (auto simp: cursor_key_def copy_ok_moves)

lemma copy_ok_toggle: "copy_ok s \<Longrightarrow> toggle_selection g s = Some s1 \<Longrightarrow> copy_ok s1"
  using copy_ok_freeze [of s g] by (auto simp: toggle_selection_def copy_ok_def thaw_def split: option.splits)

lemma copy_ok_plain:
  assumes "copy_ok s" and "plain_key g b s = Some (a, s1)"
  shows "copy_ok s1"
proof -
  have t: "copy_ok s2" if "toggle_selection g s = Some s2" for s2 using copy_ok_toggle [OF assms(1) that] .
  have "copy_ok (s\<lparr>cs_top := 0, cs_cy := 0\<rparr>)" "copy_ok (s\<lparr>cs_top := max_top g s, cs_cy := cs_height s - 1\<rparr>)"
    "copy_ok (s\<lparr>cs_typing := True, cs_query := []\<rparr>)" using assms(1) by (auto simp: copy_ok_def)
  then show ?thesis using assms t unfolding plain_key_def Let_def
    by (auto simp: copy_ok_moves copy_ok_run_search split: if_splits)
qed

lemma copy_ok_handle_loop: "copy_ok s \<Longrightarrow> handle_loop g bs c s = Some (a, s1) \<Longrightarrow> copy_ok s1"
proof (induction g bs c s arbitrary: a s1 rule: handle_loop.induct)
  case (1 g changed s)
  then show ?case by (simp add: handle_loop.simps)
next
  case (2 g b bs changed s)
  show ?case
  proof (cases "cs_typing s")
    case True
    then show ?thesis using 2 copy_ok_typing by (simp add: handle_loop.simps)
  next
    case False
    show ?thesis
    proof (cases "b = 0x1B")
      case True
      show ?thesis
        using "2.prems" "2.IH"(2) False True copy_ok_cursor_key [OF "2.prems"(1), of g]
        by (auto simp: handle_loop.simps(2) split: if_splits option.splits)
    next
      case key: False
      show ?thesis
        using "2.prems" "2.IH"(3) False key copy_ok_plain [OF "2.prems"(1)]
        by (fastforce simp: handle_loop.simps(2) split: option.splits prod.splits)
    qed
  qed
qed

lemma copy_evict_sel [simp]:
  "cs_cx (copy_evict k s) = cs_cx s" "cs_cy (copy_evict k s) = cs_cy s" "cs_width (copy_evict k s) = cs_width s"
  "cs_height (copy_evict k s) = cs_height s"
  by (simp_all add: copy_evict_def Let_def)

lemma copy_ok_evict: "copy_ok s \<Longrightarrow> copy_ok (copy_evict k s)"
  by (auto simp: copy_ok_def copy_evict_def Let_def split: option.splits)

lemma sync_synced:
  assumes "copy_ok s"
  shows "copy_synced g (sync_history g s)"
proof -
  define s1 where "s1 = (case (cs_first s, first_line_id g) of
      (Some old, Some new) \<Rightarrow> if new - old \<noteq> 0 then copy_evict (new - old) s else s | _ \<Rightarrow> s)"
  have ok: "copy_ok s1" using assms copy_ok_evict by (auto simp: s1_def split: option.split)
  have e: "sync_history g s = s1\<lparr>cs_first := first_line_id g, cs_top := min (cs_top s1) (max_top g (s1\<lparr>cs_first := first_line_id g\<rparr>)),
      cs_cy := min (cs_cy s1) (cs_height s1 - 1)\<rparr>"
    by (simp add: sync_history_def s1_def Let_def)
  show ?thesis using ok unfolding e by (auto simp: copy_synced_def copy_ok_def max_top_def copy_total_def)
qed

lemma copy_ok_resize: "copy_resize g r f s = Some s1 \<Longrightarrow> copy_ok s1 \<and> cs_top s1 \<le> max_top g s1"
  by (auto simp: copy_resize_def copy_ok_def Let_def max_top_def copy_total_def split: option.splits)

lemma copy_ok_drag: "copy_ok s \<Longrightarrow> copy_ok (mouse_drag r x y s)"
  by (auto simp: copy_ok_def mouse_drag_def cell_in_def)

lemma copy_ok_press: "copy_ok s \<Longrightarrow> mouse_anchor g r x y s = Some s1 \<Longrightarrow> copy_ok s1"
  using copy_ok_freeze [of s g] by (auto simp: mouse_anchor_def mouse_drag_def cell_in_def copy_ok_def Let_def)

lemma copy_ok_handle: "copy_ok s \<Longrightarrow> handle g bs s = Some (a, s1) \<Longrightarrow> copy_ok s1"
  using sync_synced [of s g] copy_ok_handle_loop by (auto simp: handle_def copy_synced_def)

lemma copy_op_ok:
  assumes "copy_ok s" and "copy_apply e (g, s) = Some (h, s1)"
  shows "copy_ok s1"
proof (cases e)
  case (Wheel d)
  then show ?thesis using assms by (auto simp: copy_ok_def copy_scroll_def Let_def)
next
  case Released
  then show ?thesis using assms by (auto simp: copy_ok_def finish_mouse_selection_def)
next
  case (Configure b)
  then show ?thesis using assms by (auto simp: copy_ok_def set_freeze_on_select_def)
next
  case (Keys bs)
  then show ?thesis using assms copy_ok_handle [OF assms(1)] by auto
next
  case (Output k)
  then show ?thesis using assms sync_synced [OF assms(1)] by (auto simp: copy_synced_def)
next
  case (Reflowed k r)
  then show ?thesis using assms(2) copy_ok_resize by auto
next
  case (Press r x y)
  then show ?thesis using assms(2) copy_ok_press [OF assms(1)] by auto
next
  case (Drag r x y)
  then show ?thesis using assms(2) copy_ok_drag [OF assms(1)] by auto
qed



section \<open>A frozen selection does not change\<close>

lemma upt_shift: "d \<le> i \<Longrightarrow> map (\<lambda>n. n - d) [i..<j] = [i - d..<j - d]"
  by (rule nth_equalityI) auto

text \<open>
  A selection all of whose lines move by the same number of lines, and read there what they read
  before, selects the same text.
\<close>

definition same_line :: "grid \<times> nat \<Rightarrow> grid \<times> nat \<Rightarrow> bool" where
  "same_line p q \<longleftrightarrow> line_text_range (fst p) (snd p) = line_text_range (fst q) (snd q) \<and> line_wrapped (fst p) (snd p) = line_wrapped (fst q) (snd q)"

definition moved :: "nat \<Rightarrow> copy_state \<Rightarrow> copy_state \<Rightarrow> bool" where
  "moved d s t \<longleftrightarrow> cs_width t = cs_width s \<and> cs_cx t = cs_cx s \<and> cursor_line t = cursor_line s - d
     \<and> cs_anchor t = map_option (\<lambda>(n, x). (n - d, x)) (cs_anchor s)"

definition selects_within :: "nat \<Rightarrow> nat \<Rightarrow> copy_state \<Rightarrow> bool" where
  "selects_within a b s \<longleftrightarrow> a \<le> cursor_line s \<and> cursor_line s < b \<and> (case cs_anchor s of Some (n, x) \<Rightarrow> a \<le> n \<and> n < b | None \<Rightarrow> True)"

lemma selection_within: "selects_within a b s \<Longrightarrow> selection s = Some ((bl, bx), (el, ex)) \<Longrightarrow> a \<le> bl \<and> bl < b \<and> a \<le> el \<and> el < b"
  by (auto simp: selects_within_def selection_def Let_def split: option.splits if_splits)

lemma selection_moved:
  assumes "moved d s t" and "selects_within a b s" and "d \<le> a"
  shows "selection t = map_option (\<lambda>((bl, bx), el, ex). ((bl - d, bx), el - d, ex)) (selection s)"
proof -
  have mono: "(m - d) * w + x \<le> (n - d) * w + y \<longleftrightarrow> m * w + x \<le> n * w + y" if "a \<le> m" "a \<le> n" for m n w x y
  proof -
    have "m * w = (m - d) * w + d * w" "n * w = (n - d) * w + d * w" using that assms(3) by (simp_all add: diff_mult_distrib)
    then show ?thesis by linarith
  qed
  then show ?thesis using assms(1,2) by (auto simp: selection_def Let_def moved_def selects_within_def split: option.splits)
qed

lemma selected_line_moved:
  assumes "moved d s t" and "same_line (source h t (n - d)) (source g s n)" and "d \<le> n" and "d \<le> bl" and "d \<le> el"
  shows "selected_line h t (bl - d, bx) (el - d, ex) (n - d) = selected_line g s (bl, bx) (el, ex) n"
proof -
  have "n - d = bl - d \<longleftrightarrow> n = bl" "n - d = el - d \<longleftrightarrow> n = el" using assms(3-5) by auto
  moreover obtain p i q j where "source h t (n - d) = (p, i)" "source g s n = (q, j)" by (metis prod.exhaust)
  ultimately show ?thesis using assms(1,2) unfolding selected_line_def moved_def same_line_def by (simp cong: if_cong)
qed

lemma selected_text_moved:
  assumes "moved d s t" and "selects_within a b s" and "d \<le> a"
    and same: "\<And>n. a \<le> n \<Longrightarrow> n < b \<Longrightarrow> same_line (source h t (n - d)) (source g s n)"
  shows "selected_text h t = selected_text g s"
proof (cases "selection s")
  case None
  have "same_line (source h t (cursor_line t)) (source g s (cursor_line s))" using same assms(1,2) by (simp add: moved_def selects_within_def)
  then show ?thesis using None selection_moved [OF assms(1-3)] assms(1)
    by (auto simp: selected_text_def line_text_def same_line_def moved_def split: prod.splits)
next
  case (Some p)
  obtain bl bx el ex where p: "p = ((bl, bx), el, ex)" by (metis prod.exhaust)
  have l: "a \<le> bl" "bl < b" "a \<le> el" "el < b" using selection_within [OF assms(2)] Some p by auto
  have "selected_line h t (bl - d, bx) (el - d, ex) (n - d) = selected_line g s (bl, bx) (el, ex) n" if "n \<in> set [bl..<el + 1]" for n
  proof -
    have "bl \<le> n" "n \<le> el" using that unfolding set_upt atLeastLessThan_iff by simp_all
    then show ?thesis using l assms(3) by (intro selected_line_moved [OF assms(1)] same) simp_all
  qed
  then have m1: "map (selected_line h t (bl - d, bx) (el - d, ex)) (map (\<lambda>n. n - d) [bl..<el + 1]) = map (selected_line g s (bl, bx) (el, ex)) [bl..<el + 1]"
    unfolding map_map comp_def by (blast intro: map_cong)
  have "el + 1 - d = el - d + 1" "d \<le> bl" using l assms(3) by simp_all
  then have m2: "map (\<lambda>n. n - d) [bl..<el + 1] = [bl - d..<el - d + 1]" using upt_shift [of d bl "el + 1"] by (simp only:)
  show ?thesis using m1 [unfolded m2] selection_moved [OF assms(1-3)] Some by (simp add: selected_text_def p del: upt_Suc)
qed

text \<open>Viewport and selection lie in the frozen rows.\<close>

definition in_freeze :: "copy_state \<Rightarrow> bool" where
  "in_freeze s \<longleftrightarrow> (case cs_frozen s of
       None \<Rightarrow> False
     | Some f \<Rightarrow> fz_start f \<le> cs_top s \<and> cs_top s \<le> fz_start f + gh (fz_rows f) - cs_height s
         \<and> (case cs_anchor s of Some (n, x) \<Rightarrow> fz_start f \<le> n | None \<Rightarrow> True))"

text \<open>Synchronising moves all of it by the same number of lines.\<close>

lemma sync_in_freeze:
  assumes "in_freeze s" and "cs_frozen s = Some f" and "cs_cy s < cs_height s"
  shows "\<exists>d\<le>fz_start f. sync_history g s = s\<lparr>cs_first := first_line_id g, cs_top := cs_top s - d,
      cs_anchor := map_option (\<lambda>(n, x). (n - d, x)) (cs_anchor s), cs_frozen := Some (f\<lparr>fz_start := fz_start f - d\<rparr>)\<rparr>"
proof -
  define k where "k = (case (cs_first s, first_line_id g) of (Some old, Some new) \<Rightarrow> new - old | _ \<Rightarrow> 0)"
  define d where "d = min k (fz_start f)"
  have t: "fz_start f \<le> cs_top s" "cs_top s \<le> fz_start f + gh (fz_rows f) - cs_height s"
    and a: "\<And>n x. cs_anchor s = Some (n, x) \<Longrightarrow> fz_start f \<le> n" using assms(1,2) by (auto simp: in_freeze_def)
  have sh: "shift_line (Some (fz_start f)) k n = Some (n - d)" if "fz_start f \<le> n" for n
    using that by (auto simp: shift_line_def d_def)
  have z: "copy_evict 0 s = s" using a assms(2) t(1) by (cases s) (auto simp: copy_evict_def shift_line_def Let_def split: option.splits)
  have "(case (cs_first s, first_line_id g) of (Some old, Some new) \<Rightarrow> if new - old \<noteq> 0 then copy_evict (new - old) s else s | _ \<Rightarrow> s) = copy_evict k s"
    using z by (auto simp: k_def split: option.split)
  also have "\<dots> = s\<lparr>cs_top := cs_top s - d, cs_anchor := map_option (\<lambda>(n, x). (n - d, x)) (cs_anchor s),
      cs_frozen := Some (f\<lparr>fz_start := fz_start f - d\<rparr>)\<rparr>"
    using sh [OF t(1)] sh a assms(2) by (auto simp: copy_evict_def Let_def d_def split: option.splits)
  finally have ev: "(case (cs_first s, first_line_id g) of (Some old, Some new) \<Rightarrow> if new - old \<noteq> 0 then copy_evict (new - old) s else s | _ \<Rightarrow> s)
      = s\<lparr>cs_top := cs_top s - d, cs_anchor := map_option (\<lambda>(n, x). (n - d, x)) (cs_anchor s), cs_frozen := Some (f\<lparr>fz_start := fz_start f - d\<rparr>)\<rparr>" .
  have le: "cs_top s - d \<le> fz_start f - d + gh (fz_rows f) - cs_height s" using t by (auto simp: d_def)
  have "sync_history g s = s\<lparr>cs_first := first_line_id g, cs_top := cs_top s - d,
      cs_anchor := map_option (\<lambda>(n, x). (n - d, x)) (cs_anchor s), cs_frozen := Some (f\<lparr>fz_start := fz_start f - d\<rparr>)\<rparr>"
    unfolding sync_history_def ev Let_def max_top_def copy_total_def using le assms(3) by (cases s) (simp add: min_def)
  then show ?thesis by (intro exI [of _ d]) (simp add: d_def)
qed


text \<open>Two rows frozen on screen, both selected; then a line of output.\<close>

definition demo_screen :: grid where
  "demo_screen = set_grapheme 0 1 [98] cell_default 1 (set_grapheme 0 0 [97] cell_default 1 (grid_new 3 2))"

definition demo_frozen :: copy_state where
  "demo_frozen = \<lparr>cs_top = 0, cs_cx = 2, cs_cy = 1, cs_width = 3, cs_height = 2, cs_anchor = Some (0, 0), cs_query = [], cs_typing = False,
     cs_first = first_line_id demo_screen, cs_freeze = True, cs_frozen = fz_capture demo_screen, cs_finished = False\<rparr>"


section \<open>A view of history follows it\<close>

definition all_lines :: "grid \<Rightarrow> line list" where
  "all_lines g = scrollback g @ rows g"

definition first_no :: "grid \<Rightarrow> nat" where
  "first_no g = line_no (hd (all_lines g))"

text \<open>Consecutive line numbers up to the next one to be given: what the eviction count relies on.
A grid that keeps no history has none.\<close>

definition numbered :: "grid \<Rightarrow> bool" where
  "numbered g \<longleftrightarrow> rows g \<noteq> [] \<and> (\<forall>i<length (all_lines g). line_no (all_lines g ! i) = first_no g + i)
     \<and> next_line_id g = first_no g + length (all_lines g) \<and> (scrollback_limit g = 0 \<longrightarrow> scrollback g = [])"

lemma first_line_numbered: "rows g \<noteq> [] \<Longrightarrow> first_line_id g = Some (first_no g)"
  by (auto simp: first_line_id_def first_no_def all_lines_def neq_Nil_conv split: list.split)

text \<open>What is left of the history of \<open>g\<close> in \<open>h\<close> looks as it did.\<close>

definition keeps_history :: "grid \<Rightarrow> grid \<Rightarrow> bool" where
  "keeps_history g h \<longleftrightarrow> numbered h \<and> first_no g \<le> first_no h \<and>
     (let k = first_no h - first_no g
      in \<forall>n. k \<le> n \<and> n < length (scrollback g) \<longrightarrow> n - k < length (scrollback h) \<and> line_wrapped h (n - k) = line_wrapped g n
           \<and> (\<forall>x. look h (line_cell h (n - k) x) = look g (line_cell g n x)))"

lemma line_cell_history: "n < length (scrollback g) \<Longrightarrow> line_cell g n x = (if x < length (cells (scrollback g ! n)) then cells (scrollback g ! n) ! x else cell_default)"
  and line_wrapped_history: "n < length (scrollback g) \<Longrightarrow> line_wrapped g n = wrapped (scrollback g ! n)"
  by (simp_all add: line_cell_def line_wrapped_def line_at_def)

lemma numbered_congr:
  assumes "map line_no (rows h) = map line_no (rows g)" and "map line_no (scrollback h) = map line_no (scrollback g)"
    and "next_line_id h = next_line_id g" and "scrollback_limit h = scrollback_limit g"
  shows "numbered h = numbered g" and "rows g \<noteq> [] \<Longrightarrow> first_no h = first_no g"
proof -
  have m: "map line_no (all_lines h) = map line_no (all_lines g)" using assms(1,2) by (simp add: all_lines_def)
  then have l: "length (all_lines h) = length (all_lines g)" by (rule map_eq_imp_length_eq)
  have n: "line_no (all_lines h ! i) = line_no (all_lines g ! i)" if "i < length (all_lines g)" for i
    using m that l by (metis nth_map)
  have e: "rows h = [] \<longleftrightarrow> rows g = []" using assms(1) by (metis map_is_Nil_conv)
  show f: "first_no h = first_no g" if "rows g \<noteq> []"
  proof -
    have "all_lines g \<noteq> []" "all_lines h \<noteq> []" using that e by (auto simp: all_lines_def)
    then show ?thesis using n [of 0] by (simp add: first_no_def hd_conv_nth)
  qed
  have "scrollback h = [] \<longleftrightarrow> scrollback g = []" using assms(2) by (metis map_is_Nil_conv)
  then show "numbered h = numbered g" using f n l assms(3,4) e by (auto simp: numbered_def)
qed

lemma keeps_same:
  assumes "keeps_history g h" and "numbered k = numbered h" and "rows h \<noteq> [] \<Longrightarrow> first_no k = first_no h"
    and "length (scrollback k) = length (scrollback h)"
    and "\<And>n x. n < length (scrollback h) \<Longrightarrow> line_wrapped k n = line_wrapped h n \<and> look k (line_cell k n x) = look h (line_cell h n x)"
  shows "keeps_history g k"
  using assms by (auto simp: keeps_history_def numbered_def Let_def)

lemma keeps_gset: "keeps_history g h \<Longrightarrow> keeps_history g (gset x y c h)"
proof (rule keeps_same [of g h])
  have r: "map line_no (rows (gset x y c h)) = map line_no (rows h)"
    by (cases "y < length (rows h)") (auto simp: gset_def nth_list_update intro!: nth_equalityI)
  show "numbered (gset x y c h) = numbered h" "rows h \<noteq> [] \<Longrightarrow> first_no (gset x y c h) = first_no h"
    using numbered_congr [OF r] by simp_all
qed (simp_all add: line_wrapped_history line_cell_history)

lemma look_default: "sane g \<Longrightarrow> sane h \<Longrightarrow> look g cell_default = look h cell_default"
  by (simp add: look_def cell_default_def sane_def colors_wf_def underline_color_def cell_text_owned_def is_continuation_def hyperlink_def)

lemma keeps_same_looks:
  assumes "keeps_history g h" and "same_looks h k" and "sane h" and "sane k"
  shows "keeps_history g k"
proof (rule keeps_same [OF assms(1)])
  have s: "lines_related (\<lambda>c d. look k d = look h c) (scrollback h) (scrollback k)" "lines_related (\<lambda>c d. look k d = look h c) (rows h) (rows k)"
    "next_line_id k = next_line_id h" "scrollback_limit k = scrollback_limit h" using assms(2) by (auto simp: same_looks_def)
  have no: "map line_no ms = map line_no ls" if "lines_related R ls ms" for R ls ms
    using that by (auto simp: lines_related_def list_all2_conv_all_nth intro: nth_equalityI)
  show "numbered k = numbered h" "rows h \<noteq> [] \<Longrightarrow> first_no k = first_no h"
    using numbered_congr [OF no [OF s(2)] no [OF s(1)] s(3,4)] by simp_all
  show l: "length (scrollback k) = length (scrollback h)" using lines_related_shape [OF s(1)] by simp
  fix n x assume n: "n < length (scrollback h)"
  have "wrapped (scrollback k ! n) = wrapped (scrollback h ! n)" using s(1) n by (auto simp: lines_related_def list_all2_conv_all_nth)
  moreover have "look k (line_cell k n x) = look h (line_cell h n x)"
    using lines_related_cell [OF s(1) n, of x] lines_related_shape [OF s(1)] n l look_default [OF assms(4,3)] by (simp add: line_cell_history)
  ultimately show "line_wrapped k n = line_wrapped h n \<and> look k (line_cell k n x) = look h (line_cell h n x)"
    using n l by (simp add: line_wrapped_history)
qed

interpretation history_edit: edit_invariant "\<lambda>h. sane h \<and> keeps_history g h" for g
  using gset_sane keeps_gset keeps_same_looks intern_ok(1,2) by unfold_locales blast+

text \<open>A scroll of the whole screen drops some lines at the front and gives the next number at the end.\<close>

lemma scroll_up_history:
  assumes "grid_wf g" and "gh g \<noteq> 0" and "scrollback_limit g = 0 \<longrightarrow> scrollback g = []"
  obtains k where "scrollback (scroll_up b g) = drop k (scrollback g @ [trim_default_tail (hd (rows g))])" and "k \<le> length (scrollback g) + 1"
proof
  let ?k = "length (scrollback g) + 1 - scrollback_limit g"
  show "scrollback (scroll_up b g) = drop ?k (scrollback g @ [trim_default_tail (hd (rows g))])"
    using assms by (simp add: scroll_up_def Let_def push_scrollback_def evict_def)
qed simp

lemma trim_line_no [simp]: "line_no (trim_default_tail l) = line_no l"
  by (simp add: trim_default_tail_def Let_def)

lemma scroll_up_counts: "gh g \<noteq> 0 \<Longrightarrow> next_line_id (scroll_up b g) = next_line_id g + 1 \<and> scrollback_limit (scroll_up b g) = scrollback_limit g"
  by (simp add: scroll_up_def Let_def push_scrollback_def)

lemma numbered_iff:
  "numbered g \<longleftrightarrow> rows g \<noteq> [] \<and> map line_no (all_lines g) = [first_no g..<next_line_id g]
     \<and> next_line_id g = first_no g + length (all_lines g) \<and> (scrollback_limit g = 0 \<longrightarrow> scrollback g = [])"
proof -
  have "(\<forall>i<length (all_lines g). line_no (all_lines g ! i) = first_no g + i) \<longleftrightarrow> map line_no (all_lines g) = [first_no g..<first_no g + length (all_lines g)]"
    unfolding list_eq_iff_nth_eq length_map length_upt by (simp add: nth_upt)
  then have "(\<forall>i<length (all_lines g). line_no (all_lines g ! i) = first_no g + i) \<longleftrightarrow> map line_no (all_lines g) = [first_no g..<next_line_id g]"
    if "next_line_id g = first_no g + length (all_lines g)" using that by (simp only:)
  then show ?thesis unfolding numbered_def by blast
qed

lemma numbered_scroll_up:
  assumes "numbered g" and "grid_wf g" and "k \<le> length (scrollback g) + 1"
    and s: "scrollback (scroll_up b g) = drop k (scrollback g @ [trim_default_tail (hd (rows g))])"
  shows "numbered (scroll_up b g)" and "first_no (scroll_up b g) = first_no g + k"
proof -
  have ne: "rows g \<noteq> []" "gh g \<noteq> 0" using assms(1,2) length_0_conv [of "rows g"] by (simp_all add: numbered_def grid_wf_def)
  note u = scroll_up_sel [OF ne(2) assms(2), of b] and c = scroll_up_counts [OF ne(2), of b]
  have n: "map line_no (all_lines g) = [first_no g..<next_line_id g]" "next_line_id g = first_no g + length (all_lines g)"
    using assms(1) by (simp_all add: numbered_iff)
  have "map line_no (all_lines (scroll_up b g)) = drop k (map line_no (scrollback g) @ [line_no (hd (rows g))]) @ map line_no (tl (rows g)) @ [next_line_id g]"
    by (simp add: all_lines_def s u(3) drop_map [symmetric] line_blank_def)
  also have "\<dots> = drop k (map line_no (scrollback g @ hd (rows g) # tl (rows g))) @ [next_line_id g]"
    using assms(3) by (simp only: map_append list.map drop_append append_assoc) (cases "k = length (scrollback g) + 1"; simp)
  also have "\<dots> = drop k [first_no g..<next_line_id g] @ [next_line_id g]" using n(1) ne(1) by (simp add: all_lines_def)
  also have "\<dots> = [first_no g + k..<next_line_id g + 1]" using n(2) assms(3) ne(1) by (auto simp: all_lines_def neq_Nil_conv)
  finally have m: "map line_no (all_lines (scroll_up b g)) = [first_no g + k..<next_line_id g + 1]" .
  have l: "first_no g + k < next_line_id g + 1" using n(2) assms(3) ne(1) by (auto simp: all_lines_def neq_Nil_conv)
  show f: "first_no (scroll_up b g) = first_no g + k"
  proof -
    have "all_lines (scroll_up b g) \<noteq> []" by (simp add: all_lines_def u(3))
    then have "first_no (scroll_up b g) = hd (map line_no (all_lines (scroll_up b g)))" by (simp add: first_no_def hd_map)
    then show ?thesis unfolding m using l by (simp del: upt_Suc)
  qed
  have "length (all_lines (scroll_up b g)) = next_line_id g + 1 - (first_no g + k)" using m by (metis length_map length_upt)
  moreover have "scrollback (scroll_up b g) = scrollback g" if "scrollback_limit g = 0"
    using that ne(2) by (simp add: scroll_up_def Let_def push_scrollback_def)
  ultimately show "numbered (scroll_up b g)" using m f c l assms(1) u(3) by (auto simp: numbered_iff)
qed

lemma keeps_scroll_up:
  assumes "keeps_history g h" and "sane h"
  shows "keeps_history g (scroll_up b h)"
proof -
  have w: "grid_wf h" and n: "numbered h" using assms by (simp_all add: sane_def keeps_history_def)
  then have ne: "gh h \<noteq> 0" and z: "scrollback_limit h = 0 \<longrightarrow> scrollback h = []"
    using length_0_conv [of "rows h"] by (simp_all add: numbered_def grid_wf_def)
  from scroll_up_history [OF w ne z] obtain k
    where s: "scrollback (scroll_up b h) = drop k (scrollback h @ [trim_default_tail (hd (rows h))])" and k: "k \<le> length (scrollback h) + 1"
    by metis
  note u = scroll_up_sel [OF ne w, of b] and m = numbered_scroll_up [OF n w k s]
  have lk: "look (scroll_up b h) = look h" by (auto simp: look_def fun_eq_iff u)
  let ?d = "first_no h - first_no g"
  have d: "first_no g \<le> first_no h" using assms(1) by (simp add: keeps_history_def Let_def)
  have "n - (?d + k) < length (scrollback (scroll_up b h)) \<and> line_wrapped (scroll_up b h) (n - (?d + k)) = line_wrapped g n
      \<and> look (scroll_up b h) (line_cell (scroll_up b h) (n - (?d + k)) x) = look g (line_cell g n x)"
    if a: "?d + k \<le> n" "n < length (scrollback g)" for n x
  proof -
    have i: "n - ?d < length (scrollback h)" "line_wrapped h (n - ?d) = line_wrapped g n" "look h (line_cell h (n - ?d) x) = look g (line_cell g n x)"
      using assms(1) a by (auto simp: keeps_history_def Let_def)
    have "n - (?d + k) < length (scrollback (scroll_up b h))" "scrollback (scroll_up b h) ! (n - (?d + k)) = scrollback h ! (n - ?d)"
      using i(1) a k by (simp_all add: s nth_append less_diff_conv2)
    then show ?thesis using i unfolding lk by (metis line_cell_history line_wrapped_history)
  qed
  then show ?thesis using m d by (simp add: keeps_history_def Let_def)
qed

text \<open>A scroll inside margins gives a new number in the middle of the screen, so it is left out here.\<close>

fun moves_region :: "grid \<Rightarrow> edit \<Rightarrow> bool" where
  "moves_region g (ScrollRegionUp i j b) = (i \<le> j \<and> j < gh g \<and> \<not> (i = 0 \<and> j = gh g - 1))"
| "moves_region g (ScrollRegionUpDiscarding i j b) = (i \<le> j \<and> j < gh g)"
| "moves_region g (ScrollRegionDown i j b) = (i \<le> j \<and> j < gh g)"
| "moves_region g e = False"

lemma whole_region: "\<not> moves_region g (ScrollRegionUp i j b) \<Longrightarrow> scroll_region_up i j b g = g \<or> scroll_region_up i j b g = scroll_up b g"
  "\<not> moves_region g (ScrollRegionUpDiscarding i j b) \<Longrightarrow> scroll_region_up_discarding i j b g = g"
  "\<not> moves_region g (ScrollRegionDown i j b) \<Longrightarrow> scroll_region_down i j b g = g"
  by (auto simp: scroll_region_up_def scroll_region_up_discarding_def scroll_region_up_inner_def scroll_region_down_def)

lemma apply_edit_history:
  assumes "keeps_history g h" and "sane h" and "edit_ok h e" and "\<not> moves_region h e"
  shows "keeps_history g (apply_edit sw gc e h)"
proof -
  have c: "keeps_history g (snd (intern_underline_color c h))" for c
    using intern_underline_color_ok [OF assms(2) prod.collapse [symmetric]] keeps_same_looks [OF assms(1)] assms(2) by blast
  show ?thesis
  proof (cases e)
    case (ScrollRegionUp i j b)
    then show ?thesis using whole_region(1) assms(1,4) keeps_scroll_up [OF assms(1,2)] by (metis apply_edit.simps(8))
  next
    case (ScrollRegionUpDiscarding i j b)
    then show ?thesis using whole_region(2) assms(1,4) by (metis apply_edit.simps(9))
  next
    case (ScrollRegionDown i j b)
    then show ?thesis using whole_region(3) assms(1,4) by (metis apply_edit.simps(10))
  qed (use assms c keeps_scroll_up [OF assms(1,2)] history_edit.clear_keeps [of h g] history_edit.erase_keeps [of h g] history_edit.delete_keeps [of h g]
      history_edit.insert_keeps [of h g] history_edit.set_grapheme_keeps [of h g] history_edit.append_keeps [of h g] in auto)
qed

lemma apply_edits_history:
  "keeps_history g h \<Longrightarrow> sane h \<Longrightarrow> edits_ok sw gc (\<lambda>k e. \<not> moves_region k e) es h \<Longrightarrow> keeps_history g (apply_edits sw gc es h)"
  by (induction es arbitrary: h) (auto simp: apply_edit_sane apply_edit_history)

lemma line_text_range_looks:
  assumes "\<And>x. look h (line_cell h m x) = look g (line_cell g n x)" and "gw h = gw g"
  shows "line_text_range h m = line_text_range g n"
proof -
  have c: "width (line_cell h m x) = width (line_cell g n x)" "cell_text_owned (clusters h) (line_cell h m x) = cell_text_owned (clusters g) (line_cell g n x)" for x
    using assms(1) [of x] by (simp_all add: look_def)
  have "range_loop h m x stop = range_loop g n x stop" for x stop
  proof (induction "stop - x" arbitrary: x rule: less_induct)
    case less
    show ?case using less [of "Suc x"] less [of "x + width (line_cell g n x)"]
      by (simp add: range_loop.simps [of _ _ x] Let_def is_continuation_def display_width_def c)
  qed
  then show ?thesis by (simp add: line_text_range_def Let_def fun_eq_iff assms(2) is_continuation_def c)
qed

text \<open>The viewport and the selection lie in the history and nothing of them is evicted up to \<open>h\<close>.\<close>

definition in_history :: "grid \<Rightarrow> grid \<Rightarrow> copy_state \<Rightarrow> bool" where
  "in_history g h s \<longleftrightarrow> cs_frozen s = None \<and> cs_first s = first_line_id g \<and> cs_cy s < cs_height s
     \<and> first_no h - first_no g \<le> cs_top s \<and> cs_top s + cs_height s \<le> length (scrollback g)
     \<and> selects_within (first_no h - first_no g) (length (scrollback g)) s"

lemma sync_unfrozen:
  assumes "keeps_history g h" and "rows g \<noteq> []" and "in_history g h s"
  shows "sync_history h s = s\<lparr>cs_first := first_line_id h, cs_top := cs_top s - (first_no h - first_no g),
      cs_anchor := map_option (\<lambda>(n, x). (n - (first_no h - first_no g), x)) (cs_anchor s)\<rparr>" (is "_ = s\<lparr>cs_first := _, cs_top := _ - ?d, cs_anchor := _\<rparr>")
proof -
  have r: "rows h \<noteq> []" and le: "first_no g \<le> first_no h" using assms(1) by (simp_all add: keeps_history_def numbered_def)
  note i = assms(3) [unfolded in_history_def selects_within_def]
  have sh: "shift_line None ?d n = Some (n - ?d)" if "?d \<le> n" for n using that by (simp add: shift_line_def)
  have a: "(case cs_anchor s of None \<Rightarrow> None | Some (n, x) \<Rightarrow> map_option (\<lambda>m. (m, x)) (shift_line None ?d n)) = map_option (\<lambda>(n, x). (n - ?d, x)) (cs_anchor s)"
    using i sh by (auto split: option.splits)
  have "copy_evict ?d s = s\<lparr>cs_top := cs_top s - ?d, cs_anchor := map_option (\<lambda>(n, x). (n - ?d, x)) (cs_anchor s)\<rparr>"
    using i sh [of "cs_top s"] a by (cases s) (simp add: copy_evict_def Let_def)
  moreover have "s = s\<lparr>cs_top := cs_top s - ?d, cs_anchor := map_option (\<lambda>(n, x). (n - ?d, x)) (cs_anchor s)\<rparr>" if "?d = 0"
    using that by (cases s) (simp add: option.map_id split_beta)
  ultimately have e: "(case (cs_first s, first_line_id h) of (Some old, Some new) \<Rightarrow> if new - old \<noteq> 0 then copy_evict (new - old) s else s | _ \<Rightarrow> s)
      = s\<lparr>cs_top := cs_top s - ?d, cs_anchor := map_option (\<lambda>(n, x). (n - ?d, x)) (cs_anchor s)\<rparr>"
    using i first_line_numbered [OF r] first_line_numbered [OF assms(2)] by simp
  have "cs_top s - ?d + cs_height s \<le> length (scrollback h)"
  proof -
    have "cs_top s + cs_height s - 1 - ?d < length (scrollback h)"
      using assms(1) [unfolded keeps_history_def Let_def, THEN conjunct2, THEN conjunct2, rule_format, of "cs_top s + cs_height s - 1"] i by linarith
    then show ?thesis using i by linarith
  qed
  then have "cs_top s - ?d \<le> total_lines h - cs_height s" "cs_cy s \<le> cs_height s - 1" using i by (simp add: total_lines_def, linarith)
  then show ?thesis unfolding sync_history_def e Let_def max_top_def copy_total_def using i by (cases s) (simp add: min_def)
qed


text \<open>A screen of one row that keeps three lines of history, and a viewer two lines up in it.\<close>

definition demo_lines :: "nat list \<Rightarrow> edit list" where
  "demo_lines bs = concat (map (\<lambda>b. [SetGrapheme 0 0 [b] cell_default 1, ScrollUp cell_default]) bs)"

definition demo_history :: grid where
  "demo_history = apply_edits (\<lambda>_. 1) (\<lambda>_. 1) (demo_lines [97, 98, 99]) (set_scrollback_limit 3 (grid_new 3 1))"

definition demo_view :: copy_state where
  "demo_view = \<lparr>cs_top = 1, cs_cx = 0, cs_cy = 1, cs_width = 3, cs_height = 2, cs_anchor = Some (1, 0), cs_query = [], cs_typing = False,
     cs_first = first_line_id demo_history, cs_freeze = False, cs_frozen = None, cs_finished = False\<rparr>"

lemma apply_edits_sane: "sane g \<Longrightarrow> edits_ok sw gc P es g \<Longrightarrow> sane (apply_edits sw gc es g)"
  by (induction es arbitrary: g) (auto simp: apply_edit_sane)


text \<open>A program that keeps its last row for a status line, scrolling the rows above it.\<close>

definition demo_margins :: "nat list \<Rightarrow> edit list" where
  "demo_margins bs = concat (map (\<lambda>b. [SetGrapheme 0 0 [b] cell_default 1, ScrollRegionUp 0 1 cell_default]) bs)"

definition demo_status :: grid where
  "demo_status = apply_edits (\<lambda>_. 1) (\<lambda>_. 1) (demo_margins [97, 98, 99, 100]) (set_scrollback_limit 3 (grid_new 3 3))"

definition demo_reader :: copy_state where
  "demo_reader = \<lparr>cs_top = 2, cs_cx = 0, cs_cy = 0, cs_width = 3, cs_height = 1, cs_anchor = Some (1, 0), cs_query = [], cs_typing = False,
     cs_first = first_line_id demo_status, cs_freeze = False, cs_frozen = None, cs_finished = False\<rparr>"

text \<open>
  Where a scroll inside margins feeds the history, the reader is moved too far. Line numbers are
  given when a row is made, so such a scroll leaves gaps between the numbers in the history; the
  number of evicted lines is taken from the difference of two line numbers. One more line of output
  evicts one line, the difference is two: the reader of the line d finds itself on the line c and
  the anchor of the selection, on a line still in the history, is dropped.
\<close>

theorem eviction_miscounts:
  "let g = demo_status; h = apply_edits (\<lambda>_. 1) (\<lambda>_. 1) (demo_margins [101]) g; s = demo_reader; t = sync_history h s
   in length (scrollback h) = length (scrollback g) \<and> map (\<lambda>n. line_text g n 3) [0, 1, 2] = [[98], [99], [100]]
    \<and> map (\<lambda>n. line_text h n 3) [0, 1, 2] = [[99], [100], [101]]
    \<and> map_option (\<lambda>k. k - the (first_line_id g)) (first_line_id h) = Some 2
    \<and> line_text g (cursor_line s) 3 = [100] \<and> line_text h (cursor_line t) 3 = [99]
    \<and> cs_anchor s = Some (1, 0) \<and> cs_anchor t = None"
  by code_simp

end
