(* ===== verification/Config_Text.thy ===== *)
theory Config_Text
  imports Workspace "HOL-Library.List_Lexorder"
begin

text \<open>
  The text form of the configuration, from \<^verbatim>\<open>uniterm-core/src/config.rs\<close>: how a line gives a key
  and a value, how a value is written so that it can be read again, and the two settings that
  accumulate, key bindings and editors by file extension. The other settings set one field each
  from a value and are not modelled.
\<close>

section \<open>Letters\<close>

definition ascii_lower :: "rchar \<Rightarrow> rchar" where
  "ascii_lower c = (if 65 \<le> c \<and> c \<le> 90 then c + 32 else c)"

abbreviation to_ascii_lowercase :: "str \<Rightarrow> str" where
  "to_ascii_lowercase s \<equiv> map ascii_lower s"

definition eq_ignore_ascii_case :: "str \<Rightarrow> str \<Rightarrow> bool" where
  "eq_ignore_ascii_case s t \<longleftrightarrow> to_ascii_lowercase s = to_ascii_lowercase t"

definition is_ascii_alphabetic :: "rchar \<Rightarrow> bool" where
  "is_ascii_alphabetic c \<longleftrightarrow> (65 \<le> c \<and> c \<le> 90) \<or> (97 \<le> c \<and> c \<le> 122)"

definition is_ascii_alphanumeric :: "rchar \<Rightarrow> bool" where
  "is_ascii_alphanumeric c \<longleftrightarrow> is_ascii_alphabetic c \<or> (48 \<le> c \<and> c \<le> 57)"

definition is_ascii_whitespace :: "rchar \<Rightarrow> bool" where
  "is_ascii_whitespace c \<longleftrightarrow> c = 9 \<or> c = 10 \<or> c = 12 \<or> c = 13 \<or> c = 32"

section \<open>Values\<close>

text \<open>
  The source scans bytes; as every byte it looks for is ASCII, it sees the same as a scan of the
  characters. 34 is the quote, 92 the backslash and 35 the hash.
\<close>

fun comment_loop :: "bool \<Rightarrow> str \<Rightarrow> str" where
  "comment_loop q (b # c # r) =
     (if q \<and> b = 92 then b # c # comment_loop q r
      else
        (let q1 = (if b = 34 then \<not> q else q)
         in if \<not> q1 \<and> is_ascii_whitespace b \<and> c = 35 then [] else b # comment_loop q1 (c # r)))"
| "comment_loop q s = s"

definition strip_inline_comment :: "str \<Rightarrow> str" where
  "strip_inline_comment s = comment_loop False s"

fun unescape_quoted :: "str \<Rightarrow> str" where
  "unescape_quoted [] = []"
| "unescape_quoted (c # s) =
     (if c = 92 then
        (case s of
           [] \<Rightarrow> [92]
         | d # r \<Rightarrow> if d = 34 then 34 # unescape_quoted r else if d = 92 then 92 # unescape_quoted r else 92 # d # unescape_quoted r)
      else c # unescape_quoted s)"

text \<open>One double-quoted string: the last quote is preceded by an even number of backslashes.\<close>

definition quoted_form :: "str \<Rightarrow> bool" where
  "quoted_form s \<longleftrightarrow> length s \<ge> 2 \<and> hd s = 34 \<and> last s = 34
     \<and> even (length (takeWhile (\<lambda>c. c = 92) (rev (butlast s))))"

definition config_value :: "str \<Rightarrow> str" where
  "config_value raw =
     (let r = trim raw
      in if quoted_form r then unescape_quoted (butlast (tl r)) else trim (strip_inline_comment r))"

definition escape_quoted :: "str \<Rightarrow> str" where
  "escape_quoted s = concat (map (\<lambda>c. if c = 92 then [92, 92] else if c = 34 then [92, 34] else [c]) s)"

definition config_value_text :: "str \<Rightarrow> str" where
  "config_value_text v = (if 35 \<notin> set v then v else 34 # escape_quoted v @ [34])"

section \<open>Keys\<close>

definition parse_bool_checked :: "str \<Rightarrow> bool option" where
  "parse_bool_checked v =
     (let w = to_ascii_lowercase v
      in if w \<in> {lit ''on'', lit ''true'', lit ''yes'', lit ''1''} then Some True
         else if w \<in> {lit ''off'', lit ''false'', lit ''no'', lit ''0''} then Some False
         else None)"

definition parse_key :: "str \<Rightarrow> nat option" where
  "parse_key s =
     (case trim s of
        c # d # e # _ \<Rightarrow> if (c = 67 \<or> c = 99) \<and> d = 45 \<and> is_ascii_alphabetic e then Some (ascii_lower e mod 32) else None
      | _ \<Rightarrow> None)"

definition parse_binding_key :: "str \<Rightarrow> nat option" where
  "parse_binding_key s =
     (let v = trim s
      in if eq_ignore_ascii_case v (lit ''space'') then Some 32
         else if length v = 1 \<and> hd v < 128 then Some (hd v)
         else parse_key v)"

definition binding_key_name :: "nat \<Rightarrow> str" where
  "binding_key_name k =
     (if k = 32 then lit ''space'' else if k < 0x20 then [67, 45, k + 0x60] else [k])"

definition binding_actions :: "str list" where
  "binding_actions = map lit
     [''none'', ''detach'', ''split-right'', ''split-down'', ''focus-left'', ''focus-right'', ''focus-up'', ''focus-down'',
      ''resize-left'', ''resize-right'', ''resize-up'', ''resize-down'', ''zoom'', ''kill-pane'', ''new-tab'', ''next-tab'',
      ''previous-tab'', ''move-tab-left'', ''today'', ''move-tab-right'', ''kill-tab'', ''overview'', ''copy-mode'', ''files'',
      ''sidebar'', ''observatory'', ''new-task'', ''tasks'', ''agents'', ''rename-tab'', ''rename-workspace'', ''menu'',
      ''workspaces'', ''settings'', ''projects'', ''new-project'', ''close-workspace'']"

definition is_binding_action :: "str \<Rightarrow> bool" where
  "is_binding_action v \<longleftrightarrow> to_ascii_lowercase (trim v) \<in> set binding_actions"

record key_binding =
  kb_key :: nat
  kb_action :: str

record editor_rule =
  er_extension :: str
  er_command :: str

definition editor_rule_parse :: "str \<Rightarrow> str \<Rightarrow> str + editor_rule" where
  "editor_rule_parse x cmd =
     (let ext = to_ascii_lowercase (dropWhile (\<lambda>c. c = 46) (trim x)); c = trim cmd
      in if ext = [] \<or> \<not> list_all (\<lambda>d. is_ascii_alphanumeric d \<or> d = 95 \<or> d = 45) ext then Inl (lit ''invalid file extension '' @ 39 # ext @ [39])
         else if c = [] then Inl (lit ''editor command for .'' @ ext @ lit '' is empty'')
         else Inr \<lparr>er_extension = ext, er_command = c\<rparr>)"

section \<open>Lines\<close>

definition config_entry :: "str \<Rightarrow> (str \<times> str) option" where
  "config_entry raw =
     (let l = trim raw
      in if l = [] \<or> hd l = 35 then None else map_option (\<lambda>(k, v). (trim k, config_value v)) (split_once 61 l))"

definition strip_prefix :: "str \<Rightarrow> str \<Rightarrow> str option" where
  "strip_prefix p s = (if take (length p) s = p then Some (drop (length p) s) else None)"

text \<open>What a line does to the bindings and to the editors.\<close>

definition bind_line :: "str \<Rightarrow> key_binding list \<Rightarrow> key_binding list" where
  "bind_line raw bs =
     (case config_entry raw of
        None \<Rightarrow> bs
      | Some (key, val) \<Rightarrow>
          (case Option.bind (strip_prefix (lit ''bind.'') key) parse_binding_key of
             None \<Rightarrow> bs
           | Some k \<Rightarrow>
               if is_binding_action val
               then sort_key kb_key (filter (\<lambda>b. kb_key b \<noteq> k) bs @ [\<lparr>kb_key = k, kb_action = to_ascii_lowercase val\<rparr>])
               else bs))"

definition editor_line :: "str \<Rightarrow> editor_rule list \<Rightarrow> editor_rule list" where
  "editor_line raw rs =
     (case config_entry raw of
        None \<Rightarrow> rs
      | Some (key, val) \<Rightarrow>
          (case map_option (\<lambda>x. editor_rule_parse x val) (strip_prefix (lit ''editor.'') key) of
             Some (Inr r) \<Rightarrow> sort_key er_extension (filter (\<lambda>q. er_extension q \<noteq> er_extension r) rs @ [r])
           | _ \<Rightarrow> rs))"

definition binding_line :: "key_binding \<Rightarrow> str" where
  "binding_line b = lit ''bind.'' @ binding_key_name (kb_key b) @ lit '' = '' @ kb_action b"

definition editor_rule_line :: "editor_rule \<Rightarrow> str" where
  "editor_rule_line r = lit ''editor.'' @ er_extension r @ lit '' = '' @ config_value_text (er_command r)"

section \<open>What survives a rewrite\<close>

lemma trim_sub: "set (trim s) \<subseteq> set s"
  unfolding trim_def trim_start_def trim_end_def by (metis set_dropWhileD set_rev subset_iff)

lemma length_trim: "length (trim s) \<le> length s"
  unfolding trim_def trim_start_def trim_end_def by (metis length_dropWhile_le length_rev order_trans)

lemma trim_fixed: "s = [] \<or> \<not> is_whitespace (hd s) \<and> \<not> is_whitespace (last s) \<Longrightarrow> trim s = s"
  using dropWhile_eq_self_iff [of is_whitespace s] dropWhile_eq_self_iff [of is_whitespace "rev s"]
  by (auto simp: trim_def trim_start_def trim_end_def hd_rev)

lemma trim_ends: "trim s \<noteq> [] \<Longrightarrow> \<not> is_whitespace (hd (trim s)) \<and> \<not> is_whitespace (last (trim s))"
proof -
  assume n: "trim s \<noteq> []"
  let ?t = "trim_end s"
  have h: "\<not> is_whitespace (hd (trim s))" using n unfolding trim_def trim_start_def by (rule hd_dropWhile)
  have t: "?t \<noteq> []" using n by (auto simp: trim_def trim_start_def)
  then have "\<not> is_whitespace (last ?t)" using hd_dropWhile [of is_whitespace "rev s"] by (auto simp: trim_end_def last_rev)
  moreover obtain a where "?t = a @ trim s" by (metis trim_def trim_start_def takeWhile_dropWhile_id)
  then have "last ?t = last (trim s)" using n by simp
  ultimately show ?thesis using h by simp
qed

lemma trim_idem [simp]: "trim (trim s) = trim s"
  using trim_ends [of s] by (intro trim_fixed) auto

lemma comment_loop_plain: "35 \<notin> set s \<Longrightarrow> comment_loop q s = s"
  by (induction q s rule: comment_loop.induct) (auto simp: Let_def)

lemma unescape_escape: "unescape_quoted (escape_quoted s) = s"
  by (induction s) (auto simp: escape_quoted_def)

lemma unescape_length: "length (unescape_quoted s) \<le> length s"
  by (induction s rule: unescape_quoted.induct) (auto split: list.split)

lemma escape_backslashes: "even (length (takeWhile (\<lambda>c. c = 92) (rev (escape_quoted s) @ [34])))"
proof (induction s rule: rev_induct)
  case (snoc c s)
  then show ?case by (auto simp: escape_quoted_def)
qed (simp add: escape_quoted_def)

lemma quoted_escape: "quoted_form (34 # escape_quoted s @ [34])"
  using escape_backslashes [of s] by (simp add: quoted_form_def butlast_append)


section \<open>Bindings are read back\<close>

definition parse_bindings :: "str list \<Rightarrow> key_binding list" where
  "parse_bindings ls = fold bind_line ls []"

definition bindings_ok :: "key_binding list \<Rightarrow> bool" where
  "bindings_ok bs \<longleftrightarrow> sorted (map kb_key bs) \<and> distinct (map kb_key bs) \<and> (\<forall>b\<in>set bs. kb_key b < 128 \<and> kb_key b \<noteq> 61
     \<and> to_ascii_lowercase (kb_action b) = kb_action b \<and> trim (kb_action b) \<in> set binding_actions)"

lemma split_once_no: "split_once d s = Some (a, b) \<Longrightarrow> d \<notin> set a"
  by (induction s arbitrary: a) (auto split: if_splits)

lemma parse_key_bound: "parse_key s = Some k \<Longrightarrow> k < 32"
  by (auto simp: parse_key_def split: list.splits if_splits)

lemma parse_binding_key_ok:
  assumes "parse_binding_key s = Some k" and "61 \<notin> set s"
  shows "k < 128 \<and> k \<noteq> 61"
proof -
  have "61 \<notin> set (trim s)" using assms(2) trim_sub by blast
  then have "trim s \<noteq> [] \<Longrightarrow> hd (trim s) \<noteq> 61" by (metis list.set_sel(1))
  then show ?thesis using assms(1) parse_key_bound [of "trim s" k]
    by (cases "trim s") (auto simp: parse_binding_key_def Let_def split: if_splits)
qed

lemma config_entry_key: "config_entry raw = Some (k, v) \<Longrightarrow> 61 \<notin> set k"
proof -
  assume "config_entry raw = Some (k, v)"
  then obtain a b where "split_once 61 (trim raw) = Some (a, b)" "k = trim a" by (auto simp: config_entry_def Let_def split: if_splits)
  then show ?thesis using split_once_no trim_sub by blast
qed

lemma lower_idem [simp]: "ascii_lower (ascii_lower c) = ascii_lower c"
  by (simp add: ascii_lower_def)

lemma lower_whitespace [simp]: "is_whitespace (ascii_lower c) = is_whitespace c"
  by (auto simp: ascii_lower_def is_whitespace_def)

lemma trim_lower: "trim (to_ascii_lowercase s) = to_ascii_lowercase (trim s)"
  by (simp add: trim_def trim_start_def trim_end_def rev_map dropWhile_map comp_def)

lemma bind_line_ok: "bindings_ok bs \<Longrightarrow> bindings_ok (bind_line raw bs)"
proof -
  assume ok: "bindings_ok bs"
  show ?thesis
  proof (cases "config_entry raw")
    case (Some p)
    obtain key val where p: "p = (key, val)" by fastforce
    show ?thesis
    proof (cases "Option.bind (strip_prefix (lit ''bind.'') key) parse_binding_key")
      case k: (Some k)
      then obtain t where t: "strip_prefix (lit ''bind.'') key = Some t" "parse_binding_key t = Some k" by (auto simp: bind_eq_Some_conv)
      have "61 \<notin> set t" using t(1) config_entry_key Some p by (auto simp: strip_prefix_def split: if_splits dest: in_set_dropD)
      then have "k < 128 \<and> k \<noteq> 61" using parse_binding_key_ok t(2) by blast
      moreover have "distinct (map kb_key (filter (\<lambda>b. kb_key b \<noteq> k) bs))" using ok by (auto simp: bindings_ok_def distinct_map_filter)
      ultimately show ?thesis using ok Some p k
        by (auto simp: bind_line_def bindings_ok_def is_binding_action_def trim_lower distinct_map distinct_sort inj_on_def)
    qed (use ok Some p in \<open>simp add: bind_line_def\<close>)
  qed (use ok in \<open>simp add: bind_line_def\<close>)
qed

lemma parse_bindings_ok: "bindings_ok (parse_bindings ls)"
proof -
  have "bindings_ok bs \<Longrightarrow> bindings_ok (fold bind_line ls bs)" for bs by (induction ls arbitrary: bs) (auto simp: bind_line_ok)
  moreover have "bindings_ok []" by (simp add: bindings_ok_def)
  ultimately show ?thesis unfolding parse_bindings_def by blast
qed

text \<open>Keys whose name is read as the key: all but the control characters that no letter gives.\<close>

definition named_key :: "nat \<Rightarrow> bool" where
  "named_key k \<longleftrightarrow> k \<noteq> 0 \<and> \<not> (27 \<le> k \<and> k < 32)"

lemma binding_key_names: "\<forall>k\<in>set [0..<128]. (parse_binding_key (binding_key_name k) = Some k) = named_key k"
  by code_simp

lemma binding_name_chars: "\<forall>k\<in>set [0..<128]. k \<noteq> 61 \<longrightarrow> binding_key_name k \<noteq> [] \<and> 61 \<notin> set (binding_key_name k) \<and> list_all (\<lambda>c. \<not> is_whitespace c) (binding_key_name k)"
  by code_simp

lemma action_chars: "\<forall>a\<in>set binding_actions. a \<noteq> [] \<and> 35 \<notin> set a \<and> hd a \<noteq> 34 \<and> list_all (\<lambda>c. \<not> is_whitespace c) a \<and> to_ascii_lowercase a = a"
  by code_simp

lemma split_once_append: "d \<notin> set a \<Longrightarrow> split_once d (a @ d # b) = Some (a, b)"
  by (induction a) auto

lemma binding_line_entry:
  assumes "k < 128" and "k \<noteq> 61" and "a \<in> set binding_actions"
  shows "config_entry (lit ''bind.'' @ binding_key_name k @ lit '' = '' @ a) = Some (lit ''bind.'' @ binding_key_name k, a)"
proof -
  let ?n = "lit ''bind.'' @ binding_key_name k" and ?l = "lit ''bind.'' @ binding_key_name k @ lit '' = '' @ a"
  have n: "binding_key_name k \<noteq> []" "61 \<notin> set (binding_key_name k)" "\<not> is_whitespace (last (binding_key_name k))"
    using binding_name_chars assms(1,2) by (auto simp: list_all_iff)
  have a: "a \<noteq> []" "35 \<notin> set a" "hd a \<noteq> 34" "\<not> is_whitespace (hd a)" "\<not> is_whitespace (last a)"
    using action_chars assms(3) by (auto simp: list_all_iff)
  have b: "lit ''bind.'' = [98, 105, 110, 100, 46]" "lit '' = '' = [32, 61, 32]" by code_simp+
  have "trim ?l = ?l" by (rule trim_fixed) (use a in \<open>simp add: b is_whitespace_def\<close>)
  moreover have "split_once 61 ?l = Some (?n @ [32], 32 # a)" using split_once_append [of 61 "?n @ [32]" "32 # a"] n by (simp add: b)
  moreover have "trim (?n @ [32]) = ?n"
  proof -
    have "trim_end (?n @ [32]) = trim_end ?n" by (simp add: trim_end_def is_whitespace_def)
    then have "trim (?n @ [32]) = trim ?n" by (simp add: trim_def)
    then show ?thesis using trim_fixed [of ?n] n by (simp add: b is_whitespace_def)
  qed
  moreover have "config_value (32 # a) = a"
  proof -
    have "is_whitespace 32" by (simp add: is_whitespace_def)
    moreover have "trim_end (32 # a) = 32 # a"
      using dropWhile_eq_self_iff [of is_whitespace "rev a @ [32]"] a by (simp add: trim_end_def hd_append hd_rev)
    ultimately have "trim (32 # a) = a" using dropWhile_eq_self_iff [of is_whitespace a] a by (simp add: trim_def trim_start_def)
    then show ?thesis using a trim_fixed [of a]
      by (simp add: config_value_def quoted_form_def strip_inline_comment_def comment_loop_plain)
  qed
  ultimately show ?thesis by (simp add: config_entry_def Let_def b)
qed

lemma bind_line_last:
  assumes "sorted (map kb_key (bs @ [b]))" and "distinct (map kb_key (bs @ [b]))" and "kb_key b < 128" and "kb_key b \<noteq> 61"
    and "named_key (kb_key b)" and "kb_action b \<in> set binding_actions"
  shows "bind_line (binding_line b) bs = bs @ [b]"
proof -
  have k: "parse_binding_key (binding_key_name (kb_key b)) = Some (kb_key b)" using binding_key_names assms(3,5) by auto
  have a: "trim (kb_action b) = kb_action b" "to_ascii_lowercase (kb_action b) = kb_action b"
    using action_chars assms(6) trim_fixed [of "kb_action b"] by (auto simp: list_all_iff)
  have p: "strip_prefix (lit ''bind.'') (lit ''bind.'' @ n) = Some n" for n by (simp add: strip_prefix_def)
  have f: "filter (\<lambda>c. kb_key c \<noteq> kb_key b) bs = bs" using assms(2) by (simp add: filter_id_conv) (metis imageI)
  have "sort_key kb_key (bs @ [b]) = bs @ [b]" using assms(1) by (rule sort_key_id_if_sorted)
  then show ?thesis using binding_line_entry [OF assms(3,4,6)] k a f assms(6)
    by (cases b) (simp add: bind_line_def binding_line_def p is_binding_action_def)
qed

text \<open>
  C40. A rewrite of the configuration keeps the key bindings: whatever lines they were read from, if no
  key is a control character without a letter and no action carries white space inside its quotes,
  printing the bindings and reading the printed lines gives the same bindings, in the same order.
\<close>

theorem bindings_round_trip:
  assumes "list_all (\<lambda>b. named_key (kb_key b) \<and> trim (kb_action b) = kb_action b) (parse_bindings ls)"
  shows "parse_bindings (map binding_line (parse_bindings ls)) = parse_bindings ls"
proof -
  have "fold bind_line (map binding_line bs) [] = bs"
    if "bindings_ok bs" "list_all (\<lambda>b. named_key (kb_key b) \<and> trim (kb_action b) = kb_action b) bs" for bs using that
  proof (induction bs rule: rev_induct)
    case (snoc b bs)
    have "bindings_ok bs" using snoc.prems(1) by (auto simp: bindings_ok_def sorted_append)
    then have "fold bind_line (map binding_line bs) [] = bs" using snoc by simp
    moreover have "bind_line (binding_line b) bs = bs @ [b]"
      by (rule bind_line_last) (use snoc.prems in \<open>auto simp: bindings_ok_def\<close>)
    ultimately show ?case by simp
  qed simp
  then show ?thesis using parse_bindings_ok assms unfolding parse_bindings_def by blast
qed

theorem bindings_round_trip_witness:
  "parse_bindings (map binding_line (parse_bindings [lit ''bind.C-x = Zoom # note'', lit ''bind.v = split-right'', lit ''bind.v = none'']))
     = [\<lparr>kb_key = 24, kb_action = lit ''zoom''\<rparr>, \<lparr>kb_key = 118, kb_action = lit ''none''\<rparr>]"
proof -
  have p: "parse_bindings [lit ''bind.C-x = Zoom # note'', lit ''bind.v = split-right'', lit ''bind.v = none'']
      = [\<lparr>kb_key = 24, kb_action = lit ''zoom''\<rparr>, \<lparr>kb_key = 118, kb_action = lit ''none''\<rparr>]" by code_simp
  have "list_all (\<lambda>b. named_key (kb_key b) \<and> trim (kb_action b) = kb_action b)
      [\<lparr>kb_key = 24, kb_action = lit ''zoom''\<rparr>, \<lparr>kb_key = 118, kb_action = lit ''none''\<rparr>]" by code_simp
  then show ?thesis using bindings_round_trip [of "[lit ''bind.C-x = Zoom # note'', lit ''bind.v = split-right'', lit ''bind.v = none'']"]
    unfolding p by blast
qed

end
