(* ===== verification/Tab_Stacks.thy ===== *)
theory Tab_Stacks
  imports Layout
begin

text \<open>
  Stacks of Tabs, \<^verbatim>\<open>uniterm-server/src/server/tab_stacks.rs\<close>: a Tab names a Pane of its parent Tab,
  and the ancestry that follows is shown as stacks. With it the two places that take a Pane out of
  its Tab, \<^verbatim>\<open>detach_pane\<close> of \<^verbatim>\<open>server/projects.rs\<close> and the window part of \<^verbatim>\<open>close_pane\<close> of
  \<^verbatim>\<open>server/agents.rs\<close>, both after repairing the links to that Pane. Drawing and saving are left out.
  Indices of windows come from searches of the same list and are in range.
\<close>

section \<open>Windows\<close>

record win =
  w_expanded :: bool
  w_parent :: "pane_id option"
  w_mode :: pane_layout
  w_scroll :: nat
  w_project :: project_id
  w_layout :: layout_node
  w_active :: pane_id
  w_zoomed :: "pane_id option"
  w_name :: "str option"

record tab_configured =
  tcf_pane :: pane_id
  tcf_expanded :: bool
  tcf_mode :: pane_layout
  tcf_parent :: "pane_id option"

record tabs =
  t_windows :: "win list"
  t_active :: nat
  t_project :: project_id
  t_today :: bool
  t_log :: "tab_configured list"
  t_follow :: bool
  t_stack_scroll :: nat

abbreviation holds :: "pane_id \<Rightarrow> win \<Rightarrow> bool" where
  "holds p w \<equiv> contains_pane p (w_layout w)"

definition window_of :: "pane_id \<Rightarrow> tabs \<Rightarrow> nat option" where
  "window_of p s = position (holds p) (t_windows s)"

section \<open>Ancestry\<close>

definition tab_parent :: "tabs \<Rightarrow> nat \<Rightarrow> nat option" where
  "tab_parent s i =
     (if i < length (t_windows s) then
        (let tab = t_windows s ! i
         in case w_parent tab of
              None \<Rightarrow> None
            | Some p \<Rightarrow> position (\<lambda>q. w_project q = w_project tab \<and> holds p q) (t_windows s))
      else None)"

fun root_loop :: "nat \<Rightarrow> tabs \<Rightarrow> nat \<Rightarrow> nat" where
  "root_loop 0 s i = i"
| "root_loop (Suc n) s i =
     (case tab_parent s i of
        None \<Rightarrow> i
      | Some p \<Rightarrow> if p = i then i else root_loop n s p)"

definition stack_root :: "tabs \<Rightarrow> nat \<Rightarrow> nat" where
  "stack_root s i = root_loop (length (t_windows s)) s i"

definition project_window_indices :: "project_id \<Rightarrow> tabs \<Rightarrow> nat list" where
  "project_window_indices pr s = filter (\<lambda>i. w_project (t_windows s ! i) = pr) [0..<length (t_windows s)]"

definition root_tabs :: "tabs \<Rightarrow> nat list" where
  "root_tabs s = filter (\<lambda>i. tab_parent s i = None) (project_window_indices (t_project s) s)"

definition stack_tabs :: "tabs \<Rightarrow> nat list" where
  "stack_tabs s =
     (if t_today s \<or> t_windows s = [] then []
      else
        (let root = stack_root s (t_active s);
             tabs = root # filter (\<lambda>i. i \<noteq> root \<and> stack_root s i = root) (project_window_indices (t_project s) s)
         in if length tabs = 1 then [] else tabs))"

section \<open>Links\<close>

definition set_window :: "nat \<Rightarrow> (win \<Rightarrow> win) \<Rightarrow> tabs \<Rightarrow> tabs" where
  "set_window i f s = s\<lparr>t_windows := (t_windows s)[i := f (t_windows s ! i)]\<rparr>"

definition append_event :: "tab_configured \<Rightarrow> tabs \<Rightarrow> tabs" where
  "append_event e s = s\<lparr>t_log := t_log s @ [e]\<rparr>"

definition retain_stack_row :: "nat \<Rightarrow> bool \<Rightarrow> tabs \<Rightarrow> tabs" where
  "retain_stack_row i e s =
     (let w = t_windows s ! i
      in if w_expanded w = e then s
         else set_window i (\<lambda>w. w\<lparr>w_expanded := e\<rparr>)
           (append_event \<lparr>tcf_pane = w_active w, tcf_expanded = e, tcf_mode = w_mode w, tcf_parent = w_parent w\<rparr> s))"

text \<open>The walk to the root of the new parent; it fails when it meets the child.\<close>

fun ancestor_loop :: "nat \<Rightarrow> tabs \<Rightarrow> nat \<Rightarrow> nat \<Rightarrow> nat option" where
  "ancestor_loop 0 s child a = Some a"
| "ancestor_loop (Suc n) s child a =
     (if a = child then None
      else (case tab_parent s a of Some next \<Rightarrow> ancestor_loop n s child next | None \<Rightarrow> Some a))"

definition link_tab :: "nat \<Rightarrow> pane_id \<Rightarrow> pane_id option \<Rightarrow> tabs \<Rightarrow> tabs" where
  "link_tab child pane parent s =
     (let w = t_windows s ! child
      in set_window child (\<lambda>w. w\<lparr>w_parent := parent\<rparr>)
           (append_event \<lparr>tcf_pane = pane, tcf_expanded = w_expanded w, tcf_mode = w_mode w, tcf_parent = parent\<rparr> s))"

definition assign_tab_parent :: "pane_id \<Rightarrow> pane_id option \<Rightarrow> tabs \<Rightarrow> tabs \<times> bool" where
  "assign_tab_parent pane parent s =
     (case window_of pane s of
        None \<Rightarrow> (s, False)
      | Some child \<Rightarrow>
          (case parent of
             None \<Rightarrow> (link_tab child pane None s, True)
           | Some q \<Rightarrow>
               (case position (\<lambda>w. holds q w \<and> w_project w = w_project (t_windows s ! child)) (t_windows s) of
                  None \<Rightarrow> (s, False)
                | Some a \<Rightarrow>
                    (case ancestor_loop (length (t_windows s) + 1) s child a of
                       None \<Rightarrow> (s, False)
                     | Some r \<Rightarrow> (link_tab child pane (Some q) (retain_stack_row r True s), True)))))"

definition set_tab_parent :: "pane_id \<Rightarrow> pane_id option \<Rightarrow> tabs \<Rightarrow> tabs \<times> bool" where
  "set_tab_parent pane parent s =
     (let assign = (\<lambda>s. case assign_tab_parent pane parent s of
                           (s1, ok) \<Rightarrow> (if ok then s1\<lparr>t_follow := True, t_stack_scroll := 0\<rparr> else s1, ok))
      in case window_of pane s of
           None \<Rightarrow> assign s
         | Some i \<Rightarrow>
             if w_parent (t_windows s ! i) \<noteq> parent then assign s
             else if parent \<noteq> None \<or> \<not> w_expanded (t_windows s ! i) then (s, True)
             else assign (retain_stack_row i False s))"

definition repair_replacement :: "pane_id \<Rightarrow> win \<Rightarrow> pane_id option" where
  "repair_replacement pane w = (case find (\<lambda>i. i \<noteq> pane) (pane_ids (w_layout w)) of Some i \<Rightarrow> Some i | None \<Rightarrow> w_parent w)"

definition stack_children :: "pane_id \<Rightarrow> tabs \<Rightarrow> pane_id list" where
  "stack_children pane s = map w_active (filter (\<lambda>w. w_parent w = Some pane) (t_windows s))"

definition reassign :: "pane_id option \<Rightarrow> pane_id list \<Rightarrow> tabs \<Rightarrow> tabs" where
  "reassign r cs s = fold (\<lambda>c s. if Some c \<noteq> r then fst (assign_tab_parent c r s) else s) cs s"

definition promote :: "pane_id \<Rightarrow> tabs \<Rightarrow> tabs" where
  "promote c s =
     (let s1 = fst (assign_tab_parent c None s)
      in case window_of c s1 of Some i \<Rightarrow> retain_stack_row i True s1 | None \<Rightarrow> s1)"

definition repair_stack_anchor :: "pane_id \<Rightarrow> tabs \<Rightarrow> tabs" where
  "repair_stack_anchor pane s =
     (case window_of pane s of
        None \<Rightarrow> s
      | Some index \<Rightarrow>
          (let root = stack_root s index;
               s1 = (if root \<noteq> index then retain_stack_row root True s else s);
               r = repair_replacement pane (t_windows s1 ! index);
               cs = stack_children pane s1
           in case (r, cs) of
                (None, c # _) \<Rightarrow> reassign (Some c) cs (promote c s1)
              | _ \<Rightarrow> reassign r cs s1))"

section \<open>Taking a Pane out\<close>

definition keep_window :: "pane_id \<Rightarrow> layout_node \<Rightarrow> win \<Rightarrow> win" where
  "keep_window pane lay w =
     w\<lparr>w_active := (if w_active w = pane then first_pane lay else w_active w),
       w_zoomed := (if w_zoomed w = Some pane then None else w_zoomed w), w_layout := lay\<rparr>"

definition detach_pane :: "nat \<Rightarrow> pane_id \<Rightarrow> tabs \<Rightarrow> tabs \<times> bool" where
  "detach_pane src pane s =
     (let s1 = repair_stack_anchor pane s
      in case without pane (w_layout (t_windows s1 ! src)) of
           Some lay \<Rightarrow> (set_window src (keep_window pane lay) s1, True)
         | None \<Rightarrow>
             (let ws = remove_at src (t_windows s1);
                  a = t_active s1
              in (s1\<lparr>t_windows := ws, t_active := (if a > src then a - 1 else if a = src then min src (length ws - 1) else a)\<rparr>, False)))"

definition list_insert :: "nat \<Rightarrow> 'a \<Rightarrow> 'a list \<Rightarrow> 'a list" where
  "list_insert i x xs = take i xs @ x # drop i xs"

definition activate_window :: "nat \<Rightarrow> tabs \<Rightarrow> tabs" where
  "activate_window i s =
     (if i < length (t_windows s) then
        (let pr = w_project (t_windows s ! i)
         in s\<lparr>t_active := i, t_project := pr, t_follow := (t_follow s \<or> t_active s \<noteq> i \<or> t_project s \<noteq> pr)\<rparr>)
      else s)"

definition finish_pane_move :: "nat \<Rightarrow> tabs \<Rightarrow> tabs" where
  "finish_pane_move target s = (activate_window target s)\<lparr>t_follow := True\<rparr>"

definition new_window :: "project_id \<Rightarrow> pane_id \<Rightarrow> win" where
  "new_window pr pane =
     \<lparr>w_expanded = False, w_parent = None, w_mode = SplitMode, w_scroll = 0, w_project = pr, w_layout = Leaf pane, w_active = pane,
      w_zoomed = None, w_name = None\<rparr>"

definition insert_tab :: "pane_id \<Rightarrow> project_id \<Rightarrow> bool \<Rightarrow> tabs \<Rightarrow> tabs" where
  "insert_tab pane pr background s =
     (let s1 = s\<lparr>t_windows := t_windows s @ [new_window pr pane]\<rparr>
      in if background then s1 else activate_window (length (t_windows s1) - 1) s1)"

definition split_window :: "pane_id \<Rightarrow> pane_id \<Rightarrow> split_dir \<Rightarrow> bool \<Rightarrow> win \<Rightarrow> win" where
  "split_window anchor pane dir background w =
     (let w1 = w\<lparr>w_layout := fst (split_pane anchor dir pane (w_layout w))\<rparr>
      in if background then w1 else w1\<lparr>w_active := pane, w_zoomed := None\<rparr>)"

definition insert_split :: "nat \<Rightarrow> pane_id \<Rightarrow> pane_id \<Rightarrow> split_dir \<Rightarrow> bool \<Rightarrow> tabs \<Rightarrow> tabs" where
  "insert_split i anchor pane dir background s =
     (let s1 = set_window i (split_window anchor pane dir background) s
      in if background then s1 else activate_window i s1)"

definition move_pane_to_new_window :: "pane_id \<Rightarrow> tabs \<Rightarrow> tabs \<times> bool" where
  "move_pane_to_new_window pane s =
     (case window_of pane s of
        None \<Rightarrow> (s, False)
      | Some src \<Rightarrow>
          if length (pane_ids (w_layout (t_windows s ! src))) < 2 then (s, False)
          else
            (let pr = w_project (t_windows s ! src);
                 s1 = fst (detach_pane src pane s);
                 target = src + 1
             in (finish_pane_move target (s1\<lparr>t_windows := list_insert target (new_window pr pane) (t_windows s1)\<rparr>), True)))"

definition split_beside :: "rect \<Rightarrow> pane_id \<Rightarrow> win \<Rightarrow> win" where
  "split_beside area pane w =
     (let anchor = w_active w;
          r = (case rect_of anchor (compute (w_layout w) area) of Some r \<Rightarrow> r | None \<Rightarrow> area);
          dir = (if rw r \<ge> rh r * 2 then Horizontal else Vertical)
      in split_window anchor pane dir False w)"

definition move_pane_to_window :: "rect \<Rightarrow> pane_id \<Rightarrow> nat \<Rightarrow> tabs \<Rightarrow> tabs \<times> bool" where
  "move_pane_to_window area pane target s =
     (case window_of pane s of
        None \<Rightarrow> (s, False)
      | Some src \<Rightarrow>
          if src = target \<or> target \<ge> length (t_windows s) \<or> w_project (t_windows s ! target) \<noteq> w_project (t_windows s ! src) then (s, False)
          else
            (let (s1, kept) = detach_pane src pane s;
                 target1 = (if \<not> kept \<and> src < target then target - 1 else target)
             in (finish_pane_move target1 (set_window target1 (split_beside area pane) s1), True)))"

text \<open>The Tab that gets the focus when the active one closes with its last Pane: the nearest of its stack.\<close>

definition nearer :: "nat \<Rightarrow> nat \<Rightarrow> nat \<Rightarrow> bool" where
  "nearer a i j \<longleftrightarrow> (let di = (if i < a then a - i else i - a); dj = (if j < a then a - j else j - a)
     in di < dj \<or> (di = dj \<and> (i \<le> a \<or> j > a)))"

fun nearest_tab :: "nat \<Rightarrow> nat list \<Rightarrow> nat option" where
  "nearest_tab a [] = None"
| "nearest_tab a (i # js) = (case nearest_tab a js of None \<Rightarrow> Some i | Some j \<Rightarrow> if nearer a i j then Some i else Some j)"

definition stack_focus :: "pane_id \<Rightarrow> tabs \<Rightarrow> pane_id option" where
  "stack_focus pane s =
     (let w = t_windows s ! t_active s
      in if w_active w = pane \<and> leaf_count (w_layout w) = 1
         then map_option (\<lambda>i. w_active (t_windows s ! i)) (nearest_tab (t_active s) (filter (\<lambda>i. i \<noteq> t_active s) (stack_tabs s)))
         else None)"

definition close_window :: "pane_id \<Rightarrow> tabs \<Rightarrow> tabs \<times> (nat \<times> project_id) option" where
  "close_window pane s =
     (case window_of pane s of
        None \<Rightarrow> (s, None)
      | Some i \<Rightarrow>
          (case without pane (w_layout (t_windows s ! i)) of
             Some lay \<Rightarrow> (set_window i (keep_window pane lay) s, None)
           | None \<Rightarrow> (s\<lparr>t_windows := remove_at i (t_windows s)\<rparr>, Some (i, w_project (t_windows s ! i)))))"

definition first_some :: "'a option \<Rightarrow> 'a option \<Rightarrow> 'a option" where
  "first_some a b = (case a of Some x \<Rightarrow> Some x | None \<Rightarrow> b)"

definition refocus :: "pane_id option \<Rightarrow> nat \<times> project_id \<Rightarrow> tabs \<Rightarrow> nat" where
  "refocus focus r s =
     (case r of (wi, pr) \<Rightarrow>
        (let a = t_active s;
             n = length (t_windows s);
             b = (if wi = a then
                    (case first_some (Option.bind focus (\<lambda>p. window_of p s))
                            (first_some (find (\<lambda>i. w_project (t_windows s ! i) = pr) (rev [0..<wi])) (position (\<lambda>w. w_project w = pr) (t_windows s))) of
                       Some i \<Rightarrow> i
                     | None \<Rightarrow> min (wi - 1) (n - 1))
                  else if wi < a then a - 1 else a)
         in if b \<ge> n then n - 1 else b))"

definition close_pane :: "pane_id \<Rightarrow> tabs \<Rightarrow> tabs option" where
  "close_pane pane s =
     (let focus = stack_focus pane s;
          (s1, removed) = close_window pane (repair_stack_anchor pane s)
      in if t_windows s1 = [] then None
         else
           (let a = (case removed of Some r \<Rightarrow> refocus focus r s1 | None \<Rightarrow> t_active s1)
            in Some (s1\<lparr>t_active := a, t_project := w_project (t_windows s1 ! a)\<rparr>)))"

section \<open>The ancestry is a forest\<close>

definition skeleton :: "win \<Rightarrow> pane_id option \<times> project_id \<times> layout_node \<times> pane_id" where
  "skeleton w = (w_parent w, w_project w, w_layout w, w_active w)"

definition parents :: "tabs \<Rightarrow> (nat \<times> nat) set" where
  "parents s = {(p, i). tab_parent s i = Some p}"

definition owned :: "tabs \<Rightarrow> bool" where
  "owned s \<longleftrightarrow> (\<forall>i<length (t_windows s). \<forall>j<length (t_windows s). \<forall>p. holds p (t_windows s ! i) \<and> holds p (t_windows s ! j) \<longrightarrow> i = j)"

definition links_live :: "tabs \<Rightarrow> bool" where
  "links_live s \<longleftrightarrow> (\<forall>i<length (t_windows s). \<forall>p. w_parent (t_windows s ! i) = Some p \<longrightarrow>
     (\<exists>j<length (t_windows s). w_project (t_windows s ! j) = w_project (t_windows s ! i) \<and> holds p (t_windows s ! j)))"

text \<open>
  Every Pane has one Tab, the active Pane of a Tab is in it, a parent link leads to a live Pane of a
  Tab of the same Project, and nobody is its own ancestor.
\<close>

definition stacks_ok :: "tabs \<Rightarrow> bool" where
  "stacks_ok s \<longleftrightarrow> owned s \<and> (\<forall>i<length (t_windows s). holds (w_active (t_windows s ! i)) (t_windows s ! i)) \<and> links_live s \<and> wf (parents s)"

lemma position_unique:
  assumes "i < length xs" and "P (xs ! i)" and "\<And>j. j < length xs \<Longrightarrow> P (xs ! j) \<Longrightarrow> j = i"
  shows "position P xs = Some i"
proof -
  have "position P xs \<noteq> None" using assms(1,2) by (auto simp: position_None_iff)
  then show ?thesis using position_SomeD assms(3) by (metis option.exhaust)
qed

lemma window_of_iff: "owned s \<Longrightarrow> window_of p s = Some i \<longleftrightarrow> i < length (t_windows s) \<and> holds p (t_windows s ! i)"
  unfolding window_of_def owned_def
  by (metis (mono_tags, lifting) position_SomeD position_unique)

lemma tab_parent_iff:
  "owned s \<Longrightarrow> tab_parent s i = Some j \<longleftrightarrow> i < length (t_windows s) \<and> j < length (t_windows s)
     \<and> (\<exists>p. w_parent (t_windows s ! i) = Some p \<and> w_project (t_windows s ! j) = w_project (t_windows s ! i) \<and> holds p (t_windows s ! j))"
proof
  assume o: "owned s" and t: "tab_parent s i = Some j"
  then show "i < length (t_windows s) \<and> j < length (t_windows s)
     \<and> (\<exists>p. w_parent (t_windows s ! i) = Some p \<and> w_project (t_windows s ! j) = w_project (t_windows s ! i) \<and> holds p (t_windows s ! j))"
    by (auto simp: tab_parent_def Let_def dest: position_SomeD split: if_splits option.splits)
next
  assume o: "owned s" and h: "i < length (t_windows s) \<and> j < length (t_windows s)
     \<and> (\<exists>p. w_parent (t_windows s ! i) = Some p \<and> w_project (t_windows s ! j) = w_project (t_windows s ! i) \<and> holds p (t_windows s ! j))"
  then obtain p where p: "w_parent (t_windows s ! i) = Some p" "w_project (t_windows s ! j) = w_project (t_windows s ! i)" "holds p (t_windows s ! j)" by blast
  have "position (\<lambda>q. w_project q = w_project (t_windows s ! i) \<and> holds p q) (t_windows s) = Some j"
    by (rule position_unique) (use h p o in \<open>auto simp: owned_def\<close>)
  then show "tab_parent s i = Some j" using h p by (simp add: tab_parent_def)
qed

lemma parents_finite: "owned s \<Longrightarrow> parents s \<subseteq> {..<length (t_windows s)} \<times> {..<length (t_windows s)}"
  by (auto simp: parents_def tab_parent_iff)

definition above :: "tabs \<Rightarrow> nat \<Rightarrow> nat set" where
  "above s i = {x. (x, i) \<in> (parents s)\<^sup>*}"

lemma above_step: "tab_parent s i = Some p \<Longrightarrow> above s i = insert i (above s p)"
proof -
  assume t: "tab_parent s i = Some p"
  have "x = i \<or> (x, p) \<in> (parents s)\<^sup>*" if "(x, i) \<in> (parents s)\<^sup>*" for x
    using that t by (cases rule: rtranclE) (auto simp: parents_def)
  moreover have "(p, i) \<in> parents s" using t by (simp add: parents_def)
  ultimately show ?thesis by (auto simp: above_def intro: rtrancl_into_rtrancl)
qed

lemma above_root: "tab_parent s i = None \<Longrightarrow> above s i = {i}"
  by (auto simp: above_def parents_def elim: rtranclE)

lemma above_bound: "owned s \<Longrightarrow> i < length (t_windows s) \<Longrightarrow> above s i \<subseteq> {..<length (t_windows s)}"
  using parents_finite [of s] by (auto simp: above_def elim: converse_rtranclE)

lemma above_parent: "wf (parents s) \<Longrightarrow> tab_parent s i = Some p \<Longrightarrow> i \<notin> above s p"
proof
  assume w: "wf (parents s)" and t: "tab_parent s i = Some p" and "i \<in> above s p"
  then have "(i, i) \<in> (parents s)\<^sup>+" by (auto simp: above_def parents_def intro: rtrancl_into_trancl1)
  then show False using w by (meson wf_acyclic acyclic_def)
qed

text \<open>Walking up meets the root, and the child exactly when it is among the ancestors.\<close>

lemma ancestor_loop_spec:
  assumes "owned s" and "wf (parents s)" and "a < length (t_windows s)" and "card (above s a) \<le> n"
  shows "case ancestor_loop n s child a of None \<Rightarrow> child \<in> above s a | Some r \<Rightarrow> child \<notin> above s a \<and> r \<in> above s a \<and> tab_parent s r = None"
  using assms(3,4)
proof (induction n arbitrary: a)
  case 0
  have "finite (above s a)" using above_bound [OF assms(1) 0(1)] finite_subset by blast
  moreover have "a \<in> above s a" by (simp add: above_def)
  ultimately show ?case using 0(2) by auto
next
  case (Suc n)
  have f: "finite (above s a)" using above_bound [OF assms(1) Suc.prems(1)] finite_subset by blast
  show ?case
  proof (cases "tab_parent s a")
    case None
    then show ?thesis using above_root [OF None] by auto
  next
    case (Some p)
    note st = above_step [OF Some] and na = above_parent [OF assms(2) Some]
    have p: "p < length (t_windows s)" using Some tab_parent_iff [OF assms(1)] by blast
    have "card (above s p) \<le> n" using st na f Suc.prems(2) by simp
    then show ?thesis using Suc.IH [OF p] st Some na by (auto split: option.splits simp: above_def)
  qed
qed

lemma root_loop_spec:
  assumes "owned s" and "wf (parents s)" and "a < length (t_windows s)" and "card (above s a) \<le> n"
  shows "root_loop n s a \<in> above s a \<and> tab_parent s (root_loop n s a) = None"
  using assms(3,4)
proof (induction n arbitrary: a)
  case 0
  have "finite (above s a)" using above_bound [OF assms(1) 0(1)] finite_subset by blast
  moreover have "a \<in> above s a" by (simp add: above_def)
  ultimately show ?case using 0(2) by auto
next
  case (Suc n)
  have f: "finite (above s a)" using above_bound [OF assms(1) Suc.prems(1)] finite_subset by blast
  show ?case
  proof (cases "tab_parent s a")
    case (Some p)
    note st = above_step [OF Some] and na = above_parent [OF assms(2) Some]
    have p: "p < length (t_windows s)" using Some tab_parent_iff [OF assms(1)] by blast
    have "card (above s p) \<le> n" using st na f Suc.prems(2) by simp
    moreover have "p \<noteq> a" using na by (auto simp: above_def)
    ultimately show ?thesis using Suc.IH [OF p] st Some by simp
  qed (simp add: above_def)
qed

lemma above_card: "owned s \<Longrightarrow> i < length (t_windows s) \<Longrightarrow> card (above s i) \<le> length (t_windows s)"
  using card_mono [OF finite_lessThan above_bound] by simp

lemma stack_root_spec:
  "stacks_ok s \<Longrightarrow> i < length (t_windows s) \<Longrightarrow> stack_root s i \<in> above s i \<and> tab_parent s (stack_root s i) = None"
  using root_loop_spec [of s i "length (t_windows s)"] above_card [of s i] by (simp add: stacks_ok_def stack_root_def)

section \<open>Linking keeps it a forest\<close>

text \<open>Only the parent of one Tab has changed, and nothing but the expanded rows of others.\<close>

definition with_parent :: "pane_id option \<Rightarrow> win \<Rightarrow> pane_id option \<times> project_id \<times> layout_node \<times> pane_id" where
  "with_parent v w = (v, snd (skeleton w))"

definition relinked :: "nat \<Rightarrow> pane_id option \<Rightarrow> tabs \<Rightarrow> tabs \<Rightarrow> bool" where
  "relinked c v s t \<longleftrightarrow> c < length (t_windows s) \<and> map skeleton (t_windows t) = (map skeleton (t_windows s))[c := with_parent v (t_windows s ! c)]"

definition same_tabs :: "tabs \<Rightarrow> tabs \<Rightarrow> bool" where
  "same_tabs s t \<longleftrightarrow> map (snd \<circ> skeleton) (t_windows t) = map (snd \<circ> skeleton) (t_windows s)"

lemma same_tabs_nth:
  assumes "same_tabs s t"
  shows "length (t_windows t) = length (t_windows s)"
    and "i < length (t_windows s) \<Longrightarrow> w_project (t_windows t ! i) = w_project (t_windows s ! i) \<and> w_layout (t_windows t ! i) = w_layout (t_windows s ! i)
      \<and> w_active (t_windows t ! i) = w_active (t_windows s ! i)"
proof -
  show l: "length (t_windows t) = length (t_windows s)" using assms unfolding same_tabs_def by (rule map_eq_imp_length_eq)
  assume "i < length (t_windows s)"
  then have "(snd \<circ> skeleton) (t_windows t ! i) = (snd \<circ> skeleton) (t_windows s ! i)" using assms l unfolding same_tabs_def by (metis nth_map)
  then show "w_project (t_windows t ! i) = w_project (t_windows s ! i) \<and> w_layout (t_windows t ! i) = w_layout (t_windows s ! i)
      \<and> w_active (t_windows t ! i) = w_active (t_windows s ! i)" by (simp add: skeleton_def)
qed

lemma same_tabs_refl [simp]: "same_tabs s s"
  by (simp add: same_tabs_def)

lemma same_tabs_trans: "same_tabs s t \<Longrightarrow> same_tabs t u \<Longrightarrow> same_tabs s u"
  by (simp add: same_tabs_def)

lemma relinked_same: "relinked c v s t \<Longrightarrow> same_tabs s t"
proof -
  assume r: "relinked c v s t"
  have "map snd (map skeleton (t_windows t)) = (map snd (map skeleton (t_windows s)))[c := snd (skeleton (t_windows s ! c))]"
    using r by (simp add: relinked_def map_update with_parent_def)
  then show ?thesis using r by (simp add: same_tabs_def relinked_def list_update_same_conv)
qed

lemma relinked_parent: "relinked c v s t \<Longrightarrow> i < length (t_windows s) \<Longrightarrow> w_parent (t_windows t ! i) = (if i = c then v else w_parent (t_windows s ! i))"
proof -
  assume r: "relinked c v s t" and i: "i < length (t_windows s)"
  have "skeleton (t_windows t ! i) = (map skeleton (t_windows s))[c := with_parent v (t_windows s ! c)] ! i"
    using r i same_tabs_nth(1) [OF relinked_same [OF r]] unfolding relinked_def by (metis nth_map)
  then show ?thesis using r i by (auto simp: relinked_def skeleton_def with_parent_def nth_list_update split: if_splits)
qed

lemma same_tabs_owned: "same_tabs s t \<Longrightarrow> owned s = owned t"
  using same_tabs_nth [of s t] by (auto simp: owned_def)

lemma same_tabs_window_of: "same_tabs s t \<Longrightarrow> owned s \<Longrightarrow> window_of p t = window_of p s"
  using same_tabs_nth [of s t] same_tabs_owned [of s t] window_of_iff [of s p] window_of_iff [of t p] by (metis not_None_eq)

lemma stacks_relinked:
  assumes "stacks_ok s" and "relinked c v s t"
    and "\<And>q. v = Some q \<Longrightarrow> \<exists>a<length (t_windows s). holds q (t_windows s ! a) \<and> w_project (t_windows s ! a) = w_project (t_windows s ! c) \<and> c \<notin> above s a"
  shows "stacks_ok t"
proof -
  note s = assms(1) [unfolded stacks_ok_def] and n = same_tabs_nth [OF relinked_same [OF assms(2)]] and p = relinked_parent [OF assms(2)]
  have c: "c < length (t_windows s)" using assms(2) by (simp add: relinked_def)
  have o: "owned t" using s same_tabs_owned [OF relinked_same [OF assms(2)]] by simp
  have l: "links_live t" unfolding links_live_def n(1)
  proof (intro allI impI)
    fix i q assume i: "i < length (t_windows s)" "w_parent (t_windows t ! i) = Some q"
    then have "\<exists>j<length (t_windows s). w_project (t_windows s ! j) = w_project (t_windows s ! i) \<and> holds q (t_windows s ! j)"
      using s p [OF i(1)] assms(3) [of q] unfolding links_live_def by (metis (full_types))
    then show "\<exists>j<length (t_windows s). w_project (t_windows t ! j) = w_project (t_windows t ! i) \<and> holds q (t_windows t ! j)"
      using n(2) i(1) by auto
  qed
  have step: "tab_parent s i = Some j \<or> (i = c \<and> (\<exists>q. v = Some q \<and> holds q (t_windows s ! j) \<and> j < length (t_windows s)))" if "tab_parent t i = Some j" for i j
    using that s o n p by (cases "i = c") (auto simp: tab_parent_iff)
  have "wf (parents t)"
  proof (cases v)
    case None
    then have "parents t \<subseteq> parents s" using step by (auto simp: parents_def)
    then show ?thesis using s wf_subset by blast
  next
    case (Some q)
    then obtain a where a: "a < length (t_windows s)" "holds q (t_windows s ! a)" "c \<notin> above s a" using assms(3) by blast
    have "j = a \<or> tab_parent s i = Some j" "i = c \<or> tab_parent s i = Some j" if "tab_parent t i = Some j" for i j
      using step [OF that] Some a s unfolding owned_def by auto
    then have "parents t \<subseteq> insert (a, c) (parents s)" by (auto simp: parents_def)
    moreover have "wf (insert (a, c) (parents s))" using s a(3) by (simp add: above_def wf_insert)
    ultimately show ?thesis using wf_subset by blast
  qed
  then show ?thesis using s o l n unfolding stacks_ok_def by auto
qed

lemma retain_skeleton [simp]: "i < length (t_windows s) \<Longrightarrow> map skeleton (t_windows (retain_stack_row i e s)) = map skeleton (t_windows s)"
  by (simp add: retain_stack_row_def set_window_def append_event_def Let_def map_update skeleton_def list_update_same_conv)

lemma skeleton_same: "map skeleton (t_windows t) = map skeleton (t_windows s) \<Longrightarrow> same_tabs s t"
  unfolding same_tabs_def by (metis map_map)

lemma skeleton_nth:
  assumes "map skeleton (t_windows t) = map skeleton (t_windows s)" and "i < length (t_windows s)"
  shows "w_parent (t_windows t ! i) = w_parent (t_windows s ! i)"
proof -
  have "length (t_windows t) = length (t_windows s)" using assms(1) by (rule map_eq_imp_length_eq)
  then have "skeleton (t_windows t ! i) = skeleton (t_windows s ! i)" using assms by (metis nth_map)
  then show ?thesis by (simp add: skeleton_def)
qed

lemma skeleton_parent: "owned s \<Longrightarrow> map skeleton (t_windows t) = map skeleton (t_windows s) \<Longrightarrow> tab_parent t = tab_parent s"
proof
  fix i assume o: "owned s" and e: "map skeleton (t_windows t) = map skeleton (t_windows s)"
  note m = skeleton_same [OF e]
  have "owned t" using o same_tabs_owned [OF m] by simp
  then have "tab_parent t i = Some j \<longleftrightarrow> tab_parent s i = Some j" for j
    using tab_parent_iff [OF o, of i j] tab_parent_iff [of t i j] same_tabs_nth [OF m] skeleton_nth [OF e] by (cases "i < length (t_windows s)") auto
  then show "tab_parent t i = tab_parent s i" by (metis not_None_eq)
qed

lemma link_relinked:
  assumes "c < length (t_windows s)" and "map skeleton (t_windows u) = map skeleton (t_windows s)"
  shows "relinked c v s (link_tab c pane v u)"
proof -
  have l: "length (t_windows u) = length (t_windows s)" using assms(2) by (rule map_eq_imp_length_eq)
  have "skeleton (t_windows u ! c) = skeleton (t_windows s ! c)" using assms l by (metis nth_map)
  then show ?thesis using assms by (simp add: relinked_def link_tab_def set_window_def append_event_def Let_def map_update with_parent_def skeleton_def)
qed

text \<open>An assignment is refused and changes nothing, or links the Tab; it is refused exactly when it would close a circle.\<close>

lemma assign_spec:
  assumes "stacks_ok s" and "window_of pane s = Some c"
    and "\<And>q. v = Some q \<Longrightarrow> a < length (t_windows s) \<and> holds q (t_windows s ! a) \<and> w_project (t_windows s ! a) = w_project (t_windows s ! c)"
  shows "if v \<noteq> None \<and> c \<in> above s a then assign_tab_parent pane v s = (s, False)
    else snd (assign_tab_parent pane v s) \<and> relinked c v s (fst (assign_tab_parent pane v s)) \<and> stacks_ok (fst (assign_tab_parent pane v s))"
proof -
  note k = assms(1) [unfolded stacks_ok_def]
  have c: "c < length (t_windows s)" using assms(2) k window_of_iff by blast
  show ?thesis
  proof (cases v)
    case None
    then show ?thesis using assms(1,2) link_relinked [OF c refl, of None pane] stacks_relinked by (fastforce simp: assign_tab_parent_def)
  next
    case (Some q)
    note a = assms(3) [OF Some]
    have p: "position (\<lambda>w. holds q w \<and> w_project w = w_project (t_windows s ! c)) (t_windows s) = Some a"
      by (rule position_unique) (use a k in \<open>auto simp: owned_def\<close>)
    have "card (above s a) \<le> length (t_windows s) + 1" using above_card [of s a] a k by simp
    then have sp: "case ancestor_loop (length (t_windows s) + 1) s c a of None \<Rightarrow> c \<in> above s a | Some r \<Rightarrow> c \<notin> above s a \<and> r \<in> above s a \<and> tab_parent s r = None"
      using ancestor_loop_spec k a by blast
    show ?thesis
    proof (cases "ancestor_loop (length (t_windows s) + 1) s c a")
      case None
      then show ?thesis using sp p Some assms(2) by (simp add: assign_tab_parent_def)
    next
      case r: (Some r)
      then have n: "c \<notin> above s a" "r < length (t_windows s)" using sp above_bound [of s a] k a by auto
      let ?t = "link_tab c pane (Some q) (retain_stack_row r True s)"
      have "relinked c v s ?t" using link_relinked [OF c] n(2) Some by simp
      moreover from stacks_relinked [OF assms(1) this] have "stacks_ok ?t" using a n(1) Some by blast
      ultimately show ?thesis using n r p Some assms(2) by (simp add: assign_tab_parent_def)
    qed
  qed
qed

lemma assign_refused:
  assumes "stacks_ok s" and "window_of pane s = None \<or> (\<exists>c q. window_of pane s = Some c \<and> v = Some q
      \<and> \<not> (\<exists>a<length (t_windows s). holds q (t_windows s ! a) \<and> w_project (t_windows s ! a) = w_project (t_windows s ! c)))"
  shows "assign_tab_parent pane v s = (s, False)"
  using assms(2) by (auto simp: assign_tab_parent_def dest: position_SomeD split: option.split)

lemma assign_ok: "stacks_ok s \<Longrightarrow> stacks_ok (fst (assign_tab_parent pane v s))"
proof (cases "window_of pane s")
  case (Some c)
  assume s: "stacks_ok s"
  show ?thesis
  proof (cases "\<exists>a. \<forall>q. v = Some q \<longrightarrow> a < length (t_windows s) \<and> holds q (t_windows s ! a) \<and> w_project (t_windows s ! a) = w_project (t_windows s ! c)")
    case True
    then obtain a where a: "\<And>q. v = Some q \<Longrightarrow> a < length (t_windows s) \<and> holds q (t_windows s ! a) \<and> w_project (t_windows s ! a) = w_project (t_windows s ! c)" by blast
    have "if v \<noteq> None \<and> c \<in> above s a then assign_tab_parent pane v s = (s, False)
        else snd (assign_tab_parent pane v s) \<and> relinked c v s (fst (assign_tab_parent pane v s)) \<and> stacks_ok (fst (assign_tab_parent pane v s))"
      by (rule assign_spec [OF s Some a])
    then show ?thesis using s by (auto split: if_splits)
  next
    case False
    then show ?thesis using assign_refused [OF s, of pane v] Some s by (cases v) auto
  qed
qed (simp add: assign_tab_parent_def)

section \<open>Repairing the links to a Pane\<close>

lemma above_relinked:
  assumes "stacks_ok s" and "stacks_ok t" and "relinked c (Some q) s t" and "a < length (t_windows s)" and "holds q (t_windows s ! a)"
    and "w_project (t_windows s ! a) = w_project (t_windows s ! c)"
  shows "above t a \<subseteq> above s a"
proof -
  note n = same_tabs_nth [OF relinked_same [OF assms(3)]] and p = relinked_parent [OF assms(3)]
  have o: "owned s" "owned t" "wf (parents t)" using assms(1,2) by (simp_all add: stacks_ok_def)
  have c: "c < length (t_windows s)" using assms(3) by (simp add: relinked_def)
  have "(a, c) \<in> parents t" using assms(4-6) c n p by (auto simp: parents_def tab_parent_iff [OF o(2)])
  then have nc: "(c, a) \<notin> (parents t)\<^sup>*" using o(3) by (meson rtrancl_into_trancl2 wf_acyclic acyclic_def)
  have "(x, a) \<in> (parents s)\<^sup>*" if "(x, a) \<in> (parents t)\<^sup>*" for x using that
  proof (induction rule: converse_rtrancl_induct)
    case (step x y)
    have "y \<noteq> c" using step(2) nc by blast
    then have "(x, y) \<in> parents s" using step(1) n p by (auto simp: parents_def tab_parent_iff [OF o(1)] tab_parent_iff [OF o(2)])
    then show ?case using step(3) by (rule converse_rtrancl_into_rtrancl)
  qed simp
  then show ?thesis by (auto simp: above_def)
qed

text \<open>The Tabs that are to be linked to the Tab \<open>a\<close> are not among its ancestors; linking one keeps that.\<close>

definition relinkable :: "tabs \<Rightarrow> nat \<Rightarrow> pane_id \<Rightarrow> bool" where
  "relinkable s a x \<longleftrightarrow> (\<exists>c. window_of x s = Some c \<and> w_project (t_windows s ! a) = w_project (t_windows s ! c) \<and> c \<notin> above s a)"

lemma reassign_spec:
  assumes "stacks_ok s" and "a < length (t_windows s)" and "holds q (t_windows s ! a)" and "\<And>x. x \<in> set cs \<Longrightarrow> x \<noteq> q \<Longrightarrow> relinkable s a x"
  shows "stacks_ok (reassign (Some q) cs s) \<and> same_tabs s (reassign (Some q) cs s)
    \<and> (\<forall>i<length (t_windows s). w_parent (t_windows (reassign (Some q) cs s) ! i)
         = (if \<exists>x\<in>set cs. x \<noteq> q \<and> window_of x s = Some i then Some q else w_parent (t_windows s ! i)))"
  using assms
proof (induction cs arbitrary: s)
  case Nil
  then show ?case by (simp add: reassign_def)
next
  case (Cons x cs)
  show ?case
  proof (cases "x = q")
    case True
    then have "reassign (Some q) (x # cs) s = reassign (Some q) cs s" by (simp add: reassign_def)
    then show ?thesis using Cons True by auto
  next
    case False
    then obtain c where c: "window_of x s = Some c" "w_project (t_windows s ! a) = w_project (t_windows s ! c)" "c \<notin> above s a"
      using Cons.prems(4) by (auto simp: relinkable_def)
    let ?t = "fst (assign_tab_parent x (Some q) s)"
    have t: "relinked c (Some q) s ?t" "stacks_ok ?t"
      using assign_spec [OF Cons.prems(1) c(1), where v = "Some q" and a = a] Cons.prems(2,3) c(2,3) by auto
    note m = relinked_same [OF t(1)] and n = same_tabs_nth [OF relinked_same [OF t(1)]]
    have o: "owned s" using Cons.prems(1) by (simp add: stacks_ok_def)
    have w: "window_of y ?t = window_of y s" for y by (rule same_tabs_window_of [OF m o])
    have ab: "above ?t a \<subseteq> above s a" using above_relinked [OF Cons.prems(1) t(2,1) Cons.prems(2,3) c(2)] .
    have "relinkable ?t a y" if "y \<in> set cs" "y \<noteq> q" for y
    proof -
      have "relinkable s a y" using Cons.prems(4) that by simp
      then obtain d where "window_of y s = Some d" "w_project (t_windows s ! a) = w_project (t_windows s ! d)" "d \<notin> above s a"
        by (auto simp: relinkable_def)
      moreover have "d < length (t_windows s)" using calculation(1) window_of_iff [OF o] by blast
      ultimately show ?thesis using w n Cons.prems(2) ab by (auto simp: relinkable_def)
    qed
    then have ih: "stacks_ok (reassign (Some q) cs ?t) \<and> same_tabs ?t (reassign (Some q) cs ?t)
      \<and> (\<forall>i<length (t_windows s). w_parent (t_windows (reassign (Some q) cs ?t) ! i)
         = (if \<exists>x\<in>set cs. x \<noteq> q \<and> window_of x s = Some i then Some q else w_parent (t_windows ?t ! i)))"
      using Cons.IH [OF t(2)] Cons.prems(2,3) n w by simp
    have e: "reassign (Some q) (x # cs) s = reassign (Some q) cs ?t" using False by (simp add: reassign_def)
    show ?thesis unfolding e using ih same_tabs_trans [OF m] relinked_parent [OF t(1)] c(1) False by auto
  qed
qed

lemma owner_eq: "owned s \<Longrightarrow> i < length (t_windows s) \<Longrightarrow> j < length (t_windows s) \<Longrightarrow> holds p (t_windows s ! i) \<Longrightarrow> holds p (t_windows s ! j) \<Longrightarrow> i = j"
  by (auto simp: owned_def)

lemma stack_children_iff:
  assumes "stacks_ok s"
  shows "x \<in> set (stack_children pane s) \<longleftrightarrow> (\<exists>c<length (t_windows s). w_parent (t_windows s ! c) = Some pane \<and> x = w_active (t_windows s ! c) \<and> window_of x s = Some c)"
proof
  assume "x \<in> set (stack_children pane s)"
  then obtain c where c: "c < length (t_windows s)" "w_parent (t_windows s ! c) = Some pane" "x = w_active (t_windows s ! c)"
    by (auto simp: stack_children_def in_set_conv_nth)
  then have "window_of x s = Some c" using assms window_of_iff [of s x c] by (auto simp: stacks_ok_def)
  then show "\<exists>c<length (t_windows s). w_parent (t_windows s ! c) = Some pane \<and> x = w_active (t_windows s ! c) \<and> window_of x s = Some c" using c by blast
qed (auto simp: stack_children_def)

text \<open>A Tab linked to the Pane is a child of its Tab.\<close>

lemma linked_child:
  assumes "stacks_ok s" and "window_of pane s = Some i" and "c < length (t_windows s)" and "w_parent (t_windows s ! c) = Some pane"
  shows "tab_parent s c = Some i" and "w_project (t_windows s ! i) = w_project (t_windows s ! c)"
proof -
  have o: "owned s" "links_live s" using assms(1) by (simp_all add: stacks_ok_def)
  have i: "i < length (t_windows s)" "holds pane (t_windows s ! i)" using assms(2) window_of_iff [OF o(1)] by blast+
  obtain j where "j < length (t_windows s)" "w_project (t_windows s ! j) = w_project (t_windows s ! c)" "holds pane (t_windows s ! j)"
    using o(2) assms(3,4) unfolding links_live_def by blast
  then have "j = i" using owner_eq [OF o(1)] i by blast
  then show "w_project (t_windows s ! i) = w_project (t_windows s ! c)" using \<open>w_project (t_windows s ! j) = w_project (t_windows s ! c)\<close> by simp
  then show "tab_parent s c = Some i" using tab_parent_iff [OF o(1)] assms(3,4) i by blast
qed

lemma not_above_child: "stacks_ok s \<Longrightarrow> tab_parent s c = Some i \<Longrightarrow> a \<in> above s i \<Longrightarrow> c \<notin> above s a"
proof
  assume s: "stacks_ok s" "tab_parent s c = Some i" "a \<in> above s i" "c \<in> above s a"
  then have "c \<in> above s i" by (auto simp: above_def intro: rtrancl_trans)
  then show False using above_parent [of s c i] s by (simp add: stacks_ok_def)
qed

text \<open>After the repair nothing is linked to the Pane, and the Tabs are as they were.\<close>

definition repaired :: "pane_id \<Rightarrow> tabs \<Rightarrow> tabs \<Rightarrow> bool" where
  "repaired pane s t \<longleftrightarrow> stacks_ok t \<and> same_tabs s t \<and> (\<forall>i<length (t_windows t). w_parent (t_windows t ! i) \<noteq> Some pane)"

lemma reassign_links:
  assumes "stacks_ok s" and "window_of pane s = Some i" and "a < length (t_windows s)" and "holds q (t_windows s ! a)" and "a \<in> above s i"
    and "w_project (t_windows s ! a) = w_project (t_windows s ! i)"
  defines "t \<equiv> reassign (Some q) (stack_children pane s) s"
  shows "stacks_ok t" and "same_tabs s t"
    and "j < length (t_windows s) \<Longrightarrow> w_parent (t_windows t ! j) = (if w_parent (t_windows s ! j) = Some pane then Some q else w_parent (t_windows s ! j))"
proof -
  let ?cs = "stack_children pane s"
  have o: "owned s" using assms(1) by (simp add: stacks_ok_def)
  have k: "c \<notin> above s a \<and> w_project (t_windows s ! a) = w_project (t_windows s ! c)" if "c < length (t_windows s)" "w_parent (t_windows s ! c) = Some pane" for c
    using linked_child [OF assms(1,2) that] not_above_child [OF assms(1) _ assms(5)] assms(6) by simp
  have "relinkable s a x" if "x \<in> set ?cs" for x
    using that k stack_children_iff [OF assms(1)] by (auto simp: relinkable_def)
  from reassign_spec [OF assms(1,3,4) this]
  have r: "stacks_ok t" "same_tabs s t" "\<And>j. j < length (t_windows s) \<Longrightarrow> w_parent (t_windows t ! j)
      = (if \<exists>x\<in>set ?cs. x \<noteq> q \<and> window_of x s = Some j then Some q else w_parent (t_windows s ! j))" unfolding t_def by blast+
  show "stacks_ok t" and "same_tabs s t" by (rule r)+
  assume j: "j < length (t_windows s)"
  have act: "window_of (w_active (t_windows s ! j)) s = Some j" using assms(1) j window_of_iff [OF o] by (simp add: stacks_ok_def)
  have "(\<exists>x\<in>set ?cs. x \<noteq> q \<and> window_of x s = Some j) \<longleftrightarrow> w_parent (t_windows s ! j) = Some pane"
  proof
    assume p: "w_parent (t_windows s ! j) = Some pane"
    have "w_active (t_windows s ! j) \<noteq> q"
    proof
      assume "w_active (t_windows s ! j) = q"
      then have "j = a" using owner_eq [OF o j assms(3)] assms(1,4) j by (auto simp: stacks_ok_def)
      then show False using k [OF j p] by (simp add: above_def)
    qed
    then show "\<exists>x\<in>set ?cs. x \<noteq> q \<and> window_of x s = Some j" using act p j stack_children_iff [OF assms(1)] by blast
  qed (use stack_children_iff [OF assms(1)] in auto)
  then show "w_parent (t_windows t ! j) = (if w_parent (t_windows s ! j) = Some pane then Some q else w_parent (t_windows s ! j))"
    unfolding r(3) [OF j] by simp
qed

lemma links_repaired:
  assumes "stacks_ok t" and "same_tabs s t" and "\<And>j. j < length (t_windows s) \<Longrightarrow> w_parent (t_windows t ! j) = (if w_parent (t_windows s ! j) = Some pane then r j else w_parent (t_windows s ! j))"
    and "\<And>j. r j \<noteq> Some pane"
  shows "repaired pane s t"
  using assms same_tabs_nth(1) [OF assms(2)] by (simp add: repaired_def)

lemma skeleton_stacks:
  assumes "stacks_ok s" and "map skeleton (t_windows t) = map skeleton (t_windows s)"
  shows "stacks_ok t"
proof -
  note m = skeleton_same [OF assms(2)] and k = assms(1) [unfolded stacks_ok_def]
  have "parents t = parents s" using skeleton_parent [OF _ assms(2)] k by (simp add: parents_def)
  moreover have "owned t" using k same_tabs_owned [OF m] by simp
  moreover have "links_live t" unfolding links_live_def same_tabs_nth(1) [OF m]
    using k same_tabs_nth(2) [OF m] skeleton_nth [OF assms(2)] unfolding links_live_def by metis
  ultimately show ?thesis using k same_tabs_nth [OF m] by (simp add: stacks_ok_def)
qed

lemma promote_spec:
  assumes "stacks_ok s" and "window_of x s = Some c"
  shows "relinked c None s (promote x s) \<and> stacks_ok (promote x s)"
proof -
  let ?t = "fst (assign_tab_parent x None s)"
  have t: "relinked c None s ?t" "stacks_ok ?t" using assign_spec [OF assms, where v = None] by auto
  have o: "owned s" using assms(1) by (simp add: stacks_ok_def)
  have "window_of x ?t = Some c" using same_tabs_window_of [OF relinked_same [OF t(1)] o] assms(2) by simp
  then have p: "promote x s = retain_stack_row c True ?t" by (simp add: promote_def)
  have "c < length (t_windows ?t)" using t(1) same_tabs_nth(1) [OF relinked_same [OF t(1)]] by (simp add: relinked_def)
  then have e: "map skeleton (t_windows (promote x s)) = map skeleton (t_windows ?t)" unfolding p by simp
  then show ?thesis using t skeleton_stacks [OF t(2) e] by (simp add: relinked_def)
qed

lemma promote_links:
  assumes "stacks_ok s" and "window_of pane s = Some i" and "stack_children pane s = x # cs"
  defines "u \<equiv> reassign (Some x) (x # cs) (promote x s)"
  shows "stacks_ok u" and "same_tabs s u" and "x \<noteq> pane" and "\<exists>c<length (t_windows s). window_of x s = Some c \<and> w_parent (t_windows s ! c) = Some pane
    \<and> (\<forall>j<length (t_windows s). w_parent (t_windows u ! j)
         = (if w_parent (t_windows s ! j) = Some pane then (if j = c then None else Some x) else w_parent (t_windows s ! j)))"
proof -
  have o: "owned s" and act: "\<And>j. j < length (t_windows s) \<Longrightarrow> holds (w_active (t_windows s ! j)) (t_windows s ! j)"
    using assms(1) by (simp_all add: stacks_ok_def)
  have ch: "y \<in> set (x # cs) \<Longrightarrow> \<exists>c<length (t_windows s). w_parent (t_windows s ! c) = Some pane \<and> y = w_active (t_windows s ! c) \<and> window_of y s = Some c" for y
    using stack_children_iff [OF assms(1), of y pane] assms(3) by simp
  obtain c where c: "c < length (t_windows s)" "w_parent (t_windows s ! c) = Some pane" "window_of x s = Some c" using ch [of x] by auto
  let ?t = "promote x s"
  have t: "relinked c None s ?t" "stacks_ok ?t" using promote_spec [OF assms(1) c(3)] by blast+
  note m = relinked_same [OF t(1)] and n = same_tabs_nth [OF relinked_same [OF t(1)]] and p = relinked_parent [OF t(1)]
  have w: "window_of y ?t = window_of y s" for y by (rule same_tabs_window_of [OF m o])
  have ab: "above ?t c = {c}" by (rule above_root) (use p [OF c(1)] in \<open>simp add: tab_parent_def\<close>)
  have hx: "holds x (t_windows s ! c)" using c(3) window_of_iff [OF o] by blast
  have "relinkable ?t c y" if y: "y \<in> set (x # cs)" "y \<noteq> x" for y
  proof -
    obtain d where d: "d < length (t_windows s)" "w_parent (t_windows s ! d) = Some pane" "y = w_active (t_windows s ! d)" "window_of y s = Some d" using ch y by blast
    have "d \<noteq> c" using d(4) c(3) y(2) ch [of x] d(3) by auto
    moreover have "w_project (t_windows s ! c) = w_project (t_windows s ! d)"
      using linked_child(2) [OF assms(1,2) c(1,2)] linked_child(2) [OF assms(1,2) d(1,2)] by simp
    ultimately show ?thesis using d w n c(1) ab by (simp add: relinkable_def)
  qed
  then have r: "stacks_ok u" "same_tabs ?t u" "\<And>j. j < length (t_windows s) \<Longrightarrow> w_parent (t_windows u ! j)
      = (if \<exists>y\<in>set (x # cs). y \<noteq> x \<and> window_of y s = Some j then Some x else w_parent (t_windows ?t ! j))"
    unfolding u_def using reassign_spec [OF t(2), of c x "x # cs"] c(1) hx n w by auto
  have "i \<noteq> c" using linked_child(1) [OF assms(1,2) c(1,2)] above_parent [of s c i] assms(1) by (auto simp: stacks_ok_def above_def)
  then show "x \<noteq> pane" using c(3) assms(2) by auto
  show "stacks_ok u" "same_tabs s u" using r(1) same_tabs_trans [OF m r(2)] by auto
  have "w_parent (t_windows u ! j) = (if w_parent (t_windows s ! j) = Some pane then (if j = c then None else Some x) else w_parent (t_windows s ! j))"
    if j: "j < length (t_windows s)" for j
  proof -
    have act: "window_of (w_active (t_windows s ! j)) s = Some j" using act [OF j] j window_of_iff [OF o] by blast
    have "(\<exists>y\<in>set (x # cs). y \<noteq> x \<and> window_of y s = Some j) \<longleftrightarrow> w_parent (t_windows s ! j) = Some pane \<and> j \<noteq> c"
    proof
      assume "\<exists>y\<in>set (x # cs). y \<noteq> x \<and> window_of y s = Some j"
      then obtain y where y: "y \<in> set (x # cs)" "y \<noteq> x" "window_of y s = Some j" by blast
      obtain d where "w_parent (t_windows s ! d) = Some pane" "y = w_active (t_windows s ! d)" "window_of y s = Some d" using ch [OF y(1)] by blast
      moreover obtain e where "x = w_active (t_windows s ! e)" "window_of x s = Some e" using ch [of x] by auto
      ultimately show "w_parent (t_windows s ! j) = Some pane \<and> j \<noteq> c" using y c(3) by auto
    next
      assume h: "w_parent (t_windows s ! j) = Some pane \<and> j \<noteq> c"
      then have "w_active (t_windows s ! j) \<in> set (x # cs)" using act j stack_children_iff [OF assms(1), of "w_active (t_windows s ! j)" pane] assms(3) by auto
      moreover have "w_active (t_windows s ! j) \<noteq> x" using act c(3) h by auto
      ultimately show "\<exists>y\<in>set (x # cs). y \<noteq> x \<and> window_of y s = Some j" using act by blast
    qed
    then show ?thesis unfolding r(3) [OF j] using p [OF j] c(2) by auto
  qed
  then show "\<exists>c<length (t_windows s). window_of x s = Some c \<and> w_parent (t_windows s ! c) = Some pane
    \<and> (\<forall>j<length (t_windows s). w_parent (t_windows u ! j)
         = (if w_parent (t_windows s ! j) = Some pane then (if j = c then None else Some x) else w_parent (t_windows s ! j)))" using c by blast
qed

lemma reassign_repairs:
  assumes "stacks_ok s" and "window_of pane s = Some i" and "a < length (t_windows s)" and "holds q (t_windows s ! a)" and "a \<in> above s i" and "q \<noteq> pane"
    and "w_project (t_windows s ! a) = w_project (t_windows s ! i)"
  shows "repaired pane s (reassign (Some q) (stack_children pane s) s)"
  by (rule links_repaired [OF reassign_links [OF assms(1-5,7)]]) (use assms(6) in auto)

lemma promote_repairs:
  assumes "stacks_ok s" and "window_of pane s = Some i" and "stack_children pane s = x # cs"
  shows "repaired pane s (reassign (Some x) (x # cs) (promote x s))"
proof -
  note p = promote_links [OF assms]
  obtain c where "\<forall>j<length (t_windows s). w_parent (t_windows (reassign (Some x) (x # cs) (promote x s)) ! j)
         = (if w_parent (t_windows s ! j) = Some pane then (if j = c then None else Some x) else w_parent (t_windows s ! j))" using p(4) by blast
  then show ?thesis using p(3) by (intro links_repaired [OF p(1,2), where r = "\<lambda>j. if j = c then None else Some x"]) auto
qed

lemma repaired_skeleton:
  assumes "map skeleton (t_windows s1) = map skeleton (t_windows s)" and "repaired pane s1 t"
  shows "repaired pane s t"
  using assms same_tabs_trans [OF skeleton_same [OF assms(1)]] by (simp add: repaired_def)

lemma repair_spec:
  assumes "stacks_ok s" and "window_of pane s = Some i"
  shows "repaired pane s (repair_stack_anchor pane s)"
proof -
  let ?s1 = "if stack_root s i \<noteq> i then retain_stack_row (stack_root s i) True s else s"
  have o: "owned s" using assms(1) by (simp add: stacks_ok_def)
  have i: "i < length (t_windows s)" using assms(2) window_of_iff [OF o] by blast
  have "stack_root s i < length (t_windows s)" using stack_root_spec [OF assms(1) i] above_bound [OF o i] by blast
  then have e: "map skeleton (t_windows ?s1) = map skeleton (t_windows s)" by simp
  define s1 where "s1 = ?s1"
  note e = e [folded s1_def]
  note m = skeleton_same [OF e]
  have k: "stacks_ok s1" "owned s1" "window_of pane s1 = Some i" "i < length (t_windows s1)"
    using skeleton_stacks [OF assms(1) e] same_tabs_window_of [OF m o] assms(2) same_tabs_owned [OF m] o i same_tabs_nth(1) [OF m] by auto
  have h: "holds pane (t_windows s1 ! i)" using k(3) window_of_iff [OF k(2)] by blast
  have r: "repair_stack_anchor pane s = (case (repair_replacement pane (t_windows s1 ! i), stack_children pane s1) of
      (None, c # _) \<Rightarrow> reassign (Some c) (stack_children pane s1) (promote c s1) | _ \<Rightarrow> reassign (repair_replacement pane (t_windows s1 ! i)) (stack_children pane s1) s1)"
    unfolding repair_stack_anchor_def assms(2) option.case Let_def s1_def [symmetric] ..
  have "repaired pane s1 (repair_stack_anchor pane s)"
  proof (cases "repair_replacement pane (t_windows s1 ! i)")
    case None
    show ?thesis
    proof (cases "stack_children pane s1")
      case Nil
      then have "w_parent (t_windows s1 ! j) \<noteq> Some pane" if "j < length (t_windows s1)" for j using that by (auto simp: stack_children_def filter_empty_conv)
      then show ?thesis unfolding r using None Nil k(1) by (simp add: reassign_def repaired_def)
    next
      case (Cons x cs)
      then show ?thesis unfolding r using None promote_repairs [OF k(1,3) Cons] by simp
    qed
  next
    case (Some q)
    show ?thesis
    proof (cases "find (\<lambda>j. j \<noteq> pane) (pane_ids (w_layout (t_windows s1 ! i)))")
      case None
      then have p: "w_parent (t_windows s1 ! i) = Some q" using Some by (simp add: repair_replacement_def)
      then obtain a where a: "a < length (t_windows s1)" "w_project (t_windows s1 ! a) = w_project (t_windows s1 ! i)" "holds q (t_windows s1 ! a)"
        using k(1,4) unfolding stacks_ok_def links_live_def by blast
      then have t: "tab_parent s1 i = Some a" using tab_parent_iff [OF k(2)] p k(4) by blast
      have ai: "a \<in> above s1 i" using t above_step [OF t] by (simp add: above_def)
      have "q \<noteq> pane" using above_parent [OF _ t] k(1) owner_eq [OF k(2) a(1) k(4)] a(3) h by (auto simp: stacks_ok_def above_def)
      then show ?thesis unfolding r using Some reassign_repairs [OF k(1,3) a(1,3) ai _ a(2)] by simp
    next
      case f: (Some j)
      then have "j = q" using Some by (simp add: repair_replacement_def)
      then have "q \<noteq> pane" "holds q (t_windows s1 ! i)" using f by (auto simp: find_Some_iff contains_pane_iff)
      then show ?thesis unfolding r using Some reassign_repairs [OF k(1,3) k(4)] by (simp add: above_def)
    qed
  qed
  then show ?thesis using repaired_skeleton [OF e] by blast
qed

section \<open>Closing keeps it a forest\<close>

lemma remove_at_nth: "i < length xs \<Longrightarrow> j < length xs - 1 \<Longrightarrow> remove_at i xs ! j = xs ! (if j < i then j else j + 1)"
  by (auto simp: remove_at_def nth_append)

text \<open>
  Rehoming one Pane: the windows of \<open>t\<close> are windows of \<open>s\<close> or new and unlinked, all other Panes are
  where they were, and the Pane, to which nothing is linked, is in one window at most.
\<close>

lemma stacks_rehomed:
  assumes "stacks_ok s" and "\<forall>i<length (t_windows s). w_parent (t_windows s ! i) \<noteq> Some pane"
    and f: "\<And>j. j < length (t_windows t) \<Longrightarrow> (case f j of
        None \<Rightarrow> w_parent (t_windows t ! j) = None
      | Some i \<Rightarrow> i < length (t_windows s) \<and> w_parent (t_windows t ! j) = w_parent (t_windows s ! i) \<and> w_project (t_windows t ! j) = w_project (t_windows s ! i))"
    and inj: "\<And>j k i. j < length (t_windows t) \<Longrightarrow> k < length (t_windows t) \<Longrightarrow> f j = Some i \<Longrightarrow> f k = Some i \<Longrightarrow> j = k"
    and h: "\<And>j p. j < length (t_windows t) \<Longrightarrow> p \<noteq> pane \<Longrightarrow> holds p (t_windows t ! j) \<longleftrightarrow> (\<exists>i. f j = Some i \<and> holds p (t_windows s ! i))"
    and one: "\<And>j k. j < length (t_windows t) \<Longrightarrow> k < length (t_windows t) \<Longrightarrow> holds pane (t_windows t ! j) \<Longrightarrow> holds pane (t_windows t ! k) \<Longrightarrow> j = k"
    and onto: "\<And>i p. i < length (t_windows s) \<Longrightarrow> p \<noteq> pane \<Longrightarrow> holds p (t_windows s ! i) \<Longrightarrow> \<exists>j<length (t_windows t). f j = Some i"
    and act: "\<And>j. j < length (t_windows t) \<Longrightarrow> holds (w_active (t_windows t ! j)) (t_windows t ! j)"
  shows "stacks_ok t"
proof -
  note k = assms(1) [unfolded stacks_ok_def] and os = owner_eq [OF assms(1) [unfolded stacks_ok_def, THEN conjunct1]]
  have o: "owned t" unfolding owned_def
  proof (intro allI impI)
    fix a b p assume ab: "a < length (t_windows t)" "b < length (t_windows t)" "holds p (t_windows t ! a) \<and> holds p (t_windows t ! b)"
    show "a = b"
    proof (cases "p = pane")
      case False
      then obtain i j where ij: "f a = Some i" "holds p (t_windows s ! i)" "f b = Some j" "holds p (t_windows s ! j)" using h ab by blast
      have "i < length (t_windows s)" "j < length (t_windows s)" using f [OF ab(1)] f [OF ab(2)] ij by auto
      then show ?thesis using os ij inj ab by blast
    qed (use one ab in blast)
  qed
  have link: "\<exists>i p. f j = Some i \<and> w_parent (t_windows s ! i) = Some p \<and> p = q \<and> p \<noteq> pane \<and> i < length (t_windows s) \<and> w_project (t_windows t ! j) = w_project (t_windows s ! i)"
    if "j < length (t_windows t)" "w_parent (t_windows t ! j) = Some q" for j q
    using f [OF that(1)] that(2) assms(2) by (cases "f j") auto
  have "(the (f a), the (f j)) \<in> parents s" if "(a, j) \<in> parents t" for a j
  proof -
    from that obtain p where t: "j < length (t_windows t)" "a < length (t_windows t)" "w_parent (t_windows t ! j) = Some p"
        "w_project (t_windows t ! a) = w_project (t_windows t ! j)" "holds p (t_windows t ! a)"
      unfolding parents_def by (auto simp: tab_parent_iff [OF o])
    obtain i where i: "f j = Some i" "w_parent (t_windows s ! i) = Some p" "p \<noteq> pane" "i < length (t_windows s)" "w_project (t_windows t ! j) = w_project (t_windows s ! i)"
      using link [OF t(1,3)] by blast
    obtain b where b: "f a = Some b" "holds p (t_windows s ! b)" using h [OF t(2) i(3)] t(5) by blast
    have "b < length (t_windows s)" "w_project (t_windows t ! a) = w_project (t_windows s ! b)" using f [OF t(2)] b(1) by auto
    then show ?thesis using i b t(4) k by (simp add: parents_def tab_parent_iff)
  qed
  then have "parents t \<subseteq> inv_image (parents s) (\<lambda>j. the (f j))" unfolding inv_image_def by blast
  then have "wf (parents t)" using k wf_subset wf_inv_image by blast
  moreover have "links_live t" unfolding links_live_def
  proof (intro allI impI)
    fix j p assume j: "j < length (t_windows t)" "w_parent (t_windows t ! j) = Some p"
    obtain i where i: "f j = Some i" "w_parent (t_windows s ! i) = Some p" "p \<noteq> pane" "i < length (t_windows s)" "w_project (t_windows t ! j) = w_project (t_windows s ! i)"
      using link [OF j] by blast
    obtain b where b: "b < length (t_windows s)" "w_project (t_windows s ! b) = w_project (t_windows s ! i)" "holds p (t_windows s ! b)"
      using k i(2,4) unfolding links_live_def by blast
    obtain a where a: "a < length (t_windows t)" "f a = Some b" using onto [OF b(1) i(3) b(3)] by blast
    have "holds p (t_windows t ! a)" using h [OF a(1) i(3)] a(2) b(3) by blast
    moreover have "w_project (t_windows t ! a) = w_project (t_windows t ! j)" using f [OF a(1)] a(2) b(2) i(5) by simp
    ultimately show "\<exists>a<length (t_windows t). w_project (t_windows t ! a) = w_project (t_windows t ! j) \<and> holds p (t_windows t ! a)" using a(1) by blast
  qed
  ultimately show ?thesis using o act by (simp add: stacks_ok_def)
qed

text \<open>The Pane is out: nothing is linked to it and no window holds it.\<close>

definition pane_out :: "pane_id \<Rightarrow> tabs \<Rightarrow> bool" where
  "pane_out pane t \<longleftrightarrow> stacks_ok t \<and> (\<forall>j<length (t_windows t). w_parent (t_windows t ! j) \<noteq> Some pane \<and> \<not> holds pane (t_windows t ! j))"

lemma first_pane_in: "first_pane lay \<in> set (pane_ids lay)"
  by (induction lay) auto

lemma keep_out:
  assumes "repaired pane s0 s" and "owned s" and "window_of pane s = Some i" and "without pane (w_layout (t_windows s ! i)) = Some lay"
    and "t_windows t = (t_windows s)[i := keep_window pane lay (t_windows s ! i)]"
  shows "pane_out pane t"
proof -
  have s: "stacks_ok s" and np: "\<forall>j<length (t_windows s). w_parent (t_windows s ! j) \<noteq> Some pane" using assms(1) by (simp_all add: repaired_def)
  have i: "i < length (t_windows s)" "holds pane (t_windows s ! i)" using assms(3) window_of_iff [OF assms(2)] by blast+
  have n: "length (t_windows t) = length (t_windows s)" using assms(5) by simp
  have l: "set (pane_ids lay) = set (pane_ids (w_layout (t_windows s ! i))) - {pane}"
    using without_ids [of pane "w_layout (t_windows s ! i)"] assms(4) by auto
  have w: "t_windows t ! j = (if j = i then keep_window pane lay (t_windows s ! i) else t_windows s ! j)" if "j < length (t_windows s)" for j
    using that i(1) assms(5) by (simp add: nth_list_update)
  have h: "holds p (t_windows t ! j) \<longleftrightarrow> holds p (t_windows s ! j) \<and> p \<noteq> pane" if "j < length (t_windows s)" for j p
    using w [OF that] l owner_eq [OF assms(2) that i(1)] i(2) by (auto simp: keep_window_def contains_pane_iff)
  have "stacks_ok t"
  proof (rule stacks_rehomed [OF s np, where f = Some], unfold n)
    fix j assume j: "j < length (t_windows s)"
    show "holds (w_active (t_windows t ! j)) (t_windows t ! j)"
    proof (cases "j = i")
      case True
      then show ?thesis using w [OF j] l first_pane_in [of lay] s j by (auto simp: keep_window_def contains_pane_iff stacks_ok_def)
    qed (use w [OF j] j s in \<open>simp add: stacks_ok_def\<close>)
  qed (use w h in \<open>auto simp: keep_window_def\<close>)
  then show ?thesis using np h w n by (auto simp: pane_out_def keep_window_def)
qed

lemma drop_out:
  assumes "repaired pane s0 s" and "owned s" and "window_of pane s = Some i" and "without pane (w_layout (t_windows s ! i)) = None"
    and "t_windows t = remove_at i (t_windows s)"
  shows "pane_out pane t"
proof -
  have s: "stacks_ok s" and np: "\<forall>j<length (t_windows s). w_parent (t_windows s ! j) \<noteq> Some pane" using assms(1) by (simp_all add: repaired_def)
  have i: "i < length (t_windows s)" "holds pane (t_windows s ! i)" using assms(3) window_of_iff [OF assms(2)] by blast+
  have n: "length (t_windows t) = length (t_windows s) - 1" using i assms(5) by (simp add: length_remove_at)
  define f where "f j = (if j < i then j else j + 1)" for j
  have w: "t_windows t ! j = t_windows s ! f j \<and> f j < length (t_windows s) \<and> f j \<noteq> i" if "j < length (t_windows t)" for j
    using that n i assms(5) remove_at_nth [OF i(1), of j] by (auto simp: f_def)
  have out: "\<not> holds pane (t_windows t ! j)" if "j < length (t_windows t)" for j using w [OF that] owner_eq [OF assms(2) _ i(1) _ i(2)] by auto
  have "stacks_ok t"
  proof (rule stacks_rehomed [OF s np, where f = "\<lambda>j. Some (f j)"])
    fix j p assume "j < length (t_windows s)" "p \<noteq> pane" "holds p (t_windows s ! j)"
    then have "j \<noteq> i" using assms(4) by (auto simp: without_None_iff contains_pane_iff)
    then show "\<exists>b<length (t_windows t). Some (f b) = Some j" using \<open>j < length (t_windows s)\<close> i n
      by (intro exI [of _ "if j < i then j else j - 1"]) (auto simp: f_def)
  next
    fix j k i1 assume "Some (f j) = Some i1" "Some (f k) = Some i1"
    then show "j = k" by (auto simp: f_def split: if_splits)
  qed (use w out s in \<open>auto simp: stacks_ok_def\<close>)
  then show ?thesis using np w out by (simp add: pane_out_def)
qed

lemma split_pane_ids: "anchor \<in> set (pane_ids l) \<Longrightarrow> set (pane_ids (fst (split_pane anchor dir pane l))) = insert pane (set (pane_ids l))"
proof (induction l)
  case (Split d r a b)
  show ?case
  proof (cases "anchor \<in> set (pane_ids a)")
    case True
    then show ?thesis using Split.IH(1) split_pane_found [of anchor dir pane a] by (auto simp: Let_def split_beta)
  next
    case False
    then show ?thesis using Split split_pane_absent [of anchor a dir pane] by (auto simp: Let_def split_beta)
  qed
qed auto

text \<open>Putting a Pane that is out into a window of its own or beside another.\<close>

lemma insert_back:
  assumes "pane_out pane s" and "i \<le> length (t_windows s)" and "t_windows t = list_insert i (new_window pr pane) (t_windows s)"
  shows "stacks_ok t"
proof -
  have s: "stacks_ok s" and np: "\<forall>j<length (t_windows s). w_parent (t_windows s ! j) \<noteq> Some pane" and out: "\<forall>j<length (t_windows s). \<not> holds pane (t_windows s ! j)"
    using assms(1) by (simp_all add: pane_out_def)
  have n: "length (t_windows t) = length (t_windows s) + 1" using assms(2,3) by (simp add: list_insert_def)
  define f where "f j = (if j < i then Some j else if j = i then None else Some (j - 1))" for j
  have w: "t_windows t ! j = (case f j of Some k \<Rightarrow> t_windows s ! k | None \<Rightarrow> new_window pr pane)" "\<And>k. f j = Some k \<Longrightarrow> k < length (t_windows s)" if "j < length (t_windows t)" for j
    using that n assms(2,3) by (auto simp: f_def list_insert_def nth_append nth_Cons' split: if_splits)
  show ?thesis
  proof (rule stacks_rehomed [OF s np, where f = f])
    fix j k i1 assume "f j = Some i1" "f k = Some i1"
    then show "j = k" by (auto simp: f_def split: if_splits)
  next
    fix j p assume "j < length (t_windows s)"
    then show "\<exists>b<length (t_windows t). f b = Some j" using n by (intro exI [of _ "if j < i then j else j + 1"]) (auto simp: f_def)
  next
    fix j k assume jk: "j < length (t_windows t)" "k < length (t_windows t)" "holds pane (t_windows t ! j)" "holds pane (t_windows t ! k)"
    then have "f j = None" "f k = None" using w [OF jk(1)] w [OF jk(2)] out by (auto split: option.splits)
    then show "j = k" by (auto simp: f_def split: if_splits)
  next
    fix j assume j: "j < length (t_windows t)"
    show "case f j of None \<Rightarrow> w_parent (t_windows t ! j) = None
      | Some i \<Rightarrow> i < length (t_windows s) \<and> w_parent (t_windows t ! j) = w_parent (t_windows s ! i) \<and> w_project (t_windows t ! j) = w_project (t_windows s ! i)"
      using w [OF j] by (auto simp: new_window_def split: option.split)
    show "holds (w_active (t_windows t ! j)) (t_windows t ! j)" using w [OF j] s by (auto simp: new_window_def stacks_ok_def split: option.split)
    fix p assume "p \<noteq> pane"
    then show "holds p (t_windows t ! j) \<longleftrightarrow> (\<exists>i. f j = Some i \<and> holds p (t_windows s ! i))" using w [OF j] by (auto simp: new_window_def split: option.split)
  qed
qed

lemma attach_back:
  assumes "pane_out pane s" and "g < length (t_windows s)" and "holds anchor (t_windows s ! g)"
    and "t_windows t = (t_windows s)[g := split_window anchor pane dir bg (t_windows s ! g)]"
  shows "stacks_ok t"
proof -
  have s: "stacks_ok s" and np: "\<forall>j<length (t_windows s). w_parent (t_windows s ! j) \<noteq> Some pane" and out: "\<forall>j<length (t_windows s). \<not> holds pane (t_windows s ! j)"
    using assms(1) by (simp_all add: pane_out_def)
  have n: "length (t_windows t) = length (t_windows s)" using assms(4) by simp
  have w: "t_windows t ! j = (if j = g then split_window anchor pane dir bg (t_windows s ! g) else t_windows s ! j)" if "j < length (t_windows s)" for j
    using that assms(4) by (simp add: nth_list_update)
  have l: "holds p (split_window anchor pane dir bg (t_windows s ! g)) \<longleftrightarrow> p = pane \<or> holds p (t_windows s ! g)" for p
    using split_pane_ids [of anchor "w_layout (t_windows s ! g)" dir pane] assms(3) by (auto simp: split_window_def Let_def contains_pane_iff)
  show ?thesis
  proof (rule stacks_rehomed [OF s np, where f = Some], unfold n)
    fix j assume j: "j < length (t_windows s)"
    have "w_active (split_window anchor pane dir bg (t_windows s ! g)) \<in> {pane, w_active (t_windows s ! g)}" by (simp add: split_window_def Let_def)
    then show "holds (w_active (t_windows t ! j)) (t_windows t ! j)" using w [OF j] l s j by (auto simp: stacks_ok_def)
    show "case Some j of None \<Rightarrow> w_parent (t_windows t ! j) = None
      | Some i \<Rightarrow> i < length (t_windows s) \<and> w_parent (t_windows t ! j) = w_parent (t_windows s ! i) \<and> w_project (t_windows t ! j) = w_project (t_windows s ! i)"
      using w [OF j] j by (auto simp: split_window_def Let_def)
  qed (use w l out in \<open>auto split: if_splits\<close>)
qed

lemma repair_window:
  assumes "stacks_ok s" and "window_of pane s = Some i"
  shows "repaired pane s (repair_stack_anchor pane s)" and "owned (repair_stack_anchor pane s)" and "window_of pane (repair_stack_anchor pane s) = Some i"
  using repair_spec [OF assms] assms same_tabs_window_of [of s "repair_stack_anchor pane s" pane] same_tabs_owned [of s "repair_stack_anchor pane s"]
  by (auto simp: repaired_def stacks_ok_def)

lemma detach_out: "stacks_ok s \<Longrightarrow> window_of pane s = Some src \<Longrightarrow> pane_out pane (fst (detach_pane src pane s))"
  using keep_out [OF repair_window] drop_out [OF repair_window] by (simp add: detach_pane_def Let_def set_window_def split: option.split)

lemma close_out: "stacks_ok s \<Longrightarrow> window_of pane s = Some i \<Longrightarrow> pane_out pane (fst (close_window pane (repair_stack_anchor pane s)))"
  using repair_window(3) keep_out [OF repair_window] drop_out [OF repair_window] by (simp add: close_window_def set_window_def split: option.split)

lemma fresh_out: "stacks_ok s \<Longrightarrow> window_of pane s = None \<Longrightarrow> pane_out pane s"
  unfolding pane_out_def stacks_ok_def links_live_def window_of_def position_None_iff by (metis nth_mem)

lemma same_windows_ok: "t_windows t = t_windows s \<Longrightarrow> stacks_ok t = stacks_ok s"
  using skeleton_stacks [of s t] skeleton_stacks [of t s] by auto

lemma activate_windows [simp]: "t_windows (activate_window i s) = t_windows s" "t_windows (finish_pane_move i s) = t_windows s"
  by (simp_all add: activate_window_def finish_pane_move_def Let_def)

lemma detach_length:
  assumes "stacks_ok s" and "window_of pane s = Some src"
  shows "length (t_windows (fst (detach_pane src pane s))) = length (t_windows s) - (if snd (detach_pane src pane s) then 0 else 1)"
    and "snd (detach_pane src pane s) \<longleftrightarrow> set (pane_ids (w_layout (t_windows s ! src))) \<noteq> {pane}"
proof -
  have o: "owned s" using assms(1) by (simp add: stacks_ok_def)
  have i: "src < length (t_windows s)" using assms(2) window_of_iff [OF o] by blast
  have m: "same_tabs s (repair_stack_anchor pane s)" using repair_window(1) [OF assms] by (simp add: repaired_def)
  show "length (t_windows (fst (detach_pane src pane s))) = length (t_windows s) - (if snd (detach_pane src pane s) then 0 else 1)"
    using same_tabs_nth(1) [OF m] i by (simp add: detach_pane_def Let_def set_window_def length_remove_at split: option.split)
  show "snd (detach_pane src pane s) \<longleftrightarrow> set (pane_ids (w_layout (t_windows s ! src))) \<noteq> {pane}"
    using same_tabs_nth(2) [OF m i] without_None_iff [of pane "w_layout (t_windows s ! src)"] by (auto simp: detach_pane_def Let_def split: option.split)
qed

datatype tab_op =
    SetParent pane_id "pane_id option"
  | AssignParent pane_id "pane_id option"
  | ClosePane pane_id
  | MoveToNew pane_id
  | MoveTo rect pane_id nat
  | OpenTab pane_id project_id bool
  | OpenSplit pane_id split_dir pane_id bool

text \<open>Panes are numbered afresh, so a Pane that is opened is in no Tab yet.\<close>

fun tab_apply :: "tab_op \<Rightarrow> tabs \<Rightarrow> tabs" where
  "tab_apply (SetParent p v) s = fst (set_tab_parent p v s)"
| "tab_apply (AssignParent p v) s = fst (assign_tab_parent p v s)"
| "tab_apply (ClosePane p) s = (case close_pane p s of Some t \<Rightarrow> t | None \<Rightarrow> s\<lparr>t_windows := []\<rparr>)"
| "tab_apply (MoveToNew p) s = fst (move_pane_to_new_window p s)"
| "tab_apply (MoveTo area p i) s = fst (move_pane_to_window area p i s)"
| "tab_apply (OpenTab p pr bg) s = (if window_of p s = None then insert_tab p pr bg s else s)"
| "tab_apply (OpenSplit anchor dir p bg) s =
     (case window_of anchor s of
        Some i \<Rightarrow> if window_of p s = None then insert_split i anchor p dir bg s else s
      | None \<Rightarrow> s)"

lemma set_tab_parent_ok: "stacks_ok s \<Longrightarrow> stacks_ok (fst (set_tab_parent p v s))"
proof -
  assume s: "stacks_ok s"
  have a: "stacks_ok (fst (case assign_tab_parent p v u of (s1, ok) \<Rightarrow> (if ok then s1\<lparr>t_follow := True, t_stack_scroll := 0\<rparr> else s1, ok)))" if "stacks_ok u" for u v
    using assign_ok [OF that, of p v] same_windows_ok [of "(fst (assign_tab_parent p v u))\<lparr>t_follow := True, t_stack_scroll := 0\<rparr>" "fst (assign_tab_parent p v u)"]
    by (auto split: prod.split)
  show ?thesis
  proof (cases "window_of p s")
    case (Some i)
    then have "i < length (t_windows s)" using window_of_iff s by (auto simp: stacks_ok_def)
    then have "stacks_ok (retain_stack_row i False s)" using skeleton_stacks [OF s] by simp
    then show ?thesis using a s Some by (simp add: set_tab_parent_def Let_def)
  qed (use a s in \<open>simp add: set_tab_parent_def Let_def\<close>)
qed

lemma close_pane_ok: "stacks_ok s \<Longrightarrow> close_pane p s = Some t \<Longrightarrow> stacks_ok t"
proof -
  assume s: "stacks_ok s" and c: "close_pane p s = Some t"
  let ?t = "fst (close_window p (repair_stack_anchor p s))"
  have "stacks_ok ?t"
  proof (cases "window_of p s")
    case None
    then show ?thesis using s by (simp add: repair_stack_anchor_def close_window_def)
  next
    case (Some i)
    then show ?thesis using close_out [OF s Some] by (simp add: pane_out_def)
  qed
  moreover have "t_windows t = t_windows ?t" using c by (auto simp: close_pane_def Let_def split: prod.splits if_splits)
  ultimately show ?thesis using same_windows_ok by blast
qed

lemma move_new_ok: "stacks_ok s \<Longrightarrow> stacks_ok (fst (move_pane_to_new_window p s))"
proof (cases "window_of p s")
  case (Some src)
  assume s: "stacks_ok s"
  let ?t = "fst (detach_pane src p s)" and ?l = "w_layout (t_windows s ! src)"
  have i: "src < length (t_windows s)" using Some window_of_iff s by (auto simp: stacks_ok_def)
  show ?thesis
  proof (cases "length (pane_ids ?l) < 2")
    case False
    show ?thesis
    proof (rule same_windows_ok [THEN iffD2], rule refl, rule insert_back [OF detach_out [OF s Some], where i = "min (src + 1) (length (t_windows ?t))" and pr = "w_project (t_windows s ! src)"])
      show "t_windows (fst (move_pane_to_new_window p s))
          = list_insert (min (src + 1) (length (t_windows ?t))) (new_window (w_project (t_windows s ! src)) p) (t_windows ?t)"
        using Some False by (simp add: move_pane_to_new_window_def Let_def list_insert_def min_def)
    qed simp
  qed (use s Some in \<open>simp add: move_pane_to_new_window_def\<close>)
qed (simp add: move_pane_to_new_window_def)

lemma move_to_ok: "stacks_ok s \<Longrightarrow> stacks_ok (fst (move_pane_to_window area p target s))"
proof (cases "window_of p s")
  case (Some src)
  assume s: "stacks_ok s"
  obtain s1 kept where d: "detach_pane src p s = (s1, kept)" by fastforce
  let ?g = "if \<not> kept \<and> src < target then target - 1 else target"
  have i: "src < length (t_windows s)" using Some window_of_iff s by (auto simp: stacks_ok_def)
  show ?thesis
  proof (cases "src = target \<or> target \<ge> length (t_windows s) \<or> w_project (t_windows s ! target) \<noteq> w_project (t_windows s ! src)")
    case False
    have out: "pane_out p s1" using detach_out [OF s Some] d by simp
    have g: "?g < length (t_windows s1)" using detach_length(1) [OF s Some] d False i by auto
    then have h: "holds (w_active (t_windows s1 ! ?g)) (t_windows s1 ! ?g)" using out by (simp add: pane_out_def stacks_ok_def)
    have "\<exists>dir. split_beside area p (t_windows s1 ! ?g) = split_window (w_active (t_windows s1 ! ?g)) p dir False (t_windows s1 ! ?g)" by (auto simp: split_beside_def Let_def)
    then obtain dir where "split_beside area p (t_windows s1 ! ?g) = split_window (w_active (t_windows s1 ! ?g)) p dir False (t_windows s1 ! ?g)" by blast
    then have "t_windows (fst (move_pane_to_window area p target s)) = (t_windows s1)[?g := split_window (w_active (t_windows s1 ! ?g)) p dir False (t_windows s1 ! ?g)]"
      using Some False d by (simp add: move_pane_to_window_def Let_def set_window_def)
    from attach_back [OF out g h this] show ?thesis .
  qed (use s Some in \<open>auto simp: move_pane_to_window_def\<close>)
qed (simp add: move_pane_to_window_def)

lemma tab_apply_ok:
  assumes "stacks_ok s"
  shows "stacks_ok (tab_apply e s)"
proof (cases e)
  case (SetParent p v)
  then show ?thesis using set_tab_parent_ok assms by simp
next
  case (AssignParent p v)
  then show ?thesis using assign_ok assms by simp
next
  case (ClosePane p)
  have "stacks_ok (s\<lparr>t_windows := []\<rparr>)" by (simp add: stacks_ok_def owned_def links_live_def parents_def tab_parent_def)
  then show ?thesis using ClosePane close_pane_ok [OF assms, of p] by (auto split: option.split)
next
  case (MoveToNew p)
  then show ?thesis using move_new_ok assms by simp
next
  case (MoveTo area p i)
  then show ?thesis using move_to_ok assms by simp
next
  case (OpenTab p pr bg)
  have "stacks_ok (s\<lparr>t_windows := t_windows s @ [new_window pr p]\<rparr>)" if "window_of p s = None"
    by (rule insert_back [OF fresh_out [OF assms that], where i = "length (t_windows s)" and pr = pr]) (simp_all add: list_insert_def)
  then show ?thesis using OpenTab assms same_windows_ok [of "insert_tab p pr bg s" "s\<lparr>t_windows := t_windows s @ [new_window pr p]\<rparr>"]
    by (auto simp: insert_tab_def Let_def)
next
  case (OpenSplit anchor dir p bg)
  have "stacks_ok (insert_split i anchor p dir bg s)" if w: "window_of anchor s = Some i" "window_of p s = None" for i
  proof -
    have "i < length (t_windows s)" "holds anchor (t_windows s ! i)" using w(1) window_of_iff assms by (auto simp: stacks_ok_def)
    from attach_back [OF fresh_out [OF assms w(2)] this] show ?thesis by (simp add: insert_split_def Let_def set_window_def)
  qed
  then show ?thesis using OpenSplit assms by (auto split: option.split)
qed

lemma tab_run_ok: "stacks_ok s \<Longrightarrow> stacks_ok (fold tab_apply ops s)"
  by (induction ops arbitrary: s) (simp_all add: tab_apply_ok)

lemma above_project:
  assumes "owned t"
  shows "(a, i) \<in> (parents t)\<^sup>* \<Longrightarrow> w_project (t_windows t ! a) = w_project (t_windows t ! i)"
proof (induction rule: rtrancl_induct)
  case (step b c)
  have "w_project (t_windows t ! b) = w_project (t_windows t ! c)" using step(2) tab_parent_iff [OF assms, of c b] by (simp add: parents_def) blast
  then show ?case using step.IH by (rule trans [rotated])
qed (rule refl)

text \<open>
  C12. Stacks of Tabs stay stacks. Whatever links are set, and whatever Panes are opened, split off,
  moved and closed, in any order: every Pane is in one Tab, every parent link leads to a live Pane
  of the same Project, and following the links from any Tab ends, within the steps the code allows,
  at a Tab of the same Project that has no parent; so every Tab of the active Project belongs to
  the stack of one Tab of the bar.
\<close>

theorem stacks_stay_forests:
  assumes "stacks_ok s"
  shows "let t = fold tab_apply ops s in stacks_ok t \<and> (\<forall>i<length (t_windows t). stack_root t i < length (t_windows t) \<and> tab_parent t (stack_root t i) = None
    \<and> w_project (t_windows t ! stack_root t i) = w_project (t_windows t ! i) \<and> (w_project (t_windows t ! i) = t_project t \<longrightarrow> stack_root t i \<in> set (root_tabs t)))"
proof -
  define t where "t = fold tab_apply ops s"
  have t: "stacks_ok t" using tab_run_ok assms by (simp add: t_def)
  then have o: "owned t" by (simp add: stacks_ok_def)
  have "stack_root t i < length (t_windows t) \<and> tab_parent t (stack_root t i) = None \<and> w_project (t_windows t ! stack_root t i) = w_project (t_windows t ! i)"
    if i: "i < length (t_windows t)" for i
  proof -
    have r: "stack_root t i \<in> above t i" "tab_parent t (stack_root t i) = None" using stack_root_spec [OF t i] by blast+
    have "w_project (t_windows t ! stack_root t i) = w_project (t_windows t ! i)" using above_project [OF o] r(1) by (simp add: above_def)
    then show ?thesis using r above_bound [OF o i] by auto
  qed
  then show ?thesis using t unfolding t_def [symmetric] Let_def by (auto simp: root_tabs_def project_window_indices_def)
qed

definition demo_tabs :: tabs where
  "demo_tabs = \<lparr>t_windows = [new_window (ProjectId 1) (PaneId 10)], t_active = 0, t_project = ProjectId 1, t_today = False, t_log = [], t_follow = False, t_stack_scroll = 0\<rparr>"

lemma demo_tabs_ok: "stacks_ok demo_tabs"
proof -
  have "tab_parent demo_tabs i = None" for i by (simp add: demo_tabs_def tab_parent_def new_window_def Let_def)
  then show ?thesis by (simp add: stacks_ok_def owned_def links_live_def parents_def demo_tabs_def new_window_def)
qed

definition demo_ops :: "tab_op list" where
  "demo_ops =
     [OpenTab (PaneId 20) (ProjectId 1) True, OpenTab (PaneId 30) (ProjectId 1) True, SetParent (PaneId 20) (Some (PaneId 10)),
      SetParent (PaneId 30) (Some (PaneId 20)), SetParent (PaneId 10) (Some (PaneId 30)), ClosePane (PaneId 10)]"

theorem stacks_stay_forests_witness:
  "stacks_ok demo_tabs
   \<and> (let t = fold tab_apply demo_ops demo_tabs
      in stacks_ok t \<and> map w_parent (t_windows t) = [None, Some (PaneId 20)] \<and> t_active t = 0 \<and> root_tabs t = [0] \<and> stack_tabs t = [0, 1])"
proof -
  note k = demo_tabs_ok
  have "let t = fold tab_apply demo_ops demo_tabs
      in map w_parent (t_windows t) = [None, Some (PaneId 20)] \<and> t_active t = 0 \<and> root_tabs t = [0] \<and> stack_tabs t = [0, 1]" by code_simp
  then show ?thesis using k stacks_stay_forests [OF k, of demo_ops] unfolding Let_def by blast
qed

section \<open>A stack survives the closing of one of its Tabs\<close>

lemma root_unique: "(r, i) \<in> (parents s)\<^sup>* \<Longrightarrow> tab_parent s r = None \<Longrightarrow> tab_parent s q = None \<Longrightarrow> q \<in> above s i \<Longrightarrow> r = q"
proof (induction rule: rtrancl_induct)
  case base
  then show ?case using above_root [of s r] by simp
next
  case (step b c)
  then have b: "tab_parent s c = Some b" by (simp add: parents_def)
  then have "q \<in> above s b" using above_step [OF b] step.prems by auto
  then show ?case using step by blast
qed

lemma stack_root_step:
  assumes "stacks_ok s" and "i < length (t_windows s)"
  shows "stack_root s i = (case tab_parent s i of None \<Rightarrow> i | Some p \<Rightarrow> stack_root s p)"
proof (cases "tab_parent s i")
  case None
  then show ?thesis using stack_root_spec [OF assms] above_root [OF None] by simp
next
  case (Some p)
  have p: "p < length (t_windows s)" using Some assms(1) tab_parent_iff [of s i p] by (simp add: stacks_ok_def)
  have "stack_root s p \<in> above s i" using stack_root_spec [OF assms(1) p] above_step [OF Some] by auto
  then show ?thesis using root_unique [of "stack_root s i" i s "stack_root s p"] stack_root_spec [OF assms] stack_root_spec [OF assms(1) p] Some by (simp add: above_def)
qed

lemma stack_root_bound: "stacks_ok s \<Longrightarrow> i < length (t_windows s) \<Longrightarrow> stack_root s i < length (t_windows s)"
  using stack_root_spec [of s i] above_bound [of s i] by (auto simp: stacks_ok_def)

text \<open>The Tab is about to close with its only Pane: its children move to its parent, or to the first of them.\<close>

lemma repair_links:
  assumes "stacks_ok s" and "window_of pane s = Some i" and "pane_ids (w_layout (t_windows s ! i)) = [pane]"
  shows "\<exists>r. (\<forall>j<length (t_windows s). w_parent (t_windows (repair_stack_anchor pane s) ! j)
        = (if w_parent (t_windows s ! j) = Some pane then r j else w_parent (t_windows s ! j)))
    \<and> (if w_parent (t_windows s ! i) \<noteq> None then r = (\<lambda>_. w_parent (t_windows s ! i))
       else (\<forall>j<length (t_windows s). w_parent (t_windows s ! j) \<noteq> Some pane)
         \<or> (\<exists>x c. window_of x s = Some c \<and> w_parent (t_windows s ! c) = Some pane \<and> r = (\<lambda>j. if j = c then None else Some x)))"
proof -
  define s1 where "s1 = (if stack_root s i \<noteq> i then retain_stack_row (stack_root s i) True s else s)"
  have o: "owned s" using assms(1) by (simp add: stacks_ok_def)
  have i: "i < length (t_windows s)" using assms(2) window_of_iff [OF o] by blast
  have e: "map skeleton (t_windows s1) = map skeleton (t_windows s)" using stack_root_bound [OF assms(1) i] by (simp add: s1_def)
  note m = skeleton_same [OF e]
  have k: "stacks_ok s1" "owned s1" "window_of pane s1 = Some i" "i < length (t_windows s1)"
    using skeleton_stacks [OF assms(1) e] same_tabs_window_of [OF m o] assms(2) same_tabs_owned [OF m] o i same_tabs_nth(1) [OF m] by auto
  have n: "length (t_windows s1) = length (t_windows s)" and p: "\<And>j. j < length (t_windows s) \<Longrightarrow> w_parent (t_windows s1 ! j) = w_parent (t_windows s ! j)"
    and w: "\<And>y. window_of y s1 = window_of y s"
    using same_tabs_nth(1) [OF m] skeleton_nth [OF e] same_tabs_window_of [OF m o] by auto
  have rep: "repair_replacement pane (t_windows s1 ! i) = w_parent (t_windows s1 ! i)"
    using same_tabs_nth(2) [OF m i] assms(3) by (simp add: repair_replacement_def)
  have r: "repair_stack_anchor pane s = (case (w_parent (t_windows s1 ! i), stack_children pane s1) of
      (None, c # _) \<Rightarrow> reassign (Some c) (stack_children pane s1) (promote c s1) | _ \<Rightarrow> reassign (w_parent (t_windows s1 ! i)) (stack_children pane s1) s1)"
    unfolding repair_stack_anchor_def assms(2) option.case Let_def s1_def [symmetric] rep ..
  show ?thesis
  proof (cases "w_parent (t_windows s1 ! i)")
    case None
    show ?thesis
    proof (cases "stack_children pane s1")
      case Nil
      then have "w_parent (t_windows s ! j) \<noteq> Some pane" if "j < length (t_windows s)" for j using that p n by (force simp: stack_children_def filter_empty_conv in_set_conv_nth)
      then show ?thesis unfolding r None Nil using None p i by (simp add: reassign_def)
    next
      case (Cons x cs)
      from promote_links(4) [OF k(1,3) Cons] obtain c where "window_of x s = Some c" "w_parent (t_windows s ! c) = Some pane"
        "\<forall>j<length (t_windows s). w_parent (t_windows (reassign (Some x) (x # cs) (promote x s1)) ! j)
          = (if w_parent (t_windows s ! j) = Some pane then (if j = c then None else Some x) else w_parent (t_windows s ! j))" using p n w by auto
      then show ?thesis unfolding r None Cons using None p i by (intro exI [of _ "\<lambda>j. if j = c then None else Some x"]) auto
    qed
  next
    case (Some q)
    obtain a where a: "a < length (t_windows s1)" "w_project (t_windows s1 ! a) = w_project (t_windows s1 ! i)" "holds q (t_windows s1 ! a)"
      using k(1,4) Some unfolding stacks_ok_def links_live_def by blast
    then have t: "tab_parent s1 i = Some a" using tab_parent_iff [OF k(2)] Some k(4) by blast
    have "a \<in> above s1 i" using t above_step [OF t] by (simp add: above_def)
    from reassign_links(3) [OF k(1,3) a(1,3) this a(2)] show ?thesis unfolding r Some using Some p i n by auto
  qed
qed

lemma tab_parent_by:
  "owned t \<Longrightarrow> j < length (t_windows t) \<Longrightarrow> w_parent (t_windows t ! j) = Some q \<Longrightarrow> window_of q t = Some a \<Longrightarrow> w_project (t_windows t ! a) = w_project (t_windows t ! j)
   \<Longrightarrow> tab_parent t j = Some a"
  using tab_parent_iff [of t j a] window_of_iff [of t q a] by blast

lemma tab_parent_same:
  assumes "same_tabs s t" and "owned s" and "w_parent (t_windows t ! j) = w_parent (t_windows s ! j)"
  shows "tab_parent t j = tab_parent s j"
proof -
  note n = same_tabs_nth [OF assms(1)]
  have "owned t" using assms(1,2) same_tabs_owned by blast
  then have "tab_parent t j = Some a \<longleftrightarrow> tab_parent s j = Some a" for a
    using tab_parent_iff [OF assms(2), of j a] tab_parent_iff [of t j a] n assms(3) by (cases "j < length (t_windows s)") auto
  then show ?thesis by (metis not_None_eq)
qed

lemma tab_parent_None: "stacks_ok s \<Longrightarrow> i < length (t_windows s) \<Longrightarrow> tab_parent s i = None \<longleftrightarrow> w_parent (t_windows s ! i) = None"
proof
  assume s: "stacks_ok s" and i: "i < length (t_windows s)" and n: "tab_parent s i = None"
  then have o: "owned s" "links_live s" by (simp_all add: stacks_ok_def)
  show "w_parent (t_windows s ! i) = None"
  proof (rule ccontr)
    assume "w_parent (t_windows s ! i) \<noteq> None"
    then obtain p where p: "w_parent (t_windows s ! i) = Some p" by blast
    obtain j where "j < length (t_windows s)" "w_project (t_windows s ! j) = w_project (t_windows s ! i)" "holds p (t_windows s ! j)"
      using o(2) i p unfolding links_live_def by blast
    then have "tab_parent s i = Some j" using tab_parent_iff [OF o(1)] i p by blast
    then show False using n by simp
  qed
qed (simp add: tab_parent_def)

lemma repair_parents:
  assumes "stacks_ok s" and "window_of pane s = Some i" and "pane_ids (w_layout (t_windows s ! i)) = [pane]"
  shows "\<exists>c. (tab_parent s i = None \<and> (\<exists>j. tab_parent s j = Some i) \<longrightarrow> tab_parent s c = Some i)
    \<and> (\<forall>j<length (t_windows s). tab_parent (repair_stack_anchor pane s) j
         = (if tab_parent s j = Some i then (if tab_parent s i \<noteq> None then tab_parent s i else if j = c then None else Some c) else tab_parent s j))"
proof -
  let ?t = "repair_stack_anchor pane s"
  have o: "owned s" "owned ?t" using assms(1) repair_window(2) [OF assms(1,2)] by (simp_all add: stacks_ok_def)
  have m: "same_tabs s ?t" using repair_window(1) [OF assms(1,2)] by (simp add: repaired_def)
  note n = same_tabs_nth [OF m] and w = same_tabs_window_of [OF m o(1)]
  have i: "i < length (t_windows s)" using assms(2) window_of_iff [OF o(1)] by blast
  have l: "w_parent (t_windows s ! j) = Some pane \<longleftrightarrow> tab_parent s j = Some i" if "j < length (t_windows s)" for j
    using linked_child(1) [OF assms(1,2) that] tab_parent_iff [OF o(1), of j i] assms(3) by (auto simp: contains_pane_iff)
  have pr: "w_project (t_windows s ! j) = w_project (t_windows s ! i)" if "tab_parent s j = Some i" for j using that tab_parent_iff [OF o(1)] by auto
  obtain r where r: "\<And>j. j < length (t_windows s) \<Longrightarrow> w_parent (t_windows ?t ! j) = (if tab_parent s j = Some i then r j else w_parent (t_windows s ! j))"
    and c: "if w_parent (t_windows s ! i) \<noteq> None then r = (\<lambda>_. w_parent (t_windows s ! i)) else (\<forall>j<length (t_windows s). w_parent (t_windows s ! j) \<noteq> Some pane)
         \<or> (\<exists>x c. window_of x s = Some c \<and> w_parent (t_windows s ! c) = Some pane \<and> r = (\<lambda>j. if j = c then None else Some x))"
    using repair_links [OF assms] l by auto
  have same: "tab_parent ?t j = tab_parent s j" if "j < length (t_windows s)" "tab_parent s j \<noteq> Some i" for j
    using tab_parent_same [OF m o(1)] r [OF that(1)] that(2) by simp
  consider (up) a where "tab_parent s i = Some a" | (leaf) "tab_parent s i = None" "\<forall>j<length (t_windows s). w_parent (t_windows s ! j) \<noteq> Some pane"
    | (top) x c where "tab_parent s i = None" "window_of x s = Some c" "w_parent (t_windows s ! c) = Some pane" "r = (\<lambda>j. if j = c then None else Some x)"
    using c tab_parent_None [OF assms(1) i] by (cases "tab_parent s i") auto
  then show ?thesis
  proof cases
    case up
    then obtain q where q: "w_parent (t_windows s ! i) = Some q" "window_of q s = Some a" "w_project (t_windows s ! a) = w_project (t_windows s ! i)" "a < length (t_windows s)"
      using tab_parent_iff [OF o(1), of i a] window_of_iff [OF o(1), of _ a] by blast
    have "tab_parent ?t j = Some a" if "j < length (t_windows s)" "tab_parent s j = Some i" for j
      by (rule tab_parent_by [OF o(2), where q = q]) (use that r [of j] c q w n pr [OF that(2)] in auto)
    then show ?thesis using up same by (intro exI [of _ i]) auto
  next
    case leaf
    then have "tab_parent s j \<noteq> Some i" if "j < length (t_windows s)" for j using l [OF that] that by simp
    moreover have "j < length (t_windows s)" if "tab_parent s j = Some i" for j using that tab_parent_iff [OF o(1)] by blast
    ultimately show ?thesis using same by (intro exI [of _ i]) auto
  next
    case top
    have c: "c < length (t_windows s)" "tab_parent s c = Some i" using top l window_of_iff [OF o(1)] by blast+
    have "tab_parent ?t j = (if j = c then None else Some c)" if j: "j < length (t_windows s)" "tab_parent s j = Some i" for j
    proof (cases "j = c")
      case True
      then show ?thesis using r [OF j(1)] j(2) top(4) by (simp add: tab_parent_def)
    next
      case False
      have "tab_parent ?t j = Some c"
        by (rule tab_parent_by [OF o(2), where q = x]) (use j r [OF j(1)] top False w n c pr [OF j(2)] pr [OF c(2)] in auto)
      then show ?thesis using False by simp
    qed
    then show ?thesis using top(1) c same by (intro exI [of _ c]) auto
  qed
qed

lemma repaired_root:
  assumes "stacks_ok s" and "stacks_ok t" and n: "length (t_windows t) = length (t_windows s)" and i: "i < length (t_windows s)"
    and c: "tab_parent s i = None \<and> (\<exists>j. tab_parent s j = Some i) \<longrightarrow> tab_parent s c = Some i"
    and e: "\<And>j. j < length (t_windows s) \<Longrightarrow> tab_parent t j
         = (if tab_parent s j = Some i then (if tab_parent s i \<noteq> None then tab_parent s i else if j = c then None else Some c) else tab_parent s j)"
  shows "j < length (t_windows s) \<Longrightarrow> j \<noteq> i \<Longrightarrow> stack_root t j = (if stack_root s j = i then c else stack_root s j)"
proof -
  have o: "owned s" and wf: "wf (parents s)" using assms(1) by (simp_all add: stacks_ok_def)
  have ss: "stack_root s j = (case tab_parent s j of None \<Rightarrow> j | Some p \<Rightarrow> stack_root s p)" if "j < length (t_windows s)" for j by (rule stack_root_step [OF assms(1) that])
  have st: "stack_root t j = (case tab_parent t j of None \<Rightarrow> j | Some p \<Rightarrow> stack_root t p)" if "j < length (t_windows s)" for j using stack_root_step [OF assms(2)] that n by simp
  have b: "k < length (t_windows s)" "j < length (t_windows s)" if "tab_parent s j = Some k" for j k using that tab_parent_iff [OF o] by blast+
  have ni: "j \<noteq> i" if "tab_parent s j = Some i" for j using that above_parent [OF wf that] by (auto simp: above_def)
  show "j < length (t_windows s) \<Longrightarrow> j \<noteq> i \<Longrightarrow> stack_root t j = (if stack_root s j = i then c else stack_root s j)"
    using wf_trancl [OF wf]
  proof (induction j rule: wf_induct_rule)
    case (less j)
    show ?case
    proof (cases "tab_parent s j")
      case None
      then show ?thesis using ss [OF less.prems(1)] st [OF less.prems(1)] e [OF less.prems(1)] less.prems(2) by simp
    next
      case (Some k)
      show ?thesis
      proof (cases "k = i")
        case False
        have "stack_root t k = (if stack_root s k = i then c else stack_root s k)" using less.IH [of k] b(1) [OF Some] False r_into_trancl [of k j "parents s"] Some by (simp add: parents_def)
        then show ?thesis using ss [OF less.prems(1)] st [OF less.prems(1)] e [OF less.prems(1)] Some False by simp
      next
        case True
        then have ch: "tab_parent s j = Some i" using Some by simp
        show ?thesis
        proof (cases "tab_parent s i")
          case None
          then have "tab_parent s c = Some i" using c ch by blast
          then have "stack_root t c = c" using st [OF b(2)] e [OF b(2)] None by simp
          then show ?thesis using ss [OF less.prems(1)] st [OF less.prems(1)] e [OF less.prems(1)] ch None ss [OF i] by simp
        next
          case (Some a)
          have "a \<noteq> i" using ni [of i] Some by auto
          moreover have "(a, j) \<in> (parents s)\<^sup>+" using Some ch by (auto simp: parents_def intro: trancl_into_trancl)
          ultimately have "stack_root t a = (if stack_root s a = i then c else stack_root s a)" using less.IH b(1) [OF Some] by blast
          then show ?thesis using ss [OF less.prems(1)] st [OF less.prems(1)] e [OF less.prems(1)] ch Some ss [OF i] by simp
        qed
      qed
    qed
  qed
qed

text \<open>Removing a Tab that nothing is linked to moves the later ones up by one.\<close>

definition shift :: "nat \<Rightarrow> nat \<Rightarrow> nat" where
  "shift i j = (if i < j then j - 1 else j)"

lemma shift_eq_iff: "j \<noteq> i \<Longrightarrow> k \<noteq> i \<Longrightarrow> shift i j = shift i k \<longleftrightarrow> j = k"
  by (auto simp: shift_def)

lemma shift_nth: "i < length xs \<Longrightarrow> j < length xs \<Longrightarrow> j \<noteq> i \<Longrightarrow> shift i j < length (remove_at i xs) \<and> remove_at i xs ! shift i j = xs ! j"
  using remove_at_nth [of i xs "shift i j"] by (auto simp: shift_def length_remove_at)

lemma removed_root:
  assumes "stacks_ok t" and "stacks_ok u" and "t_windows u = remove_at i (t_windows t)" and i: "i < length (t_windows t)" and np: "\<And>j. tab_parent t j \<noteq> Some i"
  shows "j < length (t_windows t) \<Longrightarrow> j \<noteq> i \<Longrightarrow> stack_root u (shift i j) = shift i (stack_root t j)"
proof -
  have o: "owned t" "owned u" and wf: "wf (parents t)" using assms(1,2) by (simp_all add: stacks_ok_def)
  note sh = shift_nth [OF i, folded assms(3)]
  have up: "tab_parent u (shift i j) = Some (shift i k)" if "tab_parent t j = Some k" "j \<noteq> i" for j k
  proof -
    have "k \<noteq> i" using that(1) np by auto
    then show ?thesis using that tab_parent_iff [OF o(1), of j k] tab_parent_iff [OF o(2), of "shift i j" "shift i k"] sh [of j] sh [of k] by auto
  qed
  have none: "tab_parent u (shift i j) = None" if "tab_parent t j = None" "j \<noteq> i" "j < length (t_windows t)" for j
    using that tab_parent_None [OF assms(1), of j] tab_parent_None [OF assms(2), of "shift i j"] sh [of j] by simp
  show "j < length (t_windows t) \<Longrightarrow> j \<noteq> i \<Longrightarrow> stack_root u (shift i j) = shift i (stack_root t j)"
    using wf
  proof (induction j rule: wf_induct_rule)
    case (less j)
    have "stack_root u (shift i k) = shift i (stack_root t k)" if "tab_parent t j = Some k" for k
      using less.IH [of k] that np [of j] tab_parent_iff [OF o(1), of j k] by (auto simp: parents_def)
    then show ?case using stack_root_step [OF assms(1) less.prems(1)] stack_root_step [OF assms(2), of "shift i j"] sh [OF less.prems] up [OF _ less.prems(2)] none [OF _ less.prems(2,1)]
      by (cases "tab_parent t j") auto
  qed
qed

text \<open>The focus goes to another Tab of the stack when there is one.\<close>

lemma nearest_tab_in: "nearest_tab a js = Some j \<Longrightarrow> j \<in> set js"
  by (induction js arbitrary: j) (auto split: option.splits if_splits)

lemma nearest_tab_some: "js \<noteq> [] \<Longrightarrow> nearest_tab a js \<noteq> None"
  by (induction js) (auto split: option.splits)

lemma stack_tabs_root:
  assumes "stacks_ok s" and "t_active s < length (t_windows s)" and "j \<in> set (stack_tabs s)"
  shows "j < length (t_windows s) \<and> stack_root s j = stack_root s (t_active s)"
proof -
  let ?r = "stack_root s (t_active s)"
  have r: "?r < length (t_windows s)" "stack_root s ?r = ?r"
    using stack_root_bound [OF assms(1,2)] stack_root_step [OF assms(1), of ?r] stack_root_spec [OF assms(1,2)] by auto
  show ?thesis using assms(3) r by (auto simp: stack_tabs_def Let_def project_window_indices_def split: if_splits)
qed

lemma stack_focus_in:
  assumes "stacks_ok s" and "i < length (t_windows s)" and "pane_ids (w_layout (t_windows s ! i)) = [pane]" and "i = t_active s" and "\<not> t_today s"
    and "w_project (t_windows s ! i) = t_project s" and "j < length (t_windows s)" and "j \<noteq> i" and "stack_root s j = stack_root s i"
  shows "\<exists>m<length (t_windows s). m \<noteq> i \<and> stack_root s m = stack_root s i \<and> stack_focus pane s = Some (w_active (t_windows s ! m))"
proof -
  let ?r = "stack_root s i" and ?others = "filter (\<lambda>k. k \<noteq> t_active s) (stack_tabs s)"
  have act: "w_active (t_windows s ! i) = pane" using assms(1-3) by (auto simp: stacks_ok_def contains_pane_iff)
  have o: "owned s" using assms(1) by (simp add: stacks_ok_def)
  have pr: "w_project (t_windows s ! k) = w_project (t_windows s ! ?r)" if "k < length (t_windows s)" "stack_root s k = ?r" for k
    using above_project [OF o, of ?r k] stack_root_spec [OF assms(1) that(1)] that(2) by (simp add: above_def)
  then have "w_project (t_windows s ! j) = t_project s" using assms(2,6,7,9) by simp
  then have mem: "k \<in> set (project_window_indices (t_project s) s)" if "k = i \<or> k = j" for k
    using that assms(2,6,7) by (auto simp: project_window_indices_def)
  have "set (stack_tabs s) \<supseteq> {i, j}"
  proof (cases "?r = i")
    case True
    then have "j \<in> set (filter (\<lambda>k. k \<noteq> ?r \<and> stack_root s k = ?r) (project_window_indices (t_project s) s))" using mem [of j] assms(8,9) by simp
    then show ?thesis using True assms(2,4,5) by (auto simp: stack_tabs_def Let_def filter_empty_conv)
  next
    case False
    then have "i \<in> set (filter (\<lambda>k. k \<noteq> ?r \<and> stack_root s k = ?r) (project_window_indices (t_project s) s))" using mem [of i] by simp
    moreover have "j = ?r \<or> j \<in> set (filter (\<lambda>k. k \<noteq> ?r \<and> stack_root s k = ?r) (project_window_indices (t_project s) s))" using mem [of j] assms(9) by simp
    ultimately show ?thesis using assms(2,4,5) by (auto simp: stack_tabs_def Let_def filter_empty_conv)
  qed
  then have "?others \<noteq> []" using assms(4,8) by (auto simp: filter_empty_conv)
  then obtain m where m: "nearest_tab (t_active s) ?others = Some m" using nearest_tab_some by blast
  then have "m \<in> set (stack_tabs s)" "m \<noteq> i" using nearest_tab_in [OF m] assms(4) by auto
  moreover have "stack_focus pane s = Some (w_active (t_windows s ! m))" using m act assms(3,4) by (simp add: stack_focus_def leaf_count_length)
  ultimately show ?thesis using stack_tabs_root [OF assms(1)] assms(2,4) by auto
qed

lemma active_kept [simp]:
  "t_active (retain_stack_row i e s) = t_active s" "t_active (fst (assign_tab_parent p v s)) = t_active s" "t_active (promote p s) = t_active s"
proof -
  show r: "t_active (retain_stack_row i e s) = t_active s" for i e s by (simp add: retain_stack_row_def Let_def set_window_def append_event_def)
  show a: "t_active (fst (assign_tab_parent p v s)) = t_active s" for p v s
    by (auto simp: assign_tab_parent_def link_tab_def Let_def set_window_def append_event_def r split: option.split)
  show "t_active (promote p s) = t_active s" by (simp add: promote_def Let_def a r split: option.split)
qed

lemma active_reassign [simp]: "t_active (reassign r cs s) = t_active s"
  by (induction cs arbitrary: s) (simp_all add: reassign_def)

lemma active_repair [simp]: "t_active (repair_stack_anchor pane s) = t_active s"
  by (simp add: repair_stack_anchor_def Let_def split: option.split list.split)

lemma close_last:
  assumes "stacks_ok s" and "window_of pane s = Some i" and "pane_ids (w_layout (t_windows s ! i)) = [pane]" and "close_pane pane s = Some u"
  shows "t_windows u = remove_at i (t_windows (repair_stack_anchor pane s))"
    and "m < length (t_windows s) \<Longrightarrow> m \<noteq> i \<Longrightarrow> i = t_active s \<Longrightarrow> stack_focus pane s = Some (w_active (t_windows s ! m)) \<Longrightarrow> t_active u = shift i m"
proof -
  let ?t = "repair_stack_anchor pane s"
  note w = repair_window [OF assms(1,2)]
  have m: "same_tabs s ?t" using w(1) by (simp add: repaired_def)
  have i: "i < length (t_windows ?t)" using w(3) window_of_iff [OF w(2)] by blast
  have "without pane (w_layout (t_windows ?t ! i)) = None" using same_tabs_nth [OF m] i assms(3) by (simp add: without_None_iff)
  then have c: "close_window pane ?t = (?t\<lparr>t_windows := remove_at i (t_windows ?t)\<rparr>, Some (i, w_project (t_windows ?t ! i)))" using w(3) by (simp add: close_window_def)
  then show e: "t_windows u = remove_at i (t_windows ?t)" using assms(4) by (auto simp: close_pane_def Let_def split: if_splits)
  assume h: "m < length (t_windows s)" "m \<noteq> i" "i = t_active s" "stack_focus pane s = Some (w_active (t_windows s ! m))"
  let ?s1 = "?t\<lparr>t_windows := remove_at i (t_windows ?t)\<rparr>" and ?p = "w_active (t_windows s ! m)"
  have "owned ?s1" using close_out [OF assms(1,2)] c by (simp add: pane_out_def stacks_ok_def)
  moreover have sh: "shift i m < length (t_windows ?s1)" "t_windows ?s1 ! shift i m = t_windows ?t ! m"
    using shift_nth [OF i, of m] h(1,2) same_tabs_nth(1) [OF m] by simp_all
  moreover have "holds ?p (t_windows ?t ! m)" using assms(1) h(1) same_tabs_nth(2) [OF m h(1)] by (simp add: stacks_ok_def)
  ultimately have f: "window_of ?p ?s1 = Some (shift i m)" using window_of_iff [of ?s1 ?p "shift i m"] by simp
  have "refocus (Some ?p) (i, pr) ?s1 = shift i m" for pr using f sh(1) h(3) by (simp add: refocus_def Let_def first_some_def)
  then show "t_active u = shift i m" using assms(4) c h(4) by (auto simp: close_pane_def Let_def split: if_splits)
qed


text \<open>The root of a stack of three closes; its children stay together and one of them gets the focus, not the Tab between.\<close>

definition demo_stack :: tabs where
  "demo_stack = fold tab_apply [OpenTab (PaneId 40) (ProjectId 1) True, OpenTab (PaneId 20) (ProjectId 1) True, OpenTab (PaneId 30) (ProjectId 1) True,
     SetParent (PaneId 20) (Some (PaneId 10)), SetParent (PaneId 30) (Some (PaneId 10))] demo_tabs"


end
