(* ===== verification/Spec2Isabelle.thy ===== *)
theory Spec2Isabelle
  imports Orchestrate Instruction Agent Guardrail Waiting Tasks Run_Graph Artifact Inbox Wire Workspace Outbox Keyboard Text_Input Layout Grid_Reflow Terminal_Screen Renderer_Pane
    Timeline Copymode Config_Text Client_Input Tab_Stacks
begin

text \<open>
  Uniterm is a terminal multiplexer whose server keeps Workspaces of Projects, Tabs and Panes,
  runs coding agents in the Panes, and records what they do. A single-threaded core loop owns
  all state; blocking work happens in an agent runtime behind a bounded channel; clients attach
  over a framed byte stream; and every durable collection is rebuilt from an event log. This
  development models the parts of that system that decide something, as functions of their
  state, and leaves out the system calls around them.

  \<^bold>\<open>Shared vocabulary.\<close> \<open>Prelude\<close>: machine integers as words with Rust's saturating
  operations, strings as lists of Unicode scalar values, vector searches, ordered maps as
  red-black trees, the identifiers of \<^verbatim>\<open>uniterm-core/src/lib.rs\<close>. \<open>Utf8\<close>: the UTF-8 codec of the
  standard library, shown to be inverse both ways. \<open>Interfaces\<close>: the contracts that several
  components provide, as locales: \<open>id_projection\<close> (a collection with allocated ids),
  \<open>reducer\<close> and \<open>atomic_reducer\<close> (a state folded from events, where a rejected event changes
  nothing and replaying the accepted ones rebuilds the state), \<open>suppressible\<close> (a log that
  drops repetitions), \<open>codec\<close> (decoding inverts encoding). Each is interpreted on the
  components below, and the properties rest on those interpretations.

  \<^bold>\<open>Decisions of the core\<close> (\<^verbatim>\<open>crates/uniterm-core/src\<close>).
  \<^item> \<open>Orchestrate\<close> models \<^verbatim>\<open>orchestrate.rs\<close>: roles, provider selections and the state machine
    that runs relays and workflows (\<open>step\<close> and its helpers, one definition per function).
    Role indexing never leaves its bounds, forged or stale submissions are ignored, a run
    with a verifier completes only by its approval, tokens increase, and the number of turns
    is bounded.
  \<^item> \<open>Guardrail\<close> models \<^verbatim>\<open>guardrail.rs\<close>: validation of limits and launch admission; the root
    theory composes it with the orchestration: an admitted run injects a bounded number of
    turns.
  \<^item> \<open>Run_Graph\<close> and \<open>Artifact\<close> model \<^verbatim>\<open>run_graph.rs\<close> and \<^verbatim>\<open>artifact.rs\<close>: event reducers
    with several indexes. The indexes are always what a scan of the records would give,
    rejected events change nothing, and replay of the accepted ones rebuilds the state.
  \<^item> \<open>Instruction\<close>, \<open>Waiting\<close> and \<open>Tasks\<close> model \<^verbatim>\<open>instruction.rs\<close>, \<^verbatim>\<open>waiting.rs\<close>, \<^verbatim>\<open>tasks.rs\<close>
    together with the server calls that change them and the replay of
    \<^verbatim>\<open>eventlog.rs\<close>: the replayed state refines the live one exactly, repetitions dropped.
  \<^item> \<open>Inbox\<close> models \<^verbatim>\<open>inbox.rs\<close>: the bounded message board, its journal, claims, expiry,
    pagination and structural deletion. Bounds and indexes are exact, claims exclusive, posts
    idempotent, pages complete; and the cursor of a page can fall below the retention floor.
  \<^item> \<open>Agent\<close> models \<^verbatim>\<open>agent.rs\<close>, \<^verbatim>\<open>agent_detail.rs\<close>, \<^verbatim>\<open>approval.rs\<close>: status ranking, the
    details of one invocation, and the memory that keeps a prompt from being approved twice.
  \<^item> \<open>Keyboard\<close> models \<^verbatim>\<open>keyboard.rs\<close>: the bracketed-paste recogniser is exact, pasted text is
    literal, and a decoded key fits its buffer.
  \<^item> \<open>Layout\<close> over \<open>F32\<close> models \<^verbatim>\<open>layout.rs\<close>, with IEEE single precision as the ratios have it:
    every arrangement tiles its window exactly, drags land under the pointer, splitting and
    closing are inverse, focus moves to the nearest pane.
  \<^item> \<open>Grid\<close>, \<open>Grid_Edit\<close>, \<open>Grid_Wide\<close>, \<open>Grid_Store\<close> and \<open>Grid_Reflow\<close> model \<^verbatim>\<open>grid.rs\<close> and \<^verbatim>\<open>grid/capture.rs\<close>: cells with
    interned graphemes, colours and links, row editing, scrolling and damage. Wide glyphs stay
    whole, compaction changes no cell's appearance, damage is sound except where a partial
    scroll forgets an unseen one, detached captures equal the direct export, and a
    resize keeps all of this while it rewraps the lines, which gives single-width text back
    exactly but inserts a cell where a wide glyph did not fit.
  \<^item> \<open>Timeline\<close> models \<^verbatim>\<open>timeline.rs\<close>: a day's entries as spans, as the tree of provider sessions and
    as the flow of launches. Both projections are walks over reported parents, which may be
    cyclic: they always answer, show every node once, and place it under its parent.
  \<^item> \<open>Config_Text\<close> models the text side of \<^verbatim>\<open>config.rs\<close>: lines, comments, quoting, key names, bindings
    and editor rules, read and printed. It says exactly which values survive a rewrite of the
    file, and that bindings do.

  \<^bold>\<open>Between the processes.\<close>
  \<^item> \<open>Wire\<close> models the frame codec of \<^verbatim>\<open>uniterm-proto/src/lib.rs\<close> and the reading half of the
    client handler of \<^verbatim>\<open>uniterm-server/src/server/io.rs\<close>: messages arrive exactly and in order
    however the bytes are cut, within the size that leaves room for one event's reads.
  \<^item> \<open>Workspace\<close> models names, the default-workspace setting, catalog keys and remembered
    layouts of the same file: two round trips and the validity of a restored layout.
  \<^item> \<open>Outbox\<close> models \<^verbatim>\<open>uniterm-server/src/runtime/outbox.rs\<close> and its two callers: while healthy,
    the runtime receives a subsequence of what was sent that misses no ordered record, no
    newest observation and no process change.
  \<^item> \<open>Terminal\<close> models \<^verbatim>\<open>uniterm-server/src/terminal.rs\<close>: the emulator as a record and every callback
    of the parser on it. \<open>Terminal_Safe\<close>: at two columns or more no index panics and cursor, margins,
    tab stops and handles stay in range, whatever arrives; at one column a widening character
    breaks this. \<open>Terminal_Screen\<close>: the alternate screen gives the primary one back, the keyboard
    flags are a bounded stack, and three places where a setting or a 16-bit sum goes wrong.
  \<^item> \<open>Renderer\<close> and \<open>Renderer_Pane\<close> model \<^verbatim>\<open>uniterm-server/src/renderer.rs\<close> and the damage frame of
    \<^verbatim>\<open>server/chrome.rs\<close>. The host terminal is specified by what the sequences do to an abstract
    screen; the renderer's caches always agree with it, and after every frame the pane shows
    the grid and nothing else has changed.
  \<^item> \<open>Copymode\<close> models \<^verbatim>\<open>uniterm-server/src/copymode.rs\<close>: scrolling through history, selecting,
    searching and copying, with the rows it draws. Cursor and viewport stay on the lines; a
    frozen selection survives any output; a reader of history keeps their place while lines
    scroll in and are evicted, except after scrolls inside margins, where the count is wrong.
  \<^item> \<open>Tab_Stacks\<close> models \<^verbatim>\<open>uniterm-server/src/server/tab_stacks.rs\<close> and the moving and closing of
    Panes in \<^verbatim>\<open>server/projects.rs\<close> and \<^verbatim>\<open>server/agents.rs\<close>: parent links between Tabs stay live and
    free of circles, so the bounded walks of the code reach the root, and closing a Tab keeps
    the rest of its stack together and the focus in it.
  \<^item> \<open>Client_Input\<close> models \<^verbatim>\<open>uniterm-client/src/input.rs\<close>: mouse reports and keys do not depend on
    how reads cut the input, and every byte goes either to the pane or to the prefix; with the
    two inputs where a held byte is put back in the wrong place.
  \<^item> \<open>Text_Input\<close> models \<^verbatim>\<open>uniterm-client/src/text_input.rs\<close>: reading a key makes progress, and
    editing by byte offsets implements editing of a character zipper without ever slicing
    inside a character.

  \<^bold>\<open>Conventions.\<close> A record models a struct and a datatype an enum, with the constructors of the
  source; a \<^verbatim>\<open>Result\<close> is a sum with the error on the left, and every refusal of the source is a
  branch. Ids, times and counters keep their width as words where the code compares, saturates
  or wraps them; byte and element counts, and the inbox's event numbers, which advance by one
  per event, are natural numbers. Loops are recursion with a termination proof; there is no
  fuel, except where the source bounds a loop itself: the decoding loop of the client handler
  has its cap of 1024 messages per event, and the walks up a stack of Tabs one step per Tab,
  which is shown to be enough. Code outside the repository is a parameter: the \<^verbatim>\<open>bincode\<close> payload
  codec of \<open>Wire\<close> (with the law that it decodes what it encodes), the memory retained by a
  checkpoint, the encoded size of other messages and the outcome of each channel send in
  \<open>Outbox\<close>, whether a paste reaches the terminal in \<open>Instruction\<close>, and in \<open>Terminal\<close> the \<^verbatim>\<open>vte\<close>
  parser (bytes to callbacks) and the tables of character widths, grapheme boundaries and JSON
  values. The renderer writes tokens, one per sequence, with \<open>tty_bytes\<close> their bytes; the host
  terminal of \<open>Renderer\<close> is a specification and not code.

  \<^bold>\<open>Not modelled.\<close> System calls and their callers (pty, sockets, files, processes, timers), drawing of menus, overlays and themes, provider
  heuristics, git, JSON file formats and the command line: input and output around the
  state modelled here. The remaining
  settings of the configuration assign one field each; what closing a Pane does outside the
  windows (process, notifications, event log) is left to the components that own it.
\<close>

section \<open>Admission and orchestration\<close>

lemma admitted_limits:
  assumes "evaluate_launch policy facts = Allow"
  shows "unat (requested_roles facts) \<le> 256" and "0 < unat (requested_roles facts)"
    and "unat (gl_max_iterations (limits policy)) \<le> 100"
proof -
  have v: "limits_validate (limits policy) = Inr (limits policy)"
    using assms by (auto simp: evaluate_launch_def limits_validate_def split: sum.splits if_splits)
  from v show "unat (gl_max_iterations (limits policy)) \<le> 100" by (simp add: limits_validate_ok)
  have "saturating_add (reserved_role_panes facts) (requested_roles facts) \<le> max_role_panes (limits policy)"
    and "requested_roles facts \<noteq> 0"
    using assms v by (auto simp: evaluate_launch_def split: if_splits)
  moreover have "unat (max_role_panes (limits policy)) \<le> 256" using v by (simp add: limits_validate_ok)
  ultimately show "unat (requested_roles facts) \<le> 256" and "0 < unat (requested_roles facts)"
    by (auto simp: word_le_nat_alt unat_saturating_add unat_gt_0)
qed

text \<open>
  C20. An admitted run is bounded. When the guardrail policy admits a launch, the orchestration
  of its roles under the policy's iteration cap answers every event and injects at most
  256 * 101 turns, plus one for every time a human resumed it, whatever the agents report.
\<close>

theorem admitted_run_is_bounded:
  assumes "evaluate_launch policy facts = Allow" and "length rs = unat (requested_roles facts)"
    and "length es < 2 ^ 32"
  shows "\<exists>acts t. run_events (state_new rs (gl_max_iterations (limits policy))) es = Some (acts, t)
    \<and> count_injects acts \<le> 256 * 101 + count_list es EResume"
proof -
  note lim = admitted_limits [OF assms(1)]
  have "rs \<noteq> []" using assms(2) lim(2) by auto
  from run_turn_bound [OF this assms(3), of "gl_max_iterations (limits policy)"]
  obtain acts t where r: "run_events (state_new rs (gl_max_iterations (limits policy))) es = Some (acts, t)"
    and c: "count_injects acts \<le> length rs * (unat (gl_max_iterations (limits policy)) + 1) + count_list es EResume"
    by blast
  have "length rs * (unat (gl_max_iterations (limits policy)) + 1) \<le> 256 * 101"
    using lim(1,3) assms(2) by (intro mult_le_mono) auto
  with c have "count_injects acts \<le> 256 * 101 + count_list es EResume" by linarith
  with r show ?thesis by blast
qed

text \<open>Witness of C20: a three-role workflow under the default limits.\<close>

theorem admitted_run_is_bounded_witness:
  "\<exists>acts t. run_events (state_new [role_new (lit ''p'') False, role_new (lit ''b'') False, role_new (lit ''v'') True]
        (gl_max_iterations guard_limits_default)) [EStart, EIdle 0, EIdle 1] = Some (acts, t)
    \<and> count_injects acts \<le> 256 * 101 + count_list [EStart, EIdle 0, EIdle 1] EResume"
proof -
  let ?policy = "\<lparr>limits = guard_limits_default, projects_restricted = False, allowed_projects = []\<rparr>"
  let ?facts = "\<lparr>lf_project = ProjectId 3, lf_kind = Workflow, requested_roles = 3, active_runs = 1,
       reserved_role_panes = 0\<rparr>"
  have a: "evaluate_launch ?policy ?facts = Allow" by code_simp
  have l: "length [role_new (lit ''p'') False, role_new (lit ''b'') False, role_new (lit ''v'') True]
      = unat (requested_roles ?facts)" by simp
  have e: "length [EStart, EIdle 0, EIdle 1] < 2 ^ 32" by simp
  from admitted_run_is_bounded [OF a l e] show ?thesis by simp
qed

end
